(* ===== verification/Prelude.thy ===== *)
theory Prelude
  imports Main "HOL-Library.Word"
begin

text \<open>
  Shared vocabulary of the development: the errors the runtime throws, results
  of pure code that may throw, the state-and-error monad in which the stateful
  code is written, the assertion helpers of \<open>cabi/trap.ts\<close>, JavaScript's number
  to string conversion for indices, and generic lemmas the components share.
\<close>

section \<open>Errors\<close>

text \<open>
  \<open>Trap\<close> is a Component Model trap, \<open>AssertionError\<close> a violated host
  precondition (\<open>cabi/trap.ts\<close>), \<open>GenericError\<close> a plain \<open>Error\<close>. \<open>TypeError\<close> is what the
  JavaScript engine or a host-policy check raises; the model also uses it where a
  value does not have the shape that an unchecked TypeScript cast claims.
  \<open>NeedsJspi\<close> and \<open>PendingCapability\<close> are the capability signals of
  \<open>task/scheduler.ts\<close>; \<open>Thrown\<close> is an exception of guest or host code that a
  parameter of the model raises.
\<close>

datatype err =
    Trap string
  | AssertionError string
  | GenericError string
  | TypeError string
  | NeedsJspi string
  | PendingCapability string
  | Thrown nat

fun is_trap :: "err \<Rightarrow> bool" where
  "is_trap (Trap m) = True"
| "is_trap _ = False"

section \<open>Pure results\<close>

type_synonym 'a res = "err + 'a"

definition rbind :: "'a res \<Rightarrow> ('a \<Rightarrow> 'b res) \<Rightarrow> 'b res" where
  "rbind r f = (case r of Inl e \<Rightarrow> Inl e | Inr x \<Rightarrow> f x)"

lemma rbind_Inl [simp]: "rbind (Inl e) f = Inl e"
  by (simp add: rbind_def)

lemma rbind_Inr [simp]: "rbind (Inr x) f = f x"
  by (simp add: rbind_def)

lemma rbind_eq_Inr [simp]: "rbind r f = Inr y \<longleftrightarrow> (\<exists>x. r = Inr x \<and> f x = Inr y)"
  by (cases r) auto

lemma rbind_cong [fundef_cong]:
  "r = r' \<Longrightarrow> (\<And>x. r' = Inr x \<Longrightarrow> f x = g x) \<Longrightarrow> rbind r f = rbind r' g"
  by (cases r') auto

definition rassert :: "bool \<Rightarrow> string \<Rightarrow> unit res" where
  "rassert c msg = (if c then Inr () else Inl (AssertionError msg))"

lemma rassert_Inr [simp]: "rassert c msg = Inr u \<longleftrightarrow> c"
  by (simp add: rassert_def)

lemma rassert_True [simp]: "rassert True msg = Inr ()"
  by (simp add: rassert_def)

fun rmap :: "('a \<Rightarrow> 'b res) \<Rightarrow> 'a list \<Rightarrow> 'b list res" where
  "rmap f [] = Inr []"
| "rmap f (x # xs) = rbind (f x) (\<lambda>y. rbind (rmap f xs) (\<lambda>ys. Inr (y # ys)))"

lemma rmap_cong [fundef_cong]:
  "xs = ys \<Longrightarrow> (\<And>x. x \<in> set ys \<Longrightarrow> f x = g x) \<Longrightarrow> rmap f xs = rmap g ys"
  by (induction ys arbitrary: xs) auto

lemma rmap_Inr_length: "rmap f xs = Inr ys \<Longrightarrow> length ys = length xs"
  by (induction xs arbitrary: ys) auto

lemma rmap_Inr_nth: "rmap f xs = Inr ys \<Longrightarrow> i < length xs \<Longrightarrow> f (xs ! i) = Inr (ys ! i)"
  by (induction xs arbitrary: ys i) (auto simp: nth_Cons split: nat.splits)

lemma rmap_Inr_iff: "(\<exists>ys. rmap f xs = Inr ys) \<longleftrightarrow> (\<forall>x\<in>set xs. \<exists>y. f x = Inr y)"
  by (induction xs) auto

lemma rmap_Inr_list_all2: "rmap f xs = Inr ys \<longleftrightarrow> list_all2 (\<lambda>x y. f x = Inr y) xs ys"
  by (induction xs arbitrary: ys) (auto simp: list_all2_Cons1)

lemma rmap_Inr_in_set: "rmap f xs = Inr ys \<Longrightarrow> y \<in> set ys \<Longrightarrow> \<exists>x\<in>set xs. f x = Inr y"
  by (induction xs arbitrary: ys) auto

lemma rmap_Inr_obtain:
  assumes "\<forall>x\<in>set xs. \<exists>y. f x = Inr y \<and> P y"
  obtains ys where "rmap f xs = Inr ys" "\<forall>y\<in>set ys. P y"
proof -
  from assms obtain ys where ys: "rmap f xs = Inr ys" using rmap_Inr_iff by blast
  moreover have "\<forall>y\<in>set ys. P y"
    using assms rmap_Inr_in_set [OF ys] by (metis Inr_inject)
  ultimately show ?thesis by (rule that)
qed

section \<open>State and errors\<close>

text \<open>
  A stateful operation maps a state to a result and the state it leaves behind. A
  throw keeps the state: the code has no transactional rollback, and what a trap
  leaves behind (a cleared \<open>may_leave\<close>, a removed handle) is part of the model.
\<close>

type_synonym ('s, 'a) m = "'s \<Rightarrow> 'a res \<times> 's"

definition ret :: "'a \<Rightarrow> ('s, 'a) m" where
  "ret x = (\<lambda>s. (Inr x, s))"

definition throw :: "err \<Rightarrow> ('s, 'a) m" where
  "throw e = (\<lambda>s. (Inl e, s))"

definition bnd :: "('s, 'a) m \<Rightarrow> ('a \<Rightarrow> ('s, 'b) m) \<Rightarrow> ('s, 'b) m" where
  "bnd a f = (\<lambda>s. case a s of (Inl e, s') \<Rightarrow> (Inl e, s') | (Inr x, s') \<Rightarrow> f x s')"

definition seqm :: "('s, 'a) m \<Rightarrow> ('s, 'b) m \<Rightarrow> ('s, 'b) m" where
  "seqm a b = bnd a (\<lambda>_. b)"

definition gets :: "('s \<Rightarrow> 'a) \<Rightarrow> ('s, 'a) m" where
  "gets f = (\<lambda>s. (Inr (f s), s))"

definition modify :: "('s \<Rightarrow> 's) \<Rightarrow> ('s, unit) m" where
  "modify f = (\<lambda>s. (Inr (), f s))"

definition of_res :: "'a res \<Rightarrow> ('s, 'a) m" where
  "of_res r = (\<lambda>s. (r, s))"

text \<open>\<open>trapIf\<close> and \<open>assert_\<close> of \<open>cabi/trap.ts\<close>.\<close>

definition trapIf :: "bool \<Rightarrow> string \<Rightarrow> ('s, unit) m" where
  "trapIf c msg = (if c then throw (Trap msg) else ret ())"

definition assertm :: "bool \<Rightarrow> string \<Rightarrow> ('s, unit) m" where
  "assertm c msg = (if c then ret () else throw (AssertionError msg))"

text \<open>A \<open>try\<close>/\<open>finally\<close>: the clean-up runs on both paths, the first error wins.\<close>

definition finallym :: "('s, 'a) m \<Rightarrow> ('s \<Rightarrow> 's) \<Rightarrow> ('s, 'a) m" where
  "finallym a c = (\<lambda>s. let (r, s') = a s in (r, c s'))"

fun mapm :: "('a \<Rightarrow> ('s, 'b) m) \<Rightarrow> 'a list \<Rightarrow> ('s, 'b list) m" where
  "mapm f [] = ret []"
| "mapm f (x # xs) = bnd (f x) (\<lambda>y. bnd (mapm f xs) (\<lambda>ys. ret (y # ys)))"

fun iterm :: "('a \<Rightarrow> ('s, unit) m) \<Rightarrow> 'a list \<Rightarrow> ('s, unit) m" where
  "iterm f [] = ret ()"
| "iterm f (x # xs) = seqm (f x) (iterm f xs)"

text \<open>Run an operation on a part of the state: \<open>g\<close> reads the part, \<open>p\<close> puts it back.\<close>

definition zoom :: "('s \<Rightarrow> 't) \<Rightarrow> ('t \<Rightarrow> 's \<Rightarrow> 's) \<Rightarrow> ('t, 'a) m \<Rightarrow> ('s, 'a) m" where
  "zoom g p a = (\<lambda>s. case a (g s) of (r, t) \<Rightarrow> (r, p t s))"

text \<open>A \<open>try\<close>/\<open>catch\<close> whose handler runs for its effect and rethrows the original error.\<close>

definition on_error :: "('s, 'a) m \<Rightarrow> (err \<Rightarrow> ('s, unit) m) \<Rightarrow> ('s, 'a) m" where
  "on_error a h = (\<lambda>s. case a s of (Inl e, s') \<Rightarrow> (Inl e, snd (h e s')) | (Inr x, s') \<Rightarrow> (Inr x, s'))"

text \<open>A \<open>try\<close>/\<open>finally\<close> whose clean-up may throw, and a \<open>try\<close>/\<open>catch\<close> that goes on.\<close>

definition ensuring :: "('s, 'a) m \<Rightarrow> ('s, unit) m \<Rightarrow> ('s, 'a) m" where
  "ensuring a c = (\<lambda>s. case a s of (r, s') \<Rightarrow>
     (case c s' of (Inl e, s'') \<Rightarrow> (Inl e, s'') | (Inr u, s'') \<Rightarrow> (r, s'')))"

definition catching :: "('s, 'a) m \<Rightarrow> (err \<Rightarrow> ('s, 'a) m) \<Rightarrow> ('s, 'a) m" where
  "catching a h = (\<lambda>s. case a s of (Inl e, s') \<Rightarrow> h e s' | (Inr x, s') \<Rightarrow> (Inr x, s'))"

lemma bnd_cong [fundef_cong]: "a = a' \<Longrightarrow> (\<And>x. f x = g x) \<Longrightarrow> bnd a f = bnd a' g"
  by presburger

lemma seqm_cong [fundef_cong]: "a = a' \<Longrightarrow> b = b' \<Longrightarrow> seqm a b = seqm a' b'"
  by simp

lemma mapm_cong [fundef_cong]:
  "xs = ys \<Longrightarrow> (\<And>x. x \<in> set ys \<Longrightarrow> f x = g x) \<Longrightarrow> mapm f xs = mapm g ys"
  by (induction ys arbitrary: xs) auto

lemma iterm_cong [fundef_cong]:
  "xs = ys \<Longrightarrow> (\<And>x. x \<in> set ys \<Longrightarrow> f x = g x) \<Longrightarrow> iterm f xs = iterm g ys"
  by (induction ys arbitrary: xs) auto

named_theorems monad_simps \<open>unfolding of the monad's operations on a state\<close>

lemma ret_run [simp, monad_simps]: "ret x s = (Inr x, s)"
  by (simp add: ret_def)

lemma throw_run [simp, monad_simps]: "throw e s = (Inl e, s)"
  by (simp add: throw_def)

lemma gets_run [simp, monad_simps]: "gets f s = (Inr (f s), s)"
  by (simp add: gets_def)

lemma modify_run [simp, monad_simps]: "modify f s = (Inr (), f s)"
  by (simp add: modify_def)

lemma of_res_run [simp, monad_simps]: "of_res r s = (r, s)"
  by (simp add: of_res_def)

lemma bnd_run [monad_simps]:
  "bnd a f s = (case a s of (Inl e, s') \<Rightarrow> (Inl e, s') | (Inr x, s') \<Rightarrow> f x s')"
  by (simp add: bnd_def)

lemma seqm_run [monad_simps]:
  "seqm a b s = (case a s of (Inl e, s') \<Rightarrow> (Inl e, s') | (Inr x, s') \<Rightarrow> b s')"
  by (simp add: seqm_def bnd_def)

lemma trapIf_run [monad_simps]:
  "trapIf c msg s = (if c then Inl (Trap msg) else Inr (), s)"
  by (simp add: trapIf_def)

lemma assertm_run [monad_simps]:
  "assertm c msg s = (if c then Inr () else Inl (AssertionError msg), s)"
  by (simp add: assertm_def)

lemma trapIf_False [simp]: "trapIf False msg = ret ()"
  by (simp add: trapIf_def)

lemma trapIf_True [simp]: "trapIf True msg = throw (Trap msg)"
  by (simp add: trapIf_def)

lemma assertm_True [simp]: "assertm True msg = ret ()"
  by (simp add: assertm_def)

lemma assertm_False [simp]: "assertm False msg = throw (AssertionError msg)"
  by (simp add: assertm_def)

lemma bnd_ret [simp]: "bnd (ret x) f = f x"
  by (rule ext) (simp add: bnd_run)

lemma bnd_throw [simp]: "bnd (throw e) f = throw e"
  by (rule ext) (simp add: bnd_run)

lemma seqm_ret [simp]: "seqm (ret x) b = b"
  by (simp add: seqm_def)

lemma seqm_throw [simp]: "seqm (throw e) b = throw e"
  by (simp add: seqm_def)

lemma bnd_gets [simp]: "bnd (gets f) g s = g (f s) s"
  by (simp add: bnd_run)

lemma bnd_of_res_Inr [simp]: "bnd (of_res (Inr x)) f = f x"
  by (rule ext) (simp add: bnd_run)

lemma bnd_of_res_Inl [simp]: "bnd (of_res (Inl e)) f = throw e"
  by (rule ext) (simp add: bnd_run)

text \<open>Successful runs, the form in which the component lemmas use the monad.\<close>

lemma bnd_Inr:
  "bnd a f s = (Inr y, t) \<longleftrightarrow> (\<exists>x u. a s = (Inr x, u) \<and> f x u = (Inr y, t))"
  by (auto simp: bnd_run split: prod.splits sum.splits)

lemma seqm_Inr:
  "seqm a b s = (Inr y, t) \<longleftrightarrow> (\<exists>x u. a s = (Inr x, u) \<and> b u = (Inr y, t))"
  by (simp add: seqm_def bnd_Inr)

lemma trapIf_Inr: "trapIf c msg s = (Inr y, t) \<longleftrightarrow> \<not> c \<and> t = s"
  by (auto simp: trapIf_run)

lemma assertm_Inr: "assertm c msg s = (Inr y, t) \<longleftrightarrow> c \<and> t = s"
  by (auto simp: assertm_run)

lemma zoom_run [monad_simps]: "zoom g p a s = (fst (a (g s)), p (snd (a (g s))) s)"
  by (simp add: zoom_def split: prod.split)

lemma zoom_Inr: "zoom g p a s = (Inr y, t) \<longleftrightarrow> (\<exists>u. a (g s) = (Inr y, u) \<and> t = p u s)"
  by (auto simp: zoom_def split: prod.splits)

lemma on_error_Inr: "on_error a h s = (Inr y, t) \<longleftrightarrow> a s = (Inr y, t)"
  by (auto simp: on_error_def split: prod.splits sum.splits)

lemma ensuring_run [monad_simps]:
  "ensuring a c s = (case c (snd (a s)) of (Inl e, t) \<Rightarrow> (Inl e, t) | (Inr u, t) \<Rightarrow> (fst (a s), t))"
  by (simp add: ensuring_def case_prod_beta)

lemma catching_run [monad_simps]:
  "catching a h s = (case a s of (Inl e, t) \<Rightarrow> h e t | (Inr x, t) \<Rightarrow> (Inr x, t))"
  by (simp add: catching_def)

lemma catching_Inr_step: "a s = (Inr x, t) \<Longrightarrow> catching a h s = (Inr x, t)"
  by (simp add: catching_def)

lemma gets_Inr: "gets f s = (Inr y, t) \<longleftrightarrow> y = f s \<and> t = s"
  by (auto simp: gets_def)

lemma modify_Inr: "modify f s = (Inr y, t) \<longleftrightarrow> t = f s"
  by (auto simp: modify_def)

lemma ret_Inr: "ret x s = (Inr y, t) \<longleftrightarrow> y = x \<and> t = s"
  by (auto simp: ret_def)

lemma throw_Inr [simp]: "throw e s \<noteq> (Inr y, t)"
  by (simp add: throw_def)

lemma of_res_Inr: "of_res r s = (Inr y, t) \<longleftrightarrow> r = Inr y \<and> t = s"
  by (auto simp: of_res_def)

lemmas run_Inr = bnd_Inr seqm_Inr trapIf_Inr assertm_Inr zoom_Inr on_error_Inr gets_Inr modify_Inr
  ret_Inr of_res_Inr

lemma bnd_step: "a s = (Inr x, u) \<Longrightarrow> bnd a f s = f x u"
  by (simp add: bnd_run)

lemma seqm_step: "a s = (Inr x, u) \<Longrightarrow> seqm a b s = b u"
  by (simp add: seqm_run)

lemma bnd_step_err: "a s = (Inl e, u) \<Longrightarrow> bnd a f s = (Inl e, u)"
  by (simp add: bnd_run)

lemma seqm_step_err: "a s = (Inl e, u) \<Longrightarrow> seqm a b s = (Inl e, u)"
  by (simp add: seqm_run)

text \<open>
  \<open>keeps R a\<close>: whatever \<open>a\<close> does, succeed or throw, it relates the state before to
  the state after by \<open>R\<close>. Proved once per primitive, it composes along binds for a
  reflexive and transitive \<open>R\<close>.
\<close>

definition keeps :: "('s \<Rightarrow> 's \<Rightarrow> bool) \<Rightarrow> ('s, 'a) m \<Rightarrow> bool" where
  "keeps R a \<longleftrightarrow> (\<forall>s. R s (snd (a s)))"

lemma keepsD: "keeps R a \<Longrightarrow> a s = (r, t) \<Longrightarrow> R s t"
  by (metis keeps_def snd_conv)

lemma keepsI: "(\<And>s r t. a s = (r, t) \<Longrightarrow> R s t) \<Longrightarrow> keeps R a"
  unfolding keeps_def by (metis prod.collapse)

lemma keeps_bnd:
  assumes "transp R" "keeps R a" "\<And>x. keeps R (f x)"
  shows "keeps R (bnd a f)"
proof (rule keepsI)
  fix s r t
  assume "bnd a f s = (r, t)"
  then show "R s t"
    using assms(2,3) assms(1)
    by (auto simp: bnd_run split: prod.splits sum.splits dest: keepsD)
      (meson keepsD transpD)
qed

lemma keeps_seqm:
  "transp R \<Longrightarrow> keeps R a \<Longrightarrow> keeps R b \<Longrightarrow> keeps R (seqm a b)"
  by (simp add: seqm_def keeps_bnd)

lemma keeps_ret [simp]: "reflp R \<Longrightarrow> keeps R (ret x)"
  by (simp add: keeps_def reflp_def)

lemma keeps_throw [simp]: "reflp R \<Longrightarrow> keeps R (throw e)"
  by (simp add: keeps_def reflp_def)

lemma keeps_gets [simp]: "reflp R \<Longrightarrow> keeps R (gets f)"
  by (simp add: keeps_def reflp_def)

lemma keeps_of_res [simp]: "reflp R \<Longrightarrow> keeps R (of_res r)"
  by (simp add: keeps_def reflp_def)

lemma keeps_trapIf [simp]: "reflp R \<Longrightarrow> keeps R (trapIf c msg)"
  by (simp add: trapIf_def)

lemma keeps_assertm [simp]: "reflp R \<Longrightarrow> keeps R (assertm c msg)"
  by (simp add: assertm_def)

text \<open>\<open>preserves P a\<close>: \<open>a\<close> keeps the invariant \<open>P\<close>, whether it succeeds or throws.\<close>

definition preserves :: "('s \<Rightarrow> bool) \<Rightarrow> ('s, 'a) m \<Rightarrow> bool" where
  "preserves P a \<longleftrightarrow> (\<forall>s. P s \<longrightarrow> P (snd (a s)))"

named_theorems preserving \<open>operations that keep an invariant\<close>

lemma preservesI: "(\<And>s r t. P s \<Longrightarrow> a s = (r, t) \<Longrightarrow> P t) \<Longrightarrow> preserves P a"
  unfolding preserves_def by (metis prod.collapse)

lemma preservesD: "preserves P a \<Longrightarrow> P s \<Longrightarrow> a s = (r, t) \<Longrightarrow> P t"
  by (metis preserves_def snd_conv)

lemma preserves_bnd [preserving]:
  assumes "preserves P a" "\<And>x. preserves P (f x)"
  shows "preserves P (bnd a f)"
proof (rule preservesI)
  fix s r t assume s: "P s" and run: "bnd a f s = (r, t)"
  obtain q u where a: "a s = (q, u)" by fastforce
  have u: "P u" by (rule preservesD [OF assms(1) s a])
  show "P t"
  proof (cases q)
    case (Inl e)
    with run a u show ?thesis by (simp add: bnd_run)
  next
    case (Inr x)
    with run a have "f x u = (r, t)" by (simp add: bnd_run)
    with assms(2) u show ?thesis by (rule preservesD)
  qed
qed

lemma preserves_seqm [preserving]: "preserves P a \<Longrightarrow> preserves P b \<Longrightarrow> preserves P (seqm a b)"
  by (simp add: seqm_def preserves_bnd)

lemma preserves_basic [preserving, simp]:
  "preserves P (ret x)" "preserves P (throw e)" "preserves P (gets f)" "preserves P (of_res r)"
  "preserves P (trapIf c msg)" "preserves P (assertm c msg)"
  by (simp_all add: preserves_def trapIf_run assertm_run)

lemma preserves_if [preserving]:
  "(c \<Longrightarrow> preserves P a) \<Longrightarrow> (\<not> c \<Longrightarrow> preserves P b) \<Longrightarrow> preserves P (if c then a else b)"
  by simp

text \<open>The rules that run an operation; proofs by the rules of \<open>preserving\<close> switch them off.\<close>

lemmas run_rules = ret_run throw_run gets_run modify_run of_res_run

lemma preserves_on_error [preserving]:
  assumes "preserves P a" "\<And>e. preserves P (h e)"
  shows "preserves P (on_error a h)"
proof (rule preservesI)
  fix s r t assume s: "P s" and run: "on_error a h s = (r, t)"
  obtain q u where a: "a s = (q, u)" by fastforce
  have u: "P u" by (rule preservesD [OF assms(1) s a])
  show "P t"
  proof (cases q)
    case (Inl e)
    with run a have "t = snd (h e u)" by (simp add: on_error_def)
    with assms(2) u show ?thesis by (simp add: preserves_def)
  next
    case (Inr x)
    with run a u show ?thesis by (simp add: on_error_def)
  qed
qed

lemma preserves_mapm [preserving]:
  "(\<And>x. x \<in> set xs \<Longrightarrow> preserves P (f x)) \<Longrightarrow> preserves P (mapm f xs)"
  by (induction xs) (auto intro!: preserves_bnd)

lemma preserves_iterm [preserving]:
  "(\<And>x. x \<in> set xs \<Longrightarrow> preserves P (f x)) \<Longrightarrow> preserves P (iterm f xs)"
  by (induction xs) (auto intro!: preserves_seqm)

text \<open>\<open>guards P Q a\<close>: from \<open>P\<close>, \<open>a\<close> keeps \<open>P\<close> when it succeeds and reaches \<open>Q\<close> when it throws.\<close>

definition guards :: "('s \<Rightarrow> bool) \<Rightarrow> ('s \<Rightarrow> bool) \<Rightarrow> ('s, 'a) m \<Rightarrow> bool" where
  "guards P Q a \<longleftrightarrow> (\<forall>s. P s \<longrightarrow> (case a s of (Inr x, t) \<Rightarrow> P t | (Inl e, t) \<Rightarrow> Q t))"

named_theorems guarding \<open>operations that keep an invariant when they succeed\<close>

lemma guards_same: "guards P P a = preserves P a"
proof -
  have "(case a s of (Inr x, t) \<Rightarrow> P t | (Inl e, t) \<Rightarrow> P t) = P (snd (a s))" for s
    by (cases "a s"; cases "fst (a s)") auto
  then show ?thesis by (simp add: guards_def preserves_def)
qed

lemma guardsI:
  "(\<And>s x t. P s \<Longrightarrow> a s = (Inr x, t) \<Longrightarrow> P t) \<Longrightarrow> (\<And>s e t. P s \<Longrightarrow> a s = (Inl e, t) \<Longrightarrow> Q t) \<Longrightarrow> guards P Q a"
  by (auto simp: guards_def split: prod.splits sum.splits)

lemma guardsD:
  "guards P Q a \<Longrightarrow> P s \<Longrightarrow> a s = (Inr x, t) \<Longrightarrow> P t"
  "guards P Q a \<Longrightarrow> P s \<Longrightarrow> a s = (Inl e, t) \<Longrightarrow> Q t"
  by (fastforce simp: guards_def)+

lemma guards_mono: "guards P Q a \<Longrightarrow> (\<And>s. Q s \<Longrightarrow> Q' s) \<Longrightarrow> guards P Q' a"
  by (rule guardsI) (blast dest: guardsD)+

lemma guards_bnd [guarding]:
  assumes "guards P Q a" "\<And>x. guards P Q (f x)"
  shows "guards P Q (bnd a f)"
  unfolding guards_def
proof (intro allI impI)
  fix s assume s: "P s"
  obtain q u where a: "a s = (q, u)" by fastforce
  show "case bnd a f s of (Inr x, t) \<Rightarrow> P t | (Inl e, t) \<Rightarrow> Q t"
  proof (cases q)
    case (Inl e)
    with guardsD(2) [OF assms(1) s] a show ?thesis by (simp add: bnd_run)
  next
    case (Inr x)
    with guardsD(1) [OF assms(1) s] a have "P u" by simp
    then show ?thesis using assms(2) [of x] a Inr by (simp add: guards_def bnd_run)
  qed
qed

lemma guards_seqm [guarding]: "guards P Q a \<Longrightarrow> guards P Q b \<Longrightarrow> guards P Q (seqm a b)"
  by (simp add: seqm_def guards_bnd)

lemma guards_basic [guarding]:
  "guards P Q (ret x)" "guards P Q (gets f)"
  by (simp_all add: guards_def)

lemma guards_throwing [guarding]:
  assumes "\<And>s. P s \<Longrightarrow> Q s"
  shows "guards P Q (throw e)" "guards P Q (of_res r)" "guards P Q (trapIf c msg)" "guards P Q (assertm c msg)"
  using assms by (auto simp: guards_def trapIf_run assertm_run split: sum.split)

lemma guards_if [guarding]:
  "(c \<Longrightarrow> guards P Q a) \<Longrightarrow> (\<not> c \<Longrightarrow> guards P Q b) \<Longrightarrow> guards P Q (if c then a else b)"
  by simp

lemma guards_on_error [guarding]:
  assumes "guards P Q a" "\<And>e. preserves Q (h e)"
  shows "guards P Q (on_error a h)"
proof (rule guardsI)
  fix s x t assume "P s" "on_error a h s = (Inr x, t)"
  then show "P t" using guardsD(1) [OF assms(1)] by (simp add: on_error_Inr)
next
  fix s e t assume s: "P s" and run: "on_error a h s = (Inl e, t)"
  obtain q u where a: "a s = (q, u)" by fastforce
  then have "q = Inl e" "t = snd (h e u)" using run by (auto simp: on_error_def split: sum.splits)
  then show "Q t" using guardsD(2) [OF assms(1) s] a assms(2) by (simp add: preserves_def)
qed

lemma guards_mapm [guarding]:
  "(\<And>x. x \<in> set xs \<Longrightarrow> guards P Q (f x)) \<Longrightarrow> guards P Q (mapm f xs)"
  by (induction xs) (auto simp del: ret_run intro!: guards_bnd guards_basic)

lemma guards_iterm [guarding]:
  "(\<And>x. x \<in> set xs \<Longrightarrow> guards P Q (f x)) \<Longrightarrow> guards P Q (iterm f xs)"
  by (induction xs) (auto simp del: ret_run intro!: guards_seqm guards_basic)

text \<open>
  \<open>wp a Q E s\<close>: from \<open>s\<close>, \<open>a\<close> returns with \<open>Q\<close> or throws with \<open>E\<close>. The rules of \<open>wps\<close>
  compute it along the code; an operation with a contract enters by a rule of its own.
\<close>

definition wp :: "('s, 'a) m \<Rightarrow> ('a \<Rightarrow> 's \<Rightarrow> bool) \<Rightarrow> ('s \<Rightarrow> bool) \<Rightarrow> 's \<Rightarrow> bool" where
  "wp a Q E s = (case a s of (Inr x, t) \<Rightarrow> Q x t | (Inl e, t) \<Rightarrow> E t)"

named_theorems wps \<open>weakest preconditions of the operations of the monad\<close>

lemma wp_basic [wps]:
  "wp (ret x) Q E s = Q x s" "wp (throw e) Q E s = E s" "wp (gets f) Q E s = Q (f s) s"
  "wp (modify g) P E s = P () (g s)" "wp (of_res r) Q E s = (case r of Inl e \<Rightarrow> E s | Inr x \<Rightarrow> Q x s)"
  "wp (trapIf c msg) P E s = (if c then E s else P () s)" "wp (assertm c msg) P E s = (if c then P () s else E s)"
  by (simp_all add: wp_def trapIf_run assertm_run split: sum.split)

lemma wp_bnd [wps]: "wp (bnd a f) Q E s = wp a (\<lambda>x. wp (f x) Q E) E s"
  by (simp add: wp_def bnd_run split: prod.split sum.split)

lemma wp_seqm [wps]: "wp (seqm a b) Q E s = wp a (\<lambda>_. wp b Q E) E s"
  by (simp add: seqm_def wp_bnd)

lemma wp_if [wps]: "wp (if c then a else b) Q E s = (if c then wp a Q E s else wp b Q E s)"
  by simp

lemma wp_ensuring [wps]: "wp (ensuring a c) Q E s = wp a (\<lambda>x. wp c (\<lambda>_. Q x) E) (wp c (\<lambda>_. E) E) s"
  by (simp add: wp_def ensuring_run split: prod.split sum.split)

lemma wp_catching [wps]: "wp (catching a h) Q E s = (case a s of (Inr x, t) \<Rightarrow> Q x t | (Inl e, t) \<Rightarrow> wp (h e) Q E t)"
  by (simp add: wp_def catching_run split: prod.split sum.split)

lemma wp_mono:
  "wp a P F s \<Longrightarrow> (\<And>x t. P x t \<Longrightarrow> Q x t) \<Longrightarrow> (\<And>t. F t \<Longrightarrow> E t) \<Longrightarrow> wp a Q E s"
  by (auto simp: wp_def split: prod.splits sum.splits)

lemma wp_conj: "wp a P E s \<Longrightarrow> wp a Q E s \<Longrightarrow> wp a (\<lambda>x t. P x t \<and> Q x t) E s"
  by (auto simp: wp_def split: prod.splits sum.splits)

lemma wpD:
  "wp a Q E s \<Longrightarrow> a s = (Inr x, t) \<Longrightarrow> Q x t"
  "wp a Q E s \<Longrightarrow> a s = (Inl e, t) \<Longrightarrow> E t"
  by (simp_all add: wp_def)

lemma wpI:
  "(\<And>x t. a s = (Inr x, t) \<Longrightarrow> Q x t) \<Longrightarrow> (\<And>e t. a s = (Inl e, t) \<Longrightarrow> E t) \<Longrightarrow> wp a Q E s"
  by (auto simp: wp_def split: prod.splits sum.splits)

lemma preserves_wp: "preserves P a \<longleftrightarrow> (\<forall>s. P s \<longrightarrow> wp a (\<lambda>_. P) P s)"
proof -
  have "(case a s of (Inr x, t) \<Rightarrow> P t | (Inl e, t) \<Rightarrow> P t) = P (snd (a s))" for s
    by (cases "a s"; cases "fst (a s)") auto
  then show ?thesis by (simp add: preserves_def wp_def)
qed

lemma wp_invI: "preserves P a \<Longrightarrow> P s \<Longrightarrow> wp a (\<lambda>_. P) P s"
  by (simp add: preserves_wp)

section \<open>JavaScript's \<open>String(i)\<close> for array indices\<close>

fun string_of_nat :: "nat \<Rightarrow> string" where
  "string_of_nat n =
     (if n < 10 then [char_of (48 + n)]
      else string_of_nat (n div 10) @ [char_of (48 + n mod 10)])"

declare string_of_nat.simps [simp del]

fun nat_of_digits :: "nat \<Rightarrow> string \<Rightarrow> nat" where
  "nat_of_digits acc [] = acc"
| "nat_of_digits acc (c # cs) = nat_of_digits (10 * acc + (of_char c - 48)) cs"

lemma nat_of_digits_append:
  "nat_of_digits acc (xs @ ys) = nat_of_digits (nat_of_digits acc xs) ys"
  by (induction acc xs rule: nat_of_digits.induct) auto

lemma nat_of_digits_string_of_nat: "nat_of_digits 0 (string_of_nat n) = n"
proof (induction n rule: string_of_nat.induct)
  case (1 n)
  show ?case
  proof (cases "n < 10")
    case True
    then show ?thesis by (subst string_of_nat.simps) simp
  next
    case False
    then have "nat_of_digits 0 (string_of_nat (n div 10)) = n div 10"
      using "1.IH" by simp
    with False show ?thesis
      by (subst string_of_nat.simps) (simp add: nat_of_digits_append)
  qed
qed

lemma string_of_nat_inject [simp]: "string_of_nat m = string_of_nat n \<longleftrightarrow> m = n"
  by (metis nat_of_digits_string_of_nat)

lemma string_of_nat_nonempty [simp]: "string_of_nat n \<noteq> []"
  by (subst string_of_nat.simps) simp

section \<open>Lists\<close>

text \<open>\<open>bytes.set(src, at)\<close>: overwrite a range of a byte array.\<close>

definition overwrite :: "'a list \<Rightarrow> nat \<Rightarrow> 'a list \<Rightarrow> 'a list" where
  "overwrite xs i ys = take i xs @ ys @ drop (i + length ys) xs"

lemma length_overwrite [simp]: "i + length ys \<le> length xs \<Longrightarrow> length (overwrite xs i ys) = length xs"
  by (simp add: overwrite_def)

lemma subarray_overwrite_same [simp]:
  "i + length ys \<le> length xs \<Longrightarrow> take (length ys) (drop i (overwrite xs i ys)) = ys"
  by (simp add: overwrite_def)

lemma nth_overwrite:
  assumes "i + length ys \<le> length xs" "k < length xs"
  shows "overwrite xs i ys ! k = (if i \<le> k \<and> k < i + length ys then ys ! (k - i) else xs ! k)"
  using assms by (auto simp: overwrite_def nth_append min_def)

lemma overwrite_Nil [simp]: "overwrite xs i [] = xs"
  by (simp add: overwrite_def)

lemma overwrite_overwrite_same:
  "i + length ys \<le> length xs \<Longrightarrow> length zs = length ys \<Longrightarrow> overwrite (overwrite xs i ys) i zs = overwrite xs i zs"
  by (rule nth_equalityI) (auto simp: nth_overwrite)

lemma overwrite_append:
  assumes "i + length ys + length zs \<le> length xs"
  shows "overwrite xs i (ys @ zs) = overwrite (overwrite xs i ys) (i + length ys) zs"
  using assms by (intro nth_equalityI) (auto simp: nth_overwrite nth_append)

text \<open>The bytes \<open>[p, p + n)\<close> of a memory.\<close>

definition subarray :: "'a list \<Rightarrow> nat \<Rightarrow> nat \<Rightarrow> 'a list" where
  "subarray xs p n = take n (drop p xs)"

lemma length_subarray [simp]: "p + n \<le> length xs \<Longrightarrow> length (subarray xs p n) = n"
  by (simp add: subarray_def)

lemma nth_subarray: "p + n \<le> length xs \<Longrightarrow> i < n \<Longrightarrow> subarray xs p n ! i = xs ! (p + i)"
  by (simp add: subarray_def)

lemma subarray_overwrite [simp]: "i + length ys \<le> length xs \<Longrightarrow> n = length ys \<Longrightarrow> subarray (overwrite xs i ys) i n = ys"
  by (simp add: subarray_def)

lemma subarray_overwrite_disjoint:
  assumes "i + length ys \<le> length xs" "p + n \<le> length xs" "p + n \<le> i \<or> i + length ys \<le> p"
  shows "subarray (overwrite xs i ys) p n = subarray xs p n"
  using assms by (intro nth_equalityI) (auto simp: nth_subarray nth_overwrite)

lemma subarray_0 [simp]: "subarray xs p 0 = []"
  by (simp add: subarray_def)

lemma subarray_split:
  "p + (a + b) \<le> length xs \<Longrightarrow> subarray xs p (a + b) = subarray xs p a @ subarray xs (p + a) b"
  by (simp add: subarray_def take_add add.commute)

text \<open>A store that leaves every byte outside a range alone.\<close>

definition same_outside :: "nat \<Rightarrow> nat \<Rightarrow> 'a list \<Rightarrow> 'a list \<Rightarrow> bool" where
  "same_outside p n xs ys \<longleftrightarrow>
     length ys = length xs \<and> (\<forall>k < length xs. k < p \<or> p + n \<le> k \<longrightarrow> ys ! k = xs ! k)"

lemma same_outside_refl [simp]: "same_outside p n xs xs"
  by (simp add: same_outside_def)

lemma same_outside_trans:
  "same_outside p n xs ys \<Longrightarrow> same_outside p n ys zs \<Longrightarrow> same_outside p n xs zs"
  by (simp add: same_outside_def)

lemma same_outside_mono:
  "same_outside p n xs ys \<Longrightarrow> q \<le> p \<Longrightarrow> p + n \<le> q + k \<Longrightarrow> same_outside q k xs ys"
  by (auto simp: same_outside_def)

lemma same_outside_overwrite [simp]:
  "p + length ys \<le> length xs \<Longrightarrow> n = length ys \<Longrightarrow> same_outside p n xs (overwrite xs p ys)"
  by (auto simp: same_outside_def nth_overwrite)

lemma same_outside_subarray:
  assumes "same_outside p n xs ys" "q + k \<le> length xs" "q + k \<le> p \<or> p + n \<le> q"
  shows "subarray ys q k = subarray xs q k"
  using assms by (intro nth_equalityI) (auto simp: nth_subarray same_outside_def)

end
