(* ===== verification/Cabi_Types.thy ===== *)
theory Cabi_Types
  imports Prelude
begin

text \<open>
  The in-memory descriptor model of \<open>runtime/src/cabi/types.ts\<close>: core types, the
  value types and their despecialization, discriminant widths, the label index of
  a variant, the containment test, structural equality and the diagnostic text.

  The object identities the code compares are numbers here: a \<open>ResourceTableInfo\<close>
  carries the identity of its own object and that of the \<open>ResourceTypeInfo\<close> it
  refers to. The identity-keyed memo tables (\<open>despecializedCache\<close>, \<open>caseIndexCache\<close>)
  cache pure functions and are left out; \<open>WeakMap\<close> hits return what the function returns.
\<close>

section \<open>Core types\<close>

datatype core_type = I32 | I64 | F32 | F64

datatype ptr_type = P32 | P64

fun core_of_ptr :: "ptr_type \<Rightarrow> core_type" where
  "core_of_ptr P32 = I32"
| "core_of_ptr P64 = I64"

record core_func_type =
  cft_params :: "core_type list"
  cft_results :: "core_type list"

definition coreFuncTypeEquals :: "core_func_type \<Rightarrow> core_func_type \<Rightarrow> bool" where
  "coreFuncTypeEquals a b \<longleftrightarrow>
     length (cft_params a) = length (cft_params b) \<and>
     length (cft_results a) = length (cft_results b) \<and>
     list_all (\<lambda>(p, q). p = q) (zip (cft_params a) (cft_params b)) \<and>
     list_all (\<lambda>(p, q). p = q) (zip (cft_results a) (cft_results b))"

datatype string_encoding = Utf8 | Utf16 | Latin1Utf16

section \<open>Value types\<close>

datatype rtable = RTable (rt_id: nat) (rt_resource: nat)

datatype prim =
    PBool | PS8 | PU8 | PS16 | PU16 | PS32 | PU32 | PS64 | PU64 | PF32 | PF64 | PChar | PString

datatype valtype =
    Prim prim
  | ErrorContextT
  | ListT valtype "nat option"
  | RecordT "(string \<times> valtype) list"
  | TupleT "valtype list"
  | VariantT "(string \<times> valtype option) list"
  | EnumT "string list"
  | OptionT valtype
  | ResultT "valtype option" "valtype option"
  | MapT valtype valtype
  | FlagsT "string list"
  | OwnT rtable
  | BorrowT rtable
  | StreamT "valtype option"
  | FutureT "valtype option"

type_synonym field_type = "string \<times> valtype"
type_synonym case_type = "string \<times> valtype option"

record func_type =
  ft_params :: "valtype list"
  ft_results :: "valtype list"
  ft_async :: bool

section \<open>Despecialization\<close>

definition index_labels :: "'a list \<Rightarrow> (string \<times> 'a) list" where
  "index_labels es = zip (map string_of_nat [0..<length es]) es"

fun despecialize :: "valtype \<Rightarrow> valtype" where
  "despecialize (TupleT es) = RecordT (index_labels es)"
| "despecialize (EnumT ls) = VariantT (map (\<lambda>l. (l, None)) ls)"
| "despecialize (OptionT t) = VariantT [(''none'', None), (''some'', Some t)]"
| "despecialize (ResultT ok er) = VariantT [(''ok'', ok), (''error'', er)]"
| "despecialize (MapT k v) = ListT (RecordT (index_labels [k, v])) None"
| "despecialize t = t"

fun is_despecialized :: "valtype \<Rightarrow> bool" where
  "is_despecialized (TupleT _) = False"
| "is_despecialized (EnumT _) = False"
| "is_despecialized (OptionT _) = False"
| "is_despecialized (ResultT _ _) = False"
| "is_despecialized (MapT _ _) = False"
| "is_despecialized _ = True"

lemma is_despecialized_despecialize [simp]: "is_despecialized (despecialize t)"
  by (cases t) auto

lemma despecialize_id: "is_despecialized t \<Longrightarrow> despecialize t = t"
  by (cases t) auto

lemma despecialize_idem [simp]: "despecialize (despecialize t) = despecialize t"
  by (simp add: despecialize_id)

lemma map_snd_index_labels [simp]: "map snd (index_labels es) = es"
  by (simp add: index_labels_def)

lemma map_o_snd_index_labels [simp]: "map (\<lambda>f. g (snd f)) (index_labels es) = map g es"
  using arg_cong [OF map_snd_index_labels [of es], of "map g"] by (simp del: map_snd_index_labels add: comp_def)

lemma map_fst_index_labels [simp]: "map fst (index_labels es) = map string_of_nat [0..<length es]"
  by (simp add: index_labels_def)

lemma length_index_labels [simp]: "length (index_labels es) = length es"
  by (simp add: index_labels_def)

lemma distinct_index_labels [simp]: "distinct (map fst (index_labels es))"
  by (simp add: distinct_map inj_on_def)

text \<open>A size that despecialization does not increase below the type itself: every
  recursive descent of the interpreter goes to a component of smaller size.\<close>

fun tsize :: "valtype \<Rightarrow> nat" where
  "tsize (Prim _) = 1"
| "tsize ErrorContextT = 1"
| "tsize (ListT t _) = Suc (tsize t)"
| "tsize (RecordT fs) = Suc (sum_list (map (\<lambda>f. tsize (snd f)) fs))"
| "tsize (TupleT es) = Suc (sum_list (map tsize es))"
| "tsize (VariantT cs) = Suc (sum_list (map (\<lambda>c. case snd c of None \<Rightarrow> 0 | Some t \<Rightarrow> tsize t) cs))"
| "tsize (EnumT ls) = 1"
| "tsize (OptionT t) = Suc (tsize t)"
| "tsize (ResultT ok er) =
     Suc ((case ok of None \<Rightarrow> 0 | Some t \<Rightarrow> tsize t) + (case er of None \<Rightarrow> 0 | Some t \<Rightarrow> tsize t))"
| "tsize (MapT k v) = Suc (Suc (tsize k + tsize v))"
| "tsize (FlagsT _) = 1"
| "tsize (OwnT _) = 1"
| "tsize (BorrowT _) = 1"
| "tsize (StreamT e) = Suc (case e of None \<Rightarrow> 0 | Some t \<Rightarrow> tsize t)"
| "tsize (FutureT e) = Suc (case e of None \<Rightarrow> 0 | Some t \<Rightarrow> tsize t)"

lemma tsize_despecialize [simp]: "tsize (despecialize t) = tsize t"
proof (cases t)
  case (MapT k v)
  have "map (\<lambda>f. tsize (snd f)) (index_labels [k, v]) = [tsize k, tsize v]"
    by (simp only: map_o_snd_index_labels list.map)
  then show ?thesis using MapT by simp
next
  case (EnumT ls)
  have "sum_list (map (\<lambda>c. case snd c of None \<Rightarrow> 0 | Some t \<Rightarrow> tsize t)
          (map (\<lambda>l. (l, None)) ls)) = 0"
    by (induction ls) auto
  then show ?thesis using EnumT by simp
qed auto

lemma tsize_pos [simp]: "0 < tsize t"
  by (cases t) auto

lemma tsize_field: "f \<in> set fs \<Longrightarrow> tsize (snd f) \<le> sum_list (map (\<lambda>f. tsize (snd f)) fs)"
  by (induction fs) auto

lemma tsize_case:
  "c \<in> set cs \<Longrightarrow> snd c = Some t \<Longrightarrow>
   tsize t \<le> sum_list (map (\<lambda>c. case snd c of None \<Rightarrow> 0 | Some t \<Rightarrow> tsize t) cs)"
  by (induction cs) auto

lemma tsize_of_list: "despecialize t = ListT e n \<Longrightarrow> tsize e < tsize t"
  by (metis lessI tsize.simps(3) tsize_despecialize)

lemma tsize_of_record: "despecialize t = RecordT fs \<Longrightarrow> f \<in> set fs \<Longrightarrow> tsize (snd f) < tsize t"
  using tsize_field [of f fs] tsize_despecialize [of t] by simp

lemma tsize_of_variant:
  "despecialize t = VariantT cs \<Longrightarrow> c \<in> set cs \<Longrightarrow> snd c = Some u \<Longrightarrow> tsize u < tsize t"
  using tsize_case [of c cs u] tsize_despecialize [of t] by simp

lemma tsize_of_stream: "despecialize t = StreamT (Some e) \<Longrightarrow> tsize e < tsize t"
  using tsize_despecialize [of t] by simp

lemma tsize_of_future: "despecialize t = FutureT (Some e) \<Longrightarrow> tsize e < tsize t"
  using tsize_despecialize [of t] by simp

lemmas tsize_descend =
  tsize_of_list [OF sym] tsize_of_record [OF sym] tsize_of_variant [OF sym]
  tsize_of_stream [OF sym] tsize_of_future [OF sym]

section \<open>Discriminants\<close>

definition discriminantSize :: "nat \<Rightarrow> nat res" where
  "discriminantSize n =
     (if \<not> (0 < n \<and> n < 2 ^ 32) then Inl (GenericError ''assertion failed: case count'')
      else if n \<le> 256 then Inr 1
      else if n \<le> 65536 then Inr 2
      else Inr 4)"

definition discriminantType :: "case_type list \<Rightarrow> valtype res" where
  "discriminantType cases = rbind (discriminantSize (length cases)) (\<lambda>n.
     Inr (Prim (if n = 1 then PU8 else if n = 2 then PU16 else PU32)))"

lemma discriminantSize_Inr:
  "discriminantSize n = Inr k \<Longrightarrow> k \<in> {1, 2, 4} \<and> 0 < n \<and> n \<le> 2 ^ (8 * k)"
  by (auto simp: discriminantSize_def split: if_splits)

lemma discriminantSize_total: "0 < n \<Longrightarrow> n < 2 ^ 32 \<Longrightarrow> \<exists>k. discriminantSize n = Inr k"
  by (auto simp: discriminantSize_def)

lemma discriminantType_Inr:
  "discriminantType cs = Inr t \<longleftrightarrow>
   (\<exists>k. discriminantSize (length cs) = Inr k \<and>
        t = Prim (if k = 1 then PU8 else if k = 2 then PU16 else PU32))"
  by (auto simp: discriminantType_def)

text \<open>
  \<open>caseIndexOf\<close> builds a map from labels to indices, with \<open>-1\<close> for a label that
  occurs twice. \<open>caseIndexLoop\<close> is its \<open>for\<close> loop over the remaining cases.
\<close>

fun caseIndexLoop :: "case_type list \<Rightarrow> nat \<Rightarrow> (string \<rightharpoonup> int) \<Rightarrow> (string \<rightharpoonup> int)" where
  "caseIndexLoop [] i m = m"
| "caseIndexLoop (c # cs) i m =
     caseIndexLoop cs (Suc i) (m(fst c \<mapsto> (if m (fst c) \<noteq> None then - 1 else int i)))"

definition caseIndexOf :: "case_type list \<Rightarrow> (string \<rightharpoonup> int)" where
  "caseIndexOf cases = caseIndexLoop cases 0 Map.empty"

lemma caseIndexLoop_fresh:
  "l \<notin> fst ` set cs \<Longrightarrow> caseIndexLoop cs i m l = m l"
  by (induction cs i m rule: caseIndexLoop.induct) auto

lemma caseIndexLoop_bound:
  "m l \<noteq> None \<Longrightarrow> l \<in> fst ` set cs \<Longrightarrow> caseIndexLoop cs i m l = Some (- 1)"
proof (induction cs i m rule: caseIndexLoop.induct)
  case (1 i m)
  then show ?case by simp
next
  case (2 c cs i m)
  show ?case
  proof (cases "l \<in> fst ` set cs")
    case True
    moreover have "(m(fst c \<mapsto> (if m (fst c) \<noteq> None then - 1 else int i))) l \<noteq> None"
      using "2.prems"(1) by simp
    ultimately show ?thesis
      unfolding caseIndexLoop.simps by (intro "2.IH")
  next
    case False
    with 2 show ?thesis by (auto simp: caseIndexLoop_fresh)
  qed
qed

lemma caseIndexLoop_distinct:
  "distinct (map fst cs) \<Longrightarrow> k < length cs \<Longrightarrow> m (fst (cs ! k)) = None \<Longrightarrow>
   caseIndexLoop cs i m (fst (cs ! k)) = Some (int (i + k))"
proof (induction cs i m arbitrary: k rule: caseIndexLoop.induct)
  case (1 i m)
  then show ?case by simp
next
  case (2 c cs i m)
  show ?case
  proof (cases k)
    case 0
    with 2 show ?thesis by (simp add: caseIndexLoop_fresh)
  next
    case (Suc j)
    with "2.prems" have "j < length cs" by simp
    with "2.prems" have "fst (cs ! j) \<noteq> fst c" by (metis distinct.simps(2) image_eqI list.set_map list.simps(9) nth_mem)
    with "2.prems" Suc show ?thesis
      using "2.IH" [of j] by (simp del: fun_upd_apply add: fun_upd_other)
  qed
qed

lemma caseIndexOf_distinct:
  "distinct (map fst cs) \<Longrightarrow> k < length cs \<Longrightarrow> caseIndexOf cs (fst (cs ! k)) = Some (int k)"
  by (simp add: caseIndexOf_def caseIndexLoop_distinct)

lemma caseIndexLoop_sound:
  assumes "caseIndexLoop cs i m l = Some (int k)" "m l = None"
  shows "i \<le> k \<and> k < i + length cs \<and> fst (cs ! (k - i)) = l
     \<and> (\<forall>j < length cs. fst (cs ! j) = l \<longrightarrow> j = k - i)"
  using assms
proof (induction cs i m rule: caseIndexLoop.induct)
  case (1 i m)
  then show ?case by simp
next
  case (2 c cs i m)
  show ?case
  proof (cases "fst c = l")
    case True
    with 2 have l: "l \<notin> fst ` set cs"
      using caseIndexLoop_bound [of "m(fst c \<mapsto> int i)" l cs "Suc i"] by auto
    with 2 True have "k = i" by (simp add: caseIndexLoop_fresh)
    moreover have "\<forall>j < Suc (length cs). fst ((c # cs) ! j) = l \<longrightarrow> j = 0"
      using l by (auto simp: nth_Cons image_iff split: nat.splits)
    ultimately show ?thesis using True by simp
  next
    case False
    have "(m(fst c \<mapsto> (if m (fst c) \<noteq> None then - 1 else int i))) l = None"
      using "2.prems"(2) False by simp
    note I = "2.IH" [OF "2.prems"(1) [unfolded caseIndexLoop.simps] this]
    note IH = I [THEN conjunct1] I [THEN conjunct2, THEN conjunct1]
      I [THEN conjunct2, THEN conjunct2, THEN conjunct1]
      I [THEN conjunct2, THEN conjunct2, THEN conjunct2]
    obtain d where d: "k = Suc (i + d)" using le_Suc_ex [OF IH(1)] by auto
    have kd: "k - Suc i = d" "k - i = Suc d" using d by simp_all
    have "j = Suc d" if "j < Suc (length cs)" "fst ((c # cs) ! j) = l" for j
    proof (cases j)
      case 0
      with that False show ?thesis by simp
    next
      case (Suc j')
      with that IH(4) show ?thesis unfolding kd by simp
    qed
    then have "\<forall>j < length (c # cs). fst ((c # cs) ! j) = l \<longrightarrow> j = k - i"
      unfolding kd by simp
    moreover have "i \<le> k" "k < i + length (c # cs)" "fst ((c # cs) ! (k - i)) = l"
      using IH(1,2,3) unfolding kd by simp_all
    ultimately show ?thesis by blast
  qed
qed

section \<open>Containment\<close>

function contains :: "valtype option \<Rightarrow> (valtype \<Rightarrow> bool) \<Rightarrow> bool" where
  "contains None p = False"
| "contains (Some t) p =
     (let d = despecialize t in
      case d of
        ListT e _ \<Rightarrow> p d \<or> contains (Some e) p
      | StreamT e \<Rightarrow> p d \<or> contains e p
      | FutureT e \<Rightarrow> p d \<or> contains e p
      | RecordT fs \<Rightarrow> p d \<or> list_ex (\<lambda>f. contains (Some (snd f)) p) fs
      | VariantT cs \<Rightarrow> p d \<or> list_ex (\<lambda>c. contains (snd c) p) cs
      | _ \<Rightarrow> p d)"
  by pat_completeness auto
termination
proof (relation "measure (\<lambda>(t, p). case t of None \<Rightarrow> 0 | Some t \<Rightarrow> tsize t)", goal_cases)
  case 1
  show ?case by simp
next
  case (2 t p d e n)
  then show ?case by (auto dest: tsize_descend)
next
  case (3 t p d fs f)
  then show ?case by (auto dest: tsize_descend)
next
  case (4 t p d cs c)
  then show ?case by (auto split: option.splits dest: tsize_descend)
next
  case (5 t p d e)
  then show ?case by (auto split: option.splits dest: tsize_descend)
next
  case (6 t p d e)
  then show ?case by (auto split: option.splits dest: tsize_descend)
qed

declare contains.simps [simp del]

fun is_borrow :: "valtype \<Rightarrow> bool" where
  "is_borrow (BorrowT _) = True"
| "is_borrow _ = False"

definition containsBorrow :: "valtype option \<Rightarrow> bool" where
  "containsBorrow t = contains t is_borrow"

section \<open>Structural equality\<close>

text \<open>
  \<open>valTypeEqual a b identity\<close>. The leading \<open>a === b\<close> of the source is a shortcut:
  the structural comparison is reflexive (\<open>valTypeEqual_refl\<close>).
\<close>

datatype identity = Local | Underlying

function valTypeEqual :: "valtype option \<Rightarrow> valtype option \<Rightarrow> identity \<Rightarrow> bool" where
  "valTypeEqual a b i =
     (case a of
        None \<Rightarrow> b = None
      | Some t \<Rightarrow>
          (case b of
             None \<Rightarrow> False
           | Some u \<Rightarrow>
               (case t of
                  Prim p \<Rightarrow> u = Prim p
                | ErrorContextT \<Rightarrow> u = ErrorContextT
                | ListT e n \<Rightarrow>
                    (case u of ListT e' n' \<Rightarrow> n = n' \<and> valTypeEqual (Some e) (Some e') i | _ \<Rightarrow> False)
                | RecordT fs \<Rightarrow>
                    (case u of
                       RecordT gs \<Rightarrow> length fs = length gs \<and>
                         list_all (\<lambda>(f, g). fst f = fst g \<and> valTypeEqual (Some (snd f)) (Some (snd g)) i)
                           (zip fs gs)
                     | _ \<Rightarrow> False)
                | TupleT es \<Rightarrow>
                    (case u of
                       TupleT es' \<Rightarrow> length es = length es' \<and>
                         list_all (\<lambda>(e, e'). valTypeEqual (Some e) (Some e') i) (zip es es')
                     | _ \<Rightarrow> False)
                | VariantT cs \<Rightarrow>
                    (case u of
                       VariantT ds \<Rightarrow> length cs = length ds \<and>
                         list_all (\<lambda>(c, d). fst c = fst d \<and>
                             (if snd c = None \<or> snd d = None then snd c = snd d
                              else valTypeEqual (snd c) (snd d) i))
                           (zip cs ds)
                     | _ \<Rightarrow> False)
                | EnumT ls \<Rightarrow> u = EnumT ls
                | FlagsT ls \<Rightarrow> u = FlagsT ls
                | OptionT e \<Rightarrow> (case u of OptionT e' \<Rightarrow> valTypeEqual (Some e) (Some e') i | _ \<Rightarrow> False)
                | ResultT ok er \<Rightarrow>
                    (case u of
                       ResultT ok' er' \<Rightarrow>
                         (ok = None) = (ok' = None) \<and> (er = None) = (er' = None) \<and>
                         (ok = None \<or> valTypeEqual ok ok' i) \<and> (er = None \<or> valTypeEqual er er' i)
                     | _ \<Rightarrow> False)
                | MapT k v \<Rightarrow>
                    (case u of
                       MapT k' v' \<Rightarrow> valTypeEqual (Some k) (Some k') i \<and> valTypeEqual (Some v) (Some v') i
                     | _ \<Rightarrow> False)
                | OwnT rt \<Rightarrow>
                    (case u of
                       OwnT rt' \<Rightarrow> (if i = Local then rt_id rt = rt_id rt' else rt_resource rt = rt_resource rt')
                     | _ \<Rightarrow> False)
                | BorrowT rt \<Rightarrow>
                    (case u of
                       BorrowT rt' \<Rightarrow> (if i = Local then rt_id rt = rt_id rt' else rt_resource rt = rt_resource rt')
                     | _ \<Rightarrow> False)
                | StreamT e \<Rightarrow>
                    (case u of
                       StreamT e' \<Rightarrow> (e = None) = (e' = None) \<and> (e = None \<or> valTypeEqual e e' i)
                     | _ \<Rightarrow> False)
                | FutureT e \<Rightarrow>
                    (case u of
                       FutureT e' \<Rightarrow> (e = None) = (e' = None) \<and> (e = None \<or> valTypeEqual e e' i)
                     | _ \<Rightarrow> False))))"
  by pat_completeness auto

definition otsize :: "valtype option \<Rightarrow> nat" where
  "otsize t = (case t of None \<Rightarrow> 0 | Some u \<Rightarrow> tsize u)"

lemma otsize_simps [simp]: "otsize None = 0" "otsize (Some t) = tsize t"
  by (simp_all add: otsize_def)

lemma tsize_elem: "e \<in> set es \<Longrightarrow> tsize e \<le> sum_list (map tsize es)"
  by (induction es) auto

lemma otsize_case:
  "c \<in> set cs \<Longrightarrow> otsize (snd c) \<le> sum_list (map (\<lambda>c. case snd c of None \<Rightarrow> 0 | Some t \<Rightarrow> tsize t) cs)"
  by (induction cs) (auto simp: otsize_def)

lemma tsize_less:
  "e \<in> set es \<Longrightarrow> tsize e < Suc (sum_list (map tsize es))"
  "(l, t) \<in> set fs \<Longrightarrow> tsize t < Suc (\<Sum>f\<leftarrow>fs. tsize (snd f))"
  "(l, Some t) \<in> set cs \<Longrightarrow> tsize t < Suc (\<Sum>c\<leftarrow>cs. case snd c of None \<Rightarrow> 0 | Some t \<Rightarrow> tsize t)"
  using tsize_elem [of e es] tsize_field [of "(l, t)" fs] otsize_case [of "(l, Some t)" cs] by simp_all

termination valTypeEqual
  by (relation "measure (\<lambda>(a, b, i). otsize a)")
    (auto dest!: set_zip_leftD intro: tsize_less split: option.splits)

declare valTypeEqual.simps [simp del]

lemma valTypeEqual_None [simp]:
  "valTypeEqual None b i = (b = None)" "valTypeEqual a None i = (a = None)"
  by (simp_all add: valTypeEqual.simps split: option.split)

lemma set_zip_same: "(x, y) \<in> set (zip xs xs) \<longleftrightarrow> x = y \<and> x \<in> set xs"
  by (auto simp: set_zip in_set_conv_nth)

lemma valTypeEqual_refl: "valTypeEqual a a i"
proof (induction "otsize a" arbitrary: a rule: less_induct)
  case less
  show ?case
  proof (cases a)
    case None
    then show ?thesis by simp
  next
    case (Some t)
    have IH: "\<And>b. otsize b < tsize t \<Longrightarrow> valTypeEqual b b i"
      using less Some by simp
    show ?thesis unfolding Some
      by (subst valTypeEqual.simps)
        (auto simp: list_all_iff set_zip_same intro!: IH tsize_less
          split: valtype.splits option.splits)
  qed
qed

definition valTypesEqual :: "valtype list \<Rightarrow> valtype list \<Rightarrow> bool" where
  "valTypesEqual a b \<longleftrightarrow>
     length a = length b \<and> list_all (\<lambda>(t, u). valTypeEqual (Some t) (Some u) Local) (zip a b)"

section \<open>Diagnostic text\<close>

fun sep_by :: "string \<Rightarrow> string list \<Rightarrow> string" where
  "sep_by sep [] = []"
| "sep_by sep [s] = s"
| "sep_by sep (s # ss) = s @ sep @ sep_by sep ss"

fun prim_kind :: "prim \<Rightarrow> string" where
  "prim_kind PBool = ''bool''"
| "prim_kind PS8 = ''s8''"
| "prim_kind PU8 = ''u8''"
| "prim_kind PS16 = ''s16''"
| "prim_kind PU16 = ''u16''"
| "prim_kind PS32 = ''s32''"
| "prim_kind PU32 = ''u32''"
| "prim_kind PS64 = ''s64''"
| "prim_kind PU64 = ''u64''"
| "prim_kind PF32 = ''f32''"
| "prim_kind PF64 = ''f64''"
| "prim_kind PChar = ''char''"
| "prim_kind PString = ''string''"

fun fmtValType :: "valtype \<Rightarrow> string" where
  "fmtValType (ListT e None) = ''list<'' @ fmtValType e @ ''>''"
| "fmtValType (ListT e (Some n)) = ''list<'' @ fmtValType e @ '', '' @ string_of_nat n @ ''>''"
| "fmtValType (RecordT fs) =
     ''record{'' @ sep_by '', '' (map (\<lambda>f. fst f @ '': '' @ fmtValType (snd f)) fs) @ ''}''"
| "fmtValType (TupleT es) = ''tuple<'' @ sep_by '', '' (map fmtValType es) @ ''>''"
| "fmtValType (VariantT cs) =
     ''variant{'' @ sep_by '', '' (map (\<lambda>c. case snd c of None \<Rightarrow> fst c
         | Some u \<Rightarrow> fst c @ ''('' @ fmtValType u @ '')'') cs) @ ''}''"
| "fmtValType (EnumT ls) = ''enum{'' @ sep_by '', '' ls @ ''}''"
| "fmtValType (FlagsT ls) = ''flags{'' @ sep_by '', '' ls @ ''}''"
| "fmtValType (OptionT t) = ''option<'' @ fmtValType t @ ''>''"
| "fmtValType (ResultT ok er) =
     ''result<'' @ (case ok of None \<Rightarrow> ''_'' | Some t \<Rightarrow> fmtValType t) @ '', '' @
       (case er of None \<Rightarrow> ''_'' | Some t \<Rightarrow> fmtValType t) @ ''>''"
| "fmtValType (MapT k v) = ''map<'' @ fmtValType k @ '', '' @ fmtValType v @ ''>''"
| "fmtValType (OwnT rt) = ''own<resource>''"
| "fmtValType (BorrowT rt) = ''borrow<resource>''"
| "fmtValType (StreamT e) = ''stream<'' @ (case e of None \<Rightarrow> ''_'' | Some t \<Rightarrow> fmtValType t) @ ''>''"
| "fmtValType (FutureT e) = ''future<'' @ (case e of None \<Rightarrow> ''_'' | Some t \<Rightarrow> fmtValType t) @ ''>''"
| "fmtValType ErrorContextT = ''error-context''"
| "fmtValType (Prim p) = prim_kind p"

end
