(* ===== verification/Cabi_Layout.thy ===== *)
theory Cabi_Layout
  imports Cabi_Types
begin

unbundle bit_operations_syntax

text \<open>
  Byte layout of component values (\<open>runtime/src/cabi/layout.ts\<close>): alignment, size,
  record field offsets and variant payload offset. \<open>layoutOf\<close> computes the layout of
  a type from the layouts of its components; the helpers take those layouts where the
  source looks them up again by type. Sizes are exact natural numbers, as JavaScript
  numbers are below \<open>2^53\<close>.
\<close>

section \<open>The layout of a type\<close>

definition ptrSize :: "ptr_type \<Rightarrow> nat" where
  "ptrSize pt = (if pt = P32 then 4 else 8)"

definition alignTo :: "nat \<Rightarrow> nat \<Rightarrow> nat" where
  "alignTo p a = ((p + (a - 1)) div a) * a"

record layout =
  l_d :: valtype
  l_align :: nat
  l_size :: nat
  l_offsets :: "nat list option"
  l_disc :: nat
  l_payload :: nat

definition mkLayout ::
    "valtype \<Rightarrow> nat \<Rightarrow> nat \<Rightarrow> nat list option \<Rightarrow> nat \<Rightarrow> nat \<Rightarrow> layout res" where
  "mkLayout d align sz offsets disc payload =
     rbind (rassert (0 < align \<and> align AND (align - 1) = 0)
              ''layout alignment must be a power of two'') (\<lambda>_.
     Inr \<lparr>l_d = d, l_align = align, l_size = sz, l_offsets = offsets,
          l_disc = disc, l_payload = payload\<rparr>)"

definition alignmentFlags :: "string list \<Rightarrow> nat res" where
  "alignmentFlags ls = (let n = length ls in
     rbind (rassert (0 < n \<and> n \<le> 32) ''flags label count'') (\<lambda>_.
     Inr (if n \<le> 8 then 1 else if n \<le> 16 then 2 else 4)))"

definition elemSizeFlags :: "string list \<Rightarrow> nat res" where
  "elemSizeFlags ls = (let n = length ls in
     rbind (rassert (0 < n \<and> n \<le> 32) ''flags label count'') (\<lambda>_.
     Inr (if n \<le> 8 then 1 else if n \<le> 16 then 2 else 4)))"

definition alignmentList :: "layout \<Rightarrow> nat option \<Rightarrow> ptr_type \<Rightarrow> nat" where
  "alignmentList e n pt = (if n \<noteq> None then l_align e else ptrSize pt)"

definition elemSizeList :: "layout \<Rightarrow> nat option \<Rightarrow> ptr_type \<Rightarrow> nat" where
  "elemSizeList e n pt = (case n of Some k \<Rightarrow> k * l_size e | None \<Rightarrow> 2 * ptrSize pt)"

fun alignmentRecord :: "nat \<Rightarrow> layout list \<Rightarrow> nat" where
  "alignmentRecord a [] = a"
| "alignmentRecord a (f # fs) = alignmentRecord (max a (l_align f)) fs"

fun recordOffsets :: "nat \<Rightarrow> layout list \<Rightarrow> nat list" where
  "recordOffsets p [] = []"
| "recordOffsets p (f # fs) =
     (let q = alignTo p (l_align f) in q # recordOffsets (q + l_size f) fs)"

fun recordEnd :: "nat \<Rightarrow> layout list \<Rightarrow> nat" where
  "recordEnd s [] = s"
| "recordEnd s (f # fs) = recordEnd (alignTo s (l_align f) + l_size f) fs"

definition elemSizeRecord :: "layout list \<Rightarrow> nat res" where
  "elemSizeRecord fs = (let s = recordEnd 0 fs in
     rbind (rassert (s > 0) ''empty record'') (\<lambda>_.
     Inr (alignTo s (alignmentRecord 1 fs))))"

definition recordLayout :: "valtype \<Rightarrow> layout list \<Rightarrow> layout res" where
  "recordLayout d fs =
     rbind (elemSizeRecord fs) (\<lambda>sz.
     mkLayout d (alignmentRecord 1 fs) sz (Some (recordOffsets 0 fs)) 0 0)"

fun maxCaseAlignment :: "nat \<Rightarrow> layout option list \<Rightarrow> nat" where
  "maxCaseAlignment a [] = a"
| "maxCaseAlignment a (None # cs) = maxCaseAlignment a cs"
| "maxCaseAlignment a (Some l # cs) = maxCaseAlignment (max a (l_align l)) cs"

fun maxCaseSize :: "nat \<Rightarrow> layout option list \<Rightarrow> nat" where
  "maxCaseSize s [] = s"
| "maxCaseSize s (None # cs) = maxCaseSize s cs"
| "maxCaseSize s (Some l # cs) = maxCaseSize (max s (l_size l)) cs"

definition alignmentVariant :: "nat \<Rightarrow> layout option list \<Rightarrow> nat" where
  "alignmentVariant disc cs = max disc (maxCaseAlignment 1 cs)"

definition elemSizeVariant :: "nat \<Rightarrow> layout option list \<Rightarrow> nat" where
  "elemSizeVariant disc cs =
     (let s = alignTo disc (maxCaseAlignment 1 cs); s' = s + maxCaseSize 0 cs
      in alignTo s' (alignmentVariant disc cs))"

definition variantLayout :: "valtype \<Rightarrow> nat \<Rightarrow> layout option list \<Rightarrow> layout res" where
  "variantLayout d disc cs =
     mkLayout d (alignmentVariant disc cs) (elemSizeVariant disc cs) None disc
       (alignTo disc (maxCaseAlignment 1 cs))"

fun prim_width :: "prim \<Rightarrow> ptr_type \<Rightarrow> nat \<times> nat" where
  "prim_width PBool pt = (1, 1)"
| "prim_width PS8 pt = (1, 1)"
| "prim_width PU8 pt = (1, 1)"
| "prim_width PS16 pt = (2, 2)"
| "prim_width PU16 pt = (2, 2)"
| "prim_width PS32 pt = (4, 4)"
| "prim_width PU32 pt = (4, 4)"
| "prim_width PF32 pt = (4, 4)"
| "prim_width PChar pt = (4, 4)"
| "prim_width PS64 pt = (8, 8)"
| "prim_width PU64 pt = (8, 8)"
| "prim_width PF64 pt = (8, 8)"
| "prim_width PString pt = (ptrSize pt, 2 * ptrSize pt)"

function layoutOf :: "valtype \<Rightarrow> ptr_type \<Rightarrow> layout res" where
  "layoutOf t pt =
     (let d = despecialize t in
      case d of
        Prim p \<Rightarrow> (case prim_width p pt of (a, s) \<Rightarrow> mkLayout d a s None 0 0)
      | ErrorContextT \<Rightarrow> mkLayout d 4 4 None 0 0
      | ListT e n \<Rightarrow>
          rbind (layoutOf e pt) (\<lambda>l.
          mkLayout d (alignmentList l n pt) (elemSizeList l n pt) None 0 0)
      | RecordT fs \<Rightarrow>
          rbind (rmap (\<lambda>f. layoutOf (snd f) pt) fs) (\<lambda>ls. recordLayout d ls)
      | VariantT cs \<Rightarrow>
          rbind (discriminantSize (length cs)) (\<lambda>disc.
          rbind (rmap (\<lambda>c. case snd c of None \<Rightarrow> Inr None
                          | Some u \<Rightarrow> rbind (layoutOf u pt) (\<lambda>l. Inr (Some l))) cs) (\<lambda>ls.
          variantLayout d disc ls))
      | FlagsT ls \<Rightarrow>
          rbind (alignmentFlags ls) (\<lambda>a. rbind (elemSizeFlags ls) (\<lambda>s. mkLayout d a s None 0 0))
      | _ \<Rightarrow> mkLayout d 4 4 None 0 0)"
  by pat_completeness auto

termination
  by (relation "measure (\<lambda>(t, pt). tsize t)") (auto dest: tsize_descend)

declare layoutOf.simps [simp del]

definition alignment :: "valtype \<Rightarrow> ptr_type \<Rightarrow> nat res" where
  "alignment t pt = rbind (layoutOf t pt) (\<lambda>l. Inr (l_align l))"

definition elemSize :: "valtype \<Rightarrow> ptr_type \<Rightarrow> nat res" where
  "elemSize t pt = rbind (layoutOf t pt) (\<lambda>l. Inr (l_size l))"

section \<open>Arithmetic of alignment\<close>

lemma alignTo_bounds: "0 < a \<Longrightarrow> p \<le> alignTo p a \<and> alignTo p a < p + a"
proof -
  assume a: "0 < a"
  define q r where "q = (p + (a - 1)) div a" and "r = (p + (a - 1)) mod a"
  have "q * a + r = p + (a - 1)" unfolding q_def r_def by (rule div_mult_mod_eq)
  moreover have "r < a" using a by (simp add: r_def)
  moreover have "alignTo p a = q * a" by (simp add: alignTo_def q_def)
  ultimately show ?thesis using a by linarith
qed

lemmas alignTo_ge = alignTo_bounds [THEN conjunct1]
lemmas alignTo_less = alignTo_bounds [THEN conjunct2]

lemma alignTo_dvd [simp]: "a dvd alignTo p a"
  by (simp add: alignTo_def)

lemma alignTo_mult_add: "0 < a \<Longrightarrow> alignTo (k * a + p) a = k * a + alignTo p a"
proof -
  assume a: "0 < a"
  have "(k * a + p + (a - 1)) div a = k + (p + (a - 1)) div a"
    using a by (metis add.assoc div_mult_self3 less_not_refl3)
  then show ?thesis by (simp add: alignTo_def algebra_simps)
qed

lemma alignTo_0 [simp]: "alignTo 0 a = 0"
  by (cases "a = 0") (simp_all add: alignTo_def)

lemma alignTo_add: "0 < a \<Longrightarrow> a dvd b \<Longrightarrow> alignTo (b + p) a = b + alignTo p a"
  by (metis alignTo_mult_add dvd_def mult.commute)

lemma alignTo_id: "0 < a \<Longrightarrow> a dvd p \<Longrightarrow> alignTo p a = p"
  using alignTo_add [of a p 0] by simp

lemma alignTo_eq_iff: "0 < a \<Longrightarrow> p = alignTo p a \<longleftrightarrow> a dvd p"
  by (metis alignTo_dvd alignTo_id)

definition widths :: "nat set" where
  "widths = {1, 2, 4, 8}"

lemma widths_cases: "a \<in> widths \<longleftrightarrow> a = 1 \<or> a = 2 \<or> a = 4 \<or> a = 8"
  by (auto simp: widths_def)

lemma widths_pos: "a \<in> widths \<Longrightarrow> 0 < a"
  by (auto simp: widths_def)

lemma widths_max: "a \<in> widths \<Longrightarrow> b \<in> widths \<Longrightarrow> max a b \<in> widths"
  by (auto simp: widths_def)

lemma widths_dvd: "a \<in> widths \<Longrightarrow> b \<in> widths \<Longrightarrow> a \<le> b \<Longrightarrow> a dvd b"
  by (auto simp: widths_def)

lemma widths_pow2: "a \<in> widths \<Longrightarrow> 0 < a \<and> a AND (a - 1) = 0"
  by (auto simp: widths_def)

lemma widths_one [simp]: "1 \<in> widths" "Suc 0 \<in> widths"
  by (auto simp: widths_def)

lemma ptrSize_widths [simp]: "ptrSize pt \<in> widths"
  by (auto simp: widths_def ptrSize_def)

lemma discriminantSize_widths: "discriminantSize n = Inr k \<Longrightarrow> k \<in> widths"
  by (auto simp: widths_def dest: discriminantSize_Inr)

section \<open>Every layout is aligned and padded\<close>

lemma mkLayout_Inr:
  "mkLayout d a sz offs disc payload = Inr l \<longleftrightarrow>
   0 < a \<and> a AND (a - 1) = 0 \<and>
   l = \<lparr>l_d = d, l_align = a, l_size = sz, l_offsets = offs, l_disc = disc, l_payload = payload\<rparr>"
  by (auto simp: mkLayout_def)

lemma mkLayout_widths:
  "a \<in> widths \<Longrightarrow> mkLayout d a sz offs disc payload =
     Inr \<lparr>l_d = d, l_align = a, l_size = sz, l_offsets = offs, l_disc = disc, l_payload = payload\<rparr>"
  using widths_pow2 [of a] by (simp add: mkLayout_def rassert_def)

definition layout_ok :: "layout \<Rightarrow> bool" where
  "layout_ok l \<longleftrightarrow> l_align l \<in> widths \<and> l_align l dvd l_size l"

lemma layout_okD: "layout_ok l \<Longrightarrow> l_align l \<in> widths" "layout_ok l \<Longrightarrow> l_align l dvd l_size l"
    "layout_ok l \<Longrightarrow> 0 < l_align l"
  by (auto simp: layout_ok_def widths_pos)

lemma alignmentRecord_widths:
  "a \<in> widths \<Longrightarrow> \<forall>l\<in>set ls. layout_ok l \<Longrightarrow> alignmentRecord a ls \<in> widths"
  by (induction a ls rule: alignmentRecord.induct) (auto simp: layout_ok_def widths_max)

lemma alignmentRecord_ge: "a \<le> alignmentRecord a ls"
  by (induction a ls rule: alignmentRecord.induct) auto

lemma alignmentRecord_ge_field: "l \<in> set ls \<Longrightarrow> l_align l \<le> alignmentRecord a ls"
proof (induction a ls rule: alignmentRecord.induct)
  case (1 a)
  then show ?case by simp
next
  case (2 a f fs)
  then show ?case using alignmentRecord_ge [of "max a (l_align f)" fs] by auto
qed

lemma maxCaseAlignment_widths:
  "a \<in> widths \<Longrightarrow> \<forall>l. Some l \<in> set ls \<longrightarrow> layout_ok l \<Longrightarrow> maxCaseAlignment a ls \<in> widths"
  by (induction a ls rule: maxCaseAlignment.induct) (auto simp: layout_ok_def widths_max)

lemma maxCaseAlignment_ge: "a \<le> maxCaseAlignment a ls"
  by (induction a ls rule: maxCaseAlignment.induct) auto

lemma maxCaseAlignment_ge_case: "Some l \<in> set ls \<Longrightarrow> l_align l \<le> maxCaseAlignment a ls"
proof (induction a ls rule: maxCaseAlignment.induct)
  case (3 a k cs)
  then show ?case using maxCaseAlignment_ge [of "max a (l_align k)" cs] by auto
qed auto

lemma maxCaseSize_ge: "a \<le> maxCaseSize a ls"
  by (induction a ls rule: maxCaseSize.induct) auto

lemma maxCaseSize_ge_case: "Some l \<in> set ls \<Longrightarrow> l_size l \<le> maxCaseSize a ls"
proof (induction a ls rule: maxCaseSize.induct)
  case (3 a k cs)
  then show ?case using maxCaseSize_ge [of "max a (l_size k)" cs] by auto
qed auto

lemma prim_width_ok: "prim_width p pt = (a, s) \<Longrightarrow> a \<in> widths \<and> a dvd s \<and> 0 < s"
  by (cases p; cases pt) (auto simp: widths_def ptrSize_def)

lemma alignmentFlags_Inr:
  "alignmentFlags ls = Inr a \<Longrightarrow> elemSizeFlags ls = Inr a \<and> a \<in> widths \<and> length ls \<le> 8 * a \<and> 0 < length ls"
  by (auto simp: alignmentFlags_def elemSizeFlags_def widths_def Let_def split: if_splits)

lemma elemSizeFlags_eq: "elemSizeFlags ls = alignmentFlags ls"
  by (simp add: alignmentFlags_def elemSizeFlags_def)

text \<open>The shape of a layout, by the despecialized type.\<close>

lemma layoutOf_Prim:
  "despecialize t = Prim p \<Longrightarrow> layoutOf t pt =
   Inr \<lparr>l_d = Prim p, l_align = fst (prim_width p pt), l_size = snd (prim_width p pt),
        l_offsets = None, l_disc = 0, l_payload = 0\<rparr>"
  using prim_width_ok [of p pt] by (subst layoutOf.simps) (auto simp: mkLayout_widths split: prod.splits)

lemma layoutOf_record:
  "despecialize t = RecordT fs \<Longrightarrow> layoutOf t pt =
   rbind (rmap (\<lambda>f. layoutOf (snd f) pt) fs) (\<lambda>ls. recordLayout (RecordT fs) ls)"
  by (subst layoutOf.simps) (simp cong: rmap_cong)

lemma layoutOf_variant:
  "despecialize t = VariantT cs \<Longrightarrow> layoutOf t pt =
   rbind (discriminantSize (length cs)) (\<lambda>disc.
   rbind (rmap (\<lambda>c. case snd c of None \<Rightarrow> Inr None
                   | Some u \<Rightarrow> rbind (layoutOf u pt) (\<lambda>l. Inr (Some l))) cs) (\<lambda>ls.
   variantLayout (VariantT cs) disc ls))"
  by (subst layoutOf.simps) (simp cong: rmap_cong)

lemma layoutOf_list:
  "despecialize t = ListT e n \<Longrightarrow> layoutOf t pt =
   rbind (layoutOf e pt) (\<lambda>l.
   mkLayout (ListT e n) (alignmentList l n pt) (elemSizeList l n pt) None 0 0)"
  by (subst layoutOf.simps) simp

lemma layoutOf_flags:
  "despecialize t = FlagsT ls \<Longrightarrow> layoutOf t pt =
   rbind (alignmentFlags ls) (\<lambda>a. rbind (elemSizeFlags ls) (\<lambda>s. mkLayout (FlagsT ls) a s None 0 0))"
  by (subst layoutOf.simps) simp

fun is_handle_type :: "valtype \<Rightarrow> bool" where
  "is_handle_type ErrorContextT = True"
| "is_handle_type (OwnT _) = True"
| "is_handle_type (BorrowT _) = True"
| "is_handle_type (StreamT _) = True"
| "is_handle_type (FutureT _) = True"
| "is_handle_type _ = False"

lemma layoutOf_handle:
  "is_handle_type (despecialize t) \<Longrightarrow> layoutOf t pt =
   Inr \<lparr>l_d = despecialize t, l_align = 4, l_size = 4, l_offsets = None, l_disc = 0, l_payload = 0\<rparr>"
  by (subst layoutOf.simps)
    (cases "despecialize t"; simp add: mkLayout_widths widths_def)

lemmas layoutOf_cases = layoutOf_Prim layoutOf_record layoutOf_variant layoutOf_list
  layoutOf_flags layoutOf_handle

lemma despecialize_cases:
  obtains (prim) p where "despecialize t = Prim p"
  | (list) e n where "despecialize t = ListT e n"
  | (rec) fs where "despecialize t = RecordT fs"
  | (variant) cs where "despecialize t = VariantT cs"
  | (flags) ls where "despecialize t = FlagsT ls"
  | (handle) "is_handle_type (despecialize t)"
  using is_despecialized_despecialize [of t] by (cases "despecialize t") auto

lemma layoutOf_d: "layoutOf t pt = Inr l \<Longrightarrow> l_d l = despecialize t"
  by (cases t rule: despecialize_cases)
    (auto simp: layoutOf_cases recordLayout_def variantLayout_def mkLayout_Inr)

lemma recordLayout_Inr:
  "recordLayout d ls = Inr l \<Longrightarrow>
   0 < recordEnd 0 ls \<and> l_align l = alignmentRecord 1 ls \<and>
   l_size l = alignTo (recordEnd 0 ls) (alignmentRecord 1 ls) \<and>
   l_offsets l = Some (recordOffsets 0 ls)"
  by (auto simp: recordLayout_def elemSizeRecord_def mkLayout_Inr Let_def)

lemma variantLayout_Inr:
  "variantLayout d disc ls = Inr l \<Longrightarrow>
   l_align l = alignmentVariant disc ls \<and> l_size l = elemSizeVariant disc ls \<and>
   l_disc l = disc \<and> l_payload l = alignTo disc (maxCaseAlignment 1 ls)"
  by (auto simp: variantLayout_def mkLayout_Inr)

lemma layoutOf_ok: "layoutOf t pt = Inr l \<Longrightarrow> layout_ok l"
proof (induction "tsize t" arbitrary: t l rule: less_induct)
  case less
  show ?case
  proof (cases t rule: despecialize_cases)
    case (prim p)
    then show ?thesis using less.prems prim_width_ok [of p pt]
      by (cases "prim_width p pt") (auto simp: layoutOf_Prim layout_ok_def)
  next
    case (list e n)
    with less.prems obtain le where "layoutOf e pt = Inr le"
        "mkLayout (ListT e n) (alignmentList le n pt) (elemSizeList le n pt) None 0 0 = Inr l"
      by (auto simp: layoutOf_list)
    moreover from this less.hyps list have "layout_ok le" using tsize_of_list by blast
    ultimately show ?thesis
      by (auto simp: mkLayout_Inr layout_ok_def alignmentList_def elemSizeList_def split: option.splits)
  next
    case (rec fs)
    with less.prems obtain ls where ls: "rmap (\<lambda>f. layoutOf (snd f) pt) fs = Inr ls"
        "recordLayout (RecordT fs) ls = Inr l"
      by (auto simp: layoutOf_record)
    have "layout_ok k" if "k \<in> set ls" for k
    proof -
      from that obtain i where i: "i < length fs" "k = ls ! i"
        using rmap_Inr_length [OF ls(1)] by (auto simp: in_set_conv_nth)
      with rmap_Inr_nth [OF ls(1)] have "layoutOf (snd (fs ! i)) pt = Inr k" by simp
      moreover from i have "tsize (snd (fs ! i)) < tsize t" by (simp add: tsize_of_record [OF rec])
      ultimately show ?thesis by (rule less.hyps [rotated])
    qed
    then show ?thesis
      using recordLayout_Inr [OF ls(2)] by (auto simp: layout_ok_def intro: alignmentRecord_widths)
  next
    case (variant cs)
    with less.prems obtain disc ls where ls: "discriminantSize (length cs) = Inr disc"
        "rmap (\<lambda>c. case snd c of None \<Rightarrow> Inr None
                   | Some u \<Rightarrow> rbind (layoutOf u pt) (\<lambda>l. Inr (Some l))) cs = Inr ls"
        "variantLayout (VariantT cs) disc ls = Inr l"
      by (auto simp: layoutOf_variant)
    have "layout_ok k" if "Some k \<in> set ls" for k
    proof -
      from that obtain i where i: "i < length cs" "ls ! i = Some k"
        using rmap_Inr_length [OF ls(2)] by (auto simp: in_set_conv_nth)
      with rmap_Inr_nth [OF ls(2), of i] obtain u where u: "snd (cs ! i) = Some u" "layoutOf u pt = Inr k"
        by (auto split: option.splits)
      have "tsize u < tsize t" by (rule tsize_of_variant [OF variant nth_mem [OF i(1)] u(1)])
      from this u(2) show ?thesis by (rule less.hyps)
    qed
    then have "alignmentVariant disc ls \<in> widths"
      unfolding alignmentVariant_def
      by (intro widths_max discriminantSize_widths [OF ls(1)] maxCaseAlignment_widths) auto
    then show ?thesis
      using variantLayout_Inr [OF ls(3)]
      by (simp add: layout_ok_def elemSizeVariant_def Let_def)
  next
    case (flags ls)
    then show ?thesis using less.prems
      by (auto simp: layoutOf_flags mkLayout_Inr layout_ok_def dest!: alignmentFlags_Inr)
  next
    case handle
    then show ?thesis using less.prems by (auto simp: layoutOf_handle layout_ok_def widths_def)
  qed
qed

section \<open>Field and payload placement\<close>

lemma length_recordOffsets [simp]: "length (recordOffsets p ls) = length ls"
  by (induction p ls rule: recordOffsets.induct) (auto simp: Let_def)

lemma recordEnd_ge: "\<forall>l\<in>set ls. 0 < l_align l \<Longrightarrow> p \<le> recordEnd p ls"
proof (induction p ls rule: recordEnd.induct)
  case (1 s)
  then show ?case by simp
next
  case (2 s f fs)
  then show ?case using alignTo_ge [of "l_align f" s] by auto
qed

lemma recordOffsets_field:
  assumes "\<forall>l\<in>set ls. 0 < l_align l" "i < length ls"
  shows "p \<le> recordOffsets p ls ! i \<and> l_align (ls ! i) dvd recordOffsets p ls ! i \<and>
         recordOffsets p ls ! i + l_size (ls ! i) \<le> recordEnd p ls"
  using assms
proof (induction p ls arbitrary: i rule: recordOffsets.induct)
  case (1 p)
  then show ?case by simp
next
  case (2 p f fs)
  define q where "q = alignTo p (l_align f)"
  have q: "p \<le> q" using "2.prems"(1) alignTo_ge [of "l_align f" p] by (simp add: q_def)
  show ?case
  proof (cases i)
    case 0
    then show ?thesis
      using q "2.prems"(1) recordEnd_ge [of fs "q + l_size f"] by (simp add: q_def Let_def)
  next
    case (Suc j)
    then show ?thesis
      using q "2.IH" [OF q_def, of j] "2.prems" by (auto simp: q_def Let_def)
  qed
qed

lemma recordOffsets_sep:
  assumes "\<forall>l\<in>set ls. 0 < l_align l" "i < j" "j < length ls"
  shows "recordOffsets p ls ! i + l_size (ls ! i) \<le> recordOffsets p ls ! j"
  using assms
proof (induction p ls arbitrary: i j rule: recordOffsets.induct)
  case (1 p)
  then show ?case by simp
next
  case (2 p f fs)
  define q where "q = alignTo p (l_align f)"
  obtain j' where j': "j = Suc j'" "j' < length fs"
    using "2.prems" by (cases j) auto
  show ?case
  proof (cases i)
    case 0
    then show ?thesis
      using recordOffsets_field [of fs j' "q + l_size f"] "2.prems"(1) j' by (simp add: q_def Let_def)
  next
    case (Suc i')
    then show ?thesis
      using "2.IH" [OF q_def, of i' j'] "2.prems" j' by (auto simp: q_def Let_def)
  qed
qed

lemma recordOffsets_base:
  assumes "\<forall>l\<in>set ls. l_align l dvd b \<and> 0 < l_align l"
  shows "recordOffsets (b + p) ls = map (\<lambda>q. b + q) (recordOffsets p ls)"
  using assms
  by (induction p ls rule: recordOffsets.induct) (auto simp: Let_def alignTo_add add.assoc)

text \<open>The layouts of a record's fields and of a variant's payloads.\<close>

lemma layoutOf_record_fields:
  assumes "layoutOf t pt = Inr l" "despecialize t = RecordT fs"
  obtains ls where "rmap (\<lambda>f. layoutOf (snd f) pt) fs = Inr ls" "length ls = length fs"
    "\<And>i. i < length fs \<Longrightarrow> layoutOf (snd (fs ! i)) pt = Inr (ls ! i)"
    "\<forall>k\<in>set ls. layout_ok k" "recordLayout (RecordT fs) ls = Inr l"
proof -
  from assms obtain ls where ls: "rmap (\<lambda>f. layoutOf (snd f) pt) fs = Inr ls"
      "recordLayout (RecordT fs) ls = Inr l"
    by (auto simp: layoutOf_record)
  note n = rmap_Inr_length [OF ls(1)] and nth = rmap_Inr_nth [OF ls(1)]
  have "\<forall>k\<in>set ls. layout_ok k"
    using n nth layoutOf_ok by (metis in_set_conv_nth)
  with that ls n nth show ?thesis by blast
qed

lemma layoutOf_variant_cases:
  assumes "layoutOf t pt = Inr l" "despecialize t = VariantT cs"
  obtains disc ls where "discriminantSize (length cs) = Inr disc" "length ls = length cs"
    "\<And>i. i < length cs \<Longrightarrow> snd (cs ! i) = None \<Longrightarrow> ls ! i = None"
    "\<And>i u. i < length cs \<Longrightarrow> snd (cs ! i) = Some u \<Longrightarrow>
        \<exists>k. ls ! i = Some k \<and> layoutOf u pt = Inr k \<and> layout_ok k"
    "\<And>k. Some k \<in> set ls \<Longrightarrow> layout_ok k" "variantLayout (VariantT cs) disc ls = Inr l"
proof -
  from assms obtain disc ls where ls: "discriminantSize (length cs) = Inr disc"
      "rmap (\<lambda>c. case snd c of None \<Rightarrow> Inr None
                 | Some u \<Rightarrow> rbind (layoutOf u pt) (\<lambda>l. Inr (Some l))) cs = Inr ls"
      "variantLayout (VariantT cs) disc ls = Inr l"
    by (auto simp: layoutOf_variant)
  note n = rmap_Inr_length [OF ls(2)] and nth = rmap_Inr_nth [OF ls(2)]
  have none: "ls ! i = None" if "i < length cs" "snd (cs ! i) = None" for i
    using nth [OF that(1)] that(2) by simp
  have some: "\<exists>k. ls ! i = Some k \<and> layoutOf u pt = Inr k \<and> layout_ok k"
    if "i < length cs" "snd (cs ! i) = Some u" for i u
    using nth [OF that(1)] that(2) by (auto dest: layoutOf_ok)
  have "layout_ok k" if k: "Some k \<in> set ls" for k
  proof -
    from k obtain i where i: "i < length cs" "ls ! i = Some k" using n by (metis in_set_conv_nth)
    with none [OF i(1)] obtain u where "snd (cs ! i) = Some u" by (cases "snd (cs ! i)") auto
    with some [OF i(1) this] i(2) show ?thesis by simp
  qed
  with that ls n none some show ?thesis by blast
qed

section \<open>Types that have a layout\<close>

text \<open>
  The types component validation lets through, as far as the layout reads them: no
  empty record, tuple, variant or flags, fewer than \<open>2^32\<close> cases, at most 32 flags,
  no fixed-length list of length zero.
\<close>

function valid_type :: "valtype \<Rightarrow> bool" where
  "valid_type t =
     (case despecialize t of
        ListT e n \<Rightarrow> valid_type e \<and> n \<noteq> Some 0
      | RecordT fs \<Rightarrow> fs \<noteq> [] \<and> list_all (\<lambda>f. valid_type (snd f)) fs
      | VariantT cs \<Rightarrow> cs \<noteq> [] \<and> length cs < 2 ^ 32 \<and>
          list_all (\<lambda>c. case snd c of None \<Rightarrow> True | Some u \<Rightarrow> valid_type u) cs
      | FlagsT ls \<Rightarrow> 0 < length ls \<and> length ls \<le> 32
      | _ \<Rightarrow> True)"
  by pat_completeness auto

termination
  by (relation "measure tsize") (auto intro: tsize_of_list tsize_of_record [where f = "(a, b)" for a b, simplified]
      tsize_of_variant [where c = "(a, Some b)" for a b, simplified])

declare valid_type.simps [simp del]

lemma recordEnd_pos:
  "ls \<noteq> [] \<Longrightarrow> \<forall>l\<in>set ls. 0 < l_size l \<and> 0 < l_align l \<Longrightarrow> 0 < recordEnd p ls"
proof (cases ls)
  case (Cons f fs)
  assume "\<forall>l\<in>set ls. 0 < l_size l \<and> 0 < l_align l"
  then show ?thesis using Cons recordEnd_ge [of fs "alignTo p (l_align f) + l_size f"] by auto
qed simp

lemma layoutOf_total: "valid_type t \<Longrightarrow> \<exists>l. layoutOf t pt = Inr l \<and> 0 < l_size l"
proof (induction "tsize t" arbitrary: t rule: less_induct)
  case less
  note valid = less.prems [unfolded valid_type.simps [of t]]
  show ?case
  proof (cases t rule: despecialize_cases)
    case (prim p)
    then show ?thesis using prim_width_ok [of p pt] by (cases "prim_width p pt") (auto simp: layoutOf_Prim)
  next
    case (list e n)
    with valid less.hyps tsize_of_list obtain l where l: "layoutOf e pt = Inr l" "0 < l_size l"
      by fastforce
    have "alignmentList l n pt \<in> widths"
      using layoutOf_ok [OF l(1)] by (auto simp: alignmentList_def layout_ok_def)
    moreover have "0 < elemSizeList l n pt"
      using valid list l(2) by (auto simp: elemSizeList_def ptrSize_def split: option.splits)
    ultimately show ?thesis using list l by (simp add: layoutOf_list mkLayout_widths)
  next
    case (rec fs)
    have "\<forall>f\<in>set fs. \<exists>l. layoutOf (snd f) pt = Inr l \<and> 0 < l_size l"
      using valid rec less.hyps tsize_of_record [OF rec] by (auto simp: list_all_iff)
    then obtain ls where ls: "rmap (\<lambda>f. layoutOf (snd f) pt) fs = Inr ls" "\<forall>l\<in>set ls. 0 < l_size l"
      by (rule rmap_Inr_obtain)
    have ok: "\<forall>l\<in>set ls. layout_ok l"
      using rmap_Inr_in_set [OF ls(1)] layoutOf_ok by blast
    have "ls \<noteq> []" using valid rec rmap_Inr_length [OF ls(1)] by auto
    with ls(2) ok have "0 < recordEnd 0 ls" by (intro recordEnd_pos) (auto dest: layout_okD)
    moreover have w: "alignmentRecord 1 ls \<in> widths" using ok by (simp add: alignmentRecord_widths)
    moreover have "recordEnd 0 ls \<le> alignTo (recordEnd 0 ls) (alignmentRecord 1 ls)"
      by (rule alignTo_ge [OF widths_pos [OF w]])
    ultimately show ?thesis using ls rec
      by (auto simp: layoutOf_record recordLayout_def elemSizeRecord_def mkLayout_widths Let_def)
  next
    case (variant cs)
    then obtain disc where disc: "discriminantSize (length cs) = Inr disc"
      using valid discriminantSize_total by fastforce
    have "\<forall>c\<in>set cs. \<exists>l. (case snd c of None \<Rightarrow> Inr None
                 | Some u \<Rightarrow> rbind (layoutOf u pt) (\<lambda>l. Inr (Some l))) = Inr l"
      using valid variant less.hyps tsize_of_variant [OF variant]
      by (fastforce simp: list_all_iff split: option.splits)
    then obtain ls where ls: "rmap (\<lambda>c. case snd c of None \<Rightarrow> Inr None
                 | Some u \<Rightarrow> rbind (layoutOf u pt) (\<lambda>l. Inr (Some l))) cs = Inr ls"
      using rmap_Inr_iff [of "\<lambda>c. case snd c of None \<Rightarrow> Inr None
                 | Some u \<Rightarrow> rbind (layoutOf u pt) (\<lambda>l. Inr (Some l))" cs] by auto
    have ok: "layout_ok k" if "Some k \<in> set ls" for k
    proof -
      from that obtain i where "i < length cs" "ls ! i = Some k"
        using rmap_Inr_length [OF ls] by (metis in_set_conv_nth)
      with rmap_Inr_nth [OF ls] show ?thesis by (fastforce split: option.splits dest: layoutOf_ok)
    qed
    have w: "maxCaseAlignment 1 ls \<in> widths" "alignmentVariant disc ls \<in> widths"
      using ok discriminantSize_widths [OF disc]
      by (auto simp: alignmentVariant_def intro!: widths_max maxCaseAlignment_widths)
    have "0 < disc" using discriminantSize_Inr [OF disc] by auto
    also have "disc \<le> alignTo disc (maxCaseAlignment 1 ls)"
      by (rule alignTo_ge [OF widths_pos [OF w(1)]])
    also have "\<dots> \<le> elemSizeVariant disc ls"
      unfolding elemSizeVariant_def Let_def
      by (rule order_trans [OF le_add1 alignTo_ge [OF widths_pos [OF w(2)]]])
    finally show ?thesis using disc ls variant w(2)
      by (simp add: layoutOf_variant variantLayout_def mkLayout_widths)
  next
    case (flags ls)
    with valid have "0 < length ls" "length ls \<le> 32" by auto
    then show ?thesis using flags
      by (auto simp: layoutOf_flags alignmentFlags_def elemSizeFlags_def mkLayout_widths widths_def Let_def)
  next
    case handle
    then show ?thesis by (simp add: layoutOf_handle)
  qed
qed

section \<open>Properties\<close>

text \<open>C29. Every valid type has a layout, for either pointer width: its alignment is 1, 2, 4
  or 8 and its size a positive multiple of the alignment, so that consecutive list
  elements stay aligned.\<close>

theorem layoutOf_total_aligned:
  assumes "valid_type t"
  shows "\<exists>l. layoutOf t pt = Inr l \<and> l_align l \<in> {1, 2, 4, 8} \<and> 0 < l_size l \<and> l_align l dvd l_size l"
  using layoutOf_total [OF assms] layoutOf_ok by (force simp: layout_ok_def widths_def)

lemma layoutOf_total_aligned_witness:
  "\<exists>l. layoutOf (TupleT [Prim PU8, OptionT (Prim PU64)]) P32 = Inr l \<and> l_align l \<in> {1, 2, 4, 8} \<and>
     0 < l_size l \<and> l_align l dvd l_size l"
  by (rule layoutOf_total_aligned) (simp add: valid_type.simps index_labels_def)

text \<open>C30. The fields of a record lie inside it in declaration order: each at a multiple of
  its alignment, ending before the next begins and before the record's end.\<close>

theorem layoutOf_record_placement:
  assumes "layoutOf t pt = Inr l" "despecialize t = RecordT fs"
  shows "\<exists>offs ls. l_offsets l = Some offs \<and> length offs = length fs \<and>
    rmap (\<lambda>f. layoutOf (snd f) pt) fs = Inr ls \<and>
    (\<forall>i < length fs. l_align (ls ! i) dvd offs ! i \<and> offs ! i + l_size (ls ! i) \<le> l_size l) \<and>
    (\<forall>j < length fs. \<forall>i < j. offs ! i + l_size (ls ! i) \<le> offs ! j)"
proof -
  obtain ls where ls: "rmap (\<lambda>f. layoutOf (snd f) pt) fs = Inr ls" "length ls = length fs"
      "\<forall>k\<in>set ls. layout_ok k" "recordLayout (RecordT fs) ls = Inr l"
    using assms by (rule layoutOf_record_fields)
  have pos: "\<forall>k\<in>set ls. 0 < l_align k" using ls(3) layout_okD(3) by blast
  have "alignmentRecord 1 ls \<in> widths" using ls(3) by (simp add: alignmentRecord_widths)
  then have "recordEnd 0 ls \<le> l_size l"
    using recordLayout_Inr [OF ls(4)] alignTo_ge widths_pos by auto
  then have "offs \<le> l_size l" if "offs \<le> recordEnd 0 ls" for offs using that by simp
  then show ?thesis
    using recordLayout_Inr [OF ls(4)] ls(1,2) recordOffsets_field [OF pos, of _ 0]
      recordOffsets_sep [OF pos, of _ _ 0] by (auto simp del: One_nat_def)
qed

lemma layoutOf_record_placement_witness:
  "\<exists>offs ls. l_offsets \<lparr>l_d = RecordT [(''a'', Prim PU8), (''b'', Prim PU32)], l_align = 4, l_size = 8,
        l_offsets = Some [0, 4], l_disc = 0, l_payload = 0\<rparr> = Some offs \<and> length offs = length [(''a'', Prim PU8), (''b'', Prim PU32)] \<and>
    rmap (\<lambda>f. layoutOf (snd f) P32) [(''a'', Prim PU8), (''b'', Prim PU32)] = Inr ls \<and>
    (\<forall>i < length [(''a'', Prim PU8), (''b'', Prim PU32)]. l_align (ls ! i) dvd offs ! i \<and>
       offs ! i + l_size (ls ! i) \<le> l_size \<lparr>l_d = RecordT [(''a'', Prim PU8), (''b'', Prim PU32)], l_align = 4, l_size = 8,
        l_offsets = Some [0, 4], l_disc = 0, l_payload = 0\<rparr>) \<and>
    (\<forall>j < length [(''a'', Prim PU8), (''b'', Prim PU32)]. \<forall>i < j. offs ! i + l_size (ls ! i) \<le> offs ! j)"
  by (rule layoutOf_record_placement [of "RecordT [(''a'', Prim PU8), (''b'', Prim PU32)]"])
    (simp_all add: layoutOf_record layoutOf_Prim recordLayout_def elemSizeRecord_def mkLayout_widths
      alignTo_def widths_def)

lemma variant_bounds:
  assumes "layoutOf t pt = Inr l" "despecialize t = VariantT cs"
  shows "discriminantSize (length cs) = Inr (l_disc l) \<and> l_disc l \<le> l_payload l \<and> l_payload l \<le> l_size l \<and>
    (\<forall>c u. c \<in> set cs \<longrightarrow> snd c = Some u \<longrightarrow> (\<exists>k. layoutOf u pt = Inr k \<and>
       l_align k dvd l_payload l \<and> l_align k dvd l_align l \<and> l_payload l + l_size k \<le> l_size l))"
proof -
  obtain disc ls where *: "discriminantSize (length cs) = Inr disc" "length ls = length cs"
      "\<And>i u. i < length cs \<Longrightarrow> snd (cs ! i) = Some u \<Longrightarrow>
        \<exists>k. ls ! i = Some k \<and> layoutOf u pt = Inr k \<and> layout_ok k"
      "\<And>k. Some k \<in> set ls \<Longrightarrow> layout_ok k" "variantLayout (VariantT cs) disc ls = Inr l"
    using assms by (rule layoutOf_variant_cases) blast
  define a where "a = maxCaseAlignment 1 ls"
  have a: "a \<in> widths" unfolding a_def using *(4) by (intro maxCaseAlignment_widths) auto
  have av: "alignmentVariant disc ls = max disc a" "alignmentVariant disc ls \<in> widths"
    using a discriminantSize_widths [OF *(1)] by (simp_all only: alignmentVariant_def a_def widths_max)
  have l: "l_disc l = disc" "l_payload l = alignTo disc a" "l_align l = max disc a"
      "l_size l = alignTo (alignTo disc a + maxCaseSize 0 ls) (max disc a)"
    using variantLayout_Inr [OF *(5)] by (simp_all add: a_def elemSizeVariant_def Let_def alignmentVariant_def)
  have sz: "alignTo disc a + maxCaseSize 0 ls \<le> l_size l"
    unfolding l(4) using alignTo_ge [OF widths_pos [OF av(2)]] by (simp only: av(1))
  have "\<exists>k. layoutOf u pt = Inr k \<and> l_align k dvd l_payload l \<and> l_align k dvd l_align l \<and>
      l_payload l + l_size k \<le> l_size l" if c: "c \<in> set cs" "snd c = Some u" for c u
  proof -
    from c(1) obtain i where i: "i < length cs" "cs ! i = c" by (auto simp: in_set_conv_nth)
    with *(3) c(2) obtain k where k: "ls ! i = Some k" "layoutOf u pt = Inr k" "layout_ok k" by blast
    then have mem: "Some k \<in> set ls" using i(1) *(2) by (metis nth_mem)
    have A: "l_align k dvd a"
      using widths_dvd [OF layout_okD(1) [OF k(3)] a] maxCaseAlignment_ge_case [OF mem] by (simp add: a_def)
    have B: "a dvd max disc a" using widths_dvd [OF a av(2) [unfolded av(1)]] by simp
    have "l_align k dvd l_payload l" unfolding l(2) by (rule dvd_trans [OF A alignTo_dvd])
    moreover have "l_align k dvd l_align l" unfolding l(3) by (rule dvd_trans [OF A B])
    moreover have "l_payload l + l_size k \<le> l_size l"
      using sz maxCaseSize_ge_case [OF mem, of 0] unfolding l(2) by linarith
    ultimately show ?thesis using k(2) by blast
  qed
  moreover have "disc \<le> l_payload l" using alignTo_ge [OF widths_pos [OF a]] by (simp add: l)
  ultimately show ?thesis using *(1) sz l(1,2) by simp
qed

text \<open>The payload of a variant starts after its discriminant, at a multiple of the
  alignment of every case, and every case's payload ends inside the variant.\<close>

theorem layoutOf_variant_placement:
  assumes "layoutOf t pt = Inr l" "despecialize t = VariantT cs"
  shows "discriminantSize (length cs) = Inr (l_disc l) \<and> l_disc l \<le> l_payload l \<and> l_payload l \<le> l_size l \<and>
    list_all (\<lambda>c. case snd c of None \<Rightarrow> True | Some u \<Rightarrow> (\<exists>k. layoutOf u pt = Inr k \<and>
       l_align k dvd l_payload l \<and> l_align k dvd l_align l \<and> l_payload l + l_size k \<le> l_size l)) cs"
  using variant_bounds [OF assms] by (auto simp: list_all_iff split: option.split)

lemma layoutOf_variant_placement_witness:
  "discriminantSize 2 = Inr 1 \<and> (1::nat) \<le> 8 \<and> (8::nat) \<le> 16 \<and>
    list_all (\<lambda>c. case snd c of None \<Rightarrow> True | Some u \<Rightarrow> (\<exists>k. layoutOf u P32 = Inr k \<and>
       l_align k dvd 8 \<and> l_align k dvd 8 \<and> 8 + l_size k \<le> 16)) [(''none'', None), (''some'', Some (Prim PU64))]"
  using layoutOf_variant_placement [of "OptionT (Prim PU64)" P32
      "\<lparr>l_d = VariantT [(''none'', None), (''some'', Some (Prim PU64))], l_align = 8, l_size = 16,
        l_offsets = None, l_disc = 1, l_payload = 8\<rparr>"]
  by (simp add: layoutOf_variant layoutOf_Prim variantLayout_def alignmentVariant_def elemSizeVariant_def
      discriminantSize_def alignTo_def mkLayout_widths widths_def Let_def)

end
