(* ===== verification/Cabi_Flatten.thy ===== *)
theory Cabi_Flatten
  imports Cabi_Layout
begin

text \<open>
  Flattening (\<open>runtime/src/cabi/flatten.ts\<close>): value types to core types and
  component function types to core signatures. Flattening reads the canonical
  options only for the pointer type of the memory, so the model passes that pointer
  type, \<open>None\<close> when the call has no memory (\<open>requireMemory\<close> then fails its assertion).
  The count cache of \<open>flatCount\<close> stores the value of a pure function of its key.
\<close>

section \<open>Flat types\<close>

definition MAX_FLAT_PARAMS :: nat where "MAX_FLAT_PARAMS = 16"
definition MAX_FLAT_ASYNC_PARAMS :: nat where "MAX_FLAT_ASYNC_PARAMS = 4"
definition MAX_FLAT_RESULTS :: nat where "MAX_FLAT_RESULTS = 1"

definition requireMemory :: "ptr_type option \<Rightarrow> ptr_type res" where
  "requireMemory m = (case m of
       None \<Rightarrow> Inl (AssertionError ''canonical option `memory` required'')
     | Some pt \<Rightarrow> Inr pt)"

definition join :: "core_type \<Rightarrow> core_type \<Rightarrow> core_type" where
  "join a b =
     (if a = b then a
      else if (a = I32 \<and> b = F32) \<or> (a = F32 \<and> b = I32) then I32
      else I64)"

fun joinInto :: "core_type list \<Rightarrow> core_type list \<Rightarrow> core_type list" where
  "joinInto flat [] = flat"
| "joinInto [] (ft # fts) = ft # joinInto [] fts"
| "joinInto (f # flat) (ft # fts) = join f ft # joinInto flat fts"

definition flattenVariantFrom :: "core_type list option list \<Rightarrow> core_type list" where
  "flattenVariantFrom cases =
     foldl (\<lambda>flat c. case c of None \<Rightarrow> flat | Some fts \<Rightarrow> joinInto flat fts) [] cases"

fun flattenPrim :: "prim \<Rightarrow> ptr_type option \<Rightarrow> core_type list res" where
  "flattenPrim PS64 m = Inr [I64]"
| "flattenPrim PU64 m = Inr [I64]"
| "flattenPrim PF32 m = Inr [F32]"
| "flattenPrim PF64 m = Inr [F64]"
| "flattenPrim PString m = rbind (requireMemory m) (\<lambda>pt. Inr [core_of_ptr pt, core_of_ptr pt])"
| "flattenPrim _ m = Inr [I32]"

function flattenType :: "valtype \<Rightarrow> ptr_type option \<Rightarrow> core_type list res" where
  "flattenType t m =
     (let d = despecialize t in
      case d of
        Prim p \<Rightarrow> flattenPrim p m
      | ListT e n \<Rightarrow>
          (case n of
             Some k \<Rightarrow> rbind (flattenType e m) (\<lambda>one. Inr (concat (replicate k one)))
           | None \<Rightarrow> rbind (requireMemory m) (\<lambda>pt. Inr [core_of_ptr pt, core_of_ptr pt]))
      | RecordT fs \<Rightarrow>
          rbind (rmap (\<lambda>f. flattenType (snd f) m) fs) (\<lambda>fss. Inr (concat fss))
      | VariantT cs \<Rightarrow>
          rbind (rmap (\<lambda>c. case snd c of None \<Rightarrow> Inr None
                          | Some u \<Rightarrow> rbind (flattenType u m) (\<lambda>f. Inr (Some f))) cs) (\<lambda>fss.
          rbind (discriminantType cs) (\<lambda>dt.
          case dt of Prim p \<Rightarrow> rbind (flattenPrim p m) (\<lambda>f. Inr (f @ flattenVariantFrom fss))
          | _ \<Rightarrow> Inr (flattenVariantFrom fss)))
      | _ \<Rightarrow> Inr [I32])"
  by pat_completeness auto

termination
  by (relation "measure (\<lambda>(t, m). tsize t)") (auto dest: tsize_descend)

declare flattenType.simps [simp del]

definition flattenTypes :: "valtype list \<Rightarrow> ptr_type option \<Rightarrow> core_type list res" where
  "flattenTypes ts m = rbind (rmap (\<lambda>t. flattenType t m) ts) (\<lambda>fss. Inr (concat fss))"

definition flatCount :: "valtype list \<Rightarrow> ptr_type option \<Rightarrow> nat res" where
  "flatCount ts m = rbind (flattenTypes ts m) (\<lambda>fs. Inr (length fs))"

section \<open>Function types\<close>

datatype flatten_context = FLift | FLower

record canon_opts =
  o_encoding :: string_encoding
  o_memory :: "ptr_type option"
  o_async :: bool
  o_callback :: bool

definition memPtr :: "canon_opts \<Rightarrow> core_type res" where
  "memPtr opts = rbind (requireMemory (o_memory opts)) (\<lambda>pt. Inr (core_of_ptr pt))"

definition flattenFunctype ::
    "canon_opts \<Rightarrow> func_type \<Rightarrow> flatten_context \<Rightarrow> core_func_type res" where
  "flattenFunctype opts ft context =
     rbind (flattenTypes (ft_params ft) (o_memory opts)) (\<lambda>flatParams.
     rbind (flattenTypes (ft_results ft) (o_memory opts)) (\<lambda>flatResults.
     if \<not> o_async opts then
       rbind (if length flatParams > MAX_FLAT_PARAMS
              then rbind (memPtr opts) (\<lambda>p. Inr [p]) else Inr flatParams) (\<lambda>flatParams.
       if length flatResults > MAX_FLAT_RESULTS then
         (case context of
            FLift \<Rightarrow> rbind (memPtr opts) (\<lambda>p. Inr \<lparr>cft_params = flatParams, cft_results = [p]\<rparr>)
          | FLower \<Rightarrow> rbind (memPtr opts) (\<lambda>p. Inr \<lparr>cft_params = flatParams @ [p], cft_results = []\<rparr>))
       else Inr \<lparr>cft_params = flatParams, cft_results = flatResults\<rparr>)
     else
       (case context of
          FLift \<Rightarrow>
            rbind (if length flatParams > MAX_FLAT_PARAMS
                   then rbind (memPtr opts) (\<lambda>p. Inr [p]) else Inr flatParams) (\<lambda>flatParams.
            Inr \<lparr>cft_params = flatParams, cft_results = (if o_callback opts then [I32] else [])\<rparr>)
        | FLower \<Rightarrow>
            rbind (if length flatParams > MAX_FLAT_ASYNC_PARAMS
                   then rbind (memPtr opts) (\<lambda>p. Inr [p]) else Inr flatParams) (\<lambda>flatParams.
            rbind (if length flatResults > 0
                   then rbind (memPtr opts) (\<lambda>p. Inr (flatParams @ [p])) else Inr flatParams) (\<lambda>flatParams.
            Inr \<lparr>cft_params = flatParams, cft_results = [I32]\<rparr>)))))"

section \<open>Joins\<close>

lemma join_idem [simp]: "join a a = a"
  by (simp add: join_def)

lemma join_comm: "join a b = join b a"
  by (auto simp: join_def)

lemma join_assoc: "join (join a b) c = join a (join b c)"
  by (cases a; cases b; cases c) (simp_all add: join_def)

lemma join_absorb: "join (join a b) b = join a b" "join a (join a b) = join a b"
  by (cases a; cases b; simp add: join_def)+

text \<open>\<open>lane_le w v\<close>: a lane of type \<open>w\<close> carries a value of core type \<open>v\<close>.\<close>

definition lane_le :: "core_type \<Rightarrow> core_type \<Rightarrow> bool" where
  "lane_le v w \<longleftrightarrow> join v w = w"

lemma lane_le_iff: "lane_le v w \<longleftrightarrow> v = w \<or> w = I64 \<or> (v = F32 \<and> w = I32)"
  by (cases v; cases w) (simp_all add: lane_le_def join_def)

lemma lane_le_refl [simp]: "lane_le v v"
  by (simp add: lane_le_def)

lemma lane_le_trans: "lane_le u v \<Longrightarrow> lane_le v w \<Longrightarrow> lane_le u w"
  by (auto simp: lane_le_iff)

lemma lane_le_join [simp]: "lane_le a (join a b)" "lane_le b (join a b)"
  by (cases a; cases b; simp add: lane_le_def join_def)+

definition lanes_fit :: "core_type list \<Rightarrow> core_type list \<Rightarrow> bool" where
  "lanes_fit fts flat \<longleftrightarrow>
     length fts \<le> length flat \<and> (\<forall>i < length fts. lane_le (fts ! i) (flat ! i))"

lemma lanes_fit_Nil [simp]: "lanes_fit [] flat"
  by (simp add: lanes_fit_def)

lemma lanes_fit_Cons [simp]:
  "lanes_fit (f # fs) (g # gs) \<longleftrightarrow> lane_le f g \<and> lanes_fit fs gs"
  "\<not> lanes_fit (f # fs) []"
  by (auto simp: lanes_fit_def nth_Cons split: nat.splits)

lemma lanes_fit_refl [simp]: "lanes_fit fs fs"
  by (simp add: lanes_fit_def)

lemma lanes_fit_trans: "lanes_fit a b \<Longrightarrow> lanes_fit b c \<Longrightarrow> lanes_fit a c"
  unfolding lanes_fit_def by (meson lane_le_trans le_trans less_le_trans)

lemma joinInto_Nil [simp]: "joinInto [] fs = fs"
  by (induction fs) auto

lemma joinInto_left: "lanes_fit flat (joinInto flat fs)"
  by (induction flat fs rule: joinInto.induct) auto

lemma joinInto_right: "lanes_fit fs (joinInto flat fs)"
  by (induction flat fs rule: joinInto.induct) auto

lemma length_joinInto [simp]: "length (joinInto flat fs) = max (length flat) (length fs)"
  by (induction flat fs rule: joinInto.induct) auto

lemma foldl_joinInto_base:
  "lanes_fit flat (foldl (\<lambda>flat c. case c of None \<Rightarrow> flat | Some fts \<Rightarrow> joinInto flat fts) flat cs)"
proof (induction cs arbitrary: flat)
  case (Cons c cs)
  then show ?case
    by (cases c) (auto intro: lanes_fit_trans [OF joinInto_left])
qed simp

lemma flattenVariantFrom_fits:
  "Some fts \<in> set cs \<Longrightarrow> lanes_fit fts (flattenVariantFrom cs)"
proof -
  have "lanes_fit fts (foldl (\<lambda>flat c. case c of None \<Rightarrow> flat | Some fts \<Rightarrow> joinInto flat fts) flat cs)"
    if "Some fts \<in> set cs" for flat
    using that
  proof (induction cs arbitrary: flat)
    case (Cons c cs)
    show ?case
    proof (cases "c = Some fts")
      case True
      then show ?thesis
        using lanes_fit_trans [OF joinInto_right foldl_joinInto_base, of fts flat cs] by simp
    next
      case False
      with Cons show ?thesis by auto
    qed
  qed simp
  then show "Some fts \<in> set cs \<Longrightarrow> ?thesis" by (simp add: flattenVariantFrom_def)
qed

section \<open>Shape of the flat types\<close>

lemma flattenPrim_disc:
  "flattenPrim PU8 m = Inr [I32]" "flattenPrim PU16 m = Inr [I32]" "flattenPrim PU32 m = Inr [I32]"
  by simp_all

lemma flattenType_variant:
  "despecialize t = VariantT cs \<Longrightarrow> flattenType t m =
   rbind (rmap (\<lambda>c. case snd c of None \<Rightarrow> Inr None
                   | Some u \<Rightarrow> rbind (flattenType u m) (\<lambda>f. Inr (Some f))) cs) (\<lambda>fss.
   rbind (discriminantSize (length cs)) (\<lambda>_. Inr (I32 # flattenVariantFrom fss)))"
  by (subst flattenType.simps)
    (auto simp: discriminantType_def rbind_def split: sum.split cong: rmap_cong)

lemma flattenType_record:
  "despecialize t = RecordT fs \<Longrightarrow> flattenType t m =
   rbind (rmap (\<lambda>f. flattenType (snd f) m) fs) (\<lambda>fss. Inr (concat fss))"
  by (subst flattenType.simps) (simp cong: rmap_cong)

lemma flattenType_list:
  "despecialize t = ListT e n \<Longrightarrow> flattenType t m =
   (case n of
      Some k \<Rightarrow> rbind (flattenType e m) (\<lambda>one. Inr (concat (replicate k one)))
    | None \<Rightarrow> rbind (requireMemory m) (\<lambda>pt. Inr [core_of_ptr pt, core_of_ptr pt]))"
  by (subst flattenType.simps) simp

lemma flattenType_prim: "despecialize t = Prim p \<Longrightarrow> flattenType t m = flattenPrim p m"
  by (subst flattenType.simps) simp

lemma flattenType_flags: "despecialize t = FlagsT ls \<Longrightarrow> flattenType t m = Inr [I32]"
  by (subst flattenType.simps) simp

lemma flattenType_handle: "is_handle_type (despecialize t) \<Longrightarrow> flattenType t m = Inr [I32]"
  by (subst flattenType.simps) (cases "despecialize t"; simp)

lemmas flattenType_cases = flattenType_prim flattenType_record flattenType_variant
  flattenType_list flattenType_flags flattenType_handle

section \<open>Properties\<close>

lemma length_joinInto_fold:
  "length (foldl (\<lambda>flat c. case c of None \<Rightarrow> flat | Some fts \<Rightarrow> joinInto flat fts) flat cs) \<le> n \<longleftrightarrow>
   length flat \<le> n \<and> (\<forall>fts. Some fts \<in> set cs \<longrightarrow> length fts \<le> n)"
proof (induction cs arbitrary: flat)
  case (Cons c cs)
  then show ?case by (cases c) auto
qed simp



text \<open>C32. The core signature of a component function respects the flat limits in every
  mode: at most one core result always, at most 16 parameters for a lifted function and
  17 for a synchronously lowered one, at most 5 for an asynchronously lowered one, and a
  signature that spills holds a pointer, so it exists only with a memory.\<close>

theorem flattenFunctype_limits:
  assumes "flattenFunctype opts ft ctx = Inr cft"
  shows "length (cft_results cft) \<le> 1 \<and>
    length (cft_params cft) \<le> (if ctx = FLift then 16 else if o_async opts then 5 else 17) \<and>
    (if o_async opts \<and> ctx = FLower then cft_results cft = [I32] else True) \<and>
    (case flattenTypes (ft_params ft) (o_memory opts) of
       Inl _ \<Rightarrow> False
     | Inr ps \<Rightarrow> if o_memory opts = None then take (length ps) (cft_params cft) = ps else True)"
  using assms
  by (cases ctx; cases "o_async opts")
    (auto simp: flattenFunctype_def memPtr_def requireMemory_def MAX_FLAT_PARAMS_def
      MAX_FLAT_ASYNC_PARAMS_def MAX_FLAT_RESULTS_def split: if_splits option.splits)

lemma flattenFunctype_limits_witness:
  "length (cft_results \<lparr>cft_params = [I32, I32], cft_results = [I32]\<rparr>) \<le> 1 \<and>
    length (cft_params \<lparr>cft_params = [I32, I32], cft_results = [I32]\<rparr>) \<le>
      (if FLower = FLift then 16 else if o_async \<lparr>o_encoding = Utf8, o_memory = Some P32, o_async = True, o_callback = False\<rparr> then 5 else 17)"
  using flattenFunctype_limits
    [of "\<lparr>o_encoding = Utf8, o_memory = Some P32, o_async = True, o_callback = False\<rparr>"
        "\<lparr>ft_params = [Prim PU8], ft_results = [Prim PString], ft_async = False\<rparr>" FLower
        "\<lparr>cft_params = [I32, I32], cft_results = [I32]\<rparr>"]
  by (simp add: flattenFunctype_def flattenTypes_def flattenType_prim requireMemory_def memPtr_def
      MAX_FLAT_ASYNC_PARAMS_def)

end
