(* ===== verification/Js_Float.thy ===== *)
theory Js_Float
  imports Prelude
begin

unbundle bit_operations_syntax

text \<open>
  IEEE 754 numbers as the runtime handles them (\<open>runtime/src/cabi/float.ts\<close> and the
  conversions \<open>DataView\<close> performs): a JavaScript number as the 64 bits of a double,
  widening of single precision, narrowing and conversion from integers with rounding to
  nearest, ties to even, and the canonical NaN policy.
\<close>

section \<open>Packing\<close>

fun bitlen :: "nat \<Rightarrow> nat" where
  "bitlen n = (if n = 0 then 0 else Suc (bitlen (n div 2)))"

declare bitlen.simps [simp del]

definition round_half_even :: "nat \<Rightarrow> nat \<Rightarrow> nat" where
  "round_half_even m k =
     (let q = m div 2 ^ k; r = m mod 2 ^ k in
      if 2 * r < 2 ^ k then q
      else if 2 ^ k < 2 * r then q + 1
      else if even q then q else q + 1)"

text \<open>
  \<open>pack p emin m e\<close>: the magnitude bits of the number \<open>m * 2 ^ e\<close> in a format with \<open>p\<close>
  fraction bits and smallest exponent \<open>emin\<close>; \<open>q\<close> is the exponent of the last place.
  A number that rounds past the largest finite one becomes infinity, \<open>ovf\<close>.
\<close>

definition pack :: "nat \<Rightarrow> int \<Rightarrow> nat \<Rightarrow> nat \<Rightarrow> int \<Rightarrow> nat" where
  "pack p emin ovf m e =
     (if m = 0 then 0
      else let q = max (int (bitlen m) - 1 + e - int p) emin;
               n = (if q \<le> e then m * 2 ^ nat (e - q) else round_half_even m (nat (q - e)))
           in min (nat (q - emin) * 2 ^ p + n) ovf)"

definition F32_INF :: nat where "F32_INF = 0x7f800000"
definition F64_INF :: nat where "F64_INF = 0x7ff0000000000000"

definition decode_mag :: "nat \<Rightarrow> int \<Rightarrow> nat \<Rightarrow> nat \<times> int" where
  "decode_mag p emin x =
     (let ex = x div 2 ^ p; fr = x mod 2 ^ p in
      if ex = 0 then (fr, emin) else (2 ^ p + fr, emin + int ex - 1))"

definition f32_sign :: "nat \<Rightarrow> nat" where "f32_sign x = x div 2 ^ 31"
definition f32_mag :: "nat \<Rightarrow> nat" where "f32_mag x = x mod 2 ^ 31"
definition f64_sign :: "nat \<Rightarrow> nat" where "f64_sign x = x div 2 ^ 63"
definition f64_mag :: "nat \<Rightarrow> nat" where "f64_mag x = x mod 2 ^ 63"

definition isNaN64 :: "64 word \<Rightarrow> bool" where
  "isNaN64 w \<longleftrightarrow> F64_INF < f64_mag (unat w)"

definition isNaN32 :: "32 word \<Rightarrow> bool" where
  "isNaN32 w \<longleftrightarrow> F32_INF < f32_mag (unat w)"

section \<open>The conversions of float.ts\<close>

definition CANONICAL_FLOAT32_NAN :: "32 word" where "CANONICAL_FLOAT32_NAN = 0x7fc00000"
definition CANONICAL_FLOAT64_NAN :: "64 word" where "CANONICAL_FLOAT64_NAN = 0x7ff8000000000000"

text \<open>\<open>getFloat32\<close>: read 32 bits as a number. NaN payloads do not survive; the engine's
  NaN is taken to be the canonical one.\<close>

definition coreF32ReinterpretI32 :: "32 word \<Rightarrow> 64 word" where
  "coreF32ReinterpretI32 i =
     (let x = unat i; m = f32_mag x in
      if F32_INF < m then CANONICAL_FLOAT64_NAN
      else if m = F32_INF then of_nat (f32_sign x * 2 ^ 63 + F64_INF)
      else case decode_mag 23 (- 149) m of (k, e) \<Rightarrow>
             of_nat (f32_sign x * 2 ^ 63 + pack 52 (- 1074) F64_INF k e))"

definition coreF64ReinterpretI64 :: "64 word \<Rightarrow> 64 word" where
  "coreF64ReinterpretI64 i = i"

text \<open>\<open>setFloat32\<close>: narrow to single precision.\<close>

definition coreI32ReinterpretF32 :: "64 word \<Rightarrow> 32 word" where
  "coreI32ReinterpretF32 f =
     (let x = unat f; m = f64_mag x in
      if F64_INF < m then CANONICAL_FLOAT32_NAN
      else if m = F64_INF then of_nat (f64_sign x * 2 ^ 31 + F32_INF)
      else case decode_mag 52 (- 1074) m of (k, e) \<Rightarrow>
             of_nat (f64_sign x * 2 ^ 31 + pack 23 (- 149) F32_INF k e))"

definition coreI64ReinterpretF64 :: "64 word \<Rightarrow> 64 word" where
  "coreI64ReinterpretF64 f = f"

definition canonicalizeNan32 :: "64 word \<Rightarrow> 64 word" where
  "canonicalizeNan32 f = (if isNaN64 f then coreF32ReinterpretI32 CANONICAL_FLOAT32_NAN else f)"

definition canonicalizeNan64 :: "64 word \<Rightarrow> 64 word" where
  "canonicalizeNan64 f = (if isNaN64 f then coreF64ReinterpretI64 CANONICAL_FLOAT64_NAN else f)"

definition decodeI32AsFloat :: "32 word \<Rightarrow> 64 word" where
  "decodeI32AsFloat i = canonicalizeNan32 (coreF32ReinterpretI32 i)"

definition decodeI64AsFloat :: "64 word \<Rightarrow> 64 word" where
  "decodeI64AsFloat i = canonicalizeNan64 (coreF64ReinterpretI64 i)"

definition maybeScrambleNan32 :: "64 word \<Rightarrow> 64 word" where
  "maybeScrambleNan32 f = (if isNaN64 f then coreF32ReinterpretI32 CANONICAL_FLOAT32_NAN else f)"

definition maybeScrambleNan64 :: "64 word \<Rightarrow> 64 word" where
  "maybeScrambleNan64 f = (if isNaN64 f then coreF64ReinterpretI64 CANONICAL_FLOAT64_NAN else f)"

definition encodeFloatAsI32 :: "64 word \<Rightarrow> 32 word" where
  "encodeFloatAsI32 f = (if isNaN64 f then CANONICAL_FLOAT32_NAN else coreI32ReinterpretF32 f)"

definition encodeFloatAsI64 :: "64 word \<Rightarrow> 64 word" where
  "encodeFloatAsI64 f = (if isNaN64 f then CANONICAL_FLOAT64_NAN else coreI64ReinterpretF64 f)"

section \<open>Integers and doubles\<close>

definition f64_of_int :: "int \<Rightarrow> 64 word" where
  "f64_of_int i =
     of_nat ((if i < 0 then 2 ^ 63 else 0) + pack 52 (- 1074) F64_INF (nat \<bar>i\<bar>) 0)"

text \<open>The integer a double holds, \<open>None\<close> where \<open>Number.isInteger\<close> is false.\<close>

definition int_of_f64 :: "64 word \<Rightarrow> int option" where
  "int_of_f64 w =
     (let x = unat w; m = f64_mag x in
      if F64_INF \<le> m then None
      else case decode_mag 52 (- 1074) m of (k, e) \<Rightarrow>
        let s = (if f64_sign x = 0 then 1 else - 1 :: int) in
        if 0 \<le> e then Some (s * int k * 2 ^ nat e)
        else if 2 ^ nat (- e) dvd k then Some (s * int (k div 2 ^ nat (- e)))
        else None)"

section \<open>Exactness\<close>

lemma bitlen_bounds: "0 < n \<Longrightarrow> 2 ^ (bitlen n - 1) \<le> n \<and> n < 2 ^ bitlen n \<and> 0 < bitlen n"
proof (induction n rule: bitlen.induct)
  case (1 n)
  show ?case
  proof (cases "n = 1")
    case True
    then show ?thesis by (simp add: bitlen.simps)
  next
    case False
    with 1 have *: "2 ^ (bitlen (n div 2) - 1) \<le> n div 2" "n div 2 < 2 ^ bitlen (n div 2)" "0 < bitlen (n div 2)"
      by auto
    obtain b where b: "bitlen (n div 2) = Suc b" using *(3) by (cases "bitlen (n div 2)") auto
    have "bitlen n = Suc (bitlen (n div 2))" using "1.prems" by (subst bitlen.simps) simp
    with * b show ?thesis by auto
  qed
qed

lemma bitlen_unique: "2 ^ a \<le> n \<Longrightarrow> n < 2 ^ Suc a \<Longrightarrow> bitlen n = Suc a"
proof -
  assume n: "2 ^ a \<le> n" "n < 2 ^ Suc a"
  then have "0 < n" by (metis gr0I not_le zero_less_numeral zero_less_power)
  note B = bitlen_bounds [OF this]
  have "(2::nat) ^ a < 2 ^ bitlen n" using n(1) B by (blast intro: le_less_trans)
  moreover have "(2::nat) ^ (bitlen n - 1) < 2 ^ Suc a" using n(2) B by (blast intro: le_less_trans)
  ultimately have "a < bitlen n" "bitlen n - 1 < Suc a" by (simp_all only: power_strict_increasing_iff one_less_numeral_iff semiring_norm)
  then show ?thesis by simp
qed

lemma round_half_even_exact [simp]: "round_half_even (k * 2 ^ s) s = k"
  by (simp add: round_half_even_def Let_def)

lemma bitlen_le: "k < 2 ^ b \<Longrightarrow> 0 < k \<Longrightarrow> bitlen k \<le> b"
proof -
  assume k: "k < 2 ^ b" "0 < k"
  then have "(2::nat) ^ (bitlen k - 1) < 2 ^ b" using bitlen_bounds [OF k(2)] by (blast intro: le_less_trans)
  then show ?thesis by simp
qed

text \<open>A short significand widens without rounding: the double holds the same number, its
  significand shifted up to 53 bits.\<close>

lemma pack_widen:
  assumes "0 < k" "k < 2 ^ 24" "- 149 \<le> e" "e \<le> 104"
  shows "pack 52 (- 1074) F64_INF k e < F64_INF \<and>
    decode_mag 52 (- 1074) (pack 52 (- 1074) F64_INF k e) =
      (k * 2 ^ (53 - bitlen k), e - int (53 - bitlen k))"
proof -
  define b where "b = bitlen k"
  have b: "0 < b" "b \<le> 24" "2 ^ (b - 1) \<le> k" "k < 2 ^ b"
    using bitlen_bounds [OF assms(1)] bitlen_le [OF assms(2,1)] by (simp_all add: b_def)
  define n where "n = k * 2 ^ (53 - b)"
  define q where "q = e - int (53 - b)"
  have "2 ^ (b - 1) * 2 ^ (53 - b) \<le> n" "n < 2 ^ b * 2 ^ (53 - b)"
    using b by (simp_all add: n_def)
  then have n: "2 ^ 52 \<le> n" "n < 2 ^ 53" using b(1,2) by (simp_all flip: power_add)
  have q: "max (int b - 1 + e - 52) (- 1074) = q" "q \<le> e" "nat (e - q) = 53 - b" "- 1000 < q" "q \<le> 104"
    using b(1,2) assms(3,4) by (simp_all add: q_def of_nat_diff)
  define x where "x = nat (q + 1074)"
  have x: "0 < x" "x \<le> 1178" "int x = q + 1074" using q by (simp_all add: x_def)
  have bound: "x * 2 ^ 52 + n < F64_INF"
  proof -
    have "x * 2 ^ 52 \<le> 1178 * 2 ^ 52" using x(2) by simp
    then show ?thesis using n(2) by (simp add: F64_INF_def)
  qed
  have p: "pack 52 (- 1074) F64_INF k e = x * 2 ^ 52 + n"
    using assms(1) q bound by (simp add: pack_def Let_def n_def x_def flip: b_def)
  define r where "r = n - 2 ^ 52"
  have r: "n = 2 ^ 52 + r" "r < 2 ^ 52" using n by (simp_all add: r_def)
  have "x * 2 ^ 52 + n = r + Suc x * 2 ^ 52" using r(1) by simp
  then have "(x * 2 ^ 52 + n) div 2 ^ 52 = Suc x" "(x * 2 ^ 52 + n) mod 2 ^ 52 = r"
    using r(2) by (simp_all only: div_mult_self1 mod_mult_self1 div_less mod_less)
  then have "decode_mag 52 (- 1074) (x * 2 ^ 52 + n) = (n, q)"
    using x(3) r by (simp add: decode_mag_def Let_def)
  with p bound show ?thesis by (simp add: n_def q_def b_def)
qed

lemma pack_narrow_shifted:
  assumes "0 < k" "k < 2 ^ 24" "- 149 \<le> e" "e \<le> 104" "2 ^ 23 \<le> k \<or> e = - 149"
  shows "pack 23 (- 149) F32_INF (k * 2 ^ (53 - bitlen k)) (e - int (53 - bitlen k)) =
    nat (e + 149) * 2 ^ 23 + k"
proof -
  define b where "b = bitlen k"
  have b: "0 < b" "b \<le> 24" "2 ^ (b - 1) \<le> k" "k < 2 ^ b"
    using bitlen_bounds [OF assms(1)] bitlen_le [OF assms(2,1)] by (simp_all add: b_def)
  define n where "n = k * 2 ^ (53 - b)"
  define q where "q = e - int (53 - b)"
  have "2 ^ (b - 1) * 2 ^ (53 - b) \<le> n" "n < 2 ^ b * 2 ^ (53 - b)"
    using b by (simp_all add: n_def)
  then have "2 ^ 52 \<le> n" "n < 2 ^ Suc 52" using b(1,2) by (simp_all flip: power_add)
  then have bn: "bitlen n = 53" using bitlen_unique by fastforce
  have b24: "b = 24 \<or> e = - 149"
  proof (cases "2 ^ 23 \<le> k")
    case True
    then have "bitlen k = Suc 23" using assms(2) by (intro bitlen_unique) simp_all
    then show ?thesis by (simp add: b_def)
  qed (use assms(5) in simp)
  have m: "max (int 53 - 1 + q - int 23) (- 149) = e" "\<not> e \<le> q" "nat (e - q) = 53 - b"
    using b(1,2) b24 assms(3) by (auto simp: q_def of_nat_diff)
  have "nat (e + 149) * 2 ^ 23 + k \<le> F32_INF"
  proof -
    have "nat (e + 149) \<le> 253" using assms(4) by simp
    then have "nat (e + 149) * 2 ^ 23 \<le> 253 * 2 ^ 23" by simp
    then show ?thesis using assms(2) by (simp add: F32_INF_def)
  qed
  moreover have "n \<noteq> 0" using assms(1) by (simp add: n_def)
  ultimately have "pack 23 (- 149) F32_INF n q = nat (e + 149) * 2 ^ 23 + k"
    using m by (simp add: pack_def Let_def bn) (simp add: n_def)
  then show ?thesis by (simp add: n_def q_def b_def)
qed

lemma decode_mag_32:
  assumes "m < F32_INF" "decode_mag 23 (- 149) m = (k, e)"
  shows "k < 2 ^ 24 \<and> - 149 \<le> e \<and> e \<le> 104 \<and> (2 ^ 23 \<le> k \<or> e = - 149) \<and> nat (e + 149) * 2 ^ 23 + k = m
    \<and> (k = 0 \<longrightarrow> m = 0)"
proof -
  define x r where "x = m div 2 ^ 23" and "r = m mod 2 ^ 23"
  have mr: "m = x * 2 ^ 23 + r" "r < 2 ^ 23" by (simp_all add: x_def r_def)
  have "x < 255" using assms(1) mr by (simp add: F32_INF_def)
  moreover have "decode_mag 23 (- 149) m = (if x = 0 then (r, - 149) else (2 ^ 23 + r, - 149 + int x - 1))"
    by (simp only: decode_mag_def Let_def x_def r_def)
  ultimately show ?thesis
    using assms(2) mr by (cases "x = 0") auto
qed

lemma unat_of_nat32: "n < 2 ^ 32 \<Longrightarrow> unat (of_nat n :: 32 word) = n"
  by (simp add: unsigned_of_nat take_bit_nat_eq_self)

lemma unat_of_nat64: "n < 2 ^ 64 \<Longrightarrow> unat (of_nat n :: 64 word) = n"
  by (simp add: unsigned_of_nat take_bit_nat_eq_self)

lemma f64_parts:
  assumes "s \<le> 1" "m < 2 ^ 63"
  shows "f64_sign (unat (of_nat (s * 2 ^ 63 + m) :: 64 word)) = s"
    "f64_mag (unat (of_nat (s * 2 ^ 63 + m) :: 64 word)) = m"
proof -
  have "s * 2 ^ 63 + m < 2 ^ 64" using assms by (cases "s = 0") auto
  then have u: "unat (of_nat (s * 2 ^ 63 + m) :: 64 word) = s * 2 ^ 63 + m" by (rule unat_of_nat64)
  show "f64_sign (unat (of_nat (s * 2 ^ 63 + m) :: 64 word)) = s"
    "f64_mag (unat (of_nat (s * 2 ^ 63 + m) :: 64 word)) = m"
    unfolding u f64_sign_def f64_mag_def using assms(2) by simp_all
qed

lemma f32_split: "f32_sign (unat (x::32 word)) * 2 ^ 31 + f32_mag (unat x) = unat x" "f32_sign (unat (x::32 word)) \<le> 1"
proof -
  show "f32_sign (unat x) * 2 ^ 31 + f32_mag (unat x) = unat x"
    unfolding f32_sign_def f32_mag_def by (rule div_mult_mod_eq)
  have "unat x < 2 ^ 32" using unsigned_less [of x] by simp
  then show "f32_sign (unat x) \<le> 1" by (simp add: f32_sign_def)
qed

lemma widen_narrow_mag:
  assumes "f32_mag (unat x) < F32_INF"
  obtains m where "m < F64_INF"
    "coreF32ReinterpretI32 x = of_nat (f32_sign (unat x) * 2 ^ 63 + m)"
    "case decode_mag 52 (- 1074) m of (k, e) \<Rightarrow> pack 23 (- 149) F32_INF k e = f32_mag (unat x)"
proof -
  obtain k e where ke: "decode_mag 23 (- 149) (f32_mag (unat x)) = (k, e)" by fastforce
  note D = decode_mag_32 [OF assms ke]
  let ?m = "pack 52 (- 1074) F64_INF k e"
  have c: "coreF32ReinterpretI32 x = of_nat (f32_sign (unat x) * 2 ^ 63 + ?m)"
    using assms ke by (simp add: coreF32ReinterpretI32_def Let_def)
  show ?thesis
  proof (cases "k = 0")
    case True
    then have "?m = 0" "f32_mag (unat x) = 0" using D by (simp_all add: pack_def)
    then show ?thesis using that [OF _ c] by (simp add: decode_mag_def pack_def F64_INF_def)
  next
    case False
    with D have a: "0 < k" "k < 2 ^ 24" "- 149 \<le> e" "e \<le> 104" "2 ^ 23 \<le> k \<or> e = - 149" by auto
    show ?thesis
      using that [OF _ c] pack_widen [OF a(1-4)] pack_narrow_shifted [OF a] D by simp
  qed
qed

text \<open>C33. Single-precision values survive the trip through a JavaScript number: encoding what
  decoding produced gives back the same 32 bits for every non-NaN pattern, infinities,
  zeros of both signs and subnormals included, and the canonical NaN for every NaN.\<close>

theorem encode_decode_f32:
  "encodeFloatAsI32 (decodeI32AsFloat x) = (if isNaN32 x then CANONICAL_FLOAT32_NAN else x)"
proof -
  have nan: "isNaN64 CANONICAL_FLOAT64_NAN" "\<not> isNaN32 x \<Longrightarrow> f32_mag (unat x) \<le> F32_INF"
    by (simp_all add: isNaN64_def isNaN32_def CANONICAL_FLOAT64_NAN_def f64_mag_def F64_INF_def)
  have can: "coreF32ReinterpretI32 CANONICAL_FLOAT32_NAN = CANONICAL_FLOAT64_NAN"
    by (simp add: coreF32ReinterpretI32_def CANONICAL_FLOAT32_NAN_def f32_mag_def F32_INF_def)
  consider "isNaN32 x" | "f32_mag (unat x) = F32_INF" | "f32_mag (unat x) < F32_INF"
    using nan(2) by fastforce
  then show ?thesis
  proof cases
    case 1
    then have "coreF32ReinterpretI32 x = CANONICAL_FLOAT64_NAN"
      by (simp add: coreF32ReinterpretI32_def isNaN32_def Let_def)
    then show ?thesis using 1 nan(1) can
      by (simp add: decodeI32AsFloat_def canonicalizeNan32_def encodeFloatAsI32_def)
  next
    case 2
    then have c: "coreF32ReinterpretI32 x = of_nat (f32_sign (unat x) * 2 ^ 63 + F64_INF)"
      by (simp add: coreF32ReinterpretI32_def Let_def)
    have "F64_INF < 2 ^ 63" by (simp add: F64_INF_def)
    note P = f64_parts [OF f32_split(2) this, of x]
    have "x = of_nat (f32_sign (unat x) * 2 ^ 31 + F32_INF)"
      using f32_split(1) [of x] 2 by simp
    then show ?thesis using 2 P
      by (simp add: decodeI32AsFloat_def canonicalizeNan32_def encodeFloatAsI32_def isNaN64_def
          isNaN32_def c coreI32ReinterpretF32_def Let_def)
  next
    case 3
    then obtain m where m: "m < F64_INF"
        "coreF32ReinterpretI32 x = of_nat (f32_sign (unat x) * 2 ^ 63 + m)"
        "case decode_mag 52 (- 1074) m of (k, e) \<Rightarrow> pack 23 (- 149) F32_INF k e = f32_mag (unat x)"
      by (rule widen_narrow_mag)
    have "m < 2 ^ 63" using m(1) by (simp add: F64_INF_def)
    note P = f64_parts [OF f32_split(2) this, of x]
    have "x = of_nat (f32_sign (unat x) * 2 ^ 31 + f32_mag (unat x))"
      using f32_split(1) [of x] by simp
    then show ?thesis using 3 P m
      by (auto simp: decodeI32AsFloat_def canonicalizeNan32_def encodeFloatAsI32_def isNaN64_def
          isNaN32_def coreI32ReinterpretF32_def Let_def split: prod.splits)
  qed
qed

end
