(* ===== verification/Handle_Table.thy ===== *)
theory Handle_Table
  imports Prelude
begin

text \<open>
  The handle table (\<open>class Table\<close> of \<open>runtime/src/cabi/handles.ts\<close>), the interface
  its clients rely on as a locale, and the interpretation of that locale on the
  table of the code. Slot 0 of the array is never used; \<open>None\<close> is the \<open>null\<close> of a
  free slot; \<open>tenure\<close> counts how often a slot has been filled.
\<close>

section \<open>The table\<close>

record 'e table =
  t_array :: "'e option list"
  t_free :: "nat list"
  t_tenure :: "nat list"

definition MAX_LENGTH :: nat where "MAX_LENGTH = 2 ^ 28 - 1"

definition empty_table :: "'e table" where
  "empty_table = \<lparr>t_array = [None], t_free = [], t_tenure = [0]\<rparr>"

text \<open>JavaScript's \<open>xs[i] = v\<close>, which extends the array past its end with holes.\<close>

definition array_set :: "'a list \<Rightarrow> nat \<Rightarrow> 'a \<Rightarrow> 'a \<Rightarrow> 'a list" where
  "array_set xs i hole v =
     (if i < length xs then xs[i := v] else xs @ replicate (i - length xs) hole @ [v])"

definition table_get :: "int \<Rightarrow> ('e table, 'e) m" where
  "table_get i =
     bnd (gets t_array) (\<lambda>arr.
     seqm (trapIf (i < 0 \<or> i \<ge> int (length arr)) ''table index out of range'')
     (seqm (trapIf (arr ! nat i = None) ''table entry empty'')
     (ret (the (arr ! nat i)))))"

text \<open>\<open>free.pop()\<close> takes the last element.\<close>

definition table_add :: "'e \<Rightarrow> ('e table, nat) m" where
  "table_add e =
     bnd (gets id) (\<lambda>t.
     if length (t_free t) > 0 then
       (let i = last (t_free t) in
        seqm (modify (\<lambda>t. t\<lparr>t_free := butlast (t_free t)\<rparr>))
        (seqm (assertm (i < length (t_array t) \<and> t_array t ! i = None) ''internal assertion failed'')
        (seqm (modify (\<lambda>t. t\<lparr>t_array := array_set (t_array t) i None (Some e)\<rparr>))
        (seqm (modify (\<lambda>t. t\<lparr>t_tenure := array_set (t_tenure t) i 0
                 ((if i < length (t_tenure t) then t_tenure t ! i else 0) + 1)\<rparr>))
        (ret i)))))
     else
       (let i = length (t_array t) in
        seqm (trapIf (i > MAX_LENGTH) ''table full'')
        (seqm (modify (\<lambda>t. t\<lparr>t_array := t_array t @ [Some e]\<rparr>))
        (seqm (modify (\<lambda>t. t\<lparr>t_tenure := t_tenure t @ [1]\<rparr>))
        (ret i)))))"

definition table_remove :: "int \<Rightarrow> ('e table, 'e) m" where
  "table_remove i =
     bnd (table_get i) (\<lambda>e.
     seqm (modify (\<lambda>t. t\<lparr>t_array := array_set (t_array t) (nat i) None None\<rparr>))
     (seqm (modify (\<lambda>t. t\<lparr>t_free := t_free t @ [nat i]\<rparr>))
     (ret e)))"

text \<open>\<open>Symbol.iterator\<close>: the live entries in index order.\<close>

definition table_iter :: "'e table \<Rightarrow> 'e list" where
  "table_iter t = map the (filter (\<lambda>x. x \<noteq> None) (t_array t))"

section \<open>What a client relies on\<close>

text \<open>
  An index table: a partial map from positive indices to entries, with an invariant.
  Insertion returns an index that was not in use; the other operations trap outside
  the domain and leave the table alone when they do.
\<close>

locale index_table =
  fixes inv :: "'t \<Rightarrow> bool"
    and entries :: "'t \<Rightarrow> nat \<rightharpoonup> 'e"
    and stamp :: "'t \<Rightarrow> nat \<Rightarrow> nat"
    and cap :: nat
    and empty :: "'t"
    and lookup :: "int \<Rightarrow> ('t, 'e) m"
    and insert :: "'e \<Rightarrow> ('t, nat) m"
    and delete :: "int \<Rightarrow> ('t, 'e) m"
  assumes empty: "inv empty" "entries empty = Map.empty"
    and entries_0: "inv t \<Longrightarrow> entries t 0 = None"
    and lookup_hit: "inv t \<Longrightarrow> entries t k = Some e \<Longrightarrow> lookup (int k) t = (Inr e, t)"
    and lookup_miss: "inv t \<Longrightarrow> i < 0 \<or> entries t (nat i) = None \<Longrightarrow> \<exists>m. lookup i t = (Inl (Trap m), t)"
    and insert_ok: "inv t \<Longrightarrow> insert e t = (Inr k, t') \<Longrightarrow>
      0 < k \<and> k \<le> cap \<and> entries t k = None \<and> inv t' \<and> entries t' = (entries t)(k \<mapsto> e) \<and>
      stamp t' = (stamp t)(k := Suc (stamp t k))"
    and insert_full: "inv t \<Longrightarrow> insert e t = (Inl x, t') \<Longrightarrow>
      t' = t \<and> is_trap x \<and> (\<forall>k. 0 < k \<longrightarrow> k \<le> cap \<longrightarrow> entries t k \<noteq> None)"
    and delete_hit: "inv t \<Longrightarrow> entries t k = Some e \<Longrightarrow>
      \<exists>t'. delete (int k) t = (Inr e, t') \<and> inv t' \<and> entries t' = (entries t)(k := None) \<and> stamp t' = stamp t"
    and delete_miss: "inv t \<Longrightarrow> i < 0 \<or> entries t (nat i) = None \<Longrightarrow> \<exists>m. delete i t = (Inl (Trap m), t)"
begin

lemma lookup_ok: "inv t \<Longrightarrow> lookup i t = (Inr e, t') \<Longrightarrow> 0 < i \<and> entries t (nat i) = Some e \<and> t' = t"
proof -
  assume a: "inv t" "lookup i t = (Inr e, t')"
  with lookup_miss [of t i] obtain e' where e': "entries t (nat i) = Some e'" "0 \<le> i" by fastforce
  with entries_0 [OF a(1)] have "0 < i" by (cases "i = 0") auto
  with lookup_hit [OF a(1) e'(1)] a(2) e' show ?thesis by simp
qed

lemma lookup_same: "inv t \<Longrightarrow> snd (lookup i t) = t"
  using lookup_hit [of t "nat i"] lookup_miss [of t i]
  by (cases "i < 0"; cases "entries t (nat i)") auto

lemma delete_ok:
  "inv t \<Longrightarrow> delete i t = (Inr e, t') \<Longrightarrow>
   0 < i \<and> entries t (nat i) = Some e \<and> inv t' \<and> entries t' = (entries t)(nat i := None) \<and> stamp t' = stamp t"
proof -
  assume a: "inv t" "delete i t = (Inr e, t')"
  with delete_miss [of t i] obtain e' where e': "entries t (nat i) = Some e'" "0 \<le> i" by fastforce
  with entries_0 [OF a(1)] have "0 < i" by (cases "i = 0") auto
  with delete_hit [OF a(1) e'(1)] a(2) e' show ?thesis by auto
qed

lemma delete_err: "inv t \<Longrightarrow> delete i t = (Inl x, t') \<Longrightarrow> t' = t \<and> is_trap x"
  using delete_hit [of t "nat i"] delete_miss [of t i]
  by (cases "i < 0"; cases "entries t (nat i)") auto

lemma insert_lookup: "inv t \<Longrightarrow> insert e t = (Inr k, t') \<Longrightarrow> lookup (int k) t' = (Inr e, t')"
  using insert_ok [of t e k t'] lookup_hit [of t' k e] by simp

lemma delete_lookup: "inv t \<Longrightarrow> delete i t = (Inr e, t') \<Longrightarrow> \<exists>m. lookup i t' = (Inl (Trap m), t')"
  using delete_ok [of t i e t'] lookup_miss [of t' i] by simp

lemma insert_inv: "inv t \<Longrightarrow> inv (snd (insert e t))"
proof -
  assume t: "inv t"
  show ?thesis
  proof (cases "insert e t")
    case (Pair r t')
    then show ?thesis
      using insert_ok [OF t, of e _ t'] insert_full [OF t, of e _ t'] t by (cases r) auto
  qed
qed

lemma delete_inv: "inv t \<Longrightarrow> inv (snd (delete i t))"
proof -
  assume t: "inv t"
  show ?thesis
  proof (cases "delete i t")
    case (Pair r t')
    then show ?thesis
      using delete_ok [OF t, of i _ t'] delete_err [OF t, of i _ t'] t by (cases r) auto
  qed
qed

text \<open>Any history of operations, the failing ones included.\<close>

end

datatype 'e table_op = Lookup int | Insert 'e | Delete int

context index_table begin

fun exec :: "'e table_op \<Rightarrow> 't \<Rightarrow> 't" where
  "exec (Lookup i) t = snd (lookup i t)"
| "exec (Insert e) t = snd (insert e t)"
| "exec (Delete i) t = snd (delete i t)"

definition history :: "'e table_op list \<Rightarrow> 't \<Rightarrow> 't" where
  "history ops t = fold exec ops t"

lemma exec_inv: "inv t \<Longrightarrow> inv (exec op t)"
  by (cases op) (simp_all add: lookup_same insert_inv delete_inv)

lemma history_inv: "inv t \<Longrightarrow> inv (history ops t)"
  unfolding history_def by (induction ops arbitrary: t) (simp_all add: exec_inv)

lemma exec_stamp:
  assumes "inv t"
  shows "stamp t k \<le> stamp (exec op t) k \<and>
    (stamp (exec op t) k = stamp t k \<longrightarrow> entries (exec op t) k = None \<or> entries (exec op t) k = entries t k)"
proof (cases op)
  case (Lookup i)
  then show ?thesis using assms by (simp add: lookup_same)
next
  case (Insert e)
  obtain r t' where "insert e t = (r, t')" by fastforce
  then show ?thesis using insert_ok [OF assms, of e _ t'] insert_full [OF assms, of e _ t'] Insert
    by (cases r) auto
next
  case (Delete i)
  obtain r t' where "delete i t = (r, t')" by fastforce
  then show ?thesis using delete_ok [OF assms, of i _ t'] delete_err [OF assms, of i _ t'] Delete
    by (cases r) auto
qed

text \<open>A slot whose stamp has not moved still holds its entry or is empty: no reuse goes
  unnoticed.\<close>

lemma history_stamp:
  assumes "inv t"
  shows "stamp t k \<le> stamp (history ops t) k \<and>
    (stamp (history ops t) k = stamp t k \<longrightarrow>
       entries (history ops t) k = None \<or> entries (history ops t) k = entries t k)"
  using assms
proof (induction ops arbitrary: t)
  case (Cons op ops)
  have "inv (exec op t)" using Cons.prems by (rule exec_inv)
  from Cons.IH [OF this] exec_stamp [OF Cons.prems, of k op] show ?case
    by (auto simp: history_def)
qed (simp add: history_def)

end

section \<open>The code's table meets the interface\<close>

definition table_inv :: "'e table \<Rightarrow> bool" where
  "table_inv t \<longleftrightarrow>
     t_array t \<noteq> [] \<and> t_array t ! 0 = None \<and> length (t_array t) \<le> MAX_LENGTH + 1 \<and>
     length (t_tenure t) = length (t_array t) \<and> distinct (t_free t) \<and>
     set (t_free t) = {i. 0 < i \<and> i < length (t_array t) \<and> t_array t ! i = None}"

definition table_entries :: "'e table \<Rightarrow> nat \<rightharpoonup> 'e" where
  "table_entries t k = (if k < length (t_array t) then t_array t ! k else None)"

definition table_stamp :: "'e table \<Rightarrow> nat \<Rightarrow> nat" where
  "table_stamp t k = (if k < length (t_tenure t) then t_tenure t ! k else 0)"

lemma table_get_run:
  "table_get i t =
   (if i < 0 \<or> i \<ge> int (length (t_array t)) then Inl (Trap ''table index out of range'')
    else case t_array t ! nat i of None \<Rightarrow> Inl (Trap ''table entry empty'') | Some e \<Rightarrow> Inr e, t)"
  by (auto simp: table_get_def monad_simps split: option.split)

lemma table_remove_run:
  "table_remove i t =
   (case table_get i t of
      (Inl x, t') \<Rightarrow> (Inl x, t')
    | (Inr e, t') \<Rightarrow> (Inr e, t\<lparr>t_array := (t_array t)[nat i := None], t_free := t_free t @ [nat i]\<rparr>))"
  by (auto simp: table_remove_def monad_simps table_get_run array_set_def split: option.split)

lemma table_add_free:
  assumes "table_inv t" "t_free t \<noteq> []"
  shows "table_add e t = (Inr (last (t_free t)),
    t\<lparr>t_array := (t_array t)[last (t_free t) := Some e], t_free := butlast (t_free t),
      t_tenure := (t_tenure t)[last (t_free t) := t_tenure t ! last (t_free t) + 1]\<rparr>)"
proof -
  have "last (t_free t) \<in> set (t_free t)" using assms(2) by simp
  then have "last (t_free t) < length (t_array t)" "t_array t ! last (t_free t) = None"
      "last (t_free t) < length (t_tenure t)"
    using assms(1) by (auto simp: table_inv_def)
  then show ?thesis using assms(2) by (simp add: table_add_def monad_simps array_set_def Let_def)
qed

lemma table_add_grow:
  assumes "t_free t = []"
  shows "table_add e t =
    (if length (t_array t) > MAX_LENGTH then (Inl (Trap ''table full''), t)
     else (Inr (length (t_array t)),
           t\<lparr>t_array := t_array t @ [Some e], t_tenure := t_tenure t @ [1]\<rparr>))"
  using assms by (simp add: table_add_def monad_simps Let_def)

lemma table_inv_empty: "table_inv empty_table"
  by (auto simp: table_inv_def empty_table_def MAX_LENGTH_def)

lemma table_invD:
  assumes "table_inv t"
  shows "0 < length (t_array t)" "t_array t ! 0 = None" "length (t_array t) \<le> MAX_LENGTH + 1"
    "length (t_tenure t) = length (t_array t)" "distinct (t_free t)"
    "k \<in> set (t_free t) \<longleftrightarrow> 0 < k \<and> k < length (t_array t) \<and> t_array t ! k = None"
  using assms by (auto simp: table_inv_def)

lemma table_invI:
  assumes "0 < length (t_array t)" "t_array t ! 0 = None" "length (t_array t) \<le> MAX_LENGTH + 1"
    "length (t_tenure t) = length (t_array t)" "distinct (t_free t)"
    "\<And>k. k \<in> set (t_free t) \<longleftrightarrow> 0 < k \<and> k < length (t_array t) \<and> t_array t ! k = None"
  shows "table_inv t"
  using assms by (auto simp: table_inv_def)

lemma table_inv_remove:
  assumes "table_inv t" "table_entries t k = Some e"
  shows "table_inv (t\<lparr>t_array := (t_array t)[k := None], t_free := t_free t @ [k]\<rparr>)"
proof -
  note D = table_invD [OF assms(1)]
  have k: "k < length (t_array t)" "t_array t ! k = Some e" "0 < k"
    using assms(2) D(2) by (auto simp: table_entries_def split: if_splits intro: gr0I)
  have "k \<notin> set (t_free t)" using D(6) k by simp
  then show ?thesis
    using D k by (intro table_invI) (auto simp: nth_list_update)
qed

lemma table_inv_add_free:
  assumes "table_inv t" "t_free t \<noteq> []"
  shows "table_inv (t\<lparr>t_array := (t_array t)[last (t_free t) := Some e], t_free := butlast (t_free t),
      t_tenure := (t_tenure t)[last (t_free t) := n]\<rparr>)"
proof -
  obtain xs x where f: "t_free t = xs @ [x]" using assms(2) by (metis rev_exhaust)
  note D = table_invD [OF assms(1), unfolded f]
  have x: "x \<notin> set xs" "distinct xs" "0 < x" "x < length (t_array t)" using D(5) D(6) [of x] by auto
  have "j \<in> set xs \<longleftrightarrow> 0 < j \<and> j < length (t_array t) \<and> (t_array t)[x := Some e] ! j = None" for j
    using D(6) [of j] x by (cases "j = x") auto
  then show ?thesis
    using D(1-4) x f by (intro table_invI) (simp_all add: nth_list_update)
qed

lemma table_inv_add_grow:
  assumes "table_inv t" "t_free t = []" "length (t_array t) \<le> MAX_LENGTH"
  shows "table_inv (t\<lparr>t_array := t_array t @ [Some e], t_tenure := t_tenure t @ [1]\<rparr>)"
  using assms by (auto simp: table_inv_def nth_append split: if_splits)

lemma table_free_iff:
  "table_inv t \<Longrightarrow> k \<in> set (t_free t) \<longleftrightarrow> 0 < k \<and> k < length (t_array t) \<and> table_entries t k = None"
  by (auto simp: table_inv_def table_entries_def)

interpretation ht: index_table table_inv table_entries table_stamp MAX_LENGTH empty_table
  table_get table_add table_remove
proof unfold_locales
  show "table_inv empty_table" by (rule table_inv_empty)
  show "table_entries empty_table = Map.empty"
    by (rule ext) (auto simp: table_entries_def empty_table_def)
next
  fix t :: "'a table" assume t: "table_inv t"
  show "table_entries t 0 = None" using t by (auto simp: table_entries_def table_inv_def)
next
  fix t :: "'a table" and k e assume "table_inv t" "table_entries t k = Some e"
  then show "table_get (int k) t = (Inr e, t)"
    by (auto simp: table_get_run table_entries_def split: if_splits)
next
  fix t :: "'a table" and i assume "table_inv t" "i < 0 \<or> table_entries t (nat i) = None"
  then show "\<exists>m. table_get i t = (Inl (Trap m), t)"
    by (auto simp: table_get_run table_entries_def split: if_splits option.splits)
next
  fix t t' :: "'a table" and e k
  assume t: "table_inv t" and a: "table_add e t = (Inr k, t')"
  show "0 < k \<and> k \<le> MAX_LENGTH \<and> table_entries t k = None \<and> table_inv t' \<and>
      table_entries t' = (table_entries t)(k \<mapsto> e) \<and> table_stamp t' = (table_stamp t)(k := Suc (table_stamp t k))"
  proof (cases "t_free t = []")
    case True
    with a have *: "length (t_array t) \<le> MAX_LENGTH" "k = length (t_array t)"
        "t' = t\<lparr>t_array := t_array t @ [Some e], t_tenure := t_tenure t @ [1]\<rparr>"
      by (auto simp: table_add_grow split: if_splits)
    with t table_inv_add_grow [OF t True *(1)] show ?thesis
      by (auto simp: table_entries_def table_stamp_def table_inv_def nth_append intro!: ext)
  next
    case False
    from a have *: "k = last (t_free t)"
        "t' = t\<lparr>t_array := (t_array t)[k := Some e], t_free := butlast (t_free t),
           t_tenure := (t_tenure t)[k := t_tenure t ! k + 1]\<rparr>"
      by (auto simp: table_add_free [OF t False])
    have k: "0 < k" "k < length (t_array t)" "table_entries t k = None" "length (t_tenure t) = length (t_array t)"
        "length (t_array t) \<le> MAX_LENGTH + 1"
      using table_free_iff [OF t, of k] False * t by (auto simp: table_inv_def)
    with table_inv_add_free [OF t False] * show ?thesis
      by (auto simp: table_entries_def table_stamp_def nth_list_update intro!: ext)
  qed
next
  fix t t' :: "'a table" and e x
  assume t: "table_inv t" and a: "table_add e t = (Inl x, t')"
  from a have "t_free t = []" by (cases "t_free t = []") (auto simp: table_add_free [OF t])
  with a have *: "t' = t" "x = Trap ''table full''" "\<not> length (t_array t) \<le> MAX_LENGTH" "t_free t = []"
    by (auto simp: table_add_grow split: if_splits)
  then have "table_entries t k \<noteq> None" if "0 < k" "k \<le> MAX_LENGTH" for k
    using table_free_iff [OF t, of k] that by auto
  with * show "t' = t \<and> is_trap x \<and> (\<forall>k. 0 < k \<longrightarrow> k \<le> MAX_LENGTH \<longrightarrow> table_entries t k \<noteq> None)" by simp
next
  fix t :: "'a table" and k e assume t: "table_inv t" "table_entries t k = Some e"
  then have "k < length (t_array t)" "t_array t ! k = Some e"
    by (auto simp: table_entries_def split: if_splits)
  with table_inv_remove [OF t]
  show "\<exists>t'. table_remove (int k) t = (Inr e, t') \<and> table_inv t' \<and>
      table_entries t' = (table_entries t)(k := None) \<and> table_stamp t' = table_stamp t"
    by (auto simp: table_remove_run table_get_run table_entries_def table_stamp_def nth_list_update intro!: ext)
next
  fix t :: "'a table" and i assume "table_inv t" "i < 0 \<or> table_entries t (nat i) = None"
  then show "\<exists>m. table_remove i t = (Inl (Trap m), t)"
    by (auto simp: table_remove_run table_get_run table_entries_def split: if_splits option.splits)
qed

section \<open>Properties\<close>

text \<open>No sequence of lookups, insertions and removals, the trapping ones included, breaks
  the table's invariant: slot 0 stays empty and the free list holds exactly the empty
  slots, each once.\<close>

theorem table_history_inv: "table_inv (ht.history ops empty_table)"
  by (rule ht.history_inv [OF ht.empty(1)])

text \<open>Insertion never reuses a live index and never hands out index 0, changes no other
  entry, and fails, with a trap and no effect, only when all \<open>2^28 - 1\<close> indices are live.\<close>

theorem table_add_fresh:
  assumes "table_inv t"
  shows "case table_add e t of
      (Inr k, t') \<Rightarrow> 0 < k \<and> k \<le> MAX_LENGTH \<and> table_entries t k = None \<and>
        table_entries t' = (table_entries t)(k \<mapsto> e) \<and> table_get (int k) t' = (Inr e, t')
    | (Inl x, t') \<Rightarrow> t' = t \<and> is_trap x \<and> (\<forall>k. 0 < k \<longrightarrow> k \<le> MAX_LENGTH \<longrightarrow> table_entries t k \<noteq> None)"
proof -
  obtain r t' where "table_add e t = (r, t')" by fastforce
  then show ?thesis
    using ht.insert_ok [OF assms, of e _ t'] ht.insert_full [OF assms, of e _ t'] ht.insert_lookup [OF assms, of e _ t']
    by (cases r) auto
qed

lemma table_add_fresh_witness:
  "case table_add (7::nat) \<lparr>t_array = [None, None, Some 5], t_free = [1], t_tenure = [0, 1, 1]\<rparr> of
      (Inr k, t') \<Rightarrow> k = 1 \<and> table_entries t' = (table_entries
          \<lparr>t_array = [None, None, Some 5], t_free = [1], t_tenure = [0, 1, 1]\<rparr>)(1 \<mapsto> 7)
    | (Inl x, t') \<Rightarrow> False"
proof -
  let ?t = "\<lparr>t_array = [None, None, Some (5::nat)], t_free = [1], t_tenure = [0, 1, 1]\<rparr>"
  have inv: "table_inv ?t" by (intro table_invI) (auto simp: MAX_LENGTH_def nth_Cons' less_Suc_eq)
  have add: "table_add (7::nat) ?t = (Inr 1, \<lparr>t_array = [None, Some 7, Some 5], t_free = [], t_tenure = [0, 2, 1]\<rparr>)"
    by (subst table_add_free [OF inv]) simp_all
  from table_add_fresh [OF inv, of 7] show ?thesis
    unfolding add by simp
qed

text \<open>C28. A handle index that the guest keeps across other operations cannot be confused with
  a later occupant of its slot: as long as the slot's tenure count is unchanged, the slot
  holds the entry it held or is empty.\<close>

theorem table_tenure_no_aba:
  assumes "table_inv t" "table_stamp (ht.history ops t) k = table_stamp t k"
  shows "table_entries (ht.history ops t) k \<in> {None, table_entries t k}"
  using ht.history_stamp [OF assms(1)] assms(2) by blast

lemma table_tenure_no_aba_witness:
  "table_entries (ht.history [Insert 9, Delete 1] (ht.history [Insert (5::nat)] empty_table)) 1
     \<in> {None, table_entries (ht.history [Insert 5] empty_table) 1}"
  by (rule table_tenure_no_aba [OF ht.history_inv [OF ht.empty(1)]])
    (simp add: ht.history_def table_stamp_def table_add_def empty_table_def table_remove_run table_get_run
        MAX_LENGTH_def monad_simps array_set_def)

end
