(* ===== verification/Cabi_Memory.thy ===== *)
theory Cabi_Memory
  imports Cabi_Flatten Js_Float Handle_Table
begin

text \<open>
  The state of a lift or lower and the accesses to linear memory
  (\<open>runtime/src/cabi/memory.ts\<close>, \<open>context.ts\<close>): JavaScript values at the boundary,
  the memory, handle table and \<open>may_leave\<close> flag of the instance, the context object,
  little-endian integer accesses and the guest's \<open>realloc\<close>. Addresses and lengths are
  natural numbers; widths of 4 and 8 bytes decide between a number and a bigint.
\<close>

section \<open>Values at the boundary\<close>

text \<open>
  A JavaScript number is an integer or the bits of a double; either form is accepted
  wherever a number is. \<open>VCase k v\<close> is the object \<open>{kind: k, value: v}\<close> of a variant,
  \<open>VObj\<close> a record in insertion order, \<open>VShared\<close> the identity of a shared stream, future
  or error context, \<open>VStr\<close> the UTF-16 code units of a string.
\<close>

datatype cval =
    VBool bool
  | VNum int
  | VFlt "64 word"
  | VBig int
  | VStr "16 word list"
  | VNull
  | VUndef
  | VBytes "8 word list"
  | VArr "cval list"
  | VObj "(string \<times> cval) list"
  | VCase string cval
  | VShared nat

text \<open>\<open>Number.isInteger\<close>, with the integer.\<close>

fun num_int :: "cval \<Rightarrow> int option" where
  "num_int (VNum i) = Some i"
| "num_int (VFlt w) = int_of_f64 w"
| "num_int _ = None"

text \<open>The double a value is read as by \<open>setFloat64\<close> and the typed float arrays (\<open>ToNumber\<close>,
  for the values that are numbers, booleans, \<open>null\<close> or \<open>undefined\<close>).\<close>

fun to_f64 :: "cval \<Rightarrow> (64 word) res" where
  "to_f64 (VNum i) = Inr (f64_of_int i)"
| "to_f64 (VFlt w) = Inr w"
| "to_f64 (VBool b) = Inr (if b then f64_of_int 1 else 0)"
| "to_f64 VNull = Inr 0"
| "to_f64 VUndef = Inr CANONICAL_FLOAT64_NAN"
| "to_f64 _ = Inl (TypeError ''not a number'')"

text \<open>\<open>Boolean(v)\<close>.\<close>

fun truthy :: "cval \<Rightarrow> bool" where
  "truthy (VBool b) = b"
| "truthy (VNum i) = (i \<noteq> 0)"
| "truthy (VFlt w) = (f64_mag (unat w) \<noteq> 0 \<and> \<not> isNaN64 w)"
| "truthy (VBig i) = (i \<noteq> 0)"
| "truthy (VStr s) = (s \<noteq> [])"
| "truthy VNull = False"
| "truthy VUndef = False"
| "truthy _ = True"

text \<open>Reading a property: \<open>undefined\<close> when absent, an exception on \<open>null\<close> and \<open>undefined\<close>.\<close>

fun obj_get :: "cval \<Rightarrow> string \<Rightarrow> cval res" where
  "obj_get (VObj kvs) l = Inr (case map_of kvs l of Some v \<Rightarrow> v | None \<Rightarrow> VUndef)"
| "obj_get (VCase k v) l =
     Inr (if l = ''value'' then v else if l = ''kind'' then VStr (map (\<lambda>c. of_nat (of_char c)) k) else VUndef)"
| "obj_get VNull l = Inl (TypeError ''cannot read properties of null'')"
| "obj_get VUndef l = Inl (TypeError ''cannot read properties of undefined'')"
| "obj_get _ l = Inr VUndef"

text \<open>\<open>record[label] = v\<close> keeps the position of a label that is already there.\<close>

fun obj_set :: "(string \<times> cval) list \<Rightarrow> string \<Rightarrow> cval \<Rightarrow> (string \<times> cval) list" where
  "obj_set [] l v = [(l, v)]"
| "obj_set ((k, u) # kvs) l v = (if k = l then (k, v) # kvs else (k, u) # obj_set kvs l v)"

definition obj_of :: "(string \<times> cval) list \<Rightarrow> cval" where
  "obj_of kvs = VObj (foldl (\<lambda>r (l, v). obj_set r l v) [] kvs)"

text \<open>The elements of an array-like value.\<close>

fun elements :: "cval \<Rightarrow> cval list res" where
  "elements (VArr vs) = Inr vs"
| "elements (VBytes bs) = Inr (map (\<lambda>b. VNum (uint b)) bs)"
| "elements VNull = Inl (TypeError ''cannot read properties of null'')"
| "elements VUndef = Inl (TypeError ''cannot read properties of undefined'')"
| "elements _ = Inl (TypeError ''not an array'')"

lemma obj_set_fresh: "l \<notin> fst ` set kvs \<Longrightarrow> obj_set kvs l v = kvs @ [(l, v)]"
  by (induction kvs l v rule: obj_set.induct) auto

lemma obj_of_distinct: "distinct (map fst kvs) \<Longrightarrow> obj_of kvs = VObj kvs"
proof -
  have "foldl (\<lambda>r (l, v). obj_set r l v) acc kvs = acc @ kvs"
    if "distinct (map fst (acc @ kvs))" for acc
    using that
  proof (induction kvs arbitrary: acc)
    case (Cons kv kvs)
    obtain l v where kv: "kv = (l, v)" by fastforce
    have "l \<notin> fst ` set acc" using Cons.prems kv by auto
    moreover have "distinct (map fst ((acc @ [(l, v)]) @ kvs))" using Cons.prems kv by auto
    ultimately show ?case using Cons.IH [of "acc @ [(l, v)]"] kv by (simp add: obj_set_fresh)
  qed simp
  from this [of "[]"] show "distinct (map fst kvs) \<Longrightarrow> obj_of kvs = VObj kvs"
    by (simp add: obj_of_def)
qed

section \<open>Little-endian bytes\<close>

fun le_bytes :: "nat \<Rightarrow> nat \<Rightarrow> 8 word list" where
  "le_bytes 0 v = []"
| "le_bytes (Suc k) v = of_nat v # le_bytes k (v div 256)"

fun le_nat :: "8 word list \<Rightarrow> nat" where
  "le_nat [] = 0"
| "le_nat (b # bs) = unat b + 256 * le_nat bs"

definition le_int :: "8 word list \<Rightarrow> int" where
  "le_int bs = (let v = le_nat bs; k = 8 * length bs in
     if v \<ge> 2 ^ (k - 1) then int v - 2 ^ k else int v)"

lemma length_le_bytes [simp]: "length (le_bytes k v) = k"
  by (induction k v rule: le_bytes.induct) auto

lemma unat_of_nat8: "unat (of_nat v :: 8 word) = v mod 256"
  by (simp add: unsigned_of_nat take_bit_eq_mod)

lemma le_nat_le_bytes: "le_nat (le_bytes k v) = v mod 256 ^ k"
proof (induction k v rule: le_bytes.induct)
  case (2 k v)
  have "v mod (256 * 256 ^ k) = 256 * (v div 256 mod 256 ^ k) + v mod 256"
    by (rule mod_mult2_eq)
  with 2 show ?case by (simp add: unat_of_nat8)
qed simp

lemma le_nat_bound: "le_nat bs < 256 ^ length bs"
proof (induction bs)
  case (Cons b bs)
  have "unat b < 256" using unsigned_less [of b, where 'a = nat] by simp
  with Cons show ?case by simp
qed simp

lemma le_bytes_le_nat: "le_bytes (length bs) (le_nat bs) = bs"
proof (induction bs)
  case (Cons b bs)
  have b: "unat b < 256" using unsigned_less [of b, where 'a = nat] by simp
  then have "(unat b + 256 * le_nat bs) div 256 = le_nat bs" by simp
  moreover have "(of_nat (unat b + 256 * le_nat bs) :: 8 word) = b"
  proof -
    have "unat (of_nat (unat b + 256 * le_nat bs) :: 8 word) = unat b"
      unfolding unat_of_nat8 using b by simp
    then show ?thesis by (rule unsigned_word_eqI)
  qed
  ultimately show ?case using Cons by simp
qed simp

lemma le_nat_inject: "length xs = length ys \<Longrightarrow> le_nat xs = le_nat ys \<Longrightarrow> xs = ys"
  by (metis le_bytes_le_nat)

section \<open>The state\<close>

text \<open>
  Handle-table entries name objects: a resource handle by its place in \<open>c_rhs\<close>, the
  asynchronous objects by an identity that the task layer interprets. \<open>c_borrows\<close> is
  \<open>numBorrows\<close> of each task, \<open>c_subtasks\<close> holds the subtasks (\<open>task/subtask.ts\<close>) that a
  borrow scope may name; \<open>sb_lenders = None\<close> is the \<open>null\<close> of a delivered resolution,
  \<open>sb_wait\<close> the place of the subtask's waitable.
\<close>

datatype hentry =
    ResourceE nat
  | ReadableStreamE nat
  | WritableStreamE nat
  | ReadableFutureE nat
  | WritableFutureE nat
  | SubtaskE nat
  | WaitableSetE nat
  | ErrorContextE nat

record rhandle =
  rh_rt :: rtable
  rh_rep :: int
  rh_own :: bool
  rh_scope :: "nat option"
  rh_lends :: int

datatype subtask_state =
  STARTING | STARTED | RETURNED | CANCELLED_BEFORE_STARTED | CANCELLED_BEFORE_RETURNED

record subtask =
  sb_state :: subtask_state
  sb_lenders :: "nat list option"
  sb_results :: "cval list"
  sb_cancel_requested :: bool
  sb_wait :: nat

record cst =
  c_mem :: "8 word list"
  c_handles :: "hentry table"
  c_may_leave :: bool
  c_rhs :: "rhandle list"
  c_borrows :: "nat \<Rightarrow> int"
  c_subtasks :: "subtask list"

text \<open>A fresh instance with a given memory.\<close>

definition init_state :: "8 word list \<Rightarrow> cst" where
  "init_state bs = \<lparr>c_mem = bs, c_handles = empty_table, c_may_leave = True, c_rhs = [],
     c_borrows = (\<lambda>_. 0), c_subtasks = []\<rparr>"

datatype borrow_scope = SubtaskScope nat | TaskScope nat

text \<open>
  \<open>LiftLowerContext\<close>. \<open>cx_realloc\<close> is the guest's allocator, \<open>cx_checkpoint\<close> the host's
  reentry guard, \<open>cx_inserted\<close> the custody record of a prepared host value; \<open>cx_impl\<close>
  gives the instance that implements a resource type. The asynchronous value operations
  come from the task layer.
\<close>

record 's cx =
  cx_encoding :: string_encoding
  cx_memory :: "ptr_type option"
  cx_realloc :: "(nat \<Rightarrow> nat \<Rightarrow> nat \<Rightarrow> nat \<Rightarrow> ('s, nat) m) option"
  cx_inst :: "nat option"
  cx_scope :: "borrow_scope option"
  cx_checkpoint :: "('s, unit) m"
  cx_inserted :: "nat \<Rightarrow> hentry \<Rightarrow> ('s, unit) m"
  cx_removal_failed :: "hentry \<Rightarrow> err \<Rightarrow> ('s, unit) m"
  cx_impl :: "nat \<Rightarrow> nat option"
  cx_little_endian :: bool
  cx_byte_offset :: nat
  cx_liftErrorContext :: "nat \<Rightarrow> ('s, cval) m"
  cx_liftStream :: "nat \<Rightarrow> valtype option \<Rightarrow> ('s, cval) m"
  cx_liftFuture :: "nat \<Rightarrow> valtype option \<Rightarrow> ('s, cval) m"
  cx_lowerErrorContext :: "cval \<Rightarrow> ('s, nat) m"
  cx_lowerStream :: "cval \<Rightarrow> valtype option \<Rightarrow> ('s, nat) m"
  cx_lowerFuture :: "cval \<Rightarrow> valtype option \<Rightarrow> ('s, nat) m"

type_synonym ('x, 'a) cm = "('x cst_scheme, 'a) m"

definition requireMem :: "'s cx \<Rightarrow> ('s, ptr_type) m" where
  "requireMem cx = of_res (requireMemory (cx_memory cx))"

section \<open>Memory accesses\<close>

definition memLength :: "('x, nat) cm" where
  "memLength = gets (\<lambda>s. length (c_mem s))"

definition MAX_SAFE_INTEGER :: nat where "MAX_SAFE_INTEGER = 2 ^ 53 - 1"

definition asIndex :: "nat \<Rightarrow> ('s, nat) m" where
  "asIndex v = seqm (assertm (v \<le> MAX_SAFE_INTEGER) ''index overflow'') (ret v)"

definition loadIntU :: "nat \<Rightarrow> nat \<Rightarrow> ('x, nat) cm" where
  "loadIntU ptr nbytes =
     bnd memLength (\<lambda>len.
     seqm (assertm (ptr + nbytes \<le> len) ''load out of bounds'')
     (gets (\<lambda>s. le_nat (subarray (c_mem s) ptr nbytes))))"

definition loadIntS :: "nat \<Rightarrow> nat \<Rightarrow> ('x, int) cm" where
  "loadIntS ptr nbytes =
     bnd memLength (\<lambda>len.
     seqm (assertm (ptr + nbytes \<le> len) ''load out of bounds'')
     (gets (\<lambda>s. le_int (subarray (c_mem s) ptr nbytes))))"

definition loadPtr :: "ptr_type \<Rightarrow> nat \<Rightarrow> ('x, nat) cm" where
  "loadPtr pt ptr = (if ptrSize pt = 4 then loadIntU ptr 4 else loadIntU ptr 8)"

definition bigintFitsIn64 :: "int \<Rightarrow> bool \<Rightarrow> bool" where
  "bigintFitsIn64 v sgnd =
     (if sgnd then v \<ge> - (2 ^ 63) \<and> v < 2 ^ 63 else v \<ge> 0 \<and> v < 2 ^ 64)"

definition numberFitsInWidth :: "int \<Rightarrow> nat \<Rightarrow> bool \<Rightarrow> bool" where
  "numberFitsInWidth v nbytes sgnd =
     (let bits = nbytes * 8 in
      if sgnd then v \<ge> - (2 ^ (bits - 1)) \<and> v \<le> 2 ^ (bits - 1) - 1
      else v \<ge> 0 \<and> v \<le> 2 ^ bits - 1)"

definition put_bytes :: "nat \<Rightarrow> 8 word list \<Rightarrow> ('x, unit) cm" where
  "put_bytes p bs = modify (\<lambda>s. s\<lparr>c_mem := overwrite (c_mem s) p bs\<rparr>)"

text \<open>\<open>view.setInt8\<close> \<dots> \<open>view.setBigUint64\<close>: the value modulo the width.\<close>

definition set_int :: "nat \<Rightarrow> nat \<Rightarrow> int \<Rightarrow> ('x, unit) cm" where
  "set_int p nbytes i = put_bytes p (le_bytes nbytes (nat (i mod 2 ^ (8 * nbytes))))"

definition storeInt :: "cval \<Rightarrow> nat \<Rightarrow> nat \<Rightarrow> bool \<Rightarrow> ('x, unit) cm" where
  "storeInt v ptr nbytes sgnd =
     bnd memLength (\<lambda>len.
     seqm (assertm (ptr + nbytes \<le> len) ''store out of bounds'')
     (if nbytes = 8 then
        (case v of
           VBig i \<Rightarrow> seqm (assertm (bigintFitsIn64 i sgnd) ''int store: value out of range'')
             (set_int ptr 8 i)
         | _ \<Rightarrow> throw (AssertionError ''64-bit store requires bigint''))
      else
        (case num_int v of
           None \<Rightarrow> throw (AssertionError ''int store'')
         | Some i \<Rightarrow> seqm (assertm (numberFitsInWidth i nbytes sgnd) ''int store: value out of range'')
             (set_int ptr nbytes i))))"

definition storePtr :: "ptr_type \<Rightarrow> nat \<Rightarrow> nat \<Rightarrow> ('x, unit) cm" where
  "storePtr pt v ptr =
     (if ptrSize pt = 4 then storeInt (VNum (int v)) ptr 4 False
      else storeInt (VBig (int v)) ptr 8 False)"

definition bytesOf :: "nat \<Rightarrow> nat \<Rightarrow> ('x, 8 word list) cm" where
  "bytesOf ptr len =
     bnd memLength (\<lambda>n.
     seqm (assertm (ptr + len \<le> n) ''range OOB'')
     (gets (\<lambda>s. subarray (c_mem s) ptr len)))"

definition writeBytes :: "nat \<Rightarrow> 8 word list \<Rightarrow> ('x, unit) cm" where
  "writeBytes ptr src =
     bnd memLength (\<lambda>n.
     seqm (assertm (ptr + length src \<le> n) ''write OOB'')
     (put_bytes ptr src))"

definition trapIfRangeExceedsMemory :: "nat \<Rightarrow> nat \<Rightarrow> string \<Rightarrow> ('x, unit) cm" where
  "trapIfRangeExceedsMemory ptr byteLength what =
     bnd memLength (\<lambda>n. trapIf (ptr + byteLength > n) what)"

section \<open>The guest's allocator\<close>

definition reallocate :: "'x cst_scheme cx \<Rightarrow> nat \<Rightarrow> nat \<Rightarrow> nat \<Rightarrow> nat \<Rightarrow> ('x, nat) cm" where
  "reallocate cx old oldByteLength align newByteLength =
     (case cx_realloc cx of
        None \<Rightarrow> throw (Trap ''realloc required but not provided'')
      | Some realloc \<Rightarrow>
          if cx_inst cx = None then realloc old oldByteLength align newByteLength
          else
            bnd (gets c_may_leave) (\<lambda>mayLeave.
            seqm (assertm mayLeave ''realloc with may_leave already false'')
            (seqm (modify (\<lambda>s. s\<lparr>c_may_leave := False\<rparr>))
            (bnd (realloc old oldByteLength align newByteLength) (\<lambda>ptr.
             seqm (modify (\<lambda>s. s\<lparr>c_may_leave := True\<rparr>))
             (seqm (cx_checkpoint cx)
             (ret ptr)))))))"

definition allocate :: "'x cst_scheme cx \<Rightarrow> nat \<Rightarrow> nat \<Rightarrow> ('x, nat) cm" where
  "allocate cx align byteLength = reallocate cx 0 0 align byteLength"

section \<open>What a store leaves for a load\<close>

lemma memLength_run [simp, monad_simps]: "memLength s = (Inr (length (c_mem s)), s)"
  by (simp add: memLength_def)

lemma put_bytes_run [simp, monad_simps]: "put_bytes p bs s = (Inr (), s\<lparr>c_mem := overwrite (c_mem s) p bs\<rparr>)"
  by (simp add: put_bytes_def)

lemma requireMem_Some [simp]: "cx_memory cx = Some pt \<Longrightarrow> requireMem cx = ret pt"
  by (rule ext) (simp add: requireMem_def requireMemory_def)

lemma requireMem_run: "cx_memory cx = Some pt \<Longrightarrow> requireMem cx s = (Inr pt, s)"
  by simp

lemma loadIntU_run:
  "ptr + n \<le> length (c_mem s) \<Longrightarrow> loadIntU ptr n s = (Inr (le_nat (subarray (c_mem s) ptr n)), s)"
  by (simp add: loadIntU_def monad_simps)

lemma loadIntS_run:
  "ptr + n \<le> length (c_mem s) \<Longrightarrow> loadIntS ptr n s = (Inr (le_int (subarray (c_mem s) ptr n)), s)"
  by (simp add: loadIntS_def monad_simps)

lemma loadPtr_run:
  "ptr + ptrSize pt \<le> length (c_mem s) \<Longrightarrow>
   loadPtr pt ptr s = (Inr (le_nat (subarray (c_mem s) ptr (ptrSize pt))), s)"
  by (cases pt) (simp_all add: loadPtr_def loadIntU_run ptrSize_def)

text \<open>The value a store of a given width takes, and the bytes it writes.\<close>

definition store_arg :: "nat \<Rightarrow> cval \<Rightarrow> int option" where
  "store_arg n v = (if n = 8 then (case v of VBig i \<Rightarrow> Some i | _ \<Rightarrow> None) else num_int v)"

definition int_bytes :: "nat \<Rightarrow> int \<Rightarrow> 8 word list" where
  "int_bytes n i = le_bytes n (nat (i mod 2 ^ (8 * n)))"

lemma length_int_bytes [simp]: "length (int_bytes n i) = n"
  by (simp add: int_bytes_def)

lemma bigintFits_eq: "bigintFitsIn64 i sg = numberFitsInWidth i 8 sg"
  by (auto simp: bigintFitsIn64_def numberFitsInWidth_def)

lemma storeInt_Inr:
  "storeInt v ptr n sg s = (Inr u, t) \<longleftrightarrow>
   ptr + n \<le> length (c_mem s) \<and>
   (\<exists>i. store_arg n v = Some i \<and> numberFitsInWidth i n sg \<and>
        t = s\<lparr>c_mem := overwrite (c_mem s) ptr (int_bytes n i)\<rparr>)"
  by (auto simp: storeInt_def store_arg_def set_int_def int_bytes_def monad_simps bigintFits_eq
      split: cval.splits option.splits)

lemma storeInt_run:
  "ptr + n \<le> length (c_mem s) \<Longrightarrow> store_arg n v = Some i \<Longrightarrow> numberFitsInWidth i n sg \<Longrightarrow>
   storeInt v ptr n sg s = (Inr (), s\<lparr>c_mem := overwrite (c_mem s) ptr (int_bytes n i)\<rparr>)"
  by (subst storeInt_Inr) auto

lemma pow256: "(256::nat) ^ n = 2 ^ (8 * n)"
  by (simp add: power_mult)

lemma le_nat_int_bytes:
  assumes "0 \<le> i" "i < 2 ^ (8 * n)"
  shows "le_nat (int_bytes n i) = nat i"
proof -
  have "nat i < 2 ^ (8 * n)" using assms by (simp add: nat_less_iff)
  then show ?thesis using assms by (simp add: int_bytes_def le_nat_le_bytes pow256)
qed

lemma le_nat_int_bytes_unsigned: "numberFitsInWidth i n False \<Longrightarrow> le_nat (int_bytes n i) = nat i"
  by (rule le_nat_int_bytes) (auto simp: numberFitsInWidth_def Let_def mult.commute)

lemma le_int_int_bytes_signed:
  assumes "numberFitsInWidth i n True" "0 < n"
  shows "le_int (int_bytes n i) = i"
proof -
  define k where "k = 8 * n - 1"
  have k: "8 * n = Suc k" "n * 8 = Suc k" using assms(2) by (simp_all add: k_def)
  have i: "- (2 ^ k) \<le> i" "i < 2 ^ k"
    using assms(1) by (simp_all add: numberFitsInWidth_def Let_def k)
  have "nat (i mod 2 ^ Suc k) < 2 ^ Suc k"
    by (simp only: nat_less_iff pos_mod_sign zero_less_power zero_less_numeral of_nat_power of_nat_numeral pos_mod_bound)
  then have l: "le_nat (int_bytes n i) = nat (i mod 2 ^ Suc k)"
    by (simp add: int_bytes_def le_nat_le_bytes pow256 k del: power_Suc)
  show ?thesis
  proof (cases "0 \<le> i")
    case True
    with i have "i mod 2 ^ Suc k = i" by (intro mod_pos_pos_trivial) simp_all
    moreover have "nat i < 2 ^ k" using True i by (simp add: nat_less_iff)
    ultimately show ?thesis using True by (simp add: le_int_def l k Let_def del: power_Suc)
  next
    case False
    with i have "(i + 2 ^ Suc k) mod 2 ^ Suc k = i + 2 ^ Suc k" by (intro mod_pos_pos_trivial) simp_all
    then have m: "i mod 2 ^ Suc k = i + 2 ^ Suc k" by simp
    have "2 ^ k \<le> i + 2 ^ Suc k" "0 \<le> i + 2 ^ Suc k" using i by simp_all
    then have "2 ^ k \<le> nat (i + 2 ^ Suc k)" by (simp add: nat_le_iff le_nat_iff del: power_Suc)
    with \<open>0 \<le> i + 2 ^ Suc k\<close> show ?thesis by (simp add: le_int_def l k Let_def m del: power_Suc)
  qed
qed

lemma int_bytes_le_nat: "length bs = n \<Longrightarrow> int_bytes n (int (le_nat bs)) = bs"
proof -
  assume n: "length bs = n"
  have "le_nat bs < 2 ^ (8 * n)" using le_nat_bound [of bs] by (simp add: n pow256)
  then have "int (le_nat bs) mod 2 ^ (8 * n) = int (le_nat bs)" by simp
  then show ?thesis using le_bytes_le_nat [of bs] n by (simp add: int_bytes_def)
qed

text \<open>An integer store followed by a load of the same width at the same address returns
  the stored integer, unsigned or signed, and leaves every other byte of memory alone; a
  value that does not fit the width is never stored.\<close>

theorem storeInt_loadInt:
  assumes "storeInt v ptr n sgnd s = (Inr u, t)" "n \<in> {1, 2, 4, 8}"
  shows "\<exists>i. store_arg n v = Some i \<and> numberFitsInWidth i n sgnd \<and>
    (if sgnd then loadIntS ptr n t = (Inr i, t) else loadIntU ptr n t = (Inr (nat i), t)) \<and>
    same_outside ptr n (c_mem s) (c_mem t)"
proof -
  from assms(1) obtain i where i: "ptr + n \<le> length (c_mem s)" "store_arg n v = Some i"
      "numberFitsInWidth i n sgnd" "t = s\<lparr>c_mem := overwrite (c_mem s) ptr (int_bytes n i)\<rparr>"
    by (auto simp: storeInt_Inr)
  have "0 < n" using assms(2) by auto
  then show ?thesis using i
    by (auto simp: loadIntU_run loadIntS_run le_nat_int_bytes_unsigned le_int_int_bytes_signed)
qed

lemma storeInt_loadInt_witness:
  "\<exists>i. store_arg 1 (VNum (- 2)) = Some i \<and> numberFitsInWidth i 1 True \<and>
    (if True then loadIntS 1 1 (init_state [0, 254]) = (Inr i, init_state [0, 254])
     else loadIntU 1 1 (init_state [0, 254]) = (Inr (nat i), init_state [0, 254])) \<and>
    same_outside 1 1 (c_mem (init_state [0, 0])) (c_mem (init_state [0, 254]))"
  by (rule storeInt_loadInt [where u = "()"])
    (simp_all add: init_state_def storeInt_Inr store_arg_def numberFitsInWidth_def int_bytes_def overwrite_def)

text \<open>C34. The guest's allocator runs only with \<open>may_leave\<close> clear: what it would do in a state
  where it is set has no influence on the result; entered with the flag already clear the
  call is refused and nothing changes. A successful call gives the flag back.\<close>

theorem reallocate_may_leave:
  assumes "cx_inst cx = Some inst" "\<And>p l a n s. \<not> c_may_leave s \<Longrightarrow> f p l a n s = g p l a n s"
  shows "reallocate (cx\<lparr>cx_realloc := Some f\<rparr>) old oldLen align newLen s =
      reallocate (cx\<lparr>cx_realloc := Some g\<rparr>) old oldLen align newLen s \<and>
    (if c_may_leave s then
       (case f old oldLen align newLen (s\<lparr>c_may_leave := False\<rparr>) of
          (Inl e, t) \<Rightarrow> reallocate (cx\<lparr>cx_realloc := Some f\<rparr>) old oldLen align newLen s = (Inl e, t)
        | (Inr ptr, t) \<Rightarrow> reallocate (cx\<lparr>cx_realloc := Some f\<rparr>) old oldLen align newLen s =
            seqm (cx_checkpoint cx) (ret ptr) (t\<lparr>c_may_leave := True\<rparr>))
     else reallocate (cx\<lparr>cx_realloc := Some f\<rparr>) old oldLen align newLen s =
        (Inl (AssertionError ''realloc with may_leave already false''), s))"
  using assms(1) assms(2) [of "s\<lparr>c_may_leave := False\<rparr>"]
  by (auto simp: reallocate_def monad_simps split: prod.splits sum.splits)

text \<open>A context of instance 0 with no options, for concrete runs.\<close>

definition plain_cx :: "borrow_scope option \<Rightarrow> 's cx" where
  "plain_cx sc = \<lparr>cx_encoding = Utf8, cx_memory = Some P32, cx_realloc = None, cx_inst = Some 0,
     cx_scope = sc, cx_checkpoint = ret (), cx_inserted = (\<lambda>_ _. ret ()),
     cx_removal_failed = (\<lambda>_ _. ret ()), cx_impl = (\<lambda>_. None), cx_little_endian = True, cx_byte_offset = 0,
     cx_liftErrorContext = (\<lambda>_. throw (PendingCapability [])),
     cx_liftStream = (\<lambda>_ _. throw (PendingCapability [])),
     cx_liftFuture = (\<lambda>_ _. throw (PendingCapability [])),
     cx_lowerErrorContext = (\<lambda>_. throw (PendingCapability [])),
     cx_lowerStream = (\<lambda>_ _. throw (PendingCapability [])),
     cx_lowerFuture = (\<lambda>_ _. throw (PendingCapability []))\<rparr>"

text \<open>An allocator that returns address 8 and records the request at the end of memory.\<close>

definition noting_realloc :: "nat \<Rightarrow> nat \<Rightarrow> nat \<Rightarrow> nat \<Rightarrow> (cst, nat) m" where
  "noting_realloc old oldLen align newLen =
     bnd (gets c_may_leave) (\<lambda>b.
     if b then throw (GenericError ''allocator re-entered'')
     else seqm (modify (\<lambda>s. s\<lparr>c_mem := c_mem s @ [of_nat newLen]\<rparr>)) (ret 8))"


lemma reallocate_may_leave_witness:
  "reallocate ((plain_cx None)\<lparr>cx_realloc := Some noting_realloc\<rparr>) 0 0 4 16 (init_state []) =
     (Inr 8, init_state [16])"
proof -
  let ?g = "\<lambda>p l a n. seqm (modify (\<lambda>s. s\<lparr>c_mem := c_mem s @ [of_nat n]\<rparr>)) (ret 8)"
  have "reallocate ((plain_cx None)\<lparr>cx_realloc := Some noting_realloc\<rparr>) 0 0 4 16 (init_state []) =
      reallocate ((plain_cx None)\<lparr>cx_realloc := Some ?g\<rparr>) 0 0 4 16 (init_state [])"
    by (rule reallocate_may_leave [where inst = 0, THEN conjunct1])
      (simp_all add: plain_cx_def noting_realloc_def monad_simps)
  also have "\<dots> = (Inr 8, init_state [16])"
    by (simp add: reallocate_def plain_cx_def monad_simps init_state_def)
  finally show ?thesis .
qed

end
