(* ===== verification/Cabi_Handles.thy ===== *)
theory Cabi_Handles
  imports Cabi_Memory
begin

text \<open>
  Resource handles (\<open>runtime/src/cabi/handles.ts\<close>) and the subtasks that hold lent
  handles (\<open>runtime/src/task/subtask.ts\<close>): lifting and lowering of own and borrow
  values, \<open>resource.new\<close>, \<open>resource.drop\<close>, \<open>resource.rep\<close>, and the resolution of a
  subtask. The resource table a handle belongs to is compared by object identity,
  \<open>rt_id\<close>. The guest destructor and the entry into its instance are parameters.
\<close>

section \<open>Table and heap\<close>

definition handles :: "(hentry table, 'a) m \<Rightarrow> ('x, 'a) cm" where
  "handles a = zoom c_handles (\<lambda>t s. s\<lparr>c_handles := t\<rparr>) a"

definition requireInst :: "'s cx \<Rightarrow> ('s, unit) m" where
  "requireInst cx = assertm (cx_inst cx \<noteq> None) ''context requires a component instance''"

definition new_handle :: "rhandle \<Rightarrow> ('x, nat) cm" where
  "new_handle h =
     bnd (gets (\<lambda>s. length (c_rhs s))) (\<lambda>k.
     seqm (modify (\<lambda>s. s\<lparr>c_rhs := c_rhs s @ [h]\<rparr>)) (ret k))"

definition rhandle_at :: "nat \<Rightarrow> ('x, rhandle) cm" where
  "rhandle_at k = gets (\<lambda>s. c_rhs s ! k)"

definition add_lends :: "nat \<Rightarrow> int \<Rightarrow> ('x, unit) cm" where
  "add_lends k d = modify (\<lambda>s. s\<lparr>c_rhs := (c_rhs s)[k := (c_rhs s ! k)\<lparr>rh_lends := rh_lends (c_rhs s ! k) + d\<rparr>]\<rparr>)"

text \<open>\<open>removeHandleWithUnwind\<close> (\<open>task/scheduler.ts\<close>): the entry leaves the table before it
  is validated, and a failure retires an async end through the registered hook.\<close>

definition removeHandleWithUnwind :: "'x cst_scheme cx \<Rightarrow> nat \<Rightarrow> (hentry \<Rightarrow> ('x, 'a) cm) \<Rightarrow> ('x, 'a) cm" where
  "removeHandleWithUnwind cx i use =
     bnd (handles (table_remove (int i))) (\<lambda>entry.
     on_error (use entry) (\<lambda>cause. cx_removal_failed cx entry cause))"

fun resource_of :: "hentry \<Rightarrow> nat option" where
  "resource_of (ResourceE k) = Some k"
| "resource_of _ = None"

definition as_resource :: "hentry \<Rightarrow> ('x, nat) cm" where
  "as_resource h =
     (case resource_of h of None \<Rightarrow> throw (Trap ''not a resource handle'') | Some k \<Rightarrow> ret k)"

section \<open>Subtasks\<close>

fun subtask_resolved :: "subtask_state \<Rightarrow> bool" where
  "subtask_resolved STARTING = False"
| "subtask_resolved STARTED = False"
| "subtask_resolved _ = True"

definition init_subtask :: subtask where
  "init_subtask = \<lparr>sb_state = STARTING, sb_lenders = Some [], sb_results = [], sb_cancel_requested = False, sb_wait = 0\<rparr>"

definition subtask_at :: "nat \<Rightarrow> ('x, subtask) cm" where
  "subtask_at j = gets (\<lambda>s. c_subtasks s ! j)"

definition update_subtask :: "nat \<Rightarrow> (subtask \<Rightarrow> subtask) \<Rightarrow> ('x, unit) cm" where
  "update_subtask j f = modify (\<lambda>s. s\<lparr>c_subtasks := (c_subtasks s)[j := f (c_subtasks s ! j)]\<rparr>)"

definition resolveDelivered :: "nat \<Rightarrow> ('x, bool) cm" where
  "resolveDelivered j =
     bnd (subtask_at j) (\<lambda>sb.
     seqm (assertm (sb_lenders sb \<noteq> None \<or> subtask_resolved (sb_state sb))
             ''lenders released on an unresolved subtask'')
     (ret (sb_lenders sb = None)))"

definition addLender :: "nat \<Rightarrow> nat \<Rightarrow> ('x, unit) cm" where
  "addLender j h =
     bnd (resolveDelivered j) (\<lambda>d.
     bnd (subtask_at j) (\<lambda>sb.
     seqm (assertm (\<not> d \<and> \<not> subtask_resolved (sb_state sb)) ''addLender on a resolved subtask'')
     (seqm (add_lends h 1)
     (update_subtask j (\<lambda>sb. sb\<lparr>sb_lenders := Some (the (sb_lenders sb) @ [h])\<rparr>)))))"

definition subtask_resolve :: "nat \<Rightarrow> subtask_state \<Rightarrow> cval list \<Rightarrow> ('x, unit) cm" where
  "subtask_resolve j st flatResults =
     seqm (assertm (st = RETURNED \<or> flatResults = []) ''non-RETURNED subtask resolution carries results'')
     (bnd (subtask_at j) (\<lambda>sb.
      seqm (assertm (\<not> subtask_resolved (sb_state sb)) ''resolve on an already-resolved subtask'')
      (update_subtask j (\<lambda>sb. sb\<lparr>sb_state := st, sb_results := flatResults\<rparr>))))"

definition deliverResolve :: "nat \<Rightarrow> ('x, unit) cm" where
  "deliverResolve j =
     bnd (resolveDelivered j) (\<lambda>d.
     bnd (subtask_at j) (\<lambda>sb.
     seqm (assertm (\<not> d \<and> subtask_resolved (sb_state sb))
             ''deliverResolve on an unresolved or already-delivered subtask'')
     (seqm (iterm (\<lambda>h. add_lends h (- 1)) (the (sb_lenders sb)))
     (update_subtask j (\<lambda>sb. sb\<lparr>sb_lenders := None\<rparr>)))))"

definition unwindLenders :: "nat \<Rightarrow> ('x, unit) cm" where
  "unwindLenders j =
     bnd (subtask_at j) (\<lambda>sb.
     seqm (if \<not> subtask_resolved (sb_state sb)
           then subtask_resolve j (if sb_state sb = STARTING then CANCELLED_BEFORE_STARTED
                                   else CANCELLED_BEFORE_RETURNED) []
           else ret ())
     (bnd (resolveDelivered j) (\<lambda>d. if \<not> d then deliverResolve j else ret ())))"

definition subtask_code :: "subtask_state \<Rightarrow> nat" where
  "subtask_code st = (case st of STARTING \<Rightarrow> 0 | STARTED \<Rightarrow> 1 | RETURNED \<Rightarrow> 2
     | CANCELLED_BEFORE_STARTED \<Rightarrow> 3 | CANCELLED_BEFORE_RETURNED \<Rightarrow> 4)"

text \<open>\<open>packSubtaskResult\<close>: an i32 with the state in the low four bits.\<close>

definition packSubtaskResult :: "nat \<Rightarrow> nat \<Rightarrow> (32 word) res" where
  "packSubtaskResult state subtaski =
     rbind (rassert (0 < subtaski \<and> subtaski \<le> 2 ^ 28 - 1) ''subtask index out of packing range'') (\<lambda>_.
     rbind (rassert (state < 2 ^ 4) ''subtask state out of packing range'') (\<lambda>_.
     Inr (of_nat state OR push_bit 4 (of_nat subtaski))))"

definition unpackSubtaskResult :: "32 word \<Rightarrow> nat \<times> nat" where
  "unpackSubtaskResult packed = (unat (packed AND 0xf), unat (drop_bit 4 packed))"

section \<open>Own and borrow values\<close>

definition liftOwn :: "'x cst_scheme cx \<Rightarrow> nat \<Rightarrow> rtable \<Rightarrow> ('x, int) cm" where
  "liftOwn cx i rt =
     seqm (requireInst cx)
     (removeHandleWithUnwind cx i (\<lambda>h.
      bnd (as_resource h) (\<lambda>k.
      bnd (rhandle_at k) (\<lambda>rh.
      seqm (trapIf (rt_id (rh_rt rh) \<noteq> rt_id rt) ''resource type mismatch'')
      (seqm (trapIf (rh_lends rh \<noteq> 0) ''handle still lent out'')
      (seqm (trapIf (\<not> rh_own rh) ''expected own handle'')
      (ret (rh_rep rh))))))))"

definition liftBorrow :: "'x cst_scheme cx \<Rightarrow> nat \<Rightarrow> rtable \<Rightarrow> ('x, int) cm" where
  "liftBorrow cx i rt =
     (case cx_scope cx of
        Some (SubtaskScope j) \<Rightarrow>
          seqm (requireInst cx)
          (bnd (handles (table_get (int i))) (\<lambda>h.
           bnd (as_resource h) (\<lambda>k.
           bnd (rhandle_at k) (\<lambda>rh.
           seqm (trapIf (rt_id (rh_rt rh) \<noteq> rt_id rt) ''resource type mismatch'')
           (seqm (addLender j k)
           (ret (rh_rep rh)))))))
      | _ \<Rightarrow> throw (AssertionError ''lifting a borrow requires a subtask borrow scope''))"

definition lowerOwn :: "'x cst_scheme cx \<Rightarrow> int \<Rightarrow> rtable \<Rightarrow> ('x, int) cm" where
  "lowerOwn cx rep rt =
     bnd (new_handle \<lparr>rh_rt = rt, rh_rep = rep, rh_own = True, rh_scope = None, rh_lends = 0\<rparr>) (\<lambda>k.
     seqm (requireInst cx)
     (bnd (handles (table_add (ResourceE k))) (\<lambda>i.
      seqm (cx_inserted cx i (ResourceE k))
      (seqm (cx_checkpoint cx)
      (ret (int i))))))"

definition lowerBorrow :: "'x cst_scheme cx \<Rightarrow> int \<Rightarrow> rtable \<Rightarrow> ('x, int) cm" where
  "lowerBorrow cx rep rt =
     (case cx_scope cx of
        Some (TaskScope j) \<Rightarrow>
          if cx_inst cx \<noteq> None \<and> cx_inst cx = cx_impl cx (rt_resource rt) then ret rep
          else
            bnd (new_handle \<lparr>rh_rt = rt, rh_rep = rep, rh_own = False, rh_scope = Some j, rh_lends = 0\<rparr>) (\<lambda>k.
            seqm (modify (\<lambda>s. s\<lparr>c_borrows := (c_borrows s)(j := c_borrows s j + 1)\<rparr>))
            (seqm (requireInst cx)
            (bnd (handles (table_add (ResourceE k))) (\<lambda>i.
             seqm (cx_checkpoint cx)
             (ret (int i))))))
      | _ \<Rightarrow> throw (AssertionError ''lowering a borrow requires a task borrow scope''))"

section \<open>Resource built-ins\<close>

definition canonResourceNew :: "rtable \<Rightarrow> int \<Rightarrow> ('x, nat) cm" where
  "canonResourceNew rt rep =
     bnd (gets c_may_leave) (\<lambda>mayLeave.
     seqm (trapIf (\<not> mayLeave) ''may_leave violation'')
     (bnd (new_handle \<lparr>rh_rt = rt, rh_rep = rep, rh_own = True, rh_scope = None, rh_lends = 0\<rparr>) (\<lambda>k.
      handles (table_add (ResourceE k)))))"

text \<open>
  \<open>callDtorGated\<close>: a resource without an implementing instance calls its destructor,
  which must not return a promise (\<open>d rep\<close> tells whether it did); otherwise the
  destructor is entered as a fresh synchronous task of the implementing instance.
\<close>

definition callDtorGated ::
    "nat option \<Rightarrow> (int \<Rightarrow> ('s, bool) m) option \<Rightarrow> (nat \<Rightarrow> nat option \<Rightarrow> int \<Rightarrow> ('s, unit) m) \<Rightarrow>
     int \<Rightarrow> nat option \<Rightarrow> ('s, unit) m" where
  "callDtorGated impl dtorFn createDtorEntry rep callerInst =
     (case impl of
        None \<Rightarrow> bnd (case dtorFn of None \<Rightarrow> ret False | Some d \<Rightarrow> d rep) (\<lambda>thenable.
          trapIf thenable ''resource destructor did not complete synchronously'')
      | Some inst \<Rightarrow> createDtorEntry inst callerInst rep)"

definition canonResourceDrop ::
    "'x cst_scheme cx \<Rightarrow> (rtable \<Rightarrow> int \<Rightarrow> ('x, unit) cm) \<Rightarrow> rtable \<Rightarrow> nat \<Rightarrow> ('x, unit) cm" where
  "canonResourceDrop cx callDtor rt i =
     bnd (gets c_may_leave) (\<lambda>mayLeave.
     seqm (trapIf (\<not> mayLeave) ''may_leave violation'')
     (removeHandleWithUnwind cx i (\<lambda>h.
      bnd (as_resource h) (\<lambda>k.
      bnd (rhandle_at k) (\<lambda>rh.
      seqm (trapIf (rt_id (rh_rt rh) \<noteq> rt_id rt) ''resource type mismatch'')
      (seqm (trapIf (rh_lends rh \<noteq> 0) ''handle still lent out'')
      (if rh_own rh then
         seqm (assertm (rh_scope rh = None) ''internal assertion failed'')
         (callDtor rt (rh_rep rh))
       else
         (case rh_scope rh of
            None \<Rightarrow> throw (AssertionError ''internal assertion failed'')
          | Some j \<Rightarrow> modify (\<lambda>s. s\<lparr>c_borrows := (c_borrows s)(j := c_borrows s j - 1)\<rparr>)))))))))"

definition canonResourceRep :: "rtable \<Rightarrow> nat \<Rightarrow> ('x, int) cm" where
  "canonResourceRep rt i =
     bnd (handles (table_get (int i))) (\<lambda>h.
     bnd (as_resource h) (\<lambda>k.
     bnd (rhandle_at k) (\<lambda>rh.
     seqm (trapIf (rt_id (rh_rt rh) \<noteq> rt_id rt) ''resource type mismatch'')
     (ret (rh_rep rh)))))"

section \<open>The lending invariant\<close>

definition lenders_of :: "subtask \<Rightarrow> nat list" where
  "lenders_of sb = (case sb_lenders sb of None \<Rightarrow> [] | Some l \<Rightarrow> l)"

definition lend_count :: "'x cst_scheme \<Rightarrow> nat \<Rightarrow> nat" where
  "lend_count s k = (\<Sum>sb\<leftarrow>c_subtasks s. count_list (lenders_of sb) k)"

text \<open>The table slots that hold a borrow handle of task \<open>j\<close>.\<close>

definition borrow_slots :: "'x cst_scheme \<Rightarrow> nat \<Rightarrow> nat set" where
  "borrow_slots s j = {i. \<exists>k. table_entries (c_handles s) i = Some (ResourceE k) \<and>
     rh_scope (c_rhs s ! k) = Some j}"

definition hinv :: "'x cst_scheme \<Rightarrow> bool" where
  "hinv s \<longleftrightarrow>
     table_inv (c_handles s) \<and>
     (\<forall>i k. table_entries (c_handles s) i = Some (ResourceE k) \<longrightarrow> k < length (c_rhs s)) \<and>
     (\<forall>sb\<in>set (c_subtasks s). \<forall>k\<in>set (lenders_of sb). k < length (c_rhs s)) \<and>
     (\<forall>k < length (c_rhs s). rh_lends (c_rhs s ! k) = int (lend_count s k)) \<and>
     (\<forall>h\<in>set (c_rhs s). rh_own h = (rh_scope h = None)) \<and>
     (\<forall>j. int (card (borrow_slots s j)) \<le> c_borrows s j)"

lemma hinvD:
  assumes "hinv s"
  shows "table_inv (c_handles s)"
    "table_entries (c_handles s) i = Some (ResourceE k) \<Longrightarrow> k < length (c_rhs s)"
    "sb \<in> set (c_subtasks s) \<Longrightarrow> k \<in> set (lenders_of sb) \<Longrightarrow> k < length (c_rhs s)"
    "k < length (c_rhs s) \<Longrightarrow> rh_lends (c_rhs s ! k) = int (lend_count s k)"
    "h \<in> set (c_rhs s) \<Longrightarrow> rh_own h = (rh_scope h = None)"
    "int (card (borrow_slots s j)) \<le> c_borrows s j"
  using assms by (auto simp: hinv_def)

lemma hinvI:
  assumes "table_inv (c_handles s)"
    "\<And>i k. table_entries (c_handles s) i = Some (ResourceE k) \<Longrightarrow> k < length (c_rhs s)"
    "\<And>sb k. sb \<in> set (c_subtasks s) \<Longrightarrow> k \<in> set (lenders_of sb) \<Longrightarrow> k < length (c_rhs s)"
    "\<And>k. k < length (c_rhs s) \<Longrightarrow> rh_lends (c_rhs s ! k) = int (lend_count s k)"
    "\<And>h. h \<in> set (c_rhs s) \<Longrightarrow> rh_own h = (rh_scope h = None)"
    "\<And>j. int (card (borrow_slots s j)) \<le> c_borrows s j"
  shows "hinv s"
  using assms by (auto simp: hinv_def)

lemma finite_borrow_slots [simp]: "finite (borrow_slots s j)"
proof (rule finite_subset)
  show "borrow_slots s j \<subseteq> {..< length (t_array (c_handles s))}"
    by (auto simp: borrow_slots_def table_entries_def split: if_splits)
qed simp

lemma handles_run: "handles a s = (fst (a (c_handles s)), s\<lparr>c_handles := snd (a (c_handles s))\<rparr>)"
  by (simp add: handles_def zoom_run)

lemma handles_get:
  assumes "table_inv (c_handles s)"
  shows "handles (table_get i) s = (fst (table_get i (c_handles s)), s)"
  using ht.lookup_same [OF assms, of i] by (simp add: handles_run)

lemma preserves_handles_get [preserving]: "preserves hinv (handles (table_get i))"
  unfolding preserves_def using handles_get hinvD(1) by (metis snd_conv)

lemma hinv_remove:
  assumes "hinv s" "table_inv t" "table_entries t = (table_entries (c_handles s))(i := None)"
  shows "hinv (s\<lparr>c_handles := t\<rparr>)"
proof (rule hinvI)
  let ?s = "s\<lparr>c_handles := t\<rparr>"
  fix j
  have "borrow_slots ?s j \<subseteq> borrow_slots s j"
    using assms(3) by (auto simp: borrow_slots_def split: if_splits)
  then have "card (borrow_slots ?s j) \<le> card (borrow_slots s j)" by (intro card_mono) simp_all
  with hinvD(6) [OF assms(1), of j] show "int (card (borrow_slots ?s j)) \<le> c_borrows ?s j" by simp
qed (use assms in \<open>auto simp: lend_count_def dest: hinvD split: if_splits\<close>)

lemma preserves_handles_remove [preserving]: "preserves hinv (handles (table_remove i))"
proof (rule preservesI)
  fix s :: "'x cst_scheme" and r t
  assume s: "hinv s" and run: "handles (table_remove i) s = (r, t)"
  obtain q u where a: "table_remove i (c_handles s) = (q, u)" by fastforce
  have t: "t = s\<lparr>c_handles := u\<rparr>" using run a by (simp add: handles_run)
  show "hinv t"
  proof (cases q)
    case (Inl x)
    then have "u = c_handles s" using ht.delete_err [OF hinvD(1) [OF s]] a by blast
    with t s show ?thesis by simp
  next
    case (Inr e)
    then show ?thesis unfolding t using ht.delete_ok [OF hinvD(1) [OF s]] a hinv_remove [OF s] by blast
  qed
qed

lemma lend_count_fresh:
  assumes "hinv s" shows "lend_count s (length (c_rhs s)) = 0"
proof -
  have "length (c_rhs s) \<notin> set (lenders_of sb)" if "sb \<in> set (c_subtasks s)" for sb
    using hinvD(3) [OF assms that] by blast
  then have "count_list (lenders_of sb) (length (c_rhs s)) = 0" if "sb \<in> set (c_subtasks s)" for sb
    using that by (simp add: count_list_0_iff)
  then show ?thesis by (simp add: lend_count_def)
qed

lemma borrow_slots_append:
  assumes "hinv s"
  shows "borrow_slots (s\<lparr>c_rhs := c_rhs s @ [h]\<rparr>) j = borrow_slots s j"
  using hinvD(2) [OF assms] by (fastforce simp: borrow_slots_def nth_append)

lemma hinv_append:
  assumes "hinv s" "rh_own h = (rh_scope h = None)" "rh_lends h = 0"
  shows "hinv (s\<lparr>c_rhs := c_rhs s @ [h]\<rparr>)"
proof (rule hinvI)
  fix k assume "k < length (c_rhs (s\<lparr>c_rhs := c_rhs s @ [h]\<rparr>))"
  then show "rh_lends (c_rhs (s\<lparr>c_rhs := c_rhs s @ [h]\<rparr>) ! k) = int (lend_count (s\<lparr>c_rhs := c_rhs s @ [h]\<rparr>) k)"
    using hinvD(4) [OF assms(1), of k] lend_count_fresh [OF assms(1)] assms(3)
    by (auto simp: nth_append lend_count_def less_Suc_eq)
qed (use assms borrow_slots_append [OF assms(1)] in \<open>auto dest: hinvD intro: less_SucI\<close>)

lemma hinv_insert:
  assumes "hinv s" "table_add e (c_handles s) = (Inr i, u)"
    "\<And>k. e = ResourceE k \<Longrightarrow> k < length (c_rhs s) \<and>
       (\<forall>j. rh_scope (c_rhs s ! k) = Some j \<longrightarrow> int (card (borrow_slots s j)) < c_borrows s j)"
  shows "hinv (s\<lparr>c_handles := u\<rparr>)"
proof (rule hinvI)
  let ?s = "s\<lparr>c_handles := u\<rparr>"
  note I = ht.insert_ok [OF hinvD(1) [OF assms(1)] assms(2)]
  show "table_inv (c_handles ?s)" using I by simp
  fix j
  show "int (card (borrow_slots ?s j)) \<le> c_borrows ?s j"
  proof (cases "\<exists>k. e = ResourceE k \<and> rh_scope (c_rhs s ! k) = Some j")
    case True
    have "borrow_slots ?s j \<subseteq> insert i (borrow_slots s j)"
      using I by (auto simp: borrow_slots_def split: if_splits)
    then have "card (borrow_slots ?s j) \<le> card (insert i (borrow_slots s j))" by (intro card_mono) simp_all
    also have "\<dots> \<le> Suc (card (borrow_slots s j))" by (simp add: card_insert_if)
    finally show ?thesis using True assms(3) by auto
  next
    case False
    then have "borrow_slots ?s j \<subseteq> borrow_slots s j"
      using I by (auto simp: borrow_slots_def split: if_splits)
    then have "card (borrow_slots ?s j) \<le> card (borrow_slots s j)" by (intro card_mono) simp_all
    with hinvD(6) [OF assms(1), of j] show ?thesis by simp
  qed
next
  fix i' k assume "table_entries (c_handles (s\<lparr>c_handles := u\<rparr>)) i' = Some (ResourceE k)"
  then show "k < length (c_rhs (s\<lparr>c_handles := u\<rparr>))"
    using ht.insert_ok [OF hinvD(1) [OF assms(1)] assms(2)] assms(3) hinvD(2) [OF assms(1)]
    by (auto split: if_splits)
qed (use assms(1) in \<open>auto simp: lend_count_def dest: hinvD\<close>)

text \<open>Lending and releasing.\<close>

lemma lend_count_update:
  assumes "j < length (c_subtasks s)"
  shows "lend_count (s\<lparr>c_rhs := rs, c_subtasks := (c_subtasks s)[j := sb]\<rparr>) k + count_list (lenders_of (c_subtasks s ! j)) k
    = lend_count s k + count_list (lenders_of sb) k"
proof -
  have "(\<Sum>sb\<leftarrow>xs[j := y]. f sb) + f (xs ! j) = (\<Sum>sb\<leftarrow>xs. f sb) + f y"
    if "j < length xs" for xs y and f :: "subtask \<Rightarrow> nat"
    using that by (induction xs arbitrary: j) (auto split: nat.split simp: nth_Cons list_update.simps)
  from this [OF assms, of "\<lambda>sb. count_list (lenders_of sb) k" sb] show ?thesis
    by (simp add: lend_count_def)
qed

lemma hinv_lend:
  assumes "hinv s" "j < length (c_subtasks s)" "length rs = length (c_rhs s)"
    "\<And>k. k < length rs \<Longrightarrow> rs ! k = (c_rhs s ! k)\<lparr>rh_lends := rh_lends (c_rhs s ! k)
        + int (count_list (lenders_of sb) k) - int (count_list (lenders_of (c_subtasks s ! j)) k)\<rparr>"
    "\<And>k. k \<in> set (lenders_of sb) \<Longrightarrow> k < length (c_rhs s)"
  shows "hinv (s\<lparr>c_rhs := rs, c_subtasks := (c_subtasks s)[j := sb]\<rparr>)"
proof (rule hinvI)
  let ?t = "s\<lparr>c_rhs := rs, c_subtasks := (c_subtasks s)[j := sb]\<rparr>"
  show "table_inv (c_handles ?t)" using hinvD(1) [OF assms(1)] by simp
  show "k < length (c_rhs ?t)" if "table_entries (c_handles ?t) i = Some (ResourceE k)" for i k
    using that hinvD(2) [OF assms(1)] assms(3) by simp
  show "k < length (c_rhs ?t)" if "sb' \<in> set (c_subtasks ?t)" "k \<in> set (lenders_of sb')" for sb' k
    using that hinvD(3) [OF assms(1)] assms(3,5) set_update_subset_insert [of "c_subtasks s" j sb] by auto
  show "rh_lends (c_rhs ?t ! k) = int (lend_count ?t k)" if "k < length (c_rhs ?t)" for k
  proof -
    have "rh_lends (c_rhs s ! k) = int (lend_count s k)" using that assms(3) hinvD(4) [OF assms(1)] by simp
    then show ?thesis
      using that assms(4) [of k] lend_count_update [OF assms(2), where rs = rs and sb = sb and k = k] by simp
  qed
  have sc: "rh_scope (rs ! k) = rh_scope (c_rhs s ! k)" "rh_own (rs ! k) = rh_own (c_rhs s ! k)"
    if "k < length rs" for k
    using assms(4) [OF that] by simp_all
  show "rh_own h = (rh_scope h = None)" if "h \<in> set (c_rhs ?t)" for h
  proof -
    from that obtain i where i: "i < length rs" "h = rs ! i" by (auto simp: in_set_conv_nth)
    then have "c_rhs s ! i \<in> set (c_rhs s)" using assms(3) by simp
    from hinvD(5) [OF assms(1) this] sc i show ?thesis by simp
  qed
  show "int (card (borrow_slots ?t j')) \<le> c_borrows ?t j'" for j'
  proof -
    have "borrow_slots ?t j' = borrow_slots s j'"
      using sc hinvD(2) [OF assms(1)] assms(3) by (fastforce simp: borrow_slots_def)
    then show ?thesis using hinvD(6) [OF assms(1), of j'] by simp
  qed
qed

lemma release_all:
  "\<forall>k\<in>set l. k < length (c_rhs s) \<Longrightarrow>
   \<exists>rs. iterm (\<lambda>h. add_lends h (- 1)) l s = (Inr (), s\<lparr>c_rhs := rs\<rparr>) \<and> length rs = length (c_rhs s) \<and>
     (\<forall>k < length rs. rs ! k = (c_rhs s ! k)\<lparr>rh_lends := rh_lends (c_rhs s ! k) - int (count_list l k)\<rparr>)"
proof (induction l arbitrary: s)
  case Nil
  have "iterm (\<lambda>h. add_lends h (- 1)) [] s = (Inr (), s\<lparr>c_rhs := c_rhs s\<rparr>)" by simp
  then show ?case by (intro exI [of _ "c_rhs s"]) simp
next
  case (Cons h l)
  let ?r = "(c_rhs s)[h := (c_rhs s ! h)\<lparr>rh_lends := rh_lends (c_rhs s ! h) - 1\<rparr>]"
  let ?s = "s\<lparr>c_rhs := ?r\<rparr>"
  have "\<forall>k\<in>set l. k < length (c_rhs ?s)" using Cons.prems by simp
  from Cons.IH [OF this] obtain rs where rs: "iterm (\<lambda>h. add_lends h (- 1)) l ?s = (Inr (), ?s\<lparr>c_rhs := rs\<rparr>)"
      "length rs = length (c_rhs ?s)"
      "\<forall>k < length rs. rs ! k = (c_rhs ?s ! k)\<lparr>rh_lends := rh_lends (c_rhs ?s ! k) - int (count_list l k)\<rparr>"
    by blast
  have "iterm (\<lambda>h. add_lends h (- 1)) (h # l) s = (Inr (), s\<lparr>c_rhs := rs\<rparr>)"
    using rs(1) by (simp add: add_lends_def monad_simps)
  moreover have "rs ! k = (c_rhs s ! k)\<lparr>rh_lends := rh_lends (c_rhs s ! k) - int (count_list (h # l) k)\<rparr>"
    if "k < length rs" for k
    using rs(2,3) that by (auto simp: nth_list_update)
  ultimately show ?case using rs(2) by (intro exI [of _ rs]) simp
qed

lemma resolveDelivered_run:
  "resolveDelivered j s =
   (if sb_lenders (c_subtasks s ! j) \<noteq> None \<or> subtask_resolved (sb_state (c_subtasks s ! j))
    then Inr (sb_lenders (c_subtasks s ! j) = None)
    else Inl (AssertionError ''lenders released on an unresolved subtask''), s)"
  by (simp add: resolveDelivered_def subtask_at_def monad_simps)

lemma addLender_run:
  "addLender j h s =
   (let sb = c_subtasks s ! j in
    if sb_lenders sb = None \<and> \<not> subtask_resolved (sb_state sb)
    then (Inl (AssertionError ''lenders released on an unresolved subtask''), s)
    else if sb_lenders sb = None \<or> subtask_resolved (sb_state sb)
    then (Inl (AssertionError ''addLender on a resolved subtask''), s)
    else (Inr (), s\<lparr>c_rhs := (c_rhs s)[h := (c_rhs s ! h)\<lparr>rh_lends := rh_lends (c_rhs s ! h) + 1\<rparr>],
            c_subtasks := (c_subtasks s)[j := sb\<lparr>sb_lenders := Some (the (sb_lenders sb) @ [h])\<rparr>]\<rparr>))"
  by (auto simp: addLender_def resolveDelivered_run subtask_at_def update_subtask_def add_lends_def
      monad_simps Let_def)

lemma hinv_addLender:
  assumes "hinv s" "j < length (c_subtasks s)" "h < length (c_rhs s)" "addLender j h s = (r, t)"
  shows "hinv t \<and> length (c_subtasks t) = length (c_subtasks s)"
proof (cases "sb_lenders (c_subtasks s ! j) = None \<or> subtask_resolved (sb_state (c_subtasks s ! j))")
  case True
  then have "t = s" using assms(4) by (auto simp: addLender_run Let_def split: if_splits)
  then show ?thesis using assms(1) by simp
next
  case False
  then obtain l where l: "sb_lenders (c_subtasks s ! j) = Some l" by auto
  have t: "t = s\<lparr>c_rhs := (c_rhs s)[h := (c_rhs s ! h)\<lparr>rh_lends := rh_lends (c_rhs s ! h) + 1\<rparr>],
      c_subtasks := (c_subtasks s)[j := (c_subtasks s ! j)\<lparr>sb_lenders := Some (l @ [h])\<rparr>]\<rparr>"
    using assms(4) False l by (auto simp: addLender_run Let_def)
  have "k < length (c_rhs s)" if "k \<in> set l" for k
    using hinvD(3) [OF assms(1), of "c_subtasks s ! j" k] assms(2) l that by (simp add: lenders_of_def)
  then have "hinv t" unfolding t
    using assms(1-3) l by (intro hinv_lend) (auto simp: lenders_of_def nth_list_update)
  then show ?thesis by (simp add: t)
qed

lemma subtask_update_state:
  assumes "hinv s" "lenders_of sb = lenders_of (c_subtasks s ! j)" "j < length (c_subtasks s)"
  shows "hinv (s\<lparr>c_subtasks := (c_subtasks s)[j := sb]\<rparr>)"
proof -
  have "hinv (s\<lparr>c_rhs := c_rhs s, c_subtasks := (c_subtasks s)[j := sb]\<rparr>)"
    using assms by (intro hinv_lend) (auto dest: hinvD(3) [OF assms(1) nth_mem])
  then show ?thesis by simp
qed

lemma hinv_deliverResolve:
  assumes "hinv s" "j < length (c_subtasks s)" "deliverResolve j s = (r, t)"
  shows "hinv t \<and> length (c_subtasks t) = length (c_subtasks s) \<and>
    (r = Inr () \<longrightarrow> sb_lenders (c_subtasks t ! j) = None \<and> c_handles t = c_handles s)"
proof (cases "sb_lenders (c_subtasks s ! j) \<noteq> None \<and> subtask_resolved (sb_state (c_subtasks s ! j))")
  case False
  then have "t = s \<and> r \<noteq> Inr ()"
    using assms(3) by (auto simp: deliverResolve_def resolveDelivered_run subtask_at_def monad_simps split: if_splits)
  then show ?thesis using assms(1) by simp
next
  case True
  then obtain l where l: "sb_lenders (c_subtasks s ! j) = Some l" by auto
  have "\<forall>k\<in>set l. k < length (c_rhs s)"
    using hinvD(3) [OF assms(1), of "c_subtasks s ! j"] assms(2) l by (simp add: lenders_of_def)
  from release_all [OF this] obtain rs where
      rs: "iterm (\<lambda>h. add_lends h (- 1)) l s = (Inr (), s\<lparr>c_rhs := rs\<rparr>)" "length rs = length (c_rhs s)"
      "\<forall>k < length rs. rs ! k = (c_rhs s ! k)\<lparr>rh_lends := rh_lends (c_rhs s ! k) - int (count_list l k)\<rparr>"
    by blast
  have t: "t = s\<lparr>c_rhs := rs, c_subtasks := (c_subtasks s)[j := (c_subtasks s ! j)\<lparr>sb_lenders := None\<rparr>]\<rparr>"
    using assms(3) True l rs(1)
    by (simp add: deliverResolve_def resolveDelivered_run subtask_at_def update_subtask_def monad_simps)
  have "hinv t" unfolding t
    using assms(1,2) l rs by (intro hinv_lend) (auto simp: lenders_of_def)
  then show ?thesis using assms(2) by (simp add: t)
qed

lemma hinv_subtask_resolve:
  assumes "hinv s" "j < length (c_subtasks s)" "subtask_resolve j st rs s = (r, t)"
  shows "hinv t \<and> length (c_subtasks t) = length (c_subtasks s)"
  using assms
  by (auto simp: subtask_resolve_def subtask_at_def update_subtask_def monad_simps lenders_of_def
      split: if_splits intro!: subtask_update_state)

section \<open>Every operation keeps the invariant\<close>

text \<open>A context whose hooks keep the invariant: the checkpoint, the custody record, the
  retirement hook.\<close>

definition cx_safe :: "'x cst_scheme cx \<Rightarrow> bool" where
  "cx_safe cx \<longleftrightarrow> preserves hinv (cx_checkpoint cx) \<and>
     (\<forall>i e. preserves hinv (cx_inserted cx i e)) \<and> (\<forall>e x. preserves hinv (cx_removal_failed cx e x))"

lemma cx_safeD [preserving]:
  assumes "cx_safe cx"
  shows "preserves hinv (cx_checkpoint cx)" "preserves hinv (cx_inserted cx i e)"
    "preserves hinv (cx_removal_failed cx e x)"
  using assms by (simp_all add: cx_safe_def)

lemma preserves_liftOwn: "cx_safe cx \<Longrightarrow> preserves hinv (liftOwn cx i rt)"
  unfolding liftOwn_def removeHandleWithUnwind_def requireInst_def as_resource_def rhandle_at_def
  by (intro preserving) (auto intro!: preserving split: option.split)

lemma new_handle_run: "new_handle h s = (Inr (length (c_rhs s)), s\<lparr>c_rhs := c_rhs s @ [h]\<rparr>)"
  by (simp add: new_handle_def monad_simps)

lemma hinv_handles_add:
  assumes "hinv s" "handles (table_add e) s = (r, t)"
    "\<And>k. e = ResourceE k \<Longrightarrow> k < length (c_rhs s) \<and>
       (\<forall>j. rh_scope (c_rhs s ! k) = Some j \<longrightarrow> int (card (borrow_slots s j)) < c_borrows s j)"
  shows "hinv t"
proof -
  obtain q u where a: "table_add e (c_handles s) = (q, u)" by fastforce
  have t: "t = s\<lparr>c_handles := u\<rparr>" using assms(2) a by (simp add: handles_run)
  show ?thesis
  proof (cases q)
    case (Inl x)
    then have "u = c_handles s" using ht.insert_full [OF hinvD(1) [OF assms(1)]] a by blast
    with t assms(1) show ?thesis by simp
  next
    case (Inr i)
    then show ?thesis unfolding t using hinv_insert [OF assms(1)] a assms(3) by blast
  qed
qed

definition own_handle :: "rtable \<Rightarrow> int \<Rightarrow> rhandle" where
  "own_handle rt rep = \<lparr>rh_rt = rt, rh_rep = rep, rh_own = True, rh_scope = None, rh_lends = 0\<rparr>"

lemma preserves_insert_own:
  "preserves hinv (bnd (new_handle (own_handle rt rep)) (\<lambda>k. handles (table_add (ResourceE k))))"
proof (rule preservesI)
  fix s :: "'a cst_scheme" and r t
  assume s: "hinv s" and run: "bnd (new_handle (own_handle rt rep)) (\<lambda>k. handles (table_add (ResourceE k))) s = (r, t)"
  let ?s = "s\<lparr>c_rhs := c_rhs s @ [own_handle rt rep]\<rparr>"
  have h: "hinv ?s" by (rule hinv_append [OF s]) (simp_all add: own_handle_def)
  have "handles (table_add (ResourceE (length (c_rhs s)))) ?s = (r, t)"
    using run by (simp add: bnd_run new_handle_run)
  from hinv_handles_add [OF h this] show "hinv t" by (simp add: own_handle_def)
qed

lemma lowerOwn_eq:
  "cx_inst cx \<noteq> None \<Longrightarrow> lowerOwn cx rep rt s =
   bnd (bnd (new_handle (own_handle rt rep)) (\<lambda>k. handles (table_add (ResourceE k))))
     (\<lambda>i. seqm (cx_inserted cx i (ResourceE (length (c_rhs s)))) (seqm (cx_checkpoint cx) (ret (int i)))) s"
  by (simp add: lowerOwn_def own_handle_def requireInst_def monad_simps new_handle_run split: prod.split sum.split)

lemma preserves_lowerOwn:
  assumes "cx_safe cx" shows "preserves hinv (lowerOwn cx rep rt)"
proof (rule preservesI)
  fix s r t assume s: "hinv s" and run: "lowerOwn cx rep rt s = (r, t)"
  show "hinv t"
  proof (cases "cx_inst cx = None")
    case True
    then have "t = s\<lparr>c_rhs := c_rhs s @ [own_handle rt rep]\<rparr>"
      using run by (simp add: lowerOwn_def requireInst_def monad_simps new_handle_run own_handle_def)
    then show ?thesis using hinv_append [OF s] by (simp add: own_handle_def)
  next
    case False
    have "preserves hinv (bnd (bnd (new_handle (own_handle rt rep)) (\<lambda>k. handles (table_add (ResourceE k))))
        (\<lambda>i. seqm (cx_inserted cx i (ResourceE (length (c_rhs s)))) (seqm (cx_checkpoint cx) (ret (int i)))))"
      by (intro preserves_bnd preserves_seqm preserves_insert_own cx_safeD assms preserves_basic)
    from preservesD [OF this s] run lowerOwn_eq [OF False] show ?thesis by metis
  qed
qed

lemma hinv_borrows:
  assumes "hinv s" "\<And>i. int (card (borrow_slots s i)) \<le> b i"
  shows "hinv (s\<lparr>c_borrows := b\<rparr>)"
proof -
  have "borrow_slots (s\<lparr>c_borrows := b\<rparr>) i = borrow_slots s i" for i by (simp add: borrow_slots_def)
  then show ?thesis using assms by (intro hinvI) (auto simp: lend_count_def dest: hinvD)
qed

definition borrow_handle :: "rtable \<Rightarrow> int \<Rightarrow> nat \<Rightarrow> rhandle" where
  "borrow_handle rt rep j = \<lparr>rh_rt = rt, rh_rep = rep, rh_own = False, rh_scope = Some j, rh_lends = 0\<rparr>"

lemma preserves_insert_borrow:
  "preserves hinv (bnd (new_handle (borrow_handle rt rep j)) (\<lambda>k.
       seqm (modify (\<lambda>s. s\<lparr>c_borrows := (c_borrows s)(j := c_borrows s j + 1)\<rparr>))
       (handles (table_add (ResourceE k)))))"
proof (rule preservesI)
  fix s :: "'a cst_scheme" and r t
  assume s0: "hinv s" and run: "bnd (new_handle (borrow_handle rt rep j)) (\<lambda>k.
       seqm (modify (\<lambda>s. s\<lparr>c_borrows := (c_borrows s)(j := c_borrows s j + 1)\<rparr>))
       (handles (table_add (ResourceE k)))) s = (r, t)"
  let ?s = "s\<lparr>c_rhs := c_rhs s @ [borrow_handle rt rep j]\<rparr>"
  let ?b = "(c_borrows ?s)(j := c_borrows ?s j + 1)"
  have s: "hinv ?s" by (rule hinv_append [OF s0]) (simp_all add: borrow_handle_def)
  have "int (card (borrow_slots ?s i)) \<le> ?b i" for i
    using hinvD(6) [OF s, of i] by (cases "i = j") auto
  from hinv_borrows [OF s this] have u: "hinv (?s\<lparr>c_borrows := ?b\<rparr>)" .
  have "borrow_slots (?s\<lparr>c_borrows := ?b\<rparr>) j = borrow_slots ?s j" by (simp add: borrow_slots_def)
  then have slack: "int (card (borrow_slots (?s\<lparr>c_borrows := ?b\<rparr>) j)) < c_borrows (?s\<lparr>c_borrows := ?b\<rparr>) j"
    using hinvD(6) [OF s, of j] by simp
  have "handles (table_add (ResourceE (length (c_rhs s)))) (?s\<lparr>c_borrows := ?b\<rparr>) = (r, t)"
    using run by (simp add: bnd_run seqm_run new_handle_run)
  from hinv_handles_add [OF u this] slack show "hinv t" by (simp add: borrow_handle_def)
qed

lemma preserves_lowerBorrow:
  assumes "cx_safe cx" shows "preserves hinv (lowerBorrow cx rep rt)"
proof (cases "cx_scope cx")
  case None
  then show ?thesis by (simp add: lowerBorrow_def)
next
  case (Some sc)
  show ?thesis
  proof (cases sc)
    case (SubtaskScope j)
    then show ?thesis using Some by (simp add: lowerBorrow_def)
  next
    case (TaskScope j)
    show ?thesis
    proof (cases "cx_inst cx = None")
      case True
      have "hinv (s\<lparr>c_rhs := c_rhs s @ [borrow_handle rt rep j], c_borrows := (c_borrows s)(j := c_borrows s j + 1)\<rparr>)"
        if "hinv s" for s :: "'a cst_scheme"
      proof -
        let ?s = "s\<lparr>c_rhs := c_rhs s @ [borrow_handle rt rep j]\<rparr>"
        have s: "hinv ?s" by (rule hinv_append [OF that]) (simp_all add: borrow_handle_def)
        have "int (card (borrow_slots ?s i)) \<le> ((c_borrows s)(j := c_borrows s j + 1)) i" for i
          using hinvD(6) [OF s, of i] by (cases "i = j") auto
        from hinv_borrows [OF s this] show ?thesis by (simp add: fun_upd_def)
      qed
      then show ?thesis using True Some TaskScope
        by (simp add: preserves_def lowerBorrow_def requireInst_def monad_simps new_handle_run borrow_handle_def)
    next
      case False
      have "preserves hinv (bnd (bnd (new_handle (borrow_handle rt rep j)) (\<lambda>k.
            seqm (modify (\<lambda>s. s\<lparr>c_borrows := (c_borrows s)(j := c_borrows s j + 1)\<rparr>))
            (handles (table_add (ResourceE k))))) (\<lambda>i. seqm (cx_checkpoint cx) (ret (int i))))"
        by (intro preserves_bnd preserves_seqm preserves_insert_borrow cx_safeD assms preserves_basic)
      moreover have "lowerBorrow cx rep rt s = (if cx_inst cx = cx_impl cx (rt_resource rt) then ret rep
          else bnd (bnd (new_handle (borrow_handle rt rep j)) (\<lambda>k.
            seqm (modify (\<lambda>s. s\<lparr>c_borrows := (c_borrows s)(j := c_borrows s j + 1)\<rparr>))
            (handles (table_add (ResourceE k))))) (\<lambda>i. seqm (cx_checkpoint cx) (ret (int i)))) s" for s
        using Some TaskScope False
        by (auto simp: lowerBorrow_def borrow_handle_def requireInst_def monad_simps new_handle_run
            split: prod.split sum.split)
      ultimately show ?thesis by (simp add: preserves_def)
    qed
  qed
qed

lemma preserves_canonResourceNew: "preserves hinv (canonResourceNew rt rep)"
  unfolding canonResourceNew_def own_handle_def [symmetric]
  by (intro preserves_bnd preserves_seqm preserves_basic preserves_insert_own)

lemma hinv_liftBorrow:
  assumes "hinv s" "\<And>j. cx_scope cx = Some (SubtaskScope j) \<Longrightarrow> j < length (c_subtasks s)"
  shows "hinv (snd (liftBorrow cx i rt s))"
proof (cases "\<exists>j. cx_scope cx = Some (SubtaskScope j)")
  case False
  then show ?thesis using assms(1)
    by (auto simp: liftBorrow_def split: option.split borrow_scope.split)
next
  case True
  then obtain j where j: "cx_scope cx = Some (SubtaskScope j)" "j < length (c_subtasks s)" using assms(2) by blast
  have add: "hinv (snd (addLender j k s))" if "k < length (c_rhs s)" for k
    using hinv_addLender [OF assms(1) j(2) that] by (metis prod.collapse)
  show ?thesis
  proof (cases "table_get (int i) (c_handles s)")
    case (Pair q u)
    have run: "handles (table_get (int i)) s = (q, s)" using handles_get [OF hinvD(1) [OF assms(1)]] Pair by simp
    show ?thesis
    proof (cases "\<exists>k. q = Inr (ResourceE k)")
      case True
      then obtain k where k: "q = Inr (ResourceE k)" by blast
      with ht.lookup_ok [OF hinvD(1) [OF assms(1)]] Pair hinvD(2) [OF assms(1)] have "k < length (c_rhs s)" by blast
      from add [OF this] k run show ?thesis using j(1) assms(1)
        by (auto simp: liftBorrow_def requireInst_def monad_simps as_resource_def rhandle_at_def
            split: prod.split sum.split)
    next
      case False
      have "snd (liftBorrow cx i rt s) = s"
      proof (cases q)
        case (Inl x)
        then show ?thesis using run j(1) by (simp add: liftBorrow_def requireInst_def monad_simps)
      next
        case (Inr e)
        then have "resource_of e = None" using False by (cases e) auto
        then show ?thesis using run j(1) Inr by (simp add: liftBorrow_def requireInst_def monad_simps as_resource_def)
      qed
      with assms(1) show ?thesis by simp
    qed
  qed
qed

text \<open>Dropping a borrow handle takes one slot out of the task's borrow slots, and one off its count.\<close>

lemma hinv_drop_borrow:
  assumes "hinv s" "table_entries (c_handles s) i = Some (ResourceE k)" "rh_scope (c_rhs s ! k) = Some j"
    "table_inv u" "table_entries u = (table_entries (c_handles s))(i := None)"
  shows "hinv (s\<lparr>c_handles := u, c_borrows := (c_borrows s)(j := c_borrows s j - 1)\<rparr>)"
proof -
  let ?s = "s\<lparr>c_handles := u\<rparr>"
  have s: "hinv ?s" by (rule hinv_remove [OF assms(1,4,5)])
  have "borrow_slots ?s j = borrow_slots s j - {i}"
    using assms(5) by (auto simp: borrow_slots_def split: if_splits)
  moreover have "i \<in> borrow_slots s j" using assms(2,3) by (auto simp: borrow_slots_def)
  ultimately have "card (borrow_slots s j) = Suc (card (borrow_slots ?s j))"
    by (metis card_Suc_Diff1 finite_borrow_slots)
  then have "int (card (borrow_slots ?s i')) \<le> ((c_borrows s)(j := c_borrows s j - 1)) i'" for i'
    using hinvD(6) [OF s, of i'] hinvD(6) [OF assms(1), of j] by (cases "i' = j") auto
  from hinv_borrows [OF s this] show ?thesis by (simp add: fun_upd_def)
qed

lemma on_error_preserved:
  assumes "P (snd (a s))" "\<And>e. preserves P (h e)"
  shows "P (snd (on_error a h s))"
proof (cases "a s")
  case (Pair q u)
  then show ?thesis using assms by (cases q) (auto simp: on_error_def preserves_def)
qed

lemma hinv_canonResourceDrop:
  assumes "hinv s" "cx_safe cx" "\<And>rep. preserves hinv (callDtor rt rep)"
  shows "hinv (snd (canonResourceDrop cx callDtor rt i s))"
proof (cases "c_may_leave s \<and> (\<exists>e. fst (table_remove (int i) (c_handles s)) = Inr e)")
  case False
  have "preserves hinv (handles (table_remove (int i)) :: ('a, hentry) cm)" by (rule preserves_handles_remove)
  with False assms(1) show ?thesis
    by (auto simp: canonResourceDrop_def removeHandleWithUnwind_def monad_simps preserves_def
        split: prod.split sum.split) (metis fst_conv handles_run snd_conv)+
next
  case True
  then obtain e u where r: "table_remove (int i) (c_handles s) = (Inr e, u)" by (metis prod.collapse)
  note D = ht.delete_ok [OF hinvD(1) [OF assms(1)] r]
  let ?s = "s\<lparr>c_handles := u\<rparr>"
  have s: "hinv ?s" using D hinv_remove [OF assms(1)] by blast
  have run: "canonResourceDrop cx callDtor rt i s = on_error (bnd (as_resource e) (\<lambda>k.
      bnd (rhandle_at k) (\<lambda>rh.
      seqm (trapIf (rt_id (rh_rt rh) \<noteq> rt_id rt) ''resource type mismatch'')
      (seqm (trapIf (rh_lends rh \<noteq> 0) ''handle still lent out'')
      (if rh_own rh then
         seqm (assertm (rh_scope rh = None) ''internal assertion failed'')
         (callDtor rt (rh_rep rh))
       else
         (case rh_scope rh of
            None \<Rightarrow> throw (AssertionError ''internal assertion failed'')
          | Some j \<Rightarrow> modify (\<lambda>s. s\<lparr>c_borrows := (c_borrows s)(j := c_borrows s j - 1)\<rparr>)))))))
      (\<lambda>cause. cx_removal_failed cx e cause) ?s"
    using True r by (simp add: canonResourceDrop_def removeHandleWithUnwind_def monad_simps handles_run)
  show ?thesis unfolding run
  proof (rule on_error_preserved [OF _ cx_safeD(3) [OF assms(2)]])
    show "hinv (snd (bnd (as_resource e) (\<lambda>k. bnd (rhandle_at k) (\<lambda>rh.
      seqm (trapIf (rt_id (rh_rt rh) \<noteq> rt_id rt) ''resource type mismatch'')
      (seqm (trapIf (rh_lends rh \<noteq> 0) ''handle still lent out'')
      (if rh_own rh then
         seqm (assertm (rh_scope rh = None) ''internal assertion failed'')
         (callDtor rt (rh_rep rh))
       else
         (case rh_scope rh of
            None \<Rightarrow> throw (AssertionError ''internal assertion failed'')
          | Some j \<Rightarrow> modify (\<lambda>s. s\<lparr>c_borrows := (c_borrows s)(j := c_borrows s j - 1)\<rparr>)))))) ?s))"
    proof (cases "resource_of e")
      case None
      then show ?thesis using s by (simp add: as_resource_def)
    next
      case (Some k)
      then have e: "e = ResourceE k" by (cases e) auto
      have "hinv (s\<lparr>c_handles := u, c_borrows := (c_borrows s)(j := c_borrows s j - 1)\<rparr>)"
        if "rh_scope (c_rhs s ! k) = Some j" for j
        using hinv_drop_borrow [OF assms(1) _ that] D e by blast
      then show ?thesis using s assms(3) Some
        by (auto simp: as_resource_def rhandle_at_def monad_simps preserves_def split: option.split)
    qed
  qed
qed

lemma preserves_liftBorrow_snd: "hinv s \<Longrightarrow>
  (\<And>j. cx_scope cx = Some (SubtaskScope j) \<Longrightarrow> j < length (c_subtasks s)) \<Longrightarrow> hinv (snd (liftBorrow cx i rt s))"
  by (rule hinv_liftBorrow)

lemma hinv_unwindLenders:
  fixes s :: "'x cst_scheme"
  assumes "hinv s" "j < length (c_subtasks s)"
  shows "hinv (snd (unwindLenders j s))"
proof -
  define a :: "('x, unit) cm" where "a = (if \<not> subtask_resolved (sb_state (c_subtasks s ! j))
           then subtask_resolve j (if sb_state (c_subtasks s ! j) = STARTING then CANCELLED_BEFORE_STARTED
                                   else CANCELLED_BEFORE_RETURNED) [] else ret ())"
  obtain q u where a: "a s = (q, u)" by fastforce
  have u: "hinv u \<and> j < length (c_subtasks u)"
    using a assms hinv_subtask_resolve [OF assms] by (auto simp: a_def split: if_splits)
  have d: "hinv (snd (deliverResolve j u))"
    using hinv_deliverResolve [of u j] u by (metis prod.collapse)
  have "unwindLenders j s = seqm a (bnd (resolveDelivered j) (\<lambda>d. if \<not> d then deliverResolve j else ret ())) s"
    by (simp add: unwindLenders_def subtask_at_def a_def monad_simps)
  then show ?thesis using a u d
    by (auto simp: seqm_run bnd_run resolveDelivered_run split: sum.split)
qed

section \<open>Properties\<close>

text \<open>C19. Whatever sequence of outcomes, traps included, the operations on resource handles keep
  the lending invariant: every handle's \<open>numLends\<close> is the number of times live subtasks hold
  it as a lender, and no task's \<open>numBorrows\<close> is below the number of its borrow handles
  that are in the table.\<close>

theorem resource_operations_keep_lending:
  assumes "hinv s" "cx_safe cx" "\<And>rep. preserves hinv (callDtor rt rep)" "j < length (c_subtasks s)"
    "cx_scope cx = Some (SubtaskScope j)"
  shows "hinv (snd (liftOwn cx i rt s)) \<and> hinv (snd (liftBorrow cx i rt s)) \<and>
    hinv (snd (lowerOwn cx rep rt s)) \<and> hinv (snd (lowerBorrow (cx\<lparr>cx_scope := Some (TaskScope k)\<rparr>) rep rt s)) \<and>
    hinv (snd (canonResourceNew rt rep s)) \<and> hinv (snd (canonResourceDrop cx callDtor rt i s)) \<and>
    hinv (snd (subtask_resolve j st vs s)) \<and> hinv (snd (deliverResolve j s)) \<and> hinv (snd (unwindLenders j s))"
proof -
  have "cx_safe (cx\<lparr>cx_scope := Some (TaskScope k)\<rparr>)" using assms(2) by (simp add: cx_safe_def)
  from preserves_lowerBorrow [OF this] have "hinv (snd (lowerBorrow (cx\<lparr>cx_scope := Some (TaskScope k)\<rparr>) rep rt s))"
    using assms(1) by (simp add: preserves_def)
  moreover have "hinv (snd (liftBorrow cx i rt s))"
    by (rule hinv_liftBorrow [OF assms(1)]) (use assms(4,5) in simp)
  moreover have "hinv (snd (deliverResolve j s))" "hinv (snd (subtask_resolve j st vs s))"
    using hinv_deliverResolve [OF assms(1,4)] hinv_subtask_resolve [OF assms(1,4)] by (metis prod.collapse)+
  moreover have "hinv (snd (canonResourceDrop cx callDtor rt i s))"
    by (rule hinv_canonResourceDrop) (rule assms)+
  moreover have "hinv (snd (canonResourceNew rt rep s))"
    using preserves_canonResourceNew assms(1) unfolding preserves_def by blast
  ultimately show ?thesis
    using preserves_liftOwn [OF assms(2), of i rt] preserves_lowerOwn [OF assms(2), of rep rt]
      hinv_unwindLenders [OF assms(1,4)] assms(1)
    by (simp add: preserves_def)
qed

text \<open>C21. A handle that some live subtask holds as a lender cannot leave the instance: lifting it
  as an own value and dropping it both trap.\<close>

theorem lent_handle_cannot_leave:
  assumes "hinv s" "table_entries (c_handles s) i = Some (ResourceE k)"
    "sb \<in> set (c_subtasks s)" "k \<in> set (lenders_of sb)" "cx_inst cx = Some inst"
  shows "\<exists>m. fst (liftOwn cx i rt s) = Inl (Trap m) \<and>
    fst (canonResourceDrop cx callDtor rt i s) \<in> {Inl (Trap m), Inl (Trap ''may_leave violation'')}"
proof -
  have "0 < lend_count s k"
  proof -
    have "count_list (lenders_of sb) k \<le> lend_count s k"
      unfolding lend_count_def using assms(3) member_le_sum_list [of "count_list (lenders_of sb) k"] by simp
    moreover have "0 < count_list (lenders_of sb) k" using assms(4) by (metis count_list_0_iff gr0I)
    ultimately show ?thesis by simp
  qed
  moreover have "k < length (c_rhs s)" using hinvD(2) [OF assms(1,2)] .
  ultimately have lends: "rh_lends (c_rhs s ! k) \<noteq> 0" using hinvD(4) [OF assms(1)] by simp
  obtain u where u: "table_remove (int i) (c_handles s) = (Inr (ResourceE k), u)"
    using ht.delete_hit [OF hinvD(1) [OF assms(1)] assms(2)] by blast
  define m where "m = (if rt_id (rh_rt (c_rhs s ! k)) \<noteq> rt_id rt then ''resource type mismatch''
      else ''handle still lent out'')"
  have "fst (liftOwn cx i rt s) = Inl (Trap m)"
    using u lends assms(5)
    by (simp add: m_def liftOwn_def requireInst_def removeHandleWithUnwind_def handles_run monad_simps
        as_resource_def rhandle_at_def on_error_def split: prod.split)
  moreover have "fst (canonResourceDrop cx callDtor rt i s) = Inl (Trap m) \<or>
      fst (canonResourceDrop cx callDtor rt i s) = Inl (Trap ''may_leave violation'')"
    using u lends
    by (simp add: m_def canonResourceDrop_def removeHandleWithUnwind_def handles_run monad_simps
        as_resource_def rhandle_at_def on_error_def split: prod.split)
  ultimately show ?thesis by blast
qed

text \<open>Once every subtask has had its resolution delivered, no handle is lent; once a task's
  \<open>numBorrows\<close> is zero, no borrow handle of that task is left in the table.\<close>

theorem released_handles:
  assumes "hinv s" "list_all (\<lambda>sb. sb_lenders sb = None) (c_subtasks s)" "c_borrows s j = 0"
  shows "list_all (\<lambda>h. rh_lends h = 0) (c_rhs s) \<and> borrow_slots s j = {}"
proof (intro conjI)
  have "rh_lends h = 0" if "h \<in> set (c_rhs s)" for h
  proof -
    obtain k where k: "k < length (c_rhs s)" "h = c_rhs s ! k" using \<open>h \<in> _\<close> by (auto simp: in_set_conv_nth)
    have "lend_count s k = 0"
      using assms(2) by (auto simp: lend_count_def lenders_of_def list_all_iff)
    then show ?thesis using hinvD(4) [OF assms(1) k(1)] k(2) by simp
  qed
  then show "list_all (\<lambda>h. rh_lends h = 0) (c_rhs s)" by (simp add: list_all_iff)
  show "borrow_slots s j = {}" using hinvD(6) [OF assms(1), of j] assms(3) by simp
qed

text \<open>Own values survive a lower and a lift: lifting the index that lowering returned gives
  back the representation, and the table has the entries it had before.\<close>

theorem lowerOwn_liftOwn:
  assumes "hinv s" "cx_inst cx = Some inst" "cx_checkpoint cx = ret ()" "cx_inserted cx = (\<lambda>i e. ret ())"
    "lowerOwn cx rep rt s = (Inr i, t)"
  shows "\<exists>u. liftOwn cx (nat i) rt t = (Inr rep, u) \<and> 0 < i \<and>
    table_entries (c_handles u) = table_entries (c_handles s)"
proof -
  let ?k = "length (c_rhs s)"
  have eq: "lowerOwn cx rep rt s = bnd (bnd (new_handle (own_handle rt rep)) (\<lambda>k. handles (table_add (ResourceE k))))
     (\<lambda>i. seqm (ret ()) (seqm (ret ()) (ret (int i)))) s"
    using lowerOwn_eq [of cx rep rt s] assms(2-4) by simp
  obtain r v where a: "table_add (ResourceE ?k) (c_handles s) = (r, v)" by fastforce
  from assms(5) eq a obtain n where n: "r = Inr n" "i = int n"
      "t = s\<lparr>c_rhs := c_rhs s @ [own_handle rt rep], c_handles := v\<rparr>"
    by (cases r) (auto simp: bnd_run new_handle_run handles_run seqm_run)
  note I = ht.insert_ok [OF hinvD(1) [OF assms(1)] a [unfolded n(1)]]
  obtain w where w: "table_remove (int n) v = (Inr (ResourceE ?k), w)"
      "table_entries w = (table_entries v)(n := None)"
    using ht.delete_hit [of v n "ResourceE ?k"] I by fastforce
  then have "table_entries w = table_entries (c_handles s)" using I by auto
  moreover have "liftOwn cx (nat i) rt t = (Inr rep, t\<lparr>c_handles := w\<rparr>)"
    using w n assms(2)
    by (simp add: liftOwn_def requireInst_def removeHandleWithUnwind_def handles_run monad_simps
        as_resource_def rhandle_at_def on_error_def own_handle_def)
  ultimately show ?thesis using I n by simp
qed

text \<open>A packed subtask result carries both the state and the handle index: unpacking returns
  them for every state code and every index a table can hand out.\<close>

theorem packSubtaskResult_roundtrip:
  assumes "packSubtaskResult (subtask_code st) i = Inr w"
  shows "unpackSubtaskResult w = (subtask_code st, i) \<and> 0 < i \<and> i < 2 ^ 28"
proof -
  let ?n = "subtask_code st"
  have i: "0 < i" "i < 2 ^ 28" "?n < 2 ^ 4" and w: "w = of_nat ?n OR push_bit 4 (of_nat i)"
    using assms by (auto simp: packSubtaskResult_def)
  have u: "unat w = ?n OR push_bit 4 i"
  proof -
    have "i * 16 < 2 ^ 32" using i(2) by simp
    then have "unat (of_nat (i * 16) :: 32 word) = i * 16"
      by (simp only: unsigned_of_nat) (simp add: take_bit_nat_eq_self)
    then have "unat (push_bit 4 (of_nat i :: 32 word)) = push_bit 4 i"
      by (simp add: push_bit_eq_mult)
    moreover have "unat (of_nat ?n :: 32 word) = ?n"
      using i(3) by (simp add: unsigned_of_nat take_bit_nat_eq_self)
    ultimately show ?thesis by (simp add: w unsigned_or_eq)
  qed
  have z: "take_bit 4 (push_bit 4 i) = 0" by (simp add: push_bit_eq_mult take_bit_eq_mod)
  have lo: "take_bit 4 (?n OR push_bit 4 i) = ?n"
    using i(3) z by (simp add: take_bit_nat_eq_self)
  have hi: "drop_bit 4 (?n OR push_bit 4 i) = i"
    using i(3) by (simp add: drop_bit_push_bit) (simp add: drop_bit_eq_div)
  have "unat (w AND 0xF) = take_bit 4 (unat w)"
    by (simp add: unsigned_and_eq take_bit_eq_mask mask_eq_exp_minus_1)
  moreover have "unat (drop_bit 4 w) = drop_bit 4 (unat w)"
    by (simp add: drop_bit_eq_div unat_div unsigned_drop_bit_eq take_bit_nat_eq_self)
  ultimately show ?thesis using lo hi u i by (simp only: unpackSubtaskResult_def)
qed

section \<open>Witnesses\<close>

text \<open>A context without hooks, and an instance that holds one own handle, lent to subtask 0.\<close>

definition lent_state :: cst where
  "lent_state = (init_state [])\<lparr>
     c_handles := \<lparr>t_array = [None, Some (ResourceE 0)], t_free = [], t_tenure = [0, 1]\<rparr>,
     c_rhs := [\<lparr>rh_rt = RTable 0 0, rh_rep = 7, rh_own = True, rh_scope = None, rh_lends = 1\<rparr>],
     c_subtasks := [\<lparr>sb_state = STARTED, sb_lenders = Some [0], sb_results = [], sb_cancel_requested = False, sb_wait = 0\<rparr>]\<rparr>"

lemma lent_state_entries: "table_entries (c_handles lent_state) i = (if i = 1 then Some (ResourceE 0) else None)"
  by (auto simp: lent_state_def table_entries_def nth_Cons' less_Suc_eq)

lemma hinv_lent_state: "hinv lent_state"
proof (rule hinvI)
  show "table_inv (c_handles lent_state)"
    by (rule table_invI) (auto simp: lent_state_def MAX_LENGTH_def nth_Cons' less_Suc_eq)
  have "borrow_slots lent_state j = {}" for j
    by (auto simp: borrow_slots_def lent_state_entries) (auto simp: lent_state_def split: if_splits)
  then show "int (card (borrow_slots lent_state j)) \<le> c_borrows lent_state j" for j
    by (simp add: lent_state_def init_state_def)
  show "k < length (c_rhs lent_state)" if "table_entries (c_handles lent_state) i = Some (ResourceE k)" for i k
    using that unfolding lent_state_entries by (simp add: lent_state_def split: if_splits)
qed (auto simp: lend_count_def lent_state_def lenders_of_def)

lemma hinv_init_state: "hinv (init_state bs)"
proof (rule hinvI)
  have e: "table_entries (c_handles (init_state bs)) = Map.empty"
    using ht.empty(2) by (simp add: init_state_def)
  show "table_inv (c_handles (init_state bs))" by (simp add: init_state_def ht.empty)
  show "k < length (c_rhs (init_state bs))" if "table_entries (c_handles (init_state bs)) i = Some (ResourceE k)" for i k
    using that e by simp
  have "borrow_slots (init_state bs) j = {}" for j by (simp add: borrow_slots_def e)
  then show "int (card (borrow_slots (init_state bs) j)) \<le> c_borrows (init_state bs) j" for j
    by (simp add: init_state_def)
qed (auto simp: init_state_def)

lemma cx_safe_plain: "cx_safe (plain_cx sc)"
  by (simp add: cx_safe_def plain_cx_def)

lemma resource_operations_keep_lending_witness:
  "hinv (snd (liftOwn (plain_cx (Some (SubtaskScope 0))) 1 (RTable 0 0) lent_state)) \<and>
   hinv (snd (unwindLenders 0 lent_state))"
  using resource_operations_keep_lending [where s = lent_state and cx = "plain_cx (Some (SubtaskScope 0))"
      and callDtor = "\<lambda>_ _. ret ()" and j = 0 and rt = "RTable 0 0" and i = 1, OF hinv_lent_state cx_safe_plain]
  by (simp add: plain_cx_def lent_state_def)

lemma lent_handle_cannot_leave_witness:
  "\<exists>m. fst (liftOwn (plain_cx None) 1 (RTable 0 0) lent_state) = Inl (Trap m) \<and>
    fst (canonResourceDrop (plain_cx None) (\<lambda>_ _. ret ()) (RTable 0 0) 1 lent_state)
      \<in> {Inl (Trap m), Inl (Trap ''may_leave violation'')}"
  by (rule lent_handle_cannot_leave [where k = 0 and inst = 0, OF hinv_lent_state, where sb = "c_subtasks lent_state ! 0"])
    (simp_all only: lent_state_entries, simp_all add: lent_state_def lenders_of_def plain_cx_def)

definition delivered_state :: cst where
  "delivered_state = snd (seqm (modify (\<lambda>s. s\<lparr>c_subtasks := [(c_subtasks s ! 0)\<lparr>sb_state := RETURNED\<rparr>]\<rparr>))
     (deliverResolve 0) lent_state)"

lemma delivered_state: "delivered_state = lent_state\<lparr>
    c_rhs := [\<lparr>rh_rt = RTable 0 0, rh_rep = 7, rh_own = True, rh_scope = None, rh_lends = 0\<rparr>],
    c_subtasks := [\<lparr>sb_state = RETURNED, sb_lenders = None, sb_results = [], sb_cancel_requested = False, sb_wait = 0\<rparr>]\<rparr>"
  by (simp add: delivered_state_def deliverResolve_def lent_state_def monad_simps resolveDelivered_def
      subtask_at_def update_subtask_def add_lends_def init_state_def)

lemma released_handles_witness:
  "list_all (\<lambda>h. rh_lends h = 0) (c_rhs delivered_state) \<and> borrow_slots delivered_state 3 = {}"
proof (rule released_handles)
  have h: "c_handles delivered_state = c_handles lent_state" by (simp add: delivered_state)
  have "borrow_slots delivered_state j = {}" for j
    by (auto simp: borrow_slots_def h lent_state_entries) (auto simp: delivered_state split: if_splits)
  moreover have "table_inv (c_handles delivered_state)" unfolding h using hinv_lent_state by (rule hinvD)
  ultimately show "hinv delivered_state"
    by (intro hinvI)
      (auto simp: h lent_state_entries, auto simp: delivered_state lent_state_def init_state_def lend_count_def
        lenders_of_def split: if_splits)
qed (simp_all add: delivered_state lent_state_def init_state_def)

lemma lowerOwn_liftOwn_witness:
  "\<exists>t u. lowerOwn (plain_cx None) 9 (RTable 1 1) (init_state []) = (Inr 1, t) \<and>
     liftOwn (plain_cx None) 1 (RTable 1 1) t = (Inr 9, u) \<and>
     table_entries (c_handles u) = table_entries (c_handles (init_state []))"
proof -
  obtain t where t: "lowerOwn (plain_cx None) 9 (RTable 1 1) (init_state []) = (Inr 1, t)"
    by (simp add: lowerOwn_def plain_cx_def requireInst_def monad_simps new_handle_run handles_run
        init_state_def empty_table_def table_add_def MAX_LENGTH_def)
  from lowerOwn_liftOwn [OF hinv_init_state _ _ _ t, of 0] t show ?thesis
    by (auto simp: plain_cx_def)
qed

lemma packSubtaskResult_roundtrip_witness:
  "unpackSubtaskResult 0x51 = (subtask_code STARTED, 5) \<and> 0 < (5::nat) \<and> (5::nat) < 2 ^ 28"
  by (rule packSubtaskResult_roundtrip) (simp add: packSubtaskResult_def subtask_code_def push_bit_eq_mult)

end
