(* ===== verification/Cabi_Strings.thy ===== *)
theory Cabi_Strings
  imports Cabi_Memory
begin

text \<open>
  Strings and chars (\<open>runtime/src/cabi/strings.ts\<close>). A JavaScript string is the list of
  its UTF-16 code units. The standard library's \<open>toWellFormed\<close>, \<open>TextEncoder\<close> and the
  fatal \<open>TextDecoder\<close>s are modelled by what the Encoding Standard says of them; the
  store paths with their optimistic copies, reallocations and checks follow the source.
\<close>

section \<open>Unicode as the standard library has it\<close>

definition is_high :: "16 word \<Rightarrow> bool" where
  "is_high u \<longleftrightarrow> 0xD800 \<le> unat u \<and> unat u \<le> 0xDBFF"

definition is_low :: "16 word \<Rightarrow> bool" where
  "is_low u \<longleftrightarrow> 0xDC00 \<le> unat u \<and> unat u \<le> 0xDFFF"

fun toWellFormed :: "16 word list \<Rightarrow> 16 word list" where
  "toWellFormed [] = []"
| "toWellFormed [u] = [if is_high u \<or> is_low u then 0xFFFD else u]"
| "toWellFormed (u # v # us) =
     (if is_high u \<and> is_low v then u # v # toWellFormed us
      else (if is_high u \<or> is_low u then 0xFFFD else u) # toWellFormed (v # us))"

fun well_formed :: "16 word list \<Rightarrow> bool" where
  "well_formed [] = True"
| "well_formed [u] = (\<not> is_high u \<and> \<not> is_low u)"
| "well_formed (u # v # us) =
     (if is_high u then is_low v \<and> well_formed us else \<not> is_low u \<and> well_formed (v # us))"

fun code_points :: "16 word list \<Rightarrow> nat list" where
  "code_points [] = []"
| "code_points [u] = [unat u]"
| "code_points (u # v # us) =
     (if is_high u \<and> is_low v
      then (0x10000 + (unat u - 0xD800) * 0x400 + (unat v - 0xDC00)) # code_points us
      else unat u # code_points (v # us))"

text \<open>\<open>String.fromCodePoint\<close>.\<close>

definition units_of :: "nat \<Rightarrow> 16 word list" where
  "units_of c = (if c < 0x10000 then [of_nat c]
     else [of_nat (0xD800 + (c - 0x10000) div 0x400), of_nat (0xDC00 + (c - 0x10000) mod 0x400)])"

definition scalar :: "nat \<Rightarrow> bool" where
  "scalar c \<longleftrightarrow> c < 0xD800 \<or> (0xDFFF < c \<and> c < 0x110000)"

definition utf8_enc :: "nat \<Rightarrow> nat list" where
  "utf8_enc c =
     (if c < 0x80 then [c]
      else if c < 0x800 then [0xC0 + c div 64, 0x80 + c mod 64]
      else if c < 0x10000 then [0xE0 + c div 4096, 0x80 + c div 64 mod 64, 0x80 + c mod 64]
      else [0xF0 + c div 262144, 0x80 + c div 4096 mod 64, 0x80 + c div 64 mod 64, 0x80 + c mod 64])"

text \<open>\<open>new TextEncoder().encode(s)\<close>.\<close>

definition utf8Encode :: "16 word list \<Rightarrow> 8 word list" where
  "utf8Encode s = map of_nat (concat (map utf8_enc (code_points (toWellFormed s))))"

definition cont :: "nat \<Rightarrow> bool" where
  "cont b \<longleftrightarrow> 0x80 \<le> b \<and> b \<le> 0xBF"

text \<open>The permitted range of the byte after a lead byte of a 3- or 4-byte sequence.\<close>

definition second_ok :: "nat \<Rightarrow> nat \<Rightarrow> bool" where
  "second_ok b c \<longleftrightarrow> (if b = 0xE0 then 0xA0 else if b = 0xF0 then 0x90 else 0x80) \<le> c \<and>
     c \<le> (if b = 0xED then 0x9F else if b = 0xF4 then 0x8F else 0xBF)"

fun utf8_dec :: "nat list \<Rightarrow> nat list option" where
  "utf8_dec [] = Some []"
| "utf8_dec (b # bs) =
     (if b < 0x80 then map_option (Cons b) (utf8_dec bs)
      else if 0xC2 \<le> b \<and> b \<le> 0xDF then
        (case bs of c # r \<Rightarrow>
           if cont c then map_option (Cons ((b - 0xC0) * 64 + (c - 0x80))) (utf8_dec r) else None
         | _ \<Rightarrow> None)
      else if 0xE0 \<le> b \<and> b \<le> 0xEF then
        (case bs of c # d # r \<Rightarrow>
           if second_ok b c \<and> cont d
           then map_option (Cons ((b - 0xE0) * 4096 + (c - 0x80) * 64 + (d - 0x80))) (utf8_dec r) else None
         | _ \<Rightarrow> None)
      else if 0xF0 \<le> b \<and> b \<le> 0xF4 then
        (case bs of c # d # e # r \<Rightarrow>
           if second_ok b c \<and> cont d \<and> cont e
           then map_option (Cons ((b - 0xF0) * 262144 + (c - 0x80) * 4096 + (d - 0x80) * 64 + (e - 0x80)))
                  (utf8_dec r) else None
         | _ \<Rightarrow> None)
      else None)"

text \<open>The fatal decoders.\<close>

definition utf8Decode :: "8 word list \<Rightarrow> 16 word list option" where
  "utf8Decode bs = map_option (\<lambda>cs. concat (map units_of cs)) (utf8_dec (map unat bs))"

fun le_units :: "8 word list \<Rightarrow> 16 word list option" where
  "le_units [] = Some []"
| "le_units (a # b # bs) = map_option (Cons (of_nat (unat a + 256 * unat b))) (le_units bs)"
| "le_units [a] = None"

definition utf16Decode :: "8 word list \<Rightarrow> 16 word list option" where
  "utf16Decode bs = (case le_units bs of
     Some us \<Rightarrow> if well_formed us then Some us else None | None \<Rightarrow> None)"

definition latin1Decode :: "8 word list \<Rightarrow> 16 word list" where
  "latin1Decode bs = map (\<lambda>b. of_nat (unat b)) bs"

definition encodeUtf16Le :: "16 word list \<Rightarrow> 8 word list" where
  "encodeUtf16Le s = concat (map (\<lambda>u. le_bytes 2 (unat u)) (toWellFormed s))"

section \<open>Loading\<close>

definition REALLOC_I32_MAX :: nat where "REALLOC_I32_MAX = 2 ^ 32 - 1"
definition MAX_STRING_BYTE_LENGTH :: nat where "MAX_STRING_BYTE_LENGTH = 2 ^ 28 - 1"
definition REALLOC_MISALIGNED :: string where "REALLOC_MISALIGNED = ''realloc return: result not aligned''"
definition REALLOC_OOB :: string where "REALLOC_OOB = ''realloc return: beyond end of memory''"

definition utf16TagBig :: "ptr_type \<Rightarrow> nat" where
  "utf16TagBig pt = 2 ^ ((if pt = P32 then 4 else 8) * 8 - 1)"

text \<open>The inner loop of \<open>utf8ErrorMessage\<close> over the continuation bytes \<open>1 \<dots> width - 1\<close>;
  \<open>None\<close> when they are all there and in range.\<close>

fun utf8ContinuationError :: "nat \<Rightarrow> nat \<Rightarrow> nat \<Rightarrow> nat list \<Rightarrow> string option" where
  "utf8ContinuationError 0 mn mx bs = None"
| "utf8ContinuationError (Suc n) mn mx [] = Some ''incomplete utf-8 byte sequence''"
| "utf8ContinuationError (Suc n) mn mx (c # bs) =
     (if c < mn \<or> c > mx then Some ''invalid utf-8'' else utf8ContinuationError n 0x80 0xBF bs)"

definition utf8Lead :: "nat \<Rightarrow> (nat \<times> nat \<times> nat) option" where
  "utf8Lead b =
     (if b \<ge> 0xC2 \<and> b \<le> 0xDF then Some (2, 0x80, 0xBF)
      else if b = 0xE0 then Some (3, 0xA0, 0xBF)
      else if b \<ge> 0xE1 \<and> b \<le> 0xEC then Some (3, 0x80, 0xBF)
      else if b = 0xED then Some (3, 0x80, 0x9F)
      else if b \<ge> 0xEE \<and> b \<le> 0xEF then Some (3, 0x80, 0xBF)
      else if b = 0xF0 then Some (4, 0x90, 0xBF)
      else if b \<ge> 0xF1 \<and> b \<le> 0xF3 then Some (4, 0x80, 0xBF)
      else if b = 0xF4 then Some (4, 0x80, 0x8F)
      else None)"

function utf8ErrorMessage :: "nat list \<Rightarrow> string" where
  "utf8ErrorMessage [] = ''invalid utf-8''"
| "utf8ErrorMessage (b # bs) =
     (if b < 0x80 then utf8ErrorMessage bs
      else case utf8Lead b of
        None \<Rightarrow> ''invalid utf-8''
      | Some (width, loMin, loMax) \<Rightarrow>
          (case utf8ContinuationError (width - 1) loMin loMax bs of
             Some e \<Rightarrow> e
           | None \<Rightarrow> utf8ErrorMessage (drop (width - 1) bs)))"
  by pat_completeness auto

termination
  by (relation "measure length") auto

datatype src_encoding = EncUtf8 | EncUtf16Le | EncLatin1

definition loadStringFromRange :: "'x cst_scheme cx \<Rightarrow> nat \<Rightarrow> nat \<Rightarrow> ('x, cval) cm" where
  "loadStringFromRange cx ptr taggedCodeUnits =
     bnd (requireMem cx) (\<lambda>pt.
     let tag = utf16TagBig pt; units = taggedCodeUnits;
         (alignment, byteLength, encoding) =
           (case cx_encoding cx of
              Utf8 \<Rightarrow> (1, units, EncUtf8)
            | Utf16 \<Rightarrow> (2, 2 * units, EncUtf16Le)
            | Latin1Utf16 \<Rightarrow>
                if and units tag \<noteq> 0 then (2, 2 * xor units tag, EncUtf16Le)
                else (2, units, EncLatin1))
     in
     seqm (trapIf (byteLength > MAX_STRING_BYTE_LENGTH) ''string too long'')
     (seqm (trapIf (ptr mod alignment \<noteq> 0) ''misaligned string pointer'')
     (seqm (trapIfRangeExceedsMemory ptr byteLength ''string pointer/length out of bounds of memory'')
     (bnd (bytesOf ptr byteLength) (\<lambda>bytes.
      case encoding of
        EncUtf8 \<Rightarrow> (case utf8Decode bytes of
            Some s \<Rightarrow> ret (VStr s) | None \<Rightarrow> throw (Trap (utf8ErrorMessage (map unat bytes))))
      | EncUtf16Le \<Rightarrow> (case utf16Decode bytes of
            Some s \<Rightarrow> ret (VStr s) | None \<Rightarrow> throw (Trap ''invalid string encoding''))
      | EncLatin1 \<Rightarrow> ret (VStr (latin1Decode bytes)))))))"

definition loadString :: "'x cst_scheme cx \<Rightarrow> nat \<Rightarrow> ('x, cval) cm" where
  "loadString cx ptr =
     bnd (requireMem cx) (\<lambda>pt.
     bnd (loadPtr pt ptr) (\<lambda>begin.
     bnd (loadPtr pt (ptr + ptrSize pt)) (\<lambda>taggedCodeUnits.
     loadStringFromRange cx begin taggedCodeUnits)))"

section \<open>Storing\<close>

text \<open>\<open>mem.bytes[p] = b\<close>, ignored past the end as for any typed array.\<close>

definition set_byte :: "nat \<Rightarrow> 8 word \<Rightarrow> ('x, unit) cm" where
  "set_byte p b = modify (\<lambda>s. s\<lparr>c_mem := (c_mem s)[p := b]\<rparr>)"

definition check_aligned :: "nat \<Rightarrow> nat \<Rightarrow> ('s, unit) m" where
  "check_aligned ptr a = trapIf (ptr \<noteq> alignTo ptr a) REALLOC_MISALIGNED"

definition storeStringCopyUtf16 :: "'x cst_scheme cx \<Rightarrow> 16 word list \<Rightarrow> nat \<Rightarrow> ('x, nat \<times> nat) cm" where
  "storeStringCopyUtf16 cx src srcCodeUnits =
     bnd (requireMem cx) (\<lambda>pt.
     let dstByteLength = 2 * srcCodeUnits in
     seqm (assertm (dstByteLength \<le> REALLOC_I32_MAX) ''internal assertion failed'')
     (bnd (allocate cx 2 dstByteLength) (\<lambda>ptr.
      seqm (check_aligned ptr 2)
      (seqm (trapIfRangeExceedsMemory ptr dstByteLength REALLOC_OOB)
      (let encoded = encodeUtf16Le src in
       seqm (assertm (dstByteLength = length encoded) ''internal assertion failed'')
       (seqm (writeBytes ptr encoded)
       (ret (ptr, srcCodeUnits))))))))"

fun utf8AsciiLoop ::
    "'x cst_scheme cx \<Rightarrow> 16 word list \<Rightarrow> nat \<Rightarrow> nat \<Rightarrow> nat \<Rightarrow> nat \<Rightarrow> 16 word list \<Rightarrow> ('x, nat \<times> nat) cm" where
  "utf8AsciiLoop cx src srcCodeUnits worstCaseSize ptr i [] = ret (ptr, srcCodeUnits)"
| "utf8AsciiLoop cx src srcCodeUnits worstCaseSize ptr i (cu # rest) =
     (if unat cu < 0x80 then
        seqm (set_byte (ptr + i) (of_nat (unat cu)))
        (utf8AsciiLoop cx src srcCodeUnits worstCaseSize ptr (i + 1) rest)
      else
        seqm (assertm (worstCaseSize \<le> REALLOC_I32_MAX) ''internal assertion failed'')
        (bnd (reallocate cx ptr srcCodeUnits 1 worstCaseSize) (\<lambda>ptr.
         seqm (trapIfRangeExceedsMemory ptr worstCaseSize REALLOC_OOB)
         (let encoded = utf8Encode src in
          seqm (writeBytes (ptr + i) (drop i encoded))
          (if worstCaseSize > length encoded then
             bnd (reallocate cx ptr worstCaseSize 1 (length encoded)) (\<lambda>ptr.
             seqm (trapIfRangeExceedsMemory ptr (length encoded) REALLOC_OOB)
             (ret (ptr, length encoded)))
           else ret (ptr, length encoded))))))"

definition storeStringToUtf8 ::
    "'x cst_scheme cx \<Rightarrow> 16 word list \<Rightarrow> nat \<Rightarrow> nat \<Rightarrow> ('x, nat \<times> nat) cm" where
  "storeStringToUtf8 cx src srcCodeUnits worstCaseSize =
     bnd (requireMem cx) (\<lambda>pt.
     seqm (assertm (srcCodeUnits \<le> REALLOC_I32_MAX) ''internal assertion failed'')
     (bnd (allocate cx 1 srcCodeUnits) (\<lambda>ptr.
      seqm (trapIfRangeExceedsMemory ptr srcCodeUnits REALLOC_OOB)
      (utf8AsciiLoop cx src srcCodeUnits worstCaseSize ptr 0 src))))"

definition storeUtf16ToUtf8 :: "'x cst_scheme cx \<Rightarrow> 16 word list \<Rightarrow> nat \<Rightarrow> ('x, nat \<times> nat) cm" where
  "storeUtf16ToUtf8 cx src srcCodeUnits =
     (let worstCaseSize = srcCodeUnits * 3 in storeStringToUtf8 cx src srcCodeUnits worstCaseSize)"

text \<open>Widening in place: byte \<open>j\<close> moves to \<open>2j\<close>, from the last to the first.\<close>

fun widenLoop :: "nat \<Rightarrow> nat \<Rightarrow> ('x, unit) cm" where
  "widenLoop ptr 0 = ret ()"
| "widenLoop ptr (Suc j) =
     seqm (bnd (gets (\<lambda>s. if ptr + j < length (c_mem s) then c_mem s ! (ptr + j) else 0)) (\<lambda>b.
           set_byte (ptr + 2 * j) b))
     (seqm (set_byte (ptr + 2 * j + 1) 0)
     (widenLoop ptr j))"

fun latin1Loop ::
    "'x cst_scheme cx \<Rightarrow> ptr_type \<Rightarrow> 16 word list \<Rightarrow> nat \<Rightarrow> nat \<Rightarrow> nat \<Rightarrow> 16 word list \<Rightarrow> ('x, nat \<times> nat) cm" where
  "latin1Loop cx pt wfs srcCodeUnits ptr dstByteLength [] =
     (if dstByteLength < srcCodeUnits then
        bnd (reallocate cx ptr srcCodeUnits 2 dstByteLength) (\<lambda>ptr.
        seqm (check_aligned ptr 2)
        (seqm (trapIfRangeExceedsMemory ptr dstByteLength REALLOC_OOB)
        (ret (ptr, dstByteLength))))
      else ret (ptr, dstByteLength))"
| "latin1Loop cx pt wfs srcCodeUnits ptr dstByteLength (cu # rest) =
     (if unat cu < 2 ^ 8 then
        seqm (set_byte (ptr + dstByteLength) (of_nat (unat cu)))
        (latin1Loop cx pt wfs srcCodeUnits ptr (dstByteLength + 1) rest)
      else
        let worstCaseSize = 2 * srcCodeUnits in
        seqm (assertm (worstCaseSize \<le> REALLOC_I32_MAX) ''internal assertion failed'')
        (bnd (reallocate cx ptr srcCodeUnits 2 worstCaseSize) (\<lambda>ptr.
         seqm (check_aligned ptr 2)
         (seqm (trapIfRangeExceedsMemory ptr worstCaseSize REALLOC_OOB)
         (seqm (widenLoop ptr dstByteLength)
         (let encoded = encodeUtf16Le wfs in
          seqm (writeBytes (ptr + 2 * dstByteLength) (drop (2 * dstByteLength) encoded))
          (bnd (if worstCaseSize > length encoded then
                  bnd (reallocate cx ptr worstCaseSize 2 (length encoded)) (\<lambda>ptr.
                  seqm (check_aligned ptr 2)
                  (seqm (trapIfRangeExceedsMemory ptr (length encoded) REALLOC_OOB)
                  (ret ptr)))
                else ret ptr) (\<lambda>ptr.
           ret (ptr, or (length encoded div 2) (utf16TagBig pt))))))))))"

definition storeStringToLatin1OrUtf16 :: "'x cst_scheme cx \<Rightarrow> 16 word list \<Rightarrow> nat \<Rightarrow> ('x, nat \<times> nat) cm" where
  "storeStringToLatin1OrUtf16 cx src srcCodeUnits =
     bnd (requireMem cx) (\<lambda>pt.
     let wfs = toWellFormed src in
     seqm (assertm (srcCodeUnits \<le> REALLOC_I32_MAX) ''internal assertion failed'')
     (bnd (allocate cx 2 srcCodeUnits) (\<lambda>ptr.
      seqm (check_aligned ptr 2)
      (seqm (trapIfRangeExceedsMemory ptr srcCodeUnits REALLOC_OOB)
      (latin1Loop cx pt wfs srcCodeUnits ptr 0 wfs)))))"

definition storeStringIntoRange :: "'x cst_scheme cx \<Rightarrow> 16 word list \<Rightarrow> ('x, nat \<times> nat) cm" where
  "storeStringIntoRange cx src =
     (let srcCodeUnits = length src in
      case cx_encoding cx of
        Utf8 \<Rightarrow> storeUtf16ToUtf8 cx src srcCodeUnits
      | Utf16 \<Rightarrow> storeStringCopyUtf16 cx src srcCodeUnits
      | Latin1Utf16 \<Rightarrow> storeStringToLatin1OrUtf16 cx src srcCodeUnits)"

definition as_string :: "cval \<Rightarrow> (16 word list) res" where
  "as_string v = (case v of VStr s \<Rightarrow> Inr s | _ \<Rightarrow> Inl (TypeError ''not a string''))"

definition storeString :: "'x cst_scheme cx \<Rightarrow> cval \<Rightarrow> nat \<Rightarrow> ('x, unit) cm" where
  "storeString cx v ptr =
     bnd (requireMem cx) (\<lambda>pt.
     bnd (of_res (as_string v)) (\<lambda>src.
     bnd (storeStringIntoRange cx src) (\<lambda>(begin, taggedCodeUnits).
     seqm (storePtr pt begin ptr)
     (storePtr pt taggedCodeUnits (ptr + ptrSize pt)))))"

section \<open>Chars\<close>

definition convertI32ToChar :: "nat \<Rightarrow> ('s, cval) m" where
  "convertI32ToChar i =
     seqm (trapIf (i \<ge> 0x110000) ''char out of range'')
     (seqm (trapIf (0xD800 \<le> i \<and> i \<le> 0xDFFF) ''char is a surrogate'')
     (ret (VStr (units_of i))))"

text \<open>\<open>codePointAt(0)\<close>.\<close>

fun codePointAt0 :: "16 word list \<Rightarrow> nat option" where
  "codePointAt0 [] = None"
| "codePointAt0 [u] = Some (unat u)"
| "codePointAt0 (u # v # us) =
     Some (if is_high u \<and> is_low v then 0x10000 + (unat u - 0xD800) * 0x400 + (unat v - 0xDC00) else unat u)"

definition charToI32 :: "cval \<Rightarrow> ('s, nat) m" where
  "charToI32 c =
     bnd (of_res (as_string c)) (\<lambda>s.
     case codePointAt0 s of
       None \<Rightarrow> throw (AssertionError ''empty char'')
     | Some i \<Rightarrow>
         seqm (assertm (length s = (if i > 0xFFFF then 2 else 1)) ''char must be one code point'')
         (seqm (assertm (i \<le> 0xD7FF \<or> (0xE000 \<le> i \<and> i \<le> 0x10FFFF)) ''char must be a Unicode scalar value'')
         (ret i)))"

section \<open>Encodings invert each other\<close>

lemma unat16: "unat (u :: 16 word) < 0x10000"
  using unsigned_less [of u, where 'a = nat] by simp

lemma unat_of_nat16 [simp]: "n < 0x10000 \<Longrightarrow> unat (of_nat n :: 16 word) = n"
  by (simp add: unsigned_of_nat take_bit_nat_eq_self)

lemma length_toWellFormed [simp]: "length (toWellFormed us) = length us"
  by (induction us rule: toWellFormed.induct) auto

lemma high_low: "is_high u \<Longrightarrow> \<not> is_low u"
  by (auto simp: is_high_def is_low_def)

lemma fffd [simp]: "\<not> is_high 0xFFFD" "\<not> is_low 0xFFFD"
  by (simp_all add: is_high_def is_low_def)

lemma well_formed_Cons:
  "\<not> is_high u \<Longrightarrow> \<not> is_low u \<Longrightarrow> well_formed (u # us) = well_formed us"
  by (cases us) auto

lemma well_formed_toWellFormed [simp]: "well_formed (toWellFormed us)"
proof (induction us rule: toWellFormed.induct)
  case (3 u v us)
  show ?case
  proof (cases "is_high u \<and> is_low v")
    case True
    with 3 show ?thesis by (simp add: high_low)
  next
    case False
    with 3 have "well_formed (toWellFormed (v # us))" by blast
    then show ?thesis using False by (auto simp: well_formed_Cons)
  qed
qed auto

lemma toWellFormed_id: "well_formed us \<Longrightarrow> toWellFormed us = us"
  by (induction us rule: well_formed.induct) (auto split: if_splits)

lemma code_points_scalar: "well_formed us \<Longrightarrow> c \<in> set (code_points us) \<Longrightarrow> scalar c"
proof (induction us rule: code_points.induct)
  case (2 u)
  then show ?case using unat16 [of u] by (auto simp: scalar_def is_high_def is_low_def)
next
  case (3 u v us)
  then show ?case using unat16 [of u]
    by (auto simp: scalar_def is_high_def is_low_def split: if_splits)
qed simp

lemma units_of_pair:
  assumes "is_high u" "is_low v"
  shows "units_of (0x10000 + (unat u - 0xD800) * 0x400 + (unat v - 0xDC00)) = [u, v]"
proof -
  define a b where "a = unat u - 0xD800" and "b = unat v - 0xDC00"
  have uv: "0xD800 + a = unat u" "0xDC00 + b = unat v" "b < 0x400"
    using assms by (auto simp: is_high_def is_low_def a_def b_def)
  have "0x10000 + a * 0x400 + b - 0x10000 = a * 0x400 + b" by simp
  moreover have "(a * 0x400 + b) div 0x400 = a" "(a * 0x400 + b) mod 0x400 = b" using uv(3) by simp_all
  ultimately have "units_of (0x10000 + a * 0x400 + b) = [of_nat (0xD800 + a), of_nat (0xDC00 + b)]"
    unfolding units_of_def by (simp only:) simp
  then show ?thesis unfolding uv(1,2) by (simp add: a_def b_def)
qed

lemma units_of_single: "units_of (unat (u :: 16 word)) = [u]"
  using unat16 [of u] by (simp add: units_of_def)

lemma units_of_code_points: "concat (map units_of (code_points us)) = us"
  by (induction us rule: code_points.induct) (auto simp: units_of_pair units_of_single)

lemma utf8_enc_bytes: "scalar c \<Longrightarrow> b \<in> set (utf8_enc c) \<Longrightarrow> b < 256"
  by (auto simp: utf8_enc_def scalar_def split: if_splits)

lemma utf8_dec_enc:
  assumes "scalar c"
  shows "utf8_dec (utf8_enc c @ r) = map_option (Cons c) (utf8_dec r)"
proof -
  consider "c < 0x80" | "0x80 \<le> c" "c < 0x800" | "0x800 \<le> c" "c < 0x10000" | "0x10000 \<le> c" "c < 0x110000"
    using assms by (force simp: scalar_def)
  then show ?thesis
  proof cases
    case 1
    then show ?thesis by (simp add: utf8_enc_def)
  next
    case 2
    define a d where "a = c div 64" and "d = c mod 64"
    have c: "c = a * 64 + d" "d < 64" "2 \<le> a" "a \<le> 31"
      using 2 by (simp_all add: a_def d_def)
    have e: "utf8_enc c = [192 + a, 128 + d]" using 2 by (simp add: utf8_enc_def a_def d_def)
    have "utf8_dec ((192 + a) # (128 + d) # r) = map_option (Cons (a * 64 + d)) (utf8_dec r)"
      using c(2-4) by (subst utf8_dec.simps) (simp add: cont_def)
    then show ?thesis using e c(1) by (simp del: utf8_dec.simps)
  next
    case 3
    define a b d where "a = c div 4096" and "b = c div 64 mod 64" and "d = c mod 64"
    have "c div 4096 = c div 64 div 64" using div_mult2_eq [of c 64 64] by simp
    then have "c = a * 4096 + b * 64 + d"
      using div_mult_mod_eq [of c 64] div_mult_mod_eq [of "c div 64" 64]
      unfolding a_def b_def d_def by linarith
    then have c: "c = a * 4096 + b * 64 + d" "b < 64" "d < 64" "a < 16"
      using 3 by (simp_all add: a_def b_def d_def)
    have "a = 0 \<Longrightarrow> 32 \<le> b" using 3(1) c by simp
    moreover have "a = 13 \<Longrightarrow> b < 32" using assms c by (auto simp: scalar_def)
    ultimately have s: "second_ok (224 + a) (128 + b)" using c(2,4) by (auto simp: second_ok_def)
    have e: "utf8_enc c = [224 + a, 128 + b, 128 + d]" using 3 by (simp add: utf8_enc_def a_def b_def d_def)
    show ?thesis unfolding e using s c by (simp add: cont_def)
  next
    case 4
    define a b d e where "a = c div 262144" and "b = c div 4096 mod 64" and "d = c div 64 mod 64" and "e = c mod 64"
    have "c div 4096 = c div 64 div 64" "c div 262144 = c div 4096 div 64"
      using div_mult2_eq [of c 64 64] div_mult2_eq [of c 4096 64] by simp_all
    then have "c = a * 262144 + b * 4096 + d * 64 + e"
      using div_mult_mod_eq [of c 64] div_mult_mod_eq [of "c div 64" 64] div_mult_mod_eq [of "c div 4096" 64]
      unfolding a_def b_def d_def e_def by linarith
    then have c: "c = a * 262144 + b * 4096 + d * 64 + e" "b < 64" "d < 64" "e < 64" "a < 5"
      using 4 by (simp_all add: a_def b_def d_def e_def)
    have "a = 0 \<Longrightarrow> 16 \<le> b" using 4(1) c by simp
    moreover have "a = 4 \<Longrightarrow> b < 16" using 4(2) c by simp
    ultimately have s: "second_ok (240 + a) (128 + b)" using c(2,5) by (auto simp: second_ok_def)
    have e: "utf8_enc c = [240 + a, 128 + b, 128 + d, 128 + e]"
      using 4 by (simp add: utf8_enc_def a_def b_def d_def e_def)
    show ?thesis unfolding e using s c by (simp add: cont_def)
  qed
qed

lemma utf8_dec_concat: "(\<forall>c\<in>set cs. scalar c) \<Longrightarrow> utf8_dec (concat (map utf8_enc cs)) = Some cs"
  by (induction cs) (simp_all add: utf8_dec_enc)

lemma bytes_of_nats: "\<forall>b\<in>set bs. b < 256 \<Longrightarrow> map unat (map of_nat bs :: 8 word list) = bs"
  by (induction bs) (auto simp: unat_of_nat8)

lemma utf8Decode_utf8Encode: "utf8Decode (utf8Encode s) = Some (toWellFormed s)"
proof -
  let ?cs = "code_points (toWellFormed s)"
  have sc: "\<forall>c\<in>set ?cs. scalar c" by (auto intro: code_points_scalar [OF well_formed_toWellFormed])
  have "\<forall>b\<in>set (concat (map utf8_enc ?cs)). b < 256" using sc utf8_enc_bytes by auto
  then have "map unat (map of_nat (concat (map utf8_enc ?cs)) :: 8 word list) = concat (map utf8_enc ?cs)"
    by (rule bytes_of_nats)
  then show ?thesis
    using utf8_dec_concat [OF sc] by (simp add: utf8Decode_def utf8Encode_def units_of_code_points)
qed

lemma le_units_concat: "le_units (concat (map (\<lambda>u. le_bytes 2 (unat u)) us)) = Some us"
proof (induction us)
  case (Cons u us)
  have "unat (of_nat (unat u) :: 8 word) + 256 * unat (of_nat (unat u div 256) :: 8 word) = unat u"
    using le_nat_le_bytes [of 2 "unat u"] unat16 [of u] by (simp add: numeral_2_eq_2)
  with Cons show ?case by (simp add: numeral_2_eq_2 del: of_nat_add of_nat_mult)
qed simp

lemma utf16Decode_encodeUtf16Le: "utf16Decode (encodeUtf16Le s) = Some (toWellFormed s)"
  by (simp add: utf16Decode_def encodeUtf16Le_def le_units_concat)

lemma length_concat_le_bytes: "length (concat (map (\<lambda>u. le_bytes k (f u)) us)) = k * length us"
  by (induction us) auto

lemma length_encodeUtf16Le [simp]: "length (encodeUtf16Le s) = 2 * length s"
  by (simp only: encodeUtf16Le_def length_concat_le_bytes length_toWellFormed)

lemma length_utf8_code_points: "length (concat (map utf8_enc (code_points us))) \<le> 3 * length us"
proof (induction us rule: code_points.induct)
  case (2 u)
  then show ?case using unat16 [of u] by (simp add: utf8_enc_def)
next
  case (3 u v us)
  then show ?case using unat16 [of u] by (auto simp: utf8_enc_def)
qed simp

lemma length_utf8Encode: "length (utf8Encode s) \<le> 3 * length s"
  using length_utf8_code_points [of "toWellFormed s"] by (simp add: utf8Encode_def)

section \<open>What is stored is what is loaded\<close>

text \<open>What the runtime relies on: a reallocation keeps the bytes that fit in the new block, and
  the host's checkpoint does not touch guest memory.\<close>

definition realloc_copies :: "(nat \<Rightarrow> nat \<Rightarrow> nat \<Rightarrow> nat \<Rightarrow> ('x, nat) cm) \<Rightarrow> bool" where
  "realloc_copies f \<longleftrightarrow> (\<forall>old ol al nw s p t. f old ol al nw s = (Inr p, t) \<longrightarrow>
     old + ol \<le> length (c_mem s) \<longrightarrow> p + nw \<le> length (c_mem t) \<longrightarrow>
     subarray (c_mem t) p (min ol nw) = subarray (c_mem s) old (min ol nw))"

definition cx_copies :: "'x cst_scheme cx \<Rightarrow> bool" where
  "cx_copies cx \<longleftrightarrow> (\<forall>f. cx_realloc cx = Some f \<longrightarrow> realloc_copies f) \<and>
     (\<forall>s. c_mem (snd (cx_checkpoint cx s)) = c_mem s)"

lemma reallocate_copies:
  assumes "cx_copies cx" "reallocate cx old ol al nw s = (Inr p, t)" "old + ol \<le> length (c_mem s)"
    "p + nw \<le> length (c_mem t)"
  shows "subarray (c_mem t) p (min ol nw) = subarray (c_mem s) old (min ol nw)"
proof -
  from assms(2) obtain f where f: "cx_realloc cx = Some f" by (cases "cx_realloc cx") (auto simp: reallocate_def)
  with assms(1) have c: "realloc_copies f" by (simp add: cx_copies_def)
  show ?thesis
  proof (cases "cx_inst cx")
    case None
    with assms(2) f have "f old ol al nw s = (Inr p, t)" by (simp add: reallocate_def)
    with c assms(3,4) show ?thesis unfolding realloc_copies_def by blast
  next
    case (Some inst)
    from assms(2) f Some obtain v where v: "f old ol al nw (s\<lparr>c_may_leave := False\<rparr>) = (Inr p, v)"
        "\<exists>u. cx_checkpoint cx (v\<lparr>c_may_leave := True\<rparr>) = (Inr u, t)"
      by (auto simp: reallocate_def run_Inr)
    have "c_mem (snd (cx_checkpoint cx (v\<lparr>c_may_leave := True\<rparr>))) = c_mem (v\<lparr>c_may_leave := True\<rparr>)"
      using assms(1) by (simp only: cx_copies_def)
    then have m: "c_mem t = c_mem v" using v(2) by auto
    have "subarray (c_mem v) p (min ol nw) = subarray (c_mem (s\<lparr>c_may_leave := False\<rparr>)) old (min ol nw)"
      using c [unfolded realloc_copies_def, rule_format, OF v(1)] assms(3,4) m by simp
    then show ?thesis using m by simp
  qed
qed

lemma trapRange_Inr:
  "trapIfRangeExceedsMemory p n w s = (Inr u, t) \<longleftrightarrow> t = s \<and> p + n \<le> length (c_mem s)"
  by (auto simp: trapIfRangeExceedsMemory_def monad_simps split: if_splits)

lemma writeBytes_Inr:
  "writeBytes p bs s = (Inr u, t) \<longleftrightarrow>
   p + length bs \<le> length (c_mem s) \<and> t = s\<lparr>c_mem := overwrite (c_mem s) p bs\<rparr>"
  by (auto simp: writeBytes_def monad_simps split: if_splits)

lemma set_byte_run [simp]: "set_byte p b s = (Inr (), s\<lparr>c_mem := (c_mem s)[p := b]\<rparr>)"
  by (simp add: set_byte_def)

lemma subarray_take: "k \<le> n \<Longrightarrow> subarray xs p k = take k (subarray xs p n)"
  by (simp add: subarray_def min_absorb1)

lemma subarray_snoc:
  "p + i < length xs \<Longrightarrow> subarray (xs[p + i := b]) p (Suc i) = subarray xs p i @ [b]"
  by (rule nth_equalityI) (auto simp: nth_subarray nth_append nth_list_update less_Suc_eq)

lemma overwrite_tail:
  assumes "p + length e \<le> length xs" "subarray xs p i = take i e" "i \<le> length e"
  shows "subarray (overwrite xs (p + i) (drop i e)) p (length e) = e"
  using assms
proof (intro nth_equalityI)
  fix k assume k: "k < length (subarray (overwrite xs (p + i) (drop i e)) p (length e))"
  have l: "length (overwrite xs (p + i) (drop i e)) = length xs" using assms by simp
  then have k: "k < length e" using k assms by simp
  show "subarray (overwrite xs (p + i) (drop i e)) p (length e) ! k = e ! k"
  proof (cases "k < i")
    case True
    have "xs ! (p + k) = take i e ! k"
      using assms True by (metis k le_trans nat_add_left_cancel_le nth_subarray)
    then show ?thesis using assms True k l by (simp add: nth_subarray nth_overwrite)
  next
    case False
    then show ?thesis using assms k l by (simp add: nth_subarray nth_overwrite)
  qed
qed simp

lemma toWellFormed_ascii: "unat cu < 0x80 \<Longrightarrow> toWellFormed (cu # us) = cu # toWellFormed us"
  by (cases us) (auto simp: is_high_def is_low_def)

lemma code_points_ascii: "unat cu < 0x80 \<Longrightarrow> code_points (cu # us) = unat cu # code_points us"
  by (cases us) (auto simp: is_high_def)

lemma utf8Encode_ascii:
  "unat cu < 0x80 \<Longrightarrow> utf8Encode (cu # us) = of_nat (unat cu) # utf8Encode us"
  by (simp add: utf8Encode_def toWellFormed_ascii code_points_ascii utf8_enc_def)

lemma utf8AsciiLoop_stores:
  assumes "cx_copies cx"
    "utf8AsciiLoop cx src n (n * 3) ptr i rest s = (Inr (p, u), t)"
    "src = pre @ rest" "length pre = i" "n = length src" "\<forall>c\<in>set pre. unat c < 0x80"
    "ptr + n \<le> length (c_mem s)" "subarray (c_mem s) ptr i = map (\<lambda>c. of_nat (unat c)) pre"
  shows "u = length (utf8Encode src) \<and> p + u \<le> length (c_mem t) \<and> subarray (c_mem t) p u = utf8Encode src"
  using assms(2-)
proof (induction rest arbitrary: i pre s)
  have enc: "utf8Encode (pre @ rest) = map (\<lambda>c. of_nat (unat c)) pre @ utf8Encode rest"
    if "\<forall>c\<in>set pre. unat c < 0x80" for pre rest :: "16 word list"
    using that by (induction pre) (simp_all add: utf8Encode_ascii)
  have nil: "utf8Encode [] = []" by (simp add: utf8Encode_def)
  {
    case Nil
    then show ?case using enc [of pre "[]"] nil by (simp add: run_Inr)
  next
    case (Cons cu rest)
    show ?case
    proof (cases "unat cu < 0x80")
      case True
      let ?s = "s\<lparr>c_mem := (c_mem s)[ptr + i := of_nat (unat cu)]\<rparr>"
      have run: "utf8AsciiLoop cx src n (n * 3) ptr (Suc i) rest ?s = (Inr (p, u), t)"
        using Cons.prems(1) True by (simp add: seqm_run)
      have "ptr + i < length (c_mem s)" using Cons.prems(2,3,4,6) by simp
      then have "subarray (c_mem ?s) ptr (Suc i) = map (\<lambda>c. of_nat (unat c)) (pre @ [cu])"
        using Cons.prems(7) by (simp add: subarray_snoc)
      note sub = this
      show ?thesis
        by (rule Cons.IH [OF run, of "pre @ [cu]"]) (use Cons.prems(2-6) True sub in simp_all)
    next
      case False
      let ?e = "utf8Encode src"
      have take: "take i ?e = map (\<lambda>c. of_nat (unat c)) pre" "i \<le> length ?e"
        using enc [OF Cons.prems(5), of "cu # rest"] Cons.prems(2,3) by (simp_all)
      have le: "length ?e \<le> n * 3" using length_utf8Encode [of src] Cons.prems(4) by (simp add: mult.commute)
      from Cons.prems(1) False obtain q v w where
        v: "reallocate cx ptr n 1 (n * 3) s = (Inr q, v)" "q + n * 3 \<le> length (c_mem v)"
           "w = v\<lparr>c_mem := overwrite (c_mem v) (q + i) (drop i ?e)\<rparr>"
           "(if n * 3 > length ?e then bnd (reallocate cx q (n * 3) 1 (length ?e)) (\<lambda>ptr.
               seqm (trapIfRangeExceedsMemory ptr (length ?e) REALLOC_OOB) (ret (ptr, length ?e)))
             else ret (q, length ?e)) w = (Inr (p, u), t)"
        by (auto simp: run_Inr trapRange_Inr writeBytes_Inr Let_def)
      have "subarray (c_mem v) q (min n (n * 3)) = subarray (c_mem s) ptr (min n (n * 3))"
        using reallocate_copies [OF assms(1) v(1)] Cons.prems(6) v(2) by simp
      then have "subarray (c_mem v) q n = subarray (c_mem s) ptr n" by (simp add: min_absorb1)
      then have "subarray (c_mem v) q i = take i ?e"
        using Cons.prems(2,3,4,7) take(1) by (metis le_add1 length_append subarray_take)
      then have w: "subarray (c_mem w) q (length ?e) = ?e" "length (c_mem w) = length (c_mem v)"
        using overwrite_tail [of q ?e "c_mem v" i] v(2,3) le take(2) by simp_all
      show ?thesis
      proof (cases "n * 3 > length ?e")
        case False
        then show ?thesis using v(4) w v(2) le by (auto simp: run_Inr)
      next
        case True
        with v(4) have *: "reallocate cx q (n * 3) 1 (length ?e) w = (Inr p, t)" "p + length ?e \<le> length (c_mem t)"
            "u = length ?e"
          by (auto simp: run_Inr trapRange_Inr)
        have "subarray (c_mem t) p (min (n * 3) (length ?e)) = subarray (c_mem w) q (min (n * 3) (length ?e))"
          using reallocate_copies [OF assms(1) *(1)] *(2) w(2) v(2) by simp
        then show ?thesis using * w(1) True by (simp add: min_absorb2)
      qed
    qed
  }
qed

lemma storeUtf16ToUtf8_stores:
  assumes "cx_copies cx" "storeUtf16ToUtf8 cx src (length src) s = (Inr (p, u), t)"
  shows "u = length (utf8Encode src) \<and> p + u \<le> length (c_mem t) \<and> subarray (c_mem t) p u = utf8Encode src"
proof -
  from assms(2) obtain q v where v: "utf8AsciiLoop cx src (length src) (length src * 3) q 0 src v = (Inr (p, u), t)"
      "q + length src \<le> length (c_mem v)"
    by (auto simp: storeUtf16ToUtf8_def storeStringToUtf8_def run_Inr trapRange_Inr)
  show ?thesis by (rule utf8AsciiLoop_stores [OF assms(1) v(1), of "[]"]) (use v(2) in simp_all)
qed

lemma storeStringCopyUtf16_stores:
  assumes "storeStringCopyUtf16 cx src (length src) s = (Inr (p, u), t)"
  shows "u = length src \<and> even p \<and> p + 2 * u \<le> length (c_mem t) \<and> subarray (c_mem t) p (2 * u) = encodeUtf16Le src"
  using assms
  by (auto simp: storeStringCopyUtf16_def run_Inr trapRange_Inr writeBytes_Inr check_aligned_def Let_def
      alignTo_eq_iff)

lemma widenLoop_run:
  "p + 2 * d \<le> length (c_mem s) \<Longrightarrow>
   \<exists>m. widenLoop p d s = (Inr (), s\<lparr>c_mem := m\<rparr>) \<and> same_outside p (2 * d) (c_mem s) m \<and>
     subarray m p (2 * d) = concat (map (\<lambda>b. [b, 0]) (subarray (c_mem s) p d))"
proof (induction d arbitrary: s)
  case 0
  have "s = s\<lparr>c_mem := c_mem s\<rparr>" by simp
  then show ?case by (intro exI [of _ "c_mem s"]) simp
next
  case (Suc j)
  let ?b = "c_mem s ! (p + j)"
  let ?m = "(c_mem s)[p + 2 * j := ?b, p + 2 * j + 1 := 0]"
  let ?s = "s\<lparr>c_mem := ?m\<rparr>"
  from Suc.IH [of ?s] Suc.prems obtain m where m: "widenLoop p j ?s = (Inr (), ?s\<lparr>c_mem := m\<rparr>)"
      "same_outside p (2 * j) ?m m" "subarray m p (2 * j) = concat (map (\<lambda>b. [b, 0]) (subarray ?m p j))"
    by auto
  have run: "widenLoop p (Suc j) s = (Inr (), s\<lparr>c_mem := m\<rparr>)"
    using m(1) Suc.prems by (simp add: seqm_run bnd_run)
  have "subarray ?m p j = subarray (c_mem s) p j"
    using Suc.prems by (intro nth_equalityI) (auto simp: nth_subarray)
  moreover have "subarray (c_mem s) p (Suc j) = subarray (c_mem s) p j @ [?b]"
    using Suc.prems subarray_split [of p j 1 "c_mem s"] by (simp add: subarray_def take_Suc_conv_app_nth)
  moreover have "m ! (p + 2 * j) = ?b" "m ! (p + 2 * j + 1) = 0" "length m = length (c_mem s)"
    using m(2) Suc.prems by (auto simp: same_outside_def)
  moreover have "subarray m p (2 * Suc j) = subarray m p (2 * j) @ [m ! (p + 2 * j), m ! (p + 2 * j + 1)]"
    if "length m = length (c_mem s)"
    using that Suc.prems by (intro nth_equalityI) (auto simp: nth_subarray nth_append less_Suc_eq)
  ultimately have "subarray m p (2 * Suc j) = concat (map (\<lambda>b. [b, 0]) (subarray (c_mem s) p (Suc j)))"
    using m(3) by simp
  moreover have "same_outside p (2 * Suc j) (c_mem s) m"
    using m(2) by (auto simp: same_outside_def)
  ultimately show ?case using run by blast
qed

lemma encodeUtf16Le_prefix:
  assumes "well_formed (pre @ rest)" "\<forall>c\<in>set pre. unat c < 256"
  shows "take (2 * length pre) (encodeUtf16Le (pre @ rest)) =
    concat (map (\<lambda>b. [b, 0]) (map (\<lambda>c. of_nat (unat c)) pre))"
proof -
  have "concat (map (\<lambda>u. le_bytes 2 (unat u)) pre) = concat (map (\<lambda>b. [b, 0]) (map (\<lambda>c. of_nat (unat c)) pre))"
    using assms(2) by (induction pre) (simp_all add: numeral_2_eq_2)
  moreover have "length (concat (map (\<lambda>u. le_bytes 2 (unat u)) pre)) = 2 * length pre"
    by (rule length_concat_le_bytes)
  ultimately show ?thesis using assms(1) by (simp add: encodeUtf16Le_def toWellFormed_id)
qed

lemma tag_bits:
  assumes "(n::nat) < 2 ^ k"
  shows "and n (2 ^ k) = 0" "and (or n (2 ^ k)) (2 ^ k) = 2 ^ k" "xor (or n (2 ^ k)) (2 ^ k) = n"
proof -
  have k: "\<not> bit n k" using assms by (metis bit_take_bit_iff less_irrefl take_bit_nat_eq_self)
  show "and n (2 ^ k) = 0" using k by (simp add: and_exp_eq_0_iff_not_bit)
  show "and (or n (2 ^ k)) (2 ^ k) = 2 ^ k"
    by (rule bit_eqI) (simp only: bit_and_iff bit_or_iff, blast)
  show "xor (or n (2 ^ k)) (2 ^ k) = n"
  proof (rule bit_eqI)
    fix j
    show "bit (xor (or n (2 ^ k)) (2 ^ k)) j = bit n j"
      using k by (simp only: bit_xor_iff bit_or_iff bit_exp_iff) auto
  qed
qed

lemma latin1Loop_stores:
  assumes "cx_copies cx"
    "latin1Loop cx pt us n ptr d rest s = (Inr (p, u), t)" "well_formed us"
    "us = pre @ rest" "length pre = d" "n = length us" "\<forall>c\<in>set pre. unat c < 256" "even ptr"
    "ptr + n \<le> length (c_mem s)" "subarray (c_mem s) ptr d = map (\<lambda>c. of_nat (unat c)) pre"
  shows "even p \<and>
    (if \<forall>c\<in>set us. unat c < 256
     then u = n \<and> p + n \<le> length (c_mem t) \<and> subarray (c_mem t) p n = map (\<lambda>c. of_nat (unat c)) us
     else u = or n (utf16TagBig pt) \<and> 2 * n \<le> REALLOC_I32_MAX \<and> p + 2 * n \<le> length (c_mem t) \<and>
       subarray (c_mem t) p (2 * n) = encodeUtf16Le us)"
  using assms(2-)
proof (induction rest arbitrary: d pre s)
  case Nil
  then have "p = ptr" "u = n" "t = s" by (auto simp: run_Inr)
  with Nil show ?case by simp
next
  case (Cons cu rest)
  show ?case
  proof (cases "unat cu < 256")
    case True
    let ?s = "s\<lparr>c_mem := (c_mem s)[ptr + d := of_nat (unat cu)]\<rparr>"
    have run: "latin1Loop cx pt us n ptr (Suc d) rest ?s = (Inr (p, u), t)"
      using Cons.prems(1) True by (simp add: seqm_run)
    have "ptr + d < length (c_mem s)" using Cons.prems(3,4,5,8) by simp
    then have sub: "subarray (c_mem ?s) ptr (Suc d) = map (\<lambda>c. of_nat (unat c)) (pre @ [cu])"
      using Cons.prems(9) by (simp add: subarray_snoc)
    show ?thesis
      by (rule Cons.IH [OF run, of "pre @ [cu]"]) (use Cons.prems(2-8) True sub in simp_all)
  next
    case False
    let ?e = "encodeUtf16Le us"
    have le: "length ?e = 2 * n" using Cons.prems(5) by simp
    from Cons.prems(1) False obtain v w where
      v: "reallocate cx ptr n 2 (2 * n) s = (Inr p, v)" "p + 2 * n \<le> length (c_mem v)" "even p"
         "widenLoop p d v = (Inr (), w)" "t = w\<lparr>c_mem := overwrite (c_mem w) (p + 2 * d) (drop (2 * d) ?e)\<rparr>"
         "u = or n (utf16TagBig pt)" "2 * n \<le> REALLOC_I32_MAX"
      by (auto simp: run_Inr trapRange_Inr writeBytes_Inr check_aligned_def Let_def alignTo_eq_iff Cons.prems(5))
    have "subarray (c_mem v) p (min n (2 * n)) = subarray (c_mem s) ptr (min n (2 * n))"
      using reallocate_copies [OF assms(1) v(1)] Cons.prems(8) v(2) by simp
    then have "subarray (c_mem v) p n = subarray (c_mem s) ptr n" by (simp add: min_absorb1)
    then have pre: "subarray (c_mem v) p d = map (\<lambda>c. of_nat (unat c)) pre"
      using Cons.prems(3,4,5,9) by (metis le_add1 length_append subarray_take)
    have d: "2 * d \<le> 2 * n" using Cons.prems(3,4,5) by simp
    then obtain m where m: "w = v\<lparr>c_mem := m\<rparr>" "length m = length (c_mem v)"
        "subarray m p (2 * d) = concat (map (\<lambda>b. [b, 0]) (subarray (c_mem v) p d))"
      using widenLoop_run [of p d v] v(2,4) by (auto simp: same_outside_def)
    have "subarray m p (2 * d) = take (2 * d) ?e"
      using m(3) pre encodeUtf16Le_prefix [of pre "cu # rest"] Cons.prems(2,3,4,6) by simp
    then have "subarray (c_mem t) p (length ?e) = ?e" "length (c_mem t) = length (c_mem v)"
      using overwrite_tail [of p ?e m "2 * d"] m(1,2) v(2,5) le d by simp_all
    moreover have "\<not> (\<forall>c\<in>set us. unat c < 256)" using False Cons.prems(3) by auto
    ultimately show ?thesis using v le by auto
  qed
qed

lemma storeStringToLatin1OrUtf16_stores:
  assumes "cx_copies cx" "cx_memory cx = Some pt"
    "storeStringToLatin1OrUtf16 cx src (length src) s = (Inr (p, u), t)"
  shows "even p \<and>
    (if \<forall>c\<in>set (toWellFormed src). unat c < 256
     then u = length src \<and> p + length src \<le> length (c_mem t) \<and>
       subarray (c_mem t) p (length src) = map (\<lambda>c. of_nat (unat c)) (toWellFormed src)
     else u = or (length src) (utf16TagBig pt) \<and> 2 * length src \<le> REALLOC_I32_MAX \<and>
       p + 2 * length src \<le> length (c_mem t) \<and> subarray (c_mem t) p (2 * length src) = encodeUtf16Le src)"
proof -
  from assms(2,3) obtain q v where v: "even q" "q + length src \<le> length (c_mem v)"
      "latin1Loop cx pt (toWellFormed src) (length src) q 0 (toWellFormed src) v = (Inr (p, u), t)"
    by (auto simp: storeStringToLatin1OrUtf16_def run_Inr trapRange_Inr check_aligned_def alignTo_eq_iff Let_def)
  have e: "encodeUtf16Le (toWellFormed src) = encodeUtf16Le src"
    by (simp add: encodeUtf16Le_def toWellFormed_id)
  have "even p \<and>
    (if \<forall>c\<in>set (toWellFormed src). unat c < 256
     then u = length src \<and> p + length src \<le> length (c_mem t) \<and>
       subarray (c_mem t) p (length src) = map (\<lambda>c. of_nat (unat c)) (toWellFormed src)
     else u = or (length src) (utf16TagBig pt) \<and> 2 * length src \<le> REALLOC_I32_MAX \<and>
       p + 2 * length src \<le> length (c_mem t) \<and>
       subarray (c_mem t) p (2 * length src) = encodeUtf16Le (toWellFormed src))"
    by (rule latin1Loop_stores [OF assms(1) v(3), of "[]"]) (use v in simp_all)
  then show ?thesis unfolding e .
qed

lemma loadBytes_run:
  "p + n \<le> length (c_mem s) \<Longrightarrow> bytesOf p n s = (Inr (subarray (c_mem s) p n), s)"
  by (simp add: bytesOf_def monad_simps)

lemma latin1Decode_map:
  "\<forall>c\<in>set us. unat c < 256 \<Longrightarrow> latin1Decode (map (\<lambda>c. of_nat (unat c)) us) = us"
proof -
  have "of_nat (unat (of_nat (unat c) :: 8 word)) = c" if "unat c < 256" for c :: "16 word"
    unfolding unat_of_nat8 using that by simp
  then show "\<forall>c\<in>set us. unat c < 256 \<Longrightarrow> ?thesis"
    unfolding latin1Decode_def map_map comp_def by (intro map_idI) blast
qed


text \<open>A guest allocator that grows the memory at every call and copies the old block.\<close>

definition growing_realloc :: "nat \<Rightarrow> nat \<Rightarrow> nat \<Rightarrow> nat \<Rightarrow> ('x, nat) cm" where
  "growing_realloc old ol al nw = (\<lambda>s.
     let p = max (length (c_mem s)) (alignTo (length (c_mem s)) al);
         block = take nw (subarray (c_mem s) old ol @ replicate nw 0)
     in (Inr p, s\<lparr>c_mem := c_mem s @ replicate (p - length (c_mem s)) 0 @ block\<rparr>))"

lemma growing_realloc_copies: "realloc_copies growing_realloc"
  unfolding realloc_copies_def
proof (intro allI impI)
  fix old ol al nw p and s t :: "'a cst_scheme"
  assume run: "growing_realloc old ol al nw s = (Inr p, t)" and o: "old + ol \<le> length (c_mem s)"
    and n: "p + nw \<le> length (c_mem t)"
  let ?b = "take nw (subarray (c_mem s) old ol @ replicate nw 0)"
  from run have t: "p = max (length (c_mem s)) (alignTo (length (c_mem s)) al)"
      "c_mem t = c_mem s @ replicate (p - length (c_mem s)) 0 @ ?b"
    by (auto simp: growing_realloc_def Let_def)
  have b: "length ?b = nw" using o by simp
  have l: "length (c_mem s) \<le> p" using t(1) by simp
  have d: "drop p (c_mem t) = ?b" using l by (simp add: t(2))
  have "take (min ol nw) ?b = take (min ol nw) (subarray (c_mem s) old ol)" using o by simp
  also have "\<dots> = subarray (c_mem s) old (min ol nw)" by (rule subarray_take [symmetric]) simp
  finally show "subarray (c_mem t) p (min ol nw) = subarray (c_mem s) old (min ol nw)"
    unfolding subarray_def [of "c_mem t"] d .
qed

definition string_cx :: "string_encoding \<Rightarrow> 'x cst_scheme cx" where
  "string_cx enc = \<lparr>cx_encoding = enc, cx_memory = Some P32, cx_realloc = Some growing_realloc, cx_inst = Some 0,
     cx_scope = None, cx_checkpoint = ret (), cx_inserted = (\<lambda>_ _. ret ()),
     cx_removal_failed = (\<lambda>_ _. ret ()), cx_impl = (\<lambda>_. None), cx_little_endian = True, cx_byte_offset = 0,
     cx_liftErrorContext = (\<lambda>_. throw (PendingCapability [])),
     cx_liftStream = (\<lambda>_ _. throw (PendingCapability [])),
     cx_liftFuture = (\<lambda>_ _. throw (PendingCapability [])),
     cx_lowerErrorContext = (\<lambda>_. throw (PendingCapability [])),
     cx_lowerStream = (\<lambda>_ _. throw (PendingCapability [])),
     cx_lowerFuture = (\<lambda>_ _. throw (PendingCapability []))\<rparr>"


section \<open>Chars and decode diagnostics\<close>

lemma units_of_wide:
  assumes "0x10000 \<le> i" "i < 0x110000"
  obtains u v where "units_of i = [u, v]" "is_high u" "is_low v"
    "0x10000 + (unat u - 0xD800) * 0x400 + (unat v - 0xDC00) = i"
proof -
  define a b where "a = (i - 0x10000) div 0x400" and "b = (i - 0x10000) mod 0x400"
  have ab: "a < 0x400" "b < 0x400" "i = 0x10000 + a * 0x400 + b"
    using assms div_mult_mod_eq [of "i - 0x10000" "0x400"] by (auto simp: a_def b_def simp del: div_mult_mod_eq)
  have u: "unat (of_nat (0xD800 + a) :: 16 word) = 0xD800 + a" "unat (of_nat (0xDC00 + b) :: 16 word) = 0xDC00 + b"
    using ab(1,2) by (simp_all del: of_nat_add)
  have "units_of i = [of_nat (0xD800 + a), of_nat (0xDC00 + b)]"
    using assms(1) by (simp add: units_of_def a_def b_def)
  moreover have "is_high (of_nat (0xD800 + a))" "is_low (of_nat (0xDC00 + b))"
    unfolding is_high_def is_low_def u using ab(1,2) by simp_all
  moreover have "0x10000 + (unat (of_nat (0xD800 + a) :: 16 word) - 0xD800) * 0x400 +
      (unat (of_nat (0xDC00 + b) :: 16 word) - 0xDC00) = i"
    unfolding u using ab(3) by simp
  ultimately show ?thesis using that by blast
qed

lemma charToI32_units_of:
  assumes "scalar i"
  shows "charToI32 (VStr (units_of i)) s = (Inr i, s)"
proof (cases "i < 0x10000")
  case True
  then show ?thesis using assms by (auto simp: charToI32_def as_string_def units_of_def monad_simps scalar_def)
next
  case False
  have "0x10000 \<le> i" "i < 0x110000" using False assms by (auto simp: scalar_def)
  then obtain u v where "units_of i = [u, v]" "is_high u" "is_low v"
      "0x10000 + (unat u - 0xD800) * 0x400 + (unat v - 0xDC00) = i"
    by (rule units_of_wide)
  then show ?thesis using assms False by (simp add: charToI32_def as_string_def monad_simps scalar_def)
qed

lemma convertI32ToChar_scalar: "scalar i \<Longrightarrow> convertI32ToChar i s = (Inr (VStr (units_of i)), s)"
  by (auto simp: convertI32ToChar_def scalar_def monad_simps)

text \<open>C40. Lifting a char accepts exactly the Unicode scalar values and traps on every other lane
  value, and lowering the string it makes gives the same code point back; lowering accepts
  only strings that are one scalar value.\<close>

theorem char_lift_lower:
  "(if scalar i then convertI32ToChar i s = (Inr (VStr (units_of i)), s) \<and> charToI32 (VStr (units_of i)) s = (Inr i, s)
    else \<exists>m. convertI32ToChar i s = (Inl (Trap m), s)) \<and>
   (case fst (charToI32 v s) of Inr k \<Rightarrow> scalar k | Inl _ \<Rightarrow> True)"
proof -
  have "scalar k" if "fst (charToI32 v s) = Inr k" for k
    using that by (auto simp: charToI32_def as_string_def monad_simps scalar_def split: cval.splits option.splits if_splits)
  then show ?thesis
    by (auto simp: charToI32_units_of convertI32ToChar_scalar split: sum.split)
      (auto simp: convertI32ToChar_def scalar_def monad_simps)
qed

lemma utf8Lead_cases:
  assumes "utf8Lead b = Some (w, mn, mx)"
  obtains "w = 2" "0xC2 \<le> b" "b \<le> 0xDF" "mn = 0x80" "mx = 0xBF"
  | "w = 3" "0xE0 \<le> b" "b \<le> 0xEF" "\<And>c. second_ok b c \<longleftrightarrow> mn \<le> c \<and> c \<le> mx" "mn \<le> mx"
  | "w = 4" "0xF0 \<le> b" "b \<le> 0xF4" "\<And>c. second_ok b c \<longleftrightarrow> mn \<le> c \<and> c \<le> mx" "mn \<le> mx"
proof -
  consider "0xC2 \<le> b \<and> b \<le> 0xDF" | "0xE0 \<le> b \<and> b \<le> 0xEF" | "0xF0 \<le> b \<and> b \<le> 0xF4"
    using assms by (auto simp: utf8Lead_def split: if_splits)
  then show ?thesis
  proof cases
    case 1
    with assms that(1) show ?thesis by (auto simp: utf8Lead_def)
  next
    case 2
    then have "w = 3 \<and> (\<forall>c. second_ok b c \<longleftrightarrow> mn \<le> c \<and> c \<le> mx) \<and> mn \<le> mx"
      using assms by (auto simp: utf8Lead_def second_ok_def split: if_splits)
    with 2 that(2) show ?thesis by blast
  next
    case 3
    then have "w = 4 \<and> (\<forall>c. second_ok b c \<longleftrightarrow> mn \<le> c \<and> c \<le> mx) \<and> mn \<le> mx"
      using assms by (auto simp: utf8Lead_def second_ok_def split: if_splits)
    with 3 that(3) show ?thesis by blast
  qed
qed

lemma utf8Lead_None: "utf8Lead b = None \<Longrightarrow> 0x80 \<le> b \<Longrightarrow> utf8_dec (b # bs) = None"
  by (auto simp: utf8Lead_def split: if_splits)

declare utf8_dec.simps(2) [simp del]

text \<open>One multi-byte sequence: its continuation bytes are all there, or one is out of range, or
  the input ends among them.\<close>

definition seq_verdict :: "nat \<Rightarrow> nat list \<Rightarrow> nat list \<Rightarrow> string option \<Rightarrow> bool" where
  "seq_verdict b bs r v \<longleftrightarrow>
     (case v of
        None \<Rightarrow> \<forall>ext. utf8_dec ((b # bs) @ ext) \<noteq> None \<longleftrightarrow> utf8_dec (r @ ext) \<noteq> None
      | Some e \<Rightarrow> (e = ''invalid utf-8'' \<and> (\<forall>ext. utf8_dec ((b # bs) @ ext) = None)) \<or>
          (e = ''incomplete utf-8 byte sequence'' \<and> (\<exists>ext. utf8_dec ((b # bs) @ ext) \<noteq> None)))"

lemma seq_verdict_incomplete:
  "utf8_dec ((b # bs) @ ext) \<noteq> None \<Longrightarrow> seq_verdict b bs r (Some ''incomplete utf-8 byte sequence'')"
  unfolding seq_verdict_def by auto

lemma seq_verdict_invalid:
  "(\<And>ext. utf8_dec ((b # bs) @ ext) = None) \<Longrightarrow> seq_verdict b bs r (Some ''invalid utf-8'')"
  unfolding seq_verdict_def by simp

lemma seq_verdict_ok:
  "(\<And>ext. utf8_dec ((b # bs) @ ext) \<noteq> None \<longleftrightarrow> utf8_dec (r @ ext) \<noteq> None) \<Longrightarrow> seq_verdict b bs r None"
  unfolding seq_verdict_def by simp

lemma cont_range: "cont c \<longleftrightarrow> \<not> (c < 0x80 \<or> c > 0xBF)"
  by (auto simp: cont_def)

lemma cont_first [simp]: "cont 0x80"
  by (simp add: cont_def)

lemma seq2: "0xC2 \<le> b \<Longrightarrow> b \<le> 0xDF \<Longrightarrow>
  utf8_dec (b # c # r) = (if cont c then map_option (Cons ((b - 0xC0) * 64 + (c - 0x80))) (utf8_dec r) else None)"
  by (simp add: utf8_dec.simps(2))

lemma seq3: "0xE0 \<le> b \<Longrightarrow> b \<le> 0xEF \<Longrightarrow>
  utf8_dec (b # c # d # r) = (if second_ok b c \<and> cont d
     then map_option (Cons ((b - 0xE0) * 4096 + (c - 0x80) * 64 + (d - 0x80))) (utf8_dec r) else None)"
  by (simp add: utf8_dec.simps(2))

lemma seq4: "0xF0 \<le> b \<Longrightarrow> b \<le> 0xF4 \<Longrightarrow>
  utf8_dec (b # c # d # e # r) = (if second_ok b c \<and> cont d \<and> cont e
     then map_option (Cons ((b - 0xF0) * 262144 + (c - 0x80) * 4096 + (d - 0x80) * 64 + (e - 0x80))) (utf8_dec r)
     else None)"
  by (simp add: utf8_dec.simps(2))

lemma seq_short:
  "0xE0 \<le> b \<Longrightarrow> b \<le> 0xEF \<Longrightarrow> \<not> second_ok b c \<Longrightarrow> utf8_dec (b # c # r) = None"
  "0xF0 \<le> b \<Longrightarrow> b \<le> 0xF4 \<Longrightarrow> \<not> second_ok b c \<Longrightarrow> utf8_dec (b # c # r) = None"
  "0xF0 \<le> b \<Longrightarrow> b \<le> 0xF4 \<Longrightarrow> \<not> cont d \<Longrightarrow> utf8_dec (b # c # d # r) = None"
  by (auto simp: utf8_dec.simps(2) split: list.split)

lemma seq_verdict_2:
  assumes "0xC2 \<le> b" "b \<le> 0xDF"
  shows "seq_verdict b bs (drop 1 bs) (utf8ContinuationError 1 0x80 0xBF bs)"
proof (cases bs)
  case Nil
  then show ?thesis using seq_verdict_incomplete [of b "[]" "[0x80]"] seq2 [OF assms, of "0x80" "[]"] by simp
next
  case (Cons c r)
  show ?thesis
    using Cons seq2 [OF assms, of c] seq_verdict_invalid [of b bs] seq_verdict_ok [of b bs r]
    by (auto simp: cont_range)
qed

lemma seq_verdict_3:
  assumes "0xE0 \<le> b" "b \<le> 0xEF" "\<And>c. second_ok b c \<longleftrightarrow> mn \<le> c \<and> c \<le> mx" "mn \<le> mx"
  shows "seq_verdict b bs (drop 2 bs) (utf8ContinuationError 2 mn mx bs)"
proof (cases bs)
  case Nil
  then show ?thesis using seq_verdict_incomplete [of b "[]" "[mn, 0x80]"] seq3 [OF assms(1,2), of mn "0x80" "[]"] assms(3,4)
    by (simp add: numeral_2_eq_2)
next
  case (Cons c r)
  have so: "second_ok b c \<longleftrightarrow> \<not> (c < mn \<or> mx < c)" unfolding assms(3) by (simp add: not_less)
  show ?thesis
  proof (cases "second_ok b c")
    case False
    then show ?thesis using Cons so seq_verdict_invalid [of b bs] seq_short(1) [OF assms(1,2) False]
      by (simp add: numeral_2_eq_2)
  next
    case c: True
    show ?thesis
    proof (cases r)
      case Nil
      then show ?thesis using Cons so c seq_verdict_incomplete [of b bs "[0x80]"] seq3 [OF assms(1,2), of c "0x80" "[]"]
        by (simp add: numeral_2_eq_2)
    next
      case (Cons d r')
      note bs = \<open>bs = c # r\<close> Cons
      show ?thesis
      proof (cases "cont d")
        case True
        have "seq_verdict b bs r' None"
          by (rule seq_verdict_ok) (simp add: bs seq3 [OF assms(1,2)] c True)
        then show ?thesis using bs so c True [unfolded cont_range] by (simp add: numeral_2_eq_2)
      next
        case False
        have "seq_verdict b bs r' (Some ''invalid utf-8'')"
          by (rule seq_verdict_invalid) (simp add: bs seq3 [OF assms(1,2)] False)
        then show ?thesis using bs so c False [unfolded cont_range] by (simp add: numeral_2_eq_2)
      qed
    qed
  qed
qed

lemma seq_verdict_4:
  assumes "0xF0 \<le> b" "b \<le> 0xF4" "\<And>c. second_ok b c \<longleftrightarrow> mn \<le> c \<and> c \<le> mx" "mn \<le> mx"
  shows "seq_verdict b bs (drop 3 bs) (utf8ContinuationError 3 mn mx bs)"
proof (cases bs)
  case Nil
  then show ?thesis
    using seq_verdict_incomplete [of b "[]" "[mn, 0x80, 0x80]"] seq4 [OF assms(1,2), of mn "0x80" "0x80" "[]"] assms(3,4)
    by (simp add: numeral_3_eq_3)
next
  case (Cons c r)
  have so: "second_ok b c \<longleftrightarrow> \<not> (c < mn \<or> mx < c)" unfolding assms(3) by (simp add: not_less)
  show ?thesis
  proof (cases "second_ok b c")
    case False
    then show ?thesis using Cons so seq_verdict_invalid [of b bs] seq_short(2) [OF assms(1,2) False]
      by (simp add: numeral_3_eq_3)
  next
    case c: True
    show ?thesis
    proof (cases r)
      case Nil
      then show ?thesis
        using Cons so c seq_verdict_incomplete [of b bs "[0x80, 0x80]"] seq4 [OF assms(1,2), of c "0x80" "0x80" "[]"]
        by (simp add: numeral_3_eq_3)
    next
      case (Cons d r')
      note bs = \<open>bs = c # r\<close> Cons
      show ?thesis
      proof (cases "cont d")
        case False
        then show ?thesis using bs so c seq_verdict_invalid [of b bs] seq_short(3) [OF assms(1,2) False]
          by (simp add: cont_range numeral_3_eq_3)
      next
        case d: True
        show ?thesis
        proof (cases r')
          case Nil
          then show ?thesis
            using bs so c d seq_verdict_incomplete [of b bs "[0x80]"] seq4 [OF assms(1,2), of c d "0x80" "[]"]
            by (simp add: numeral_3_eq_3 cont_range [of d])
        next
          case (Cons e r'')
          show ?thesis
          proof (cases "cont e")
            case True
            have "seq_verdict b bs r'' None"
              by (rule seq_verdict_ok) (simp add: bs Cons seq4 [OF assms(1,2)] c d True)
            then show ?thesis using bs Cons so c d [unfolded cont_range] True [unfolded cont_range]
              by (simp add: numeral_3_eq_3)
          next
            case False
            have "seq_verdict b bs r'' (Some ''invalid utf-8'')"
              by (rule seq_verdict_invalid) (simp add: bs Cons seq4 [OF assms(1,2)] False)
            then show ?thesis using bs Cons so c d [unfolded cont_range] False [unfolded cont_range]
              by (simp add: numeral_3_eq_3)
          qed
        qed
      qed
    qed
  qed
qed

lemma utf8Lead_verdict:
  assumes "utf8Lead b = Some (w, mn, mx)"
  shows "seq_verdict b bs (drop (w - 1) bs) (utf8ContinuationError (w - 1) mn mx bs)"
  using assms
proof (cases rule: utf8Lead_cases)
  case 1
  then show ?thesis using seq_verdict_2 by simp
next
  case 2
  then show ?thesis using seq_verdict_3 [OF 2(2-5)] by simp
next
  case 3
  then show ?thesis using seq_verdict_4 [OF 3(2-5)] by simp
qed

text \<open>The diagnostic of a failed UTF-8 lift tells truncation from corruption: on bytes the
  decoder rejects it reports an incomplete sequence exactly when some continuation of the
  input would decode.\<close>

theorem utf8ErrorMessage_classifies:
  assumes "utf8_dec bs = None"
  shows "utf8ErrorMessage bs = ''incomplete utf-8 byte sequence'' \<longleftrightarrow> (\<exists>ext. utf8_dec (bs @ ext) \<noteq> None)"
  using assms
proof (induction bs rule: utf8ErrorMessage.induct)
  case 1
  then show ?case by simp
next
  case (2 b bs)
  show ?case
  proof (cases "b < 0x80")
    case True
    then have "utf8_dec ((b # bs) @ ext) = map_option (Cons b) (utf8_dec (bs @ ext))" for ext
      by (simp add: utf8_dec.simps(2))
    from this [of "[]"] this True 2 show ?thesis by simp
  next
    case False
    show ?thesis
    proof (cases "utf8Lead b")
      case None
      have "utf8_dec ((b # bs) @ ext) = None" for ext using utf8Lead_None [OF None] False by simp
      then show ?thesis using None False by simp
    next
      case (Some l)
      obtain w mn mx where l: "utf8Lead b = Some (w, mn, mx)" using Some by (cases l) auto
      note V = utf8Lead_verdict [OF l, of bs]
      show ?thesis
      proof (cases "utf8ContinuationError (w - 1) mn mx bs")
        case None
        have d: "utf8_dec ((b # bs) @ ext) \<noteq> None \<longleftrightarrow> utf8_dec (drop (w - 1) bs @ ext) \<noteq> None" for ext
          using V None by (simp add: seq_verdict_def)
        have "utf8_dec (drop (w - 1) bs) = None" using d [of "[]"] "2.prems" by simp
        from "2.IH"(2) [OF False l refl refl None this] show ?thesis
          unfolding d using l None False by simp
      next
        case (Some e)
        then show ?thesis using V l False by (auto simp: seq_verdict_def)
      qed
    qed
  qed
qed

lemma utf8ErrorMessage_classifies_witness:
  "utf8ErrorMessage [0x41, 0xE2, 0x82] = ''incomplete utf-8 byte sequence'' \<longleftrightarrow>
     (\<exists>ext. utf8_dec ([0x41, 0xE2, 0x82] @ ext) \<noteq> None)"
  by (rule utf8ErrorMessage_classifies) (simp add: utf8_dec.simps(2))

end
