(* ===== verification/Cabi_Load_Store.thy ===== *)
theory Cabi_Load_Store
  imports Cabi_Handles Cabi_Strings
begin

text \<open>
  Loading and storing of values in linear memory (\<open>runtime/src/cabi/load.ts\<close>,
  \<open>store.ts\<close>) and the bulk copies of flat element types (\<open>bulk_lists.ts\<close>). The helpers
  for lists, records and variants take the recursive \<open>load\<close> or \<open>store\<close> as their first
  argument. \<open>load\<close> dispatches on \<open>despecialize t\<close>, which is the type the layout carries
  (\<open>layoutOf_d\<close>).
\<close>

section \<open>Bulk copies of flat element types\<close>

datatype bulk_kind = BulkInt nat bool | BulkBig bool | BulkFloat nat

fun bulk_ctor :: "prim \<Rightarrow> bulk_kind option" where
  "bulk_ctor PS8 = Some (BulkInt 1 True)"
| "bulk_ctor PU16 = Some (BulkInt 2 False)"
| "bulk_ctor PS16 = Some (BulkInt 2 True)"
| "bulk_ctor PU32 = Some (BulkInt 4 False)"
| "bulk_ctor PS32 = Some (BulkInt 4 True)"
| "bulk_ctor PU64 = Some (BulkBig False)"
| "bulk_ctor PS64 = Some (BulkBig True)"
| "bulk_ctor PF32 = Some (BulkFloat 4)"
| "bulk_ctor PF64 = Some (BulkFloat 8)"
| "bulk_ctor _ = None"

fun bytes_per_element :: "bulk_kind \<Rightarrow> nat" where
  "bytes_per_element (BulkInt n sg) = n"
| "bytes_per_element (BulkBig sg) = 8"
| "bytes_per_element (BulkFloat n) = n"

text \<open>\<open>viewOf\<close> declines on a big-endian platform and on a misaligned backing buffer; the
  constructor of the view throws past the end of the buffer.\<close>

definition viewOf :: "'x cst_scheme cx \<Rightarrow> nat \<Rightarrow> nat \<Rightarrow> nat \<Rightarrow> ('x, bool) cm" where
  "viewOf cx bpe ptr len =
     (if \<not> cx_little_endian cx then ret False
      else if (cx_byte_offset cx + ptr) mod bpe \<noteq> 0 then ret False
      else bnd memLength (\<lambda>n.
        seqm (if ptr + len * bpe > n then throw (TypeError ''Invalid typed array length'') else ret ())
        (ret True)))"

definition canonicalNaN :: "64 word \<Rightarrow> 64 word" where
  "canonicalNaN v = (if isNaN64 v then CANONICAL_FLOAT64_NAN else v)"

fun view_get :: "bulk_kind \<Rightarrow> 8 word list \<Rightarrow> cval" where
  "view_get (BulkInt n sg) bs = VNum (if sg then le_int bs else int (le_nat bs))"
| "view_get (BulkBig sg) bs = VBig (if sg then le_int bs else int (le_nat bs))"
| "view_get (BulkFloat n) bs =
     VFlt (canonicalNaN (if n = 4 then coreF32ReinterpretI32 (of_nat (le_nat bs)) else of_nat (le_nat bs)))"

definition tryLoadNumericList :: "'x cst_scheme cx \<Rightarrow> nat \<Rightarrow> nat \<Rightarrow> valtype \<Rightarrow> ('x, cval list option) cm" where
  "tryLoadNumericList cx ptr len kind =
     (case kind of
        Prim PBool \<Rightarrow> bnd (bytesOf ptr len) (\<lambda>bytes. ret (Some (map (\<lambda>b. VBool (b \<noteq> 0)) bytes)))
      | Prim p \<Rightarrow>
          (case bulk_ctor p of
             None \<Rightarrow> ret None
           | Some k \<Rightarrow>
               bnd (viewOf cx (bytes_per_element k) ptr len) (\<lambda>view.
               if \<not> view then ret None
               else gets (\<lambda>s. Some (map (\<lambda>i. view_get k
                      (subarray (c_mem s) (ptr + i * bytes_per_element k) (bytes_per_element k))) [0..<len]))))
      | _ \<Rightarrow> ret None)"

text \<open>Stores through a typed array: integers wrap, numbers narrow, a NaN is canonical.\<close>

definition view_set :: "bulk_kind \<Rightarrow> nat \<Rightarrow> cval \<Rightarrow> ('x, unit) cm" where
  "view_set k p x =
     (case k of
        BulkInt n sg \<Rightarrow>
          (case num_int x of None \<Rightarrow> throw (AssertionError ''int store'') | Some i \<Rightarrow> set_int p n i)
      | BulkBig sg \<Rightarrow>
          (case x of VBig i \<Rightarrow> set_int p 8 i | _ \<Rightarrow> throw (AssertionError ''64-bit store requires bigint''))
      | BulkFloat n \<Rightarrow>
          bnd (of_res (to_f64 x)) (\<lambda>w.
          if n = 4 then set_int p 4 (uint (encodeFloatAsI32 w)) else set_int p 8 (uint (encodeFloatAsI64 w))))"

definition tryStoreNumericList :: "'x cst_scheme cx \<Rightarrow> cval list \<Rightarrow> nat \<Rightarrow> valtype \<Rightarrow> ('x, bool) cm" where
  "tryStoreNumericList cx v ptr kind =
     (let n = length v in
      case kind of
        Prim PBool \<Rightarrow>
          bnd (bytesOf ptr n) (\<lambda>_.
          seqm (iterm (\<lambda>(i, x). set_byte (ptr + i) (if truthy x then 1 else 0)) (enumerate 0 v))
          (ret True))
      | Prim p \<Rightarrow>
          (case bulk_ctor p of
             None \<Rightarrow> ret False
           | Some k \<Rightarrow>
               bnd (viewOf cx (bytes_per_element k) ptr n) (\<lambda>view.
               if \<not> view then ret False
               else seqm (iterm (\<lambda>(i, x). view_set k (ptr + i * bytes_per_element k) x) (enumerate 0 v))
                    (ret True)))
      | _ \<Rightarrow> ret False)"

section \<open>Loading\<close>

definition MAX_LIST_BYTE_LENGTH :: nat where "MAX_LIST_BYTE_LENGTH = 2 ^ 28 - 1"

definition convertIntToBool :: "nat \<Rightarrow> cval" where
  "convertIntToBool i = VBool (i \<noteq> 0)"

fun unpackFlags :: "nat \<Rightarrow> string list \<Rightarrow> (string \<times> cval) list" where
  "unpackFlags v [] = []"
| "unpackFlags v (l # ls) = (l, VBool (odd v)) # unpackFlags (v div 2) ls"

definition unpackFlagsFromInt :: "nat \<Rightarrow> string list \<Rightarrow> cval" where
  "unpackFlagsFromInt i labels = obj_of (unpackFlags i labels)"

definition loadListFromValidRange ::
    "(nat \<Rightarrow> valtype \<Rightarrow> ('x, cval) cm) \<Rightarrow> 'x cst_scheme cx \<Rightarrow> nat \<Rightarrow> nat \<Rightarrow> valtype \<Rightarrow> ('x, cval) cm" where
  "loadListFromValidRange ld cx ptr len elemType =
     bnd (requireMem cx) (\<lambda>pt.
     bnd (of_res (layoutOf elemType pt)) (\<lambda>L.
     let kind = despecialize elemType in
     if kind = Prim PU8 then bnd (bytesOf ptr len) (\<lambda>bs. ret (VBytes bs))
     else
       bnd (tryLoadNumericList cx ptr len kind) (\<lambda>bulk.
       case bulk of
         Some vs \<Rightarrow> ret (VArr vs)
       | None \<Rightarrow> bnd (mapm (\<lambda>i. ld (ptr + i * l_size L) elemType) [0..<len]) (\<lambda>vs. ret (VArr vs)))))"

definition loadListFromRange ::
    "(nat \<Rightarrow> valtype \<Rightarrow> ('x, cval) cm) \<Rightarrow> 'x cst_scheme cx \<Rightarrow> nat \<Rightarrow> nat \<Rightarrow> valtype \<Rightarrow> ('x, cval) cm" where
  "loadListFromRange ld cx ptr len elemType =
     bnd (requireMem cx) (\<lambda>pt.
     bnd (of_res (layoutOf elemType pt)) (\<lambda>L.
     let byteLength = len * l_size L in
     seqm (trapIf (byteLength > MAX_LIST_BYTE_LENGTH) ''list too long'')
     (seqm (trapIf (ptr mod l_align L \<noteq> 0) ''misaligned list pointer'')
     (bnd memLength (\<lambda>n.
      seqm (trapIf (ptr + byteLength > n) ''list out of bounds'')
      (loadListFromValidRange ld cx ptr len elemType))))))"

definition loadList ::
    "(nat \<Rightarrow> valtype \<Rightarrow> ('x, cval) cm) \<Rightarrow> 'x cst_scheme cx \<Rightarrow> nat \<Rightarrow> valtype \<Rightarrow> nat option \<Rightarrow> ('x, cval) cm" where
  "loadList ld cx ptr elemType maybeLength =
     (case maybeLength of
        Some n \<Rightarrow> loadListFromValidRange ld cx ptr n elemType
      | None \<Rightarrow>
          bnd (requireMem cx) (\<lambda>pt.
          bnd (loadPtr pt ptr) (\<lambda>begin.
          bnd (loadPtr pt (ptr + ptrSize pt)) (\<lambda>len.
          loadListFromRange ld cx begin len elemType))))"

definition loadRecord ::
    "(nat \<Rightarrow> valtype \<Rightarrow> ('x, cval) cm) \<Rightarrow> nat \<Rightarrow> field_type list \<Rightarrow> nat list \<Rightarrow> ('x, cval) cm" where
  "loadRecord ld ptr flds offsets =
     bnd (mapm (\<lambda>(f, off). bnd (ld (ptr + off) (snd f)) (\<lambda>v. ret (fst f, v))) (zip flds offsets)) (\<lambda>kvs.
     ret (obj_of kvs))"

definition disc_message :: "nat \<Rightarrow> nat \<Rightarrow> string" where
  "disc_message i n = ''discriminant '' @ string_of_nat i @ '' out of range [0..'' @ string_of_nat n @ '')''"

definition loadVariant ::
    "(nat \<Rightarrow> valtype \<Rightarrow> ('x, cval) cm) \<Rightarrow> nat \<Rightarrow> case_type list \<Rightarrow> nat \<Rightarrow> nat \<Rightarrow> ('x, cval) cm" where
  "loadVariant ld ptr cases discSize payloadOffset =
     bnd (loadIntU ptr discSize) (\<lambda>caseIndex.
     if caseIndex \<ge> length cases then throw (Trap (disc_message caseIndex (length cases)))
     else
       let c = cases ! caseIndex in
       (case snd c of
          None \<Rightarrow> ret (VCase (fst c) VNull)
        | Some u \<Rightarrow> bnd (ld (ptr + payloadOffset) u) (\<lambda>v. ret (VCase (fst c) v))))"

definition loadFlags :: "nat \<Rightarrow> string list \<Rightarrow> ('x, cval) cm" where
  "loadFlags ptr labels =
     bnd (of_res (elemSizeFlags labels)) (\<lambda>n.
     bnd (loadIntU ptr n) (\<lambda>i.
     ret (unpackFlagsFromInt i labels)))"

fun loadPrim :: "'x cst_scheme cx \<Rightarrow> nat \<Rightarrow> prim \<Rightarrow> ('x, cval) cm" where
  "loadPrim cx ptr PBool = bnd (loadIntU ptr 1) (\<lambda>i. ret (convertIntToBool i))"
| "loadPrim cx ptr PU8 = bnd (loadIntU ptr 1) (\<lambda>i. ret (VNum (int i)))"
| "loadPrim cx ptr PU16 = bnd (loadIntU ptr 2) (\<lambda>i. ret (VNum (int i)))"
| "loadPrim cx ptr PU32 = bnd (loadIntU ptr 4) (\<lambda>i. ret (VNum (int i)))"
| "loadPrim cx ptr PU64 = bnd (loadIntU ptr 8) (\<lambda>i. ret (VBig (int i)))"
| "loadPrim cx ptr PS8 = bnd (loadIntS ptr 1) (\<lambda>i. ret (VNum i))"
| "loadPrim cx ptr PS16 = bnd (loadIntS ptr 2) (\<lambda>i. ret (VNum i))"
| "loadPrim cx ptr PS32 = bnd (loadIntS ptr 4) (\<lambda>i. ret (VNum i))"
| "loadPrim cx ptr PS64 = bnd (loadIntS ptr 8) (\<lambda>i. ret (VBig i))"
| "loadPrim cx ptr PF32 = bnd (loadIntU ptr 4) (\<lambda>i. ret (VFlt (decodeI32AsFloat (of_nat i))))"
| "loadPrim cx ptr PF64 = bnd (loadIntU ptr 8) (\<lambda>i. ret (VFlt (decodeI64AsFloat (of_nat i))))"
| "loadPrim cx ptr PChar = bnd (loadIntU ptr 4) convertI32ToChar"
| "loadPrim cx ptr PString = loadString cx ptr"

lemma loadListFromValidRange_cong [fundef_cong]:
  "elemType = elemType' \<Longrightarrow> (\<And>p. ld p elemType' = ld' p elemType') \<Longrightarrow>
   loadListFromValidRange ld cx ptr len elemType = loadListFromValidRange ld' cx ptr len elemType'"
  by (simp add: loadListFromValidRange_def Let_def cong: option.case_cong if_cong)

lemma loadListFromRange_cong [fundef_cong]:
  "elemType = elemType' \<Longrightarrow> (\<And>p. ld p elemType' = ld' p elemType') \<Longrightarrow>
   loadListFromRange ld cx ptr len elemType = loadListFromRange ld' cx ptr len elemType'"
  using loadListFromValidRange_cong [of elemType elemType' ld ld'] by (simp add: loadListFromRange_def)

lemma loadList_cong [fundef_cong]:
  "elemType = elemType' \<Longrightarrow> (\<And>p. ld p elemType' = ld' p elemType') \<Longrightarrow>
   loadList ld cx ptr elemType n = loadList ld' cx ptr elemType' n"
  using loadListFromValidRange_cong [of elemType elemType' ld ld'] loadListFromRange_cong [of elemType elemType' ld ld']
  by (simp add: loadList_def cong: option.case_cong)

lemma loadRecord_cong [fundef_cong]:
  "flds = flds' \<Longrightarrow> (\<And>f p. f \<in> set flds' \<Longrightarrow> ld p (snd f) = ld' p (snd f)) \<Longrightarrow>
   loadRecord ld ptr flds offs = loadRecord ld' ptr flds' offs"
  unfolding loadRecord_def
  by (intro arg_cong2 [where f = bnd] mapm_cong) (auto dest: set_zip_leftD)

lemma loadVariant_cong [fundef_cong]:
  "cases = cases' \<Longrightarrow> (\<And>c u p. c \<in> set cases' \<Longrightarrow> snd c = Some u \<Longrightarrow> ld p u = ld' p u) \<Longrightarrow>
   loadVariant ld ptr cases d off = loadVariant ld' ptr cases' d off"
  unfolding loadVariant_def Let_def
  by (intro bnd_cong) (auto simp: not_le split: option.split intro!: bnd_cong, metis nth_mem prod.collapse)

function load :: "'x cst_scheme cx \<Rightarrow> nat \<Rightarrow> valtype \<Rightarrow> ('x, cval) cm" where
  "load cx ptr t =
     bnd (requireMem cx) (\<lambda>pt.
     bnd (of_res (layoutOf t pt)) (\<lambda>L.
     seqm (assertm (ptr mod l_align L = 0) ''load misaligned'')
     (bnd memLength (\<lambda>len.
      seqm (assertm (ptr + l_size L \<le> len) ''load OOB'')
      (case despecialize t of
         Prim p \<Rightarrow> loadPrim cx ptr p
       | ErrorContextT \<Rightarrow> bnd (loadIntU ptr 4) (cx_liftErrorContext cx)
       | ListT e n \<Rightarrow> loadList (\<lambda>p u. load cx p u) cx ptr e n
       | RecordT fs \<Rightarrow> loadRecord (\<lambda>p u. load cx p u) ptr fs (the (l_offsets L))
       | VariantT cs \<Rightarrow> loadVariant (\<lambda>p u. load cx p u) ptr cs (l_disc L) (l_payload L)
       | FlagsT ls \<Rightarrow> loadFlags ptr ls
       | OwnT rt \<Rightarrow> bnd (loadIntU ptr 4) (\<lambda>i. bnd (liftOwn cx i rt) (\<lambda>r. ret (VNum r)))
       | BorrowT rt \<Rightarrow> bnd (loadIntU ptr 4) (\<lambda>i. bnd (liftBorrow cx i rt) (\<lambda>r. ret (VNum r)))
       | StreamT e \<Rightarrow> bnd (loadIntU ptr 4) (\<lambda>i. cx_liftStream cx i e)
       | FutureT e \<Rightarrow> bnd (loadIntU ptr 4) (\<lambda>i. cx_liftFuture cx i e)
       | _ \<Rightarrow> throw (TypeError ''unreachable''))))))"
  by pat_completeness auto

termination
  by (relation "measure (\<lambda>(cx, p, t). tsize t)")
    (auto intro: tsize_of_list tsize_of_record [where f = "(a, b)" for a b, simplified]
      tsize_of_variant [where c = "(a, Some b)" for a b, simplified])

declare load.simps [simp del]

section \<open>Storing\<close>

definition as_num :: "cval \<Rightarrow> int res" where
  "as_num v = (case num_int v of Some i \<Rightarrow> Inr i | None \<Rightarrow> Inl (TypeError ''not an integer''))"

text \<open>The element loop of \<open>storeListIntoValidRange\<close> for a \<open>list<u8>\<close> given as a plain array.\<close>

definition store_u8 :: "nat \<Rightarrow> cval \<Rightarrow> ('x, unit) cm" where
  "store_u8 p x = (case num_int x of None \<Rightarrow> throw (AssertionError ''int store'') | Some i \<Rightarrow> set_byte p (of_int i))"

definition storeListIntoValidRange ::
    "(cval \<Rightarrow> valtype \<Rightarrow> nat \<Rightarrow> ('x, unit) cm) \<Rightarrow> 'x cst_scheme cx \<Rightarrow> cval \<Rightarrow> nat \<Rightarrow> valtype \<Rightarrow> ('x, unit) cm" where
  "storeListIntoValidRange st cx v ptr elemType =
     bnd (requireMem cx) (\<lambda>pt.
     bnd (of_res (layoutOf elemType pt)) (\<lambda>L.
     bnd (of_res (elements v)) (\<lambda>vs.
     let kind = despecialize elemType in
     if kind = Prim PU8 then
       bnd (bytesOf ptr (length vs)) (\<lambda>_.
       case v of
         VBytes bs \<Rightarrow> put_bytes ptr bs
       | _ \<Rightarrow> iterm (\<lambda>(i, x). store_u8 (ptr + i) x) (enumerate 0 vs))
     else
       bnd (tryStoreNumericList cx vs ptr kind) (\<lambda>done.
       if done then ret ()
       else iterm (\<lambda>(i, x). st x elemType (ptr + i * l_size L)) (enumerate 0 vs)))))"

definition storeListIntoRange ::
    "(cval \<Rightarrow> valtype \<Rightarrow> nat \<Rightarrow> ('x, unit) cm) \<Rightarrow> 'x cst_scheme cx \<Rightarrow> cval \<Rightarrow> valtype \<Rightarrow> ('x, nat \<times> nat) cm" where
  "storeListIntoRange st cx v elemType =
     bnd (requireMem cx) (\<lambda>pt.
     bnd (of_res (layoutOf elemType pt)) (\<lambda>L.
     bnd (of_res (elements v)) (\<lambda>vs.
     let byteLength = length vs * l_size L in
     seqm (assertm (byteLength \<le> REALLOC_I32_MAX) ''internal assertion failed'')
     (bnd (allocate cx (l_align L) byteLength) (\<lambda>ptr.
      seqm (check_aligned ptr (l_align L))
      (bnd memLength (\<lambda>len.
       seqm (trapIf (ptr + byteLength > len) REALLOC_OOB)
       (seqm (storeListIntoValidRange st cx v ptr elemType)
       (ret (ptr, length vs))))))))))"

definition storeList ::
    "(cval \<Rightarrow> valtype \<Rightarrow> nat \<Rightarrow> ('x, unit) cm) \<Rightarrow> 'x cst_scheme cx \<Rightarrow> cval \<Rightarrow> nat \<Rightarrow> valtype \<Rightarrow>
     nat option \<Rightarrow> ('x, unit) cm" where
  "storeList st cx v ptr elemType maybeLength =
     (case maybeLength of
        Some n \<Rightarrow>
          bnd (of_res (elements v)) (\<lambda>vs.
          seqm (assertm (n = length vs) ''fixed-length list length mismatch'')
          (storeListIntoValidRange st cx v ptr elemType))
      | None \<Rightarrow>
          bnd (requireMem cx) (\<lambda>pt.
          bnd (storeListIntoRange st cx v elemType) (\<lambda>(begin, len).
          seqm (storePtr pt begin ptr)
          (storePtr pt len (ptr + ptrSize pt)))))"

definition storeRecord ::
    "(cval \<Rightarrow> valtype \<Rightarrow> nat \<Rightarrow> ('x, unit) cm) \<Rightarrow> cval \<Rightarrow> nat \<Rightarrow> field_type list \<Rightarrow> nat list \<Rightarrow> ('x, unit) cm" where
  "storeRecord st v ptr flds offsets =
     iterm (\<lambda>(f, off). bnd (of_res (obj_get v (fst f))) (\<lambda>x. st x (snd f) (ptr + off))) (zip flds offsets)"

definition matchCase :: "cval \<Rightarrow> case_type list \<Rightarrow> (nat \<times> cval) res" where
  "matchCase v cases =
     (case v of
        VCase label x \<Rightarrow>
          (case caseIndexOf cases label of
             Some i \<Rightarrow> if i \<ge> 0 then Inr (nat i, x)
               else Inl (AssertionError (''variant case '' @ label @ '' not found''))
           | None \<Rightarrow> Inl (AssertionError (''variant case '' @ label @ '' not found'')))
      | VNull \<Rightarrow> Inl (TypeError ''cannot read properties of null'')
      | VUndef \<Rightarrow> Inl (TypeError ''cannot read properties of undefined'')
      | _ \<Rightarrow> Inl (AssertionError ''variant case undefined not found''))"

definition storeVariant ::
    "(cval \<Rightarrow> valtype \<Rightarrow> nat \<Rightarrow> ('x, unit) cm) \<Rightarrow> cval \<Rightarrow> nat \<Rightarrow> case_type list \<Rightarrow> nat \<Rightarrow> nat \<Rightarrow> ('x, unit) cm" where
  "storeVariant st v ptr cases discSize payloadOffset =
     bnd (of_res (matchCase v cases)) (\<lambda>(caseIndex, caseValue).
     seqm (storeInt (VNum (int caseIndex)) ptr discSize False)
     (if caseIndex < length cases then
        (case snd (cases ! caseIndex) of
           None \<Rightarrow> ret ()
         | Some u \<Rightarrow> st caseValue u (ptr + payloadOffset))
      else ret ()))"

text \<open>\<open>(i | (bit << shift)) >>> 0\<close> on 32-bit integers.\<close>

fun packFlags :: "cval \<Rightarrow> nat \<Rightarrow> nat \<Rightarrow> string list \<Rightarrow> nat res" where
  "packFlags v i shift [] = Inr i"
| "packFlags v i shift (l # ls) =
     rbind (obj_get v l) (\<lambda>x.
     packFlags v (or i (if truthy x then 2 ^ (shift mod 32) else 0)) (shift + 1) ls)"

definition packFlagsIntoInt :: "cval \<Rightarrow> string list \<Rightarrow> nat res" where
  "packFlagsIntoInt v labels = packFlags v 0 0 labels"

definition storeFlags :: "cval \<Rightarrow> nat \<Rightarrow> string list \<Rightarrow> ('x, unit) cm" where
  "storeFlags v ptr labels =
     bnd (of_res (packFlagsIntoInt v labels)) (\<lambda>i.
     bnd (of_res (elemSizeFlags labels)) (\<lambda>n.
     storeInt (VNum (int i)) ptr n False))"

fun storePrim :: "'x cst_scheme cx \<Rightarrow> cval \<Rightarrow> prim \<Rightarrow> nat \<Rightarrow> ('x, unit) cm" where
  "storePrim cx v PBool ptr = storeInt (VNum (if truthy v then 1 else 0)) ptr 1 False"
| "storePrim cx v PU8 ptr = storeInt v ptr 1 False"
| "storePrim cx v PU16 ptr = storeInt v ptr 2 False"
| "storePrim cx v PU32 ptr = storeInt v ptr 4 False"
| "storePrim cx v PU64 ptr = storeInt v ptr 8 False"
| "storePrim cx v PS8 ptr = storeInt v ptr 1 True"
| "storePrim cx v PS16 ptr = storeInt v ptr 2 True"
| "storePrim cx v PS32 ptr = storeInt v ptr 4 True"
| "storePrim cx v PS64 ptr = storeInt v ptr 8 True"
| "storePrim cx v PF32 ptr =
     bnd (of_res (to_f64 v)) (\<lambda>w. storeInt (VNum (uint (encodeFloatAsI32 w))) ptr 4 False)"
| "storePrim cx v PF64 ptr =
     bnd (of_res (to_f64 v)) (\<lambda>w. storeInt (VBig (uint (encodeFloatAsI64 w))) ptr 8 False)"
| "storePrim cx v PChar ptr = bnd (charToI32 v) (\<lambda>i. storeInt (VNum (int i)) ptr 4 False)"
| "storePrim cx v PString ptr = storeString cx v ptr"

lemma storeListIntoValidRange_cong [fundef_cong]:
  "elemType = elemType' \<Longrightarrow> (\<And>x p. st x elemType' p = st' x elemType' p) \<Longrightarrow>
   storeListIntoValidRange st cx v ptr elemType = storeListIntoValidRange st' cx v ptr elemType'"
  by (simp add: storeListIntoValidRange_def Let_def cong: if_cong)

lemma storeListIntoRange_cong [fundef_cong]:
  "elemType = elemType' \<Longrightarrow> (\<And>x p. st x elemType' p = st' x elemType' p) \<Longrightarrow>
   storeListIntoRange st cx v elemType = storeListIntoRange st' cx v elemType'"
  using storeListIntoValidRange_cong [of elemType elemType' st st'] by (simp add: storeListIntoRange_def)

lemma storeList_cong [fundef_cong]:
  "elemType = elemType' \<Longrightarrow> (\<And>x p. st x elemType' p = st' x elemType' p) \<Longrightarrow>
   storeList st cx v ptr elemType n = storeList st' cx v ptr elemType' n"
  using storeListIntoValidRange_cong [of elemType elemType' st st'] storeListIntoRange_cong [of elemType elemType' st st']
  by (simp add: storeList_def cong: option.case_cong)

lemma storeRecord_cong [fundef_cong]:
  "flds = flds' \<Longrightarrow> (\<And>f x p. f \<in> set flds' \<Longrightarrow> st x (snd f) p = st' x (snd f) p) \<Longrightarrow>
   storeRecord st v ptr flds offs = storeRecord st' v ptr flds' offs"
  unfolding storeRecord_def by (intro iterm_cong) (auto dest: set_zip_leftD)

lemma storeVariant_cong [fundef_cong]:
  "cases = cases' \<Longrightarrow> (\<And>c u x p. c \<in> set cases' \<Longrightarrow> snd c = Some u \<Longrightarrow> st x u p = st' x u p) \<Longrightarrow>
   storeVariant st v ptr cases d off = storeVariant st' v ptr cases' d off"
  unfolding storeVariant_def
  by (intro bnd_cong) (auto split: option.split intro!: seqm_cong, metis nth_mem prod.collapse)

function store :: "'x cst_scheme cx \<Rightarrow> cval \<Rightarrow> valtype \<Rightarrow> nat \<Rightarrow> ('x, unit) cm" where
  "store cx v t ptr =
     bnd (requireMem cx) (\<lambda>pt.
     bnd (of_res (layoutOf t pt)) (\<lambda>L.
     seqm (assertm (ptr mod l_align L = 0) ''store misaligned'')
     (bnd memLength (\<lambda>len.
      seqm (assertm (ptr + l_size L \<le> len) ''store OOB'')
      (case despecialize t of
         Prim p \<Rightarrow> storePrim cx v p ptr
       | ErrorContextT \<Rightarrow> bnd (cx_lowerErrorContext cx v) (\<lambda>i. storeInt (VNum (int i)) ptr 4 False)
       | ListT e n \<Rightarrow> storeList (\<lambda>x u p. store cx x u p) cx v ptr e n
       | RecordT fs \<Rightarrow> storeRecord (\<lambda>x u p. store cx x u p) v ptr fs (the (l_offsets L))
       | VariantT cs \<Rightarrow> storeVariant (\<lambda>x u p. store cx x u p) v ptr cs (l_disc L) (l_payload L)
       | FlagsT ls \<Rightarrow> storeFlags v ptr ls
       | OwnT rt \<Rightarrow> bnd (of_res (as_num v)) (\<lambda>rep. bnd (lowerOwn cx rep rt) (\<lambda>i. storeInt (VNum i) ptr 4 False))
       | BorrowT rt \<Rightarrow> bnd (of_res (as_num v)) (\<lambda>rep. bnd (lowerBorrow cx rep rt) (\<lambda>i. storeInt (VNum i) ptr 4 False))
       | StreamT e \<Rightarrow> bnd (cx_lowerStream cx v e) (\<lambda>i. storeInt (VNum (int i)) ptr 4 False)
       | FutureT e \<Rightarrow> bnd (cx_lowerFuture cx v e) (\<lambda>i. storeInt (VNum (int i)) ptr 4 False)
       | _ \<Rightarrow> throw (TypeError ''unreachable''))))))"
  by pat_completeness auto

termination
  by (relation "measure (\<lambda>(cx, v, t, p). tsize t)")
    (auto intro: tsize_of_list tsize_of_record [where f = "(a, b)" for a b, simplified]
      tsize_of_variant [where c = "(a, Some b)" for a b, simplified])

declare store.simps [simp del]

end
