(* ===== verification/Cabi_Roundtrip.thy ===== *)
theory Cabi_Roundtrip
  imports Cabi_Load_Store
begin

text \<open>
  What is stored is what is loaded: for every type without strings, handles and
  variable-length lists, and every value of the type, storing succeeds, writes only the
  bytes of the layout, and loading returns the value. The bulk copies agree with the
  element-by-element loops.
\<close>

section \<open>Typed values\<close>

text \<open>The values loading produces, type by type.\<close>

fun prim_value :: "prim \<Rightarrow> cval \<Rightarrow> bool" where
  "prim_value PBool v = (case v of VBool b \<Rightarrow> True | _ \<Rightarrow> False)"
| "prim_value PU8 v = (case v of VNum i \<Rightarrow> numberFitsInWidth i 1 False | _ \<Rightarrow> False)"
| "prim_value PU16 v = (case v of VNum i \<Rightarrow> numberFitsInWidth i 2 False | _ \<Rightarrow> False)"
| "prim_value PU32 v = (case v of VNum i \<Rightarrow> numberFitsInWidth i 4 False | _ \<Rightarrow> False)"
| "prim_value PU64 v = (case v of VBig i \<Rightarrow> numberFitsInWidth i 8 False | _ \<Rightarrow> False)"
| "prim_value PS8 v = (case v of VNum i \<Rightarrow> numberFitsInWidth i 1 True | _ \<Rightarrow> False)"
| "prim_value PS16 v = (case v of VNum i \<Rightarrow> numberFitsInWidth i 2 True | _ \<Rightarrow> False)"
| "prim_value PS32 v = (case v of VNum i \<Rightarrow> numberFitsInWidth i 4 True | _ \<Rightarrow> False)"
| "prim_value PS64 v = (case v of VBig i \<Rightarrow> numberFitsInWidth i 8 True | _ \<Rightarrow> False)"
| "prim_value PF32 v = (case v of VFlt w \<Rightarrow> decodeI32AsFloat (encodeFloatAsI32 w) = w | _ \<Rightarrow> False)"
| "prim_value PF64 v = (case v of VFlt w \<Rightarrow> decodeI64AsFloat (encodeFloatAsI64 w) = w | _ \<Rightarrow> False)"
| "prim_value PChar v =
     (case v of VStr s \<Rightarrow> (case codePointAt0 s of Some c \<Rightarrow> scalar c \<and> s = units_of c | None \<Rightarrow> False) | _ \<Rightarrow> False)"
| "prim_value PString v = False"

function plain_value :: "valtype \<Rightarrow> cval \<Rightarrow> bool" where
  "plain_value t v =
     (case despecialize t of
        Prim p \<Rightarrow> prim_value p v
      | ListT e (Some n) \<Rightarrow>
          (if despecialize e = Prim PU8 then (case v of VBytes bs \<Rightarrow> length bs = n | _ \<Rightarrow> False)
           else (case v of VArr vs \<Rightarrow> length vs = n \<and> list_all (\<lambda>x. plain_value e x) vs | _ \<Rightarrow> False))
      | RecordT fs \<Rightarrow>
          (case v of
             VObj kvs \<Rightarrow> map fst kvs = map fst fs \<and> distinct (map fst fs) \<and>
               list_all (\<lambda>(f, kv). plain_value (snd f) (snd kv)) (zip fs kvs)
           | _ \<Rightarrow> False)
      | VariantT cs \<Rightarrow>
          (case v of
             VCase l x \<Rightarrow> distinct (map fst cs) \<and>
               list_ex (\<lambda>c. fst c = l \<and> (case snd c of None \<Rightarrow> x = VNull | Some u \<Rightarrow> plain_value u x)) cs
           | _ \<Rightarrow> False)
      | FlagsT ls \<Rightarrow>
          (case v of
             VObj kvs \<Rightarrow> map fst kvs = ls \<and> distinct ls \<and>
               list_all (\<lambda>kv. case snd kv of VBool b \<Rightarrow> True | _ \<Rightarrow> False) kvs
           | _ \<Rightarrow> False)
      | _ \<Rightarrow> False)"
  by pat_completeness auto

termination
  by (relation "measure (\<lambda>(t, v). tsize t)")
    (auto dest!: set_zip_leftD intro: tsize_of_list tsize_of_record [where f = "(a, b)" for a b, simplified]
      tsize_of_variant [where c = "(a, Some b)" for a b, simplified])

declare plain_value.simps [simp del]

section \<open>Generic lemmas on sequences of stores\<close>

lemma subarray_sub:
  "subarray xs p n = subarray ys p n \<Longrightarrow> p + n \<le> length xs \<Longrightarrow> p + n \<le> length ys \<Longrightarrow> p \<le> q \<Longrightarrow> q + k \<le> p + n \<Longrightarrow>
   subarray xs q k = subarray ys q k"
proof (intro nth_equalityI)
  fix i
  assume e: "subarray xs p n = subarray ys p n" and b: "p + n \<le> length xs" "p + n \<le> length ys" "p \<le> q" "q + k \<le> p + n"
    and i: "i < length (subarray xs q k)"
  then have i: "i < k" by simp
  have "subarray xs p n ! (q - p + i) = subarray ys p n ! (q - p + i)" using e by simp
  then show "subarray xs q k ! i = subarray ys q k ! i" using b i by (simp add: nth_subarray)
qed simp

lemma mapm_all:
  "\<forall>x\<in>set xs. g x s = (Inr (h x), s) \<Longrightarrow> mapm g xs s = (Inr (map h xs), s)"
  by (induction xs) (simp_all add: bnd_run)

lemma iterm_regions:
  assumes "\<And>x s. x \<in> set xs \<Longrightarrow> length (c_mem s) = N \<Longrightarrow>
      \<exists>m. f x s = (Inr (), s\<lparr>c_mem := m\<rparr>) \<and> same_outside (pos x) (len x) (c_mem s) m \<and> Q x m"
    "\<And>x m m'. x \<in> set xs \<Longrightarrow> Q x m \<Longrightarrow> length m = N \<Longrightarrow> length m' = N \<Longrightarrow>
      subarray m' (pos x) (len x) = subarray m (pos x) (len x) \<Longrightarrow> Q x m'"
    "\<And>x. x \<in> set xs \<Longrightarrow> p \<le> pos x \<and> pos x + len x \<le> b" "p \<le> b" "b \<le> N"
    "sorted_wrt (\<lambda>x y. pos x + len x \<le> pos y) xs" "length (c_mem s) = N"
  shows "\<exists>m. iterm f xs s = (Inr (), s\<lparr>c_mem := m\<rparr>) \<and> same_outside p (b - p) (c_mem s) m \<and> (\<forall>x\<in>set xs. Q x m)"
  using assms
proof (induction xs arbitrary: p s)
  case Nil
  have "iterm f [] s = (Inr (), s\<lparr>c_mem := c_mem s\<rparr>)" by simp
  then show ?case by (intro exI [of _ "c_mem s"]) simp
next
  case (Cons x xs)
  from Cons.prems(1) [of x s] Cons.prems(7) obtain m where
    m: "f x s = (Inr (), s\<lparr>c_mem := m\<rparr>)" "same_outside (pos x) (len x) (c_mem s) m" "Q x m" by auto
  have lm: "length m = N" using m(2) Cons.prems(7) by (simp add: same_outside_def)
  let ?p = "pos x + len x"
  have x: "p \<le> pos x" "?p \<le> b" using Cons.prems(3) [of x] by auto
  have "\<exists>m'. iterm f xs (s\<lparr>c_mem := m\<rparr>) = (Inr (), s\<lparr>c_mem := m\<rparr>\<lparr>c_mem := m'\<rparr>) \<and>
      same_outside ?p (b - ?p) (c_mem (s\<lparr>c_mem := m\<rparr>)) m' \<and> (\<forall>x\<in>set xs. Q x m')"
  proof (rule Cons.IH)
    show "\<And>y. y \<in> set xs \<Longrightarrow> ?p \<le> pos y \<and> pos y + len y \<le> b" using Cons.prems(3,6) by simp
    show "\<exists>m. f y u = (Inr (), u\<lparr>c_mem := m\<rparr>) \<and> same_outside (pos y) (len y) (c_mem u) m \<and> Q y m"
      if "y \<in> set xs" "length (c_mem u) = N" for y u
      using that by (intro Cons.prems(1)) simp_all
    show "Q y m'" if "y \<in> set xs" "Q y m" "length m = N" "length m' = N"
      "subarray m' (pos y) (len y) = subarray m (pos y) (len y)" for y m m'
      by (rule Cons.prems(2) [of y m m']) (use that in simp_all)
    show "?p \<le> b" by (rule x)
    show "b \<le> N" by (rule Cons.prems)
    show "sorted_wrt (\<lambda>x y. pos x + len x \<le> pos y) xs" using Cons.prems(6) by simp
    show "length (c_mem (s\<lparr>c_mem := m\<rparr>)) = N" using lm by simp
  qed
  then obtain m' where m': "iterm f xs (s\<lparr>c_mem := m\<rparr>) = (Inr (), s\<lparr>c_mem := m'\<rparr>)"
      "same_outside ?p (b - ?p) m m'" "\<forall>x\<in>set xs. Q x m'" by auto
  have lm': "length m' = N" using m'(2) lm by (simp add: same_outside_def)
  have "subarray m' (pos x) (len x) = subarray m (pos x) (len x)"
    by (rule same_outside_subarray [OF m'(2)]) (use x Cons.prems(5) lm in simp_all)
  with Cons.prems(2) [of x m m'] m(3) lm lm' have "Q x m'" by simp
  moreover have "same_outside p (b - p) (c_mem s) m'"
    by (rule same_outside_trans [OF same_outside_mono [OF m(2)] same_outside_mono [OF m'(2)]])
      (use x in simp_all)
  moreover have "iterm f (x # xs) s = (Inr (), s\<lparr>c_mem := m'\<rparr>)" using m(1) m'(1) by (simp add: seqm_run)
  ultimately show ?case using m'(3) by (intro exI [of _ m']) simp
qed

section \<open>Round trips of a region\<close>

text \<open>
  \<open>reads N p n ld v m\<close>: in every state of memory size \<open>N\<close> whose bytes \<open>[p, p + n)\<close> are
  those of \<open>m\<close>, the load returns \<open>v\<close> and changes nothing. \<open>round_trip\<close>: the store succeeds,
  writes in that range only, and leaves such bytes.
\<close>

definition reads :: "nat \<Rightarrow> nat \<Rightarrow> nat \<Rightarrow> ('x, 'a) cm \<Rightarrow> 'a \<Rightarrow> 8 word list \<Rightarrow> bool" where
  "reads N p n ld v m \<longleftrightarrow>
     (\<forall>s. length (c_mem s) = N \<and> subarray (c_mem s) p n = subarray m p n \<longrightarrow> ld s = (Inr v, s))"

definition round_trip :: "nat \<Rightarrow> nat \<Rightarrow> nat \<Rightarrow> ('x, unit) cm \<Rightarrow> ('x, 'a) cm \<Rightarrow> 'a \<Rightarrow> bool" where
  "round_trip N p n st ld v \<longleftrightarrow> p + n \<le> N \<and>
     (\<forall>s. length (c_mem s) = N \<longrightarrow>
        (\<exists>m. st s = (Inr (), s\<lparr>c_mem := m\<rparr>) \<and> same_outside p n (c_mem s) m \<and> reads N p n ld v m))"

lemma readsD: "reads N p n ld v m \<Longrightarrow> length (c_mem s) = N \<Longrightarrow> subarray (c_mem s) p n = subarray m p n \<Longrightarrow>
    ld s = (Inr v, s)"
  by (simp add: reads_def)

lemma reads_stable: "reads N p n ld v m \<Longrightarrow> subarray m' p n = subarray m p n \<Longrightarrow> reads N p n ld v m'"
  by (simp add: reads_def)

lemma reads_mono:
  fixes ld :: "('x, 'a) cm"
  assumes "reads N p n ld v m" "length m = N" "q \<le> p" "p + n \<le> q + k" "q + k \<le> N"
  shows "reads N q k ld v m"
  unfolding reads_def
proof (intro allI impI)
  fix s :: "'x cst_scheme" assume s: "length (c_mem s) = N \<and> subarray (c_mem s) q k = subarray m q k"
  have "subarray (c_mem s) p n = subarray m p n"
    by (rule subarray_sub [of _ q k]) (use s assms(2-5) in simp_all)
  then show "ld s = (Inr v, s)" using readsD [OF assms(1)] s by simp
qed

lemma round_tripD:
  assumes "round_trip N p n st ld v" "length (c_mem s) = N"
  obtains m where "st s = (Inr (), s\<lparr>c_mem := m\<rparr>)" "same_outside p n (c_mem s) m" "reads N p n ld v m"
    "length m = N"
  using assms unfolding round_trip_def by (metis same_outside_def)

lemma round_trip_bound: "round_trip N p n st ld v \<Longrightarrow> p + n \<le> N"
  by (simp add: round_trip_def)

lemma reads_map: "reads N p n ld v m \<Longrightarrow> reads N p n (bnd ld (\<lambda>x. ret (k x))) (k v) m"
  unfolding reads_def by (simp add: bnd_run)

lemma round_tripI:
  assumes "p + n \<le> N"
    "\<And>s. length (c_mem s) = N \<Longrightarrow>
       \<exists>m. st s = (Inr (), s\<lparr>c_mem := m\<rparr>) \<and> same_outside p n (c_mem s) m \<and> reads N p n ld v m"
  shows "round_trip N p n st ld v"
  using assms by (simp add: round_trip_def)

lemma round_trip_map:
  assumes "round_trip N p n st ld v"
  shows "round_trip N p n st (bnd ld (\<lambda>x. ret (k x))) (k v)"
proof (rule round_tripI [OF round_trip_bound [OF assms]], goal_cases)
  case (1 s)
  with assms obtain m where "st s = (Inr (), s\<lparr>c_mem := m\<rparr>)" "same_outside p n (c_mem s) m"
      "reads N p n ld v m" by (rule round_tripD)
  then show ?case by (intro exI [of _ m] conjI reads_map)
qed

lemma round_trip_bnd:
  assumes "round_trip N p n st ld v" "\<And>s. F v s = (Inr w, s)"
  shows "round_trip N p n st (bnd ld F) w"
proof (rule round_tripI [OF round_trip_bound [OF assms(1)]], goal_cases)
  case (1 s)
  with assms(1) obtain m where "st s = (Inr (), s\<lparr>c_mem := m\<rparr>)" "same_outside p n (c_mem s) m"
      "reads N p n ld v m" by (rule round_tripD)
  moreover from this(3) have "reads N p n (bnd ld F) w m" using assms(2) by (simp add: reads_def bnd_run)
  ultimately show ?case by (intro exI [of _ m] conjI)
qed

lemma round_trip_cong:
  assumes "round_trip N p n st ld v"
    "\<And>s. length (c_mem s) = N \<Longrightarrow> st' s = st s" "\<And>s. length (c_mem s) = N \<Longrightarrow> ld' s = ld s"
  shows "round_trip N p n st' ld' v"
  using assms unfolding round_trip_def reads_def by simp

lemma round_trip_empty: "p \<le> N \<Longrightarrow> round_trip N p 0 (ret ()) (ret v) v"
  unfolding round_trip_def reads_def
proof (intro conjI allI impI)
  show "\<exists>m. ret () s = (Inr (), s\<lparr>c_mem := m\<rparr>) \<and> same_outside p 0 (c_mem s) m \<and>
      (\<forall>s. length (c_mem s) = N \<and> subarray (c_mem s) p 0 = subarray m p 0 \<longrightarrow> ret v s = (Inr v, s))" for s
    by (intro exI [of _ "c_mem s"]) simp
qed simp

lemma round_trip_mono:
  fixes st :: "('x, unit) cm"
  assumes "round_trip N p n st ld v" "q \<le> p" "p + n \<le> q + k" "q + k \<le> N"
  shows "round_trip N q k st ld v"
  unfolding round_trip_def
proof (intro conjI allI impI)
  fix s :: "'x cst_scheme" assume "length (c_mem s) = N"
  with assms(1) obtain m where "st s = (Inr (), s\<lparr>c_mem := m\<rparr>)" "same_outside p n (c_mem s) m"
      "reads N p n ld v m" "length m = N" by (rule round_tripD)
  with assms(2-4) show "\<exists>m. st s = (Inr (), s\<lparr>c_mem := m\<rparr>) \<and> same_outside q k (c_mem s) m \<and> reads N q k ld v m"
    by (intro exI [of _ m]) (simp add: same_outside_mono reads_mono)
qed (rule assms)

lemma round_trip_seq:
  fixes st1 :: "('x, unit) cm"
  assumes "round_trip N p1 n1 st1 ld1 v1" "round_trip N p2 n2 st2 ld2 v2" "p1 + n1 \<le> p2"
    and F: "F v1 = bnd ld2 (\<lambda>y. ret (k y))"
  shows "round_trip N p1 (p2 + n2 - p1) (seqm st1 st2) (bnd ld1 F) (k v2)"
  unfolding round_trip_def
proof (intro conjI allI impI)
  have b: "p2 + n2 \<le> N" by (rule round_trip_bound [OF assms(2)])
  then show "p1 + (p2 + n2 - p1) \<le> N" using assms(3) by simp
  fix s :: "'x cst_scheme" assume N: "length (c_mem s) = N"
  with assms(1) obtain m where m: "st1 s = (Inr (), s\<lparr>c_mem := m\<rparr>)" "same_outside p1 n1 (c_mem s) m"
      "reads N p1 n1 ld1 v1 m" "length m = N" by (rule round_tripD)
  have "length (c_mem (s\<lparr>c_mem := m\<rparr>)) = N" using m(4) by simp
  with assms(2) obtain m' where m': "st2 (s\<lparr>c_mem := m\<rparr>) = (Inr (), s\<lparr>c_mem := m\<rparr>\<lparr>c_mem := m'\<rparr>)"
      "same_outside p2 n2 (c_mem (s\<lparr>c_mem := m\<rparr>)) m'" "reads N p2 n2 ld2 v2 m'" "length m' = N"
    by (rule round_tripD)
  have "subarray m' p1 n1 = subarray m p1 n1"
    by (rule same_outside_subarray [OF m'(2) [simplified]]) (use m(4) assms(3) b in simp_all)
  then have r1: "reads N p1 n1 ld1 v1 m'" by (rule reads_stable [OF m(3)])
  have R: "reads N p1 (p2 + n2 - p1) ld1 v1 m'" "reads N p1 (p2 + n2 - p1) ld2 v2 m'"
    by (rule reads_mono [OF r1 m'(4)], use assms(3) b in simp_all)
       (rule reads_mono [OF m'(3,4)], use assms(3) b in simp_all)
  then have "reads N p1 (p2 + n2 - p1) (bnd ld1 F) (k v2) m'"
    unfolding reads_def by (simp add: bnd_run F)
  moreover have "same_outside p1 (p2 + n2 - p1) (c_mem s) m'"
    by (rule same_outside_trans [OF same_outside_mono [OF m(2)] same_outside_mono [OF m'(2) [simplified]]])
      (use assms(3) in simp_all)
  ultimately show "\<exists>m. seqm st1 st2 s = (Inr (), s\<lparr>c_mem := m\<rparr>) \<and>
      same_outside p1 (p2 + n2 - p1) (c_mem s) m \<and>
      reads N p1 (p2 + n2 - p1) (bnd ld1 F) (k v2) m"
    using m(1) m'(1) by (intro exI [of _ m']) (simp add: seqm_run)
qed

lemma round_trip_iter:
  fixes f :: "'i \<Rightarrow> ('x, unit) cm"
  assumes "\<And>x. x \<in> set xs \<Longrightarrow> round_trip N (pos x) (len x) (f x) (g x) (h x)"
    "\<And>x. x \<in> set xs \<Longrightarrow> p \<le> pos x \<and> pos x + len x \<le> p + n" "p + n \<le> N"
    "sorted_wrt (\<lambda>x y. pos x + len x \<le> pos y) xs"
  shows "round_trip N p n (iterm f xs) (mapm g xs) (map h xs)"
  unfolding round_trip_def
proof (intro conjI allI impI)
  fix s :: "'x cst_scheme" assume N: "length (c_mem s) = N"
  have "\<exists>m. iterm f xs s = (Inr (), s\<lparr>c_mem := m\<rparr>) \<and> same_outside p (p + n - p) (c_mem s) m \<and>
      (\<forall>x\<in>set xs. length m = N \<and> reads N (pos x) (len x) (g x) (h x) m)"
  proof (rule iterm_regions [where N = N and pos = pos and len = len])
    show "\<exists>m. f x u = (Inr (), u\<lparr>c_mem := m\<rparr>) \<and> same_outside (pos x) (len x) (c_mem u) m \<and>
        (length m = N \<and> reads N (pos x) (len x) (g x) (h x) m)" if "x \<in> set xs" "length (c_mem u) = N" for x u
      using assms(1) [OF that(1)] that(2) by (metis round_tripD)
    show "length m' = N \<and> reads N (pos x) (len x) (g x) (h x) m'"
      if "x \<in> set xs" "length m = N \<and> reads N (pos x) (len x) (g x) (h x) m" "length m' = N"
        "subarray m' (pos x) (len x) = subarray m (pos x) (len x)" for x m m'
      using that by (auto intro: reads_stable)
  qed (use assms N in simp_all)
  then obtain m where m: "iterm f xs s = (Inr (), s\<lparr>c_mem := m\<rparr>)" "same_outside p n (c_mem s) m"
      "\<forall>x\<in>set xs. reads N (pos x) (len x) (g x) (h x) m" by auto
  have lm: "length m = N" using m(2) N by (simp add: same_outside_def)
  have "reads N p n (mapm g xs) (map h xs) m"
    unfolding reads_def
  proof (intro allI impI)
    fix u :: "'x cst_scheme" assume u: "length (c_mem u) = N \<and> subarray (c_mem u) p n = subarray m p n"
    have "reads N p n (g x) (h x) m" if "x \<in> set xs" for x
      by (rule reads_mono [OF m(3) [rule_format, OF that] lm]) (use assms(2) [OF that] assms(3) in simp_all)
    then have "\<forall>x\<in>set xs. g x u = (Inr (h x), u)" using u by (simp add: reads_def)
    then show "mapm g xs u = (Inr (map h xs), u)" by (rule mapm_all)
  qed
  with m show "\<exists>m. iterm f xs s = (Inr (), s\<lparr>c_mem := m\<rparr>) \<and> same_outside p n (c_mem s) m \<and>
      reads N p n (mapm g xs) (map h xs) m" by blast
qed (rule assms)

section \<open>Primitive values\<close>

text \<open>The bytes a primitive value is stored as, and what they are loaded as.\<close>

lemma word_of_uint_bytes:
  fixes w :: "'a::len word"
  assumes "LENGTH('a) = 8 * n"
  shows "of_nat (le_nat (int_bytes n (uint w))) = w"
proof -
  have "uint w < 2 ^ (8 * n)" using uint_lt2p [of w] assms by simp
  then have "le_nat (int_bytes n (uint w)) = nat (uint w)" by (intro le_nat_int_bytes) simp_all
  then show ?thesis by simp
qed

lemma uint_fits:
  fixes w :: "'a::len word"
  assumes "LENGTH('a) = 8 * n"
  shows "numberFitsInWidth (uint w) n False"
proof -
  have "uint w < 2 ^ (8 * n)" using uint_lt2p [of w] assms by simp
  then show ?thesis by (simp add: numberFitsInWidth_def mult.commute)
qed


lemma round_trip_bytes:
  assumes "p + n \<le> N" "length bs = n" "\<And>s. length (c_mem s) = N \<Longrightarrow> st s = (Inr (), s\<lparr>c_mem := overwrite (c_mem s) p bs\<rparr>)"
    "\<And>s. length (c_mem s) = N \<Longrightarrow> subarray (c_mem s) p n = bs \<Longrightarrow> ld s = (Inr v, s)"
  shows "round_trip N p n st ld v"
proof (rule round_tripI [OF assms(1)], goal_cases)
  case (1 s)
  have "reads N p n ld v (overwrite (c_mem s) p bs)"
    unfolding reads_def using assms 1 by simp
  then show ?case using assms 1 by (intro exI [of _ "overwrite (c_mem s) p bs"]) simp
qed

lemma round_trip_int:
  assumes "p + n \<le> N" "store_arg n x = Some i" "numberFitsInWidth i n sg"
    "\<And>s. length (c_mem s) = N \<Longrightarrow> subarray (c_mem s) p n = int_bytes n i \<Longrightarrow> ld s = (Inr v, s)"
  shows "round_trip N p n (storeInt x p n sg) ld v"
  by (rule round_trip_bytes [where bs = "int_bytes n i"]) (use assms in \<open>simp_all add: storeInt_run\<close>)

lemma round_trip_unsigned:
  assumes "p + n \<le> N" "store_arg n x = Some i" "numberFitsInWidth i n False"
  shows "round_trip N p n (storeInt x p n False) (loadIntU p n) (nat i)"
  by (rule round_trip_int [OF assms]) (use assms in \<open>simp add: loadIntU_run le_nat_int_bytes_unsigned\<close>)

lemma round_trip_signed:
  assumes "p + n \<le> N" "store_arg n x = Some i" "numberFitsInWidth i n True" "0 < n"
  shows "round_trip N p n (storeInt x p n True) (loadIntS p n) i"
  by (rule round_trip_int [OF assms(1-3)]) (use assms in \<open>simp add: loadIntS_run le_int_int_bytes_signed\<close>)

lemma numberFits_nonneg: "numberFitsInWidth i n False \<Longrightarrow> 0 \<le> i"
  by (simp add: numberFitsInWidth_def Let_def)

text \<open>A load that reads an unsigned integer and continues with a pure or failing function of it.\<close>

lemma round_trip_unsigned_bnd:
  assumes "p + n \<le> N" "store_arg n x = Some i" "numberFitsInWidth i n False" "\<And>s. k (nat i) s = (Inr v, s)"
  shows "round_trip N p n (storeInt x p n False) (bnd (loadIntU p n) k) v"
  by (rule round_trip_int [OF assms(1-3)]) (use assms in \<open>simp add: loadIntU_run le_nat_int_bytes_unsigned bnd_run\<close>)

lemma round_trip_prim:
  assumes v: "prim_value q v" and b: "p + snd (prim_width q pt) \<le> N"
  shows "round_trip N p (snd (prim_width q pt)) (storePrim cx v q p) (loadPrim cx p q) v"
proof (cases q)
  case PBool
  then obtain c where [simp]: "v = VBool c" using v by (auto split: cval.splits)
  have "round_trip N p 1 (storeInt (VNum (if c then 1 else 0)) p 1 False)
      (bnd (loadIntU p 1) (\<lambda>i. ret (convertIntToBool i))) v"
    by (rule round_trip_unsigned_bnd [where i = "if c then 1 else 0"])
      (use b PBool in \<open>auto simp: store_arg_def numberFitsInWidth_def convertIntToBool_def\<close>)
  then show ?thesis by (simp add: PBool)
next
  case PChar
  then obtain s c where v': "v = VStr s" "codePointAt0 s = Some c" "scalar c" "s = units_of c"
    using v by (auto split: cval.splits option.splits)
  have c: "\<And>s. charToI32 v s = (Inr c, s)" "\<And>s. convertI32ToChar c s = (Inr v, s)"
    using v' by (simp_all add: charToI32_units_of convertI32ToChar_scalar)
  have "bnd (charToI32 v) (\<lambda>i. storeInt (VNum (int i)) p 4 False) s = storeInt (VNum (int c)) p 4 False s" for s
    by (simp add: bnd_run c)
  then have "round_trip N p 4 (bnd (charToI32 v) (\<lambda>i. storeInt (VNum (int i)) p 4 False))
      (bnd (loadIntU p 4) convertI32ToChar) v"
    using b PChar v'(3) c(2)
    by (intro round_trip_cong [OF round_trip_unsigned_bnd [where x = "VNum (int c)"]])
      (auto simp: store_arg_def numberFitsInWidth_def scalar_def)
  then show ?thesis using PChar by simp
next
  case PF32
  then obtain w where [simp]: "v = VFlt w" and w: "decodeI32AsFloat (encodeFloatAsI32 w) = w"
    using v by (auto split: cval.splits)
  have "numberFitsInWidth (uint (encodeFloatAsI32 w)) 4 False" by (rule uint_fits) simp
  then have "round_trip N p 4 (storeInt (VNum (uint (encodeFloatAsI32 w))) p 4 False)
      (bnd (loadIntU p 4) (\<lambda>i. ret (VFlt (decodeI32AsFloat (of_nat i))))) v"
    by (intro round_trip_unsigned_bnd [where i = "uint (encodeFloatAsI32 w)"])
      (use b PF32 w in \<open>auto simp: store_arg_def\<close>)
  then show ?thesis by (simp add: PF32)
next
  case PF64
  then obtain w where [simp]: "v = VFlt w" and w: "decodeI64AsFloat (encodeFloatAsI64 w) = w"
    using v by (auto split: cval.splits)
  have "numberFitsInWidth (uint (encodeFloatAsI64 w)) 8 False" by (rule uint_fits) simp
  then have "round_trip N p 8 (storeInt (VBig (uint (encodeFloatAsI64 w))) p 8 False)
      (bnd (loadIntU p 8) (\<lambda>i. ret (VFlt (decodeI64AsFloat (of_nat i))))) v"
    by (intro round_trip_unsigned_bnd [where i = "uint (encodeFloatAsI64 w)"])
      (use b PF64 w in \<open>auto simp: store_arg_def\<close>)
  then show ?thesis by (simp add: PF64)
qed (use v b in \<open>auto simp: store_arg_def numberFits_nonneg split: cval.splits
      intro!: round_trip_unsigned_bnd round_trip_map [OF round_trip_signed, where k = VNum]
        round_trip_map [OF round_trip_signed, where k = VBig]\<close>)

section \<open>Lists\<close>

lemma mapm_map: "mapm f (map h xs) = mapm (\<lambda>x. f (h x)) xs"
  by (induction xs) simp_all

lemma iterm_map: "iterm f (map h xs) = iterm (\<lambda>x. f (h x)) xs"
  by (induction xs) simp_all

lemma mapm_gets: "mapm (\<lambda>i. gets (f i)) xs s = (Inr (map (\<lambda>i. f i s) xs), s)"
  by (rule mapm_all) simp

lemma map_fst_enumerate0: "map fst (enumerate 0 vs) = [0..<length vs]"
  by (simp add: enumerate_eq_zip)

lemma round_trip_elems:
  assumes "\<And>i. i < length vs \<Longrightarrow> round_trip N (ptr + i * sz) sz (st (i, vs ! i)) (ld i) (vs ! i)"
    "ptr + length vs * sz \<le> N"
  shows "round_trip N ptr (length vs * sz) (iterm st (enumerate 0 vs)) (mapm ld [0..<length vs]) vs"
proof -
  let ?xs = "enumerate 0 vs"
  have el: "x \<in> set ?xs \<Longrightarrow> fst x < length vs \<and> snd x = vs ! fst x" for x
    by (auto simp: in_set_enumerate_eq)
  have bound: "fst x * sz + sz \<le> length vs * sz" if "x \<in> set ?xs" for x
    using mult_le_mono1 [of "Suc (fst x)" "length vs" sz] el [OF that] by simp
  have srt: "sorted_wrt (\<lambda>x y. ptr + fst x * sz + sz \<le> ptr + fst y * sz) ?xs"
  proof (rule sorted_wrt_iff_nth_less [THEN iffD2], intro allI impI)
    fix i j assume "i < j" "j < length ?xs"
    then show "ptr + fst (?xs ! i) * sz + sz \<le> ptr + fst (?xs ! j) * sz"
      using mult_le_mono1 [of "Suc i" j sz] by (simp add: nth_enumerate_eq)
  qed
  have "round_trip N ptr (length vs * sz) (iterm st ?xs) (mapm (\<lambda>x. ld (fst x)) ?xs) (map snd ?xs)"
  proof (rule round_trip_iter [where pos = "\<lambda>x. ptr + fst x * sz" and len = "\<lambda>_. sz"])
    show "round_trip N (ptr + fst x * sz) sz (st x) (ld (fst x)) (snd x)" if "x \<in> set ?xs" for x
      using assms(1) [of "fst x"] el [OF that] by (metis prod.collapse)
    show "ptr \<le> ptr + fst x * sz \<and> ptr + fst x * sz + sz \<le> ptr + length vs * sz" if "x \<in> set ?xs" for x
      using bound [OF that] by simp
  qed (use assms(2) srt in simp_all)
  then show ?thesis using mapm_map [of ld fst ?xs] by (simp only: map_fst_enumerate0 map_snd_enumerate)
qed

lemma canonical32: "coreF32ReinterpretI32 CANONICAL_FLOAT32_NAN = CANONICAL_FLOAT64_NAN"
  by (simp add: coreF32ReinterpretI32_def CANONICAL_FLOAT32_NAN_def f32_mag_def F32_INF_def)

lemma canonicalNaN32: "canonicalNaN (coreF32ReinterpretI32 i) = decodeI32AsFloat i"
  by (simp add: decodeI32AsFloat_def canonicalizeNan32_def canonicalNaN_def canonical32)

lemma canonicalNaN64: "canonicalNaN i = decodeI64AsFloat i"
  by (simp add: decodeI64AsFloat_def canonicalizeNan64_def canonicalNaN_def coreF64ReinterpretI64_def)

lemma set_int_run: "set_int p n i s = (Inr (), s\<lparr>c_mem := overwrite (c_mem s) p (int_bytes n i)\<rparr>)"
  by (simp add: set_int_def int_bytes_def)

lemma bulk_width: "bulk_ctor q = Some k \<Longrightarrow> bytes_per_element k = snd (prim_width q pt) \<and> 0 < bytes_per_element k"
  by (cases q) auto

lemma round_trip_view:
  assumes k: "bulk_ctor q = Some k" and v: "prim_value q v" and b: "p + bytes_per_element k \<le> N"
  shows "round_trip N p (bytes_per_element k) (view_set k p v)
    (gets (\<lambda>s. view_get k (subarray (c_mem s) p (bytes_per_element k)))) v"
proof (cases k)
  case (BulkInt n sg)
  then obtain i where i: "v = VNum i" "numberFitsInWidth i n sg" "0 < n"
    using k v by (cases q) (auto split: cval.splits)
  show ?thesis
    by (rule round_trip_bytes [where bs = "int_bytes n i"])
      (use b i BulkInt in \<open>auto simp: view_set_def set_int_run
        le_nat_int_bytes_unsigned le_int_int_bytes_signed numberFits_nonneg\<close>)
next
  case (BulkBig sg)
  then obtain i where i: "v = VBig i" "numberFitsInWidth i 8 sg"
    using k v by (cases q) (auto split: cval.splits)
  show ?thesis
    by (rule round_trip_bytes [where bs = "int_bytes 8 i"])
      (use b i BulkBig in \<open>auto simp: view_set_def set_int_run
        le_nat_int_bytes_unsigned le_int_int_bytes_signed numberFits_nonneg\<close>)
next
  case (BulkFloat n)
  show ?thesis
  proof (cases "q = PF32")
    case True
    then obtain w where w: "v = VFlt w" "decodeI32AsFloat (encodeFloatAsI32 w) = w"
      using v by (auto split: cval.splits)
    have n: "n = 4" using k True BulkFloat by simp
    have "of_nat (le_nat (int_bytes 4 (uint (encodeFloatAsI32 w)))) = encodeFloatAsI32 w"
      by (rule word_of_uint_bytes) simp
    moreover have "canonicalNaN (coreF32ReinterpretI32 (encodeFloatAsI32 w)) = w"
      using w(2) by (simp add: canonicalNaN32)
    ultimately show ?thesis using b w(1) n unfolding BulkFloat
      by (intro round_trip_bytes [where bs = "int_bytes 4 (uint (encodeFloatAsI32 w))"])
        (auto simp: view_set_def bnd_run set_int_run)
  next
    case False
    then have q: "q = PF64" and n: "n = 8" using k BulkFloat by (cases q; simp)+
    then obtain w where w: "v = VFlt w" "decodeI64AsFloat (encodeFloatAsI64 w) = w"
      using v by (auto split: cval.splits)
    have "of_nat (le_nat (int_bytes 8 (uint (encodeFloatAsI64 w)))) = encodeFloatAsI64 w"
      by (rule word_of_uint_bytes) simp
    moreover have "canonicalNaN (encodeFloatAsI64 w) = w"
      using w(2) by (simp add: canonicalNaN64)
    ultimately show ?thesis using b w(1) n unfolding BulkFloat
      by (intro round_trip_bytes [where bs = "int_bytes 8 (uint (encodeFloatAsI64 w))"])
        (auto simp: view_set_def bnd_run set_int_run)
  qed
qed

text \<open>Whether the typed-array view applies depends on the context and the address alone.\<close>

definition has_view :: "'x cst_scheme cx \<Rightarrow> nat \<Rightarrow> nat \<Rightarrow> bool" where
  "has_view cx bpe ptr \<longleftrightarrow> cx_little_endian cx \<and> (cx_byte_offset cx + ptr) mod bpe = 0"

lemma viewOf_run:
  "ptr + len * bpe \<le> length (c_mem s) \<Longrightarrow> viewOf cx bpe ptr len s = (Inr (has_view cx bpe ptr), s)"
  by (simp add: viewOf_def has_view_def monad_simps)

text \<open>The kinds of element that have no bulk copy.\<close>

definition no_bulk :: "valtype \<Rightarrow> bool" where
  "no_bulk kind = (case kind of Prim q \<Rightarrow> q \<noteq> PBool \<and> bulk_ctor q = None | _ \<Rightarrow> True)"

lemma no_bulk_try:
  assumes "no_bulk kind"
  shows "tryLoadNumericList cx ptr len kind = ret None" "tryStoreNumericList cx vs ptr kind = ret False"
  using assms
  by (auto simp: tryLoadNumericList_def tryStoreNumericList_def no_bulk_def Let_def
      split: valtype.splits prim.splits)

lemma tryLoad_bulk:
  "bulk_ctor q = Some k \<Longrightarrow> tryLoadNumericList cx ptr len (Prim q) =
     bnd (viewOf cx (bytes_per_element k) ptr len) (\<lambda>view.
       if \<not> view then ret None
       else gets (\<lambda>s. Some (map (\<lambda>i. view_get k
              (subarray (c_mem s) (ptr + i * bytes_per_element k) (bytes_per_element k))) [0..<len])))"
  by (auto simp: tryLoadNumericList_def split: prim.splits)

lemma tryStore_bulk:
  "bulk_ctor q = Some k \<Longrightarrow> tryStoreNumericList cx vs ptr (Prim q) =
     bnd (viewOf cx (bytes_per_element k) ptr (length vs)) (\<lambda>view.
       if \<not> view then ret False
       else seqm (iterm (\<lambda>(i, x). view_set k (ptr + i * bytes_per_element k) x) (enumerate 0 vs)) (ret True))"
  by (auto simp: tryStoreNumericList_def Let_def split: prim.splits)

lemma round_trip_bool:
  assumes "prim_value PBool v" "p + 1 \<le> N"
  shows "round_trip N p 1 (set_byte p (if truthy v then 1 else 0))
    (gets (\<lambda>s. VBool (c_mem s ! p \<noteq> 0))) v"
proof -
  obtain c where v: "v = VBool c" using assms(1) by (auto split: cval.splits)
  have "xs[p := b] = overwrite xs p [b]" if "p < length xs" for xs :: "8 word list" and b
    using that by (intro nth_equalityI) (auto simp: nth_overwrite nth_list_update)
  moreover have "subarray xs p 1 = [xs ! p]" if "p < length xs" for xs :: "8 word list"
    using that by (intro nth_equalityI) (auto simp: nth_subarray simp del: One_nat_def)
  ultimately show ?thesis using assms(2) v
    by (intro round_trip_bytes [where bs = "[if c then 1 else 0]"]) (auto simp: set_byte_def)
qed

text \<open>A list stored by the element loop or by the bulk copy is read back by either.\<close>

lemma round_trip_list:
  fixes st :: "cval \<Rightarrow> valtype \<Rightarrow> nat \<Rightarrow> ('x, unit) cm"
  assumes mem: "cx_memory cx = Some pt" and L: "layoutOf e pt = Inr L"
    and u8: "despecialize e \<noteq> Prim PU8" and b: "ptr + length vs * l_size L \<le> N"
    and prim: "\<And>q x. despecialize e = Prim q \<Longrightarrow> x \<in> set vs \<Longrightarrow> prim_value q x"
    and el: "\<And>i. i < length vs \<Longrightarrow>
      round_trip N (ptr + i * l_size L) (l_size L) (st (vs ! i) e (ptr + i * l_size L))
        (ld (ptr + i * l_size L) e) (vs ! i)"
  shows "round_trip N ptr (length vs * l_size L) (storeListIntoValidRange st cx (VArr vs) ptr e)
    (loadListFromValidRange ld cx ptr (length vs) e) (VArr vs)"
proof -
  let ?n = "length vs" and ?k = "despecialize e"
  let ?S = "iterm (\<lambda>(i, x). st x e (ptr + i * l_size L)) (enumerate 0 vs)"
  let ?R = "bnd (mapm (\<lambda>i. ld (ptr + i * l_size L) e) [0..<?n]) (\<lambda>vs. ret (VArr vs))"
  have store: "storeListIntoValidRange st cx (VArr vs) ptr e =
      bnd (tryStoreNumericList cx vs ptr ?k) (\<lambda>done. if done then ret () else ?S)"
    using mem L u8 by (simp add: storeListIntoValidRange_def Let_def)
  have load: "loadListFromValidRange ld cx ptr ?n e =
      bnd (tryLoadNumericList cx ptr ?n ?k) (\<lambda>bulk. case bulk of Some vs \<Rightarrow> ret (VArr vs) | None \<Rightarrow> ?R)"
    using mem L u8 by (simp add: loadListFromValidRange_def Let_def)
  have loop: "round_trip N ptr (?n * l_size L) ?S ?R (VArr vs)"
    by (rule round_trip_map, rule round_trip_elems) (use el b in simp_all)
  consider "no_bulk ?k" | "?k = Prim PBool" | q k where "?k = Prim q" "bulk_ctor q = Some k"
    by (cases "despecialize e") (simp_all add: no_bulk_def, metis not_None_eq)
  then show ?thesis
  proof cases
    case 1
    then show ?thesis using loop by (simp add: store load no_bulk_try)
  next
    case 2
    have sz: "l_size L = 1" using L 2 by (auto simp: layoutOf_Prim)
    have "round_trip N ptr (?n * 1) (iterm (\<lambda>(i, x). set_byte (ptr + i) (if truthy x then 1 else 0)) (enumerate 0 vs))
        (mapm (\<lambda>i. gets (\<lambda>s. VBool (c_mem s ! (ptr + i) \<noteq> 0))) [0..<?n]) vs"
    proof (rule round_trip_elems)
      show "round_trip N (ptr + i * 1) 1 (case (i, vs ! i) of (i, x) \<Rightarrow> set_byte (ptr + i) (if truthy x then 1 else 0))
          (gets (\<lambda>s. VBool (c_mem s ! (ptr + i) \<noteq> 0))) (vs ! i)" if "i < ?n" for i
        using round_trip_bool [of "vs ! i" "ptr + i" N] prim [OF 2, of "vs ! i"] that b sz by simp
    qed (use b sz in simp)
    from round_trip_map [OF this, of VArr] show ?thesis unfolding sz
    proof (rule round_trip_cong)
      fix s :: "'x cst_scheme" assume N: "length (c_mem s) = N"
      have ok: "ptr + ?n \<le> length (c_mem s)" using b sz N by simp
      then show "storeListIntoValidRange st cx (VArr vs) ptr e s =
          iterm (\<lambda>(i, x). set_byte (ptr + i) (if truthy x then 1 else 0)) (enumerate 0 vs) s"
        by (simp add: store 2 tryStoreNumericList_def bytesOf_def bnd_run seqm_run assertm_run Let_def
            split: prod.splits sum.splits)
      have "map (\<lambda>b. VBool (b \<noteq> 0)) (subarray (c_mem s) ptr ?n) = map (\<lambda>i. VBool (c_mem s ! (ptr + i) \<noteq> 0)) [0..<?n]"
        using ok by (intro nth_equalityI) (simp_all add: nth_subarray)
      then show "loadListFromValidRange ld cx ptr ?n e s =
          bnd (mapm (\<lambda>i. gets (\<lambda>s. VBool (c_mem s ! (ptr + i) \<noteq> 0))) [0..<?n]) (\<lambda>x. ret (VArr x)) s"
        using ok by (simp add: load 2 tryLoadNumericList_def bytesOf_def bnd_run mapm_gets assertm_run seqm_run)
    qed
  next
    case (3 q k)
    have sz: "l_size L = bytes_per_element k" using L 3 bulk_width [of q k pt] by (auto simp: layoutOf_Prim)
    show ?thesis
    proof (cases "has_view cx (bytes_per_element k) ptr")
      case False
      show ?thesis
        by (rule round_trip_cong [OF loop])
          (use b sz False 3 in \<open>simp_all add: store load tryStore_bulk tryLoad_bulk bnd_run viewOf_run\<close>)
    next
      case True
      have "round_trip N ptr (?n * l_size L)
          (iterm (\<lambda>(i, x). view_set k (ptr + i * bytes_per_element k) x) (enumerate 0 vs))
          (mapm (\<lambda>i. gets (\<lambda>s. view_get k (subarray (c_mem s) (ptr + i * bytes_per_element k) (bytes_per_element k)))) [0..<?n]) vs"
      proof (rule round_trip_elems)
        fix i assume i: "i < ?n"
        have "ptr + i * bytes_per_element k + bytes_per_element k \<le> N"
          using b sz mult_le_mono1 [of "Suc i" ?n "bytes_per_element k"] i by simp
        then show "round_trip N (ptr + i * l_size L) (l_size L)
            (case (i, vs ! i) of (i, x) \<Rightarrow> view_set k (ptr + i * bytes_per_element k) x)
            (gets (\<lambda>s. view_get k (subarray (c_mem s) (ptr + i * bytes_per_element k) (bytes_per_element k)))) (vs ! i)"
          using round_trip_view [OF 3(2) prim [OF 3(1) nth_mem [OF i]]] by (simp add: sz)
      qed (use b in simp)
      from round_trip_map [OF this, of VArr] show ?thesis
        by (rule round_trip_cong)
          (use b sz True 3 in \<open>simp_all add: store load tryStore_bulk tryLoad_bulk bnd_run viewOf_run mapm_gets
            seqm_run split: prod.splits sum.splits\<close>)
    qed
  qed
qed

section \<open>Flags\<close>

lemma or_shifted: "i < 2 ^ k \<Longrightarrow> or i (2 ^ k) = i + (2 ^ k :: nat)"
proof -
  assume "i < 2 ^ k"
  then have "\<not> bit i k" by (simp add: bit_iff_odd)
  then show ?thesis using set_bit_eq_or [of k i] set_bit_eq [of k i] by (simp add: push_bit_eq_mult)
qed

lemma pack_unpack_flags:
  assumes "distinct (map fst kvs)" "kvs = pre @ suf" "list_all (\<lambda>kv. case snd kv of VBool b \<Rightarrow> True | _ \<Rightarrow> False) kvs"
    "length kvs \<le> 32" "i < 2 ^ length pre"
  shows "\<exists>n. packFlags (VObj kvs) i (length pre) (map fst suf) = Inr (i + 2 ^ length pre * n) \<and>
    n < 2 ^ length suf \<and> unpackFlags n (map fst suf) = suf"
  using assms
proof (induction suf arbitrary: pre i)
  case (Cons kv suf)
  obtain l x where kv: "kv = (l, x)" by fastforce
  then obtain b where x: "x = VBool b" using Cons.prems by (auto split: cval.splits)
  have get: "obj_get (VObj kvs) l = Inr (VBool b)"
    using map_of_is_SomeI [of kvs l x] Cons.prems(1,2) kv x by simp
  define i' where "i' = (if b then i + 2 ^ length pre else i)"
  have i': "or i (if b then 2 ^ (length pre mod 32) else 0) = i'" "i' < 2 ^ length (pre @ [kv])"
    using Cons.prems(2,4,5) or_shifted [of i "length pre"] by (auto simp: i'_def)
  have "\<exists>n. packFlags (VObj kvs) i' (length (pre @ [kv])) (map fst suf) = Inr (i' + 2 ^ length (pre @ [kv]) * n) \<and>
      n < 2 ^ length suf \<and> unpackFlags n (map fst suf) = suf"
    by (rule Cons.IH) (use Cons.prems i' in simp_all)
  then obtain n where n: "packFlags (VObj kvs) i' (length (pre @ [kv])) (map fst suf) = Inr (i' + 2 ^ length (pre @ [kv]) * n)"
      "n < 2 ^ length suf" "unpackFlags n (map fst suf) = suf" by blast
  have "packFlags (VObj kvs) i (length pre) (map fst (kv # suf)) = packFlags (VObj kvs) i' (length (pre @ [kv])) (map fst suf)"
    using get i'(1) by (simp add: kv)
  then show ?case using n kv x
    by (intro exI [of _ "2 * n + (if b then 1 else 0)"]) (auto simp: i'_def algebra_simps)
qed simp

lemma round_trip_flags:
  assumes "map fst kvs = ls" "distinct ls" "list_all (\<lambda>kv. case snd kv of VBool b \<Rightarrow> True | _ \<Rightarrow> False) kvs"
    "elemSizeFlags ls = Inr n" "p + n \<le> N"
  shows "round_trip N p n (storeFlags (VObj kvs) p ls) (loadFlags p ls) (VObj kvs)"
proof -
  have len: "length ls \<le> 32" "length ls \<le> 8 * n" "n \<in> {1, 2, 4}"
    using assms(4) by (auto simp: elemSizeFlags_def Let_def split: if_splits)
  have "length kvs = length ls" using assms(1) by (metis length_map)
  then obtain i where i: "packFlags (VObj kvs) 0 0 ls = Inr i" "i < 2 ^ length ls" "unpackFlags i ls = kvs"
    using pack_unpack_flags [of kvs "[]" kvs 0] assms(1-3) len(1) by auto
  have "i < 2 ^ (8 * n)" by (rule order.strict_trans2 [OF i(2) power_increasing [OF len(2)]]) simp
  then have fits: "numberFitsInWidth (int i) n False"
    by (simp add: numberFitsInWidth_def Let_def mult.commute flip: of_nat_less_of_nat_power_cancel_iff)
  have arg: "store_arg n (VNum (int i)) = Some (int i)" using len(3) by (auto simp: store_arg_def)
  have st: "storeFlags (VObj kvs) p ls s = storeInt (VNum (int i)) p n False s" for s :: "'a cst_scheme"
    by (simp add: storeFlags_def packFlagsIntoInt_def i assms(4))
  have ld: "loadFlags p ls s = bnd (loadIntU p n) (\<lambda>i. ret (unpackFlagsFromInt i ls)) s" for s :: "'a cst_scheme"
    by (simp add: loadFlags_def assms(4))
  have "round_trip N p n (storeInt (VNum (int i)) p n False)
      (bnd (loadIntU p n) (\<lambda>i. ret (unpackFlagsFromInt i ls))) (VObj kvs)"
    by (rule round_trip_unsigned_bnd [OF assms(5) arg fits])
      (simp add: unpackFlagsFromInt_def i(3) obj_of_distinct assms(1,2))
  then show ?thesis by (rule round_trip_cong) (simp_all add: st ld)
qed

section \<open>Records and variants\<close>

lemma round_trip_record:
  fixes st :: "cval \<Rightarrow> valtype \<Rightarrow> nat \<Rightarrow> ('x, unit) cm"
  assumes L: "layoutOf t pt = Inr L" "despecialize t = RecordT fs"
    and kvs: "map fst kvs = map fst fs" "distinct (map fst fs)"
    and b: "p + l_size L \<le> N" "p mod l_align L = 0"
    and el: "\<And>i l q. i < length fs \<Longrightarrow> layoutOf (snd (fs ! i)) pt = Inr l \<Longrightarrow> q mod l_align l = 0 \<Longrightarrow>
      q + l_size l \<le> N \<Longrightarrow>
      round_trip N q (l_size l) (st (snd (kvs ! i)) (snd (fs ! i)) q) (ld q (snd (fs ! i))) (snd (kvs ! i))"
  shows "round_trip N p (l_size L) (storeRecord st (VObj kvs) p fs (the (l_offsets L)))
    (loadRecord ld p fs (the (l_offsets L))) (VObj kvs)"
proof -
  obtain ls where ls: "length ls = length fs"
      "\<And>i. i < length fs \<Longrightarrow> layoutOf (snd (fs ! i)) pt = Inr (ls ! i)" "\<forall>k\<in>set ls. layout_ok k"
      "recordLayout (RecordT fs) ls = Inr L"
    using L by (rule layoutOf_record_fields) blast
  note R = recordLayout_Inr [OF ls(4)]
  let ?offs = "recordOffsets 0 ls" and ?n = "length fs"
  have offs: "the (l_offsets L) = ?offs" using R by simp
  have pos: "\<forall>k\<in>set ls. 0 < l_align k" using ls(3) layout_okD(3) by blast
  have al: "alignmentRecord 1 ls \<in> widths" using ls(3) by (simp add: alignmentRecord_widths)
  have fin: "recordEnd 0 ls \<le> l_size L" using R alignTo_ge widths_pos [OF al] by auto
  have field: "l_align (ls ! i) dvd ?offs ! i" "?offs ! i + l_size (ls ! i) \<le> l_size L"
      "l_align (ls ! i) dvd l_align L" if "i < ?n" for i
  proof -
    have i: "i < length ls" using that ls(1) by simp
    show "l_align (ls ! i) dvd ?offs ! i" "?offs ! i + l_size (ls ! i) \<le> l_size L"
      using recordOffsets_field [OF pos i, of 0] fin by simp_all
    have "l_align (ls ! i) \<in> widths" using ls(3) i layout_okD(1) nth_mem by blast
    moreover have "l_align (ls ! i) \<le> l_align L"
      using R alignmentRecord_ge_field [OF nth_mem [OF i], of 1] by simp
    ultimately show "l_align (ls ! i) dvd l_align L" using widths_dvd al R by simp
  qed
  let ?xs = "[0..<?n]"
  have lk: "length kvs = ?n" using kvs(1) by (metis length_map)
  have nth_kvs: "i < ?n \<Longrightarrow> fst (kvs ! i) = fst (fs ! i)" for i using kvs(1) lk by (metis nth_map)
  have get: "i < ?n \<Longrightarrow> map_of kvs (fst (fs ! i)) = Some (snd (kvs ! i))" for i
    using kvs lk nth_kvs by (metis map_of_eq_Some_iff nth_mem prod.collapse)
  have lo: "length ?offs = ?n" using ls(1) by simp
  have zip: "zip fs ?offs = map (\<lambda>i. (fs ! i, ?offs ! i)) ?xs"
    using lo by (intro nth_equalityI) simp_all
  have "round_trip N p (l_size L)
      (iterm (\<lambda>i. st (snd (kvs ! i)) (snd (fs ! i)) (p + ?offs ! i)) ?xs)
      (mapm (\<lambda>i. bnd (ld (p + ?offs ! i) (snd (fs ! i))) (\<lambda>v. ret (fst (fs ! i), v))) ?xs)
      (map (\<lambda>i. (fst (fs ! i), snd (kvs ! i))) ?xs)"
  proof (rule round_trip_iter [where pos = "\<lambda>i. p + ?offs ! i" and len = "\<lambda>i. l_size (ls ! i)"])
    fix i assume "i \<in> set ?xs"
    then have i: "i < ?n" by simp
    have "l_align (ls ! i) dvd p + ?offs ! i"
      using field [OF i] b(2) by (metis dvd_add dvd_trans mod_eq_0_iff_dvd)
    then show "round_trip N (p + ?offs ! i) (l_size (ls ! i)) (st (snd (kvs ! i)) (snd (fs ! i)) (p + ?offs ! i))
        (bnd (ld (p + ?offs ! i) (snd (fs ! i))) (\<lambda>v. ret (fst (fs ! i), v))) (fst (fs ! i), snd (kvs ! i))"
      using field(2) [OF i] b(1) by (intro round_trip_map [where k = "Pair _"] el [OF i ls(2) [OF i]]) auto
    show "p \<le> p + ?offs ! i \<and> p + ?offs ! i + l_size (ls ! i) \<le> p + l_size L" using field(2) [OF i] by simp
  next
    show "sorted_wrt (\<lambda>i j. p + ?offs ! i + l_size (ls ! i) \<le> p + ?offs ! j) ?xs"
      using recordOffsets_sep [OF pos, of _ _ 0] ls(1) by (simp add: sorted_wrt_iff_nth_less)
  qed (use b in simp)
  also have "map (\<lambda>i. (fst (fs ! i), snd (kvs ! i))) ?xs = kvs"
    using lk nth_kvs by (intro nth_equalityI) (simp_all add: prod_eq_iff)
  finally have rt: "round_trip N p (l_size L)
      (iterm (\<lambda>i. st (snd (kvs ! i)) (snd (fs ! i)) (p + ?offs ! i)) ?xs)
      (mapm (\<lambda>i. bnd (ld (p + ?offs ! i) (snd (fs ! i))) (\<lambda>v. ret (fst (fs ! i), v))) ?xs) kvs" .
  have "iterm (\<lambda>(f, off). bnd (of_res (obj_get (VObj kvs) (fst f))) (\<lambda>x. st x (snd f) (p + off))) (zip fs ?offs) =
      iterm (\<lambda>i. st (snd (kvs ! i)) (snd (fs ! i)) (p + ?offs ! i)) ?xs"
    unfolding zip iterm_map by (rule iterm_cong) (simp_all add: get)
  moreover have "mapm (\<lambda>(f, off). bnd (ld (p + off) (snd f)) (\<lambda>v. ret (fst f, v))) (zip fs ?offs) =
      mapm (\<lambda>i. bnd (ld (p + ?offs ! i) (snd (fs ! i))) (\<lambda>v. ret (fst (fs ! i), v))) ?xs"
    unfolding zip mapm_map by (rule mapm_cong) simp_all
  ultimately show ?thesis
    using round_trip_map [OF rt, of obj_of] kvs
    by (simp add: storeRecord_def loadRecord_def offs obj_of_distinct)
qed

lemma matchCase_distinct:
  "distinct (map fst cs) \<Longrightarrow> k < length cs \<Longrightarrow> fst (cs ! k) = l \<Longrightarrow> matchCase (VCase l x) cs = Inr (k, x)"
  using caseIndexOf_distinct [of cs k] by (simp add: matchCase_def)

lemma round_trip_variant:
  fixes st :: "cval \<Rightarrow> valtype \<Rightarrow> nat \<Rightarrow> ('x, unit) cm"
  assumes L: "layoutOf t pt = Inr L" "despecialize t = VariantT cs"
    and c: "distinct (map fst cs)" "k < length cs" "fst (cs ! k) = l" "snd (cs ! k) = None \<Longrightarrow> x = VNull"
    and b: "p + l_size L \<le> N" "p mod l_align L = 0"
    and el: "\<And>u m q. snd (cs ! k) = Some u \<Longrightarrow> layoutOf u pt = Inr m \<Longrightarrow> q mod l_align m = 0 \<Longrightarrow>
      q + l_size m \<le> N \<Longrightarrow> round_trip N q (l_size m) (st x u q) (ld q u) x"
  shows "round_trip N p (l_size L) (storeVariant st (VCase l x) p cs (l_disc L) (l_payload L))
    (loadVariant ld p cs (l_disc L) (l_payload L)) (VCase l x)"
proof -
  define disc where "disc = l_disc L"
  note V = variant_bounds [OF L, folded disc_def]
  have disc: "disc \<in> {1, 2, 4}" "length cs \<le> 2 ^ (8 * disc)" using discriminantSize_Inr V by auto
  have fits: "numberFitsInWidth (int k) disc False"
  proof -
    have "k < 2 ^ (8 * disc)" using disc(2) c(2) by simp
    then show ?thesis by (simp add: numberFitsInWidth_def Let_def mult.commute flip: of_nat_less_of_nat_power_cancel_iff)
  qed
  have arg: "store_arg disc (VNum (int k)) = Some (int k)" using disc(1) by (auto simp: store_arg_def)
  have D: "round_trip N p disc (storeInt (VNum (int k)) p disc False) (loadIntU p disc) k"
    using round_trip_unsigned [OF _ arg fits, of p N] V b(1) by simp
  have st: "storeVariant st (VCase l x) p cs (l_disc L) (l_payload L) =
      seqm (storeInt (VNum (int k)) p disc False)
        (case snd (cs ! k) of None \<Rightarrow> ret () | Some u \<Rightarrow> st x u (p + l_payload L))"
    using matchCase_distinct [OF c(1-3)] c(2) by (simp add: storeVariant_def disc_def)
  show ?thesis
  proof (cases "snd (cs ! k)")
    case None
    have "round_trip N p disc (seqm (storeInt (VNum (int k)) p disc False) (ret ()))
        (loadVariant ld p cs disc (l_payload L)) (VCase (fst (cs ! k)) VNull)"
      by (rule round_trip_cong [OF round_trip_bnd [OF D]])
        (use c(2) None in \<open>simp_all add: loadVariant_def seqm_run split: prod.splits sum.splits\<close>)
    then have "round_trip N p (l_size L) (seqm (storeInt (VNum (int k)) p disc False) (ret ()))
        (loadVariant ld p cs disc (l_payload L)) (VCase (fst (cs ! k)) VNull)"
      by (rule round_trip_mono) (use V b in simp_all)
    then show ?thesis using None c(3,4) unfolding st disc_def by simp
  next
    case (Some u)
    obtain m where m: "layoutOf u pt = Inr m" "l_align m dvd l_payload L" "l_align m dvd l_align L"
        "l_payload L + l_size m \<le> l_size L"
      using V c(2) Some by (metis nth_mem)
    have "l_align m dvd p + l_payload L" using m(2,3) b(2) by (metis dvd_add dvd_trans mod_eq_0_iff_dvd)
    then have P: "round_trip N (p + l_payload L) (l_size m) (st x u (p + l_payload L)) (ld (p + l_payload L) u) x"
      using el [OF Some m(1)] m(4) b(1) by simp
    have "round_trip N p (p + l_payload L + l_size m - p)
        (seqm (storeInt (VNum (int k)) p disc False) (st x u (p + l_payload L)))
        (loadVariant ld p cs disc (l_payload L)) (VCase (fst (cs ! k)) x)"
      unfolding loadVariant_def
      by (rule round_trip_seq [OF D P]) (use V c(2) Some in simp_all)
    then have "round_trip N p (l_size L)
        (seqm (storeInt (VNum (int k)) p disc False) (st x u (p + l_payload L)))
        (loadVariant ld p cs disc (l_payload L)) (VCase (fst (cs ! k)) x)"
      by (rule round_trip_mono) (use m b in simp_all)
    then show ?thesis using Some c(3) unfolding st disc_def by simp
  qed
qed

section \<open>The interpreter\<close>

lemma store_run:
  assumes "cx_memory cx = Some pt" "layoutOf t pt = Inr L" "p mod l_align L = 0" "p + l_size L \<le> length (c_mem s)"
  shows "store cx v t p s =
    (case despecialize t of
         Prim q \<Rightarrow> storePrim cx v q p
       | ListT e n \<Rightarrow> storeList (\<lambda>x u p. store cx x u p) cx v p e n
       | RecordT fs \<Rightarrow> storeRecord (\<lambda>x u p. store cx x u p) v p fs (the (l_offsets L))
       | VariantT cs \<Rightarrow> storeVariant (\<lambda>x u p. store cx x u p) v p cs (l_disc L) (l_payload L)
       | FlagsT ls \<Rightarrow> storeFlags v p ls
       | _ \<Rightarrow> store cx v t p) s"
  using assms by (auto simp: store.simps [of cx v t p] bnd_run seqm_run assertm_run split: valtype.split)

lemma load_run:
  assumes "cx_memory cx = Some pt" "layoutOf t pt = Inr L" "p mod l_align L = 0" "p + l_size L \<le> length (c_mem s)"
  shows "load cx p t s =
    (case despecialize t of
         Prim q \<Rightarrow> loadPrim cx p q
       | ListT e n \<Rightarrow> loadList (\<lambda>p u. load cx p u) cx p e n
       | RecordT fs \<Rightarrow> loadRecord (\<lambda>p u. load cx p u) p fs (the (l_offsets L))
       | VariantT cs \<Rightarrow> loadVariant (\<lambda>p u. load cx p u) p cs (l_disc L) (l_payload L)
       | FlagsT ls \<Rightarrow> loadFlags p ls
       | _ \<Rightarrow> load cx p t) s"
  using assms by (auto simp: load.simps [of cx p t] bnd_run seqm_run assertm_run split: valtype.split)

lemma round_trip_fixed_list:
  assumes mem: "cx_memory cx = Some pt" and d: "despecialize t = ListT e (Some n)" and L: "layoutOf t pt = Inr L"
    and v: "plain_value t v" and b: "p + l_size L \<le> N" "p mod l_align L = 0"
    and el: "\<And>x m q. plain_value e x \<Longrightarrow> layoutOf e pt = Inr m \<Longrightarrow> q mod l_align m = 0 \<Longrightarrow> q + l_size m \<le> N \<Longrightarrow>
      round_trip N q (l_size m) (store cx x e q) (load cx q e) x"
  shows "round_trip N p (l_size L) (storeList (\<lambda>x u p. store cx x u p) cx v p e (Some n))
    (loadList (\<lambda>p u. load cx p u) cx p e (Some n)) v"
proof -
  obtain m where m: "layoutOf e pt = Inr m" "l_align L = l_align m" "l_size L = n * l_size m"
    using L by (auto simp: layoutOf_list [OF d] mkLayout_Inr alignmentList_def elemSizeList_def)
  have ok: "layout_ok m" using m(1) by (rule layoutOf_ok)
  show ?thesis
  proof (cases "despecialize e = Prim PU8")
    case True
    then obtain bs where bs: "v = VBytes bs" "length bs = n" using v d
      by (auto simp: plain_value.simps [of t] split: cval.splits)
    have sz: "l_size m = 1" using m(1) True by (auto simp: layoutOf_Prim)
    have N: "p + n \<le> N" using b(1) by (simp add: m sz)
    show ?thesis unfolding m(3) sz
      by (rule round_trip_bytes [where bs = bs])
        (use N mem True bs m(1) in \<open>simp_all add: storeList_def loadList_def storeListIntoValidRange_def
          loadListFromValidRange_def bytesOf_def bnd_run seqm_run assertm_run\<close>)
  next
    case False
    then obtain vs where vs: "v = VArr vs" "length vs = n" "\<forall>x\<in>set vs. plain_value e x" using v d
      by (auto simp: plain_value.simps [of t] list_all_iff split: cval.splits)
    have "round_trip N p (length vs * l_size m) (storeListIntoValidRange (\<lambda>x u p. store cx x u p) cx (VArr vs) p e)
        (loadListFromValidRange (\<lambda>p u. load cx p u) cx p (length vs) e) (VArr vs)"
    proof (rule round_trip_list [OF mem m(1) False])
      show "p + length vs * l_size m \<le> N" using b(1) by (simp add: m vs)
      show "prim_value q x" if "despecialize e = Prim q" "x \<in> set vs" for q x
        using vs(3) that by (simp add: plain_value.simps [of e])
      fix i assume i: "i < length vs"
      have "l_align m dvd p + i * l_size m" using b(2) layout_okD(2) [OF ok] m(2) by (simp add: mod_eq_0_iff_dvd)
      moreover have "p + i * l_size m + l_size m \<le> N"
        using b(1) mult_le_mono1 [of "Suc i" n "l_size m"] i by (simp add: m vs)
      ultimately show "round_trip N (p + i * l_size m) (l_size m) (store cx (vs ! i) e (p + i * l_size m))
          (load cx (p + i * l_size m) e) (vs ! i)"
        using vs(3) i m(1) by (intro el) simp_all
    qed
    then show ?thesis by (simp add: m(3) vs storeList_def loadList_def)
  qed
qed

lemma round_trip_plain:
  "plain_value t v \<Longrightarrow> layoutOf t pt = Inr L \<Longrightarrow> cx_memory cx = Some pt \<Longrightarrow> p mod l_align L = 0 \<Longrightarrow>
   p + l_size L \<le> N \<Longrightarrow> round_trip N p (l_size L) (store cx v t p) (load cx p t) v"
proof (induction "tsize t" arbitrary: t v L p rule: less_induct)
  case less
  note v = less.prems(1) and L = less.prems(2) and mem = less.prems(3) and al = less.prems(4) and b = less.prems(5)
  have cong: "round_trip N p (l_size L) (store cx v t p) (load cx p t) v"
    if "round_trip N p (l_size L) st ld v"
      "\<And>s. length (c_mem s) = N \<Longrightarrow> store cx v t p s = st s" "\<And>s. length (c_mem s) = N \<Longrightarrow> load cx p t s = ld s"
    for st ld using round_trip_cong [OF that] .
  note run = store_run [OF mem L al] load_run [OF mem L al]
  show ?case
  proof (cases t rule: despecialize_cases)
    case (prim q)
    then have "l_size L = snd (prim_width q pt)" "prim_value q v"
      using L v by (auto simp: layoutOf_Prim plain_value.simps [of t])
    then show ?thesis
      using round_trip_prim [of q v p pt N cx] b prim by (intro cong [of "storePrim cx v q p" "loadPrim cx p q"]) (simp_all add: run)
  next
    case (list e n)
    show ?thesis
    proof (cases n)
      case None
      then show ?thesis using v list by (simp add: plain_value.simps [of t])
    next
      case (Some k)
      show ?thesis
        by (rule cong [OF round_trip_fixed_list [OF mem _ L v b al]])
          (use less.hyps tsize_of_list [OF list] mem b list Some in \<open>simp_all add: run\<close>)
    qed
  next
    case (rec fs)
    then obtain kvs where kvs: "v = VObj kvs" "map fst kvs = map fst fs" "distinct (map fst fs)"
        "list_all (\<lambda>(f, kv). plain_value (snd f) (snd kv)) (zip fs kvs)"
      using v by (auto simp: plain_value.simps [of t] split: cval.splits)
    have len: "length kvs = length fs" using kvs(2) by (metis length_map)
    show ?thesis unfolding kvs(1)
    proof (rule cong [unfolded kvs(1), OF round_trip_record [OF L rec kvs(2,3) b al]])
      fix i l q assume i: "i < length fs" "layoutOf (snd (fs ! i)) pt = Inr l" "q mod l_align l = 0" "q + l_size l \<le> N"
      have "plain_value (snd (fs ! i)) (snd (kvs ! i))"
        using kvs(4) i(1) len by (auto simp: list_all_length)
      then show "round_trip N q (l_size l) (store cx (snd (kvs ! i)) (snd (fs ! i)) q) (load cx q (snd (fs ! i))) (snd (kvs ! i))"
        using less.hyps [OF tsize_of_record [OF rec nth_mem [OF i(1)]]] i mem by simp
    qed (use b rec kvs(1) in \<open>simp_all add: run\<close>)
  next
    case (variant cs)
    then obtain l x c where c: "v = VCase l x" "distinct (map fst cs)" "c \<in> set cs" "fst c = l"
        "case snd c of None \<Rightarrow> x = VNull | Some u \<Rightarrow> plain_value u x"
      using v by (auto simp: plain_value.simps [of t] list_ex_iff split: cval.splits)
    then obtain k where k: "k < length cs" "cs ! k = c" by (auto simp: in_set_conv_nth)
    show ?thesis unfolding c(1)
    proof (rule cong [unfolded c(1), OF round_trip_variant [OF L variant c(2) k(1), of l x]])
      fix u m q assume u: "snd (cs ! k) = Some u" "layoutOf u pt = Inr m" "q mod l_align m = 0" "q + l_size m \<le> N"
      then show "round_trip N q (l_size m) (store cx x u q) (load cx q u) x"
        using less.hyps [OF tsize_of_variant [OF variant c(3)]] c(5) k(2) mem by simp
    qed (use b al variant c k in \<open>simp_all add: run\<close>)
  next
    case (flags ls)
    then obtain kvs where kvs: "v = VObj kvs" "map fst kvs = ls" "distinct ls"
        "list_all (\<lambda>kv. case snd kv of VBool b \<Rightarrow> True | _ \<Rightarrow> False) kvs"
      using v by (auto simp: plain_value.simps [of t] split: cval.splits)
    obtain n where n: "elemSizeFlags ls = Inr n" "l_size L = n"
      using L flags by (auto simp: layoutOf_flags mkLayout_Inr)
    show ?thesis
      using round_trip_flags [OF kvs(2-4) n(1), of p N] b n(2) kvs(1) flags
      by (intro cong [of "storeFlags v p ls" "loadFlags p ls"]) (simp_all add: run)
  next
    case handle
    then show ?thesis using v by (cases "despecialize t") (simp_all add: plain_value.simps [of t])
  qed
qed

text \<open>C17. Values survive linear memory: for a type built from numbers, booleans, chars, flags,
  fixed-length lists, records and variants, and any value of that type, storing at an aligned
  in-bounds address succeeds, changes only bytes of the value's own range, and loading there,
  in any later state of the memory in which those bytes are unchanged, gives the value back
  and changes nothing.\<close>

theorem store_load_plain:
  assumes "plain_value t v" "layoutOf t pt = Inr L" "cx_memory cx = Some pt"
    "p mod l_align L = 0" "p + l_size L \<le> length (c_mem s)"
    "length (c_mem u) = length (c_mem s)"
    "subarray (c_mem u) p (l_size L) = subarray (c_mem (snd (store cx v t p s))) p (l_size L)"
  shows "(\<exists>m. store cx v t p s = (Inr (), s\<lparr>c_mem := m\<rparr>) \<and> same_outside p (l_size L) (c_mem s) m) \<and>
    load cx p t u = (Inr v, u)"
proof -
  obtain m where m: "store cx v t p s = (Inr (), s\<lparr>c_mem := m\<rparr>)" "same_outside p (l_size L) (c_mem s) m"
      "reads (length (c_mem s)) p (l_size L) (load cx p t) v m"
    using round_trip_plain [OF assms(1-5)] refl by (rule round_tripD)
  have "load cx p t u = (Inr v, u)"
    by (rule readsD [OF m(3) assms(6)]) (use assms(7) m(1) in simp)
  with m show ?thesis by blast
qed

text \<open>A record of a byte, an optional 32-bit number and a three-element list of booleans.\<close>

definition sample_type :: valtype where
  "sample_type = RecordT [(''a'', Prim PU8), (''b'', OptionT (Prim PS32)), (''c'', ListT (Prim PBool) (Some 3))]"

definition sample_value :: cval where
  "sample_value = VObj [(''a'', VNum 7), (''b'', VCase ''some'' (VNum (- 2))), (''c'', VArr [VBool True, VBool False, VBool True])]"

definition sample_state :: cst where
  "sample_state = init_state (replicate 32 0xAA)"

lemma sample_plain: "plain_value sample_type sample_value"
  by (simp add: sample_type_def sample_value_def plain_value.simps numberFitsInWidth_def)

lemma sample_layout: "\<exists>L. layoutOf sample_type P32 = Inr L \<and> l_align L = 4 \<and> l_size L = 16"
  by (simp add: sample_type_def layoutOf_record layoutOf_variant layoutOf_list layoutOf_Prim recordLayout_def
      elemSizeRecord_def variantLayout_def alignmentVariant_def elemSizeVariant_def discriminantSize_def
      alignmentList_def elemSizeList_def mkLayout_widths widths_def alignTo_def Let_def)

lemma store_load_plain_witness:
  "load (plain_cx None) 4 sample_type (snd (store (plain_cx None) sample_value sample_type 4 sample_state)) =
    (Inr sample_value, snd (store (plain_cx None) sample_value sample_type 4 sample_state))"
proof -
  obtain L where L: "layoutOf sample_type P32 = Inr L" "l_align L = 4" "l_size L = 16" using sample_layout by blast
  let ?s = "snd (store (plain_cx None) sample_value sample_type 4 sample_state)"
  have N: "length (c_mem sample_state) = 32" by (simp add: sample_state_def init_state_def)
  have "round_trip 32 4 (l_size L) (store (plain_cx None) sample_value sample_type 4)
      (load (plain_cx None) 4 sample_type) sample_value"
    by (rule round_trip_plain [OF sample_plain L(1)]) (simp_all add: plain_cx_def L)
  then obtain m where "store (plain_cx None) sample_value sample_type 4 sample_state =
      (Inr (), sample_state\<lparr>c_mem := m\<rparr>)" "length m = 32" using N by (rule round_tripD)
  then show ?thesis
    by (intro store_load_plain [OF sample_plain L(1), where s = sample_state, THEN conjunct2])
      (simp_all add: L N, simp_all add: plain_cx_def)
qed

section \<open>Bulk copies agree with the element loops\<close>

lemma load_prim_run:
  assumes "cx_memory cx = Some pt" "despecialize e = Prim q" "p mod fst (prim_width q pt) = 0"
    "p + snd (prim_width q pt) \<le> length (c_mem s)"
  shows "load cx p e s = loadPrim cx p q s"
  using load_run [OF assms(1) layoutOf_Prim [OF assms(2)]] assms by simp

lemma view_get_loadPrim:
  assumes "bulk_ctor q = Some k" "p + bytes_per_element k \<le> length (c_mem s)"
  shows "loadPrim cx p q s = (Inr (view_get k (subarray (c_mem s) p (bytes_per_element k))), s)"
  using assms by (cases q) (auto simp: bnd_run loadIntU_run loadIntS_run canonicalNaN_def
    decodeI32AsFloat_def canonicalizeNan32_def canonical32
    decodeI64AsFloat_def canonicalizeNan64_def coreF64ReinterpretI64_def)

lemma bool_loadPrim:
  assumes "p + 1 \<le> length (c_mem s)"
  shows "loadPrim cx p PBool s = (Inr (VBool (c_mem s ! p \<noteq> 0)), s)"
proof -
  have "subarray (c_mem s) p 1 = [c_mem s ! p]"
    using assms by (intro nth_equalityI) (auto simp: nth_subarray simp del: One_nat_def)
  then show ?thesis using assms by (simp add: bnd_run loadIntU_run convertIntToBool_def unat_gt_0)
qed

lemma mapm_ret_all: "(\<And>x. x \<in> set xs \<Longrightarrow> g x s = (Inr (h x), s)) \<Longrightarrow> mapm g xs s = (Inr (map h xs), s)"
  by (rule mapm_all) simp

text \<open>C18. Reading a list through a typed array is an optimisation only: for every element type
  (but \<open>u8\<close>, which lifts to a byte array), aligned in-bounds address, length, platform byte
  order and backing alignment, \<open>loadListFromValidRange\<close> does what loading the elements one by
  one does, errors included.\<close>

theorem bulk_load_is_element_loop:
  assumes "cx_memory cx = Some pt" "layoutOf e pt = Inr L" "despecialize e \<noteq> Prim PU8"
    "ptr mod l_align L = 0" "ptr + len * l_size L \<le> length (c_mem s)"
  shows "loadListFromValidRange (\<lambda>p u. load cx p u) cx ptr len e s =
    bnd (mapm (\<lambda>i. load cx (ptr + i * l_size L) e) [0..<len]) (\<lambda>vs. ret (VArr vs)) s"
proof -
  let ?k = "despecialize e"
  let ?R = "bnd (mapm (\<lambda>i. load cx (ptr + i * l_size L) e) [0..<len]) (\<lambda>vs. ret (VArr vs))"
  have run: "loadListFromValidRange (\<lambda>p u. load cx p u) cx ptr len e =
      bnd (tryLoadNumericList cx ptr len ?k) (\<lambda>bulk. case bulk of Some vs \<Rightarrow> ret (VArr vs) | None \<Rightarrow> ?R)"
    using assms(1-3) by (simp add: loadListFromValidRange_def Let_def)
  have elem: "load cx (ptr + i * l_size L) e s = loadPrim cx (ptr + i * l_size L) q s \<and>
      ptr + i * l_size L + l_size L \<le> length (c_mem s)" if "?k = Prim q" "i < len" for q i
  proof -
    have i: "ptr + i * l_size L + l_size L \<le> length (c_mem s)"
      using assms(5) mult_le_mono1 [of "Suc i" len "l_size L"] that(2) by simp
    have sz: "l_size L = snd (prim_width q pt)" "l_align L = fst (prim_width q pt)"
      using assms(2) that(1) by (auto simp: layoutOf_Prim)
    have "l_align L dvd l_size L" using layoutOf_ok [OF assms(2)] by (rule layout_okD)
    then have "(ptr + i * l_size L) mod l_align L = 0" using assms(4) by (simp add: mod_eq_0_iff_dvd)
    with i sz show ?thesis using load_prim_run [OF assms(1) that(1)] by simp
  qed
  consider "no_bulk ?k" | "?k = Prim PBool" | q k where "?k = Prim q" "bulk_ctor q = Some k"
    by (cases "despecialize e") (simp_all add: no_bulk_def, metis not_None_eq)
  then show ?thesis
  proof cases
    case 1
    then show ?thesis by (simp add: run no_bulk_try)
  next
    case 2
    have sz: "l_size L = 1" using assms(2) 2 by (auto simp: layoutOf_Prim)
    have "mapm (\<lambda>i. load cx (ptr + i * l_size L) e) [0..<len] s =
        (Inr (map (\<lambda>i. VBool (c_mem s ! (ptr + i) \<noteq> 0)) [0..<len]), s)"
      using elem [OF 2] by (intro mapm_ret_all) (auto simp: sz bool_loadPrim simp del: loadPrim.simps)
    moreover have "map (\<lambda>b. VBool (b \<noteq> 0)) (subarray (c_mem s) ptr len) = map (\<lambda>i. VBool (c_mem s ! (ptr + i) \<noteq> 0)) [0..<len]"
      using assms(5) sz by (intro nth_equalityI) (simp_all add: nth_subarray)
    ultimately show ?thesis
      using assms(5) sz by (simp add: run 2 tryLoadNumericList_def bytesOf_def bnd_run assertm_run seqm_run)
  next
    case (3 q k)
    have sz: "l_size L = bytes_per_element k" using assms(2) 3 bulk_width [of q k pt] by (auto simp: layoutOf_Prim)
    have "mapm (\<lambda>i. load cx (ptr + i * l_size L) e) [0..<len] s =
        (Inr (map (\<lambda>i. view_get k (subarray (c_mem s) (ptr + i * bytes_per_element k) (bytes_per_element k))) [0..<len]), s)"
      using elem [OF 3(1)] by (intro mapm_ret_all) (auto simp: sz view_get_loadPrim [OF 3(2)] simp del: loadPrim.simps)
    then show ?thesis
      using assms(5) sz by (simp add: run 3 tryLoad_bulk bnd_run viewOf_run)
  qed
qed

lemma bulk_load_is_element_loop_witness:
  "loadListFromValidRange (\<lambda>p u. load (plain_cx None) p u) (plain_cx None) 4 3 (Prim PS16) sample_state =
    bnd (mapm (\<lambda>i. load (plain_cx None) (4 + i * 2) (Prim PS16)) [0..<3]) (\<lambda>vs. ret (VArr vs)) sample_state"
  using bulk_load_is_element_loop [of "plain_cx None" P32 "Prim PS16" _ 4 3 sample_state]
  by (simp add: plain_cx_def layoutOf_Prim sample_state_def init_state_def)

end
