(* ===== verification/Cabi_Lift_Lower.thy ===== *)
theory Cabi_Lift_Lower
  imports Cabi_Roundtrip Cabi_Flatten
begin

text \<open>
  Flat lifting and lowering (\<open>runtime/src/cabi/lift.ts\<close>, \<open>lower.ts\<close>) and the passing of
  whole value lists with spilling to memory (\<open>values.ts\<close>).

  A \<open>ValueIter\<close> is a state: the core values with the position of the
  \<open>CoreValueIter\<close>, and one frame of remaining lane types for each variant coercion
  iterator that is open, the innermost first. Lanes are values: \<open>VNum\<close> (or an integral
  \<open>VFlt\<close>) for i32, \<open>VBig\<close> for i64, \<open>VFlt\<close> or \<open>VNum\<close> for f32 and f64.
\<close>

section \<open>Value iterators\<close>

record viter =
  vi_frames :: "core_type list list"
  vi_values :: "cval list"
  vi_pos :: nat

type_synonym ('x, 'a) lm = "('x cst_scheme \<times> viter, 'a) m"

fun lane_ok :: "core_type \<Rightarrow> cval \<Rightarrow> bool" where
  "lane_ok I32 v = (case num_int v of Some i \<Rightarrow> 0 \<le> i \<and> i < 2 ^ 32 | None \<Rightarrow> False)"
| "lane_ok I64 v = (case v of VBig i \<Rightarrow> 0 \<le> i \<and> i < 2 ^ 64 | _ \<Rightarrow> False)"
| "lane_ok F32 v = (case v of VNum _ \<Rightarrow> True | VFlt _ \<Rightarrow> True | _ \<Rightarrow> False)"
| "lane_ok F64 v = (case v of VNum _ \<Rightarrow> True | VFlt _ \<Rightarrow> True | _ \<Rightarrow> False)"

fun lane_message :: "core_type \<Rightarrow> string" where
  "lane_message I32 = ''expected canonical i32 lane value''"
| "lane_message I64 = ''expected canonical i64 lane value''"
| "lane_message _ = ''expected float lane value''"

text \<open>\<open>CoreValueIter.next\<close>; \<open>None\<close> is the type \<open>undefined\<close> that an exhausted coercion
  iterator passes on.\<close>

definition core_next :: "cval list \<Rightarrow> nat \<Rightarrow> core_type option \<Rightarrow> (cval \<times> nat) res" where
  "core_next vs i t =
     (let v = (if i < length vs then vs ! i else VUndef) in
      case t of
        None \<Rightarrow> Inr (v, i + 1)
      | Some k \<Rightarrow> rbind (rassert (lane_ok k v) (lane_message k)) (\<lambda>_. Inr (v, i + 1)))"

definition iter_done :: "viter \<Rightarrow> bool" where
  "iter_done it \<longleftrightarrow> vi_pos it = length (vi_values it)"

definition wrapI64ToI32 :: "cval \<Rightarrow> nat res" where
  "wrapI64ToI32 v =
     (case v of
        VBig i \<Rightarrow> rbind (rassert (0 \<le> i \<and> i < 2 ^ 64) []) (\<lambda>_. Inr (nat (i mod 2 ^ 32)))
      | _ \<Rightarrow> Inl (AssertionError []))"

definition as_lane :: "cval \<Rightarrow> nat res" where
  "as_lane v = (case num_int v of Some i \<Rightarrow> Inr (nat i) | None \<Rightarrow> Inl (TypeError ''not an integer''))"

text \<open>The body of the coercion iterator's \<open>next\<close> once the lane has been read.\<close>

definition coerce_lane :: "core_type option \<Rightarrow> core_type option \<Rightarrow> cval \<Rightarrow> cval res" where
  "coerce_lane have want x =
     (if have = Some I32 \<and> want = Some F32 then
        rbind (as_lane x) (\<lambda>i. Inr (VFlt (decodeI32AsFloat (of_nat i))))
      else if have = Some I64 \<and> want = Some I32 then
        rbind (wrapI64ToI32 x) (\<lambda>i. Inr (VNum (int i)))
      else if have = Some I64 \<and> want = Some F32 then
        rbind (wrapI64ToI32 x) (\<lambda>i. Inr (VFlt (decodeI32AsFloat (of_nat i))))
      else if have = Some I64 \<and> want = Some F64 then
        (case x of VBig i \<Rightarrow> Inr (VFlt (decodeI64AsFloat (of_int i))) | _ \<Rightarrow> Inl (TypeError ''not a bigint''))
      else rbind (rassert (have = want) ''lane mismatch'') (\<lambda>_. Inr x))"

text \<open>\<open>next\<close> of the innermost iterator: each frame takes its next lane type, asks the
  iterator outside it for that lane and coerces what it gets.\<close>

fun next_lane :: "core_type list list \<Rightarrow> cval list \<Rightarrow> nat \<Rightarrow> core_type option \<Rightarrow>
    (cval \<times> core_type list list \<times> nat) res" where
  "next_lane [] vs i want = rbind (core_next vs i want) (\<lambda>(v, j). Inr (v, [], j))"
| "next_lane (flat # frames) vs i want =
     (let have = (case flat of [] \<Rightarrow> None | f # _ \<Rightarrow> Some f) in
      rbind (next_lane frames vs i have) (\<lambda>(x, frames', j).
      rbind (coerce_lane have want x) (\<lambda>y. Inr (y, tl flat # frames', j))))"

definition on_cx :: "('x, 'a) cm \<Rightarrow> ('x, 'a) lm" where
  "on_cx a = zoom fst (\<lambda>s (_, it). (s, it)) a"

definition vi_next :: "core_type \<Rightarrow> ('x, cval) lm" where
  "vi_next t =
     bnd (gets snd) (\<lambda>it.
     bnd (of_res (next_lane (vi_frames it) (vi_values it) (vi_pos it) (Some t))) (\<lambda>(v, frames, i).
     seqm (modify (\<lambda>(s, it). (s, it\<lparr>vi_frames := frames, vi_pos := i\<rparr>)))
     (ret v)))"

definition push_frame :: "core_type list \<Rightarrow> ('x, unit) lm" where
  "push_frame flat = modify (\<lambda>(s, it). (s, it\<lparr>vi_frames := flat # vi_frames it\<rparr>))"

definition pop_frame :: "('x, core_type list) lm" where
  "pop_frame =
     bnd (gets (\<lambda>(s, it). hd (vi_frames it))) (\<lambda>flat.
     seqm (modify (\<lambda>(s, it). (s, it\<lparr>vi_frames := tl (vi_frames it)\<rparr>)))
     (ret flat))"

section \<open>Flat lifting\<close>

definition next_i32 :: "('x, nat) lm" where
  "next_i32 = bnd (vi_next I32) (\<lambda>v. of_res (as_lane v))"

definition next_ptr :: "ptr_type \<Rightarrow> ('x, nat) lm" where
  "next_ptr pt =
     bnd (vi_next (core_of_ptr pt)) (\<lambda>v.
     case v of VBig i \<Rightarrow> ret (nat i) | _ \<Rightarrow> of_res (as_lane v))"

definition next_f64 :: "core_type \<Rightarrow> ('x, 64 word) lm" where
  "next_f64 t = bnd (vi_next t) (\<lambda>v. of_res (to_f64 v))"

definition liftFlatUnsigned32 :: "nat \<Rightarrow> ('x, cval) lm" where
  "liftFlatUnsigned32 tWidth =
     bnd next_i32 (\<lambda>i.
     seqm (assertm (i < 2 ^ 32) [])
     (ret (VNum (int (i mod 2 ^ tWidth)))))"

definition next_i64 :: "('x, int) lm" where
  "next_i64 = bnd (vi_next I64) (\<lambda>v.
     case v of VBig i \<Rightarrow> ret i | _ \<Rightarrow> throw (TypeError ''not a bigint''))"

definition liftFlatUnsigned64 :: "('x, cval) lm" where
  "liftFlatUnsigned64 =
     bnd next_i64 (\<lambda>i. seqm (assertm (0 \<le> i \<and> i < 2 ^ 64) []) (ret (VBig i)))"

definition liftFlatSigned32 :: "nat \<Rightarrow> ('x, cval) lm" where
  "liftFlatSigned32 tWidth =
     bnd next_i32 (\<lambda>i0.
     seqm (assertm (i0 < 2 ^ 32) [])
     (let i = i0 mod 2 ^ tWidth in
      if i \<ge> 2 ^ (tWidth - 1) then ret (VNum (int i - 2 ^ tWidth)) else ret (VNum (int i))))"

definition liftFlatSigned64 :: "('x, cval) lm" where
  "liftFlatSigned64 =
     bnd next_i64 (\<lambda>i.
     seqm (assertm (0 \<le> i \<and> i < 2 ^ 64) [])
     (if i \<ge> 2 ^ 63 then ret (VBig (i - 2 ^ 64)) else ret (VBig i)))"

definition liftFlatString :: "'x cst_scheme cx \<Rightarrow> ('x, cval) lm" where
  "liftFlatString cx =
     bnd (on_cx (requireMem cx)) (\<lambda>pt.
     bnd (next_ptr pt) (\<lambda>ptr.
     bnd (next_ptr pt) (\<lambda>packedLength.
     on_cx (loadStringFromRange cx ptr packedLength))))"

text \<open>\<open>Uint8Array.from\<close> of integers.\<close>

definition bytes_of_values :: "cval list \<Rightarrow> cval" where
  "bytes_of_values vs = VBytes (map (\<lambda>v. case num_int v of Some i \<Rightarrow> of_int i | None \<Rightarrow> 0) vs)"

definition liftFlatList :: "(valtype \<Rightarrow> ('x, cval) lm) \<Rightarrow> 'x cst_scheme cx \<Rightarrow> valtype \<Rightarrow> nat option \<Rightarrow> ('x, cval) lm" where
  "liftFlatList lift cx elemType maybeLength =
     (case maybeLength of
        Some n \<Rightarrow>
          bnd (mapm (\<lambda>_. lift elemType) [0..<n]) (\<lambda>a.
          if despecialize elemType = Prim PU8 then ret (bytes_of_values a) else ret (VArr a))
      | None \<Rightarrow>
          bnd (on_cx (requireMem cx)) (\<lambda>pt.
          bnd (next_ptr pt) (\<lambda>ptr.
          bnd (next_ptr pt) (\<lambda>len.
          on_cx (loadListFromRange (\<lambda>p u. load cx p u) cx ptr len elemType)))))"

definition liftFlatRecord :: "(valtype \<Rightarrow> ('x, cval) lm) \<Rightarrow> field_type list \<Rightarrow> ('x, cval) lm" where
  "liftFlatRecord lift flds =
     bnd (mapm (\<lambda>f. bnd (lift (snd f)) (\<lambda>v. ret (fst f, v))) flds) (\<lambda>kvs. ret (obj_of kvs))"

definition liftFlatVariant :: "(valtype \<Rightarrow> ('x, cval) lm) \<Rightarrow> 'x cst_scheme cx \<Rightarrow> case_type list \<Rightarrow> ('x, cval) lm" where
  "liftFlatVariant lift cx cases =
     bnd (of_res (flattenType (VariantT cases) (cx_memory cx))) (\<lambda>flatTypes.
     seqm (assertm (flatTypes \<noteq> [] \<and> hd flatTypes = I32) [])
     (bnd next_i32 (\<lambda>caseIndex.
      if caseIndex \<ge> length cases then throw (Trap (disc_message caseIndex (length cases)))
      else
        seqm (push_frame (tl flatTypes))
        (let c = cases ! caseIndex in
         bnd (case snd c of None \<Rightarrow> ret VNull | Some u \<Rightarrow> lift u) (\<lambda>v.
         bnd pop_frame (\<lambda>flat.
         seqm (iterm (\<lambda>have. bnd (vi_next have) (\<lambda>_. ret ())) flat)
         (ret (VCase (fst c) v))))))))"

definition liftFlatFlags :: "string list \<Rightarrow> ('x, cval) lm" where
  "liftFlatFlags labels =
     seqm (assertm (0 < length labels \<and> length labels \<le> 32) [])
     (bnd next_i32 (\<lambda>i.
     ret (unpackFlagsFromInt i labels)))"

fun liftFlatPrim :: "'x cst_scheme cx \<Rightarrow> prim \<Rightarrow> ('x, cval) lm" where
  "liftFlatPrim cx PBool = bnd next_i32 (\<lambda>i. ret (convertIntToBool i))"
| "liftFlatPrim cx PU8 = liftFlatUnsigned32 8"
| "liftFlatPrim cx PU16 = liftFlatUnsigned32 16"
| "liftFlatPrim cx PU32 = liftFlatUnsigned32 32"
| "liftFlatPrim cx PU64 = liftFlatUnsigned64"
| "liftFlatPrim cx PS8 = liftFlatSigned32 8"
| "liftFlatPrim cx PS16 = liftFlatSigned32 16"
| "liftFlatPrim cx PS32 = liftFlatSigned32 32"
| "liftFlatPrim cx PS64 = liftFlatSigned64"
| "liftFlatPrim cx PF32 = bnd (next_f64 F32) (\<lambda>w. ret (VFlt (canonicalizeNan32 w)))"
| "liftFlatPrim cx PF64 = bnd (next_f64 F64) (\<lambda>w. ret (VFlt (canonicalizeNan64 w)))"
| "liftFlatPrim cx PChar = bnd next_i32 (\<lambda>i. on_cx (convertI32ToChar i))"
| "liftFlatPrim cx PString = liftFlatString cx"

lemma liftFlatList_cong [fundef_cong]:
  "e = e' \<Longrightarrow> lift e' = lift' e' \<Longrightarrow> liftFlatList lift cx e n = liftFlatList lift' cx e' n"
  by (simp add: liftFlatList_def cong: option.case_cong)

lemma liftFlatRecord_cong [fundef_cong]:
  "flds = flds' \<Longrightarrow> (\<And>f. f \<in> set flds' \<Longrightarrow> lift (snd f) = lift' (snd f)) \<Longrightarrow>
   liftFlatRecord lift flds = liftFlatRecord lift' flds'"
  unfolding liftFlatRecord_def by (intro arg_cong2 [where f = bnd] mapm_cong) auto

lemma liftFlatVariant_cong [fundef_cong]:
  assumes "cases = cases'" "\<And>c u. c \<in> set cases' \<Longrightarrow> snd c = Some u \<Longrightarrow> lift u = lift' u"
  shows "liftFlatVariant lift cx cases = liftFlatVariant lift' cx cases'"
proof -
  have "i < length cases' \<Longrightarrow> snd (cases' ! i) = Some u \<Longrightarrow> lift u = lift' u" for i u
    using assms(2) nth_mem by blast
  then show ?thesis unfolding liftFlatVariant_def assms(1) Let_def
    by (intro bnd_cong seqm_cong refl if_cong) (simp_all add: not_le cong: option.case_cong)
qed

function liftFlat :: "'x cst_scheme cx \<Rightarrow> valtype \<Rightarrow> ('x, cval) lm" where
  "liftFlat cx t =
     (case despecialize t of
        Prim p \<Rightarrow> liftFlatPrim cx p
      | ErrorContextT \<Rightarrow> bnd next_i32 (\<lambda>i. on_cx (cx_liftErrorContext cx i))
      | ListT e n \<Rightarrow> liftFlatList (\<lambda>u. liftFlat cx u) cx e n
      | RecordT fs \<Rightarrow> liftFlatRecord (\<lambda>u. liftFlat cx u) fs
      | VariantT cs \<Rightarrow> liftFlatVariant (\<lambda>u. liftFlat cx u) cx cs
      | FlagsT ls \<Rightarrow> liftFlatFlags ls
      | OwnT rt \<Rightarrow> bnd next_i32 (\<lambda>i. bnd (on_cx (liftOwn cx i rt)) (\<lambda>r. ret (VNum r)))
      | BorrowT rt \<Rightarrow> bnd next_i32 (\<lambda>i. bnd (on_cx (liftBorrow cx i rt)) (\<lambda>r. ret (VNum r)))
      | StreamT e \<Rightarrow> bnd next_i32 (\<lambda>i. on_cx (cx_liftStream cx i e))
      | FutureT e \<Rightarrow> bnd next_i32 (\<lambda>i. on_cx (cx_liftFuture cx i e))
      | _ \<Rightarrow> throw (TypeError ''unreachable''))"
  by pat_completeness auto

termination
  by (relation "measure (\<lambda>(cx, t). tsize t)")
    (auto intro: tsize_of_list tsize_of_record [where f = "(a, b)" for a b, simplified]
      tsize_of_variant [where c = "(a, Some b)" for a b, simplified])

declare liftFlat.simps [simp del]

section \<open>Flat lowering\<close>

text \<open>\<open>Number(v)\<close> of a raw \<open>bool\<close>; a raw value that is neither boolean nor number is outside
  the value contract.\<close>

fun number_of :: "cval \<Rightarrow> cval res" where
  "number_of (VBool b) = Inr (VNum (if b then 1 else 0))"
| "number_of (VNum i) = Inr (VNum i)"
| "number_of (VFlt w) = Inr (VFlt w)"
| "number_of VNull = Inr (VNum 0)"
| "number_of VUndef = Inr (VFlt CANONICAL_FLOAT64_NAN)"
| "number_of _ = Inl (TypeError ''not a boolean'')"

definition lowerFlatSigned32 :: "cval \<Rightarrow> cval list res" where
  "lowerFlatSigned32 v =
     rbind (as_num v) (\<lambda>i. if i < 0 then Inr [VNum (i + 2 ^ 32)] else Inr [v])"

definition lowerFlatSigned64 :: "cval \<Rightarrow> cval list res" where
  "lowerFlatSigned64 v =
     (case v of
        VBig i \<Rightarrow> if i < 0 then Inr [VBig (i + 2 ^ 64)] else Inr [VBig i]
      | _ \<Rightarrow> Inl (TypeError ''not a bigint''))"

definition ptr_lane :: "ptr_type \<Rightarrow> nat \<Rightarrow> cval" where
  "ptr_lane pt n = (if pt = P32 then VNum (int n) else VBig (int n))"

definition lowerFlatString :: "'x cst_scheme cx \<Rightarrow> cval \<Rightarrow> ('x, cval list) cm" where
  "lowerFlatString cx v =
     bnd (of_res (as_string v)) (\<lambda>src.
     bnd (storeStringIntoRange cx src) (\<lambda>(ptr, packedLength).
     bnd (requireMem cx) (\<lambda>pt.
     ret [ptr_lane pt ptr, ptr_lane pt packedLength])))"

definition lowerFlatList :: "(cval \<Rightarrow> valtype \<Rightarrow> ('x, cval list) cm) \<Rightarrow> 'x cst_scheme cx \<Rightarrow> cval \<Rightarrow> valtype \<Rightarrow>
    nat option \<Rightarrow> ('x, cval list) cm" where
  "lowerFlatList low cx v elemType maybeLength =
     (case maybeLength of
        Some n \<Rightarrow>
          bnd (of_res (elements v)) (\<lambda>vs.
          seqm (assertm (n = length vs) ''fixed-length list length mismatch'')
          (bnd (mapm (\<lambda>x. low x elemType) vs) (\<lambda>flat. ret (concat flat))))
      | None \<Rightarrow>
          bnd (storeListIntoRange (\<lambda>x u p. store cx x u p) cx v elemType) (\<lambda>(ptr, len).
          bnd (requireMem cx) (\<lambda>pt.
          ret [ptr_lane pt ptr, ptr_lane pt len])))"

definition lowerFlatRecord :: "(cval \<Rightarrow> valtype \<Rightarrow> ('x, cval list) cm) \<Rightarrow> cval \<Rightarrow> field_type list \<Rightarrow>
    ('x, cval list) cm" where
  "lowerFlatRecord low v flds =
     bnd (mapm (\<lambda>f. bnd (of_res (obj_get v (fst f))) (\<lambda>x. low x (snd f))) flds) (\<lambda>flat.
     ret (concat flat))"

text \<open>A lane of the case's own flat type stored in the joined lane.\<close>

definition widen_lane :: "core_type option \<Rightarrow> core_type option \<Rightarrow> cval \<Rightarrow> cval res" where
  "widen_lane have want fv =
     (if have = Some F32 \<and> want = Some I32 then
        rbind (to_f64 fv) (\<lambda>w. Inr (VNum (uint (encodeFloatAsI32 w))))
      else if have = Some I32 \<and> want = Some I64 then rbind (as_num fv) (\<lambda>i. Inr (VBig i))
      else if have = Some F32 \<and> want = Some I64 then
        rbind (to_f64 fv) (\<lambda>w. Inr (VBig (uint (encodeFloatAsI32 w))))
      else if have = Some F64 \<and> want = Some I64 then
        rbind (to_f64 fv) (\<lambda>w. Inr (VBig (uint (encodeFloatAsI64 w))))
      else rbind (rassert (have = want) ''lane mismatch'') (\<lambda>_. Inr fv))"

definition hd_opt :: "'a list \<Rightarrow> 'a option" where
  "hd_opt xs = (case xs of [] \<Rightarrow> None | x # _ \<Rightarrow> Some x)"

fun widen_lanes :: "cval list \<Rightarrow> core_type list \<Rightarrow> core_type list \<Rightarrow> (cval list \<times> core_type list) res" where
  "widen_lanes [] haveTypes flatTypes = Inr ([], flatTypes)"
| "widen_lanes (fv # payload) haveTypes flatTypes =
     rbind (widen_lane (hd_opt haveTypes) (hd_opt flatTypes) fv) (\<lambda>x.
     rbind (widen_lanes payload (tl haveTypes) (tl flatTypes)) (\<lambda>(xs, rest).
     Inr (x # xs, rest)))"

text \<open>The zero of a lane; \<open>0\<close> in a float lane is the double \<open>0\<close>.\<close>

definition zero_lane :: "core_type \<Rightarrow> cval" where
  "zero_lane want = (if want = I64 then VBig 0 else if want = I32 then VNum 0 else VFlt 0)"

definition lowerFlatVariant :: "(cval \<Rightarrow> valtype \<Rightarrow> ('x, cval list) cm) \<Rightarrow> 'x cst_scheme cx \<Rightarrow> cval \<Rightarrow>
    case_type list \<Rightarrow> ('x, cval list) cm" where
  "lowerFlatVariant low cx v cases =
     bnd (of_res (matchCase v cases)) (\<lambda>(caseIndex, caseValue).
     bnd (of_res (flattenType (VariantT cases) (cx_memory cx))) (\<lambda>flatTypes.
     seqm (assertm (flatTypes \<noteq> [] \<and> hd flatTypes = I32) [])
     (bnd (if caseIndex < length cases then
             (case snd (cases ! caseIndex) of
                None \<Rightarrow> ret ([], tl flatTypes)
              | Some u \<Rightarrow>
                  bnd (low caseValue u) (\<lambda>payload.
                  bnd (of_res (flattenType u (cx_memory cx))) (\<lambda>haveTypes.
                  of_res (widen_lanes payload haveTypes (tl flatTypes)))))
           else throw (TypeError ''unreachable'')) (\<lambda>(payload, rest).
     ret (VNum (int caseIndex) # payload @ map zero_lane rest)))))"

definition lowerFlatFlags :: "cval \<Rightarrow> string list \<Rightarrow> ('x, cval list) cm" where
  "lowerFlatFlags v labels =
     seqm (assertm (0 < length labels \<and> length labels \<le> 32) [])
     (bnd (of_res (packFlagsIntoInt v labels)) (\<lambda>i. ret [VNum (int i)]))"

fun lowerFlatPrim :: "'x cst_scheme cx \<Rightarrow> cval \<Rightarrow> prim \<Rightarrow> ('x, cval list) cm" where
  "lowerFlatPrim cx v PBool = of_res (rbind (number_of v) (\<lambda>x. Inr [x]))"
| "lowerFlatPrim cx v PU8 = ret [v]"
| "lowerFlatPrim cx v PU16 = ret [v]"
| "lowerFlatPrim cx v PU32 = ret [v]"
| "lowerFlatPrim cx v PU64 = ret [v]"
| "lowerFlatPrim cx v PS8 = of_res (lowerFlatSigned32 v)"
| "lowerFlatPrim cx v PS16 = of_res (lowerFlatSigned32 v)"
| "lowerFlatPrim cx v PS32 = of_res (lowerFlatSigned32 v)"
| "lowerFlatPrim cx v PS64 = of_res (lowerFlatSigned64 v)"
| "lowerFlatPrim cx v PF32 = of_res (rbind (to_f64 v) (\<lambda>w. Inr [VFlt (maybeScrambleNan32 w)]))"
| "lowerFlatPrim cx v PF64 = of_res (rbind (to_f64 v) (\<lambda>w. Inr [VFlt (maybeScrambleNan64 w)]))"
| "lowerFlatPrim cx v PChar = bnd (charToI32 v) (\<lambda>i. ret [VNum (int i)])"
| "lowerFlatPrim cx v PString = lowerFlatString cx v"

lemma lowerFlatList_cong [fundef_cong]:
  "e = e' \<Longrightarrow> (\<And>x. low x e' = low' x e') \<Longrightarrow> lowerFlatList low cx v e n = lowerFlatList low' cx v e' n"
  by (simp add: lowerFlatList_def cong: option.case_cong)

lemma lowerFlatRecord_cong [fundef_cong]:
  "flds = flds' \<Longrightarrow> (\<And>f x. f \<in> set flds' \<Longrightarrow> low x (snd f) = low' x (snd f)) \<Longrightarrow>
   lowerFlatRecord low v flds = lowerFlatRecord low' v flds'"
  unfolding lowerFlatRecord_def by (intro arg_cong2 [where f = bnd] mapm_cong bnd_cong refl) auto

lemma lowerFlatVariant_cong [fundef_cong]:
  assumes "cases = cases'" "\<And>c u x. c \<in> set cases' \<Longrightarrow> snd c = Some u \<Longrightarrow> low x u = low' x u"
  shows "lowerFlatVariant low cx v cases = lowerFlatVariant low' cx v cases'"
proof -
  have "i < length cases' \<Longrightarrow> snd (cases' ! i) = Some u \<Longrightarrow> low x u = low' x u" for i u x
    using assms(2) nth_mem by blast
  then show ?thesis unfolding lowerFlatVariant_def assms(1)
    by (intro bnd_cong seqm_cong refl if_cong) (auto cong: option.case_cong if_cong)
qed

function lowerFlat :: "'x cst_scheme cx \<Rightarrow> cval \<Rightarrow> valtype \<Rightarrow> ('x, cval list) cm" where
  "lowerFlat cx v t =
     (case despecialize t of
        Prim p \<Rightarrow> lowerFlatPrim cx v p
      | ErrorContextT \<Rightarrow> bnd (cx_lowerErrorContext cx v) (\<lambda>i. ret [VNum (int i)])
      | ListT e n \<Rightarrow> lowerFlatList (\<lambda>x u. lowerFlat cx x u) cx v e n
      | RecordT fs \<Rightarrow> lowerFlatRecord (\<lambda>x u. lowerFlat cx x u) v fs
      | VariantT cs \<Rightarrow> lowerFlatVariant (\<lambda>x u. lowerFlat cx x u) cx v cs
      | FlagsT ls \<Rightarrow> lowerFlatFlags v ls
      | OwnT rt \<Rightarrow> bnd (of_res (as_num v)) (\<lambda>rep. bnd (lowerOwn cx rep rt) (\<lambda>i. ret [VNum i]))
      | BorrowT rt \<Rightarrow> bnd (of_res (as_num v)) (\<lambda>rep. bnd (lowerBorrow cx rep rt) (\<lambda>i. ret [VNum i]))
      | StreamT e \<Rightarrow> bnd (cx_lowerStream cx v e) (\<lambda>i. ret [VNum (int i)])
      | FutureT e \<Rightarrow> bnd (cx_lowerFuture cx v e) (\<lambda>i. ret [VNum (int i)])
      | _ \<Rightarrow> throw (TypeError ''unreachable''))"
  by pat_completeness auto

termination
  by (relation "measure (\<lambda>(cx, v, t). tsize t)")
    (auto intro: tsize_of_list tsize_of_record [where f = "(a, b)" for a b, simplified]
      tsize_of_variant [where c = "(a, Some b)" for a b, simplified])

declare lowerFlat.simps [simp del]

section \<open>Value lists with spilling\<close>

definition spillTupleType :: "valtype list \<Rightarrow> valtype" where
  "spillTupleType ts = TupleT ts"

text \<open>\<open>Object.values\<close> of the loaded tuple.\<close>

fun object_values :: "cval \<Rightarrow> cval list" where
  "object_values (VObj kvs) = map snd kvs"
| "object_values _ = []"

definition liftFlatValues :: "'x cst_scheme cx \<Rightarrow> nat \<Rightarrow> valtype list \<Rightarrow> ('x, cval list) lm" where
  "liftFlatValues cx maxFlat ts =
     bnd (of_res (flatCount ts (cx_memory cx))) (\<lambda>count.
     if count > maxFlat then
       bnd (on_cx (requireMem cx)) (\<lambda>pt.
       bnd (next_ptr pt) (\<lambda>ptrRaw.
       let tupleType = spillTupleType ts in
       bnd (of_res (alignment tupleType pt)) (\<lambda>align.
       bnd (of_res (elemSize tupleType pt)) (\<lambda>sz.
       seqm (trapIf (ptrRaw mod align \<noteq> 0) ''misaligned spill pointer'')
       (bnd (on_cx memLength) (\<lambda>len.
       seqm (trapIf (ptrRaw + sz > len) ''spill tuple out of bounds'')
       (bnd (asIndex ptrRaw) (\<lambda>ptr.
       bnd (on_cx (load cx ptr tupleType)) (\<lambda>tuple.
       ret (object_values tuple))))))))))
     else mapm (\<lambda>t. liftFlat cx t) ts)"

text \<open>The \<open>outParam\<close> iterator is the iterator of the state, when there is one.\<close>

definition lowerFlatValues :: "'x cst_scheme cx \<Rightarrow> nat \<Rightarrow> cval list \<Rightarrow> valtype list \<Rightarrow> bool \<Rightarrow> ('x, cval list) lm" where
  "lowerFlatValues cx maxFlat vs ts outParam =
     bnd (of_res (flatCount ts (cx_memory cx))) (\<lambda>count.
     if count > maxFlat then
       bnd (on_cx (requireMem cx)) (\<lambda>pt.
       let tupleType = spillTupleType ts; tupleValue = obj_of (index_labels vs) in
       bnd (of_res (alignment tupleType pt)) (\<lambda>align.
       bnd (of_res (elemSize tupleType pt)) (\<lambda>sz.
       bnd (if \<not> outParam then
              bnd (on_cx (allocate cx align sz)) (\<lambda>ptr. ret (ptr, [ptr_lane pt ptr]))
            else bnd (next_ptr pt) (\<lambda>p. bnd (asIndex p) (\<lambda>ptr. ret (ptr, [])))) (\<lambda>(ptr, flatVals).
       seqm (trapIf (ptr \<noteq> alignTo ptr align) ''misaligned spill pointer'')
       (bnd (on_cx memLength) (\<lambda>len.
       seqm (trapIf (ptr + sz > len) ''spill tuple out of bounds'')
       (seqm (on_cx (store cx tupleValue tupleType ptr))
       (ret flatVals))))))))
     else
       bnd (mapm (\<lambda>i. if i < length ts then on_cx (lowerFlat cx (vs ! i) (ts ! i))
                    else throw (TypeError ''cannot read properties of undefined'')) [0..<length vs]) (\<lambda>flat.
       ret (concat flat)))"

end
