(* ===== verification/Cabi_Flat_Roundtrip.thy ===== *)
theory Cabi_Flat_Roundtrip
  imports Cabi_Lift_Lower
begin

text \<open>
  Lifting undoes lowering, lane joins of variants included, and values that do not fit the
  flat limit survive the spill to memory.
\<close>

section \<open>Sequences of lanes\<close>

fun next_lanes :: "viter \<Rightarrow> core_type list \<Rightarrow> (cval list \<times> viter) res" where
  "next_lanes it [] = Inr ([], it)"
| "next_lanes it (t # ts) =
     rbind (next_lane (vi_frames it) (vi_values it) (vi_pos it) (Some t)) (\<lambda>(v, frames, i).
     rbind (next_lanes (it\<lparr>vi_frames := frames, vi_pos := i\<rparr>) ts) (\<lambda>(vs, it').
     Inr (v # vs, it')))"

lemma next_lanes_Cons:
  "next_lanes it (t # ts) = Inr (ls, it') \<longleftrightarrow>
   (\<exists>v vs frames i. ls = v # vs \<and> next_lane (vi_frames it) (vi_values it) (vi_pos it) (Some t) = Inr (v, frames, i) \<and>
      next_lanes (it\<lparr>vi_frames := frames, vi_pos := i\<rparr>) ts = Inr (vs, it'))"
  by (auto split: prod.splits)

lemma length_next_lanes: "next_lanes it ts = Inr (ls, it') \<Longrightarrow> length ls = length ts"
  by (induction it ts arbitrary: ls rule: next_lanes.induct) auto

lemma next_lanes_append:
  "next_lanes it (a @ b) = Inr (la @ lb, it') \<Longrightarrow> length la = length a \<Longrightarrow>
   \<exists>it1. next_lanes it a = Inr (la, it1) \<and> next_lanes it1 b = Inr (lb, it')"
proof (induction it a arbitrary: la rule: next_lanes.induct)
  case (2 it t ts)
  then obtain l la' where la: "la = l # la'" by (cases la) auto
  from "2.prems"(1) la obtain frames i where n: "next_lane (vi_frames it) (vi_values it) (vi_pos it) (Some t) = Inr (l, frames, i)"
      "next_lanes (it\<lparr>vi_frames := frames, vi_pos := i\<rparr>) (ts @ b) = Inr (la' @ lb, it')"
    by (auto simp: next_lanes_Cons simp del: next_lanes.simps)
  from "2.IH" [OF n(1) refl refl n(2)] "2.prems"(2) la obtain it1 where
    "next_lanes (it\<lparr>vi_frames := frames, vi_pos := i\<rparr>) ts = Inr (la', it1)" "next_lanes it1 b = Inr (lb, it')"
    by auto
  with n(1) la show ?case by auto
qed simp

lemma vi_next_run:
  "next_lanes it [t] = Inr ([v], it') \<Longrightarrow> vi_next t (u, it) = (Inr v, (u, it'))"
  by (auto simp: vi_next_def monad_simps split: prod.splits)

text \<open>A computation that consumes the lanes \<open>ls\<close> of types \<open>fts\<close> and returns \<open>v\<close>, whatever the
  iterator that delivers them, without touching the rest of the state.\<close>

definition consumes :: "('x, 'a) lm \<Rightarrow> core_type list \<Rightarrow> cval list \<Rightarrow> 'a \<Rightarrow> bool" where
  "consumes f fts ls v \<longleftrightarrow>
     (\<forall>it it' u. next_lanes it fts = Inr (ls, it') \<longrightarrow> f (u, it) = (Inr v, (u, it')))"

lemma consumesD: "consumes f fts ls v \<Longrightarrow> next_lanes it fts = Inr (ls, it') \<Longrightarrow> f (u, it) = (Inr v, (u, it'))"
  by (simp add: consumes_def)

lemma consumes_bnd:
  assumes "consumes f a la x" "consumes (g x) b lb y" "length la = length a"
  shows "consumes (bnd f g) (a @ b) (la @ lb) y"
  unfolding consumes_def
proof (intro allI impI)
  fix it it' and u :: "'a cst_scheme" assume "next_lanes it (a @ b) = Inr (la @ lb, it')"
  from next_lanes_append [OF this assms(3)] obtain it1 where
    "next_lanes it a = Inr (la, it1)" "next_lanes it1 b = Inr (lb, it')" by blast
  then show "bnd f g (u, it) = (Inr y, (u, it'))"
    using consumesD [OF assms(1)] consumesD [OF assms(2)] by (simp add: bnd_run)
qed

lemma consumes_ret: "consumes (ret v) [] [] v"
  by (simp add: consumes_def)

lemma consumes_map: "consumes f a la x \<Longrightarrow> g x = ret y \<Longrightarrow> consumes (bnd f g) a la y"
  by (simp add: consumes_def bnd_run)

lemma consumes_then:
  assumes "consumes f a la x" "\<And>s. g x s = (Inr y, s)"
  shows "consumes (bnd f g) a la y"
  using assms by (simp add: consumes_def bnd_run)

lemma consumes_mapm:
  "(\<And>x. x \<in> set xs \<Longrightarrow> consumes (f x) (ft x) (ln x) (h x) \<and> length (ln x) = length (ft x)) \<Longrightarrow>
   consumes (mapm f xs) (concat (map ft xs)) (concat (map ln xs)) (map h xs)"
proof (induction xs)
  case Nil
  then show ?case by (simp add: consumes_def)
next
  case (Cons x xs)
  have "consumes (bnd (f x) (\<lambda>y. bnd (mapm f xs) (\<lambda>ys. ret (y # ys)))) (ft x @ concat (map ft xs))
      (ln x @ concat (map ln xs)) (h x # map h xs)"
  proof (rule consumes_bnd)
    show "consumes (f x) (ft x) (ln x) (h x)" "length (ln x) = length (ft x)" using Cons.prems by simp_all
    show "consumes (bnd (mapm f xs) (\<lambda>ys. ret (h x # ys))) (concat (map ft xs)) (concat (map ln xs)) (h x # map h xs)"
      by (rule consumes_map [OF Cons.IH]) (use Cons.prems in simp_all)
  qed
  then show ?case by simp
qed

text \<open>Canonical lanes: what lowering produces and a coerced lane gives back.\<close>

fun canon_lane :: "core_type \<Rightarrow> cval \<Rightarrow> bool" where
  "canon_lane I32 v = (case v of VNum i \<Rightarrow> 0 \<le> i \<and> i < 2 ^ 32 | _ \<Rightarrow> False)"
| "canon_lane I64 v = (case v of VBig i \<Rightarrow> 0 \<le> i \<and> i < 2 ^ 64 | _ \<Rightarrow> False)"
| "canon_lane F32 v = (case v of VFlt w \<Rightarrow> decodeI32AsFloat (encodeFloatAsI32 w) = w | _ \<Rightarrow> False)"
| "canon_lane F64 v = (case v of VFlt w \<Rightarrow> decodeI64AsFloat (encodeFloatAsI64 w) = w | _ \<Rightarrow> False)"

lemma word_of_uint_of_nat: "0 \<le> i \<Longrightarrow> (of_nat (nat i) :: 'a::len word) = of_int i"
  by simp

lemma widen_coerce:
  assumes "canon_lane have l" "lane_le have want"
  shows "\<exists>w. widen_lane (Some have) (Some want) l = Inr w \<and> canon_lane want w \<and>
    coerce_lane (Some want) (Some have) w = Inr l"
proof -
  have u32: "0 \<le> uint e \<and> uint e < 2 ^ 32" for e :: "32 word" using uint_lt2p [of e] by simp
  have u64: "0 \<le> uint e \<and> uint e < 2 ^ 64" for e :: "64 word" using uint_lt2p [of e] by simp
  have m32: "uint e mod 4294967296 = uint e" "uint e < 18446744073709551616" for e :: "32 word"
    using u32 [of e] by simp_all
  have "have = want \<or> want = I64 \<and> have \<noteq> I64 \<or> have = F32 \<and> want = I32"
    using assms(2) by (auto simp: lane_le_iff)
  then show ?thesis
  proof (elim disjE)
    assume "have = want"
    then show ?thesis using assms(1)
      by (intro exI [of _ l]) (cases want; simp add: widen_lane_def coerce_lane_def)
  next
    assume w: "want = I64 \<and> have \<noteq> I64"
    then show ?thesis
    proof (cases "have")
      case I32
      then obtain i where "l = VNum i" "0 \<le> i" "i < 2 ^ 32" using assms(1) by (auto split: cval.splits)
      then show ?thesis using w I32
        by (auto simp: widen_lane_def coerce_lane_def as_num_def wrapI64ToI32_def)
    next
      case F32
      then obtain x where "l = VFlt x" "decodeI32AsFloat (encodeFloatAsI32 x) = x" using assms(1) by (auto split: cval.splits)
      then show ?thesis using w F32 m32
        by (auto simp: widen_lane_def coerce_lane_def wrapI64ToI32_def)
    next
      case F64
      then obtain x where "l = VFlt x" "decodeI64AsFloat (encodeFloatAsI64 x) = x" using assms(1) by (auto split: cval.splits)
      then show ?thesis using w F64 u64
        by (auto simp: widen_lane_def coerce_lane_def)
    qed simp
  next
    assume w: "have = F32 \<and> want = I32"
    then obtain x where "l = VFlt x" "decodeI32AsFloat (encodeFloatAsI32 x) = x" using assms(1) by (auto split: cval.splits)
    then show ?thesis using w u32
      by (auto simp: widen_lane_def coerce_lane_def as_lane_def)
  qed
qed

section \<open>Coercion frames\<close>

text \<open>A case's lanes, widened into the joined lanes, come back through the coercion iterator.\<close>

lemma next_lanes_frame:
  assumes "list_all2 canon_lane fts ls" "lanes_fit fts flat"
  shows "\<exists>ws. widen_lanes ls fts flat = Inr (ws, drop (length fts) flat) \<and>
    list_all2 canon_lane (take (length fts) flat) ws \<and>
    (\<forall>it it'. next_lanes it (take (length fts) flat) = Inr (ws, it') \<longrightarrow>
       next_lanes (it\<lparr>vi_frames := flat # vi_frames it\<rparr>) fts =
         Inr (ls, it'\<lparr>vi_frames := drop (length fts) flat # vi_frames it'\<rparr>))"
  using assms
proof (induction fts arbitrary: ls flat)
  case Nil
  then show ?case by auto
next
  case (Cons ft fts)
  then obtain l ls' where l: "ls = l # ls'" "canon_lane ft l" "list_all2 canon_lane fts ls'"
    by (auto simp: list_all2_Cons1)
  obtain g gs where g: "flat = g # gs" "lane_le ft g" "lanes_fit fts gs"
    using Cons.prems(2) by (cases flat) auto
  obtain w where w: "widen_lane (Some ft) (Some g) l = Inr w" "canon_lane g w"
      "coerce_lane (Some g) (Some ft) w = Inr l" using widen_coerce [OF l(2) g(2)] by blast
  from Cons.IH [OF l(3) g(3)] obtain ws where ws: "widen_lanes ls' fts gs = Inr (ws, drop (length fts) gs)"
      "list_all2 canon_lane (take (length fts) gs) ws"
      "\<And>it it'. next_lanes it (take (length fts) gs) = Inr (ws, it') \<Longrightarrow>
         next_lanes (it\<lparr>vi_frames := gs # vi_frames it\<rparr>) fts =
           Inr (ls', it'\<lparr>vi_frames := drop (length fts) gs # vi_frames it'\<rparr>)" by blast
  show ?case
  proof (intro exI [of _ "w # ws"] conjI allI impI)
    show "widen_lanes ls (ft # fts) flat = Inr (w # ws, drop (length (ft # fts)) flat)"
      using w ws by (simp add: l g hd_opt_def)
    show "list_all2 canon_lane (take (length (ft # fts)) flat) (w # ws)" using w ws by (simp add: g)
    fix it it' assume "next_lanes it (take (length (ft # fts)) flat) = Inr (w # ws, it')"
    then obtain frames i where n: "next_lane (vi_frames it) (vi_values it) (vi_pos it) (Some g) = Inr (w, frames, i)"
        "next_lanes (it\<lparr>vi_frames := frames, vi_pos := i\<rparr>) (take (length fts) gs) = Inr (ws, it')"
      by (auto simp: g next_lanes_Cons simp del: next_lanes.simps)
    obtain fr vs p where it: "it = \<lparr>vi_frames = fr, vi_values = vs, vi_pos = p\<rparr>" by (cases it)
    from ws(3) [OF n(2)] n(1) show "next_lanes (it\<lparr>vi_frames := flat # vi_frames it\<rparr>) (ft # fts) =
        Inr (ls, it'\<lparr>vi_frames := drop (length (ft # fts)) flat # vi_frames it'\<rparr>)"
      by (simp add: it g w(3) l(1) Let_def)
  qed
qed

lemma consumes_skip: "consumes (iterm (\<lambda>have. bnd (vi_next have) (\<lambda>_. ret ())) ts) ts ls ()"
proof (induction ts arbitrary: ls)
  case Nil
  then show ?case by (simp add: consumes_def)
next
  case (Cons t ts)
  show ?case unfolding consumes_def
  proof (intro allI impI)
    fix it it' and u :: "'a cst_scheme" assume n: "next_lanes it (t # ts) = Inr (ls, it')"
    then obtain l ls' where ls: "ls = l # ls'" by (auto simp: next_lanes_Cons simp del: next_lanes.simps)
    from next_lanes_append [of it "[t]" ts "[l]" ls' it'] n ls obtain it1 where
      "next_lanes it [t] = Inr ([l], it1)" "next_lanes it1 ts = Inr (ls', it')" by auto
    note n1 = this(1) and n2 = this(2)
    have h: "bnd (vi_next t) (\<lambda>_. ret ()) (u, it) = (Inr (), (u, it1))"
      by (simp add: bnd_run vi_next_run [OF n1])
    show "iterm (\<lambda>have. bnd (vi_next have) (\<lambda>_. ret ())) (t # ts) (u, it) = (Inr (), (u, it'))"
      unfolding iterm.simps by (subst seqm_step, rule h, rule consumesD [OF Cons.IH n2])
  qed
qed

lemma canon_zero: "canon_lane want (zero_lane want)"
proof -
  have "encodeFloatAsI32 0 = 0" "encodeFloatAsI64 0 = 0"
    by (simp_all add: encodeFloatAsI32_def encodeFloatAsI64_def isNaN64_def f64_mag_def F64_INF_def
        coreI32ReinterpretF32_def coreI64ReinterpretF64_def decode_mag_def pack_def f64_sign_def)
  moreover have "decodeI32AsFloat 0 = 0" "decodeI64AsFloat 0 = 0"
    by (simp_all add: decodeI32AsFloat_def decodeI64AsFloat_def isNaN64_def f64_mag_def F64_INF_def F32_INF_def f32_mag_def
        coreF32ReinterpretI32_def coreF64ReinterpretI64_def canonicalizeNan32_def canonicalizeNan64_def
        decode_mag_def pack_def f32_sign_def)
  ultimately show ?thesis by (cases want) (simp_all add: zero_lane_def)
qed

section \<open>Reading single lanes\<close>

lemma consumes_vi_next: "consumes (vi_next t) [t] [v] v"
  unfolding consumes_def using vi_next_run by blast

lemma consumes_i32: "consumes next_i32 [I32] [VNum (int i)] i"
  unfolding next_i32_def by (rule consumes_then [OF consumes_vi_next]) (simp add: as_lane_def)

lemma consumes_i64: "consumes next_i64 [I64] [VBig i] i"
  unfolding next_i64_def by (rule consumes_then [OF consumes_vi_next]) simp

lemma consumes_f64: "consumes (next_f64 t) [t] [VFlt w] w"
  unfolding next_f64_def by (rule consumes_then [OF consumes_vi_next]) simp

section \<open>Lowering and lifting by type\<close>

definition flat_trip :: "('x, cval list) cm \<Rightarrow> ('x, cval) lm \<Rightarrow> cval \<Rightarrow> core_type list \<Rightarrow> bool" where
  "flat_trip low lift v fts \<longleftrightarrow>
     (\<exists>ls. (\<forall>s. low s = (Inr ls, s)) \<and> list_all2 canon_lane fts ls \<and> consumes lift fts ls v)"

lemma flat_tripI:
  "(\<And>s. low s = (Inr ls, s)) \<Longrightarrow> list_all2 canon_lane fts ls \<Longrightarrow> consumes lift fts ls v \<Longrightarrow> flat_trip low lift v fts"
  unfolding flat_trip_def by blast

lemma flat_tripE:
  assumes "flat_trip low lift v fts"
  obtains ls where "\<forall>s. low s = (Inr ls, s)" "list_all2 canon_lane fts ls" "consumes lift fts ls v"
    "length ls = length fts"
  using assms unfolding flat_trip_def by (metis list_all2_lengthD)

lemma consumes_unsigned:
  "i < 2 ^ k \<Longrightarrow> k \<le> 32 \<Longrightarrow> consumes (liftFlatUnsigned32 k) [I32] [VNum (int i)] (VNum (int i))"
proof -
  assume i: "i < 2 ^ k" "k \<le> 32"
  then have "i < 2 ^ 32" using power_increasing [of k 32 "2::nat"] by simp
  with i show ?thesis unfolding liftFlatUnsigned32_def
    by (intro consumes_then [OF consumes_i32]) (simp add: seqm_run)
qed

lemma consumes_signed:
  assumes "- (2 ^ (k - 1)) \<le> i" "i < 2 ^ (k - 1)" "0 < k" "k \<le> 32"
  shows "consumes (liftFlatSigned32 k) [I32] [VNum (if i < 0 then i + 2 ^ 32 else i)] (VNum i)"
proof -
  define j where "j = nat (if i < 0 then i + 2 ^ 32 else i)"
  obtain h where h: "k = Suc h" using assms(3) by (cases k) auto
  have "2 ^ Suc h dvd (2 ^ 32 :: int)" by (rule le_imp_power_dvd) (use assms(4) h in simp)
  then obtain d :: int where d: "2 ^ 32 = 2 ^ Suc h * d" by (elim dvdE)
  have b: "- (2 ^ h) \<le> i" "i < 2 ^ h" using assms(1,2) h by simp_all
  have h31: "(2::int) ^ h \<le> 2 ^ 31" by (rule power_increasing) (use assms(4) h in simp_all)
  have j: "int j = (if i < 0 then i + 2 ^ 32 else i)" "j < 2 ^ 32"
    using b h31 by (auto simp: j_def nat_less_iff)
  have m: "int (j mod 2 ^ k) = (if i < 0 then i + 2 ^ k else i)"
  proof (cases "i < 0")
    case True
    have "int (j mod 2 ^ k) = (i + 2 ^ 32) mod 2 ^ k" using True j(1) by (simp add: zmod_int)
    also have "\<dots> = i mod 2 ^ k" by (simp only: d h mod_mult_self2)
    also have "\<dots> = (i + 2 ^ k) mod 2 ^ k" by simp
    also have "\<dots> = i + 2 ^ k" using b True h by (intro mod_pos_pos_trivial) simp_all
    finally show ?thesis using True by simp
  next
    case False
    have "int (j mod 2 ^ k) = i mod 2 ^ k" using False j(1) by (simp add: zmod_int)
    also have "\<dots> = i" using b False h by (intro mod_pos_pos_trivial) simp_all
    finally show ?thesis using False by simp
  qed
  have ge: "2 ^ (k - 1) \<le> j mod 2 ^ k \<longleftrightarrow> i < 0"
  proof -
    have "2 ^ (k - 1) \<le> j mod 2 ^ k \<longleftrightarrow> (2::int) ^ h \<le> int (j mod 2 ^ k)"
      using h by (metis diff_Suc_1 of_nat_le_iff of_nat_numeral of_nat_power)
    also have "\<dots> \<longleftrightarrow> i < 0" unfolding m using b h by auto
    finally show ?thesis .
  qed
  have "liftFlatSigned32 k (u, it) = (Inr (VNum i), u, it')"
    if "next_lanes it [I32] = Inr ([VNum (int j)], it')" for u :: "'a cst_scheme" and it it'
    using consumesD [OF consumes_i32 that, of u] j(2) ge m
    by (simp add: liftFlatSigned32_def bnd_run seqm_run Let_def split: if_splits)
  then show ?thesis unfolding consumes_def j(1) [symmetric] by blast
qed

lemma scramble_canonical:
  "decodeI32AsFloat (encodeFloatAsI32 w) = w \<Longrightarrow> maybeScrambleNan32 w = w \<and> canonicalizeNan32 w = w"
  "decodeI64AsFloat (encodeFloatAsI64 w) = w \<Longrightarrow> maybeScrambleNan64 w = w \<and> canonicalizeNan64 w = w"
  by (auto simp: maybeScrambleNan32_def canonicalizeNan32_def maybeScrambleNan64_def canonicalizeNan64_def
      encodeFloatAsI32_def decodeI32AsFloat_def encodeFloatAsI64_def decodeI64AsFloat_def
      coreF64ReinterpretI64_def canonical32 split: if_splits)

lemma numberFits_unsigned_iff: "numberFitsInWidth i n False \<longleftrightarrow> 0 \<le> i \<and> i < 2 ^ (8 * n)"
  by (auto simp: numberFitsInWidth_def Let_def mult.commute)

lemma numberFits_signed_iff: "numberFitsInWidth i n True \<longleftrightarrow> - (2 ^ (8 * n - 1)) \<le> i \<and> i < 2 ^ (8 * n - 1)"
  by (auto simp: numberFitsInWidth_def Let_def mult.commute)

lemma flat_trip_unsigned:
  assumes "numberFitsInWidth i n False" "n \<le> 4"
  shows "flat_trip (ret [VNum i]) (liftFlatUnsigned32 (8 * n)) (VNum i) [I32]"
proof -
  have i: "0 \<le> i" "nat i < 2 ^ (8 * n)" "i < 2 ^ (8 * n)"
    using assms(1) by (simp_all add: numberFits_unsigned_iff nat_less_iff)
  have "(2::int) ^ (8 * n) \<le> 2 ^ 32" by (rule power_increasing) (use assms(2) in simp_all)
  with i(3) have "i < 2 ^ 32" by (rule order.strict_trans2)
  then show ?thesis using i consumes_unsigned [OF i(2)] assms(2) by (intro flat_tripI [where ls = "[VNum i]"]) simp_all
qed

lemma flat_trip_signed:
  assumes "numberFitsInWidth i n True" "0 < n" "n \<le> 4"
  shows "flat_trip (of_res (lowerFlatSigned32 (VNum i))) (liftFlatSigned32 (8 * n)) (VNum i) [I32]"
proof (rule flat_tripI)
  have i: "- (2 ^ (8 * n - 1)) \<le> i" "i < 2 ^ (8 * n - 1)" using assms(1) by (simp_all add: numberFits_signed_iff)
  have "(2::int) ^ (8 * n - 1) \<le> 2 ^ 31" by (rule power_increasing) (use assms(3) in simp_all)
  then show "list_all2 canon_lane [I32] [VNum (if i < 0 then i + 2 ^ 32 else i)]" using i by simp
  show "consumes (liftFlatSigned32 (8 * n)) [I32] [VNum (if i < 0 then i + 2 ^ 32 else i)] (VNum i)"
    by (rule consumes_signed [OF i]) (use assms in simp_all)
qed (simp add: lowerFlatSigned32_def as_num_def)

lemma flat_trip_prim:
  assumes v: "prim_value q v" and f: "flattenPrim q m = Inr fts"
  shows "flat_trip (lowerFlatPrim cx v q) (liftFlatPrim cx q) v fts"
proof (cases q)
  case PBool
  then obtain b where b: "v = VBool b" using v by (auto split: cval.splits)
  show ?thesis using f PBool b
    by (intro flat_tripI [where ls = "[VNum (if b then 1 else 0)]"])
      (auto simp: convertIntToBool_def intro!: consumes_map [OF consumes_i32 [where i = "if b then 1 else 0" for b, simplified]]
        consumes_map [OF consumes_i32 [where i = 1, simplified]] consumes_map [OF consumes_i32 [where i = 0, simplified]])
next
  case PChar
  then obtain s c where v': "v = VStr s" "codePointAt0 s = Some c" "scalar c" "s = units_of c"
    using v by (auto split: cval.splits option.splits)
  have c: "c < 2 ^ 32" using v'(3) by (auto simp: scalar_def)
  have "flat_trip (bnd (charToI32 v) (\<lambda>i. ret [VNum (int i)])) (bnd next_i32 (\<lambda>i. on_cx (convertI32ToChar i))) v [I32]"
    using v'(3) c
    by (intro flat_tripI [where ls = "[VNum (int c)]"] consumes_then [OF consumes_i32])
      (auto simp: v'(1,4) bnd_run charToI32_units_of convertI32ToChar_scalar on_cx_def zoom_run split: prod.splits)
  then show ?thesis using f PChar by simp
next
  case PF32
  then obtain w where w: "v = VFlt w" "decodeI32AsFloat (encodeFloatAsI32 w) = w" using v by (auto split: cval.splits)
  show ?thesis using f PF32 w scramble_canonical(1) [OF w(2)]
    by (intro flat_tripI [where ls = "[v]"]) (auto intro!: consumes_map [OF consumes_f64])
next
  case PF64
  then obtain w where w: "v = VFlt w" "decodeI64AsFloat (encodeFloatAsI64 w) = w" using v by (auto split: cval.splits)
  show ?thesis using f PF64 w scramble_canonical(2) [OF w(2)]
    by (intro flat_tripI [where ls = "[v]"]) (auto intro!: consumes_map [OF consumes_f64])
next
  case PU64
  then obtain i where i: "v = VBig i" "0 \<le> i" "i < 2 ^ 64" using v
    by (auto simp: numberFits_unsigned_iff split: cval.splits)
  have "consumes liftFlatUnsigned64 [I64] [VBig i] (VBig i)"
    unfolding liftFlatUnsigned64_def by (rule consumes_then [OF consumes_i64]) (use i in simp)
  then show ?thesis using f PU64 i by (intro flat_tripI [where ls = "[v]"]) auto
next
  case PS64
  then obtain i where i: "v = VBig i" "- (2 ^ 63) \<le> i" "i < 2 ^ 63" using v
    by (auto simp: numberFits_signed_iff split: cval.splits)
  have "consumes liftFlatSigned64 [I64] [VBig (if i < 0 then i + 2 ^ 64 else i)] (VBig i)"
    unfolding liftFlatSigned64_def by (rule consumes_then [OF consumes_i64]) (use i in \<open>auto simp: seqm_run\<close>)
  then show ?thesis using f PS64 i
    by (intro flat_tripI [where ls = "[VBig (if i < 0 then i + 2 ^ 64 else i)]"]) (auto simp: lowerFlatSigned64_def)
next
  case PU8
  then show ?thesis using v f flat_trip_unsigned [of _ 1] by (auto split: cval.splits)
next
  case PU16
  then show ?thesis using v f flat_trip_unsigned [of _ 2] by (auto split: cval.splits)
next
  case PU32
  then show ?thesis using v f flat_trip_unsigned [of _ 4] by (auto split: cval.splits)
next
  case PS8
  then show ?thesis using v f flat_trip_signed [of _ 1] by (auto split: cval.splits)
next
  case PS16
  then show ?thesis using v f flat_trip_signed [of _ 2] by (auto split: cval.splits)
next
  case PS32
  then show ?thesis using v f flat_trip_signed [of _ 4] by (auto split: cval.splits)
next
  case PString
  then show ?thesis using v by simp
qed

section \<open>Composite types\<close>

lemma list_all2_concat: "list_all2 (list_all2 P) xss yss \<Longrightarrow> list_all2 P (concat xss) (concat yss)"
  by (induction rule: list_all2_induct) (auto intro: list_all2_appendI)

lemma flat_trip_list:
  assumes el: "\<And>x. x \<in> set vs \<Longrightarrow> flat_trip (low x e) (lift e) x one" and vs: "elements v = Inr vs"
    and v: "(if despecialize e = Prim PU8 then bytes_of_values vs else VArr vs) = v"
  shows "flat_trip (lowerFlatList low cx v e (Some (length vs))) (liftFlatList lift cx e (Some (length vs))) v
    (concat (replicate (length vs) one))"
proof -
  have "\<forall>x\<in>set vs. \<exists>ls. (\<forall>s. low x e s = (Inr ls, s)) \<and> list_all2 canon_lane one ls \<and> consumes (lift e) one ls x"
    using el unfolding flat_trip_def by blast
  from bchoice [OF this] obtain ln where L: "\<forall>x\<in>set vs. (\<forall>s. low x e s = (Inr (ln x), s)) \<and>
      list_all2 canon_lane one (ln x) \<and> consumes (lift e) one (ln x) x" ..
  have ln: "\<And>x s. x \<in> set vs \<Longrightarrow> low x e s = (Inr (ln x), s)"
      "\<And>x. x \<in> set vs \<Longrightarrow> list_all2 canon_lane one (ln x)" "\<And>x. x \<in> set vs \<Longrightarrow> consumes (lift e) one (ln x) x"
    using L by simp_all
  let ?ns = "[0..<length vs]"
  have "consumes (mapm (\<lambda>_. lift e) ?ns) (concat (map (\<lambda>_. one) ?ns)) (concat (map (\<lambda>i. ln (vs ! i)) ?ns)) (map ((!) vs) ?ns)"
  proof (rule consumes_mapm)
    fix i assume "i \<in> set ?ns"
    then have i: "vs ! i \<in> set vs" by simp
    show "consumes (lift e) one (ln (vs ! i)) (vs ! i) \<and> length (ln (vs ! i)) = length one"
      using ln(3) [OF i] list_all2_lengthD [OF ln(2) [OF i]] by simp
  qed
  moreover have "map (\<lambda>_. one) ?ns = replicate (length vs) one" by (simp add: map_replicate_const)
  moreover have "map (\<lambda>i. ln (vs ! i)) ?ns = map ln vs" by (rule nth_equalityI) simp_all
  ultimately have lift: "consumes (mapm (\<lambda>_. lift e) ?ns) (concat (replicate (length vs) one)) (concat (map ln vs)) vs"
    by (simp add: map_nth)
  have can: "list_all2 canon_lane (concat (replicate (length vs) one)) (concat (map ln vs))"
    by (rule list_all2_concat) (use ln(2) in \<open>simp add: list_all2_conv_all_nth\<close>)
  have low: "mapm (\<lambda>x. low x e) vs s = (Inr (map ln vs), s)" for s
    by (rule mapm_all) (use ln(1) in simp)
  have "lowerFlatList low cx v e (Some (length vs)) s = (Inr (concat (map ln vs)), s)" for s
    by (simp add: lowerFlatList_def vs bnd_step [OF low])
  moreover have "consumes (liftFlatList lift cx e (Some (length vs))) (concat (replicate (length vs) one))
      (concat (map ln vs)) v"
    unfolding liftFlatList_def option.case by (rule consumes_map [OF lift]) (use v in \<open>simp split: if_splits\<close>)
  ultimately show ?thesis using can by (intro flat_tripI)
qed

lemma flat_trip_record:
  assumes kvs: "map fst kvs = map fst fs" "distinct (map fst fs)"
    and el: "\<And>i. i < length fs \<Longrightarrow> flat_trip (low (snd (kvs ! i)) (snd (fs ! i))) (lift (snd (fs ! i))) (snd (kvs ! i)) (fss ! i)"
    and fss: "length fss = length fs"
  shows "flat_trip (lowerFlatRecord low (VObj kvs) fs) (liftFlatRecord lift fs) (VObj kvs) (concat fss)"
proof -
  let ?ns = "[0..<length fs]"
  have lk: "length kvs = length fs" using kvs(1) by (metis length_map)
  have nth_kvs: "i < length fs \<Longrightarrow> fst (kvs ! i) = fst (fs ! i)" for i using kvs(1) lk by (metis nth_map)
  have get: "i < length fs \<Longrightarrow> map_of kvs (fst (fs ! i)) = Some (snd (kvs ! i))" for i
    using kvs lk nth_kvs by (metis map_of_eq_Some_iff nth_mem prod.collapse)
  have fs: "fs = map (\<lambda>i. fs ! i) ?ns" by (rule nth_equalityI) simp_all
  have "\<forall>i\<in>{..<length fs}. \<exists>ls. (\<forall>s. low (snd (kvs ! i)) (snd (fs ! i)) s = (Inr ls, s)) \<and>
      list_all2 canon_lane (fss ! i) ls \<and> consumes (lift (snd (fs ! i))) (fss ! i) ls (snd (kvs ! i))"
    using el unfolding flat_trip_def by blast
  from bchoice [OF this] obtain ln where ln: "\<And>i s. i < length fs \<Longrightarrow> low (snd (kvs ! i)) (snd (fs ! i)) s = (Inr (ln i), s)"
      "\<And>i. i < length fs \<Longrightarrow> list_all2 canon_lane (fss ! i) (ln i)"
      "\<And>i. i < length fs \<Longrightarrow> consumes (lift (snd (fs ! i))) (fss ! i) (ln i) (snd (kvs ! i))"
    by (meson lessThan_iff)
  have "consumes (mapm (\<lambda>i. bnd (lift (snd (fs ! i))) (\<lambda>v. ret (fst (fs ! i), v))) ?ns)
      (concat (map ((!) fss) ?ns)) (concat (map ln ?ns)) (map (\<lambda>i. (fst (fs ! i), snd (kvs ! i))) ?ns)"
  proof (rule consumes_mapm)
    fix i assume "i \<in> set ?ns"
    then have i: "i < length fs" by simp
    show "consumes (bnd (lift (snd (fs ! i))) (\<lambda>v. ret (fst (fs ! i), v))) (fss ! i) (ln i) (fst (fs ! i), snd (kvs ! i)) \<and>
        length (ln i) = length (fss ! i)"
      using consumes_map [OF ln(3) [OF i], of "\<lambda>v. ret (fst (fs ! i), v)"] list_all2_lengthD [OF ln(2) [OF i]] by simp
  qed
  moreover have "map (\<lambda>i. (fst (fs ! i), snd (kvs ! i))) ?ns = kvs"
    using lk nth_kvs by (intro nth_equalityI) (simp_all add: prod_eq_iff)
  moreover have fss_map: "map ((!) fss) ?ns = fss" using fss by (metis map_nth)
  moreover have "mapm (\<lambda>i. bnd (lift (snd (fs ! i))) (\<lambda>v. ret (fst (fs ! i), v))) ?ns =
      mapm (\<lambda>f. bnd (lift (snd f)) (\<lambda>v. ret (fst f, v))) fs"
    by (subst (2) fs) (simp add: mapm_map)
  ultimately have lift: "consumes (mapm (\<lambda>f. bnd (lift (snd f)) (\<lambda>v. ret (fst f, v))) fs) (concat fss) (concat (map ln ?ns)) kvs"
    by simp
  have low: "mapm (\<lambda>f. bnd (of_res (obj_get (VObj kvs) (fst f))) (\<lambda>x. low x (snd f))) fs s = (Inr (map ln ?ns), s)" for s
    by (subst fs, unfold mapm_map, rule mapm_all) (use get ln(1) in simp)
  have "list_all2 canon_lane (concat fss) (concat (map ln ?ns))"
    by (rule list_all2_concat) (use ln(2) fss in \<open>simp add: list_all2_conv_all_nth\<close>)
  moreover have "lowerFlatRecord low (VObj kvs) fs s = (Inr (concat (map ln ?ns)), s)" for s
    unfolding lowerFlatRecord_def by (subst bnd_step [OF low]) simp
  moreover have "consumes (liftFlatRecord lift fs) (concat fss) (concat (map ln ?ns)) (VObj kvs)"
    unfolding liftFlatRecord_def by (rule consumes_map [OF lift]) (use kvs in \<open>simp add: obj_of_distinct\<close>)
  ultimately show ?thesis by (intro flat_tripI)
qed

lemma flat_trip_flags:
  assumes "map fst kvs = ls" "distinct ls" "list_all (\<lambda>kv. case snd kv of VBool b \<Rightarrow> True | _ \<Rightarrow> False) kvs"
    "0 < length ls" "length ls \<le> 32"
  shows "flat_trip (lowerFlatFlags (VObj kvs) ls) (liftFlatFlags ls) (VObj kvs) [I32]"
proof -
  have "length kvs = length ls" using assms(1) by (metis length_map)
  then obtain i where i: "packFlags (VObj kvs) 0 0 ls = Inr i" "i < 2 ^ length ls" "unpackFlags i ls = kvs"
    using pack_unpack_flags [of kvs "[]" kvs 0] assms by auto
  have "i < 2 ^ 32" by (rule order.strict_trans2 [OF i(2) power_increasing [OF assms(5)]]) simp
  moreover have "consumes (liftFlatFlags ls) [I32] [VNum (int i)] (VObj kvs)"
    unfolding liftFlatFlags_def using assms(4,5)
    by (simp, intro consumes_map [OF consumes_i32]) (simp add: unpackFlagsFromInt_def i(3) obj_of_distinct assms(1,2))
  ultimately show ?thesis using assms(4,5) i(1)
    by (intro flat_tripI [where ls = "[VNum (int i)]"]) (auto simp: lowerFlatFlags_def packFlagsIntoInt_def)
qed

lemma flat_trip_variant:
  assumes c: "distinct (map fst cs)" "k < length cs" "fst (cs ! k) = l" "snd (cs ! k) = None \<Longrightarrow> x = VNull"
    and f: "flattenType (VariantT cs) (cx_memory cx) = Inr (I32 # flat)" and k32: "length cs \<le> 2 ^ 32"
    and el: "\<And>u. snd (cs ! k) = Some u \<Longrightarrow> \<exists>fts. flattenType u (cx_memory cx) = Inr fts \<and> lanes_fit fts flat \<and>
      flat_trip (low x u) (lift u) x fts"
  shows "flat_trip (lowerFlatVariant low cx (VCase l x) cs) (liftFlatVariant lift cx cs) (VCase l x) (I32 # flat)"
proof -
  have mc: "matchCase (VCase l x) cs = Inr (k, x)" using c by (intro matchCase_distinct)
  obtain fts ls ws where p: "list_all2 canon_lane (take (length fts) flat) ws" "length ws = length fts"
      "\<And>it it'. next_lanes it (take (length fts) flat) = Inr (ws, it') \<Longrightarrow>
        next_lanes (it\<lparr>vi_frames := flat # vi_frames it\<rparr>) fts =
          Inr (ls, it'\<lparr>vi_frames := drop (length fts) flat # vi_frames it'\<rparr>)"
      "length fts \<le> length flat"
      "\<And>s. (case snd (cs ! k) of None \<Rightarrow> ret ([], tl (I32 # flat))
         | Some u \<Rightarrow> bnd (low x u) (\<lambda>payload. bnd (of_res (flattenType u (cx_memory cx))) (\<lambda>haveTypes.
             of_res (widen_lanes payload haveTypes (tl (I32 # flat)))))) s = (Inr (ws, drop (length fts) flat), s)"
      "consumes (case snd (cs ! k) of None \<Rightarrow> ret VNull | Some u \<Rightarrow> lift u) fts ls x"
  proof (cases "snd (cs ! k)")
    case None
    show ?thesis by (rule that [of "[]" "[]" "[]"]) (use None c(4) in \<open>auto simp: consumes_def\<close>)
  next
    case (Some u)
    from el [OF Some] obtain fts where fts: "flattenType u (cx_memory cx) = Inr fts" "lanes_fit fts flat"
        "flat_trip (low x u) (lift u) x fts" by blast
    from fts(3) obtain ls where ls: "\<forall>s. low x u s = (Inr ls, s)" "list_all2 canon_lane fts ls"
        "consumes (lift u) fts ls x" "length ls = length fts" by (rule flat_tripE)
    from next_lanes_frame [OF ls(2) fts(2)] obtain ws where ws: "widen_lanes ls fts flat = Inr (ws, drop (length fts) flat)"
        "list_all2 canon_lane (take (length fts) flat) ws"
        "\<And>it it'. next_lanes it (take (length fts) flat) = Inr (ws, it') \<Longrightarrow>
          next_lanes (it\<lparr>vi_frames := flat # vi_frames it\<rparr>) fts =
            Inr (ls, it'\<lparr>vi_frames := drop (length fts) flat # vi_frames it'\<rparr>)" by blast
    have len: "length fts \<le> length flat" using fts(2) by (simp add: lanes_fit_def)
    show ?thesis
      by (rule that [of fts ws ls])
        (use Some ls ws fts(1) len list_all2_lengthD [OF ws(2)] in \<open>auto simp: bnd_run\<close>)
  qed
  let ?rest = "drop (length fts) flat"
  let ?ls = "VNum (int k) # ws @ map zero_lane ?rest"
  have low: "lowerFlatVariant low cx (VCase l x) cs s = (Inr ?ls, s)" for s
    using c(2) by (simp add: lowerFlatVariant_def mc f bnd_step [OF p(5)] cong: option.case_cong del: list.sel(3))
  have "consumes (liftFlatVariant lift cx cs) (I32 # flat) ?ls (VCase l x)"
    unfolding consumes_def
  proof (intro allI impI)
    fix it it' and u :: "'a cst_scheme"
    assume n: "next_lanes it (I32 # flat) = Inr (?ls, it')"
    from next_lanes_append [of it "[I32]" flat "[VNum (int k)]"] n obtain it1 where
      it1: "next_lanes it [I32] = Inr ([VNum (int k)], it1)" "next_lanes it1 flat = Inr (ws @ map zero_lane ?rest, it')"
      by auto
    from next_lanes_append [of it1 "take (length fts) flat" ?rest ws] it1(2) p(2,4) obtain it2 where
      it2: "next_lanes it1 (take (length fts) flat) = Inr (ws, it2)" "next_lanes it2 ?rest = Inr (map zero_lane ?rest, it')"
      by auto
    let ?it1 = "it1\<lparr>vi_frames := flat # vi_frames it1\<rparr>" and ?it2 = "it2\<lparr>vi_frames := ?rest # vi_frames it2\<rparr>"
    have pay: "(case snd (cs ! k) of None \<Rightarrow> ret VNull | Some u \<Rightarrow> lift u) (u, ?it1) = (Inr x, (u, ?it2))"
      by (rule consumesD [OF p(6) p(3) [OF it2(1)]])
    have idx: "next_i32 (u, it) = (Inr k, (u, it1))" by (rule consumesD [OF consumes_i32 it1(1)])
    have skip: "iterm (\<lambda>have. bnd (vi_next have) (\<lambda>_. ret ())) ?rest (u, it2) = (Inr (), (u, it'))"
      by (rule consumesD [OF consumes_skip it2(2)])
    have pop: "pop_frame (u, ?it2) = (Inr ?rest, (u, it2))"
      by (simp add: pop_frame_def bnd_run seqm_run)
    show "liftFlatVariant lift cx cs (u, it) = (Inr (VCase l x), (u, it'))"
      using c(2,3) unfolding liftFlatVariant_def f
      by (simp add: bnd_run idx push_frame_def seqm_run pay pop skip Let_def del: ret_run, simp)
  qed
  moreover have "list_all2 canon_lane (take (length fts) flat @ ?rest) (ws @ map zero_lane ?rest)"
    by (rule list_all2_appendI [OF p(1)]) (simp add: list_all2_conv_all_nth canon_zero)
  then have "list_all2 canon_lane (I32 # flat) ?ls" using k32 c(2) by simp
  ultimately show ?thesis using low by (intro flat_tripI)
qed

section \<open>The interpreter\<close>

lemma flat_trip_cong:
  "flat_trip low lift v fts \<Longrightarrow> low' = low \<Longrightarrow> lift' = lift \<Longrightarrow> flat_trip low' lift' v fts"
  by simp

lemma elements_bytes:
  "elements (VBytes bs) = Inr (map (\<lambda>b. VNum (uint b)) bs)" "bytes_of_values (map (\<lambda>b. VNum (uint b)) bs) = VBytes bs"
  by (simp_all add: bytes_of_values_def comp_def)

lemma flat_trip_plain:
  "plain_value t v \<Longrightarrow> valid_type t \<Longrightarrow> flattenType t (cx_memory cx) = Inr fts \<Longrightarrow>
   flat_trip (lowerFlat cx v t) (liftFlat cx t) v fts"
proof (induction "tsize t" arbitrary: t v fts rule: less_induct)
  case less
  note v = less.prems(1) and ok = less.prems(2) and f = less.prems(3)
  note IH = less.hyps
  note run = lowerFlat.simps [of cx _ t] liftFlat.simps [of cx t]
  show ?case
  proof (cases t rule: despecialize_cases)
    case (prim q)
    then show ?thesis using flat_trip_prim [of q v "cx_memory cx" fts cx] v f
      by (simp add: run flattenType_prim plain_value.simps [of t])
  next
    case (list e n)
    then obtain k where n: "n = Some k" using v by (cases n) (auto simp: plain_value.simps [of t])
    obtain one where one: "flattenType e (cx_memory cx) = Inr one" "fts = concat (replicate k one)"
      using f list n by (auto simp: flattenType_list)
    have e: "valid_type e" using ok list by (simp add: valid_type.simps [of t])
    obtain vs where vs: "elements v = Inr vs" "length vs = k" "\<forall>x\<in>set vs. plain_value e x"
        "(if despecialize e = Prim PU8 then bytes_of_values vs else VArr vs) = v"
    proof (cases "despecialize e = Prim PU8")
      case True
      then obtain bs where bs: "v = VBytes bs" "length bs = k" using v list n
        by (auto simp: plain_value.simps [of t] split: cval.splits)
      have "plain_value e (VNum (uint b))" for b :: "8 word"
        using uint_lt2p [of b] by (simp add: plain_value.simps [of e] True numberFits_unsigned_iff)
      then show ?thesis using that [of "map (\<lambda>b. VNum (uint b)) bs"] bs True by (simp add: elements_bytes)
    next
      case False
      then show ?thesis using v list n that
        by (auto simp: plain_value.simps [of t] list_all_iff split: cval.splits)
    qed
    have "flat_trip (lowerFlatList (\<lambda>x u. lowerFlat cx x u) cx v e (Some (length vs)))
        (liftFlatList (\<lambda>u. liftFlat cx u) cx e (Some (length vs))) v (concat (replicate (length vs) one))"
      by (rule flat_trip_list [OF _ vs(1,4)]) (use IH [OF tsize_of_list [OF list]] vs(3) e one(1) in blast)
    then show ?thesis using one(2) vs(2) list n by (simp add: run)
  next
    case (rec fs)
    then obtain kvs where kvs: "v = VObj kvs" "map fst kvs = map fst fs" "distinct (map fst fs)"
        "list_all (\<lambda>(f, kv). plain_value (snd f) (snd kv)) (zip fs kvs)"
      using v by (auto simp: plain_value.simps [of t] split: cval.splits)
    have len: "length kvs = length fs" using kvs(2) by (metis length_map)
    obtain fss where fss: "rmap (\<lambda>f. flattenType (snd f) (cx_memory cx)) fs = Inr fss" "fts = concat fss"
      using f rec by (auto simp: flattenType_record)
    have "flat_trip (lowerFlatRecord (\<lambda>x u. lowerFlat cx x u) (VObj kvs) fs)
        (liftFlatRecord (\<lambda>u. liftFlat cx u) fs) (VObj kvs) (concat fss)"
    proof (rule flat_trip_record [OF kvs(2,3) _ rmap_Inr_length [OF fss(1)]])
      fix i assume i: "i < length fs"
      have "plain_value (snd (fs ! i)) (snd (kvs ! i))" using kvs(4) i len by (auto simp: list_all_length)
      moreover have "valid_type (snd (fs ! i))" using ok rec i by (simp add: valid_type.simps [of t] list_all_length)
      ultimately show "flat_trip (lowerFlat cx (snd (kvs ! i)) (snd (fs ! i))) (liftFlat cx (snd (fs ! i))) (snd (kvs ! i)) (fss ! i)"
        by (rule IH [OF tsize_of_record [OF rec nth_mem [OF i]]]) (rule rmap_Inr_nth [OF fss(1) i])
    qed
    then show ?thesis using fss(2) kvs(1) rec by (simp add: run)
  next
    case (variant cs)
    then obtain l x c where c: "v = VCase l x" "distinct (map fst cs)" "c \<in> set cs" "fst c = l"
        "case snd c of None \<Rightarrow> x = VNull | Some u \<Rightarrow> plain_value u x"
      using v by (auto simp: plain_value.simps [of t] list_ex_iff split: cval.splits)
    then obtain k where k: "k < length cs" "cs ! k = c" by (auto simp: in_set_conv_nth)
    obtain fss where fss: "rmap (\<lambda>c. case snd c of None \<Rightarrow> Inr None
                   | Some u \<Rightarrow> rbind (flattenType u (cx_memory cx)) (\<lambda>f. Inr (Some f))) cs = Inr fss"
        "fts = I32 # flattenVariantFrom fss"
      using f variant by (auto simp: flattenType_variant)
    have cs: "flattenType (VariantT cs) (cx_memory cx) = Inr (I32 # flattenVariantFrom fss)"
      using f variant fss(2) by (simp add: flattenType_variant)
    have "flat_trip (lowerFlatVariant (\<lambda>x u. lowerFlat cx x u) cx (VCase l x) cs)
        (liftFlatVariant (\<lambda>u. liftFlat cx u) cx cs) (VCase l x) (I32 # flattenVariantFrom fss)"
    proof (rule flat_trip_variant [OF c(2) k(1) _ _ cs])
      show "length cs \<le> 2 ^ 32" using ok variant by (simp add: valid_type.simps [of t])
      fix u assume u: "snd (cs ! k) = Some u"
      have "valid_type u" using ok variant c(3) u k(2) by (auto simp: valid_type.simps [of t] list_all_iff)
      moreover have "plain_value u x" using c(5) u k(2) by simp
      moreover obtain fu where fu: "flattenType u (cx_memory cx) = Inr fu" "fss ! k = Some fu"
        using rmap_Inr_nth [OF fss(1) k(1)] u by auto
      moreover have "lanes_fit fu (flattenVariantFrom fss)"
        using flattenVariantFrom_fits [of fu fss] fu(2) k(1) rmap_Inr_length [OF fss(1)] by (metis nth_mem)
      ultimately show "\<exists>fts. flattenType u (cx_memory cx) = Inr fts \<and> lanes_fit fts (flattenVariantFrom fss) \<and>
          flat_trip (lowerFlat cx x u) (liftFlat cx u) x fts"
        using IH [OF tsize_of_variant [OF variant nth_mem [OF k(1)] u]] by blast
    qed (use c k in simp_all)
    then show ?thesis using fss(2) c(1) variant by (simp add: run)
  next
    case (flags ls)
    then obtain kvs where kvs: "v = VObj kvs" "map fst kvs = ls" "distinct ls"
        "list_all (\<lambda>kv. case snd kv of VBool b \<Rightarrow> True | _ \<Rightarrow> False) kvs"
      using v by (auto simp: plain_value.simps [of t] split: cval.splits)
    have "0 < length ls" "length ls \<le> 32" using ok flags by (simp_all add: valid_type.simps [of t])
    from flat_trip_flags [OF kvs(2-4) this] show ?thesis using f kvs(1) flags by (simp add: run flattenType_flags)
  next
    case handle
    then show ?thesis using v by (cases "despecialize t") (simp_all add: plain_value.simps [of t])
  qed
qed

text \<open>C15. Values survive the flat calling convention: lowering a plain value of a valid type
  produces, without touching the instance, one lane per flat type of the type, each a legal
  value of its lane; lifting from any iterator that delivers those lanes, through however many
  variant coercions, gives the value back and consumes exactly the lanes.\<close>

theorem lowerFlat_liftFlat:
  assumes "plain_value t v" "valid_type t" "flattenType t (cx_memory cx) = Inr fts"
    "next_lanes it fts = Inr (projr (fst (lowerFlat cx v t s)), it')"
  shows "(\<exists>lanes. lowerFlat cx v t s = (Inr lanes, s) \<and> list_all2 canon_lane fts lanes) \<and>
    liftFlat cx t (s, it) = (Inr v, (s, it'))"
proof -
  obtain ls where ls: "\<forall>s. lowerFlat cx v t s = (Inr ls, s)" "list_all2 canon_lane fts ls"
      "consumes (liftFlat cx t) fts ls v"
    using flat_trip_plain [OF assms(1-3)] by (rule flat_tripE)
  then show ?thesis using consumesD [OF ls(3)] assms(4) by simp
qed

definition lane_iter :: "cval list \<Rightarrow> viter" where
  "lane_iter vs = \<lparr>vi_frames = [], vi_values = vs, vi_pos = 0\<rparr>"

lemma lowerFlat_liftFlat_witness:
  "(\<exists>lanes. lowerFlat (plain_cx None) (VCase ''b'' (VFlt 0x3FF0000000000000)) (VariantT [(''a'', Some (Prim PU64)), (''b'', Some (Prim PF32))]) (init_state [])
       = (Inr lanes, init_state []) \<and> list_all2 canon_lane [I32, I64] lanes) \<and>
    liftFlat (plain_cx None) (VariantT [(''a'', Some (Prim PU64)), (''b'', Some (Prim PF32))])
      (init_state [], lane_iter [VNum 1, VBig 0x3F800000]) =
      (Inr (VCase ''b'' (VFlt 0x3FF0000000000000)), (init_state [], (lane_iter [VNum 1, VBig 0x3F800000])\<lparr>vi_pos := 2\<rparr>))"
proof -
  let ?t = "VariantT [(''a'', Some (Prim PU64)), (''b'', Some (Prim PF32))]"
    and ?v = "VCase ''b'' (VFlt 0x3FF0000000000000)"
  have e: "encodeFloatAsI32 0x3FF0000000000000 = 0x3F800000"
    by (simp add: encodeFloatAsI32_def isNaN64_def f64_mag_def F64_INF_def coreI32ReinterpretF32_def
        decode_mag_def pack_def f64_sign_def F32_INF_def round_half_even_def bitlen.simps)
  have d: "decodeI32AsFloat 0x3F800000 = 0x3FF0000000000000"
    by (simp add: decodeI32AsFloat_def isNaN64_def f64_mag_def F64_INF_def F32_INF_def f32_mag_def
        coreF32ReinterpretI32_def canonicalizeNan32_def decode_mag_def pack_def f32_sign_def round_half_even_def bitlen.simps)
  have f: "flattenType ?t (Some P32) = Inr [I32, I64]"
    by (simp add: flattenType_variant flattenType_prim flattenVariantFrom_def discriminantSize_def join_def)
  have sc: "maybeScrambleNan32 0x3FF0000000000000 = 0x3FF0000000000000" by (rule scramble_canonical(1) [THEN conjunct1]) (simp add: e d)
  have low: "fst (lowerFlat (plain_cx None) ?v ?t (init_state [])) = Inr [VNum 1, VBig 0x3F800000]"
    using matchCase_distinct [of "[(''a'', Some (Prim PU64)), (''b'', Some (Prim PF32))]" 1 "''b''"] e sc f
    by (simp add: lowerFlat.simps lowerFlatVariant_def plain_cx_def widen_lane_def hd_opt_def
        flattenType_prim bnd_run)
  show ?thesis
    by (rule lowerFlat_liftFlat)
      (use f low e d in \<open>simp_all add: plain_value.simps valid_type.simps plain_cx_def lane_iter_def core_next_def\<close>)
qed

section \<open>Whole value lists\<close>

lemma distinct_index_strings [simp]: "distinct (map string_of_nat [0..<n])"
  using distinct_index_labels [of "replicate n ()"] by simp

lemma plain_tuple:
  assumes "list_all2 plain_value ts vs"
  shows "plain_value (TupleT ts) (VObj (index_labels vs))"
proof -
  have len: "length vs = length ts" using assms by (simp add: list_all2_lengthD)
  have "plain_value (snd (index_labels ts ! i)) (snd (index_labels vs ! i))" if "i < length ts" for i
    using assms that len by (simp add: index_labels_def list_all2_nthD)
  then show ?thesis
    using len by (simp add: plain_value.simps [of "TupleT ts"] list_all_length)
qed

lemma obj_of_index_labels: "obj_of (index_labels vs) = VObj (index_labels vs)"
  by (rule obj_of_distinct) simp

lemma consumes_ptr: "p < 2 ^ (8 * ptrSize pt) \<Longrightarrow> consumes (next_ptr pt) [core_of_ptr pt] [ptr_lane pt p] p"
  unfolding next_ptr_def
  by (rule consumes_then [OF consumes_vi_next]) (auto simp: ptr_lane_def as_lane_def)

text \<open>C16. A value list that is too wide for the flat limit is passed through memory and
  arrives unchanged: with a callee-provided pointer that is aligned and in bounds, lowering
  writes only the bytes of the tuple and returns no lanes, and lifting with a lane that holds
  the pointer gives the list back; the lane itself is consumed and nothing else changes.\<close>

theorem spilled_values_round_trip:
  assumes "list_all2 plain_value ts vs" "cx_memory cx = Some pt" "layoutOf (TupleT ts) pt = Inr L"
    "flatCount ts (Some pt) = Inr n" "maxFlat < n"
    "next_lanes it [core_of_ptr pt] = Inr ([ptr_lane pt p], it')"
    "p mod l_align L = 0" "p + l_size L \<le> length (c_mem s)" "length (c_mem s) \<le> MAX_SAFE_INTEGER"
  shows "\<exists>m. lowerFlatValues cx maxFlat vs ts True (s, it) = (Inr [], (s\<lparr>c_mem := m\<rparr>, it')) \<and>
    same_outside p (l_size L) (c_mem s) m \<and>
    liftFlatValues cx maxFlat ts (s\<lparr>c_mem := m\<rparr>, it) = (Inr vs, (s\<lparr>c_mem := m\<rparr>, it'))"
proof -
  have ptr: "next_ptr pt (u, it) = (Inr p, (u, it'))" for u :: "'a cst_scheme"
    unfolding next_ptr_def
    using vi_next_run [OF assms(6), of u] by (cases pt) (simp_all add: bnd_run ptr_lane_def as_lane_def)
  have rt: "round_trip (length (c_mem s)) p (l_size L) (store cx (VObj (index_labels vs)) (TupleT ts) p)
      (load cx p (TupleT ts)) (VObj (index_labels vs))"
    by (rule round_trip_plain [OF plain_tuple [OF assms(1)] assms(3,2,7,8)])
  then obtain m where m: "store cx (VObj (index_labels vs)) (TupleT ts) p s = (Inr (), s\<lparr>c_mem := m\<rparr>)"
      "same_outside p (l_size L) (c_mem s) m"
      "reads (length (c_mem s)) p (l_size L) (load cx p (TupleT ts)) (VObj (index_labels vs)) m"
      "length m = length (c_mem s)" using refl by (rule round_tripD)
  have ld: "load cx p (TupleT ts) (s\<lparr>c_mem := m\<rparr>) = (Inr (VObj (index_labels vs)), s\<lparr>c_mem := m\<rparr>)"
    by (rule readsD [OF m(3)]) (simp_all add: m(4))
  have al: "0 < l_align L" using layoutOf_ok [OF assms(3)] by (rule layout_okD)
  have "alignTo p (l_align L) = p" using assms(7) al by (simp add: alignTo_id mod_eq_0_iff_dvd)
  then have "lowerFlatValues cx maxFlat vs ts True (s, it) = (Inr [], (s\<lparr>c_mem := m\<rparr>, it'))"
    using assms(2-5,8,9) m(1)
    by (simp add: lowerFlatValues_def spillTupleType_def obj_of_index_labels alignment_def elemSize_def on_cx_def
        zoom_run bnd_run seqm_run ptr asIndex_def assertm_run Let_def)
  moreover have "liftFlatValues cx maxFlat ts (s\<lparr>c_mem := m\<rparr>, it) = (Inr vs, (s\<lparr>c_mem := m\<rparr>, it'))"
    using assms(2-5,7-9) ld m(4)
    by (simp add: liftFlatValues_def spillTupleType_def alignment_def elemSize_def on_cx_def
        zoom_run bnd_run seqm_run ptr asIndex_def assertm_run Let_def)
  ultimately show ?thesis using m(2) by blast
qed

lemma spilled_values_round_trip_witness:
  "\<exists>m. lowerFlatValues (plain_cx None) 1 [VNum 7, VNum (- 2)] [Prim PU8, Prim PS32] True (sample_state, lane_iter [VNum 8]) =
      (Inr [], (sample_state\<lparr>c_mem := m\<rparr>, (lane_iter [VNum 8])\<lparr>vi_pos := 1\<rparr>)) \<and>
    same_outside 8 8 (c_mem sample_state) m \<and>
    liftFlatValues (plain_cx None) 1 [Prim PU8, Prim PS32] (sample_state\<lparr>c_mem := m\<rparr>, lane_iter [VNum 8]) =
      (Inr [VNum 7, VNum (- 2)], (sample_state\<lparr>c_mem := m\<rparr>, (lane_iter [VNum 8])\<lparr>vi_pos := 1\<rparr>))"
proof -
  obtain L where L: "layoutOf (TupleT [Prim PU8, Prim PS32]) P32 = Inr L" "l_align L = 4" "l_size L = 8"
    by (simp add: layoutOf_record layoutOf_Prim recordLayout_def elemSizeRecord_def index_labels_def
        mkLayout_widths widths_def alignTo_def Let_def)
  have "\<exists>m. lowerFlatValues (plain_cx None) 1 [VNum 7, VNum (- 2)] [Prim PU8, Prim PS32] True (sample_state, lane_iter [VNum 8]) =
      (Inr [], (sample_state\<lparr>c_mem := m\<rparr>, (lane_iter [VNum 8])\<lparr>vi_pos := 1\<rparr>)) \<and>
    same_outside 8 (l_size L) (c_mem sample_state) m \<and>
    liftFlatValues (plain_cx None) 1 [Prim PU8, Prim PS32] (sample_state\<lparr>c_mem := m\<rparr>, lane_iter [VNum 8]) =
      (Inr [VNum 7, VNum (- 2)], (sample_state\<lparr>c_mem := m\<rparr>, (lane_iter [VNum 8])\<lparr>vi_pos := 1\<rparr>))"
    by (rule spilled_values_round_trip [OF _ _ L(1), where n = 2])
      (simp_all add: L plain_value.simps numberFits_unsigned_iff numberFits_signed_iff plain_cx_def flatCount_def
        flattenTypes_def flattenType_prim lane_iter_def core_next_def ptr_lane_def sample_state_def init_state_def
        MAX_SAFE_INTEGER_def)
  then show ?thesis by (simp add: L(3))
qed

end
