(* ===== verification/Cabi_Frame.thy ===== *)
theory Cabi_Frame
  imports Cabi_Load_Store
begin

text \<open>
  What the canonical ABI does to the rest of an instance. Loading and storing a value
  touch memory, and otherwise only call the allocator, the handle operations and the
  operations of the asynchronous values. So an invariant that all of these keep is kept
  by every load and store: the locale \<open>abi_invariant\<close>, where \<open>P\<close> holds as long as the
  operation succeeds and \<open>Q\<close> after a trap. It is interpreted here on the
  lending invariant of \<open>Cabi_Handles\<close>.
\<close>

locale abi_invariant =
  fixes P Q :: "'x cst_scheme \<Rightarrow> bool" and cx :: "'x cst_scheme cx"
  assumes PQ: "P s \<Longrightarrow> Q s"
    and P_mem: "P s \<Longrightarrow> P (s\<lparr>c_mem := m\<rparr>)"
    and P_leave: "P s \<Longrightarrow> P (s\<lparr>c_may_leave := b\<rparr>)"
    and P_realloc: "cx_realloc cx = Some f \<Longrightarrow> guards P Q (f p l a n)"
    and P_checkpoint: "guards P Q (cx_checkpoint cx)"
    and P_liftOwn: "guards P Q (liftOwn cx i rt)"
    and P_liftBorrow: "guards P Q (liftBorrow cx i rt)"
    and P_lowerOwn: "guards P Q (lowerOwn cx rep rt)"
    and P_lowerBorrow: "guards P Q (lowerBorrow cx rep rt)"
    and P_liftErrorContext: "guards P Q (cx_liftErrorContext cx i)"
    and P_liftStream: "guards P Q (cx_liftStream cx i e)"
    and P_liftFuture: "guards P Q (cx_liftFuture cx i e)"
    and P_lowerErrorContext: "guards P Q (cx_lowerErrorContext cx v)"
    and P_lowerStream: "guards P Q (cx_lowerStream cx v e)"
    and P_lowerFuture: "guards P Q (cx_lowerFuture cx v e)"
begin

lemma writes [guarding]:
  "guards P Q (put_bytes p bs)" "guards P Q (set_byte p b)" "guards P Q (set_int p n i)"
  "guards P Q (modify (\<lambda>s. s\<lparr>c_may_leave := b'\<rparr>))"
  using P_mem P_leave
  by (simp_all add: guards_def put_bytes_def set_byte_def set_int_def)

lemma P_reads [guarding]:
  "guards P Q memLength" "guards P Q (requireMem cx)" "guards P Q (bytesOf p n)"
  "guards P Q (loadIntU p n)" "guards P Q (loadIntS p n)" "guards P Q (loadPtr pt p)"
  "guards P Q (trapIfRangeExceedsMemory p n msg)" "guards P Q (check_aligned p n)"
  "guards P Q (viewOf cx' k p n)" "guards P Q (convertI32ToChar c)" "guards P Q (charToI32 v)"
  by (auto simp del: run_rules simp: memLength_def requireMem_def bytesOf_def loadIntU_def loadIntS_def loadPtr_def
      trapIfRangeExceedsMemory_def check_aligned_def viewOf_def convertI32ToChar_def charToI32_def
      intro!: guarding PQ split: cval.split option.split)

lemma P_stores [guarding]:
  "guards P Q (storeInt v p n sg)" "guards P Q (storePtr pt a p)" "guards P Q (writeBytes p bs)"
  "guards P Q (store_u8 p v)" "guards P Q (view_set k p v)"
  by (auto simp del: run_rules simp: storeInt_def storePtr_def writeBytes_def store_u8_def view_set_def
      intro!: guarding PQ split: cval.split option.split bulk_kind.split)

lemma P_allocation [guarding]:
  "guards P Q (reallocate cx old ol al nl)" "guards P Q (allocate cx al nl)"
proof -
  show "guards P Q (reallocate cx old ol al nl)" for old ol al nl
  proof (cases "cx_realloc cx")
    case (Some f)
    show ?thesis using P_realloc [OF Some]
      by (auto simp del: run_rules simp: reallocate_def Some intro!: guarding PQ P_checkpoint)
  qed (simp del: run_rules add: reallocate_def guards_throwing PQ)
  then show "guards P Q (allocate cx al nl)" by (simp add: allocate_def)
qed

lemma P_loadString [guarding]:
  "guards P Q (loadStringFromRange cx p n)" "guards P Q (loadString cx p)"
  by (auto simp del: run_rules simp: loadStringFromRange_def loadString_def Let_def intro!: guarding PQ
      split: option.split string_encoding.split src_encoding.split prod.split)

lemma P_utf8AsciiLoop [guarding]: "guards P Q (utf8AsciiLoop cx src n w p i us)"
  by (induction us arbitrary: i) (auto simp: Let_def intro!: guarding PQ)

lemma P_widenLoop [guarding]: "guards P Q (widenLoop p n)"
  by (induction n) (auto simp del: run_rules intro!: guarding PQ)

lemma P_latin1Loop [guarding]: "guards P Q (latin1Loop cx pt w n p d us)"
  by (induction us arbitrary: d) (auto simp: Let_def intro!: guarding PQ)

lemma P_storeString [guarding]:
  "guards P Q (storeStringIntoRange cx src)" "guards P Q (storeString cx v p)"
  by (auto simp del: run_rules simp: storeStringIntoRange_def storeString_def storeUtf16ToUtf8_def storeStringToUtf8_def
      storeStringCopyUtf16_def storeStringToLatin1OrUtf16_def Let_def
      intro!: guarding PQ split: string_encoding.split prod.split)

lemma P_loadPrim [guarding]: "guards P Q (loadPrim cx p q)"
  by (cases q) (auto intro!: guarding PQ)

lemma P_storePrim [guarding]: "guards P Q (storePrim cx v q p)"
  by (cases q) (auto intro!: guarding PQ)

lemma P_tryLoadNumericList [guarding]: "guards P Q (tryLoadNumericList cx p n t)"
  by (auto simp del: run_rules simp: tryLoadNumericList_def intro!: guarding PQ split: valtype.split prim.split option.split)

lemma P_tryStoreNumericList [guarding]: "guards P Q (tryStoreNumericList cx vs p t)"
  by (auto simp del: run_rules simp: tryStoreNumericList_def Let_def intro!: guarding PQ split: valtype.split prim.split option.split)

lemma P_loadListFromValidRange:
  "(\<And>p. guards P Q (ld p t)) \<Longrightarrow> guards P Q (loadListFromValidRange ld cx p n t)"
  by (auto simp del: run_rules simp: loadListFromValidRange_def Let_def intro!: guarding PQ split: option.split)

lemma P_loadList: "(\<And>p. guards P Q (ld p t)) \<Longrightarrow> guards P Q (loadList ld cx p t n)"
  by (auto simp del: run_rules simp: loadList_def loadListFromRange_def Let_def intro!: guarding PQ P_loadListFromValidRange split: option.split)

lemma P_storeListIntoValidRange:
  "(\<And>x p. guards P Q (st x t p)) \<Longrightarrow> guards P Q (storeListIntoValidRange st cx v p t)"
  by (auto simp del: run_rules simp: storeListIntoValidRange_def Let_def intro!: guarding PQ split: cval.split)

lemma P_storeList: "(\<And>x p. guards P Q (st x t p)) \<Longrightarrow> guards P Q (storeList st cx v p t n)"
  by (auto simp del: run_rules simp: storeList_def storeListIntoRange_def Let_def
      intro!: guarding PQ P_storeListIntoValidRange split: option.split prod.split)

lemma P_loadRecord:
  "(\<And>f p. f \<in> set fs \<Longrightarrow> guards P Q (ld p (snd f))) \<Longrightarrow> guards P Q (loadRecord ld p fs offs)"
  by (auto simp del: run_rules simp: loadRecord_def intro!: guarding PQ dest!: set_zip_leftD)

lemma P_storeRecord:
  "(\<And>f x p. f \<in> set fs \<Longrightarrow> guards P Q (st x (snd f) p)) \<Longrightarrow> guards P Q (storeRecord st v p fs offs)"
  by (auto simp del: run_rules simp: storeRecord_def intro!: guarding PQ dest!: set_zip_leftD)

lemma P_loadVariant:
  "(\<And>c u p. c \<in> set cs \<Longrightarrow> snd c = Some u \<Longrightarrow> guards P Q (ld p u)) \<Longrightarrow> guards P Q (loadVariant ld p cs d off)"
  unfolding loadVariant_def Let_def
  by (intro guarding PQ) (auto simp del: run_rules simp: not_le intro!: guarding PQ split: option.split, metis nth_mem prod.collapse)

lemma P_storeVariant:
  "(\<And>c u x p. c \<in> set cs \<Longrightarrow> snd c = Some u \<Longrightarrow> guards P Q (st x u p)) \<Longrightarrow>
   guards P Q (storeVariant st v p cs d off)"
  unfolding storeVariant_def
  by (intro guarding PQ) (auto simp del: run_rules intro!: guarding PQ split: option.split prod.split, metis nth_mem prod.collapse)

lemma P_flags [guarding]: "guards P Q (loadFlags p ls)" "guards P Q (storeFlags v p ls)"
  by (auto simp del: run_rules simp: loadFlags_def storeFlags_def intro!: guarding PQ)

lemma P_load: "guards P Q (load cx p t)"
proof (induction t arbitrary: p rule: measure_induct_rule [where f = tsize])
  case (less t)
  note L = P_loadList [OF less.IH] P_loadRecord [OF less.IH] P_loadVariant [OF less.IH]
  show ?case
    by (subst load.simps, cases "despecialize t")
      (auto simp del: run_rules intro!: guarding PQ L P_liftOwn P_liftBorrow P_liftErrorContext P_liftStream P_liftFuture
        dest: tsize_of_list tsize_of_record tsize_of_variant)
qed

lemma P_store: "guards P Q (store cx v t p)"
proof (induction t arbitrary: v p rule: measure_induct_rule [where f = tsize])
  case (less t)
  note L = P_storeList [OF less.IH] P_storeRecord [OF less.IH] P_storeVariant [OF less.IH]
  show ?case
    by (subst store.simps, cases "despecialize t")
      (auto simp del: run_rules intro!: guarding PQ L P_lowerOwn P_lowerBorrow P_lowerErrorContext P_lowerStream P_lowerFuture
        dest: tsize_of_list tsize_of_record tsize_of_variant)
qed

lemma P_buffers:
  "guards P Q (loadListFromValidRange (load cx) cx p n t)"
  "guards P Q (storeListIntoValidRange (store cx) cx v p t)"
  by (simp_all add: P_loadListFromValidRange P_storeListIntoValidRange P_load P_store)

end

section \<open>Lending through loads and stores\<close>

text \<open>A context whose hooks, allocator and asynchronous values keep the lending invariant
  and the number of subtasks.\<close>

definition subtask_count :: "nat \<Rightarrow> 'x cst_scheme \<Rightarrow> bool" where
  "subtask_count n s = (length (c_subtasks s) = n)"

definition hook_safe :: "('x, 'a) cm \<Rightarrow> bool" where
  "hook_safe a \<longleftrightarrow> preserves hinv a \<and> (\<forall>n. preserves (subtask_count n) a)"

definition cx_lends_safe :: "'x cst_scheme cx \<Rightarrow> bool" where
  "cx_lends_safe cx \<longleftrightarrow> hook_safe (cx_checkpoint cx) \<and> (\<forall>i e. hook_safe (cx_inserted cx i e)) \<and>
     (\<forall>e x. hook_safe (cx_removal_failed cx e x)) \<and>
     (\<forall>f p l a n. cx_realloc cx = Some f \<longrightarrow> hook_safe (f p l a n)) \<and>
     (\<forall>i. hook_safe (cx_liftErrorContext cx i)) \<and> (\<forall>i e. hook_safe (cx_liftStream cx i e)) \<and>
     (\<forall>i e. hook_safe (cx_liftFuture cx i e)) \<and> (\<forall>v. hook_safe (cx_lowerErrorContext cx v)) \<and>
     (\<forall>v e. hook_safe (cx_lowerStream cx v e)) \<and> (\<forall>v e. hook_safe (cx_lowerFuture cx v e))"

definition lends_in :: "'x cst_scheme cx \<Rightarrow> 'x cst_scheme \<Rightarrow> bool" where
  "lends_in cx s \<longleftrightarrow> hinv s \<and> (\<forall>j. cx_scope cx = Some (SubtaskScope j) \<longrightarrow> j < length (c_subtasks s))"

lemma preserves_lends_in:
  assumes "preserves hinv a" "\<And>n. preserves (subtask_count n) a"
  shows "preserves (lends_in cx) a"
  unfolding preserves_def
proof (intro allI impI)
  fix s assume s: "lends_in cx s"
  have "length (c_subtasks (snd (a s))) = length (c_subtasks s)"
    using assms(2) [of "length (c_subtasks s)"] by (simp add: preserves_def subtask_count_def)
  with s assms(1) show "lends_in cx (snd (a s))" by (simp add: lends_in_def preserves_def)
qed

lemma hook_lends_in: "hook_safe a \<Longrightarrow> preserves (lends_in cx) a"
  by (simp add: hook_safe_def preserves_lends_in)

lemma preserves_under: "(G \<Longrightarrow> preserves P a) \<Longrightarrow> preserves (\<lambda>s. G \<longrightarrow> P s) a"
  by (auto simp: preserves_def)

lemma count_handles [preserving]: "preserves (subtask_count n) (handles a)"
  by (simp add: preserves_def handles_run subtask_count_def)

lemma count_modify [preserving]:
  "(\<And>s. length (c_subtasks (f s)) = length (c_subtasks s)) \<Longrightarrow> preserves (subtask_count n) (modify f)"
  by (simp add: preserves_def subtask_count_def)

lemma count_handle_ops:
  assumes "cx_lends_safe cx"
  shows "preserves (subtask_count n) (liftOwn cx i rt)" "preserves (subtask_count n) (liftBorrow cx i rt)"
    "preserves (subtask_count n) (lowerOwn cx rep rt)" "preserves (subtask_count n) (lowerBorrow cx rep rt)"
  using assms
  by (auto simp del: run_rules simp: cx_lends_safe_def hook_safe_def liftOwn_def liftBorrow_def lowerOwn_def lowerBorrow_def
      requireInst_def removeHandleWithUnwind_def as_resource_def rhandle_at_def new_handle_def addLender_def
      add_lends_def update_subtask_def subtask_at_def resolveDelivered_def
      intro!: preserving split: option.split borrow_scope.split)

lemma cx_lends_safe_safe: "cx_lends_safe cx \<Longrightarrow> cx_safe cx"
  by (simp add: cx_lends_safe_def cx_safe_def hook_safe_def)

lemma lends_in_same_objects:
  "lends_in cx s \<Longrightarrow> lends_in cx (s\<lparr>c_mem := m\<rparr>)" "lends_in cx s \<Longrightarrow> lends_in cx (s\<lparr>c_may_leave := b\<rparr>)"
  by (simp_all add: lends_in_def hinv_def lend_count_def borrow_slots_def)

lemma lends_in_liftBorrow:
  assumes "cx_lends_safe cx" shows "preserves (lends_in cx) (liftBorrow cx i rt)"
  unfolding preserves_def
proof (intro allI impI)
  fix s assume s: "lends_in cx s"
  have "hinv (snd (liftBorrow cx i rt s))" using s by (intro hinv_liftBorrow) (simp_all add: lends_in_def)
  moreover have "length (c_subtasks (snd (liftBorrow cx i rt s))) = length (c_subtasks s)"
    using count_handle_ops(2) [OF assms, of "length (c_subtasks s)" i rt] by (simp add: preserves_def subtask_count_def)
  ultimately show "lends_in cx (snd (liftBorrow cx i rt s))" using s by (simp add: lends_in_def)
qed

interpretation lending: abi_invariant "\<lambda>s. cx_lends_safe cx \<longrightarrow> lends_in cx s" "\<lambda>s. cx_lends_safe cx \<longrightarrow> lends_in cx s" cx for cx :: "'x cst_scheme cx"
proof (unfold_locales, unfold guards_same)
  fix s :: "'x cst_scheme" and m b
  show "cx_lends_safe cx \<longrightarrow> lends_in cx (s\<lparr>c_mem := m\<rparr>)" if "cx_lends_safe cx \<longrightarrow> lends_in cx s"
    using that lends_in_same_objects by blast
  show "cx_lends_safe cx \<longrightarrow> lends_in cx (s\<lparr>c_may_leave := b\<rparr>)" if "cx_lends_safe cx \<longrightarrow> lends_in cx s"
    using that lends_in_same_objects by blast
next
  show "preserves (\<lambda>s. cx_lends_safe cx \<longrightarrow> lends_in cx s) (liftOwn cx i rt)" for i rt
    by (intro preserves_under preserves_lends_in preserves_liftOwn cx_lends_safe_safe count_handle_ops)
  show "preserves (\<lambda>s. cx_lends_safe cx \<longrightarrow> lends_in cx s) (liftBorrow cx i rt)" for i rt
    by (intro preserves_under lends_in_liftBorrow)
  show "preserves (\<lambda>s. cx_lends_safe cx \<longrightarrow> lends_in cx s) (lowerOwn cx rep rt)" for rep rt
    by (intro preserves_under preserves_lends_in preserves_lowerOwn cx_lends_safe_safe count_handle_ops)
  show "preserves (\<lambda>s. cx_lends_safe cx \<longrightarrow> lends_in cx s) (lowerBorrow cx rep rt)" for rep rt
    by (intro preserves_under preserves_lends_in preserves_lowerBorrow cx_lends_safe_safe count_handle_ops)
qed (auto simp: cx_lends_safe_def intro!: preserves_under hook_lends_in)

text \<open>C20. Loading and storing values of any type, resource handles and aggregates of them
  included, keeps the lending invariant, whether it succeeds or traps half-way.\<close>

theorem load_store_keep_lending:
  assumes "cx_lends_safe cx" "lends_in cx s"
  shows "hinv (snd (load cx p t s)) \<and> hinv (snd (store cx v t p s))"
  using lending.P_load [of cx p t] lending.P_store [of cx v t p] assms
  by (auto simp: guards_same preserves_def lends_in_def)

lemma load_store_keep_lending_witness:
  "hinv (snd (load (plain_cx (Some (SubtaskScope 0))) 0 (TupleT [OwnT (RTable 0 0), BorrowT (RTable 0 0)])
     (lent_state\<lparr>c_mem := [1, 0, 0, 0, 1, 0, 0, 0]\<rparr>)))"
proof -
  have "cx_lends_safe (plain_cx (Some (SubtaskScope 0)))"
    by (simp add: cx_lends_safe_def hook_safe_def plain_cx_def)
  moreover have "lends_in (plain_cx (Some (SubtaskScope 0))) (lent_state\<lparr>c_mem := [1, 0, 0, 0, 1, 0, 0, 0]\<rparr>)"
    using hinv_lent_state by (intro lends_in_same_objects) (simp add: lends_in_def plain_cx_def lent_state_def)
  ultimately show ?thesis by (rule load_store_keep_lending [THEN conjunct1])
qed

end
