(* ===== verification/Waitables.thy ===== *)
theory Waitables
  imports Prelude
begin

text \<open>
  Waitables and waitable sets (\<open>runtime/src/task/waitable.ts\<close>) and the scheduler's
  choice among ready candidates (\<open>runtime/src/task/scheduler.ts\<close>). A waitable is
  named by its place in \<open>w_waitables\<close>, a set by its place in \<open>w_sets\<close>; streams, futures
  and subtasks are waitables, so their records hold such a place. A pending event is a
  thunk that runs when the event is delivered: it is a value of a type \<open>'p\<close>, and the
  operations that deliver take the function \<open>run\<close> that runs one. What they need of \<open>run\<close>
  is the locale \<open>event_source\<close>: running a thunk leaves waitables and sets alone.
\<close>

section \<open>Events\<close>

datatype event_code =
  NONE | SUBTASK | STREAM_READ | STREAM_WRITE | FUTURE_READ | FUTURE_WRITE | TASK_CANCELLED

fun event_number :: "event_code \<Rightarrow> nat" where
  "event_number NONE = 0"
| "event_number SUBTASK = 1"
| "event_number STREAM_READ = 2"
| "event_number STREAM_WRITE = 3"
| "event_number FUTURE_READ = 4"
| "event_number FUTURE_WRITE = 5"
| "event_number TASK_CANCELLED = 6"

type_synonym event_tuple = "event_code \<times> nat \<times> nat"

section \<open>State\<close>

record 'p waitable =
  wt_pending :: "'p option"
  wt_wset :: "nat option"
  wt_sync :: bool

record waitable_set =
  ws_elems :: "nat list"
  ws_waiting :: int

text \<open>\<open>w_seed\<close> and \<open>w_rng\<close> are the scheduler's \<open>seed\<close> and \<open>rngState\<close>.\<close>

record 'p wst =
  w_waitables :: "'p waitable list"
  w_sets :: "waitable_set list"
  w_seed :: "32 word option"
  w_rng :: "32 word"

type_synonym ('p, 'x, 'a) wm = "(('p, 'x) wst_scheme, 'a) m"

definition init_waitable :: "'p waitable" where
  "init_waitable = \<lparr>wt_pending = None, wt_wset = None, wt_sync = False\<rparr>"

definition init_wset :: waitable_set where
  "init_wset = \<lparr>ws_elems = [], ws_waiting = 0\<rparr>"

definition upd_waitable :: "nat \<Rightarrow> ('p waitable \<Rightarrow> 'p waitable) \<Rightarrow> ('p, 'x, unit) wm" where
  "upd_waitable w f = modify (\<lambda>s. s\<lparr>w_waitables := (w_waitables s)[w := f (w_waitables s ! w)]\<rparr>)"

definition upd_wset :: "nat \<Rightarrow> (waitable_set \<Rightarrow> waitable_set) \<Rightarrow> ('p, 'x, unit) wm" where
  "upd_wset k f = modify (\<lambda>s. s\<lparr>w_sets := (w_sets s)[k := f (w_sets s ! k)]\<rparr>)"

definition new_waitable :: "('p, 'x, nat) wm" where
  "new_waitable =
     bnd (gets (\<lambda>s. length (w_waitables s))) (\<lambda>w.
     seqm (modify (\<lambda>s. s\<lparr>w_waitables := w_waitables s @ [init_waitable]\<rparr>)) (ret w))"

definition new_wset :: "('p, 'x, nat) wm" where
  "new_wset =
     bnd (gets (\<lambda>s. length (w_sets s))) (\<lambda>k.
     seqm (modify (\<lambda>s. s\<lparr>w_sets := w_sets s @ [init_wset]\<rparr>)) (ret k))"

section \<open>The scheduler's choice\<close>

unbundle bit_operations_syntax

text \<open>xorshift32 on the generator's state.\<close>

definition xorshift32 :: "32 word \<Rightarrow> 32 word" where
  "xorshift32 x0 =
     (let x1 = x0 XOR push_bit 13 x0;
          x2 = x1 XOR drop_bit 17 x1
      in x2 XOR push_bit 5 x2)"

definition nextRandom :: "('p, 'x, 32 word) wm" where
  "nextRandom =
     bnd (gets w_rng) (\<lambda>r.
     let x = xorshift32 (if r = 0 then 0x9e3779b9 else r) in
     seqm (modify (\<lambda>s. s\<lparr>w_rng := x\<rparr>)) (ret x))"

definition chooseCandidate :: "'a list \<Rightarrow> ('p, 'x, 'a) wm" where
  "chooseCandidate candidates =
     seqm (assertm (candidates \<noteq> []) ''chooseCandidate on an empty candidate set'')
     (bnd (gets w_seed) (\<lambda>seed.
      if seed = None then ret (candidates ! 0)
      else bnd nextRandom (\<lambda>x. ret (candidates ! (unat x mod length candidates)))))"

section \<open>One waitable\<close>

definition setPendingEvent :: "nat \<Rightarrow> 'p \<Rightarrow> ('p, 'x, unit) wm" where
  "setPendingEvent w p = upd_waitable w (\<lambda>x. x\<lparr>wt_pending := Some p\<rparr>)"

definition hasPendingEvent :: "nat \<Rightarrow> ('p, 'x) wst_scheme \<Rightarrow> bool" where
  "hasPendingEvent w s = (wt_pending (w_waitables s ! w) \<noteq> None)"

definition inWaitableSet :: "nat \<Rightarrow> ('p, 'x) wst_scheme \<Rightarrow> bool" where
  "inWaitableSet w s = (wt_wset (w_waitables s ! w) \<noteq> None)"

definition hasSyncWaiter :: "nat \<Rightarrow> ('p, 'x) wst_scheme \<Rightarrow> bool" where
  "hasSyncWaiter w s = wt_sync (w_waitables s ! w)"

text \<open>
  \<open>waitForPendingEvent\<close> is a generator: it claims the waitable, blocks until it has an
  event, and gives the claim up when it is resumed.
\<close>

definition waitForPendingEvent :: "nat \<Rightarrow> ('p, 'x, unit) wm" where
  "waitForPendingEvent w =
     bnd (gets (\<lambda>s. \<not> inWaitableSet w s \<and> \<not> hasSyncWaiter w s)) (\<lambda>ok.
     seqm (assertm ok ''waitForPendingEvent on a joined or already-awaited waitable'')
     (upd_waitable w (\<lambda>x. x\<lparr>wt_sync := True\<rparr>)))"

definition waitForPendingEvent_resume :: "nat \<Rightarrow> ('p, 'x, unit) wm" where
  "waitForPendingEvent_resume w = upd_waitable w (\<lambda>x. x\<lparr>wt_sync := False\<rparr>)"

definition getPendingEvent :: "('p \<Rightarrow> ('p, 'x, event_tuple) wm) \<Rightarrow> nat \<Rightarrow> ('p, 'x, event_tuple) wm" where
  "getPendingEvent run w =
     bnd (gets (\<lambda>s. wt_pending (w_waitables s ! w))) (\<lambda>pending.
     case pending of
       None \<Rightarrow> throw (AssertionError ''getPendingEvent with no pending event'')
     | Some p \<Rightarrow> seqm (upd_waitable w (\<lambda>x. x\<lparr>wt_pending := None\<rparr>)) (run p))"

text \<open>\<open>elems.splice(elems.indexOf(w), 1)\<close> removes the first occurrence.\<close>

definition waitable_join :: "nat \<Rightarrow> nat option \<Rightarrow> ('p, 'x, unit) wm" where
  "waitable_join w wset =
     bnd (gets (hasSyncWaiter w)) (\<lambda>sync.
     seqm (assertm (\<not> sync) ''join on a waitable with a sync waiter'')
     (bnd (gets (\<lambda>s. wt_wset (w_waitables s ! w))) (\<lambda>old.
      seqm (case old of
              None \<Rightarrow> ret ()
            | Some k \<Rightarrow>
                bnd (gets (\<lambda>s. w \<in> set (ws_elems (w_sets s ! k)))) (\<lambda>member.
                seqm (assertm member ''waitable not in its own waitable set'')
                (upd_wset k (\<lambda>x. x\<lparr>ws_elems := remove1 w (ws_elems x)\<rparr>))))
      (seqm (upd_waitable w (\<lambda>x. x\<lparr>wt_wset := wset\<rparr>))
      (case wset of
         None \<Rightarrow> ret ()
       | Some k \<Rightarrow> upd_wset k (\<lambda>x. x\<lparr>ws_elems := ws_elems x @ [w]\<rparr>))))))"

definition waitable_drop :: "nat \<Rightarrow> ('p, 'x, unit) wm" where
  "waitable_drop w =
     bnd (gets (hasSyncWaiter w)) (\<lambda>sync.
     seqm (assertm (\<not> sync) ''dropping a waitable with a sync waiter'')
     (seqm (upd_waitable w (\<lambda>x. x\<lparr>wt_pending := None\<rparr>))
     (waitable_join w None)))"

section \<open>Waitable sets\<close>

definition wset_hasPendingEvent :: "nat \<Rightarrow> ('p, 'x) wst_scheme \<Rightarrow> bool" where
  "wset_hasPendingEvent k s = list_ex (\<lambda>w. hasPendingEvent w s) (ws_elems (w_sets s ! k))"

definition wset_getPendingEvent :: "('p \<Rightarrow> ('p, 'x, event_tuple) wm) \<Rightarrow> nat \<Rightarrow> ('p, 'x, event_tuple) wm" where
  "wset_getPendingEvent run k =
     bnd (gets (\<lambda>s. filter (\<lambda>w. hasPendingEvent w s) (ws_elems (w_sets s ! k)))) (\<lambda>ready.
     seqm (assertm (ready \<noteq> []) ''getPendingEvent on a set with no pending event'')
     (bnd (chooseCandidate ready) (\<lambda>w.
      bnd (gets (\<lambda>s. wt_wset (w_waitables s ! w) = Some k)) (\<lambda>back.
      seqm (assertm back ''waitable/waitable-set back-reference mismatch'')
      (getPendingEvent run w)))))"

definition wset_poll :: "('p \<Rightarrow> ('p, 'x, event_tuple) wm) \<Rightarrow> nat \<Rightarrow> ('p, 'x, event_tuple) wm" where
  "wset_poll run k =
     bnd (gets (wset_hasPendingEvent k)) (\<lambda>pending.
     if \<not> pending then ret (NONE, 0, 0) else wset_getPendingEvent run k)"

definition wset_drop :: "nat \<Rightarrow> ('p, 'x, unit) wm" where
  "wset_drop k =
     bnd (gets (\<lambda>s. w_sets s ! k)) (\<lambda>ws.
     seqm (trapIf (ws_elems ws \<noteq> []) ''cannot drop waitable set with waitables'')
     (trapIf (ws_waiting ws > 0) ''cannot drop waitable set with waiters''))"

text \<open>
  The waits are generators with a \<open>finally\<close>: entering counts the waiter, resuming
  delivers, and leaving, by a return, a throw or an abandonment, uncounts it. The
  scheduler resumes a thread when its readiness predicate holds.
\<close>

definition wait_enter :: "nat \<Rightarrow> ('p, 'x, unit) wm" where
  "wait_enter k = upd_wset k (\<lambda>x. x\<lparr>ws_waiting := ws_waiting x + 1\<rparr>)"

definition wait_leave :: "nat \<Rightarrow> ('p, 'x) wst_scheme \<Rightarrow> ('p, 'x) wst_scheme" where
  "wait_leave k s = s\<lparr>w_sets := (w_sets s)[k := (w_sets s ! k)\<lparr>ws_waiting := ws_waiting (w_sets s ! k) - 1\<rparr>]\<rparr>"

definition waitForEventAnd_ready ::
    "(('p, 'x) wst_scheme \<Rightarrow> bool) \<Rightarrow> nat \<Rightarrow> ('p, 'x) wst_scheme \<Rightarrow> bool" where
  "waitForEventAnd_ready readyFunc k s = (readyFunc s \<and> wset_hasPendingEvent k s)"

definition waitForEventAnd_resume ::
    "('p \<Rightarrow> ('p, 'x, event_tuple) wm) \<Rightarrow> nat \<Rightarrow> ('p, 'x, event_tuple) wm" where
  "waitForEventAnd_resume run k = finallym (wset_getPendingEvent run k) (wait_leave k)"

definition waitForEvent_ready :: "nat \<Rightarrow> ('p, 'x) wst_scheme \<Rightarrow> bool" where
  "waitForEvent_ready k s = waitForEventAnd_ready (\<lambda>_. True) k s"

text \<open>The callback wait: a pending cancellation of the task has priority over the set's events.\<close>

definition waitForCallbackEvent_ready ::
    "(('p, 'x) wst_scheme \<Rightarrow> bool) \<Rightarrow> (('p, 'x) wst_scheme \<Rightarrow> bool) \<Rightarrow> nat \<Rightarrow> ('p, 'x) wst_scheme \<Rightarrow> bool" where
  "waitForCallbackEvent_ready hasPendingCancel lockAvailable k s =
     (lockAvailable s \<and> (hasPendingCancel s \<or> wset_hasPendingEvent k s))"

definition waitForCallbackEvent_resume ::
    "('p \<Rightarrow> ('p, 'x, event_tuple) wm) \<Rightarrow> ('p, 'x, bool) wm \<Rightarrow> nat \<Rightarrow> ('p, 'x, event_tuple) wm" where
  "waitForCallbackEvent_resume run deliverPendingCancel k =
     finallym
       (bnd deliverPendingCancel (\<lambda>cancelled.
        if cancelled then ret (TASK_CANCELLED, 0, 0) else wset_getPendingEvent run k))
       (wait_leave k)"

section \<open>Membership and waiters\<close>

text \<open>
  A waitable is in the set it names, once, and in no other; the count of a set is the
  number of its waiters (\<open>ws\<close> lists the sets of the blocked waits); a waitable that is
  claimed synchronously is in no set.
\<close>

definition winv :: "('p, 'x) wst_scheme \<Rightarrow> nat list \<Rightarrow> bool" where
  "winv s ws \<longleftrightarrow>
     (\<forall>k < length (w_sets s). distinct (ws_elems (w_sets s ! k)) \<and>
        ws_waiting (w_sets s ! k) = int (count_list ws k) \<and>
        (\<forall>w\<in>set (ws_elems (w_sets s ! k)). w < length (w_waitables s) \<and> wt_wset (w_waitables s ! w) = Some k)) \<and>
     (\<forall>w < length (w_waitables s). \<forall>k. wt_wset (w_waitables s ! w) = Some k \<longrightarrow>
        k < length (w_sets s) \<and> w \<in> set (ws_elems (w_sets s ! k)) \<and> \<not> wt_sync (w_waitables s ! w)) \<and>
     (\<forall>k\<in>set ws. k < length (w_sets s))"

lemma winvI:
  assumes "\<And>k. k < length (w_sets s) \<Longrightarrow> distinct (ws_elems (w_sets s ! k))"
    "\<And>k. k < length (w_sets s) \<Longrightarrow> ws_waiting (w_sets s ! k) = int (count_list ws k)"
    "\<And>k w. k < length (w_sets s) \<Longrightarrow> w \<in> set (ws_elems (w_sets s ! k)) \<Longrightarrow>
       w < length (w_waitables s) \<and> wt_wset (w_waitables s ! w) = Some k"
    "\<And>w k. w < length (w_waitables s) \<Longrightarrow> wt_wset (w_waitables s ! w) = Some k \<Longrightarrow>
       k < length (w_sets s) \<and> w \<in> set (ws_elems (w_sets s ! k)) \<and> \<not> wt_sync (w_waitables s ! w)"
    "\<And>k. k \<in> set ws \<Longrightarrow> k < length (w_sets s)"
  shows "winv s ws"
  unfolding winv_def using assms by blast

lemma winvD:
  assumes "winv s ws"
  shows "k < length (w_sets s) \<Longrightarrow> distinct (ws_elems (w_sets s ! k))"
    "k < length (w_sets s) \<Longrightarrow> ws_waiting (w_sets s ! k) = int (count_list ws k)"
    "k < length (w_sets s) \<Longrightarrow> w \<in> set (ws_elems (w_sets s ! k)) \<Longrightarrow> w < length (w_waitables s)"
    "k < length (w_sets s) \<Longrightarrow> w \<in> set (ws_elems (w_sets s ! k)) \<Longrightarrow> wt_wset (w_waitables s ! w) = Some k"
    "w < length (w_waitables s) \<Longrightarrow> wt_wset (w_waitables s ! w) = Some k \<Longrightarrow> k < length (w_sets s)"
    "w < length (w_waitables s) \<Longrightarrow> wt_wset (w_waitables s ! w) = Some k \<Longrightarrow> w \<in> set (ws_elems (w_sets s ! k))"
    "w < length (w_waitables s) \<Longrightarrow> wt_wset (w_waitables s ! w) = Some k \<Longrightarrow> \<not> wt_sync (w_waitables s ! w)"
    "k \<in> set ws \<Longrightarrow> k < length (w_sets s)"
  using assms unfolding winv_def by blast+

lemma winv_same: "w_waitables t = w_waitables s \<Longrightarrow> w_sets t = w_sets s \<Longrightarrow> winv t ws = winv s ws"
  by (simp add: winv_def)

named_theorems waitable_runs \<open>what the operations on waitables leave behind\<close>

lemma upd_waitable_run [waitable_runs]:
  "upd_waitable w f s = (Inr (), s\<lparr>w_waitables := (w_waitables s)[w := f (w_waitables s ! w)]\<rparr>)"
  by (simp add: upd_waitable_def)

lemma upd_wset_run [waitable_runs]:
  "upd_wset k f s = (Inr (), s\<lparr>w_sets := (w_sets s)[k := f (w_sets s ! k)]\<rparr>)"
  by (simp add: upd_wset_def)

lemma new_waitable_run [waitable_runs]:
  "new_waitable s = (Inr (length (w_waitables s)), s\<lparr>w_waitables := w_waitables s @ [init_waitable]\<rparr>)"
  by (simp add: new_waitable_def seqm_run)

lemma new_wset_run [waitable_runs]:
  "new_wset s = (Inr (length (w_sets s)), s\<lparr>w_sets := w_sets s @ [init_wset]\<rparr>)"
  by (simp add: new_wset_def seqm_run)

lemma setPendingEvent_run [waitable_runs]:
  "setPendingEvent w p s = (Inr (), s\<lparr>w_waitables := (w_waitables s)[w := (w_waitables s ! w)\<lparr>wt_pending := Some p\<rparr>]\<rparr>)"
  by (simp add: setPendingEvent_def upd_waitable_run)

text \<open>Changing the event or giving up the claim of a waitable changes no membership.\<close>

lemma winv_upd_waitable:
  assumes "winv s ws" "wt_wset x = wt_wset (w_waitables s ! w)" "wt_sync x \<longrightarrow> wt_sync (w_waitables s ! w) \<or> wt_wset x = None"
  shows "winv (s\<lparr>w_waitables := (w_waitables s)[w := x]\<rparr>) ws"
proof (rule winvI)
  fix k v assume "k < length (w_sets (s\<lparr>w_waitables := (w_waitables s)[w := x]\<rparr>))"
    "v \<in> set (ws_elems (w_sets (s\<lparr>w_waitables := (w_waitables s)[w := x]\<rparr>) ! k))"
  then show "v < length (w_waitables (s\<lparr>w_waitables := (w_waitables s)[w := x]\<rparr>)) \<and>
      wt_wset (w_waitables (s\<lparr>w_waitables := (w_waitables s)[w := x]\<rparr>) ! v) = Some k"
    using winvD(3,4) [OF assms(1), of k v] assms(2) by (cases "v = w") simp_all
next
  fix v k assume "v < length (w_waitables (s\<lparr>w_waitables := (w_waitables s)[w := x]\<rparr>))"
    "wt_wset (w_waitables (s\<lparr>w_waitables := (w_waitables s)[w := x]\<rparr>) ! v) = Some k"
  then show "k < length (w_sets (s\<lparr>w_waitables := (w_waitables s)[w := x]\<rparr>)) \<and>
      v \<in> set (ws_elems (w_sets (s\<lparr>w_waitables := (w_waitables s)[w := x]\<rparr>) ! k)) \<and>
      \<not> wt_sync (w_waitables (s\<lparr>w_waitables := (w_waitables s)[w := x]\<rparr>) ! v)"
    using winvD(5,6,7) [OF assms(1), of v k] assms(2,3) by (cases "v = w") auto
qed (use winvD(1,2,8) [OF assms(1)] in simp_all)

lemma winv_waiting:
  assumes "winv s ws" "k < length (w_sets s)" "\<forall>k' \<in> set ws'. k' < length (w_sets s)"
    "\<And>k'. int (count_list ws' k') = int (count_list ws k') + (if k' = k then d else 0)"
  shows "winv (s\<lparr>w_sets := (w_sets s)[k := (w_sets s ! k)\<lparr>ws_waiting := ws_waiting (w_sets s ! k) + d\<rparr>]\<rparr>) ws'"
proof (rule winvI)
  let ?t = "s\<lparr>w_sets := (w_sets s)[k := (w_sets s ! k)\<lparr>ws_waiting := ws_waiting (w_sets s ! k) + d\<rparr>]\<rparr>"
  have e: "ws_elems (w_sets ?t ! j) = ws_elems (w_sets s ! j)" for j
    by (cases "j = k") (simp_all add: assms(2))
  fix j
  show "distinct (ws_elems (w_sets ?t ! j))" if "j < length (w_sets ?t)"
    using winvD(1) [OF assms(1), of j] that unfolding e by simp
  show "ws_waiting (w_sets ?t ! j) = int (count_list ws' j)" if "j < length (w_sets ?t)"
    using winvD(2) [OF assms(1), of j] that assms(4) [of j] by (cases "j = k") simp_all
  show "j < length (w_sets ?t)" if "j \<in> set ws'" using that assms(3) by simp
  fix w
  show "w < length (w_waitables ?t) \<and> wt_wset (w_waitables ?t ! w) = Some j"
    if "j < length (w_sets ?t)" "w \<in> set (ws_elems (w_sets ?t ! j))"
    using that winvD(3,4) [OF assms(1), of j w] unfolding e by simp
  show "j < length (w_sets ?t) \<and> w \<in> set (ws_elems (w_sets ?t ! j)) \<and> \<not> wt_sync (w_waitables ?t ! w)"
    if "w < length (w_waitables ?t)" "wt_wset (w_waitables ?t ! w) = Some j"
    using that winvD(5-7) [OF assms(1), of w j] unfolding e by simp
qed

lemma winv_enter:
  assumes "winv s ws" "k < length (w_sets s)"
  shows "winv (snd (wait_enter k s)) (k # ws)"
  using assms winvD(8) [OF assms(1)]
  by (simp add: wait_enter_def upd_wset_run winv_waiting [where d = 1 and ws = ws])

lemma winv_leave:
  assumes "winv s ws" "k \<in> set ws"
  shows "winv (wait_leave k s) (remove1 k ws)"
proof -
  have k: "k < length (w_sets s)" using winvD(8) [OF assms] .
  have c: "int (count_list (remove1 k ws) k') = int (count_list ws k') + (if k' = k then - 1 else 0)" for k'
    using assms(2) by (induction ws) auto
  show ?thesis
    using winv_waiting [OF assms(1) k, where d = "- 1" and ws' = "remove1 k ws"] c winvD(8) [OF assms(1)]
      set_remove1_subset [of k ws]
    by (auto simp: wait_leave_def)
qed

text \<open>What \<open>join\<close> leaves behind: \<open>w\<close> leaves its set, then enters the new one at the end.\<close>

definition unlinked :: "nat \<Rightarrow> ('p, 'x) wst_scheme \<Rightarrow> ('p, 'x) wst_scheme" where
  "unlinked w s = s\<lparr>w_waitables := (w_waitables s)[w := (w_waitables s ! w)\<lparr>wt_wset := None\<rparr>],
     w_sets := (case wt_wset (w_waitables s ! w) of None \<Rightarrow> w_sets s
       | Some k \<Rightarrow> (w_sets s)[k := (w_sets s ! k)\<lparr>ws_elems := remove1 w (ws_elems (w_sets s ! k))\<rparr>])\<rparr>"

definition linked :: "nat \<Rightarrow> nat \<Rightarrow> ('p, 'x) wst_scheme \<Rightarrow> ('p, 'x) wst_scheme" where
  "linked w k s = s\<lparr>w_waitables := (w_waitables s)[w := (w_waitables s ! w)\<lparr>wt_wset := Some k\<rparr>],
     w_sets := (w_sets s)[k := (w_sets s ! k)\<lparr>ws_elems := ws_elems (w_sets s ! k) @ [w]\<rparr>]\<rparr>"

lemma unlinked_lengths [simp]:
  "length (w_waitables (unlinked w s)) = length (w_waitables s)"
  "length (w_sets (unlinked w s)) = length (w_sets s)"
  by (simp_all add: unlinked_def split: option.split)

lemma unlinked_waitable:
  "w_waitables (unlinked w s) ! v =
     (if v = w \<and> w < length (w_waitables s) then (w_waitables s ! w)\<lparr>wt_wset := None\<rparr> else w_waitables s ! v)"
  by (cases "v = w") (auto simp: unlinked_def nth_list_update list_update_beyond not_less)

lemma unlinked_set:
  assumes "winv s ws" "w < length (w_waitables s)" "k < length (w_sets s)"
  shows "w_sets (unlinked w s) ! k = (w_sets s ! k)\<lparr>ws_elems := remove1 w (ws_elems (w_sets s ! k))\<rparr>"
proof (cases "wt_wset (w_waitables s ! w) = Some k")
  case True
  then show ?thesis using assms(3) by (simp add: unlinked_def)
next
  case False
  then have "w \<notin> set (ws_elems (w_sets s ! k))" using winvD(4) [OF assms(1,3)] by blast
  moreover have "w_sets (unlinked w s) ! k = w_sets s ! k"
    using False by (auto simp: unlinked_def split: option.split)
  ultimately show ?thesis by (simp add: remove1_idem)
qed

lemma winv_unlinked:
  assumes "winv s ws" "w < length (w_waitables s)"
  shows "winv (unlinked w s) ws"
proof (rule winvI)
  note S = unlinked_set [OF assms]
  fix k
  show "distinct (ws_elems (w_sets (unlinked w s) ! k))" if "k < length (w_sets (unlinked w s))"
    using that winvD(1) [OF assms(1)] by (simp add: S)
  show "ws_waiting (w_sets (unlinked w s) ! k) = int (count_list ws k)" if "k < length (w_sets (unlinked w s))"
    using that winvD(2) [OF assms(1)] by (simp add: S)
  show "k < length (w_sets (unlinked w s))" if "k \<in> set ws"
    using that winvD(8) [OF assms(1)] by simp
  fix v
  show "v < length (w_waitables (unlinked w s)) \<and> wt_wset (w_waitables (unlinked w s) ! v) = Some k"
    if "k < length (w_sets (unlinked w s))" "v \<in> set (ws_elems (w_sets (unlinked w s) ! k))"
  proof -
    have "v \<in> set (ws_elems (w_sets s ! k))" "v \<noteq> w"
      using that winvD(1) [OF assms(1), of k] by (auto simp: S)
    then show ?thesis using that(1) winvD(3,4) [OF assms(1), of k v] by (simp add: unlinked_waitable)
  qed
  show "k < length (w_sets (unlinked w s)) \<and> v \<in> set (ws_elems (w_sets (unlinked w s) ! k)) \<and>
      \<not> wt_sync (w_waitables (unlinked w s) ! v)"
    if "v < length (w_waitables (unlinked w s))" "wt_wset (w_waitables (unlinked w s) ! v) = Some k"
    using that winvD(5-7) [OF assms(1), of v k] assms(2) by (auto simp: unlinked_waitable S split: if_splits)
qed

lemma winv_linked:
  assumes "winv s ws" "w < length (w_waitables s)" "k < length (w_sets s)"
    "wt_wset (w_waitables s ! w) = None" "\<not> wt_sync (w_waitables s ! w)"
  shows "winv (linked w k s) ws"
proof (rule winvI)
  have out: "w \<notin> set (ws_elems (w_sets s ! j))" if "j < length (w_sets s)" for j
    using winvD(4) [OF assms(1) that, of w] assms(4) by fastforce
  have W: "w_waitables (linked w k s) ! v = (if v = w then (w_waitables s ! w)\<lparr>wt_wset := Some k\<rparr> else w_waitables s ! v)" for v
    using assms(2) by (simp add: linked_def nth_list_update)
  have S: "w_sets (linked w k s) ! j =
      (if j = k then (w_sets s ! k)\<lparr>ws_elems := ws_elems (w_sets s ! k) @ [w]\<rparr> else w_sets s ! j)" for j
    using assms(3) by (simp add: linked_def nth_list_update)
  have L: "length (w_waitables (linked w k s)) = length (w_waitables s)" "length (w_sets (linked w k s)) = length (w_sets s)"
    by (simp_all add: linked_def)
  fix j
  show "distinct (ws_elems (w_sets (linked w k s) ! j))" if "j < length (w_sets (linked w k s))"
    using that winvD(1) [OF assms(1)] out by (simp add: S L)
  show "ws_waiting (w_sets (linked w k s) ! j) = int (count_list ws j)" if "j < length (w_sets (linked w k s))"
    using that winvD(2) [OF assms(1)] by (simp add: S L)
  show "j < length (w_sets (linked w k s))" if "j \<in> set ws"
    using that winvD(8) [OF assms(1)] by (simp add: L)
  fix v
  show "v < length (w_waitables (linked w k s)) \<and> wt_wset (w_waitables (linked w k s) ! v) = Some j"
    if "j < length (w_sets (linked w k s))" "v \<in> set (ws_elems (w_sets (linked w k s) ! j))"
    using that winvD(3,4) [OF assms(1), of j v] assms(2) out by (auto simp: S L W split: if_splits)
  show "j < length (w_sets (linked w k s)) \<and> v \<in> set (ws_elems (w_sets (linked w k s) ! j)) \<and>
      \<not> wt_sync (w_waitables (linked w k s) ! v)"
    if "v < length (w_waitables (linked w k s))" "wt_wset (w_waitables (linked w k s) ! v) = Some j"
    using that winvD(5-7) [OF assms(1), of v j] assms(3,5) by (auto simp: S L W split: if_splits)
qed

lemma waitable_join_run:
  assumes "winv s ws" "w < length (w_waitables s)" "\<not> wt_sync (w_waitables s ! w)"
  shows "waitable_join w q s = (Inr (), case q of None \<Rightarrow> unlinked w s | Some k \<Rightarrow> linked w k (unlinked w s))"
proof -
  have m: "w \<in> set (ws_elems (w_sets s ! k))" if "wt_wset (w_waitables s ! w) = Some k" for k
    using winvD(6) [OF assms(1,2) that] .
  show ?thesis
    using assms(2,3) m
    by (cases "wt_wset (w_waitables s ! w)"; cases q)
      (simp_all add: waitable_join_def monad_simps waitable_runs hasSyncWaiter_def unlinked_def linked_def)
qed

lemma winv_waitable_join:
  assumes "winv s ws" "w < length (w_waitables s)" "case q of None \<Rightarrow> True | Some k \<Rightarrow> k < length (w_sets s)"
  shows "winv (snd (waitable_join w q s)) ws"
proof (cases "wt_sync (w_waitables s ! w)")
  case True
  then show ?thesis using assms(1) by (simp add: waitable_join_def monad_simps hasSyncWaiter_def)
next
  case False
  have "winv (linked w k (unlinked w s)) ws" if "q = Some k" for k
    using that assms(2,3) False by (intro winv_linked winv_unlinked [OF assms(1,2)]) (simp_all add: unlinked_waitable)
  then show ?thesis using waitable_join_run [OF assms(1,2) False, of q] winv_unlinked [OF assms(1,2)] by (cases q) simp_all
qed

lemma winv_waitable_drop:
  assumes "winv s ws" "w < length (w_waitables s)"
  shows "winv (snd (waitable_drop w s)) ws"
proof (cases "wt_sync (w_waitables s ! w)")
  case True
  then show ?thesis using assms(1) by (simp add: waitable_drop_def monad_simps hasSyncWaiter_def)
next
  case False
  let ?u = "s\<lparr>w_waitables := (w_waitables s)[w := (w_waitables s ! w)\<lparr>wt_pending := None\<rparr>]\<rparr>"
  have "winv ?u ws" using winv_upd_waitable [OF assms(1)] by simp
  then have "winv (snd (waitable_join w None ?u)) ws" using assms(2) by (intro winv_waitable_join) simp_all
  then show ?thesis using False by (simp add: waitable_drop_def monad_simps waitable_runs hasSyncWaiter_def)
qed

section \<open>Delivery\<close>

text \<open>The state in which the thunk of a delivered event runs.\<close>

definition consumed :: "nat \<Rightarrow> 32 word \<Rightarrow> ('p, 'x) wst_scheme \<Rightarrow> ('p, 'x) wst_scheme" where
  "consumed w r s = s\<lparr>w_rng := r, w_waitables := (w_waitables s)[w := (w_waitables s ! w)\<lparr>wt_pending := None\<rparr>]\<rparr>"

lemma consumed_simps [simp]:
  "w_sets (consumed w r s) = w_sets s"
  "length (w_waitables (consumed w r s)) = length (w_waitables s)"
  by (simp_all add: consumed_def)

lemma winv_consumed:
  assumes "winv s ws" shows "winv (consumed w r s) ws"
proof -
  have "winv (s\<lparr>w_rng := r\<rparr>) ws" using assms winv_same [of "s\<lparr>w_rng := r\<rparr>" s] by simp
  from winv_upd_waitable [OF this, of "(w_waitables s ! w)\<lparr>wt_pending := None\<rparr>" w]
  show ?thesis by (simp add: consumed_def)
qed

lemma chooseCandidate_run:
  assumes "cs \<noteq> []"
  obtains r c where "chooseCandidate cs s = (Inr c, s\<lparr>w_rng := r\<rparr>)" "c \<in> set cs" "w_seed s = None \<longrightarrow> c = hd cs \<and> r = w_rng s"
proof (cases "w_seed s = None")
  case True
  then have "chooseCandidate cs s = (Inr (hd cs), s\<lparr>w_rng := w_rng s\<rparr>)"
    using assms by (simp add: chooseCandidate_def monad_simps hd_conv_nth)
  then show ?thesis using that assms by (metis hd_in_set)
next
  case False
  then obtain sd where "w_seed s = Some sd" by blast
  let ?x = "xorshift32 (if w_rng s = 0 then 0x9e3779b9 else w_rng s)"
  have "chooseCandidate cs s = (Inr (cs ! (unat ?x mod length cs)), s\<lparr>w_rng := ?x\<rparr>)"
    using assms \<open>w_seed s = Some sd\<close> by (simp add: chooseCandidate_def nextRandom_def monad_simps Let_def)
  then show ?thesis using that assms False by (metis length_greater_0_conv mod_less_divisor nth_mem)
qed

text \<open>
  Under the invariant no assertion of a delivery fires: polling gives the event \<open>NONE\<close> when
  no member has an event, and otherwise it runs the thunk of a member that has one, which
  is consumed. Under the default policy that member is the first in join order.
\<close>

lemma poll_delivers:
  assumes "winv s ws" "k < length (w_sets s)" "wset_hasPendingEvent k s"
  obtains w p r where "w \<in> set (ws_elems (w_sets s ! k))" "wt_pending (w_waitables s ! w) = Some p"
    "wset_getPendingEvent run k s = run p (consumed w r s)"
    "w_seed s = None \<longrightarrow> r = w_rng s \<and> w = hd (filter (\<lambda>w. hasPendingEvent w s) (ws_elems (w_sets s ! k)))"
proof -
  let ?ready = "filter (\<lambda>w. hasPendingEvent w s) (ws_elems (w_sets s ! k))"
  have ne: "?ready \<noteq> []" using assms(3) by (auto simp: wset_hasPendingEvent_def list_ex_iff filter_empty_conv)
  obtain r w where c: "chooseCandidate ?ready s = (Inr w, s\<lparr>w_rng := r\<rparr>)" and w: "w \<in> set ?ready"
    and first: "w_seed s = None \<longrightarrow> w = hd ?ready \<and> r = w_rng s"
    using chooseCandidate_run [OF ne, of s] by metis
  obtain p where p: "wt_pending (w_waitables s ! w) = Some p" using w by (auto simp: hasPendingEvent_def)
  have b: "wt_wset (w_waitables s ! w) = Some k" using w winvD(4) [OF assms(1,2)] by simp
  have "wset_getPendingEvent run k s = run p (consumed w r s)"
    using ne by (simp add: wset_getPendingEvent_def getPendingEvent_def monad_simps waitable_runs c b p consumed_def)
  with that w p first show ?thesis by auto
qed

lemma poll_none: "\<not> wset_hasPendingEvent k s \<Longrightarrow> wset_poll run k s = (Inr (NONE, 0, 0), s)"
  by (simp add: wset_poll_def)

lemma poll_some: "wset_hasPendingEvent k s \<Longrightarrow> wset_poll run k s = wset_getPendingEvent run k s"
  by (simp add: wset_poll_def)

section \<open>Interleavings\<close>

text \<open>
  The steps that waitables and sets take. \<open>ws\<close> lists the sets of the waits that are
  blocked. A step keeps what it leaves behind also when it throws. The step \<open>other\<close>
  stands for everything else the program does.
\<close>

inductive wait_step ::
    "('p \<Rightarrow> ('p, 'x, event_tuple) wm) \<Rightarrow> ('p, 'x) wst_scheme \<times> nat list \<Rightarrow> ('p, 'x) wst_scheme \<times> nat list \<Rightarrow> bool"
  for run where
    created: "wait_step run (s, ws) (snd (new_waitable s), ws)"
  | set_created: "wait_step run (s, ws) (snd (new_wset s), ws)"
  | armed: "wait_step run (s, ws) (snd (setPendingEvent w p s), ws)"
  | taken: "w < length (w_waitables s) \<Longrightarrow> wait_step run (s, ws) (snd (getPendingEvent run w s), ws)"
  | joined: "w < length (w_waitables s) \<Longrightarrow> (case q of None \<Rightarrow> True | Some k \<Rightarrow> k < length (w_sets s)) \<Longrightarrow>
      wait_step run (s, ws) (snd (waitable_join w q s), ws)"
  | dropped: "w < length (w_waitables s) \<Longrightarrow> wait_step run (s, ws) (snd (waitable_drop w s), ws)"
  | claimed: "wait_step run (s, ws) (snd (waitForPendingEvent w s), ws)"
  | released: "wait_step run (s, ws) (snd (waitForPendingEvent_resume w s), ws)"
  | polled: "k < length (w_sets s) \<Longrightarrow> wait_step run (s, ws) (snd (wset_poll run k s), ws)"
  | entered: "k < length (w_sets s) \<Longrightarrow> wait_step run (s, ws) (snd (wait_enter k s), k # ws)"
  | resumed: "k \<in> set ws \<Longrightarrow> waitForEvent_ready k s \<Longrightarrow>
      wait_step run (s, ws) (snd (waitForEventAnd_resume run k s), remove1 k ws)"
  | abandoned: "k \<in> set ws \<Longrightarrow> wait_step run (s, ws) (wait_leave k s, remove1 k ws)"
  | other: "w_waitables t = w_waitables s \<Longrightarrow> w_sets t = w_sets s \<Longrightarrow> wait_step run (s, ws) (t, ws)"

inductive_cases wait_stepE: "wait_step run (s, ws) c"

lemma winv_init: "w_waitables s = [] \<Longrightarrow> w_sets s = [] \<Longrightarrow> winv s []"
  by (simp add: winv_def)

lemma winv_new_waitable: "winv s ws \<Longrightarrow> winv (snd (new_waitable s)) ws"
  by (rule winvI)
    (auto simp: waitable_runs init_waitable_def nth_append dest: winvD split: if_splits)

lemma winv_new_wset:
  assumes "winv s ws" shows "winv (snd (new_wset s)) ws"
proof (rule winvI)
  let ?t = "snd (new_wset s)"
  have L: "length (w_sets ?t) = Suc (length (w_sets s))" "w_waitables ?t = w_waitables s"
    by (simp_all add: waitable_runs)
  have S: "w_sets ?t ! k = (if k < length (w_sets s) then w_sets s ! k else init_wset)" if "k < length (w_sets ?t)" for k
    using that by (auto simp: waitable_runs nth_append less_Suc_eq)
  have "length (w_sets s) \<notin> set ws" using winvD(8) [OF assms] by blast
  then have 0: "count_list ws (length (w_sets s)) = 0" by (simp add: count_list_0_iff)
  fix k
  show "distinct (ws_elems (w_sets ?t ! k))" if "k < length (w_sets ?t)"
    using winvD(1) [OF assms, of k] by (simp add: S [OF that] init_wset_def)
  show "ws_waiting (w_sets ?t ! k) = int (count_list ws k)" if "k < length (w_sets ?t)"
    using winvD(2) [OF assms, of k] 0 that unfolding L by (auto simp: S [OF that] init_wset_def less_Suc_eq)
  show "k < length (w_sets ?t)" if "k \<in> set ws" using winvD(8) [OF assms that] unfolding L by simp
  fix w
  show "w < length (w_waitables ?t) \<and> wt_wset (w_waitables ?t ! w) = Some k"
    if "k < length (w_sets ?t)" "w \<in> set (ws_elems (w_sets ?t ! k))"
    using winvD(3,4) [OF assms, of k w] that(2) unfolding L by (auto simp: S [OF that(1)] init_wset_def split: if_splits)
  show "k < length (w_sets ?t) \<and> w \<in> set (ws_elems (w_sets ?t ! k)) \<and> \<not> wt_sync (w_waitables ?t ! w)"
    if "w < length (w_waitables ?t)" "wt_wset (w_waitables ?t ! w) = Some k"
  proof -
    have k: "k < length (w_sets s)" using winvD(5) [OF assms] that unfolding L by blast
    then have "k < length (w_sets ?t)" unfolding L by simp
    from S [OF this] k show ?thesis using winvD(6,7) [OF assms, of w k] that unfolding L by simp
  qed
qed

lemma winv_claim:
  assumes "winv s ws" shows "winv (snd (waitForPendingEvent w s)) ws"
  using assms winv_upd_waitable [OF assms, of "(w_waitables s ! w)\<lparr>wt_sync := True\<rparr>" w]
  by (cases "wt_wset (w_waitables s ! w)")
    (simp_all add: waitForPendingEvent_def monad_simps waitable_runs inWaitableSet_def)

lemma winv_release: "winv s ws \<Longrightarrow> winv (snd (waitForPendingEvent_resume w s)) ws"
  using winv_upd_waitable [of s ws "(w_waitables s ! w)\<lparr>wt_sync := False\<rparr>" w]
  by (simp add: waitForPendingEvent_resume_def waitable_runs)

lemma winv_armed: "winv s ws \<Longrightarrow> winv (snd (setPendingEvent w p s)) ws"
  using winv_upd_waitable [of s ws "(w_waitables s ! w)\<lparr>wt_pending := Some p\<rparr>" w]
  by (simp add: waitable_runs)

text \<open>The interface to the owners of events: running a thunk keeps waitables and sets.\<close>

locale event_source =
  fixes run :: "'p \<Rightarrow> ('p, 'x, event_tuple) wm"
  assumes run_frame: "run p s = (r, t) \<Longrightarrow> w_waitables t = w_waitables s \<and> w_sets t = w_sets s"
begin

lemma winv_run: "winv s ws \<Longrightarrow> winv (snd (run p s)) ws"
  using run_frame [of p s "fst (run p s)" "snd (run p s)"] winv_same [of "snd (run p s)" s ws] by simp

lemma winv_get: "winv s ws \<Longrightarrow> winv (snd (getPendingEvent run w s)) ws"
  using winv_run winv_upd_waitable [of s ws "(w_waitables s ! w)\<lparr>wt_pending := None\<rparr>" w]
  by (simp add: getPendingEvent_def monad_simps waitable_runs split: option.split)

lemma winv_wset_get:
  assumes "winv s ws" "k < length (w_sets s)" "wset_hasPendingEvent k s"
  shows "winv (snd (wset_getPendingEvent run k s)) ws"
proof -
  obtain w p r where "wset_getPendingEvent run k s = run p (consumed w r s)"
    using poll_delivers [OF assms] by metis
  then show ?thesis using winv_run winv_consumed [OF assms(1)] by simp
qed

lemma winv_poll: "winv s ws \<Longrightarrow> k < length (w_sets s) \<Longrightarrow> winv (snd (wset_poll run k s)) ws"
  using winv_wset_get by (cases "wset_hasPendingEvent k s") (simp_all add: poll_none poll_some)

lemma winv_resume:
  assumes "winv s ws" "k \<in> set ws" "waitForEvent_ready k s"
  shows "winv (snd (waitForEventAnd_resume run k s)) (remove1 k ws)"
proof -
  have "winv (snd (wset_getPendingEvent run k s)) ws"
    using assms winvD(8) [OF assms(1,2)] by (intro winv_wset_get) (simp_all add: waitForEvent_ready_def waitForEventAnd_ready_def)
  then have "winv (wait_leave k (snd (wset_getPendingEvent run k s))) (remove1 k ws)"
    using assms(2) by (rule winv_leave)
  then show ?thesis by (cases "wset_getPendingEvent run k s") (simp add: waitForEventAnd_resume_def finallym_def)
qed

lemma winv_step: "wait_step run (s, ws) (t, vs) \<Longrightarrow> winv s ws \<Longrightarrow> winv t vs"
proof (erule wait_stepE, goal_cases)
  case 1 then show ?case using winv_new_waitable by blast
next
  case 2 then show ?case using winv_new_wset by blast
next
  case 3 then show ?case by (simp add: winv_armed)
next
  case 4 then show ?case using winv_get by blast
next
  case 5 then show ?case using winv_waitable_join by blast
next
  case 6 then show ?case using winv_waitable_drop by blast
next
  case 7 then show ?case using winv_claim by blast
next
  case 8 then show ?case using winv_release by blast
next
  case 9 then show ?case using winv_poll by blast
next
  case 10 then show ?case using winv_enter by blast
next
  case 11 then show ?case using winv_resume by blast
next
  case 12 then show ?case using winv_leave by blast
next
  case 13 then show ?case using winv_same by blast
qed

lemma winv_reachable:
  assumes "(wait_step run)\<^sup>*\<^sup>* (s, ws) (t, vs)" "winv s ws"
  shows "winv t vs"
  using assms
proof (induction "(t, vs)" arbitrary: t vs rule: rtranclp_induct)
  case (step c)
  then show ?case using winv_step by (cases c) blast
qed simp

end

end
