(* ===== verification/Stream_Buffers.thy ===== *)
theory Stream_Buffers
  imports Waitables Cabi_Load_Store
begin

text \<open>
  The heap of streams and futures, and the buffers that a copy moves elements between:
  \<open>GuestBuffer\<close> and \<open>rendezvousCopy\<close> (\<open>runtime/src/task/streams.ts\<close>), \<open>HostBuffer\<close>,
  \<open>DirectScope\<close> and \<open>DirectSession\<close> (\<open>runtime/src/exec/host_streams.ts\<close>).

  An object is named by its place in its list of the heap. A world is the heap with the
  component instances; each instance is the state of \<open>Cabi_Memory\<close>. The canonical ABI
  runs on one instance together with the heap, the record \<open>acst\<close>. Closures are data:
  \<open>copy_cb\<close> names the callbacks of a copy, \<open>pending_event\<close> the thunks of a waitable,
  \<open>reclaim\<close> the closure \<open>() => this.resetPending()\<close>.
\<close>

section \<open>State\<close>

datatype copy_result = COMPLETED | DROPPED | CANCELLED

fun result_number :: "copy_result \<Rightarrow> nat" where
  "result_number COMPLETED = 0"
| "result_number DROPPED = 1"
| "result_number CANCELLED = 2"

datatype copy_state = IDLE | COPYING | CANCELLING_COPY | DONE

datatype end_kind = StreamKind | FutureKind

datatype end_side = Readable | Writable

text \<open>The \<open>inst\<close> of a copy: a component instance, or the sentinel of a host end.\<close>

datatype holder = InGuest nat | InHost nat

datatype reclaim = NoReclaim | ResetPending nat

datatype pending_event =
    SubtaskEvent nat nat nat
  | StreamEvent nat nat copy_result reclaim event_code
  | FutureEvent nat nat copy_result event_code
  | AbandonEvent string
  | IdleDrop nat "string option"

text \<open>
  \<open>StreamCb e b code\<close> and \<open>FutureCb e b code reading\<close> are the closures that \<open>streamCopy\<close>
  and \<open>futureCopy\<close> make for an end \<open>e\<close> and a buffer \<open>b\<close>; \<open>HostCb h\<close> those of a host end.
\<close>

datatype copy_cb = StreamCb nat nat event_code | FutureCb nat nat event_code bool | HostCb nat

record shared =
  sh_kind :: end_kind
  sh_t :: "valtype option"
  sh_readable :: "nat option"
  sh_writable :: "nat option"
  sh_store :: "nat option"
  sh_dropped :: bool
  sh_abandon :: "string option"
  sh_inst :: "holder option"
  sh_buffer :: "nat option"
  sh_onCopy :: "copy_cb option"
  sh_onDone :: "copy_cb option"
  sh_observers :: "nat list option"

record copy_end =
  ce_wait :: nat
  ce_kind :: end_kind
  ce_side :: end_side
  ce_shared :: nat
  ce_elem :: "valtype option"
  ce_state :: copy_state
  ce_index :: "nat option"

record guest_buffer =
  gb_t :: "valtype option"
  gb_opts :: nat
  gb_inst :: nat
  gb_ptr :: nat
  gb_length :: nat
  gb_progress :: nat

record host_buffer =
  hb_t :: "valtype option"
  hb_values :: "cval option"
  hb_length :: nat
  hb_progress :: nat
  hb_chunks :: "cval list"
  hb_scratch :: "8 word list option"

datatype settlement = Settled | Reissued | Rejected err

text \<open>\<open>ds_armed\<close>: the settle hooks are installed; \<open>ds_settled\<close>: what they were called with.\<close>

record direct_session =
  ds_t :: "valtype option"
  ds_total :: nat
  ds_ended :: bool
  ds_by_verdict :: bool
  ds_pending :: bool
  ds_cancelled :: bool
  ds_armed :: bool
  ds_settled :: "settlement list"

datatype rbuffer = GuestBuf guest_buffer | HostBuf host_buffer | DirectBuf direct_session

record heap = "pending_event wst" +
  h_ends :: "copy_end list"
  h_shared :: "shared list"
  h_bufs :: "rbuffer list"
  h_messages :: "16 word list list"
  h_poisoned :: "nat list"
  h_retired :: "nat list"
  h_failures :: "nat \<rightharpoonup> string"

record world = heap +
  w_insts :: "cst list"

type_synonym ('z, 'a) hm = "('z heap_scheme, 'a) m"

type_synonym ('y, 'a) sm = "('y world_scheme, 'a) m"

record acst = cst +
  a_heap :: heap

section \<open>One instance of the world\<close>

definition inst_view :: "nat \<Rightarrow> 'y world_scheme \<Rightarrow> acst" where
  "inst_view k w = cst.extend (w_insts w ! k) (acst.fields (heap.truncate w))"

definition inst_put :: "nat \<Rightarrow> acst \<Rightarrow> 'y world_scheme \<Rightarrow> 'y world_scheme" where
  "inst_put k c w = heap.extend (a_heap c) (heap.more w)\<lparr>w_insts := (w_insts w)[k := cst.truncate c]\<rparr>"

definition at_inst :: "nat \<Rightarrow> (acst, 'a) m \<Rightarrow> ('y, 'a) sm" where
  "at_inst k a = zoom (inst_view k) (inst_put k) a"

definition at_cst :: "nat \<Rightarrow> (cst, 'a) m \<Rightarrow> ('y, 'a) sm" where
  "at_cst k a = zoom (\<lambda>w. w_insts w ! k) (\<lambda>c w. w\<lparr>w_insts := (w_insts w)[k := c]\<rparr>) a"

text \<open>
  What the streams rely on: the canonical options and contexts of the instances, and the
  code of the host (\<open>env_direct\<close> runs the callback of a direct session, which returns the
  marks it made and its verdict).
\<close>

datatype verdict = More | Finished | BadVerdict

record 'y env =
  env_cx :: "nat \<Rightarrow> nat \<Rightarrow> acst cx"
  env_async :: "nat \<Rightarrow> bool"
  env_host_copy :: "nat \<Rightarrow> reclaim \<Rightarrow> ('y, unit) sm"
  env_host_done :: "nat \<Rightarrow> copy_result \<Rightarrow> ('y, unit) sm"
  env_observe :: "nat \<Rightarrow> ('y, unit) sm"
  env_direct :: "nat \<Rightarrow> nat \<Rightarrow> nat \<Rightarrow> ('y, int list \<times> verdict) sm"

section \<open>Guest buffers\<close>

definition BUFFER_MAX_LENGTH :: nat where "BUFFER_MAX_LENGTH = 2 ^ 28 - 1"

definition mem_length :: "nat \<Rightarrow> ('y, nat) sm" where
  "mem_length k = gets (\<lambda>w. length (c_mem (w_insts w ! k)))"

definition newGuestBuffer ::
    "'y env \<Rightarrow> valtype option \<Rightarrow> nat \<Rightarrow> nat \<Rightarrow> nat \<Rightarrow> nat \<Rightarrow> ('y, guest_buffer) sm" where
  "newGuestBuffer env t opts inst ptr len =
     seqm (trapIf (len > BUFFER_MAX_LENGTH) ''stream read/write count too large'')
     (seqm (case t of
        None \<Rightarrow> ret ()
      | Some u \<Rightarrow>
          if len > 0 then
            (case cx_memory (env_cx env opts inst) of
               None \<Rightarrow> throw (AssertionError ''buffer requires a memory'')
             | Some pt \<Rightarrow>
                 bnd (of_res (alignment u pt)) (\<lambda>al.
                 seqm (trapIf (ptr \<noteq> alignTo ptr al) ''unaligned buffer pointer'')
                 (bnd (of_res (elemSize u pt)) (\<lambda>sz.
                  bnd (mem_length inst) (\<lambda>n.
                  trapIf (ptr + len * sz > n) ''buffer out of bounds'')))))
          else ret ())
     (ret \<lparr>gb_t = t, gb_opts = opts, gb_inst = inst, gb_ptr = ptr, gb_length = len, gb_progress = 0\<rparr>))"

definition gb_remain :: "guest_buffer \<Rightarrow> nat" where
  "gb_remain b = gb_length b - gb_progress b"

definition gb_isZeroLength :: "guest_buffer \<Rightarrow> bool" where
  "gb_isZeroLength b = (gb_length b = 0)"

definition upd_buf :: "nat \<Rightarrow> rbuffer \<Rightarrow> ('y, unit) sm" where
  "upd_buf k b = modify (\<lambda>w. w\<lparr>h_bufs := (h_bufs w)[k := b]\<rparr>)"

definition gb_ptrType :: "'y env \<Rightarrow> guest_buffer \<Rightarrow> ('y, ptr_type) sm" where
  "gb_ptrType env b =
     (case cx_memory (env_cx env (gb_opts b) (gb_inst b)) of
        None \<Rightarrow> throw (TypeError ''null memory'')
      | Some pt \<Rightarrow> ret pt)"

definition gb_read :: "'y env \<Rightarrow> nat \<Rightarrow> guest_buffer \<Rightarrow> nat \<Rightarrow> ('y, cval) sm" where
  "gb_read env k b n =
     seqm (assertm (n \<le> gb_remain b) ''buffer read beyond remaining'')
     (case gb_t b of
        Some u \<Rightarrow>
          (let cx = env_cx env (gb_opts b) (gb_inst b) in
           bnd (at_inst (gb_inst b) (loadListFromValidRange (load cx) cx (gb_ptr b) n u)) (\<lambda>vs.
           bnd (gb_ptrType env b) (\<lambda>pt.
           bnd (of_res (elemSize u pt)) (\<lambda>sz.
           seqm (upd_buf k (GuestBuf (b\<lparr>gb_ptr := gb_ptr b + n * sz, gb_progress := gb_progress b + n\<rparr>)))
           (ret vs)))))
      | None \<Rightarrow>
          seqm (upd_buf k (GuestBuf (b\<lparr>gb_progress := gb_progress b + n\<rparr>)))
          (ret (VArr (replicate n VNull))))"

definition gb_advanceZeroWidth :: "nat \<Rightarrow> guest_buffer \<Rightarrow> nat \<Rightarrow> ('y, unit) sm" where
  "gb_advanceZeroWidth k b n =
     seqm (assertm (gb_t b = None) ''count advance on a payload-bearing buffer'')
     (seqm (assertm (n \<le> gb_remain b) ''count advance beyond remaining'')
     (upd_buf k (GuestBuf (b\<lparr>gb_progress := gb_progress b + n\<rparr>))))"

definition gb_write :: "'y env \<Rightarrow> nat \<Rightarrow> guest_buffer \<Rightarrow> cval \<Rightarrow> ('y, unit) sm" where
  "gb_write env k b vs =
     bnd (of_res (elements vs)) (\<lambda>xs.
     seqm (assertm (length xs \<le> gb_remain b) ''buffer write beyond remaining'')
     (case gb_t b of
        Some u \<Rightarrow>
          (let cx = env_cx env (gb_opts b) (gb_inst b) in
           seqm (at_inst (gb_inst b) (storeListIntoValidRange (store cx) cx vs (gb_ptr b) u))
           (bnd (gb_ptrType env b) (\<lambda>pt.
            bnd (of_res (elemSize u pt)) (\<lambda>sz.
            upd_buf k (GuestBuf (b\<lparr>gb_ptr := gb_ptr b + length xs * sz,
                                    gb_progress := gb_progress b + length xs\<rparr>))))))
      | None \<Rightarrow>
          seqm (assertm ((case vs of VBytes _ \<Rightarrow> False | _ \<Rightarrow> True) \<and> list_all (\<lambda>v. v = VNull) xs)
                  ''zero-width buffer written with a non-empty element'')
          (upd_buf k (GuestBuf (b\<lparr>gb_progress := gb_progress b + length xs\<rparr>)))))"

definition gb_byteView :: "'y env \<Rightarrow> guest_buffer \<Rightarrow> nat \<Rightarrow> ('y, 8 word list) sm" where
  "gb_byteView env b n =
     seqm (assertm (case gb_t b of None \<Rightarrow> False | Some u \<Rightarrow> despecialize u = Prim PU8)
             ''direct byte window on a non-u8 buffer'')
     (seqm (assertm (n \<le> gb_remain b) ''direct byte window beyond remaining'')
     (seqm (assertm (cx_memory (env_cx env (gb_opts b) (gb_inst b)) \<noteq> None) ''direct byte window requires a memory'')
     (at_cst (gb_inst b) (bytesOf (gb_ptr b) n))))"

definition gb_advanceBytes :: "nat \<Rightarrow> guest_buffer \<Rightarrow> nat \<Rightarrow> ('y, unit) sm" where
  "gb_advanceBytes i b k =
     seqm (assertm (k \<le> gb_remain b) ''direct advance beyond remaining'')
     (upd_buf i (GuestBuf (b\<lparr>gb_ptr := gb_ptr b + k, gb_progress := gb_progress b + k\<rparr>)))"

section \<open>Host buffers\<close>

text \<open>\<open>values.slice(i, i + n)\<close> of a payload chunk: a byte array or a plain array.\<close>

definition chunk_slice :: "cval \<Rightarrow> nat \<Rightarrow> nat \<Rightarrow> cval res" where
  "chunk_slice c i n =
     (case c of
        VBytes bs \<Rightarrow> Inr (VBytes (take n (drop i bs)))
      | VArr xs \<Rightarrow> Inr (VArr (take n (drop i xs)))
      | _ \<Rightarrow> Inl (TypeError ''not a payload chunk''))"

text \<open>\<open>elements\<close> reads a byte array element by element, so its length is the chunk's.\<close>

definition newHostBuffer :: "valtype option \<Rightarrow> cval option \<Rightarrow> nat \<Rightarrow> host_buffer res" where
  "newHostBuffer t vs len =
     (if len > BUFFER_MAX_LENGTH then Inl (GenericError ''host buffer length exceeds Buffer.MAX_LENGTH'')
      else Inr \<lparr>hb_t = t, hb_values = vs, hb_length = len, hb_progress = 0, hb_chunks = [], hb_scratch = None\<rparr>)"

definition hb_remain :: "host_buffer \<Rightarrow> nat" where
  "hb_remain b = hb_length b - hb_progress b"

definition hb_read :: "nat \<Rightarrow> host_buffer \<Rightarrow> nat \<Rightarrow> ('y, cval) sm" where
  "hb_read k b n =
     seqm (assertm (n \<le> hb_remain b) ''host buffer read beyond remaining'')
     (bnd (of_res (case hb_values b of
             None \<Rightarrow> Inr (VArr (replicate n VNull))
           | Some c \<Rightarrow> chunk_slice c (hb_progress b) n)) (\<lambda>out.
      seqm (upd_buf k (HostBuf (b\<lparr>hb_progress := hb_progress b + n\<rparr>)))
      (ret out)))"

definition hb_write :: "nat \<Rightarrow> host_buffer \<Rightarrow> cval \<Rightarrow> ('y, unit) sm" where
  "hb_write k b vs =
     bnd (of_res (elements vs)) (\<lambda>xs.
     seqm (assertm (length xs \<le> hb_remain b) ''host buffer write beyond remaining'')
     (upd_buf k (HostBuf (b\<lparr>hb_chunks := hb_chunks b @ [vs], hb_progress := hb_progress b + length xs\<rparr>))))"

text \<open>
  What a reader receives. A plain array offered for a \<open>u8\<close> element holds integers, which
  wrap as a \<open>Uint8Array\<close> stores them.
\<close>

fun u8_of :: "cval \<Rightarrow> 8 word res" where
  "u8_of v = (case num_int v of Some i \<Rightarrow> Inr (of_int i) | None \<Rightarrow> Inl (TypeError ''not an integer''))"

fun chunk_bytes :: "cval \<Rightarrow> 8 word list res" where
  "chunk_bytes (VBytes bs) = Inr bs"
| "chunk_bytes c = rbind (elements c) (rmap u8_of)"

definition hb_taken :: "host_buffer \<Rightarrow> cval res" where
  "hb_taken b =
     (if (case hb_t b of None \<Rightarrow> False | Some u \<Rightarrow> despecialize u = Prim PU8) then
        (case hb_chunks b of
           [VBytes bs] \<Rightarrow> Inr (VBytes bs)
         | cs \<Rightarrow> rbind (rmap chunk_bytes cs) (\<lambda>bss. Inr (VBytes (concat bss))))
      else
        (case hb_chunks b of
           [VArr xs] \<Rightarrow> Inr (VArr xs)
         | cs \<Rightarrow> rbind (rmap elements cs) (\<lambda>xss. Inr (VArr (concat xss)))))"

text \<open>
  The byte window of a host buffer: a source shows its chunk; a destination makes a
  scratch array, the same one until \<open>endWindow\<close>, whose marked prefix is delivered.
\<close>

definition hb_byteView :: "nat \<Rightarrow> host_buffer \<Rightarrow> nat \<Rightarrow> ('y, 8 word list) sm" where
  "hb_byteView k b n =
     seqm (assertm (n \<le> hb_remain b) ''host direct window beyond remaining'')
     (case hb_values b of
        None \<Rightarrow>
          (case hb_scratch b of
             Some bs \<Rightarrow>
               if length bs = n then ret bs
               else seqm (upd_buf k (HostBuf (b\<lparr>hb_scratch := Some (replicate n 0)\<rparr>))) (ret (replicate n 0))
           | None \<Rightarrow> seqm (upd_buf k (HostBuf (b\<lparr>hb_scratch := Some (replicate n 0)\<rparr>))) (ret (replicate n 0)))
      | Some (VBytes bs) \<Rightarrow> ret (subarray bs (hb_progress b) n)
      | Some _ \<Rightarrow> throw (AssertionError ''host direct window on a non-u8 chunk''))"

definition hb_advanceBytes :: "nat \<Rightarrow> host_buffer \<Rightarrow> nat \<Rightarrow> ('y, unit) sm" where
  "hb_advanceBytes i b k =
     seqm (assertm (k \<le> hb_remain b) ''host direct advance beyond remaining'')
     (if hb_values b = None then
        hb_write i b (VBytes (take k (case hb_scratch b of None \<Rightarrow> replicate k 0 | Some bs \<Rightarrow> bs)))
      else upd_buf i (HostBuf (b\<lparr>hb_progress := hb_progress b + k\<rparr>)))"

section \<open>The buffers of a copy\<close>

definition buf_t :: "rbuffer \<Rightarrow> valtype option" where
  "buf_t b = (case b of GuestBuf g \<Rightarrow> gb_t g | HostBuf h \<Rightarrow> hb_t h | DirectBuf d \<Rightarrow> ds_t d)"

definition buf_remain :: "rbuffer \<Rightarrow> nat" where
  "buf_remain b = (case b of GuestBuf g \<Rightarrow> gb_remain g | HostBuf h \<Rightarrow> hb_remain h
     | DirectBuf d \<Rightarrow> if ds_ended d then 0 else BUFFER_MAX_LENGTH)"

definition buf_isZeroLength :: "rbuffer \<Rightarrow> bool" where
  "buf_isZeroLength b = (case b of GuestBuf g \<Rightarrow> gb_isZeroLength g | HostBuf h \<Rightarrow> hb_length h = 0 | DirectBuf d \<Rightarrow> False)"

definition isDirectBuffer :: "rbuffer \<Rightarrow> bool" where
  "isDirectBuffer b = (case b of DirectBuf _ \<Rightarrow> True | _ \<Rightarrow> False)"

definition buf_at :: "nat \<Rightarrow> ('y, rbuffer) sm" where
  "buf_at k = gets (\<lambda>w. h_bufs w ! k)"

definition buf_read :: "'y env \<Rightarrow> nat \<Rightarrow> nat \<Rightarrow> ('y, cval) sm" where
  "buf_read env k n =
     bnd (buf_at k) (\<lambda>b. case b of
        GuestBuf g \<Rightarrow> gb_read env k g n
      | HostBuf h \<Rightarrow> hb_read k h n
      | DirectBuf d \<Rightarrow> throw (GenericError ''internal: a direct session must go through the direct-access byte edge seam''))"

definition buf_write :: "'y env \<Rightarrow> nat \<Rightarrow> cval \<Rightarrow> ('y, unit) sm" where
  "buf_write env k vs =
     bnd (buf_at k) (\<lambda>b. case b of
        GuestBuf g \<Rightarrow> gb_write env k g vs
      | HostBuf h \<Rightarrow> hb_write k h vs
      | DirectBuf d \<Rightarrow> throw (GenericError ''internal: a direct session must go through the direct-access byte edge seam''))"

definition buf_byteView :: "'y env \<Rightarrow> nat \<Rightarrow> nat \<Rightarrow> ('y, 8 word list) sm" where
  "buf_byteView env k n =
     bnd (buf_at k) (\<lambda>b. case b of
        GuestBuf g \<Rightarrow> gb_byteView env g n
      | HostBuf h \<Rightarrow> hb_byteView k h n
      | DirectBuf d \<Rightarrow> throw (TypeError ''byteView is not a function''))"

definition buf_advanceBytes :: "nat \<Rightarrow> nat \<Rightarrow> ('y, unit) sm" where
  "buf_advanceBytes i k =
     bnd (buf_at i) (\<lambda>b. case b of
        GuestBuf g \<Rightarrow> gb_advanceBytes i g k
      | HostBuf h \<Rightarrow> hb_advanceBytes i h k
      | DirectBuf d \<Rightarrow> throw (TypeError ''advanceBytes is not a function''))"

definition buf_endWindow :: "nat \<Rightarrow> ('y, unit) sm" where
  "buf_endWindow i =
     bnd (buf_at i) (\<lambda>b. case b of
        HostBuf h \<Rightarrow> upd_buf i (HostBuf (h\<lparr>hb_scratch := None\<rparr>))
      | _ \<Rightarrow> ret ())"

section \<open>Direct sessions\<close>

text \<open>
  The marks of one invocation (\<open>DirectScope.#mark\<close>): each a non-negative integer, their sum
  within the capacity; otherwise the mark throws and the callback with it.
\<close>

fun scope_marks :: "nat \<Rightarrow> nat \<Rightarrow> int list \<Rightarrow> nat res" where
  "scope_marks capacity marked [] = Inr marked"
| "scope_marks capacity marked (n # ns) =
     (if n < 0 then Inl (TypeError ''a direct-access mark must be a non-negative integer'')
      else if marked + nat n > capacity then Inl (TypeError ''a direct-access mark past the view'')
      else scope_marks capacity (marked + nat n) ns)"

datatype outcome = Chunk | Copied | Retracted | Failed | BothDirect

definition session_at :: "nat \<Rightarrow> ('y, direct_session) sm" where
  "session_at d = bnd (buf_at d) (\<lambda>b. case b of DirectBuf x \<Rightarrow> ret x | _ \<Rightarrow> throw (TypeError ''not a direct session''))"

text \<open>\<open>#take\<close> hands the settle hooks out once; \<open>arm\<close> installs them.\<close>

definition session_settle :: "settlement \<Rightarrow> direct_session \<Rightarrow> direct_session" where
  "session_settle v d = (if ds_armed d then d\<lparr>ds_armed := False, ds_settled := ds_settled d @ [v]\<rparr> else d)"

definition session_arm :: "nat \<Rightarrow> ('y, unit) sm" where
  "session_arm i = bnd (session_at i) (\<lambda>d. upd_buf i (DirectBuf (d\<lparr>ds_armed := True\<rparr>)))"

definition session_fail :: "nat \<Rightarrow> err \<Rightarrow> ('y, unit) sm" where
  "session_fail i e =
     bnd (session_at i) (\<lambda>d.
     upd_buf i (DirectBuf (session_settle (Rejected e) (d\<lparr>ds_ended := True, ds_pending := False\<rparr>))))"

definition session_finish :: "nat \<Rightarrow> ('y, unit) sm" where
  "session_finish i =
     bnd (session_at i) (\<lambda>d.
     upd_buf i (DirectBuf (session_settle Settled (d\<lparr>ds_ended := True, ds_pending := False\<rparr>))))"

definition session_reissue :: "nat \<Rightarrow> ('y, unit) sm" where
  "session_reissue i =
     bnd (session_at i) (\<lambda>d. upd_buf i (DirectBuf (session_settle Reissued (d\<lparr>ds_pending := False\<rparr>))))"

definition session_end :: "nat \<Rightarrow> ('y, unit) sm" where
  "session_end i =
     bnd (session_at i) (\<lambda>d. upd_buf i (DirectBuf (d\<lparr>ds_ended := True, ds_by_verdict := True\<rparr>)))"

definition runDirect_body :: "'y env \<Rightarrow> nat \<Rightarrow> nat \<Rightarrow> nat \<Rightarrow> ('y, outcome) sm" where
  "runDirect_body env i peer n =
     bnd (catching
            (bnd (env_direct env i peer n) (\<lambda>(marks, verdict).
             bnd (of_res (scope_marks n 0 marks)) (\<lambda>k. ret (Some (k, verdict)))))
            (\<lambda>e. seqm (session_fail i e) (ret None))) (\<lambda>called.
     case called of
       None \<Rightarrow> ret Failed
     | Some (k, verdict) \<Rightarrow>
         if verdict = BadVerdict then
           seqm (session_fail i (TypeError ''a direct-access callback must return more or done'')) (ret Failed)
         else if k = 0 then
           (if verdict = Finished then seqm (session_end i) (ret Retracted)
            else seqm (session_fail i (TypeError ''a direct-access callback returned more without marking any bytes''))
                   (ret Failed))
         else
           seqm (buf_advanceBytes peer k)
           (bnd (session_at i) (\<lambda>d.
            seqm (upd_buf i (DirectBuf (d\<lparr>ds_total := ds_total d + k\<rparr>)))
            (seqm (if verdict = Finished then session_end i else ret ())
            (ret Copied)))))"

definition runDirect :: "'y env \<Rightarrow> nat \<Rightarrow> nat \<Rightarrow> nat \<Rightarrow> ('y, outcome) sm" where
  "runDirect env i peer n = ensuring (runDirect_body env i peer n) (buf_endWindow peer)"

text \<open>The one place where elements move.\<close>

definition rendezvousCopy :: "'y env \<Rightarrow> nat \<Rightarrow> nat \<Rightarrow> nat \<Rightarrow> ('y, outcome) sm" where
  "rendezvousCopy env src dst n =
     bnd (buf_at src) (\<lambda>s.
     bnd (buf_at dst) (\<lambda>d.
     if \<not> isDirectBuffer s \<and> \<not> isDirectBuffer d then
       (case (s, d) of
          (GuestBuf gs, GuestBuf gd) \<Rightarrow>
            if gb_t gs = None \<and> gb_t gd = None then
              seqm (gb_advanceZeroWidth src gs n)
              (seqm (gb_advanceZeroWidth dst gd n)
              (ret Chunk))
            else bnd (buf_read env src n) (\<lambda>vs. seqm (buf_write env dst vs) (ret Chunk))
        | _ \<Rightarrow> bnd (buf_read env src n) (\<lambda>vs. seqm (buf_write env dst vs) (ret Chunk)))
     else if isDirectBuffer s \<and> isDirectBuffer d then ret BothDirect
     else if isDirectBuffer s then runDirect env src dst n
     else runDirect env dst src n))"

text \<open>Number types, and no payload, may be copied within one instance.\<close>

definition noneOrNumberType :: "valtype option \<Rightarrow> bool" where
  "noneOrNumberType t =
     (case t of
        None \<Rightarrow> True
      | Some u \<Rightarrow> despecialize u \<in> set (map Prim [PU8, PU16, PU32, PU64, PS8, PS16, PS32, PS64, PF32, PF64]))"

end
