(* ===== verification/Streams.thy ===== *)
theory Streams
  imports Stream_Buffers Cabi_Handles
begin

text \<open>
  Streams, futures and their ends (\<open>runtime/src/task/streams.ts\<close>): the shared object with
  its one pending slot, the rendezvous of a reader and a writer, the ends that guests hold
  and their events, drops, and the retirement of the ends of a poisoned instance.
\<close>

section \<open>Access\<close>

definition shared_at :: "nat \<Rightarrow> ('z, shared) hm" where
  "shared_at s = gets (\<lambda>w. h_shared w ! s)"

definition upd_shared :: "nat \<Rightarrow> (shared \<Rightarrow> shared) \<Rightarrow> ('z, unit) hm" where
  "upd_shared s f = modify (\<lambda>w. w\<lparr>h_shared := (h_shared w)[s := f (h_shared w ! s)]\<rparr>)"

definition end_at :: "nat \<Rightarrow> ('z, copy_end) hm" where
  "end_at e = gets (\<lambda>w. h_ends w ! e)"

definition upd_end :: "nat \<Rightarrow> (copy_end \<Rightarrow> copy_end) \<Rightarrow> ('z, unit) hm" where
  "upd_end e f = modify (\<lambda>w. w\<lparr>h_ends := (h_ends w)[e := f (h_ends w ! e)]\<rparr>)"

definition new_buf :: "rbuffer \<Rightarrow> ('z, nat) hm" where
  "new_buf b =
     bnd (gets (\<lambda>w. length (h_bufs w))) (\<lambda>k.
     seqm (modify (\<lambda>w. w\<lparr>h_bufs := h_bufs w @ [b]\<rparr>)) (ret k))"

section \<open>Ends and their events\<close>

definition copying :: "copy_end \<Rightarrow> bool" where
  "copying e = (ce_state e = COPYING \<or> ce_state e = CANCELLING_COPY)"

fun eventCode :: "end_kind \<Rightarrow> end_side \<Rightarrow> event_code" where
  "eventCode StreamKind Readable = STREAM_READ"
| "eventCode StreamKind Writable = STREAM_WRITE"
| "eventCode FutureKind Readable = FUTURE_READ"
| "eventCode FutureKind Writable = FUTURE_WRITE"

definition ce_eventCode :: "copy_end \<Rightarrow> event_code" where
  "ce_eventCode e = eventCode (ce_kind e) (ce_side e)"

definition kind_name :: "end_kind \<Rightarrow> string" where
  "kind_name k = (case k of StreamKind \<Rightarrow> ''stream'' | FutureKind \<Rightarrow> ''future'')"

definition newShared :: "end_kind \<Rightarrow> valtype option \<Rightarrow> ('z, nat) hm" where
  "newShared k t =
     bnd (gets (\<lambda>w. length (h_shared w))) (\<lambda>s.
     seqm (modify (\<lambda>w. w\<lparr>h_shared := h_shared w @ [\<lparr>sh_kind = k, sh_t = t, sh_readable = None, sh_writable = None,
       sh_store = None, sh_dropped = False, sh_abandon = None, sh_inst = None, sh_buffer = None, sh_onCopy = None,
       sh_onDone = None, sh_observers = Some []\<rparr>]\<rparr>)) (ret s))"

text \<open>The constructors of the four ends; the shared object then knows its end of that side.\<close>

definition newEnd :: "end_side \<Rightarrow> nat \<Rightarrow> valtype option \<Rightarrow> ('z, nat) hm" where
  "newEnd side s elem =
     bnd (shared_at s) (\<lambda>sh.
     bnd new_waitable (\<lambda>w.
     bnd (gets (\<lambda>w. length (h_ends w))) (\<lambda>e.
     seqm (modify (\<lambda>w'. w'\<lparr>h_ends := h_ends w' @ [\<lparr>ce_wait = w, ce_kind = sh_kind sh, ce_side = side,
       ce_shared = s, ce_elem = elem, ce_state = IDLE, ce_index = None\<rparr>]\<rparr>))
     (seqm (upd_shared s (\<lambda>sh. case side of Readable \<Rightarrow> sh\<lparr>sh_readable := Some e\<rparr> | Writable \<Rightarrow> sh\<lparr>sh_writable := Some e\<rparr>))
     (ret e)))))"

definition armIdleDrop :: "nat \<Rightarrow> string option \<Rightarrow> ('z, unit) hm" where
  "armIdleDrop e abandonReason =
     bnd (end_at e) (\<lambda>x.
     bnd (gets (hasPendingEvent (ce_wait x))) (\<lambda>pending.
     if ce_state x = DONE \<or> pending then ret ()
     else setPendingEvent (ce_wait x) (IdleDrop e abandonReason)))"

definition notifyIdleDrop :: "nat \<Rightarrow> ('z, unit) hm" where
  "notifyIdleDrop e =
     bnd (end_at e) (\<lambda>x.
     bnd (shared_at (ce_shared x)) (\<lambda>sh.
     armIdleDrop e (if ce_kind x = FutureKind \<and> ce_side x = Readable then sh_abandon sh else None)))"

definition resetPending :: "nat \<Rightarrow> ('z, unit) hm" where
  "resetPending s = upd_shared s (\<lambda>sh. sh\<lparr>sh_inst := None, sh_buffer := None, sh_onCopy := None, sh_onDone := None\<rparr>)"

definition futureAbandonTrap :: "string \<Rightarrow> err" where
  "futureAbandonTrap reason = Trap (''future.read can never complete: '' @ reason)"

definition buf_progress :: "rbuffer \<Rightarrow> nat" where
  "buf_progress b = (case b of GuestBuf g \<Rightarrow> gb_progress g | HostBuf h \<Rightarrow> hb_progress h | DirectBuf d \<Rightarrow> 0)"

text \<open>Low four bits hold the result, the upper 28 the number of elements.\<close>

definition packCopy :: "copy_result \<Rightarrow> nat \<Rightarrow> 32 word" where
  "packCopy r progress = or (of_nat (result_number r)) (push_bit 4 (of_nat progress))"

definition idle_index :: "copy_end \<Rightarrow> string \<Rightarrow> ('z, nat) hm" where
  "idle_index e msg = (case ce_index e of None \<Rightarrow> throw (AssertionError msg) | Some i \<Rightarrow> ret i)"

text \<open>
  The thunk of a pending event, run when the event is delivered: the payload is computed
  then, so it counts every element copied by that time, and a drop of the peer is seen.
\<close>

definition subtask_event :: "nat \<Rightarrow> nat \<Rightarrow> nat \<Rightarrow> ('y, event_tuple) sm" where
  "subtask_event k j subtaski =
     bnd (at_cst k (subtask_at j)) (\<lambda>sb.
     seqm (if subtask_resolved (sb_state sb) then
             bnd (at_cst k (resolveDelivered j)) (\<lambda>d. if \<not> d then at_cst k (deliverResolve j) else ret ())
           else ret ())
     (bnd (at_cst k (subtask_at j)) (\<lambda>sb.
      ret (SUBTASK, subtaski, subtask_code (sb_state sb)))))"

definition stream_event :: "nat \<Rightarrow> nat \<Rightarrow> copy_result \<Rightarrow> reclaim \<Rightarrow> event_code \<Rightarrow> ('z, event_tuple) hm" where
  "stream_event e b result reclaim code =
     seqm (case reclaim of NoReclaim \<Rightarrow> ret () | ResetPending s \<Rightarrow> resetPending s)
     (bnd (end_at e) (\<lambda>x.
      seqm (assertm (copying x) ''stream event on a non-copying end'')
      (bnd (shared_at (ce_shared x)) (\<lambda>sh.
       let delivered = (if sh_dropped sh then DROPPED else result) in
       seqm (upd_end e (\<lambda>x. x\<lparr>ce_state := if delivered = DROPPED then DONE else IDLE\<rparr>))
       (bnd (gets (\<lambda>w. buf_progress (h_bufs w ! b))) (\<lambda>progress.
        seqm (assertm (progress \<le> BUFFER_MAX_LENGTH) ''stream progress out of packing range'')
        (bnd (idle_index x ''stream event without owner index'') (\<lambda>i.
         ret (code, i, unat (packCopy delivered progress))))))))))"

definition future_event :: "nat \<Rightarrow> nat \<Rightarrow> copy_result \<Rightarrow> event_code \<Rightarrow> ('z, event_tuple) hm" where
  "future_event e b result code =
     bnd (gets (\<lambda>w. buf_remain (h_bufs w ! b))) (\<lambda>remain.
     seqm (assertm ((remain = 0) = (result = COMPLETED)) ''future event/progress disagreement'')
     (bnd (end_at e) (\<lambda>x.
      seqm (assertm (copying x) ''future event on a non-copying end'')
      (bnd (shared_at (ce_shared x)) (\<lambda>sh.
       let delivered = (if result = CANCELLED \<and> sh_dropped sh then DROPPED else result) in
       seqm (upd_end e (\<lambda>x. x\<lparr>ce_state := if delivered = DROPPED \<or> delivered = COMPLETED then DONE else IDLE\<rparr>))
       (bnd (idle_index x ''future event without owner index'') (\<lambda>i.
        ret (code, i, result_number delivered))))))))"

definition idle_drop_event :: "nat \<Rightarrow> string option \<Rightarrow> ('z, event_tuple) hm" where
  "idle_drop_event e abandonReason =
     (case abandonReason of
        Some reason \<Rightarrow> throw (futureAbandonTrap reason)
      | None \<Rightarrow>
          seqm (upd_end e (\<lambda>x. x\<lparr>ce_state := DONE\<rparr>))
          (bnd (end_at e) (\<lambda>x.
           bnd (idle_index x ''idle async event without owner index'') (\<lambda>i.
           ret (ce_eventCode x, i, result_number DROPPED)))))"

fun run_event :: "pending_event \<Rightarrow> ('y, event_tuple) sm" where
  "run_event (SubtaskEvent k j subtaski) = subtask_event k j subtaski"
| "run_event (StreamEvent e b result reclaim code) = stream_event e b result reclaim code"
| "run_event (FutureEvent e b result code) = future_event e b result code"
| "run_event (AbandonEvent reason) = throw (futureAbandonTrap reason)"
| "run_event (IdleDrop e abandonReason) = idle_drop_event e abandonReason"

section \<open>The pending slot\<close>

text \<open>\<open>onCopy(reclaim)\<close> and \<open>onCopyDone(result)\<close> of the closures that a copy parks.\<close>

definition stream_onCopy :: "nat \<Rightarrow> nat \<Rightarrow> event_code \<Rightarrow> reclaim \<Rightarrow> ('z, unit) hm" where
  "stream_onCopy e b code reclaim =
     bnd (end_at e) (\<lambda>x. setPendingEvent (ce_wait x) (StreamEvent e b COMPLETED reclaim code))"

definition run_onCopy :: "'y env \<Rightarrow> copy_cb \<Rightarrow> reclaim \<Rightarrow> ('y, unit) sm" where
  "run_onCopy env cb reclaim =
     (case cb of
        StreamCb e b code \<Rightarrow> stream_onCopy e b code reclaim
      | FutureCb e b code reading \<Rightarrow> throw (TypeError ''a future copy has no onCopy'')
      | HostCb h \<Rightarrow> env_host_copy env h reclaim)"

definition abandonReasonOf :: "shared \<Rightarrow> string option" where
  "abandonReasonOf sh = (if sh_kind sh = FutureKind then sh_abandon sh else None)"

definition stream_onCopyDone :: "nat \<Rightarrow> nat \<Rightarrow> event_code \<Rightarrow> copy_result \<Rightarrow> ('z, unit) hm" where
  "stream_onCopyDone e b code result =
     bnd (end_at e) (\<lambda>x. setPendingEvent (ce_wait x) (StreamEvent e b result NoReclaim code))"

definition future_onCopyDone :: "nat \<Rightarrow> nat \<Rightarrow> event_code \<Rightarrow> bool \<Rightarrow> copy_result \<Rightarrow> ('z, unit) hm" where
  "future_onCopyDone e b code reading result =
     bnd (end_at e) (\<lambda>x.
     bnd (shared_at (ce_shared x)) (\<lambda>sh.
     case (if reading \<and> result = DROPPED then abandonReasonOf sh else None) of
       Some reason \<Rightarrow> setPendingEvent (ce_wait x) (AbandonEvent reason)
     | None \<Rightarrow>
         seqm (assertm (result \<noteq> DROPPED \<or> code = FUTURE_WRITE) ''a readable future end cannot observe DROPPED'')
         (setPendingEvent (ce_wait x) (FutureEvent e b result code))))"

definition run_onCopyDone :: "'y env \<Rightarrow> copy_cb \<Rightarrow> copy_result \<Rightarrow> ('y, unit) sm" where
  "run_onCopyDone env cb result =
     (case cb of
        StreamCb e b code \<Rightarrow> stream_onCopyDone e b code result
      | FutureCb e b code reading \<Rightarrow> future_onCopyDone e b code reading result
      | HostCb h \<Rightarrow> env_host_done env h result)"

definition setPending :: "nat \<Rightarrow> holder \<Rightarrow> nat \<Rightarrow> copy_cb \<Rightarrow> ('y, unit) sm" where
  "setPending s inst buffer cb =
     upd_shared s (\<lambda>sh. sh\<lparr>sh_inst := Some inst, sh_buffer := Some buffer, sh_onCopy := Some cb, sh_onDone := Some cb\<rparr>)"

definition resetAndNotifyPending :: "'y env \<Rightarrow> nat \<Rightarrow> copy_result \<Rightarrow> ('y, unit) sm" where
  "resetAndNotifyPending env s result =
     bnd (shared_at s) (\<lambda>sh.
     case sh_onDone sh of
       None \<Rightarrow> throw (AssertionError ''reset_and_notify_pending with nothing pending'')
     | Some done \<Rightarrow> seqm (resetPending s) (run_onCopyDone env done result))"

definition shared_cancel :: "'y env \<Rightarrow> nat \<Rightarrow> ('y, unit) sm" where
  "shared_cancel env s = resetAndNotifyPending env s CANCELLED"

section \<open>Drop\<close>

definition whenDropped :: "'y env \<Rightarrow> nat \<Rightarrow> nat \<Rightarrow> ('y, unit) sm" where
  "whenDropped env s fn =
     bnd (shared_at s) (\<lambda>sh.
     case sh_observers sh of
       None \<Rightarrow> env_observe env fn
     | Some fns \<Rightarrow> upd_shared s (\<lambda>sh. sh\<lparr>sh_observers := Some (fns @ [fn])\<rparr>))"

definition notifyDropped :: "'y env \<Rightarrow> nat \<Rightarrow> ('y, unit) sm" where
  "notifyDropped env s =
     bnd (shared_at s) (\<lambda>sh.
     case sh_observers sh of
       None \<Rightarrow> ret ()
     | Some fns \<Rightarrow>
         seqm (upd_shared s (\<lambda>sh. sh\<lparr>sh_observers := None\<rparr>))
         (iterm (\<lambda>fn. catching (env_observe env fn) (\<lambda>_. ret ())) fns))"

definition notify_opt :: "nat option \<Rightarrow> ('z, unit) hm" where
  "notify_opt e = (case e of None \<Rightarrow> ret () | Some e \<Rightarrow> notifyIdleDrop e)"

definition notify_peers :: "nat \<Rightarrow> end_side option \<Rightarrow> ('z, unit) hm" where
  "notify_peers s dropping =
     bnd (shared_at s) (\<lambda>sh.
     case dropping of
       Some Readable \<Rightarrow> notify_opt (sh_writable sh)
     | Some Writable \<Rightarrow> notify_opt (sh_readable sh)
     | None \<Rightarrow> seqm (notify_opt (sh_readable sh)) (notify_opt (sh_writable sh)))"

definition shared_drop :: "'y env \<Rightarrow> nat \<Rightarrow> end_side option \<Rightarrow> ('y, unit) sm" where
  "shared_drop env s dropping =
     bnd (shared_at s) (\<lambda>sh.
     if sh_dropped sh then ret ()
     else
       seqm (upd_shared s (\<lambda>sh. sh\<lparr>sh_dropped := True\<rparr>))
       (ensuring
          (if sh_buffer sh \<noteq> None then resetAndNotifyPending env s DROPPED else ret ())
          (seqm (notify_peers s dropping) (notifyDropped env s))))"

definition drop_busy :: "copy_end \<Rightarrow> string" where
  "drop_busy x = (if ce_side x = Readable then ''cannot remove busy '' else ''cannot drop busy '') @ kind_name (ce_kind x)"

definition end_drop :: "'y env \<Rightarrow> nat \<Rightarrow> ('y, unit) sm" where
  "end_drop env e =
     bnd (end_at e) (\<lambda>x.
     seqm (trapIf (ce_kind x = FutureKind \<and> ce_side x = Writable \<and> ce_state x \<noteq> DONE)
             ''cannot drop future write end without first writing a value'')
     (seqm (trapIf (copying x) (drop_busy x))
     (seqm (shared_drop env (ce_shared x) (Some (ce_side x)))
     (waitable_drop (ce_wait x)))))"

text \<open>The end that receives a stream or future takes over the one it already has.\<close>

definition claimReadableEnd :: "nat \<Rightarrow> valtype option \<Rightarrow> ('z, nat) hm" where
  "claimReadableEnd s elem =
     bnd (shared_at s) (\<lambda>sh.
     bnd (case sh_readable sh of Some e \<Rightarrow> ret e | None \<Rightarrow> newEnd Readable s elem) (\<lambda>e.
     bnd (end_at e) (\<lambda>x.
     seqm (assertm (ce_index x = None) (kind_name (sh_kind sh) @ '' readable end already has an owner''))
     (seqm (upd_end e (\<lambda>x. x\<lparr>ce_elem := elem\<rparr>))
     (seqm (if sh_dropped sh then notifyIdleDrop e else ret ())
     (ret e))))))"

section \<open>The rendezvous\<close>

definition sameElemType :: "valtype option \<Rightarrow> valtype option \<Rightarrow> bool" where
  "sameElemType a b = valTypeEqual a b Underlying"

definition assertSameElemType :: "shared \<Rightarrow> rbuffer \<Rightarrow> rbuffer \<Rightarrow> ('y, unit) sm" where
  "assertSameElemType sh arriving pending =
     assertm (sameElemType (sh_t sh) (buf_t arriving) \<and> sameElemType (buf_t arriving) (buf_t pending))
       ''stream element type mismatch between ends''"

definition trapOnSameInstance :: "shared \<Rightarrow> holder \<Rightarrow> rbuffer \<Rightarrow> rbuffer \<Rightarrow> ('y, unit) sm" where
  "trapOnSameInstance sh inst arriving pending =
     trapIf (sh_inst sh = Some inst \<and> buf_remain pending > 0 \<and> buf_remain arriving > 0 \<and> \<not> noneOrNumberType (sh_t sh))
       ''cannot read from and write to intra-component stream''"

definition bothDirectError :: err where
  "bothDirectError = TypeError ''at least one side of a host-to-host rendezvous must use the chunk forms''"

definition routeDirectNoCopy :: "'y env \<Rightarrow> nat \<Rightarrow> outcome \<Rightarrow> bool \<Rightarrow> holder \<Rightarrow> nat \<Rightarrow> copy_cb \<Rightarrow> ('y, unit) sm" where
  "routeDirectNoCopy env s out pendingIsDirect inst arriving cb =
     (if pendingIsDirect then
        seqm (if out = Retracted then resetAndNotifyPending env s COMPLETED else resetPending s)
        (setPending s inst arriving cb)
      else if out = Retracted then run_onCopyDone env cb COMPLETED
      else ret ())"

text \<open>
  Both sides have room: copy the smaller of the two remains, tell the parked side that
  it may reclaim its buffer, and complete the arriving one. \<open>src\<close> and \<open>dst\<close> are the arriving
  and the parked buffer in the direction of the copy.
\<close>

definition stream_meet :: "'y env \<Rightarrow> nat \<Rightarrow> holder \<Rightarrow> nat \<Rightarrow> nat \<Rightarrow> copy_cb \<Rightarrow> nat \<Rightarrow> nat \<Rightarrow> nat \<Rightarrow> bool \<Rightarrow> ('y, unit) sm" where
  "stream_meet env s inst arriving pending cb src dst n pendingIsDirect =
     bnd (rendezvousCopy env src dst n) (\<lambda>out.
     if out = BothDirect then session_fail arriving bothDirectError
     else if out = Retracted \<or> out = Failed then routeDirectNoCopy env s out pendingIsDirect inst arriving cb
     else
       bnd (shared_at s) (\<lambda>sh.
       seqm (case sh_onCopy sh of
               None \<Rightarrow> throw (TypeError ''pendingOnCopy is not a function'')
             | Some pcb \<Rightarrow> run_onCopy env pcb (ResetPending s))
       (run_onCopyDone env cb COMPLETED)))"

definition stream_read :: "'y env \<Rightarrow> nat \<Rightarrow> holder \<Rightarrow> nat \<Rightarrow> copy_cb \<Rightarrow> ('y, unit) sm" where
  "stream_read env s inst dst cb =
     bnd (shared_at s) (\<lambda>sh.
     if sh_dropped sh then run_onCopyDone env cb DROPPED
     else
       case sh_buffer sh of
         None \<Rightarrow> setPending s inst dst cb
       | Some p \<Rightarrow>
           bnd (buf_at dst) (\<lambda>d.
           bnd (buf_at p) (\<lambda>pb.
           seqm (assertSameElemType sh d pb)
           (seqm (trapOnSameInstance sh inst d pb)
           (if buf_remain pb > 0 then
              (if buf_remain d > 0 then
                 stream_meet env s inst dst p cb p dst (min (buf_remain d) (buf_remain pb)) (isDirectBuffer pb)
               else run_onCopyDone env cb COMPLETED)
            else
              seqm (resetAndNotifyPending env s COMPLETED)
              (setPending s inst dst cb))))))"

definition stream_write :: "'y env \<Rightarrow> nat \<Rightarrow> holder \<Rightarrow> nat \<Rightarrow> copy_cb \<Rightarrow> ('y, unit) sm" where
  "stream_write env s inst src cb =
     bnd (shared_at s) (\<lambda>sh.
     if sh_dropped sh then run_onCopyDone env cb DROPPED
     else
       case sh_buffer sh of
         None \<Rightarrow> setPending s inst src cb
       | Some p \<Rightarrow>
           bnd (buf_at src) (\<lambda>d.
           bnd (buf_at p) (\<lambda>pb.
           seqm (assertSameElemType sh d pb)
           (seqm (trapOnSameInstance sh inst d pb)
           (if buf_remain pb > 0 then
              (if buf_remain d > 0 then
                 stream_meet env s inst src p cb src p (min (buf_remain d) (buf_remain pb)) (isDirectBuffer pb)
               else run_onCopyDone env cb COMPLETED)
            else if buf_isZeroLength d \<and> buf_isZeroLength pb then run_onCopyDone env cb COMPLETED
            else
              seqm (resetAndNotifyPending env s COMPLETED)
              (setPending s inst src cb))))))"

definition future_sameInstance :: "shared \<Rightarrow> holder \<Rightarrow> ('y, unit) sm" where
  "future_sameInstance sh inst =
     trapIf (sh_inst sh = Some inst \<and> \<not> noneOrNumberType (sh_t sh))
       ''cannot read from and write to intra-component future''"

definition future_read :: "'y env \<Rightarrow> nat \<Rightarrow> holder \<Rightarrow> nat \<Rightarrow> copy_cb \<Rightarrow> ('y, unit) sm" where
  "future_read env s inst dst cb =
     bnd (shared_at s) (\<lambda>sh.
     bnd (buf_at dst) (\<lambda>d.
     case (if sh_dropped sh then sh_abandon sh else None) of
       Some reason \<Rightarrow> throw (futureAbandonTrap reason)
     | None \<Rightarrow>
         seqm (assertm (\<not> sh_dropped sh \<and> buf_remain d = 1) ''future read shape'')
         (case sh_buffer sh of
            None \<Rightarrow> setPending s inst dst cb
          | Some p \<Rightarrow>
              seqm (future_sameInstance sh inst)
              (bnd (buf_read env p 1) (\<lambda>vs.
               seqm (buf_write env dst vs)
               (seqm (resetAndNotifyPending env s COMPLETED)
               (run_onCopyDone env cb COMPLETED)))))))"

definition future_write :: "'y env \<Rightarrow> nat \<Rightarrow> holder \<Rightarrow> nat \<Rightarrow> copy_cb \<Rightarrow> ('y, unit) sm" where
  "future_write env s inst src cb =
     bnd (buf_at src) (\<lambda>d.
     seqm (assertm (buf_remain d = 1) ''future write shape'')
     (bnd (shared_at s) (\<lambda>sh.
      if sh_dropped sh then run_onCopyDone env cb DROPPED
      else
        case sh_buffer sh of
          None \<Rightarrow> setPending s inst src cb
        | Some p \<Rightarrow>
            seqm (future_sameInstance sh inst)
            (bnd (buf_read env src 1) (\<lambda>vs.
             seqm (buf_write env p vs)
             (seqm (resetAndNotifyPending env s COMPLETED)
             (run_onCopyDone env cb COMPLETED)))))))"

text \<open>\<open>end.copy\<close> of the four ends.\<close>

definition end_copy :: "'y env \<Rightarrow> copy_end \<Rightarrow> holder \<Rightarrow> nat \<Rightarrow> copy_cb \<Rightarrow> ('y, unit) sm" where
  "end_copy env x inst buffer cb =
     (case (ce_kind x, ce_side x) of
        (StreamKind, Readable) \<Rightarrow> stream_read env (ce_shared x) inst buffer cb
      | (StreamKind, Writable) \<Rightarrow> stream_write env (ce_shared x) inst buffer cb
      | (FutureKind, Readable) \<Rightarrow> future_read env (ce_shared x) inst buffer cb
      | (FutureKind, Writable) \<Rightarrow> future_write env (ce_shared x) inst buffer cb)"

section \<open>Poisoned instances\<close>

definition isInstancePoisoned :: "nat \<Rightarrow> 'y world_scheme \<Rightarrow> bool" where
  "isInstancePoisoned k w = (k \<in> set (h_poisoned w))"

definition dropSharedForTeardown :: "'y env \<Rightarrow> nat \<Rightarrow> end_side option \<Rightarrow> ('y, unit) sm" where
  "dropSharedForTeardown env s dropping =
     bnd (shared_at s) (\<lambda>sh.
     if sh_dropped sh then ret ()
     else
       bnd (gets (\<lambda>w. sh_buffer sh \<noteq> None \<and>
              (case sh_inst sh of
                 Some (InGuest k) \<Rightarrow> isInstancePoisoned k w \<or> k \<in> set (h_retired w)
               | _ \<Rightarrow> False))) (\<lambda>parkedInDeadGuest.
       seqm (if parkedInDeadGuest then resetPending s else ret ())
       (shared_drop env s dropping)))"

definition abandonSharedFuture :: "'y env \<Rightarrow> nat \<Rightarrow> string \<Rightarrow> ('y, unit) sm" where
  "abandonSharedFuture env s reason =
     bnd (shared_at s) (\<lambda>sh.
     if sh_dropped sh then ret ()
     else
       seqm (upd_shared s (\<lambda>sh. sh\<lparr>sh_abandon := (case sh_abandon sh of None \<Rightarrow> Some reason | Some r \<Rightarrow> Some r)\<rparr>))
       (dropSharedForTeardown env s None))"

text \<open>The ends in a table, in table order: \<open>e instanceof CopyEnd\<close>.\<close>

fun entry_end :: "hentry \<Rightarrow> nat option" where
  "entry_end (ReadableStreamE e) = Some e"
| "entry_end (WritableStreamE e) = Some e"
| "entry_end (ReadableFutureE e) = Some e"
| "entry_end (WritableFutureE e) = Some e"
| "entry_end _ = None"

definition poisonMessage :: "nat \<Rightarrow> string" where
  "poisonMessage inst = ''component instance '' @ string_of_nat inst @
     '' trapped while it held an end of this stream/future; the peer can never rendezvous again''"

text \<open>First pass: record the failure and mark the futures that this table owes a value.\<close>

definition retire_mark :: "nat \<Rightarrow> nat \<Rightarrow> ('y, unit) sm" where
  "retire_mark inst e =
     bnd (end_at e) (\<lambda>x.
     let s = ce_shared x in
     bnd (shared_at s) (\<lambda>sh.
     seqm (modify (\<lambda>w. w\<lparr>h_failures := (case h_failures w s of
             None \<Rightarrow> (h_failures w)(s := Some (poisonMessage inst)) | Some _ \<Rightarrow> h_failures w)\<rparr>))
     (bnd (gets (\<lambda>w. h_failures w s)) (\<lambda>failure.
      if ce_kind x = FutureKind \<and> ce_side x = Writable \<and> ce_state x \<noteq> DONE \<and> \<not> sh_dropped sh
      then upd_shared s (\<lambda>sh. sh\<lparr>sh_abandon := (case sh_abandon sh of None \<Rightarrow> failure | Some r \<Rightarrow> Some r)\<rparr>)
      else ret ()))))"

text \<open>Second pass: every end is retired; the first failure is thrown afterwards.\<close>

fun retire_drops :: "'y env \<Rightarrow> nat list \<Rightarrow> err option \<Rightarrow> ('y, unit) sm" where
  "retire_drops env [] first = (case first of None \<Rightarrow> ret () | Some e \<Rightarrow> throw e)"
| "retire_drops env (e # es) first =
     bnd (catching
            (bnd (end_at e) (\<lambda>x. seqm (dropSharedForTeardown env (ce_shared x) (Some (ce_side x))) (ret first)))
            (\<lambda>err. ret (case first of None \<Rightarrow> Some err | Some f \<Rightarrow> Some f)))
         (retire_drops env es)"

definition retireAsyncEnds :: "'y env \<Rightarrow> nat \<Rightarrow> nat list \<Rightarrow> ('y, unit) sm" where
  "retireAsyncEnds env inst ends = seqm (iterm (retire_mark inst) ends) (retire_drops env ends None)"

definition retireInstanceAsyncEnds :: "'y env \<Rightarrow> nat \<Rightarrow> ('y, unit) sm" where
  "retireInstanceAsyncEnds env inst =
     bnd (gets (\<lambda>w. inst \<in> set (h_retired w))) (\<lambda>already.
     if already then ret ()
     else
       seqm (modify (\<lambda>w. w\<lparr>h_retired := inst # h_retired w\<rparr>))
       (bnd (gets (\<lambda>w. List.map_filter entry_end (table_iter (c_handles (w_insts w ! inst))))) (\<lambda>ends.
        retireAsyncEnds env inst ends)))"

text \<open>The hook of a failed removal: the removed end's parked buffer is retracted silently.\<close>

definition handleRemovalFailed :: "'y env \<Rightarrow> nat \<Rightarrow> hentry \<Rightarrow> ('y, unit) sm" where
  "handleRemovalFailed env inst entry =
     (case entry_end entry of
        None \<Rightarrow> ret ()
      | Some e \<Rightarrow>
          bnd (end_at e) (\<lambda>x.
          bnd (shared_at (ce_shared x)) (\<lambda>sh.
          seqm (if sh_inst sh = Some (InGuest inst) then resetPending (ce_shared x) else ret ())
          (retireAsyncEnds env inst [e]))))"

text \<open>\<open>removeHandleWithUnwind\<close> of \<open>task/scheduler.ts\<close>, at the level of the world.\<close>

definition removeHandle :: "'y env \<Rightarrow> nat \<Rightarrow> nat \<Rightarrow> (hentry \<Rightarrow> ('y, 'a) sm) \<Rightarrow> ('y, 'a) sm" where
  "removeHandle env inst i use =
     bnd (at_cst inst (handles (table_remove (int i)))) (\<lambda>entry.
     on_error (use entry) (\<lambda>cause. handleRemovalFailed env inst entry))"

end
