(* ===== verification/Async_Builtins.thy ===== *)
theory Async_Builtins
  imports Streams
begin

text \<open>
  The canonical built-ins of streams and futures (\<open>runtime/src/intrinsics/stream_builtins.ts\<close>)
  and of waitable sets and subtasks (\<open>runtime/src/intrinsics/async_builtins.ts\<close>). A call
  that blocks the WebAssembly frame returns \<open>Parked\<close>: what the scheduler runs when it
  resumes the frame is a definition of its own (\<open>\<dots>_resume\<close>).
\<close>

section \<open>Results\<close>

datatype suspension_mode = Plain | Jspi

datatype 'a call = Returned 'a | Parked

definition BLOCKED :: "32 word" where "BLOCKED = 0xffffffff"

definition mayLeave :: "nat \<Rightarrow> ('y, bool) sm" where
  "mayLeave k = gets (\<lambda>w. c_may_leave (w_insts w ! k))"

definition leave_guard :: "nat \<Rightarrow> string \<Rightarrow> ('y, unit) sm" where
  "leave_guard k what = bnd (mayLeave k) (\<lambda>m. trapIf (\<not> m) (what @ '': cannot leave component instance''))"

definition handle_get :: "nat \<Rightarrow> nat \<Rightarrow> ('y, hentry) sm" where
  "handle_get k i = at_cst k (handles (table_get (int i)))"

definition handle_add :: "nat \<Rightarrow> hentry \<Rightarrow> ('y, nat) sm" where
  "handle_add k e = at_cst k (handles (table_add e))"

text \<open>The entry of an end in a table, and \<open>e instanceof EndT\<close>.\<close>

definition end_entry :: "end_kind \<Rightarrow> end_side \<Rightarrow> nat \<Rightarrow> hentry" where
  "end_entry k side e = (case (k, side) of
     (StreamKind, Readable) \<Rightarrow> ReadableStreamE e | (StreamKind, Writable) \<Rightarrow> WritableStreamE e
   | (FutureKind, Readable) \<Rightarrow> ReadableFutureE e | (FutureKind, Writable) \<Rightarrow> WritableFutureE e)"

definition as_end :: "end_kind \<Rightarrow> end_side \<Rightarrow> string \<Rightarrow> hentry \<Rightarrow> ('s, nat) m" where
  "as_end k side msg entry =
     (case entry_end entry of
        None \<Rightarrow> throw (Trap msg)
      | Some e \<Rightarrow> if entry = end_entry k side e then ret e else throw (Trap msg))"

section \<open>stream.new and future.new\<close>

definition packEnds :: "nat \<Rightarrow> nat \<Rightarrow> 64 word" where
  "packEnds ri wi = or (ucast (of_nat ri :: 32 word)) (push_bit 32 (ucast (of_nat wi :: 32 word)))"

definition endsNew :: "end_kind \<Rightarrow> string \<Rightarrow> nat \<Rightarrow> valtype option \<Rightarrow> ('y, 64 word) sm" where
  "endsNew kind what inst t =
     seqm (leave_guard inst what)
     (bnd (newShared kind t) (\<lambda>s.
      bnd (newEnd Readable s t) (\<lambda>reader.
      bnd (newEnd Writable s t) (\<lambda>writer.
      bnd (handle_add inst (end_entry kind Readable reader)) (\<lambda>ri.
      bnd (handle_add inst (end_entry kind Writable writer)) (\<lambda>wi.
      seqm (upd_end reader (\<lambda>x. x\<lparr>ce_index := Some ri\<rparr>))
      (seqm (upd_end writer (\<lambda>x. x\<lparr>ce_index := Some wi\<rparr>))
      (ret (packEnds ri wi)))))))))"

definition streamNew :: "nat \<Rightarrow> valtype option \<Rightarrow> ('y, 64 word) sm" where
  "streamNew = endsNew StreamKind ''stream.new''"

definition futureNew :: "nat \<Rightarrow> valtype option \<Rightarrow> ('y, 64 word) sm" where
  "futureNew = endsNew FutureKind ''future.new''"

section \<open>Read and write\<close>

text \<open>The end of a finished copy: the event that landed is taken at once.\<close>

definition take_event :: "nat \<Rightarrow> event_code \<Rightarrow> nat \<Rightarrow> string \<Rightarrow> ('y, 32 word) sm" where
  "take_event e code i what =
     bnd (end_at e) (\<lambda>x.
     bnd (getPendingEvent run_event (ce_wait x)) (\<lambda>(c, index, payload).
     seqm (assertm (c = code \<and> index = i) (''unexpected event delivered by a '' @ what @ '' copy''))
     (ret (of_nat payload))))"

definition set_sync :: "nat \<Rightarrow> bool \<Rightarrow> ('y, unit) sm" where
  "set_sync e b = bnd (end_at e) (\<lambda>x. upd_waitable (ce_wait x) (\<lambda>w. w\<lparr>wt_sync := b\<rparr>))"

definition finishCopy ::
    "nat \<Rightarrow> event_code \<Rightarrow> nat \<Rightarrow> bool \<Rightarrow> string \<Rightarrow> suspension_mode \<Rightarrow> ('y, 32 word call) sm" where
  "finishCopy e code i async what mode =
     bnd (end_at e) (\<lambda>x.
     bnd (gets (hasPendingEvent (ce_wait x))) (\<lambda>pending.
     if \<not> pending then
       (if \<not> async then
          (if mode = Jspi then seqm (set_sync e True) (ret Parked)
           else throw (NeedsJspi (''synchronous '' @ what @ '' copy with no counterpart ready'')))
        else ret (Returned BLOCKED))
     else bnd (take_event e code i what) (\<lambda>p. ret (Returned p))))"

text \<open>What the parked frame runs when its end has an event; an abandoned one only unclaims.\<close>

definition finishCopy_resume :: "nat \<Rightarrow> event_code \<Rightarrow> nat \<Rightarrow> string \<Rightarrow> ('y, 32 word) sm" where
  "finishCopy_resume e code i what = seqm (set_sync e False) (take_event e code i what)"

definition copy_guards ::
    "end_kind \<Rightarrow> end_side \<Rightarrow> valtype option \<Rightarrow> bool \<Rightarrow> nat \<Rightarrow> nat \<Rightarrow> ('y, nat) sm" where
  "copy_guards kind side elem async inst i =
     (let what = kind_name kind @ '' copy'' in
      seqm (leave_guard inst what)
      (bnd (handle_get inst i) (\<lambda>entry.
       bnd (as_end kind side (what @ '': wrong end type for this handle'') entry) (\<lambda>e.
       seqm (upd_end e (\<lambda>x. x\<lparr>ce_index := Some i\<rparr>))
       (bnd (end_at e) (\<lambda>x.
        seqm (trapIf (\<not> valTypeEqual (ce_elem x) elem Local) (what @ '': element type mismatch''))
        (seqm (trapIf (ce_state x = DONE)
                (case (kind, side) of
                   (StreamKind, Readable) \<Rightarrow> ''cannot read from stream after being notified that the writable end dropped''
                 | (StreamKind, Writable) \<Rightarrow> ''cannot write to stream after being notified that the readable end dropped''
                 | (FutureKind, Readable) \<Rightarrow> ''cannot read from future after previous read succeeded''
                 | (FutureKind, Writable) \<Rightarrow> ''cannot write to future after previous write succeeded or readable end dropped''))
        (seqm (trapIf (ce_state x \<noteq> IDLE) ''cannot have concurrent operations active on a future/stream'')
        (bnd (gets (inWaitableSet (ce_wait x))) (\<lambda>joined.
         seqm (trapIf (joined \<and> \<not> async) (''synchronous '' @ kind_name kind @ '' copy on an end that is in a waitable set''))
         (ret e)))))))))))"

definition is_char :: "valtype option \<Rightarrow> bool" where
  "is_char t = (t = Some (Prim PChar))"

definition streamCopy ::
    "'y env \<Rightarrow> end_side \<Rightarrow> valtype option \<Rightarrow> nat \<Rightarrow> suspension_mode \<Rightarrow> nat \<Rightarrow> nat \<Rightarrow> nat \<Rightarrow> nat \<Rightarrow> ('y, 32 word call) sm" where
  "streamCopy env side elem opts mode inst i ptr n =
     bnd (copy_guards StreamKind side elem (env_async env opts) inst i) (\<lambda>e.
     bnd (newGuestBuffer env elem opts inst ptr n) (\<lambda>g.
     bnd (new_buf (GuestBuf g)) (\<lambda>b.
     seqm (assertm (\<not> is_char elem) ''stream copy: char element'')
     (seqm (upd_end e (\<lambda>x. x\<lparr>ce_state := COPYING\<rparr>))
     (bnd (end_at e) (\<lambda>x.
      let code = eventCode StreamKind side in
      seqm (end_copy env x (InGuest inst) b (StreamCb e b code))
      (finishCopy e code i (env_async env opts) ''stream'' mode)))))))"

definition futureCopy ::
    "'y env \<Rightarrow> end_side \<Rightarrow> valtype option \<Rightarrow> nat \<Rightarrow> suspension_mode \<Rightarrow> nat \<Rightarrow> nat \<Rightarrow> nat \<Rightarrow> ('y, 32 word call) sm" where
  "futureCopy env side elem opts mode inst i ptr =
     bnd (copy_guards FutureKind side elem (env_async env opts) inst i) (\<lambda>e.
     bnd (newGuestBuffer env elem opts inst ptr 1) (\<lambda>g.
     bnd (new_buf (GuestBuf g)) (\<lambda>b.
     seqm (upd_end e (\<lambda>x. x\<lparr>ce_state := COPYING\<rparr>))
     (bnd (end_at e) (\<lambda>x.
      let code = eventCode FutureKind side in
      seqm (end_copy env x (InGuest inst) b (FutureCb e b code (side = Readable)))
      (finishCopy e code i (env_async env opts) ''future'' mode))))))"

section \<open>Cancellation\<close>

text \<open>A completion of a stream copy that the guest has not seen is reported as cancelled.\<close>

definition supersede :: "event_code \<Rightarrow> 32 word \<Rightarrow> 32 word" where
  "supersede code payload =
     (if (code = STREAM_READ \<or> code = STREAM_WRITE) \<and> and payload 0xf = of_nat (result_number COMPLETED)
      then or (and payload (not 0xf)) (of_nat (result_number CANCELLED))
      else payload)"

definition takeCancelEvent :: "nat \<Rightarrow> event_code \<Rightarrow> nat \<Rightarrow> string \<Rightarrow> ('y, 32 word) sm" where
  "takeCancelEvent e code i what =
     bnd (end_at e) (\<lambda>x.
     bnd (getPendingEvent run_event (ce_wait x)) (\<lambda>(c, index, payload).
     bnd (end_at e) (\<lambda>x.
     seqm (assertm (\<not> copying x \<and> c = code \<and> index = i) (''unexpected event delivered by '' @ what))
     (ret (supersede code (of_nat payload))))))"

definition cancelCopy ::
    "'y env \<Rightarrow> end_kind \<Rightarrow> end_side \<Rightarrow> valtype option \<Rightarrow> bool \<Rightarrow> suspension_mode \<Rightarrow> string \<Rightarrow> nat \<Rightarrow> nat \<Rightarrow> ('y, 32 word call) sm" where
  "cancelCopy env kind side elem async mode what inst i =
     seqm (leave_guard inst what)
     (bnd (handle_get inst i) (\<lambda>entry.
      bnd (as_end kind side (what @ '': wrong end type for this handle'') entry) (\<lambda>e.
      bnd (end_at e) (\<lambda>x.
      seqm (trapIf (\<not> valTypeEqual (ce_elem x) elem Local) (what @ '': element type mismatch''))
      (bnd (gets (hasSyncWaiter (ce_wait x))) (\<lambda>sync.
       seqm (trapIf (ce_state x \<noteq> COPYING \<or> sync) (what @ '': end is not in a cancellable copy''))
       (bnd (gets (inWaitableSet (ce_wait x))) (\<lambda>joined.
        seqm (trapIf (joined \<and> \<not> async) (what @ '': synchronous cancel on an end that is in a waitable set''))
        (seqm (upd_end e (\<lambda>x. x\<lparr>ce_state := CANCELLING_COPY\<rparr>))
        (bnd (gets (hasPendingEvent (ce_wait x))) (\<lambda>pending.
         bnd (if \<not> pending then seqm (shared_cancel env (ce_shared x)) (gets (hasPendingEvent (ce_wait x)))
              else ret True) (\<lambda>settled.
         if settled then
           bnd (takeCancelEvent e (eventCode kind side) i what) (\<lambda>p. ret (Returned p))
         else if async then ret (Returned BLOCKED)
         else if mode = Jspi then ret Parked
         else throw (NeedsJspi (''synchronous '' @ what @ '' whose copy did not settle immediately''))))))))))))))"

section \<open>Drop\<close>

definition dropEnd ::
    "'y env \<Rightarrow> end_kind \<Rightarrow> end_side \<Rightarrow> valtype option \<Rightarrow> string \<Rightarrow> nat \<Rightarrow> nat \<Rightarrow> ('y, unit) sm" where
  "dropEnd env kind side elem what inst hi =
     seqm (leave_guard inst what)
     (removeHandle env inst hi (\<lambda>entry.
      bnd (as_end kind side (what @ '': wrong end type for this handle'') entry) (\<lambda>e.
      bnd (end_at e) (\<lambda>x.
      seqm (trapIf (\<not> valTypeEqual (ce_elem x) elem Local) (what @ '': element type mismatch''))
      (end_drop env e)))))"

section \<open>Transfer between instances\<close>

text \<open>
  The readable end itself moves: with it go its state and an idle-drop event. The guards
  are those of \<open>liftAsyncValue\<close>.
\<close>

definition transferAsyncEnd ::
    "'y env \<Rightarrow> end_kind \<Rightarrow> nat \<Rightarrow> nat \<Rightarrow> valtype option \<Rightarrow> valtype option \<Rightarrow> nat \<Rightarrow> ('y, nat) sm" where
  "transferAsyncEnd env kind srcInst dstInst srcElem dstElem srcIdx =
     (let what = kind_name kind in
      removeHandle env srcInst srcIdx (\<lambda>entry.
      bnd (as_end kind Readable (what @ '': handle is not a readable '' @ what @ '' end'') entry) (\<lambda>e.
      bnd (end_at e) (\<lambda>x.
      seqm (trapIf (\<not> valTypeEqual (ce_elem x) srcElem Local) (what @ '': source element mismatch''))
      (bnd (shared_at (ce_shared x)) (\<lambda>sh.
       seqm (trapIf (\<not> sameElemType (sh_t sh) dstElem) (what @ '': destination element mismatch''))
       (seqm (trapIf (ce_state x = DONE)
               (case kind of FutureKind \<Rightarrow> ''cannot lift future after previous read succeeded''
                | StreamKind \<Rightarrow> ''cannot lift stream after being notified that the writable end dropped''))
       (seqm (trapIf (ce_state x \<noteq> IDLE) (''cannot remove busy '' @ what))
       (bnd (gets (inWaitableSet (ce_wait x))) (\<lambda>joined.
        seqm (trapIf joined (''cannot lift '' @ what @ '' while it is in a waitable set''))
        (seqm (upd_end e (\<lambda>x. x\<lparr>ce_elem := dstElem, ce_index := None\<rparr>))
        (bnd (handle_add dstInst entry) (\<lambda>dstIdx.
         seqm (upd_end e (\<lambda>x. x\<lparr>ce_index := Some dstIdx\<rparr>))
         (ret dstIdx))))))))))))))"

section \<open>Error contexts\<close>

text \<open>The message is stored in UTF-16; a context is shared by the tables that hold it.\<close>

definition new_message :: "16 word list \<Rightarrow> ('y, nat) sm" where
  "new_message m =
     bnd (gets (\<lambda>w. length (h_messages w))) (\<lambda>k.
     seqm (modify (\<lambda>w. w\<lparr>h_messages := h_messages w @ [m]\<rparr>)) (ret k))"

definition as_error_context :: "string \<Rightarrow> hentry \<Rightarrow> ('s, nat) m" where
  "as_error_context what entry =
     (case entry of ErrorContextE m \<Rightarrow> ret m | _ \<Rightarrow> throw (Trap (what @ '': handle is not an error-context'')))"

definition errorContextNew :: "'y env \<Rightarrow> nat \<Rightarrow> nat \<Rightarrow> nat \<Rightarrow> nat \<Rightarrow> ('y, nat) sm" where
  "errorContextNew env opts inst ptr taggedCodeUnits =
     seqm (leave_guard inst ''error-context.new'')
     (bnd (at_inst inst (loadStringFromRange (env_cx env opts inst) ptr taggedCodeUnits)) (\<lambda>s.
      bnd (of_res (as_string s)) (\<lambda>units.
      bnd (new_message units) (\<lambda>m.
      handle_add inst (ErrorContextE m)))))"

definition errorContextDebugMessage :: "'y env \<Rightarrow> nat \<Rightarrow> nat \<Rightarrow> nat \<Rightarrow> nat \<Rightarrow> ('y, unit) sm" where
  "errorContextDebugMessage env opts inst i ptr =
     seqm (leave_guard inst ''error-context.debug-message'')
     (bnd (handle_get inst i) (\<lambda>entry.
      bnd (as_error_context ''error-context.debug-message'' entry) (\<lambda>m.
      let cx = env_cx env opts inst in
      case cx_memory cx of
        None \<Rightarrow> throw (AssertionError ''error-context.debug-message requires a memory'')
      | Some pt \<Rightarrow>
          bnd (mem_length inst) (\<lambda>n.
          seqm (trapIf (ptr mod ptrSize pt \<noteq> 0 \<or> ptr + 2 * ptrSize pt > n) ''invalid debug message pointer'')
          (bnd (gets (\<lambda>w. h_messages w ! m)) (\<lambda>msg.
           at_inst inst (storeString cx (VStr msg) ptr)))))))"

definition errorContextDrop :: "'y env \<Rightarrow> nat \<Rightarrow> nat \<Rightarrow> ('y, unit) sm" where
  "errorContextDrop env inst i =
     seqm (leave_guard inst ''error-context.drop'')
     (removeHandle env inst i (\<lambda>entry.
      bnd (as_error_context ''error-context.drop'' entry) (\<lambda>_. ret ())))"

definition errorContextTransfer :: "nat \<Rightarrow> nat \<Rightarrow> nat \<Rightarrow> ('y, nat) sm" where
  "errorContextTransfer srcInst dstInst srcIdx =
     bnd (handle_get srcInst srcIdx) (\<lambda>entry.
     bnd (as_error_context ''error-context transfer'' entry) (\<lambda>m.
     handle_add dstInst (ErrorContextE m)))"

section \<open>Waitable sets\<close>

definition waitableSetNew :: "nat \<Rightarrow> ('y, nat) sm" where
  "waitableSetNew inst =
     seqm (leave_guard inst ''waitable-set.new'')
     (bnd new_wset (\<lambda>k. handle_add inst (WaitableSetE k)))"

definition requireWaitableSet :: "nat \<Rightarrow> nat \<Rightarrow> string \<Rightarrow> ('y, nat) sm" where
  "requireWaitableSet inst si what =
     bnd (handle_get inst si) (\<lambda>entry.
     case entry of
       WaitableSetE k \<Rightarrow> ret k
     | _ \<Rightarrow> throw (Trap (what @ '': handle '' @ string_of_nat si @ '' is not a waitable set'')))"

text \<open>Store the two payload words at \<open>ptr\<close> and return the event code.\<close>

definition unpackEvent :: "'y env \<Rightarrow> nat \<Rightarrow> nat \<Rightarrow> nat \<Rightarrow> event_tuple \<Rightarrow> ('y, nat) sm" where
  "unpackEvent env opts inst ptr e =
     (let (event, p1, p2) = e; cx = env_cx env opts inst in
      seqm (at_inst inst (store cx (VNum (int p1)) (Prim PU32) ptr))
      (seqm (at_inst inst (store cx (VNum (int p2)) (Prim PU32) (ptr + 4)))
      (ret (event_number event))))"

definition waitableSetWait :: "'y env \<Rightarrow> nat \<Rightarrow> suspension_mode \<Rightarrow> nat \<Rightarrow> nat \<Rightarrow> nat \<Rightarrow> ('y, nat call) sm" where
  "waitableSetWait env opts mode inst si ptr =
     seqm (leave_guard inst ''waitable-set.wait'')
     (bnd (requireWaitableSet inst si ''waitable-set.wait'') (\<lambda>k.
      bnd (gets (wset_hasPendingEvent k)) (\<lambda>pending.
      if pending then
        bnd (wset_getPendingEvent run_event k) (\<lambda>event.
        bnd (unpackEvent env opts inst ptr event) (\<lambda>c. ret (Returned c)))
      else if mode = Jspi then seqm (wait_enter k) (ret Parked)
      else throw (NeedsJspi ''waitable-set.wait with no pending event''))))"

definition waitableSetWait_resume :: "'y env \<Rightarrow> nat \<Rightarrow> nat \<Rightarrow> nat \<Rightarrow> nat \<Rightarrow> ('y, nat) sm" where
  "waitableSetWait_resume env opts inst k ptr =
     finallym
       (bnd (wset_getPendingEvent run_event k) (\<lambda>event. unpackEvent env opts inst ptr event))
       (wait_leave k)"

definition waitableSetPoll :: "'y env \<Rightarrow> nat \<Rightarrow> nat \<Rightarrow> nat \<Rightarrow> nat \<Rightarrow> ('y, nat) sm" where
  "waitableSetPoll env opts inst si ptr =
     seqm (leave_guard inst ''waitable-set.poll'')
     (bnd (requireWaitableSet inst si ''waitable-set.poll'') (\<lambda>k.
      bnd (wset_poll run_event k) (\<lambda>event.
      unpackEvent env opts inst ptr event)))"

definition waitableSetDrop :: "'y env \<Rightarrow> nat \<Rightarrow> nat \<Rightarrow> ('y, unit) sm" where
  "waitableSetDrop env inst i =
     seqm (leave_guard inst ''waitable-set.drop'')
     (removeHandle env inst i (\<lambda>entry.
      case entry of
        WaitableSetE k \<Rightarrow> wset_drop k
      | _ \<Rightarrow> throw (Trap ''waitable-set.drop: handle is not a waitable set'')))"

text \<open>Ends and subtasks are waitables.\<close>

definition waitable_of :: "nat \<Rightarrow> hentry \<Rightarrow> 'y world_scheme \<Rightarrow> nat option" where
  "waitable_of inst entry w =
     (case entry of
        SubtaskE j \<Rightarrow> Some (sb_wait (c_subtasks (w_insts w ! inst) ! j))
      | _ \<Rightarrow> map_option (\<lambda>e. ce_wait (h_ends w ! e)) (entry_end entry))"

definition waitableJoin :: "nat \<Rightarrow> nat \<Rightarrow> nat \<Rightarrow> ('y, unit) sm" where
  "waitableJoin inst wi si =
     seqm (leave_guard inst ''waitable.join'')
     (bnd (handle_get inst wi) (\<lambda>entry.
      bnd (gets (waitable_of inst entry)) (\<lambda>found.
      case found of
        None \<Rightarrow> throw (Trap ''waitable.join: handle is not a waitable'')
      | Some w \<Rightarrow>
          bnd (gets (hasSyncWaiter w)) (\<lambda>sync.
          seqm (trapIf sync ''waitable cannot be used synchronously while added to a waitable set (waitable.join)'')
          (if si = 0 then waitable_join w None
           else bnd (requireWaitableSet inst si ''waitable.join'') (\<lambda>k. waitable_join w (Some k)))))))"

section \<open>Subtasks\<close>

definition subtask_drop :: "nat \<Rightarrow> nat \<Rightarrow> ('y, unit) sm" where
  "subtask_drop inst j =
     bnd (at_cst inst (resolveDelivered j)) (\<lambda>d.
     seqm (trapIf (\<not> d) ''cannot drop a subtask which has not yet resolved'')
     (bnd (at_cst inst (subtask_at j)) (\<lambda>sb. waitable_drop (sb_wait sb))))"

definition subtaskDrop :: "'y env \<Rightarrow> nat \<Rightarrow> nat \<Rightarrow> ('y, unit) sm" where
  "subtaskDrop env inst i =
     seqm (leave_guard inst ''subtask.drop'')
     (removeHandle env inst i (\<lambda>entry.
      case entry of
        SubtaskE j \<Rightarrow> subtask_drop inst j
      | _ \<Rightarrow> throw (Trap ''subtask.drop: handle is not a subtask'')))"

definition setSubtaskPendingEvent :: "nat \<Rightarrow> nat \<Rightarrow> nat \<Rightarrow> ('y, unit) sm" where
  "setSubtaskPendingEvent inst j subtaski =
     bnd (at_cst inst (subtask_at j)) (\<lambda>sb.
     setPendingEvent (sb_wait sb) (SubtaskEvent inst j subtaski))"

end
