(* ===== verification/Async_Values.thy ===== *)
theory Async_Values
  imports Async_Builtins
begin

text \<open>
  Lifting and lowering of streams, futures and error contexts
  (\<open>runtime/src/cabi/async_values.ts\<close>). The code runs in the canonical ABI of one instance,
  on the record \<open>acst\<close>. The value of a stream or future is the identity of its shared
  object, of an error context that of its message: the even and the odd \<open>VShared\<close>. The
  host's hooks and the store of an instance are parameters.
\<close>

definition on_heap :: "(heap, 'a) m \<Rightarrow> (acst, 'a) m" where
  "on_heap a = zoom a_heap (\<lambda>h c. c\<lparr>a_heap := h\<rparr>) a"

record value_hooks =
  vh_store :: "nat \<Rightarrow> nat option"
  vh_onLowered :: "nat \<Rightarrow> nat \<Rightarrow> (acst, unit) m"
  vh_onLifted :: "nat \<Rightarrow> nat \<Rightarrow> (acst, unit) m"

definition shared_value :: "nat \<Rightarrow> cval" where
  "shared_value s = VShared (2 * s)"

definition as_shared :: "end_kind \<Rightarrow> cval \<Rightarrow> heap \<Rightarrow> nat option" where
  "as_shared kind v h =
     (case v of
        VShared n \<Rightarrow> if even n \<and> n div 2 < length (h_shared h) \<and> sh_kind (h_shared h ! (n div 2)) = kind then Some (n div 2) else None
      | _ \<Rightarrow> None)"

definition assertAsyncValueDestinationStore :: "nat option \<Rightarrow> nat option \<Rightarrow> end_kind \<Rightarrow> ('s, unit) m" where
  "assertAsyncValueDestinationStore sourceStore destinationStore kind =
     (if sourceStore = None \<or> destinationStore = None \<or> sourceStore = destinationStore then ret ()
      else throw (TypeError (''cannot pass this '' @ kind_name kind @ '' directly between independent polyengine stores'')))"

definition bind_store :: "nat \<Rightarrow> nat option \<Rightarrow> ('z, unit) hm" where
  "bind_store s st = upd_shared s (\<lambda>sh. sh\<lparr>sh_store := (case sh_store sh of None \<Rightarrow> st | Some x \<Rightarrow> Some x)\<rparr>)"

definition async_type :: "end_kind \<Rightarrow> valtype option \<Rightarrow> valtype" where
  "async_type kind elem = (case kind of StreamKind \<Rightarrow> StreamT elem | FutureKind \<Rightarrow> FutureT elem)"

definition liftAsyncValue ::
    "value_hooks \<Rightarrow> acst cx \<Rightarrow> end_kind \<Rightarrow> nat \<Rightarrow> valtype option \<Rightarrow> (acst, cval) m" where
  "liftAsyncValue hooks cx kind i elem =
     (let what = kind_name kind in
      seqm (assertm (\<not> containsBorrow (Some (async_type kind elem))) (what @ '' may not contain a borrow''))
      (case cx_inst cx of
         None \<Rightarrow> throw (AssertionError (what @ '' lift requires a component instance''))
       | Some inst \<Rightarrow>
           removeHandleWithUnwind cx i (\<lambda>entry.
           bnd (as_end kind Readable (what @ '' lift: handle is not a '' @ what @ '' end'') entry) (\<lambda>e.
           bnd (on_heap (end_at e)) (\<lambda>x.
           seqm (trapIf (\<not> valTypeEqual (ce_elem x) elem Local) (what @ '' lift: element type mismatch''))
           (seqm (trapIf (ce_state x = DONE)
                   (case kind of FutureKind \<Rightarrow> ''cannot lift future after previous read succeeded''
                    | StreamKind \<Rightarrow> ''cannot lift stream after being notified that the writable end dropped''))
           (seqm (trapIf (ce_state x \<noteq> IDLE) (''cannot remove busy '' @ what))
           (bnd (on_heap (gets (inWaitableSet (ce_wait x)))) (\<lambda>joined.
            seqm (trapIf joined (''cannot lift '' @ what @ '' while it is in a waitable set''))
            (let s = ce_shared x in
             bnd (on_heap (shared_at s)) (\<lambda>sh.
             seqm (assertAsyncValueDestinationStore (sh_store sh) (vh_store hooks inst) kind)
             (seqm (on_heap (bind_store s (vh_store hooks inst)))
             (seqm (on_heap (upd_end e (\<lambda>x. x\<lparr>ce_index := None\<rparr>)))
             (seqm (vh_onLifted hooks s inst)
             (ret (shared_value s))))))))))))))))"

definition liftStream :: "value_hooks \<Rightarrow> acst cx \<Rightarrow> nat \<Rightarrow> valtype option \<Rightarrow> (acst, cval) m" where
  "liftStream hooks cx = liftAsyncValue hooks cx StreamKind"

definition liftFuture :: "value_hooks \<Rightarrow> acst cx \<Rightarrow> nat \<Rightarrow> valtype option \<Rightarrow> (acst, cval) m" where
  "liftFuture hooks cx = liftAsyncValue hooks cx FutureKind"

definition lowerAsyncValue ::
    "value_hooks \<Rightarrow> acst cx \<Rightarrow> end_kind \<Rightarrow> cval \<Rightarrow> valtype option \<Rightarrow> (acst, nat) m" where
  "lowerAsyncValue hooks cx kind v elem =
     (let what = kind_name kind in
      bnd (on_heap (gets (as_shared kind v))) (\<lambda>found.
      case found of
        None \<Rightarrow> throw (AssertionError (''lower_'' @ what @ '' expects a shared '' @ what @ '' value''))
      | Some s \<Rightarrow>
          seqm (assertm (\<not> containsBorrow (Some (async_type kind elem))) (what @ '' may not contain a borrow''))
          (bnd (on_heap (shared_at s)) (\<lambda>sh.
           seqm (assertm (sameElemType (sh_t sh) elem) (what @ '' element type mismatch''))
           (case cx_inst cx of
              None \<Rightarrow> throw (AssertionError (what @ '' lower requires a component instance''))
            | Some inst \<Rightarrow>
                seqm (assertAsyncValueDestinationStore (sh_store sh) (vh_store hooks inst) kind)
                (seqm (on_heap (bind_store s (vh_store hooks inst)))
                (seqm (vh_onLowered hooks s inst)
                (seqm (cx_checkpoint cx)
                (bnd (on_heap (claimReadableEnd s elem)) (\<lambda>e.
                 bnd (handles (table_add (end_entry kind Readable e))) (\<lambda>i.
                 seqm (on_heap (upd_end e (\<lambda>x. x\<lparr>ce_index := Some i\<rparr>)))
                 (seqm (cx_inserted cx i (end_entry kind Readable e))
                 (seqm (cx_checkpoint cx)
                 (ret i))))))))))))))"

definition lowerStream :: "value_hooks \<Rightarrow> acst cx \<Rightarrow> cval \<Rightarrow> valtype option \<Rightarrow> (acst, nat) m" where
  "lowerStream hooks cx = lowerAsyncValue hooks cx StreamKind"

definition lowerFuture :: "value_hooks \<Rightarrow> acst cx \<Rightarrow> cval \<Rightarrow> valtype option \<Rightarrow> (acst, nat) m" where
  "lowerFuture hooks cx = lowerAsyncValue hooks cx FutureKind"

definition liftErrorContext :: "acst cx \<Rightarrow> nat \<Rightarrow> (acst, cval) m" where
  "liftErrorContext cx i =
     seqm (assertm (cx_inst cx \<noteq> None) ''error-context lift requires a component instance'')
     (bnd (handles (table_get (int i))) (\<lambda>entry.
      bnd (as_error_context ''error-context lift'' entry) (\<lambda>m.
      ret (VShared (2 * m + 1)))))"

definition lowerErrorContext :: "acst cx \<Rightarrow> cval \<Rightarrow> (acst, nat) m" where
  "lowerErrorContext cx v =
     seqm (assertm (cx_inst cx \<noteq> None) ''error-context lower requires a component instance'')
     (case v of
        VShared n \<Rightarrow> if odd n then handles (table_add (ErrorContextE (n div 2))) else throw (TypeError ''not an error context'')
      | _ \<Rightarrow> throw (TypeError ''not an error context''))"

text \<open>The context of the canonical ABI with these operations.\<close>

definition with_async :: "value_hooks \<Rightarrow> acst cx \<Rightarrow> acst cx" where
  "with_async hooks cx = cx\<lparr>cx_liftErrorContext := liftErrorContext cx, cx_liftStream := liftStream hooks cx,
     cx_liftFuture := liftFuture hooks cx, cx_lowerErrorContext := lowerErrorContext cx,
     cx_lowerStream := lowerStream hooks cx, cx_lowerFuture := lowerFuture hooks cx\<rparr>"

end
