(* ===== verification/Stream_Inv.thy ===== *)
theory Stream_Inv
  imports Async_Builtins Cabi_Frame
begin

text \<open>
  The protocol of streams and futures as an invariant of the heap. For every shared object:
  its slot is empty, or it is not dropped and the slot belongs to an end that is copying
  (or to the host); a pending event of an end fits the state of the end, and an event that
  will reclaim the slot when it is delivered is held by the owner of the slot. The built-ins
  keep the invariant whatever they return; when they succeed they also keep an end that
  waits from being forgotten (\<open>live\<close>).
\<close>

section \<open>The heap as pure updates\<close>

definition pend :: "'z heap_scheme \<Rightarrow> nat \<Rightarrow> pending_event option" where
  "pend w e = wt_pending (w_waitables w ! ce_wait (h_ends w ! e))"

definition arm :: "nat \<Rightarrow> pending_event option \<Rightarrow> 'z heap_scheme \<Rightarrow> 'z heap_scheme" where
  "arm k p w = w\<lparr>w_waitables := (w_waitables w)[k := (w_waitables w ! k)\<lparr>wt_pending := p\<rparr>]\<rparr>"

definition put_shared :: "nat \<Rightarrow> (shared \<Rightarrow> shared) \<Rightarrow> 'z heap_scheme \<Rightarrow> 'z heap_scheme" where
  "put_shared s f w = w\<lparr>h_shared := (h_shared w)[s := f (h_shared w ! s)]\<rparr>"

definition put_end :: "nat \<Rightarrow> (copy_end \<Rightarrow> copy_end) \<Rightarrow> 'z heap_scheme \<Rightarrow> 'z heap_scheme" where
  "put_end e f w = w\<lparr>h_ends := (h_ends w)[e := f (h_ends w ! e)]\<rparr>"

definition clear_slot :: "shared \<Rightarrow> shared" where
  "clear_slot sh = sh\<lparr>sh_inst := None, sh_buffer := None, sh_onCopy := None, sh_onDone := None\<rparr>"

definition fill_slot :: "holder \<Rightarrow> nat \<Rightarrow> copy_cb \<Rightarrow> shared \<Rightarrow> shared" where
  "fill_slot i b cb sh = sh\<lparr>sh_inst := Some i, sh_buffer := Some b, sh_onCopy := Some cb, sh_onDone := Some cb\<rparr>"

named_theorems heap_runs \<open>operations of the heap as pure updates\<close>

lemma heap_ops_run [heap_runs]:
  fixes w :: "'z heap_scheme"
  shows "shared_at s w = (Inr (h_shared w ! s), w)"
    "end_at e w = (Inr (h_ends w ! e), w)"
    "upd_shared s f w = (Inr (), put_shared s f w)"
    "upd_end e g w = (Inr (), put_end e g w)"
    "setPendingEvent k p w = (Inr (), arm k (Some p) w)"
    "resetPending s w = (Inr (), put_shared s clear_slot w)"
  by (simp_all add: shared_at_def end_at_def upd_shared_def upd_end_def setPendingEvent_run resetPending_def
      put_shared_def put_end_def arm_def clear_slot_def)

lemma setPending_run [heap_runs]:
  fixes w :: "'y world_scheme"
  shows "setPending s i b cb w = (Inr (), put_shared s (fill_slot i b cb) w)"
  by (simp add: setPending_def heap_runs fill_slot_def put_shared_def)

text \<open>What the updates leave alone.\<close>

lemma arm_sel [simp]:
  "h_ends (arm k p w) = h_ends w" "h_shared (arm k p w) = h_shared w" "h_bufs (arm k p w) = h_bufs w"
  "w_sets (arm k p w) = w_sets w" "length (w_waitables (arm k p w)) = length (w_waitables w)"
  by (simp_all add: arm_def)

lemma put_shared_sel [simp]:
  "h_ends (put_shared s f w) = h_ends w" "h_bufs (put_shared s f w) = h_bufs w"
  "w_waitables (put_shared s f w) = w_waitables w" "length (h_shared (put_shared s f w)) = length (h_shared w)"
  "w_sets (put_shared s f w) = w_sets w"
  by (simp_all add: put_shared_def)

lemma put_end_sel [simp]:
  "h_shared (put_end e f w) = h_shared w" "h_bufs (put_end e f w) = h_bufs w"
  "w_waitables (put_end e f w) = w_waitables w" "length (h_ends (put_end e f w)) = length (h_ends w)"
  "w_sets (put_end e f w) = w_sets w"
  by (simp_all add: put_end_def)

lemma insts_sel [simp]:
  fixes w :: "'y world_scheme"
  shows "w_insts (arm k p w) = w_insts w" "w_insts (put_shared s f w) = w_insts w" "w_insts (put_end e g w) = w_insts w"
  by (simp_all add: arm_def put_shared_def put_end_def)

lemma put_shared_nth [simp]:
  "s < length (h_shared w) \<Longrightarrow> h_shared (put_shared s f w) ! t = (if t = s then f (h_shared w ! s) else h_shared w ! t)"
  by (simp add: put_shared_def nth_list_update)

lemma put_end_nth [simp]:
  "e < length (h_ends w) \<Longrightarrow> h_ends (put_end e f w) ! d = (if d = e then f (h_ends w ! e) else h_ends w ! d)"
  by (simp add: put_end_def nth_list_update)

lemma pend_put_shared [simp]: "pend (put_shared s f w) e = pend w e"
  by (simp add: pend_def)

lemma pend_put_end [simp]:
  "ce_wait (f (h_ends w ! e)) = ce_wait (h_ends w ! e) \<Longrightarrow> pend (put_end e f w) d = pend w d"
  by (cases "d = e"; cases "e < length (h_ends w)") (simp_all add: pend_def put_end_def list_update_beyond not_less)

section \<open>The invariant\<close>

definition slot_is :: "shared \<Rightarrow> nat \<Rightarrow> copy_cb \<Rightarrow> bool" where
  "slot_is sh b cb \<longleftrightarrow> sh_inst sh \<noteq> None \<and> sh_buffer sh = Some b \<and> sh_onCopy sh = Some cb \<and> sh_onDone sh = Some cb"

definition slot_empty :: "shared \<Rightarrow> bool" where
  "slot_empty sh \<longleftrightarrow> sh_inst sh = None \<and> sh_buffer sh = None \<and> sh_onCopy sh = None \<and> sh_onDone sh = None"

fun cb_end :: "copy_cb \<Rightarrow> nat option" where
  "cb_end (StreamCb e b c) = Some e"
| "cb_end (FutureCb e b c r) = Some e"
| "cb_end (HostCb h) = None"

definition owns :: "shared \<Rightarrow> nat \<Rightarrow> bool" where
  "owns sh e \<longleftrightarrow> (\<exists>b cb. slot_is sh b cb \<and> cb_end cb = Some e)"

text \<open>The callbacks that an end makes for a buffer.\<close>

definition cb_for :: "copy_end \<Rightarrow> nat \<Rightarrow> nat \<Rightarrow> copy_cb" where
  "cb_for x e b = (case ce_kind x of StreamKind \<Rightarrow> StreamCb e b (ce_eventCode x)
     | FutureKind \<Rightarrow> FutureCb e b (ce_eventCode x) (ce_side x = Readable))"

lemma cb_end_for [simp]: "cb_end (cb_for x e b) = Some e"
  by (simp add: cb_for_def split: end_kind.split)

definition pend_ok :: "nat \<Rightarrow> shared \<Rightarrow> nat \<Rightarrow> copy_end \<Rightarrow> pending_event option \<Rightarrow> bool" where
  "pend_ok s sh e x p \<longleftrightarrow> (ce_state x = DONE \<longrightarrow> p = None) \<and>
     (case p of
        None \<Rightarrow> True
      | Some (StreamEvent e' b r rc c) \<Rightarrow> e' = e \<and> ce_kind x = StreamKind \<and> c = ce_eventCode x \<and> copying x \<and>
          (rc = NoReclaim \<and> \<not> owns sh e \<or>
           rc = ResetPending s \<and> r = COMPLETED \<and> (sh_dropped sh \<or> slot_is sh b (StreamCb e b c)))
      | Some (FutureEvent e' b r c) \<Rightarrow> e' = e \<and> ce_kind x = FutureKind \<and> c = ce_eventCode x \<and> copying x \<and> \<not> owns sh e
      | Some (AbandonEvent _) \<Rightarrow> ce_kind x = FutureKind \<and> ce_side x = Readable \<and> copying x \<and> \<not> owns sh e
      | Some (IdleDrop e' _) \<Rightarrow> e' = e \<and> sh_dropped sh
      | Some (SubtaskEvent _ _ _) \<Rightarrow> False)"

definition is_guest :: "'z heap_scheme \<Rightarrow> nat \<Rightarrow> bool" where
  "is_guest w b \<longleftrightarrow> b < length (h_bufs w) \<and> (\<exists>g. h_bufs w ! b = GuestBuf g)"

lemma is_guest_sel [simp]:
  "is_guest (arm k p w) b = is_guest w b" "is_guest (put_shared s f w) b = is_guest w b" "is_guest (put_end e g w) b = is_guest w b"
  by (simp_all add: is_guest_def)

definition slot_ok :: "'z heap_scheme \<Rightarrow> nat \<Rightarrow> bool" where
  "slot_ok w s \<longleftrightarrow> slot_empty (h_shared w ! s) \<or>
     (\<exists>b cb. slot_is (h_shared w ! s) b cb \<and> \<not> sh_dropped (h_shared w ! s) \<and>
        (\<forall>e. cb_end cb = Some e \<longrightarrow> e < length (h_ends w) \<and> ce_shared (h_ends w ! e) = s \<and>
           copying (h_ends w ! e) \<and> cb = cb_for (h_ends w ! e) e b \<and> is_guest w b))"

definition local_ok :: "'z heap_scheme \<Rightarrow> nat \<Rightarrow> bool" where
  "local_ok w s \<longleftrightarrow> slot_ok w s \<and>
     (\<forall>e < length (h_ends w). ce_shared (h_ends w ! e) = s \<longrightarrow> pend_ok s (h_shared w ! s) e (h_ends w ! e) (pend w e))"

definition end_of :: "shared \<Rightarrow> end_side \<Rightarrow> nat option" where
  "end_of sh side = (case side of Readable \<Rightarrow> sh_readable sh | Writable \<Rightarrow> sh_writable sh)"

text \<open>A shared object knows its ends, at most one of each side, and each end has a waitable of its own.\<close>

definition ends_ok :: "'z heap_scheme \<Rightarrow> bool" where
  "ends_ok w \<longleftrightarrow>
     (\<forall>e < length (h_ends w). ce_shared (h_ends w ! e) < length (h_shared w) \<and>
        ce_wait (h_ends w ! e) < length (w_waitables w) \<and>
        sh_kind (h_shared w ! ce_shared (h_ends w ! e)) = ce_kind (h_ends w ! e) \<and>
        end_of (h_shared w ! ce_shared (h_ends w ! e)) (ce_side (h_ends w ! e)) = Some e) \<and>
     (\<forall>s < length (h_shared w). \<forall>side e. end_of (h_shared w ! s) side = Some e \<longrightarrow>
        e < length (h_ends w) \<and> ce_shared (h_ends w ! e) = s \<and> ce_side (h_ends w ! e) = side) \<and>
     (\<forall>e < length (h_ends w). \<forall>d < length (h_ends w). ce_wait (h_ends w ! e) = ce_wait (h_ends w ! d) \<longrightarrow> e = d)"

definition bufs_ok :: "'z heap_scheme \<Rightarrow> bool" where
  "bufs_ok w \<longleftrightarrow> (\<forall>g. GuestBuf g \<in> set (h_bufs w) \<longrightarrow> gb_progress g \<le> gb_length g \<and> gb_length g \<le> BUFFER_MAX_LENGTH)"

text \<open>
  The entries of a table name what exists: ends of that kind and side, sets, subtasks. The
  waitable of a subtask is not that of an end.
\<close>

definition entry_ok :: "'z heap_scheme \<Rightarrow> cst \<Rightarrow> hentry \<Rightarrow> bool" where
  "entry_ok w c entry \<longleftrightarrow> (\<forall>e. entry_end entry = Some e \<longrightarrow>
       e < length (h_ends w) \<and> entry = end_entry (ce_kind (h_ends w ! e)) (ce_side (h_ends w ! e)) e) \<and>
     (\<forall>k. entry = WaitableSetE k \<longrightarrow> k < length (w_sets w)) \<and>
     (\<forall>j. entry = SubtaskE j \<longrightarrow> j < length (c_subtasks c))"

definition subtask_ok :: "'z heap_scheme \<Rightarrow> subtask \<Rightarrow> bool" where
  "subtask_ok w sb \<longleftrightarrow> sb_wait sb < length (w_waitables w) \<and> (\<forall>e < length (h_ends w). ce_wait (h_ends w ! e) \<noteq> sb_wait sb)"

definition inst_ok :: "'z heap_scheme \<Rightarrow> cst \<Rightarrow> bool" where
  "inst_ok w c \<longleftrightarrow> table_inv (c_handles c) \<and> (\<forall>i entry. table_entries (c_handles c) i = Some entry \<longrightarrow> entry_ok w c entry) \<and>
     (\<forall>sb \<in> set (c_subtasks c). subtask_ok w sb)"

definition tables_ok :: "'y world_scheme \<Rightarrow> bool" where
  "tables_ok w \<longleftrightarrow> (\<forall>c\<in>set (w_insts w). inst_ok w c)"

text \<open>A waitable of no end has no event, or that of a subtask.\<close>

definition stray_ok :: "'z heap_scheme \<Rightarrow> bool" where
  "stray_ok w \<longleftrightarrow> (\<forall>k < length (w_waitables w). (\<exists>e < length (h_ends w). ce_wait (h_ends w ! e) = k) \<or>
     (case wt_pending (w_waitables w ! k) of None \<Rightarrow> True | Some (SubtaskEvent _ _ _) \<Rightarrow> True | _ \<Rightarrow> False))"

text \<open>Waitables and sets agree, for some list of blocked waits.\<close>

definition waits_ok :: "'z heap_scheme \<Rightarrow> bool" where
  "waits_ok w \<longleftrightarrow> (\<exists>ws. winv w ws)"

lemma waits_okD: "waits_ok w \<Longrightarrow> (\<And>ws. winv w ws \<Longrightarrow> winv t ws) \<Longrightarrow> waits_ok t"
  by (auto simp: waits_ok_def)

lemma waits_ok_same:
  fixes w :: "'z heap_scheme" and t :: "'z heap_scheme"
  assumes "waits_ok w" "w_waitables t = w_waitables w" "w_sets t = w_sets w" shows "waits_ok t"
  using waits_okD [OF assms(1)] winv_same [of t w] assms(2,3) by blast

lemma waits_ok_arm [simp]: "waits_ok w \<Longrightarrow> waits_ok (arm k p w)"
  by (erule waits_okD) (simp add: arm_def winv_upd_waitable)

lemma waits_ok_put [simp]: "waits_ok (put_shared s f w) = waits_ok w" "waits_ok (put_end e g w) = waits_ok w"
  by (auto elim!: waits_ok_same)

definition sinv :: "'y world_scheme \<Rightarrow> bool" where
  "sinv w \<longleftrightarrow> ends_ok w \<and> bufs_ok w \<and> tables_ok w \<and> waits_ok w \<and> stray_ok w \<and> (\<forall>s < length (h_shared w). local_ok w s)"

text \<open>An end that is copying and has no event waits in the slot, unless the peer is gone.\<close>

definition live :: "'z heap_scheme \<Rightarrow> bool" where
  "live w \<longleftrightarrow> (\<forall>e < length (h_ends w). copying (h_ends w ! e) \<and> pend w e = None \<longrightarrow>
     sh_dropped (h_shared w ! ce_shared (h_ends w ! e)) \<or> owns (h_shared w ! ce_shared (h_ends w ! e)) e)"

lemma sinvD:
  assumes "sinv w"
  shows "ends_ok w" "bufs_ok w" "tables_ok w" "s < length (h_shared w) \<Longrightarrow> local_ok w s" "waits_ok w" "stray_ok w"
  using assms by (simp_all add: sinv_def)

lemma ends_okD:
  assumes "ends_ok w"
  shows "e < length (h_ends w) \<Longrightarrow> ce_shared (h_ends w ! e) < length (h_shared w)"
    "e < length (h_ends w) \<Longrightarrow> ce_wait (h_ends w ! e) < length (w_waitables w)"
    "e < length (h_ends w) \<Longrightarrow> sh_kind (h_shared w ! ce_shared (h_ends w ! e)) = ce_kind (h_ends w ! e)"
    "e < length (h_ends w) \<Longrightarrow> end_of (h_shared w ! ce_shared (h_ends w ! e)) (ce_side (h_ends w ! e)) = Some e"
    "s < length (h_shared w) \<Longrightarrow> end_of (h_shared w ! s) side = Some e \<Longrightarrow>
       e < length (h_ends w) \<and> ce_shared (h_ends w ! e) = s \<and> ce_side (h_ends w ! e) = side"
    "e < length (h_ends w) \<Longrightarrow> d < length (h_ends w) \<Longrightarrow> ce_wait (h_ends w ! e) = ce_wait (h_ends w ! d) \<Longrightarrow> e = d"
  using assms unfolding ends_ok_def by blast+

lemma pend_arm:
  assumes "ends_ok w" "e < length (h_ends w)" "d < length (h_ends w)"
  shows "pend (arm (ce_wait (h_ends w ! e)) p w) d = (if d = e then p else pend w d)"
  using ends_okD(2) [OF assms(1,2)] ends_okD(6) [OF assms]
  by (auto simp: pend_def arm_def nth_list_update)

lemma slot_is_empty [simp]: "slot_empty sh \<Longrightarrow> \<not> slot_is sh b cb" "slot_empty sh \<Longrightarrow> \<not> owns sh e"
  by (simp_all add: slot_is_def slot_empty_def owns_def)

lemma slot_is_unique: "slot_is sh b cb \<Longrightarrow> slot_is sh b' cb' \<Longrightarrow> b' = b \<and> cb' = cb"
  by (simp add: slot_is_def)

lemma slot_sel [simp]:
  "slot_empty (clear_slot sh)" "slot_is (fill_slot i b cb sh) b' cb' \<longleftrightarrow> b' = b \<and> cb' = cb"
  "\<not> slot_empty (fill_slot i b cb sh)" "sh_dropped (clear_slot sh) = sh_dropped sh" "sh_dropped (fill_slot i b cb sh) = sh_dropped sh"
  "sh_kind (clear_slot sh) = sh_kind sh" "sh_kind (fill_slot i b cb sh) = sh_kind sh"
  "end_of (clear_slot sh) side = end_of sh side" "end_of (fill_slot i b cb sh) side = end_of sh side"
  "owns (fill_slot i b cb sh) e \<longleftrightarrow> cb_end cb = Some e"
  by (auto simp: slot_empty_def slot_is_def clear_slot_def fill_slot_def end_of_def owns_def split: end_side.split)

section \<open>Updates at one shared object\<close>

text \<open>\<open>at s w w'\<close>: \<open>w'\<close> differs from \<open>w\<close> only in the shared object \<open>s\<close>, the states of its ends
  and the events of their waitables.\<close>

definition at :: "nat \<Rightarrow> 'y world_scheme \<Rightarrow> 'y world_scheme \<Rightarrow> bool" where
  "at s w w' \<longleftrightarrow>
     length (h_ends w') = length (h_ends w) \<and> length (h_shared w') = length (h_shared w) \<and>
     length (w_waitables w') = length (w_waitables w) \<and> h_bufs w' = h_bufs w \<and> w_insts w' = w_insts w \<and>
     length (w_sets w') = length (w_sets w) \<and> (waits_ok w \<longrightarrow> waits_ok w') \<and> (stray_ok w \<longrightarrow> stray_ok w') \<and>
     (\<forall>e < length (h_ends w). ce_wait (h_ends w' ! e) = ce_wait (h_ends w ! e) \<and>
        ce_kind (h_ends w' ! e) = ce_kind (h_ends w ! e) \<and> ce_side (h_ends w' ! e) = ce_side (h_ends w ! e) \<and>
        ce_shared (h_ends w' ! e) = ce_shared (h_ends w ! e)) \<and>
     (\<forall>t < length (h_shared w). sh_kind (h_shared w' ! t) = sh_kind (h_shared w ! t) \<and>
        (\<forall>side. end_of (h_shared w' ! t) side = end_of (h_shared w ! t) side)) \<and>
     (\<forall>t < length (h_shared w). t \<noteq> s \<longrightarrow> h_shared w' ! t = h_shared w ! t) \<and>
     (\<forall>e < length (h_ends w). ce_shared (h_ends w ! e) \<noteq> s \<longrightarrow> h_ends w' ! e = h_ends w ! e \<and> pend w' e = pend w e)"

lemma at_refl [simp]: "at s w w"
  by (simp add: at_def)

lemma at_ends_ok: "at s w w' \<Longrightarrow> ends_ok w \<Longrightarrow> ends_ok w'"
  unfolding at_def ends_ok_def by (elim conjE) simp

lemma at_tables_ok: "at s w w' \<Longrightarrow> tables_ok w \<Longrightarrow> tables_ok w'"
  unfolding tables_ok_def inst_ok_def entry_ok_def subtask_ok_def at_def by simp

lemma at_trans: "at s w u \<Longrightarrow> at s u v \<Longrightarrow> at s w v"
  unfolding at_def by (elim conjE) simp

lemma at_arm:
  assumes "at s w u" "ends_ok w" "e < length (h_ends w)" "ce_shared (h_ends w ! e) = s" "k = ce_wait (h_ends w ! e)"
  shows "at s w (arm k p u)"
proof -
  have u: "ends_ok u" by (rule at_ends_ok [OF assms(1,2)])
  have e: "e < length (h_ends u)" "ce_wait (h_ends u ! e) = k" using assms(1,3,5) by (simp_all add: at_def)
  have "pend (arm k p u) d = pend u d" if "d < length (h_ends w)" "ce_shared (h_ends w ! d) \<noteq> s" for d
    using pend_arm [OF u e(1), of d p] that assms(1,4) e(2) by (auto simp: at_def)
  moreover have "stray_ok (arm k p u)" if "stray_ok u"
    unfolding stray_ok_def
  proof (intro allI impI)
    fix j assume "j < length (w_waitables (arm k p u))"
    then show "(\<exists>e < length (h_ends (arm k p u)). ce_wait (h_ends (arm k p u) ! e) = j) \<or>
        (case wt_pending (w_waitables (arm k p u) ! j) of None \<Rightarrow> True | Some (SubtaskEvent _ _ _) \<Rightarrow> True | _ \<Rightarrow> False)"
      using that e by (cases "j = k") (auto simp: stray_ok_def arm_def)
  qed
  ultimately show ?thesis using assms(1) by (simp add: at_def)
qed

lemma at_put_shared:
  assumes "at s w u" "s < length (h_shared w)" "\<And>sh. sh_kind (f sh) = sh_kind sh" "\<And>sh side. end_of (f sh) side = end_of sh side"
  shows "at s w (put_shared s f u)"
proof -
  have "stray_ok (put_shared s f u) = stray_ok u" by (simp add: stray_ok_def)
  then show ?thesis using assms by (simp add: at_def)
qed

lemma at_put_end:
  assumes "at s w u" "e < length (h_ends w)" "ce_shared (h_ends w ! e) = s"
    "\<And>x. ce_wait (f x) = ce_wait x \<and> ce_kind (f x) = ce_kind x \<and> ce_side (f x) = ce_side x \<and> ce_shared (f x) = ce_shared x"
  shows "at s w (put_end e f u)"
proof -
  have "ce_wait (h_ends (put_end e f u) ! d) = ce_wait (h_ends u ! d)" if "d < length (h_ends u)" for d
    using that assms(4) by (cases "d = e") (simp_all add: put_end_def)
  then have "stray_ok (put_end e f u) = stray_ok u"
    unfolding stray_ok_def put_end_sel by (metis (no_types, lifting))
  then show ?thesis using assms by (auto simp: at_def)
qed

lemma sinv_at:
  assumes "sinv w" "at s w w'" "s < length (h_shared w)" "local_ok w' s"
  shows "sinv w'"
proof -
  have "local_ok w' t" if t: "t < length (h_shared w')" for t
  proof (cases "t = s")
    case False
    have t': "t < length (h_shared w)" using t assms(2) by (simp add: at_def)
    have same: "h_shared w' ! t = h_shared w ! t" "length (h_ends w') = length (h_ends w)" "is_guest w' b = is_guest w b" for b
      using assms(2) t' False by (simp_all add: at_def is_guest_def)
    have ends: "h_ends w' ! e = h_ends w ! e \<and> pend w' e = pend w e"
      if "e < length (h_ends w)" "ce_shared (h_ends w ! e) = t" for e
      using assms(2) that False by (simp add: at_def)
    have ends': "ce_shared (h_ends w' ! e) = ce_shared (h_ends w ! e)" if "e < length (h_ends w)" for e
      using assms(2) that by (simp add: at_def)
    have "local_ok w t" using assms(1) t' by (simp add: sinv_def)
    then show ?thesis
      unfolding local_ok_def slot_ok_def same using ends ends' by (metis (no_types, lifting))
  qed (use assms(4) in simp)
  moreover have "bufs_ok w'" "waits_ok w'" "stray_ok w'" using assms(1,2) by (simp_all add: sinv_def bufs_ok_def at_def)
  ultimately show ?thesis using assms(1,2) at_ends_ok at_tables_ok unfolding sinv_def by blast
qed

lemma local_okD:
  assumes "local_ok w s"
  shows "slot_ok w s"
    "e < length (h_ends w) \<Longrightarrow> ce_shared (h_ends w ! e) = s \<Longrightarrow> pend_ok s (h_shared w ! s) e (h_ends w ! e) (pend w e)"
  using assms by (simp_all add: local_ok_def)

lemma sinv_pend:
  assumes "sinv w" "e < length (h_ends w)"
  shows "pend_ok (ce_shared (h_ends w ! e)) (h_shared w ! ce_shared (h_ends w ! e)) e (h_ends w ! e) (pend w e)"
  using assms ends_okD(1) [OF sinvD(1) [OF assms(1)] assms(2)] local_okD(2) [OF sinvD(4)] by blast

lemma sinv_slot: "sinv w \<Longrightarrow> s < length (h_shared w) \<Longrightarrow> slot_ok w s"
  using local_okD(1) [OF sinvD(4)] by blast

text \<open>An event is armed, or taken.\<close>

lemma sinv_arm:
  assumes w: "sinv w" and e: "e < length (h_ends w)"
    and p: "pend_ok (ce_shared (h_ends w ! e)) (h_shared w ! ce_shared (h_ends w ! e)) e (h_ends w ! e) p"
  shows "sinv (arm (ce_wait (h_ends w ! e)) p w)"
proof (rule sinv_at [OF w])
  let ?s = "ce_shared (h_ends w ! e)"
  show s: "?s < length (h_shared w)" by (rule ends_okD(1) [OF sinvD(1) [OF w] e])
  show "at ?s w (arm (ce_wait (h_ends w ! e)) p w)" using e by (intro at_arm [OF at_refl sinvD(1) [OF w]]) simp_all
  show "local_ok (arm (ce_wait (h_ends w ! e)) p w) ?s"
    using sinvD(4) [OF w s] p pend_arm [OF sinvD(1) [OF w] e, of _ p]
    by (simp add: local_ok_def slot_ok_def)
qed

lemma sinv_take:
  assumes "sinv w" "e < length (h_ends w)"
  shows "sinv (arm (ce_wait (h_ends w ! e)) None w)"
  by (rule sinv_arm [OF assms]) (simp add: pend_ok_def)

text \<open>The slot is filled.\<close>

lemma sinv_fill:
  assumes w: "sinv w" and s: "s < length (h_shared w)" and empty: "slot_empty (h_shared w ! s)"
    and nd: "\<not> sh_dropped (h_shared w ! s)"
    and cb: "\<And>e. cb_end cb = Some e \<Longrightarrow> e < length (h_ends w) \<and> ce_shared (h_ends w ! e) = s \<and>
       copying (h_ends w ! e) \<and> cb = cb_for (h_ends w ! e) e b \<and> is_guest w b \<and> pend w e = None"
  shows "sinv (put_shared s (fill_slot i b cb) w)"
proof (rule sinv_at [OF w _ s])
  let ?v = "put_shared s (fill_slot i b cb) w"
  show "at s w ?v" using s by (intro at_put_shared) simp_all
  have "pend_ok s (h_shared ?v ! s) e (h_ends ?v ! e) (pend ?v e)"
    if "e < length (h_ends ?v)" "ce_shared (h_ends ?v ! e) = s" for e
    using local_okD(2) [OF sinvD(4) [OF w s], of e] that s empty nd cb [of e]
    by (auto simp: pend_ok_def split: option.splits pending_event.splits)
  then show "local_ok ?v s" using s nd cb by (auto simp: local_ok_def slot_ok_def)
qed

text \<open>The slot is cleared; its owner, if it is an end, gets an event.\<close>

lemma sinv_settle:
  assumes w: "sinv w" and s: "s < length (h_shared w)" and slot: "slot_is (h_shared w ! s) b cb"
    and e: "cb_end cb = Some e" and p: "pend_ok s (clear_slot (h_shared w ! s)) e (h_ends w ! e) p"
  shows "sinv (arm (ce_wait (h_ends w ! e)) p (put_shared s clear_slot w))"
proof (rule sinv_at [OF w _ s])
  let ?u = "put_shared s clear_slot w"
  let ?v = "arm (ce_wait (h_ends w ! e)) p ?u"
  have own: "e < length (h_ends w)" "ce_shared (h_ends w ! e) = s" "\<not> sh_dropped (h_shared w ! s)"
    using sinv_slot [OF w s] slot e slot_is_unique [OF slot] slot_is_empty(1)
    unfolding slot_ok_def by blast+
  have u: "at s w ?u" using s by (intro at_put_shared) simp_all
  show "at s w ?v" using own by (intro at_arm [OF u sinvD(1) [OF w]]) simp_all
  have pv: "pend ?v d = (if d = e then p else pend w d)" if "d < length (h_ends w)" for d
    using pend_arm [OF at_ends_ok [OF u sinvD(1) [OF w]], of e d p] own that by simp
  have "pend_ok s (h_shared ?v ! s) d (h_ends ?v ! d) (pend ?v d)"
    if d: "d < length (h_ends ?v)" "ce_shared (h_ends ?v ! d) = s" for d
  proof (cases "d = e")
    case True
    then show ?thesis using p own(1) s by (simp add: pv)
  next
    case False
    have "\<not> slot_is (h_shared w ! s) b' (StreamCb d b' c)" for b' c
      using slot_is_unique [OF slot] e False by (metis cb_end.simps(1) option.inject)
    with False show ?thesis
      using local_okD(2) [OF sinvD(4) [OF w s], of d] d own s
      by (auto simp: pend_ok_def pv split: option.splits pending_event.splits)
  qed
  then show "local_ok ?v s" using s by (simp add: local_ok_def slot_ok_def)
qed

lemma sinv_clear:
  assumes w: "sinv w" and s: "s < length (h_shared w)"
    and free: "\<And>e b cb. slot_is (h_shared w ! s) b cb \<Longrightarrow> cb_end cb = Some e \<Longrightarrow> pend w e = None"
  shows "sinv (put_shared s clear_slot w)"
proof (rule sinv_at [OF w _ s])
  let ?v = "put_shared s clear_slot w"
  show "at s w ?v" using s by (intro at_put_shared) simp_all
  have "pend_ok s (h_shared ?v ! s) e (h_ends ?v ! e) (pend ?v e)"
    if "e < length (h_ends ?v)" "ce_shared (h_ends ?v ! e) = s" for e
    using local_okD(2) [OF sinvD(4) [OF w s], of e] that s free
    by (fastforce simp: pend_ok_def split: option.splits pending_event.splits)
  then show "local_ok ?v s" using s by (simp add: local_ok_def slot_ok_def)
qed

text \<open>The shared object is dropped, with what is parked in it.\<close>

definition drop_shared :: "shared \<Rightarrow> shared" where
  "drop_shared sh = (clear_slot sh)\<lparr>sh_dropped := True\<rparr>"

lemma drop_shared_sel [simp]:
  "slot_empty (drop_shared sh)" "sh_dropped (drop_shared sh)" "sh_kind (drop_shared sh) = sh_kind sh"
  "end_of (drop_shared sh) side = end_of sh side"
  by (simp_all add: drop_shared_def clear_slot_def slot_empty_def end_of_def split: end_side.split)

lemma sinv_drop:
  assumes w: "sinv w" and s: "s < length (h_shared w)"
  shows "sinv (put_shared s drop_shared w)"
proof (rule sinv_at [OF w _ s])
  let ?v = "put_shared s drop_shared w"
  show "at s w ?v" using s by (intro at_put_shared) simp_all
  have "pend_ok s (h_shared ?v ! s) e (h_ends ?v ! e) (pend ?v e)"
    if "e < length (h_ends ?v)" "ce_shared (h_ends ?v ! e) = s" for e
    using local_okD(2) [OF sinvD(4) [OF w s], of e] that s
    by (auto simp: pend_ok_def split: option.splits pending_event.splits)
  then show "local_ok ?v s" using s by (simp add: local_ok_def slot_ok_def)
qed

text \<open>Fields of a shared object that the protocol does not read.\<close>

definition neutral :: "(shared \<Rightarrow> shared) \<Rightarrow> bool" where
  "neutral f \<longleftrightarrow> (\<forall>sh. sh_kind (f sh) = sh_kind sh \<and> (\<forall>side. end_of (f sh) side = end_of sh side) \<and>
     sh_dropped (f sh) = sh_dropped sh \<and> slot_empty (f sh) = slot_empty sh \<and>
     (\<forall>b cb. slot_is (f sh) b cb = slot_is sh b cb))"

lemma neutral_fields [simp]:
  "neutral (\<lambda>sh. sh\<lparr>sh_observers := o1 sh\<rparr>)" "neutral (\<lambda>sh. sh\<lparr>sh_abandon := o2 sh\<rparr>)" "neutral (\<lambda>sh. sh\<lparr>sh_store := o3 sh\<rparr>)"
  by (simp_all add: neutral_def end_of_def slot_empty_def slot_is_def split: end_side.split)

lemma sinv_neutral:
  assumes w: "sinv w" and s: "s < length (h_shared w)" and f: "neutral f"
  shows "sinv (put_shared s f w)"
proof (rule sinv_at [OF w _ s])
  let ?v = "put_shared s f w"
  show "at s w ?v" using s f by (intro at_put_shared) (simp_all add: neutral_def)
  have o: "owns (f sh) e = owns sh e" for sh e using f by (simp add: neutral_def owns_def)
  show "local_ok ?v s" using sinvD(4) [OF w s] s f
    by (simp add: local_ok_def slot_ok_def neutral_def pend_ok_def o cong: option.case_cong pending_event.case_cong)
qed

text \<open>The state of an end changes, or the fields that the protocol does not read.\<close>

lemma sinv_put_end:
  assumes w: "sinv w" and e: "e < length (h_ends w)"
    and f: "\<And>x. ce_wait (f x) = ce_wait x \<and> ce_kind (f x) = ce_kind x \<and> ce_side (f x) = ce_side x \<and> ce_shared (f x) = ce_shared x"
    and p: "pend_ok (ce_shared (h_ends w ! e)) (h_shared w ! ce_shared (h_ends w ! e)) e (f (h_ends w ! e)) (pend w e)"
    and own: "owns (h_shared w ! ce_shared (h_ends w ! e)) e \<Longrightarrow> copying (f (h_ends w ! e))"
  shows "sinv (put_end e f w)"
proof -
  let ?s = "ce_shared (h_ends w ! e)"
  let ?v = "put_end e f w"
  have s: "?s < length (h_shared w)" by (rule ends_okD(1) [OF sinvD(1) [OF w] e])
  have c: "cb_for (f x) e b = cb_for x e b" for x b
    using f [of x] by (simp add: cb_for_def ce_eventCode_def split: end_kind.split)
  show ?thesis
  proof (rule sinv_at [OF w _ s])
    show "at ?s w ?v" using e f by (intro at_put_end) simp_all
    have "slot_ok ?v ?s"
      using sinv_slot [OF w s] e own c f unfolding slot_ok_def owns_def
      by (auto simp: ) (metis (no_types, opaque_lifting))
    moreover have "pend_ok ?s (h_shared ?v ! ?s) d (h_ends ?v ! d) (pend ?v d)"
      if "d < length (h_ends ?v)" "ce_shared (h_ends ?v ! d) = ?s" for d
      using local_okD(2) [OF sinvD(4) [OF w s], of d] that e f p by (simp split: if_splits)
    ultimately show "local_ok ?v ?s" by (simp add: local_ok_def)
  qed
qed

end
