(* ===== verification/Stream_Steps.thy ===== *)
theory Stream_Steps
  imports Stream_Inv
begin

text \<open>
  The operations of streams and futures keep the invariant. The host's callbacks and the
  element copies may change buffers and instances but not the protocol state
  (\<open>cframe\<close>, \<open>env_ok\<close>).
\<close>

section \<open>Buffers and host code\<close>

definition cframe :: "'y world_scheme \<Rightarrow> 'y world_scheme \<Rightarrow> bool" where
  "cframe w w' \<longleftrightarrow> w_waitables w' = w_waitables w \<and> w_sets w' = w_sets w \<and> h_ends w' = h_ends w \<and> h_shared w' = h_shared w \<and>
     (\<forall>b. is_guest w b \<longrightarrow> is_guest w' b) \<and> (bufs_ok w \<longrightarrow> bufs_ok w') \<and> (tables_ok w \<longrightarrow> tables_ok w')"

lemma cframe_refl [simp]: "cframe w w"
  by (simp add: cframe_def)

lemma cframe_trans: "cframe u v \<Longrightarrow> cframe v w \<Longrightarrow> cframe u w"
  by (simp add: cframe_def)

lemma cframe_order: "reflp cframe" "transp cframe"
  by (auto intro!: reflpI transpI elim: cframe_trans)

lemma cframe_sel:
  assumes "cframe w w'"
  shows "w_waitables w' = w_waitables w" "h_ends w' = h_ends w" "h_shared w' = h_shared w" "pend w' e = pend w e"
  using assms by (simp_all add: cframe_def pend_def)

lemma sinv_cframe:
  assumes c: "cframe w w'" and w: "sinv w" shows "sinv w'"
proof -
  note S = cframe_sel [OF c]
  have guest: "is_guest w b \<Longrightarrow> is_guest w' b" for b using c by (simp add: cframe_def)
  have "slot_ok w' s" if "slot_ok w s" for s
    using that guest unfolding slot_ok_def S by blast
  then have "local_ok w' s" if "local_ok w s" for s
    using that by (simp add: local_ok_def S)
  moreover have "ends_ok w' = ends_ok w" "stray_ok w' = stray_ok w" unfolding ends_ok_def stray_ok_def S by simp_all
  ultimately show ?thesis
    using w c waits_ok_same [of w w'] unfolding sinv_def by (simp add: cframe_def)
qed

lemma live_cframe: "cframe w w' \<Longrightarrow> live w \<Longrightarrow> live w'"
  by (simp add: live_def cframe_def pend_def)

text \<open>Element copies: on success only buffers and instances changed.\<close>

definition moves :: "('y, 'a) sm \<Rightarrow> bool" where
  "moves a \<longleftrightarrow> (\<forall>w. sinv w \<longrightarrow> (case a w of (Inr x, t) \<Rightarrow> cframe w t | (Inl e, t) \<Rightarrow> sinv t))"

named_theorems moving \<open>operations that leave the protocol state alone\<close>

lemma movesD:
  "moves a \<Longrightarrow> sinv w \<Longrightarrow> a w = (Inr x, t) \<Longrightarrow> cframe w t"
  "moves a \<Longrightarrow> sinv w \<Longrightarrow> a w = (Inl e, t) \<Longrightarrow> sinv t"
  by (fastforce simp: moves_def)+

lemma movesI:
  "(\<And>w x t. sinv w \<Longrightarrow> a w = (Inr x, t) \<Longrightarrow> cframe w t) \<Longrightarrow> (\<And>w e t. sinv w \<Longrightarrow> a w = (Inl e, t) \<Longrightarrow> sinv t) \<Longrightarrow> moves a"
  by (auto simp: moves_def split: prod.splits sum.splits)

lemma moves_bnd [moving]:
  fixes a :: "('y, 'a) sm"
  assumes "moves a" "\<And>x. moves (f x)"
  shows "moves (bnd a f)"
  unfolding moves_def
proof (intro allI impI)
  fix w :: "'y world_scheme" assume w: "sinv w"
  obtain q u where a: "a w = (q, u)" by fastforce
  show "case bnd a f w of (Inr x, t) \<Rightarrow> cframe w t | (Inl e, t) \<Rightarrow> sinv t"
  proof (cases q)
    case (Inl e)
    with movesD(2) [OF assms(1) w] a show ?thesis by (simp add: bnd_run)
  next
    case (Inr x)
    with movesD(1) [OF assms(1) w] a have u: "cframe w u" by simp
    obtain q' v where f: "f x u = (q', v)" by fastforce
    show ?thesis
    proof (cases q')
      case (Inl e)
      with movesD(2) [OF assms(2) sinv_cframe [OF u w]] f show ?thesis by (simp add: bnd_run a Inr)
    next
      case (Inr y)
      with movesD(1) [OF assms(2) sinv_cframe [OF u w]] f have "cframe u v" by blast
      with cframe_trans [OF u] f Inr show ?thesis by (simp add: bnd_run a \<open>q = Inr x\<close>)
    qed
  qed
qed

lemma moves_seqm [moving]: "moves a \<Longrightarrow> moves b \<Longrightarrow> moves (seqm a b)"
  by (simp add: seqm_def moves_bnd)

lemma moves_keeps: "keeps cframe a \<Longrightarrow> moves a"
  by (rule movesI) (auto dest: keepsD intro: sinv_cframe)

lemma keeps_case [moving]:
  "(c \<Longrightarrow> keeps R a) \<Longrightarrow> (\<not> c \<Longrightarrow> keeps R b) \<Longrightarrow> keeps R (if c then a else b)"
  by simp

lemmas keeps_moving [moving] =
  keeps_bnd [OF cframe_order(2)] keeps_seqm [OF cframe_order(2)] keeps_ret [OF cframe_order(1)]
  keeps_throw [OF cframe_order(1)] keeps_gets [OF cframe_order(1)] keeps_of_res [OF cframe_order(1)]
  keeps_trapIf [OF cframe_order(1)] keeps_assertm [OF cframe_order(1)]

lemma keeps_catching [moving]:
  "keeps cframe a \<Longrightarrow> (\<And>e. keeps cframe (h e)) \<Longrightarrow> keeps cframe (catching a h)"
  by (rule keepsI) (auto simp: catching_def split: prod.splits sum.splits, (meson keepsD cframe_trans)+)

lemma keeps_ensuring [moving]:
  "keeps cframe a \<Longrightarrow> keeps cframe c \<Longrightarrow> keeps cframe (ensuring a c)"
  by (rule keepsI) (auto simp: ensuring_def split: prod.splits sum.splits, (meson keepsD cframe_trans)+)

lemma keeps_iterm [moving]: "(\<And>x. keeps cframe (f x)) \<Longrightarrow> keeps cframe (iterm f xs)"
  by (induction xs) (simp_all del: ret_run add: keeps_moving)

lemma bufs_ok_put:
  assumes "bufs_ok w" "\<And>g. b = GuestBuf g \<Longrightarrow> k < length (h_bufs w) \<Longrightarrow> gb_progress g \<le> gb_length g \<and> gb_length g \<le> BUFFER_MAX_LENGTH"
  shows "bufs_ok (w\<lparr>h_bufs := (h_bufs w)[k := b]\<rparr>)"
proof (cases "k < length (h_bufs w)")
  case True
  then show ?thesis using assms set_update_subset_insert [of "h_bufs w" k b] by (auto simp: bufs_ok_def)
qed (use assms in \<open>simp add: list_update_beyond\<close>)

lemma cframe_put_buf:
  assumes "\<And>g. b = GuestBuf g \<Longrightarrow> bufs_ok w \<Longrightarrow> k < length (h_bufs w) \<Longrightarrow> gb_progress g \<le> gb_length g \<and> gb_length g \<le> BUFFER_MAX_LENGTH"
    and "is_guest w k \<Longrightarrow> \<exists>g. b = GuestBuf g"
  shows "cframe w (w\<lparr>h_bufs := (h_bufs w)[k := b]\<rparr>)"
proof -
  have "is_guest (w\<lparr>h_bufs := (h_bufs w)[k := b]\<rparr>) j" if "is_guest w j" for j
    using that assms(2) by (cases "j = k") (auto simp: is_guest_def)
  then show ?thesis using bufs_ok_put [of w b k] assms(1) by (simp add: cframe_def tables_ok_def inst_ok_def entry_ok_def subtask_ok_def)
qed

lemma upd_buf_run: "upd_buf k b w = (Inr (), w\<lparr>h_bufs := (h_bufs w)[k := b]\<rparr>)"
  by (simp add: upd_buf_def)

lemma cframe_upd_host:
  "h_bufs w ! k = HostBuf h \<Longrightarrow> cframe w (w\<lparr>h_bufs := (h_bufs w)[k := HostBuf h']\<rparr>)"
  "h_bufs w ! k = DirectBuf d \<Longrightarrow> cframe w (w\<lparr>h_bufs := (h_bufs w)[k := DirectBuf d']\<rparr>)"
  by (auto intro!: cframe_put_buf simp: is_guest_def)

lemma guest_bound:
  assumes "bufs_ok w" "k < length (h_bufs w)" "h_bufs w ! k = GuestBuf g"
  shows "gb_progress g \<le> gb_length g" "gb_length g \<le> BUFFER_MAX_LENGTH"
  using assms nth_mem [of k "h_bufs w"] by (auto simp: bufs_ok_def)

lemma guest_advance:
  assumes "sinv w" "h_bufs w ! k = GuestBuf g" "n \<le> gb_remain g" "cframe w v"
    "gb_progress g' = gb_progress g + n" "gb_length g' = gb_length g" "length (h_bufs v) = length (h_bufs w)"
  shows "cframe w (v\<lparr>h_bufs := (h_bufs v)[k := GuestBuf g']\<rparr>)"
proof (rule cframe_trans [OF assms(4) cframe_put_buf])
  fix g0 assume "GuestBuf g' = GuestBuf g0" "k < length (h_bufs v)"
  then show "gb_progress g0 \<le> gb_length g0 \<and> gb_length g0 \<le> BUFFER_MAX_LENGTH"
    using guest_bound [OF sinvD(2) [OF assms(1)] _ assms(2)] assms(3,5,6,7) by (auto simp: gb_remain_def)
qed simp

section \<open>Moving elements\<close>

definition load_moves :: "'y env \<Rightarrow> bool" where
  "load_moves env \<longleftrightarrow> (\<forall>k o' p n u (w :: 'y world_scheme). sinv w \<longrightarrow>
     wp (at_inst k (loadListFromValidRange (load (env_cx env o' k)) (env_cx env o' k) p n u))
       (\<lambda>_ t. cframe w t \<and> h_bufs t = h_bufs w) sinv w)"

definition store_moves :: "'y env \<Rightarrow> bool" where
  "store_moves env \<longleftrightarrow> (\<forall>k o' v p u (w :: 'y world_scheme). sinv w \<longrightarrow>
     wp (at_inst k (storeListIntoValidRange (store (env_cx env o' k)) (env_cx env o' k) v p u))
       (\<lambda>_ t. cframe w t \<and> h_bufs t = h_bufs w) sinv w)"

definition env_ok :: "'y env \<Rightarrow> bool" where
  "env_ok env \<longleftrightarrow> load_moves env \<and> store_moves env \<and>
     (\<forall>h r. keeps cframe (env_host_done env h r)) \<and>
     (\<forall>h s w. cframe w (snd (env_host_copy env h (ResetPending s) w)) \<or>
        cframe (put_shared s clear_slot w) (snd (env_host_copy env h (ResetPending s) w))) \<and>
     (\<forall>f. keeps cframe (env_observe env f)) \<and>
     (\<forall>i p n. keeps cframe (env_direct env i p n))"

lemma env_okD:
  assumes "env_ok env"
  shows "keeps cframe (env_host_done env h r)" "keeps cframe (env_observe env f)" "keeps cframe (env_direct env i p n)"
    "cframe w (snd (env_host_copy env h (ResetPending s) w)) \<or>
     cframe (put_shared s clear_slot w) (snd (env_host_copy env h (ResetPending s) w))"
    "load_moves env" "store_moves env"
  using assms by (simp_all add: env_ok_def)

lemma wp_ptrType [wps]: "wp (gb_ptrType env b) Q E w =
    (case cx_memory (env_cx env (gb_opts b) (gb_inst b)) of None \<Rightarrow> E w | Some pt \<Rightarrow> Q pt w)"
  by (simp add: gb_ptrType_def wps split: option.split)

lemma wp_buf_at [wps]: "wp (buf_at k) Q E w = Q (h_bufs w ! k) w"
  by (simp add: buf_at_def wps)

lemma wp_upd_buf [wps]: "wp (upd_buf k b) Q E w = Q () (w\<lparr>h_bufs := (h_bufs w)[k := b]\<rparr>)"
  by (simp add: upd_buf_def wps)

lemma moves_wp: "moves a \<longleftrightarrow> (\<forall>w. sinv w \<longrightarrow> wp a (\<lambda>_ t. cframe w t) sinv w)"
  by (simp add: moves_def wp_def)

lemma wp_moves:
  "moves a \<Longrightarrow> sinv w \<Longrightarrow> (\<And>x t. cframe w t \<Longrightarrow> Q x t) \<Longrightarrow> (\<And>t. sinv t \<Longrightarrow> E t) \<Longrightarrow> wp a Q E w"
  by (rule wp_mono [of a "\<lambda>_ t. cframe w t" sinv]) (simp_all add: moves_wp)

lemma load_moves_wp:
  fixes env :: "'y env" and w :: "'y world_scheme"
  assumes "load_moves env" "sinv w" "\<And>x t. cframe w t \<Longrightarrow> h_bufs t = h_bufs w \<Longrightarrow> Q x t" "\<And>t. sinv t \<Longrightarrow> E t"
  shows "wp (at_inst k (loadListFromValidRange (load (env_cx env o' k)) (env_cx env o' k) p n u)) Q E w"
  by (rule wp_mono [OF assms(1) [unfolded load_moves_def, rule_format, OF assms(2)]]) (simp_all add: assms(3,4))

lemma store_moves_wp:
  fixes env :: "'y env" and w :: "'y world_scheme"
  assumes "store_moves env" "sinv w" "\<And>x t. cframe w t \<Longrightarrow> h_bufs t = h_bufs w \<Longrightarrow> Q x t" "\<And>t. sinv t \<Longrightarrow> E t"
  shows "wp (at_inst k (storeListIntoValidRange (store (env_cx env o' k)) (env_cx env o' k) v p u)) Q E w"
  by (rule wp_mono [OF assms(1) [unfolded store_moves_def, rule_format, OF assms(2)]]) (simp_all add: assms(3,4))

lemma wp_movesD: "moves a \<Longrightarrow> sinv w \<Longrightarrow> wp a (\<lambda>_. cframe w) sinv w"
  by (simp add: moves_wp)

lemma wp_host:
  fixes w :: "'y world_scheme"
  assumes w: "sinv w" and h: "h_bufs w ! k = HostBuf h"
  shows "wp (hb_read k h n) (\<lambda>_. cframe w) sinv w" "wp (hb_write k h vs) (\<lambda>_. cframe w) sinv w"
    "wp (hb_advanceBytes k h n) (\<lambda>_. cframe w) sinv w"
  using w cframe_upd_host(1) [OF h]
  by (auto simp: hb_read_def hb_write_def hb_advanceBytes_def wps split: sum.split option.split)

text \<open>A guest buffer advances by what it read or wrote.\<close>

lemma guest_step:
  assumes "sinv w" "h_bufs w ! k = GuestBuf g" "n \<le> gb_remain g" "cframe w v" "h_bufs v = h_bufs w"
    "gb_progress g' = gb_progress g + n" "gb_length g' = gb_length g"
  shows "cframe w (v\<lparr>h_bufs := (h_bufs v)[k := GuestBuf g']\<rparr>)" "cframe w (v\<lparr>h_bufs := (h_bufs w)[k := GuestBuf g']\<rparr>)"
  using guest_advance [OF assms(1-4) assms(6,7)] assms(5) by simp_all

lemma wp_gb_read:
  fixes env :: "'y env" and w :: "'y world_scheme"
  assumes env: "load_moves env" and w: "sinv w" and g: "h_bufs w ! k = GuestBuf g"
  shows "wp (gb_read env k g n) (\<lambda>_. cframe w) sinv w"
  unfolding gb_read_def
  using guest_step [OF w g, of n] w
  by (auto simp: wps Let_def split: option.split sum.split intro!: load_moves_wp [OF env w] dest: sinv_cframe)

lemma wp_gb_write:
  fixes env :: "'y env" and w :: "'y world_scheme"
  assumes env: "store_moves env" and w: "sinv w" and g: "h_bufs w ! k = GuestBuf g"
  shows "wp (gb_write env k g vs) (\<lambda>_. cframe w) sinv w"
  unfolding gb_write_def
  using guest_step [OF w g] w
  by (auto simp: wps Let_def split: option.split sum.split intro!: store_moves_wp [OF env w] dest: sinv_cframe)

lemma wp_gb_advance:
  assumes w: "sinv w" and g: "h_bufs w ! k = GuestBuf g"
  shows "wp (gb_advanceZeroWidth k g n) (\<lambda>_. cframe w) sinv w" "wp (gb_advanceBytes k g n) (\<lambda>_. cframe w) sinv w"
  unfolding gb_advanceZeroWidth_def gb_advanceBytes_def
  using guest_step [OF w g, of n w] w by (auto simp: wps)

lemma moves_bufs [moving]:
  assumes "env_ok env"
  shows "moves (buf_read env k n)" "moves (buf_write env k vs)" "moves (buf_advanceBytes k n)"
  unfolding moves_wp buf_read_def buf_write_def buf_advanceBytes_def
  using wp_gb_read [OF env_okD(5) [OF assms]] wp_gb_write [OF env_okD(6) [OF assms]] wp_gb_advance(2)
  by (auto simp: wps intro!: wp_host split: rbuffer.split)

lemma session_run: "session_at i w = (case h_bufs w ! i of DirectBuf d \<Rightarrow> (Inr d, w) | _ \<Rightarrow> (Inl (TypeError ''not a direct session''), w))"
  by (simp add: session_at_def buf_at_def bnd_run split: rbuffer.split)

lemma keeps_session [moving]: "keeps cframe (bnd (session_at i) (\<lambda>d. upd_buf i (DirectBuf (f d))))"
  by (auto simp: keeps_def bnd_run session_run upd_buf_run cframe_upd_host split: rbuffer.split)

lemma moves_session [moving]:
  "keeps cframe (session_at i)" "keeps cframe (session_fail i e)" "keeps cframe (session_finish i)"
  "keeps cframe (session_reissue i)" "keeps cframe (session_end i)" "keeps cframe (session_arm i)"
  "keeps cframe (buf_endWindow i)"
proof -
  show "keeps cframe (session_at i)" by (auto simp: keeps_def session_run split: rbuffer.split)
  show "keeps cframe (buf_endWindow i)"
    by (auto simp: keeps_def buf_endWindow_def buf_at_def bnd_run upd_buf_run cframe_upd_host split: rbuffer.split)
qed (unfold session_fail_def session_finish_def session_reissue_def session_end_def session_arm_def, (rule keeps_session)+)

lemma moves_ensuring [moving]:
  assumes "moves a" "keeps cframe c" shows "moves (ensuring a c)"
  unfolding moves_wp
proof (intro allI impI)
  fix w :: "'a world_scheme" assume w: "sinv w"
  have c: "wp c (\<lambda>_. cframe v) sinv v" if "sinv v" for v using wp_movesD [OF moves_keeps [OF assms(2)] that] .
  have "wp c (\<lambda>_. sinv) sinv v" if "sinv v" for v
    using c [OF that] by (rule wp_mono) (auto intro: sinv_cframe that)
  moreover have "wp c (\<lambda>_. cframe w) sinv v" if "cframe w v" for v
    using c [OF sinv_cframe [OF that w]] by (rule wp_mono) (auto intro: cframe_trans that)
  ultimately show "wp (ensuring a c) (\<lambda>_. cframe w) sinv w"
    by (auto simp: wps intro!: wp_moves [OF assms(1) w])
qed

lemmas moves_leaves =
  moves_keeps [OF keeps_ret [OF cframe_order(1)]] moves_session [THEN moves_keeps]

lemma moves_counted:
  assumes "moves b" shows "moves (bnd (session_at i) (\<lambda>d. seqm (upd_buf i (DirectBuf (f d))) b))"
proof -
  have "bnd (session_at i) (\<lambda>d. seqm (upd_buf i (DirectBuf (f d))) b) =
      seqm (bnd (session_at i) (\<lambda>d. upd_buf i (DirectBuf (f d)))) b"
    by (rule ext) (simp add: bnd_run seqm_run split: prod.split sum.split)
  then show ?thesis using assms by (simp add: moves_seqm keeps_session [THEN moves_keeps])
qed

lemma moves_runDirect:
  assumes "env_ok env" shows "moves (runDirect env i p n)"
proof -
  have "keeps cframe (catching
      (bnd (env_direct env i p n) (\<lambda>(marks, verdict). bnd (of_res (scope_marks n 0 marks)) (\<lambda>k. ret (Some (k, verdict)))))
      (\<lambda>e. seqm (session_fail i e) (ret None)))"
    using env_okD(3) [OF assms] by (auto simp del: run_rules intro!: moving split: prod.split)
  note call = moves_keeps [OF this]
  show ?thesis
    unfolding runDirect_def runDirect_body_def
    by (intro moves_ensuring moves_session moves_bnd call)
      (auto simp del: run_rules intro!: moves_counted moves_seqm moves_bufs moves_leaves assms split: option.split)
qed

lemma wp_zeroWidth:
  assumes w: "sinv w" and g: "h_bufs w ! src = GuestBuf gs" "h_bufs w ! dst = GuestBuf gd"
  shows "wp (seqm (gb_advanceZeroWidth src gs n) (seqm (gb_advanceZeroWidth dst gd n) (ret Chunk))) (\<lambda>_. cframe w) sinv w"
proof -
  let ?v = "w\<lparr>h_bufs := (h_bufs w)[src := GuestBuf (gs\<lparr>gb_progress := gb_progress gs + n\<rparr>)]\<rparr>"
  have v: "cframe w ?v" if "n \<le> gb_remain gs"
    using that by (intro guest_step(2) [OF w g(1)]) simp_all
  then have "cframe w (?v\<lparr>h_bufs := (h_bufs ?v)[dst := GuestBuf (gd\<lparr>gb_progress := gb_progress gd + n\<rparr>)]\<rparr>)"
    if "n \<le> gb_remain gs" "n \<le> gb_remain gd"
    using that by (intro guest_advance [OF w g(2)]) simp_all
  with v w show ?thesis by (auto simp: gb_advanceZeroWidth_def wps intro: sinv_cframe)
qed

lemma moves_rendezvousCopy:
  assumes "env_ok env" shows "moves (rendezvousCopy env src dst n)"
proof -
  have chunk: "moves (bnd (buf_read env src n) (\<lambda>vs. seqm (buf_write env dst vs) (ret Chunk)))"
    using assms by (auto simp del: run_rules intro!: moving moves_keeps [of "ret _"])
  have direct: "moves (runDirect env src dst n)" "moves (runDirect env dst src n)"
    using moves_runDirect [OF assms] by blast+
  show ?thesis
    unfolding moves_wp rendezvousCopy_def
    by (auto simp: wp_bnd [of "buf_at _"] wp_buf_at wp_if wp_basic
        intro!: wp_movesD [OF chunk] wp_movesD [OF direct(1)] wp_movesD [OF direct(2)] wp_zeroWidth split: rbuffer.split)
qed

end
