(* ===== verification/Stream_Protocol.thy ===== *)
theory Stream_Protocol
  imports Stream_Steps
begin

text \<open>
  What the operations of the pending slot, the rendezvous and the drop do to the protocol:
  each keeps the invariant whatever it returns, and when it succeeds no end that waits is
  forgotten.
\<close>

lemma wp_heap [wps]:
  fixes w :: "'z heap_scheme"
  shows "wp (shared_at s) Qs E w = Qs (h_shared w ! s) w" "wp (end_at e) Qe E w = Qe (h_ends w ! e) w"
    "wp (upd_shared s f) Qu E w = Qu () (put_shared s f w)" "wp (upd_end e g) Qu E w = Qu () (put_end e g w)"
    "wp (setPendingEvent k p) Qu E w = Qu () (arm k (Some p) w)" "wp (resetPending s) Qu E w = Qu () (put_shared s clear_slot w)"
  by (simp_all add: wp_def heap_runs)

section \<open>Who waits\<close>

text \<open>\<open>live_but X w\<close>: no end that waits is forgotten, the ends \<open>X\<close> aside.\<close>

definition live_but :: "nat set \<Rightarrow> 'z heap_scheme \<Rightarrow> bool" where
  "live_but X w \<longleftrightarrow> (\<forall>e < length (h_ends w). e \<notin> X \<longrightarrow> copying (h_ends w ! e) \<longrightarrow> pend w e = None \<longrightarrow>
     sh_dropped (h_shared w ! ce_shared (h_ends w ! e)) \<or> owns (h_shared w ! ce_shared (h_ends w ! e)) e)"

lemma live_but_none: "live_but {} w = live w"
  by (auto simp: live_but_def live_def)

definition ends_in :: "copy_cb \<Rightarrow> nat set" where
  "ends_in cb = set_option (cb_end cb)"

lemma ends_in_simps [simp]: "e \<in> ends_in cb \<longleftrightarrow> cb_end cb = Some e"
  by (auto simp: ends_in_def)

lemma live_but_cframe: "cframe w t \<Longrightarrow> live_but X w \<Longrightarrow> live_but X t"
  by (simp add: live_but_def cframe_def pend_def)

lemma cframe_guest: "cframe w t \<Longrightarrow> is_guest w b \<Longrightarrow> is_guest t b"
  by (simp add: cframe_def)

text \<open>The sets that the waitables are in.\<close>

definition joins :: "'z heap_scheme \<Rightarrow> nat option list" where
  "joins w = map wt_wset (w_waitables w)"

lemma joins_sel [simp]:
  "joins (arm k p w) = joins w" "joins (put_shared s f w) = joins w" "joins (put_end e g w) = joins w"
proof -
  have "wt_wset ((w_waitables w)[k := (w_waitables w ! k)\<lparr>wt_pending := p\<rparr>] ! i) = wt_wset (w_waitables w ! i)"
    if "i < length (w_waitables w)" for i using that by (cases "i = k") simp_all
  then show "joins (arm k p w) = joins w" by (simp add: joins_def arm_def list_eq_iff_nth_eq)
qed (simp_all add: joins_def)

lemma joins_cframe: "cframe w t \<Longrightarrow> joins t = joins w"
  by (simp add: joins_def cframe_def)

text \<open>\<open>caller s b cb w\<close>: the callbacks belong to an end of \<open>s\<close> that is copying and not parked.\<close>

definition caller :: "nat \<Rightarrow> nat \<Rightarrow> copy_cb \<Rightarrow> 'z heap_scheme \<Rightarrow> bool" where
  "caller s b cb w \<longleftrightarrow> (\<forall>e. cb_end cb = Some e \<longrightarrow> e < length (h_ends w) \<and> ce_shared (h_ends w ! e) = s \<and>
     copying (h_ends w ! e) \<and> cb = cb_for (h_ends w ! e) e b \<and> is_guest w b \<and> \<not> owns (h_shared w ! s) e)"

lemma caller_host [simp]: "caller s b (HostCb h) w"
  by (simp add: caller_def)

lemma caller_cframe: "cframe w t \<Longrightarrow> caller s b cb w \<Longrightarrow> caller s b cb t"
  by (simp add: caller_def cframe_def)

lemma callerD:
  assumes "caller s b cb w" "cb_end cb = Some e"
  shows "e < length (h_ends w)" "ce_shared (h_ends w ! e) = s" "copying (h_ends w ! e)"
    "cb = cb_for (h_ends w ! e) e b" "\<not> owns (h_shared w ! s) e" "is_guest w b"
  using assms by (simp_all add: caller_def)

lemma callerI:
  assumes "\<And>e. cb_end cb = Some e \<Longrightarrow> e < length (h_ends w)" "\<And>e. cb_end cb = Some e \<Longrightarrow> ce_shared (h_ends w ! e) = s"
    "\<And>e. cb_end cb = Some e \<Longrightarrow> copying (h_ends w ! e)" "\<And>e. cb_end cb = Some e \<Longrightarrow> cb = cb_for (h_ends w ! e) e b"
    "\<And>e. cb_end cb = Some e \<Longrightarrow> \<not> owns (h_shared w ! s) e" "\<And>e. cb_end cb = Some e \<Longrightarrow> is_guest w b"
  shows "caller s b cb w"
  unfolding caller_def by (intro allI impI conjI assms)

lemma caller_mono:
  assumes "caller s b cb w" "h_ends t = h_ends w" "\<And>d. owns (h_shared t ! s) d \<Longrightarrow> owns (h_shared w ! s) d"
    "\<And>b. is_guest w b \<Longrightarrow> is_guest t b"
  shows "caller s b cb t"
  using callerD [OF assms(1)] assms(3,4) unfolding caller_def assms(2) by metis

lemma cb_for_cases:
  "cb_for x e b = StreamCb e' b' c \<longleftrightarrow> ce_kind x = StreamKind \<and> e' = e \<and> b' = b \<and> c = ce_eventCode x"
  "cb_for x e b = FutureCb e' b' c rd \<longleftrightarrow>
     ce_kind x = FutureKind \<and> e' = e \<and> b' = b \<and> c = ce_eventCode x \<and> rd = (ce_side x = Readable)"
  "cb_for x e b \<noteq> HostCb h"
  by (auto simp: cb_for_def split: end_kind.splits)

text \<open>The event of a completed copy, and what arming it does to the ends that wait.\<close>

lemma not_done: "copying x \<Longrightarrow> ce_state x \<noteq> DONE"
  by (auto simp: copying_def)

lemma live_arm:
  assumes "ends_ok w" "e < length (h_ends w)" "live_but X w"
  shows "live_but (X - {e}) (arm (ce_wait (h_ends w ! e)) (Some p) w)"
  using assms(3) pend_arm [OF assms(1,2), of _ "Some p"] by (auto simp: live_but_def)

lemma live_arm_weak:
  assumes "ends_ok w" "e < length (h_ends w)" "live_but X w"
  shows "live_but X (arm (ce_wait (h_ends w ! e)) (Some p) w)"
  using live_arm [OF assms] by (auto simp: live_but_def)

section \<open>Notifications\<close>

definition done_post :: "copy_cb \<Rightarrow> 'y world_scheme \<Rightarrow> 'y world_scheme \<Rightarrow> bool" where
  "done_post cb w t \<longleftrightarrow> sinv t \<and> joins t = joins w \<and> h_ends t = h_ends w \<and> h_shared t = h_shared w \<and>
     (\<forall>X. live_but X w \<longrightarrow> live_but (X - ends_in cb) t) \<and>
     (\<forall>d < length (h_ends w). pend t d = pend w d \<or> cb_end cb = Some d \<and> pend t d \<noteq> None)  \<and>
     (\<forall>d. cb_end cb = Some d \<longrightarrow> pend t d \<noteq> None) \<and> (\<forall>b. is_guest w b \<longrightarrow> is_guest t b)"

lemma done_post_arm:
  assumes w: "sinv w" and c: "caller s b cb w" and e: "cb_end cb = Some e"
    and p: "pend_ok s (h_shared w ! s) e (h_ends w ! e) (Some p)"
  shows "done_post cb w (arm (ce_wait (h_ends w ! e)) (Some p) w)"
proof -
  note C = callerD [OF c e]
  have "ends_in cb = {e}" using e by (auto simp: ends_in_def)
  then show ?thesis
    using sinv_arm [OF w C(1)] p C(2) live_arm [OF sinvD(1) [OF w] C(1), of _ p]
      pend_arm [OF sinvD(1) [OF w] C(1), of _ "Some p"] e C(1)
    by (auto simp: done_post_def)
qed

definition quiet :: "'y world_scheme \<Rightarrow> 'y world_scheme \<Rightarrow> bool" where
  "quiet w t \<longleftrightarrow> sinv t \<and> joins t = joins w \<and> h_ends t = h_ends w \<and> h_shared t = h_shared w \<and> (\<forall>X. live_but X w \<longrightarrow> live_but X t) \<and>
     (\<forall>d. pend t d = pend w d)"

lemma quiet_cframe: "sinv w \<Longrightarrow> cframe w t \<Longrightarrow> quiet w t"
  using sinv_cframe [of w t] live_but_cframe [of w t] by (simp add: quiet_def cframe_sel joins_cframe)

lemma quiet_refl [simp]: "quiet w w = sinv w"
  by (simp add: quiet_def)

lemma wp_done_quiet:
  fixes w :: "'y world_scheme"
  assumes env: "env_ok env" and w: "sinv w" and c: "caller s b cb w"
  shows "wp (run_onCopyDone env cb r) (\<lambda>_. done_post cb w) (quiet w) w"
proof (cases cb)
  case (StreamCb e b' code)
  then have e: "cb_end cb = Some e" by simp
  note C = callerD [OF c e]
  have "pend_ok s (h_shared w ! s) e (h_ends w ! e) (Some (StreamEvent e b' r NoReclaim code))"
    using C not_done [OF C(3)] cb_for_cases(1) [of "h_ends w ! e" e b e b' code] unfolding StreamCb by (simp add: pend_ok_def)
  from done_post_arm [OF w c e this] show ?thesis
    by (simp add: run_onCopyDone_def StreamCb stream_onCopyDone_def wp_def monad_simps heap_runs)
next
  case (FutureCb e b' code rd)
  then have e: "cb_end cb = Some e" by simp
  note C = callerD [OF c e]
  note F = cb_for_cases(2) [of "h_ends w ! e" e b e b' code rd] not_done [OF C(3)]
  have ev: "pend_ok s (h_shared w ! s) e (h_ends w ! e) (Some (FutureEvent e b' r code))"
    using C F unfolding FutureCb by (simp add: pend_ok_def)
  have ab: "pend_ok s (h_shared w ! s) e (h_ends w ! e) (Some (AbandonEvent m))" if rd for m
    using C F that unfolding FutureCb by (simp add: pend_ok_def)
  show ?thesis
    using done_post_arm [OF w c e ev] done_post_arm [OF w c e ab] w
    by (auto simp: run_onCopyDone_def FutureCb future_onCopyDone_def wp_def monad_simps heap_runs split: option.split)
next
  case (HostCb h)
  then have "ends_in cb = {}" by (simp add: ends_in_def)
  then have "done_post cb w t" if "cframe w t" for t
    using that sinv_cframe [OF that w] live_but_cframe [OF that] HostCb by (simp add: done_post_def cframe_sel cframe_guest joins_cframe)
  then show ?thesis
    unfolding HostCb run_onCopyDone_def
    by (auto simp: HostCb intro!: wpI quiet_cframe [OF w] dest: keepsD [OF env_okD(1) [OF env]])
qed

lemma wp_done:
  fixes w :: "'y world_scheme"
  assumes "env_ok env" "sinv w" "caller s b cb w"
  shows "wp (run_onCopyDone env cb r) (\<lambda>_. done_post cb w) sinv w"
  by (rule wp_mono [OF wp_done_quiet [OF assms]]) (simp_all add: quiet_def)

text \<open>The slot's owner is notified and the slot is free.\<close>

definition reset_post :: "nat \<Rightarrow> 'y world_scheme \<Rightarrow> 'y world_scheme \<Rightarrow> bool" where
  "reset_post s w t \<longleftrightarrow> sinv t \<and> joins t = joins w \<and> h_ends t = h_ends w \<and> h_shared t = (h_shared w)[s := clear_slot (h_shared w ! s)] \<and>
     (\<forall>X. live_but X w \<longrightarrow> live_but X t) \<and>
     (\<forall>d < length (h_ends w). \<not> owns (h_shared w ! s) d \<longrightarrow> pend t d = pend w d) \<and>
     (\<forall>d. owns (h_shared w ! s) d \<longrightarrow> pend t d \<noteq> None) \<and> (\<forall>b. is_guest w b \<longrightarrow> is_guest t b)"

lemma owner_of:
  assumes "sinv w" "s < length (h_shared w)" "slot_is (h_shared w ! s) b cb" "cb_end cb = Some e"
  shows "e < length (h_ends w)" "ce_shared (h_ends w ! e) = s" "copying (h_ends w ! e)" "cb = cb_for (h_ends w ! e) e b"
    "\<not> sh_dropped (h_shared w ! s)" "is_guest w b"
  using sinv_slot [OF assms(1,2)] slot_is_unique [OF assms(3)] slot_is_empty(1) assms(3,4)
  unfolding slot_ok_def by blast+

lemma slot_cases:
  assumes "sinv w" "s < length (h_shared w)"
  obtains "slot_empty (h_shared w ! s)" | b cb where "slot_is (h_shared w ! s) b cb" "\<not> sh_dropped (h_shared w ! s)"
  using sinv_slot [OF assms] unfolding slot_ok_def by blast

lemma live_but_mono: "live_but X w \<Longrightarrow> X \<subseteq> Y \<Longrightarrow> live_but Y w"
  by (auto simp: live_but_def)

lemma owns_slot: "slot_is sh b cb \<Longrightarrow> owns sh d \<longleftrightarrow> cb_end cb = Some d"
  by (auto simp: owns_def slot_is_def)

text \<open>
  With the slot cleared and its owner not yet notified, the state need not be a good one: an
  earlier event of the owner may still reclaim the slot. The notification replaces it.
\<close>

lemma wp_done_cleared:
  fixes w :: "'y world_scheme"
  assumes env: "env_ok env" and w: "sinv w" and s: "s < length (h_shared w)" and slot: "slot_is (h_shared w ! s) b cb"
  shows "wp (run_onCopyDone env cb r) (\<lambda>_. done_post cb (put_shared s clear_slot w)) sinv (put_shared s clear_slot w)"
proof (cases "\<exists>e b' c. cb = StreamCb e b' c")
  case True
  then obtain e b' c where cb: "cb = StreamCb e b' c" by blast
  then have e: "cb_end cb = Some e" by simp
  let ?u = "put_shared s clear_slot w"
  let ?p = "StreamEvent e b' r NoReclaim c"
  note O = owner_of [OF w s slot e]
  have U: "ends_ok ?u" by (rule at_ends_ok [OF at_put_shared [OF at_refl s] sinvD(1) [OF w]]) simp_all
  have "pend_ok s (clear_slot (h_shared w ! s)) e (h_ends w ! e) (Some ?p)"
    using O not_done [OF O(3)] cb_for_cases(1) [of "h_ends w ! e" e b e b' c] unfolding cb by (simp add: pend_ok_def)
  from sinv_settle [OF w s slot e this]
  have "done_post cb ?u (arm (ce_wait (h_ends w ! e)) (Some ?p) ?u)"
    using live_arm [OF U, of e _ ?p] pend_arm [OF U, of e _ "Some ?p"] O(1) cb by (auto simp: done_post_def ends_in_def)
  then show ?thesis
    by (simp add: run_onCopyDone_def cb stream_onCopyDone_def wp_def monad_simps heap_runs)
next
  case False
  have free: "pend w e = None" if "cb_end cb = Some e" for e
    using sinv_pend [OF w owner_of(1) [OF w s slot that]] owner_of(2-5) [OF w s slot that] False that
      owns_slot [OF slot, of e] slot
    by (auto simp: pend_ok_def slot_is_def split: option.splits pending_event.splits)
  have u: "sinv (put_shared s clear_slot w)"
    using sinv_clear [OF w s] slot_is_unique [OF slot] free by metis
  have "caller s b cb (put_shared s clear_slot w)"
    using owner_of [OF w s slot] s unfolding caller_def by fastforce
  from wp_done [OF env u this] show ?thesis .
qed

lemma reset_postI:
  assumes s: "s < length (h_shared w)" and slot: "slot_is (h_shared w ! s) b cb"
    and t: "done_post cb (put_shared s clear_slot w) t"
  shows "reset_post s w t"
proof -
  have "live_but X t" if "live_but X w" for X
  proof -
    have "live_but (X \<union> ends_in cb) (put_shared s clear_slot w)"
      using that s owns_slot [OF slot] by (fastforce simp: live_but_def clear_slot_def)
    then have "live_but (X \<union> ends_in cb - ends_in cb) t" using t by (simp add: done_post_def)
    then show ?thesis by (rule live_but_mono) blast
  qed
  moreover have "h_shared (put_shared s clear_slot w) = (h_shared w)[s := clear_slot (h_shared w ! s)]"
    by (simp add: put_shared_def)
  ultimately show ?thesis
    using t owns_slot [OF slot] by (auto simp: done_post_def reset_post_def)
qed

lemma wp_reset:
  fixes w :: "'y world_scheme"
  assumes env: "env_ok env" and w: "sinv w" and s: "s < length (h_shared w)"
  shows "wp (resetAndNotifyPending env s r) (\<lambda>_. reset_post s w) sinv w"
  using w s
proof (cases rule: slot_cases)
  case 1
  then show ?thesis
    using w by (simp add: resetAndNotifyPending_def wp_def monad_simps heap_runs slot_empty_def)
next
  case (2 b cb)
  then have "resetAndNotifyPending env s r w = run_onCopyDone env cb r (put_shared s clear_slot w)"
    by (simp add: resetAndNotifyPending_def monad_simps heap_runs slot_is_def)
  then show ?thesis
    using wp_mono [OF wp_done_cleared [OF env w s 2(1)] reset_postI [OF s 2(1)]] by (simp add: wp_def)
qed

section \<open>The rendezvous\<close>

text \<open>What a copy does: the invariant, the ends unchanged, and the caller has an event or waits in the slot.\<close>

definition copied :: "copy_cb \<Rightarrow> 'y world_scheme \<Rightarrow> 'y world_scheme \<Rightarrow> bool" where
  "copied cb w t \<longleftrightarrow> sinv t \<and> joins t = joins w \<and> h_ends t = h_ends w \<and> (\<forall>X. live_but X w \<longrightarrow> live_but (X - ends_in cb) t)"

lemma copied_done: "done_post cb w t \<Longrightarrow> copied cb w t"
  by (simp add: done_post_def copied_def)

lemma copied_after:
  assumes "copied cb u t" "h_ends u = h_ends w" "\<And>X. live_but X w \<Longrightarrow> live_but X u" "joins u = joins w"
  shows "copied cb w t"
  using assms by (simp add: copied_def)

lemma copied_fill:
  assumes w: "sinv w" and s: "s < length (h_shared w)" and empty: "slot_empty (h_shared w ! s)"
    and nd: "\<not> sh_dropped (h_shared w ! s)" and c: "caller s b cb w"
    and idle: "\<And>e. cb_end cb = Some e \<Longrightarrow> pend w e = None"
  shows "copied cb w (put_shared s (fill_slot i b cb) w)"
proof -
  have "e < length (h_ends w) \<and> ce_shared (h_ends w ! e) = s \<and> copying (h_ends w ! e) \<and>
      cb = cb_for (h_ends w ! e) e b \<and> is_guest w b \<and> pend w e = None" if "cb_end cb = Some e" for e
    by (intro conjI callerD [OF c that] idle [OF that])
  moreover have "live_but (X - ends_in cb) (put_shared s (fill_slot i b cb) w)" if "live_but X w" for X
    unfolding live_but_def
  proof (intro allI impI, goal_cases)
    case (1 d)
    then show ?case
      using that s empty nd callerD(2) [OF c, of d] by (cases "ce_shared (h_ends w ! d) = s"; cases "d \<in> X") (auto simp: live_but_def)
  qed
  ultimately show ?thesis using sinv_fill [OF w s empty nd] by (simp add: copied_def)
qed

lemma wp_setPending:
  fixes w :: "'y world_scheme"
  assumes "sinv w" "s < length (h_shared w)" "slot_empty (h_shared w ! s)" "\<not> sh_dropped (h_shared w ! s)"
    "caller s b cb w" "\<And>e. cb_end cb = Some e \<Longrightarrow> pend w e = None"
  shows "wp (setPending s i b cb) (\<lambda>_. copied cb w) sinv w"
  using copied_fill [OF assms] by (simp add: wp_def heap_runs)

text \<open>The parked side is told that it may reclaim its buffer; the slot stays.\<close>

definition offer_post :: "nat \<Rightarrow> 'y world_scheme \<Rightarrow> 'y world_scheme \<Rightarrow> bool" where
  "offer_post s w t \<longleftrightarrow> sinv t \<and> joins t = joins w \<and> h_ends t = h_ends w \<and> length (h_shared t) = length (h_shared w) \<and>
     (\<forall>d. owns (h_shared t ! s) d \<longrightarrow> owns (h_shared w ! s) d) \<and> (\<forall>X. live_but X w \<longrightarrow> live_but X t) \<and>
     (\<forall>b. is_guest w b \<longrightarrow> is_guest t b)"

lemma wp_offer:
  fixes w :: "'y world_scheme"
  assumes env: "env_ok env" and w: "sinv w" and s: "s < length (h_shared w)" and slot: "slot_is (h_shared w ! s) b cb"
  shows "wp (run_onCopy env cb (ResetPending s)) (\<lambda>_. offer_post s w) sinv w"
proof (cases cb)
  case (StreamCb e b' c)
  then have e: "cb_end cb = Some e" by simp
  note O = owner_of [OF w s slot e]
  let ?p = "StreamEvent e b' COMPLETED (ResetPending s) c"
  have "pend_ok s (h_shared w ! s) e (h_ends w ! e) (Some ?p)"
    using O slot not_done [OF O(3)] cb_for_cases(1) [of "h_ends w ! e" e b e b' c] unfolding StreamCb by (simp add: pend_ok_def)
  then show ?thesis
    using sinv_arm [OF w O(1), of "Some ?p"] O(2) live_arm_weak [OF sinvD(1) [OF w] O(1), of _ ?p]
    by (simp add: run_onCopy_def StreamCb stream_onCopy_def wp_def monad_simps heap_runs offer_post_def)
next
  case (FutureCb e b' c rd)
  then show ?thesis using w by (simp add: run_onCopy_def wps)
next
  case (HostCb h)
  have own: "\<not> owns (h_shared w ! s) d" for d using owns_slot [OF slot] by (simp add: HostCb)
  have clear: "sinv (put_shared s clear_slot w)"
    using sinv_clear [OF w s] owns_slot [OF slot] slot_is_unique [OF slot] HostCb by (metis cb_end.simps(3) option.distinct(1))
  have live: "live_but X (put_shared s clear_slot w)" if "live_but X w" for X
    using that own s by (fastforce simp: live_but_def clear_slot_def)
  have "offer_post s w t \<and> sinv t" if "run_onCopy env cb (ResetPending s) w = (r, t)" for r t
  proof -
    have "cframe w t \<or> cframe (put_shared s clear_slot w) t"
      using env_okD(4) [OF env, of w h s] that by (simp add: run_onCopy_def HostCb)
    then show ?thesis
      using w clear s own live sinv_cframe [of _ t] live_but_cframe [of _ t] cframe_guest [of _ t] joins_cframe [of _ t]
      by (auto simp: offer_post_def cframe_sel)
  qed
  then show ?thesis by (auto intro!: wpI)
qed

lemma wp_any: "(\<And>x t. Q x t) \<Longrightarrow> (\<And>t. E t) \<Longrightarrow> wp a Q E w"
  by (rule wpI)

lemma wp_true [simp]: "wp a (\<lambda>_ _. True) (\<lambda>_. True) w"
  by (rule wp_any) simp_all

lemma runDirect_one_sided: "runDirect env i p n w = (Inr out, t) \<Longrightarrow> out \<noteq> BothDirect"
proof (drule wpD(1) [rotated])
  show "wp (runDirect env i p n) (\<lambda>x _. x \<noteq> BothDirect) (\<lambda>_. True) w"
    unfolding runDirect_def runDirect_body_def wp_ensuring
    by (subst wp_bnd, rule wp_any)
      (simp_all add: wps split: option.split prod.split, (simp add: wps | intro conjI impI allI | rule wp_any)+)
qed

lemma wp_outcome:
  fixes w :: "'y world_scheme"
  assumes env: "env_ok env" and w: "sinv w"
  shows "wp (rendezvousCopy env src dst n) (\<lambda>out t. cframe w t \<and>
    (out = BothDirect \<longrightarrow> isDirectBuffer (h_bufs w ! src) \<and> isDirectBuffer (h_bufs w ! dst)) \<and>
    (out = Retracted \<or> out = Failed \<longrightarrow> isDirectBuffer (h_bufs w ! src) \<noteq> isDirectBuffer (h_bufs w ! dst))) sinv w"
proof (rule wpI)
  fix e t assume "rendezvousCopy env src dst n w = (Inl e, t)"
  then show "sinv t" using wpD(2) [OF wp_movesD [OF moves_rendezvousCopy [OF env] w]] by blast
next
  fix out t assume run: "rendezvousCopy env src dst n w = (Inr out, t)"
  then have "cframe w t" using wpD(1) [OF wp_movesD [OF moves_rendezvousCopy [OF env] w]] by blast
  moreover have "out = Retracted \<or> out = Failed \<Longrightarrow> isDirectBuffer (h_bufs w ! src) \<noteq> isDirectBuffer (h_bufs w ! dst)"
    "out = BothDirect \<Longrightarrow> isDirectBuffer (h_bufs w ! src) \<and> isDirectBuffer (h_bufs w ! dst)"
    using run
    by (auto simp: rendezvousCopy_def buf_at_def bnd_run seqm_run dest: runDirect_one_sided split: if_splits rbuffer.splits prod.splits sum.splits)
  ultimately show "cframe w t \<and> (out = BothDirect \<longrightarrow> isDirectBuffer (h_bufs w ! src) \<and> isDirectBuffer (h_bufs w ! dst)) \<and>
    (out = Retracted \<or> out = Failed \<longrightarrow> isDirectBuffer (h_bufs w ! src) \<noteq> isDirectBuffer (h_bufs w ! dst))" by blast
qed

lemma guest_not_direct: "is_guest w b \<Longrightarrow> \<not> isDirectBuffer (h_bufs w ! b)"
  by (auto simp: is_guest_def isDirectBuffer_def)

text \<open>The caller of a copy: its buffer, and the event it does not have yet.\<close>

definition arriving :: "nat \<Rightarrow> nat \<Rightarrow> copy_cb \<Rightarrow> 'z heap_scheme \<Rightarrow> bool" where
  "arriving s b cb w \<longleftrightarrow> caller s b cb w \<and>
     (\<forall>e. cb_end cb = Some e \<longrightarrow> pend w e = None \<or> sh_dropped (h_shared w ! s))"

lemma arriving_cframe: "cframe w t \<Longrightarrow> arriving s b cb w \<Longrightarrow> arriving s b cb t"
  using caller_cframe by (auto simp: arriving_def cframe_sel)

lemma arrivingD:
  assumes "arriving s b cb w"
  shows "caller s b cb w" "\<not> sh_dropped (h_shared w ! s) \<Longrightarrow> cb_end cb = Some e \<Longrightarrow> pend w e = None"
  using assms by (simp_all add: arriving_def)

text \<open>After the parked side left the slot, the caller takes it.\<close>

lemma wp_take_slot:
  fixes w u :: "'y world_scheme"
  assumes u: "reset_post s w u" and s: "s < length (h_shared w)" and c: "arriving s b cb w" and nd: "\<not> sh_dropped (h_shared w ! s)"
  shows "wp (setPending s i b cb) (\<lambda>_. copied cb w) sinv u"
proof -
  have c': "caller s b cb u" "\<And>e. cb_end cb = Some e \<Longrightarrow> pend u e = None"
    using u s caller_mono [OF arrivingD(1) [OF c], of u] callerD [OF arrivingD(1) [OF c]] arrivingD(2) [OF c nd]
    by (simp_all add: reset_post_def)
  have U: "sinv u" "s < length (h_shared u)" "slot_empty (h_shared u ! s)" "\<not> sh_dropped (h_shared u ! s)"
    using u s nd by (auto simp: reset_post_def)
  show ?thesis
    by (rule wp_mono [OF wp_setPending [OF U c']])
      (use u in \<open>auto simp: reset_post_def intro: copied_after\<close>)
qed

lemma reset_post_clear:
  assumes w: "sinv w" and s: "s < length (h_shared w)" and slot: "slot_is (h_shared w ! s) b cb" and h: "cb_end cb = None"
  shows "reset_post s w (put_shared s clear_slot w)"
proof -
  have no: "\<not> owns (h_shared w ! s) d" for d using owns_slot [OF slot] h by simp
  have "sinv (put_shared s clear_slot w)"
    using sinv_clear [OF w s] slot_is_unique [OF slot] h by (metis option.distinct(1))
  moreover have "live_but X (put_shared s clear_slot w)" if "live_but X w" for X
    using that no s by (fastforce simp: live_but_def clear_slot_def)
  moreover have "h_shared (put_shared s clear_slot w) = (h_shared w)[s := clear_slot (h_shared w ! s)]"
    by (simp add: put_shared_def)
  ultimately show ?thesis using no by (simp add: reset_post_def)
qed

lemma copied_cframe: "cframe w t \<Longrightarrow> copied cb t u \<Longrightarrow> copied cb w u"
  by (rule copied_after [of cb t]) (simp_all add: cframe_sel live_but_cframe joins_cframe)

lemma copied_host: "cframe w t \<Longrightarrow> sinv w \<Longrightarrow> cb_end cb = None \<Longrightarrow> copied cb w t"
  using sinv_cframe [of w t] live_but_cframe [of w t] by (simp add: copied_def cframe_sel ends_in_def joins_cframe)

lemma wp_route:
  fixes w :: "'y world_scheme"
  assumes env: "env_ok env" and w: "sinv w" and s: "s < length (h_shared w)"
    and slot: "slot_is (h_shared w ! s) p pcb" "\<not> sh_dropped (h_shared w ! s)" and c: "arriving s a cb w"
    and pend: "pd \<Longrightarrow> cb_end pcb = None" and arr: "\<not> pd \<Longrightarrow> cb_end cb = None"
  shows "wp (routeDirectNoCopy env s out pd i a cb) (\<lambda>_. copied cb w) sinv w"
proof (cases pd)
  case True
  note take = wp_take_slot [OF _ s c slot(2)]
  have "wp (resetAndNotifyPending env s COMPLETED) (\<lambda>_. wp (setPending s i a cb) (\<lambda>_. copied cb w) sinv) sinv w"
    by (rule wp_mono [OF wp_reset [OF env w s]]) (auto intro: take)
  moreover have "wp (setPending s i a cb) (\<lambda>_. copied cb w) sinv (put_shared s clear_slot w)"
    by (rule take [OF reset_post_clear [OF w s slot(1) pend [OF True]]])
  ultimately show ?thesis
    using True by (simp add: routeDirectNoCopy_def wp_seqm) (simp add: wp_def [of "resetPending s"] heap_runs)
next
  case False
  have "wp (run_onCopyDone env cb COMPLETED) (\<lambda>_. copied cb w) sinv w"
    by (rule wp_mono [OF wp_done [OF env w arrivingD(1) [OF c]]]) (auto intro: copied_done)
  then show ?thesis
    using False copied_host [OF cframe_refl w arr] w by (simp add: routeDirectNoCopy_def wp_if wp_basic)
qed

lemma wp_copied_done:
  assumes "env_ok env" "sinv w" "caller s b cb w"
  shows "wp (run_onCopyDone env cb r) (\<lambda>_. copied cb w) sinv w"
  by (rule wp_mono [OF wp_done [OF assms]]) (auto intro: copied_done)

lemma wp_meet:
  fixes w :: "'y world_scheme"
  assumes env: "env_ok env" and w: "sinv w" and s: "s < length (h_shared w)"
    and slot: "slot_is (h_shared w ! s) p pcb" "\<not> sh_dropped (h_shared w ! s)" and c: "arriving s a cb w"
    and io: "(src, dst) = (p, a) \<or> (src, dst) = (a, p)" and pd: "pd = isDirectBuffer (h_bufs w ! p)"
  shows "wp (stream_meet env s i a p cb src dst n pd) (\<lambda>_. copied cb w) sinv w"
proof -
  have host_a: "cb_end cb = None" if "isDirectBuffer (h_bufs w ! a)"
    using that guest_not_direct callerD(6) [OF arrivingD(1) [OF c]] by fastforce
  have host_p: "cb_end pcb = None" if "isDirectBuffer (h_bufs w ! p)"
    using that guest_not_direct owner_of(6) [OF w s slot(1)] by fastforce
  have slot_t: "slot_is (h_shared t ! s) p pcb" "\<not> sh_dropped (h_shared t ! s)" "s < length (h_shared t)" if "cframe w t" for t
    using that slot s by (simp_all add: cframe_sel)
  have fail: "wp (session_fail a e) (\<lambda>_. copied cb w) sinv t" if t: "cframe w t" and d: "isDirectBuffer (h_bufs w ! a)" for e t
    by (rule wp_moves [OF moves_keeps [OF moves_session(2)] sinv_cframe [OF t w]])
      (auto intro: copied_host [OF cframe_trans [OF t] w host_a [OF d]])
  have route: "wp (routeDirectNoCopy env s out pd i a cb) (\<lambda>_. copied cb w) sinv t"
    if t: "cframe w t" and d: "isDirectBuffer (h_bufs w ! src) \<noteq> isDirectBuffer (h_bufs w ! dst)" for out t
    by (rule wp_mono [OF wp_route [OF env sinv_cframe [OF t w] slot_t(3,1,2) [OF t] arriving_cframe [OF t c]]])
      (use d io pd host_a host_p t in \<open>auto intro: copied_cframe\<close>)
  have offer: "wp (run_onCopy env pcb (ResetPending s)) (\<lambda>_. wp (run_onCopyDone env cb COMPLETED) (\<lambda>_. copied cb w) sinv) sinv t"
    if t: "cframe w t" for t
  proof (rule wp_mono [OF wp_offer [OF env sinv_cframe [OF t w] slot_t(3,1) [OF t]]])
    fix u assume u: "offer_post s t u"
    have "h_ends u = h_ends t" "\<And>d. owns (h_shared u ! s) d \<Longrightarrow> owns (h_shared t ! s) d" "\<And>b. is_guest t b \<Longrightarrow> is_guest u b"
      using u by (simp_all add: offer_post_def)
    then have "caller s a cb u"
      by (rule caller_mono [OF arrivingD(1) [OF arriving_cframe [OF t c]]])
    moreover have "copied cb w v" if "copied cb u v" for v
      by (rule copied_cframe [OF t copied_after [OF that]]) (use u in \<open>simp_all add: offer_post_def\<close>)
    ultimately show "wp (run_onCopyDone env cb COMPLETED) (\<lambda>_. copied cb w) sinv u"
      using u by (intro wp_mono [OF wp_copied_done [OF env]]) (auto simp: offer_post_def)
  qed simp
  show ?thesis
    unfolding stream_meet_def
    by (rule wp_bnd [THEN iffD2], rule wp_mono [OF wp_outcome [OF env w]])
      (use io slot_t(1) offer fail route in \<open>auto simp: wps slot_is_def split: option.split\<close>)
qed

lemma wp_supersede:
  fixes w :: "'y world_scheme"
  assumes env: "env_ok env" and w: "sinv w" and s: "s < length (h_shared w)" and nd: "\<not> sh_dropped (h_shared w ! s)"
    and c: "arriving s b cb w"
  shows "wp (resetAndNotifyPending env s r) (\<lambda>_. wp (setPending s i b cb) (\<lambda>_. copied cb w) sinv) sinv w"
  by (rule wp_mono [OF wp_reset [OF env w s]]) (auto intro: wp_take_slot [OF _ s c nd])

text \<open>What is parked: the slot's buffer, and the two outcomes of an empty slot.\<close>

lemma slot_buffer:
  assumes "sinv w" "s < length (h_shared w)"
  shows "sh_buffer (h_shared w ! s) = None \<Longrightarrow> slot_empty (h_shared w ! s)"
    "sh_buffer (h_shared w ! s) = Some p \<Longrightarrow> \<exists>cb. slot_is (h_shared w ! s) p cb"
  using slot_cases [OF assms] by (auto simp: slot_is_def slot_empty_def elim!: slot_cases [OF assms])

lemma wp_park:
  fixes w :: "'y world_scheme"
  assumes w: "sinv w" and s: "s < length (h_shared w)" and c: "arriving s b cb w"
    and "sh_buffer (h_shared w ! s) = None" "\<not> sh_dropped (h_shared w ! s)"
  shows "wp (setPending s i b cb) (\<lambda>_. copied cb w) sinv w"
  using assms(4,5) slot_buffer(1) [OF w s] arrivingD [OF c] by (intro wp_setPending [OF w s])

lemma wp_stream_copy:
  fixes w :: "'y world_scheme"
  assumes env: "env_ok env" and w: "sinv w" and s: "s < length (h_shared w)" and c: "arriving s b cb w"
  shows "wp (stream_read env s i b cb) (\<lambda>_. copied cb w) sinv w"
    "wp (stream_write env s i b cb) (\<lambda>_. copied cb w) sinv w"
proof -
  note finish = wp_copied_done [OF env w arrivingD(1) [OF c]]
  note fill = wp_park [OF w s c]
  note meet = wp_meet [OF env w s _ _ c _ refl]
  note supersede = wp_supersede [OF env w s _ c]
  show "wp (stream_read env s i b cb) (\<lambda>_. copied cb w) sinv w"
    unfolding stream_read_def
    by (auto simp: wps assertSameElemType_def trapOnSameInstance_def w
        intro!: finish fill meet supersede dest!: slot_buffer(2) [OF w s] split: option.split)
  show "wp (stream_write env s i b cb) (\<lambda>_. copied cb w) sinv w"
    unfolding stream_write_def
    by (auto simp: wps assertSameElemType_def trapOnSameInstance_def w
        intro!: finish fill meet supersede dest!: slot_buffer(2) [OF w s] split: option.split)
qed

text \<open>A future's copy moves its one value, then completes both sides.\<close>

lemma wp_complete_both:
  fixes w :: "'y world_scheme"
  assumes env: "env_ok env" and w: "sinv w" and s: "s < length (h_shared w)" and c: "arriving s b cb w"
    and t: "cframe w t" and "moves m"
  shows "wp (seqm m (seqm (resetAndNotifyPending env s r) (run_onCopyDone env cb r'))) (\<lambda>_. copied cb w) sinv t"
proof -
  have "wp (run_onCopyDone env cb r') (\<lambda>_. copied cb w) sinv v" if u: "cframe w u" and v: "reset_post s u v" for u v
  proof -
    have "caller s b cb v"
      by (rule caller_mono [OF arrivingD(1) [OF arriving_cframe [OF u c]]])
        (use v s in \<open>auto simp: reset_post_def cframe_sel [OF u]\<close>)
    moreover have "copied cb w x" if "copied cb v x" for x
      by (rule copied_cframe [OF u copied_after [OF that]]) (use v in \<open>simp_all add: reset_post_def\<close>)
    ultimately show ?thesis
      using v by (intro wp_mono [OF wp_copied_done [OF env]]) (auto simp: reset_post_def)
  qed
  then have "wp (resetAndNotifyPending env s r) (\<lambda>_. wp (run_onCopyDone env cb r') (\<lambda>_. copied cb w) sinv) sinv u" if u: "cframe w u" for u
    using u s by (intro wp_mono [OF wp_reset [OF env sinv_cframe [OF u w]]]) (auto simp: cframe_sel [OF u])
  from this [OF cframe_trans [OF t]] show ?thesis
    unfolding wp_seqm by (rule wp_mono [OF wp_movesD [OF assms(6) sinv_cframe [OF t w]]]) simp
qed

lemma wp_future_copy:
  fixes w :: "'y world_scheme"
  assumes env: "env_ok env" and w: "sinv w" and s: "s < length (h_shared w)" and c: "arriving s b cb w"
  shows "wp (future_read env s i b cb) (\<lambda>_. copied cb w) sinv w"
    "wp (future_write env s i b cb) (\<lambda>_. copied cb w) sinv w"
proof -
  note finish = wp_copied_done [OF env w arrivingD(1) [OF c]]
  note fill = wp_park [OF w s c]
  have both: "wp (bnd (buf_read env p (Suc 0)) (\<lambda>vs. seqm (buf_write env q vs) (seqm (resetAndNotifyPending env s COMPLETED)
      (run_onCopyDone env cb COMPLETED)))) (\<lambda>_. copied cb w) sinv w" for p q
    unfolding wp_bnd
    by (rule wp_mono [OF wp_movesD [OF moves_bufs(1) [OF env] w]])
      (auto intro!: wp_complete_both [OF env w s c] moves_bufs [OF env])
  show "wp (future_read env s i b cb) (\<lambda>_. copied cb w) sinv w"
    unfolding future_read_def
    by (auto simp: wps w future_sameInstance_def intro!: finish fill both [unfolded wp_bnd] split: option.split)
  show "wp (future_write env s i b cb) (\<lambda>_. copied cb w) sinv w"
    unfolding future_write_def
    by (auto simp: wps w future_sameInstance_def intro!: finish fill both [unfolded wp_bnd] split: option.split)
qed

lemma wp_end_copy:
  fixes w :: "'y world_scheme"
  assumes env: "env_ok env" and w: "sinv w" and s: "ce_shared x < length (h_shared w)" and c: "arriving (ce_shared x) b cb w"
  shows "wp (end_copy env x i b cb) (\<lambda>_. copied cb w) sinv w"
  using wp_stream_copy [OF env w s c] wp_future_copy [OF env w s c]
  by (simp add: end_copy_def split: end_kind.split end_side.split)

section \<open>Drop\<close>

text \<open>
  What a drop leaves behind, whether it returns or throws: the object is dropped, every event
  is still there, and no end is forgotten.
\<close>

definition drop_post :: "nat \<Rightarrow> 'y world_scheme \<Rightarrow> 'y world_scheme \<Rightarrow> bool" where
  "drop_post s w t \<longleftrightarrow> sinv t \<and> h_ends t = h_ends w \<and> length (h_shared t) = length (h_shared w) \<and>
     sh_dropped (h_shared t ! s) \<and> (\<forall>X. live_but X w \<longrightarrow> live_but X t) \<and>
     (\<forall>d < length (h_ends w). pend w d \<noteq> None \<longrightarrow> pend t d \<noteq> None) \<and>
     (\<forall>side. end_of (h_shared t ! s) side = end_of (h_shared w ! s) side)"

lemma drop_post_trans: "drop_post s w u \<Longrightarrow> drop_post s u v \<Longrightarrow> drop_post s w v"
  by (simp add: drop_post_def)

lemma drop_post_refl: "sinv w \<Longrightarrow> sh_dropped (h_shared w ! s) \<Longrightarrow> drop_post s w w"
  by (simp add: drop_post_def)

lemma drop_postD:
  assumes "drop_post s w t"
  shows "sinv t" "sh_dropped (h_shared t ! s)" "h_ends t = h_ends w" "length (h_shared t) = length (h_shared w)"
    "live_but X w \<Longrightarrow> live_but X t" "d < length (h_ends w) \<Longrightarrow> pend w d \<noteq> None \<Longrightarrow> pend t d \<noteq> None"
    "end_of (h_shared t ! s) side = end_of (h_shared w ! s) side"
  using assms by (simp_all add: drop_post_def)

definition dropping :: "nat \<Rightarrow> ('y, unit) sm \<Rightarrow> bool" where
  "dropping s a \<longleftrightarrow> (\<forall>w. sinv w \<longrightarrow> s < length (h_shared w) \<longrightarrow> sh_dropped (h_shared w ! s) \<longrightarrow>
     wp a (\<lambda>_. drop_post s w) (drop_post s w) w)"

lemma wp_dropping:
  assumes "dropping s a" "drop_post s w u" "s < length (h_shared w)"
  shows "wp a (\<lambda>_. drop_post s w) (drop_post s w) u"
proof -
  have "wp a (\<lambda>_. drop_post s u) (drop_post s u) u"
    using assms drop_postD [OF assms(2)] by (simp add: dropping_def)
  then show ?thesis by (rule wp_mono) (blast intro: drop_post_trans [OF assms(2)])+
qed

lemma dropping_seqm: "dropping s a \<Longrightarrow> dropping s b \<Longrightarrow> dropping s (seqm a b)"
  unfolding dropping_def [of s "seqm a b"] wp_seqm
  by (auto intro!: wp_mono [OF wp_dropping [OF _ drop_post_refl]] wp_dropping [of s b])

lemma dropping_ret: "dropping s (ret ())"
  by (simp add: dropping_def wps drop_post_refl)

lemma dropping_quiet: "keeps cframe a \<Longrightarrow> dropping s a"
  unfolding dropping_def
  by (intro allI impI wpI) (auto simp: drop_post_def cframe_sel sinv_cframe live_but_cframe dest: keepsD)

lemma drop_post_idle:
  assumes w: "sinv w" and d: "sh_dropped (h_shared w ! s)" and e: "e < length (h_ends w)" "ce_shared (h_ends w ! e) = s"
    and x: "ce_state (h_ends w ! e) \<noteq> DONE"
  shows "drop_post s w (arm (ce_wait (h_ends w ! e)) (Some (IdleDrop e r)) w)"
proof -
  have "sinv (arm (ce_wait (h_ends w ! e)) (Some (IdleDrop e r)) w)"
    using w e d x by (intro sinv_arm) (simp_all add: pend_ok_def)
  then show ?thesis
    using d live_arm_weak [OF sinvD(1) [OF w] e(1)] pend_arm [OF sinvD(1) [OF w] e(1)] by (auto simp: drop_post_def)
qed

lemma wp_notifyIdleDrop:
  assumes w: "sinv w" and d: "sh_dropped (h_shared w ! s)" and e: "e < length (h_ends w)" "ce_shared (h_ends w ! e) = s"
  shows "wp (notifyIdleDrop e) (\<lambda>_. drop_post s w) (drop_post s w) w"
  using drop_post_idle [OF w d e] drop_post_refl [OF w d] by (simp add: notifyIdleDrop_def armIdleDrop_def wps)

lemma wp_notify_end:
  assumes u: "drop_post s w u" and s: "s < length (h_shared w)"
  shows "wp (notify_opt (end_of (h_shared w ! s) side)) (\<lambda>_. drop_post s w) (drop_post s w) u"
proof (cases "end_of (h_shared w ! s) side")
  case None
  then show ?thesis using u by (simp add: notify_opt_def wps)
next
  case (Some e)
  then have "e < length (h_ends u)" "ce_shared (h_ends u ! e) = s"
    using ends_okD(5) [OF sinvD(1) [OF drop_postD(1) [OF u]], of s side e] drop_postD(4,7) [OF u] s by auto
  from wp_notifyIdleDrop [OF drop_postD(1,2) [OF u] this] show ?thesis
    unfolding notify_opt_def Some by (auto elim!: wp_mono intro: drop_post_trans [OF u])
qed

lemma dropping_notify_peers: "dropping s (notify_peers s side)"
proof -
  have "wp (notify_opt (end_of (h_shared w ! s) a)) (\<lambda>_. wp (notify_opt (end_of (h_shared w ! s) b)) (\<lambda>_. drop_post s w) (drop_post s w))
      (drop_post s w) w"
    if "sinv w" "s < length (h_shared w)" "sh_dropped (h_shared w ! s)" for w :: "'a world_scheme" and a b
    by (rule wp_mono [OF wp_notify_end [OF drop_post_refl [OF that(1,3)] that(2)]]) (use that(2) in \<open>auto intro: wp_notify_end\<close>)
  from this [where a = Readable and b = Writable] show ?thesis
    using wp_notify_end [OF drop_post_refl, where side = Readable] wp_notify_end [OF drop_post_refl, where side = Writable]
    by (auto simp: dropping_def notify_peers_def wps end_of_def split: option.split end_side.split)
qed

lemma dropping_neutral:
  assumes f: "neutral f" shows "dropping s (upd_shared s f)"
proof -
  have "drop_post s w (put_shared s f w)" if w: "sinv w" "s < length (h_shared w)" "sh_dropped (h_shared w ! s)" for w :: "'a world_scheme"
  proof -
    have "owns (f sh) e = owns sh e" for sh e using f by (simp add: neutral_def owns_def)
    then show ?thesis using sinv_neutral [OF w(1,2) f] w f by (auto simp: drop_post_def live_but_def neutral_def)
  qed
  then show ?thesis by (simp add: dropping_def wps)
qed

lemma dropping_bnd_gets:
  assumes "\<And>x. dropping s (f x)" shows "dropping s (bnd (shared_at s) f)"
  using assms by (simp add: dropping_def wps)

lemma dropping_notifyDropped:
  assumes "env_ok env" shows "dropping s (notifyDropped env s)"
proof -
  have "keeps cframe (iterm (\<lambda>fn. catching (env_observe env fn) (\<lambda>_. ret ())) fns)" for fns
    by (intro keeps_iterm keeps_catching env_okD(2) [OF assms] keeps_ret cframe_order)
  then show ?thesis
    unfolding notifyDropped_def
    by (intro dropping_bnd_gets)
      (auto simp del: run_rules intro!: dropping_seqm dropping_ret dropping_neutral dropping_quiet [of "iterm _ _"] split: option.split)
qed

lemma sinv_drop_post:
  assumes "sinv w" "s < length (h_shared w)" "f (h_shared w ! s) = drop_shared (h_shared w ! s)"
  shows "drop_post s w (put_shared s f w)"
proof -
  have "put_shared s f w = put_shared s drop_shared w" using assms(3) by (simp add: put_shared_def)
  then show ?thesis using sinv_drop [OF assms(1,2)] assms(2) by (auto simp: drop_post_def live_but_def)
qed

lemma clear_empty: "slot_empty sh \<Longrightarrow> clear_slot sh = sh"
  by (cases sh) (simp add: slot_empty_def clear_slot_def)

lemma clear_dropped: "clear_slot (sh\<lparr>sh_dropped := True\<rparr>) = drop_shared sh"
  by (cases sh) (simp add: drop_shared_def clear_slot_def)

lemma drop_post_quiet: "quiet v t \<Longrightarrow> sh_dropped (h_shared v ! s) \<Longrightarrow> drop_post s v t"
  by (simp add: drop_post_def quiet_def)

lemma drop_post_done: "done_post cb v t \<Longrightarrow> sh_dropped (h_shared v ! s) \<Longrightarrow> drop_post s v t"
  unfolding drop_post_def done_post_def by (metis Diff_subset live_but_mono)

lemma wp_shared_drop:
  fixes w :: "'y world_scheme"
  assumes env: "env_ok env" and w: "sinv w" and s: "s < length (h_shared w)"
  shows "wp (shared_drop env s side) (\<lambda>_. drop_post s w) (drop_post s w) w"
proof (cases "sh_dropped (h_shared w ! s)")
  case True
  then show ?thesis using w by (simp add: shared_drop_def wps drop_post_refl)
next
  case False
  let ?u = "put_shared s (\<lambda>sh. sh\<lparr>sh_dropped := True\<rparr>) w"
  let ?v = "put_shared s drop_shared w"
  have v: "drop_post s w ?v" by (rule sinv_drop_post [OF w s]) simp
  have tail: "wp (seqm (notify_peers s side) (notifyDropped env s)) (\<lambda>_. drop_post s w) (drop_post s w) t" if "drop_post s w t" for t
    by (rule wp_dropping [OF dropping_seqm [OF dropping_notify_peers dropping_notifyDropped [OF env]] that s])
  have body: "wp (if sh_buffer (h_shared w ! s) \<noteq> None then resetAndNotifyPending env s DROPPED else ret ())
      (\<lambda>_. drop_post s w) (drop_post s w) ?u"
    using w s
  proof (cases rule: slot_cases)
    case 1
    then have "?u = ?v" by (simp add: put_shared_def drop_shared_def clear_empty)
    with 1 v show ?thesis by (simp add: wps slot_empty_def)
  next
    case (2 b cb)
    have "put_shared s clear_slot ?u = ?v"
      using s by (simp add: put_shared_def clear_dropped)
    then have run: "resetAndNotifyPending env s DROPPED ?u = run_onCopyDone env cb DROPPED ?v"
      using 2(1) s by (simp add: resetAndNotifyPending_def monad_simps heap_runs slot_is_def)
    have c: "caller s b cb ?v"
      using owner_of [OF w s 2(1)] s by (intro callerI) simp_all
    have "drop_post s w t" if "done_post cb ?v t \<or> quiet ?v t" for t
      using that drop_post_done [of cb ?v t s] drop_post_quiet [of ?v t s] drop_postD(2) [OF v] drop_post_trans [OF v] by blast
    then have "wp (run_onCopyDone env cb DROPPED) (\<lambda>_. drop_post s w) (drop_post s w) ?v"
      by (intro wp_mono [OF wp_done_quiet [OF env drop_postD(1) [OF v] c]]) blast+
    then show ?thesis using 2(1) by (simp add: slot_is_def wp_def run)
  qed
  have "wp (ensuring (if sh_buffer (h_shared w ! s) \<noteq> None then resetAndNotifyPending env s DROPPED else ret ())
      (seqm (notify_peers s side) (notifyDropped env s))) (\<lambda>_. drop_post s w) (drop_post s w) ?u"
    unfolding wp_ensuring by (rule wp_mono [OF body]) (auto intro: tail)
  with False show ?thesis
    unfolding shared_drop_def wp_bnd wp_heap by (simp only: if_False wp_seqm [of "upd_shared _ _"] wp_heap)
qed

text \<open>
  The drop of a teardown: what a dead guest has parked is taken away without notice. After the
  slot is emptied the state need not be good until the object is dropped.
\<close>

lemma wp_drop_emptied:
  fixes w u :: "'y world_scheme"
  assumes env: "env_ok env" and s: "s < length (h_shared w)"
    and u: "drop_post s w (put_shared s (\<lambda>sh. sh\<lparr>sh_dropped := True\<rparr>) u)"
    and "sh_buffer (h_shared u ! s) = None" "\<not> sh_dropped (h_shared u ! s)"
  shows "wp (shared_drop env s side) (\<lambda>_. drop_post s w) (drop_post s w) u"
  using assms(4,5) wp_dropping [OF dropping_seqm [OF dropping_notify_peers dropping_notifyDropped [OF env]] u s, of side]
  by (simp add: shared_drop_def wps)

lemma drop_shared_clear: "(clear_slot sh)\<lparr>sh_dropped := True\<rparr> = drop_shared sh"
  by (cases sh) (simp add: drop_shared_def clear_slot_def)

lemma put_put [simp]: "put_shared s f (put_shared s g w) = put_shared s (\<lambda>sh. f (g sh)) w"
  by (cases "s < length (h_shared w)") (simp_all add: put_shared_def list_update_beyond not_less)

lemma wp_dropForTeardown:
  fixes w :: "'y world_scheme"
  assumes env: "env_ok env" and w: "sinv w" and s: "s < length (h_shared w)"
  shows "wp (dropSharedForTeardown env s side) (\<lambda>_. drop_post s w) (drop_post s w) w"
proof -
  have "wp (shared_drop env s side) (\<lambda>_. drop_post s w) (drop_post s w) (put_shared s clear_slot w)" if "\<not> sh_dropped (h_shared w ! s)"
  proof (rule wp_drop_emptied [OF env s])
    show "drop_post s w (put_shared s (\<lambda>sh. sh\<lparr>sh_dropped := True\<rparr>) (put_shared s clear_slot w))"
      unfolding put_put by (rule sinv_drop_post [OF w s]) (rule drop_shared_clear)
  qed (use that s in \<open>simp_all add: clear_slot_def\<close>)
  then show ?thesis
    using wp_shared_drop [OF env w s, of side] w by (auto simp: dropSharedForTeardown_def wps drop_post_refl)
qed

end
