(* ===== verification/Async_Invariant.thy ===== *)
theory Async_Invariant
  imports Stream_Protocol
begin

text \<open>
  The built-ins of streams, futures and waitable sets keep the invariant, whatever they
  return, and forget no waiting end when they succeed. Then every state that any sequence of
  them reaches is good.
\<close>

section \<open>Delivery\<close>

text \<open>What a built-in promises.\<close>

definition good :: "'y world_scheme \<Rightarrow> 'y world_scheme \<Rightarrow> bool" where
  "good w t \<longleftrightarrow> sinv t \<and> (live w \<longrightarrow> live t)"

text \<open>\<open>settles X w t\<close>: the ends of \<open>X\<close> no longer wait unseen.\<close>

definition settles :: "nat set \<Rightarrow> 'y world_scheme \<Rightarrow> 'y world_scheme \<Rightarrow> bool" where
  "settles X w t \<longleftrightarrow> sinv t \<and> length (h_ends t) = length (h_ends w) \<and> (\<forall>Y. live_but Y w \<longrightarrow> live_but (Y - X) t)"

lemma settles_cframe: "sinv w \<Longrightarrow> cframe w t \<Longrightarrow> settles {} w t"
  using sinv_cframe [of w t] live_but_cframe [of w t] by (simp add: settles_def cframe_sel)

lemma settles_trans:
  assumes "settles X w u" "settles Z u v" shows "settles (X \<union> Z) w v"
proof -
  have "Y - (X \<union> Z) = Y - X - Z" for Y by blast
  then show ?thesis using assms by (simp add: settles_def)
qed

lemma settles_mono: "settles X w t \<Longrightarrow> X \<subseteq> Z \<Longrightarrow> (\<And>e. e \<in> Z \<Longrightarrow> e \<notin> X \<Longrightarrow> False) \<Longrightarrow> settles Z w t"
  by (metis subsetI subset_antisym)

text \<open>The event of an end is consumed; then its thunk moves the end on.\<close>

lemma settle_end:
  fixes u :: "'y world_scheme"
  assumes u: "sinv u" and e: "e < length (h_ends u)" "pend u e = None" "\<not> owns (h_shared u ! ce_shared (h_ends u ! e)) e"
    and x: "x = IDLE \<or> x = DONE"
  shows "sinv (put_end e (\<lambda>y. y\<lparr>ce_state := x\<rparr>) u)"
    "live_but (insert e Y) u \<Longrightarrow> live_but (Y - {e}) (put_end e (\<lambda>y. y\<lparr>ce_state := x\<rparr>) u)"
proof -
  show "sinv (put_end e (\<lambda>y. y\<lparr>ce_state := x\<rparr>) u)"
    using e by (intro sinv_put_end [OF u]) (simp_all add: pend_ok_def)
  show "live_but (Y - {e}) (put_end e (\<lambda>y. y\<lparr>ce_state := x\<rparr>) u)" if "live_but (insert e Y) u"
    using that e(1) x by (auto simp: live_but_def copying_def)
qed

lemma wp_stream_event:
  fixes w :: "'y world_scheme"
  assumes w: "sinv w" and e: "e < length (h_ends w)" and p: "pend w e = Some (StreamEvent e b r rc c)"
  shows "wp (stream_event e b r rc c) (\<lambda>_. settles {e} w) sinv (arm (ce_wait (h_ends w ! e)) None w)"
proof -
  let ?v = "arm (ce_wait (h_ends w ! e)) None w"
  let ?s = "ce_shared (h_ends w ! e)"
  let ?u = "case rc of NoReclaim \<Rightarrow> ?v | ResetPending s \<Rightarrow> put_shared s clear_slot ?v"
  note P = sinv_pend [OF w e, unfolded p pend_ok_def]
  have s: "?s < length (h_shared w)" by (rule ends_okD(1) [OF sinvD(1) [OF w] e])
  have v: "sinv ?v" by (rule sinv_take [OF w e])
  have pv: "pend ?v d = (if d = e then None else pend w d)" if "d < length (h_ends w)" for d
    by (rule pend_arm [OF sinvD(1) [OF w] e that])
  have owner: "d = e" if o: "owns (h_shared w ! ?s) d" and n: "rc \<noteq> NoReclaim" for d
  proof -
    obtain b' cb where slot: "slot_is (h_shared w ! ?s) b' cb" "cb_end cb = Some d" using o unfolding owns_def by blast
    then have "slot_is (h_shared w ! ?s) b (StreamCb e b c)" using P n owner_of(5) [OF w s slot] by auto
    from slot_is_unique [OF slot(1) this] show ?thesis using slot(2) by auto
  qed
  have own: "\<not> owns (h_shared w ! ?s) e" if "rc = NoReclaim" using P that by simp
  have own: "\<not> owns (h_shared w ! ?s) e" if "rc = NoReclaim" using P that by simp
  have rc: "rc = ResetPending t \<Longrightarrow> t = ?s" for t using P by simp
  have clear: "sinv (put_shared ?s clear_slot ?v)" if n: "rc \<noteq> NoReclaim"
  proof (rule sinv_clear [OF v])
    fix d b' cb assume "slot_is (h_shared ?v ! ?s) b' cb" "cb_end cb = Some d"
    then have "d = e" using owner n by (auto simp: owns_def)
    then show "pend ?v d = None" using pv [OF e] by simp
  qed (use s in simp)
  have rc: "rc = NoReclaim \<or> rc = ResetPending ?s" using P by auto
  have u: "sinv ?u" "\<not> owns (h_shared ?u ! ?s) e" "h_ends ?u = h_ends w" "pend ?u e = None"
    using rc v clear s own pv [OF e] by auto
  have live: "live_but (insert e Y) ?u" if "live_but Y w" for Y
    unfolding live_but_def
  proof (intro allI impI, goal_cases)
    case (1 d)
    then show ?case
      using rc that [unfolded live_but_def, rule_format, of d] pv [of d] s owner [of d]
      by (cases "ce_shared (h_ends w ! d) = ?s") auto
  qed
  have fin: "settles {e} w (put_end e (\<lambda>y. y\<lparr>ce_state := x\<rparr>) ?u)" if "x = IDLE \<or> x = DONE" for x
    using settle_end [OF u(1) _ u(4) _ that] u(2,3) e live by (simp add: settles_def)
  have fin': "sinv (put_end e (\<lambda>y. y\<lparr>ce_state := x\<rparr>) ?u)" if "x = IDLE \<or> x = DONE" for x
    using fin [OF that] by (simp add: settles_def)
  show ?thesis
    using rc fin fin' u(1) e by (elim disjE) (auto simp: stream_event_def wps Let_def idle_index_def split: option.split)
qed

lemma wp_future_event:
  fixes w :: "'y world_scheme"
  assumes w: "sinv w" and e: "e < length (h_ends w)" and p: "pend w e = Some (FutureEvent e b r c)"
  shows "wp (future_event e b r c) (\<lambda>_. settles {e} w) sinv (arm (ce_wait (h_ends w ! e)) None w)"
proof -
  let ?v = "arm (ce_wait (h_ends w ! e)) None w"
  note P = sinv_pend [OF w e, unfolded p pend_ok_def]
  have v: "sinv ?v" by (rule sinv_take [OF w e])
  have pv: "pend ?v d = (if d = e then None else pend w d)" if "d < length (h_ends w)" for d
    by (rule pend_arm [OF sinvD(1) [OF w] e that])
  have live: "live_but (insert e Y) ?v" if "live_but Y w" for Y
    using that pv by (simp add: live_but_def)
  have fin: "settles {e} w (put_end e (\<lambda>y. y\<lparr>ce_state := x\<rparr>) ?v)" if "x = IDLE \<or> x = DONE" for x
    using settle_end [OF v _ _ _ that, of e] pv [OF e] P e live by (simp add: settles_def)
  have fin': "sinv (put_end e (\<lambda>y. y\<lparr>ce_state := x\<rparr>) ?v)" if "x = IDLE \<or> x = DONE" for x
    using fin [OF that] by (simp add: settles_def)
  show ?thesis
    using fin fin' v e by (auto simp: future_event_def wps Let_def idle_index_def split: option.split)
qed

lemma wp_idle_drop_event:
  fixes w :: "'y world_scheme"
  assumes w: "sinv w" and e: "e < length (h_ends w)" and p: "pend w e = Some (IdleDrop e r)"
  shows "wp (idle_drop_event e r) (\<lambda>_. settles {e} w) sinv (arm (ce_wait (h_ends w ! e)) None w)"
proof -
  let ?v = "arm (ce_wait (h_ends w ! e)) None w"
  let ?s = "ce_shared (h_ends w ! e)"
  note P = sinv_pend [OF w e, unfolded p pend_ok_def]
  have s: "?s < length (h_shared w)" by (rule ends_okD(1) [OF sinvD(1) [OF w] e])
  have v: "sinv ?v" by (rule sinv_take [OF w e])
  have pv: "pend ?v d = (if d = e then None else pend w d)" if "d < length (h_ends w)" for d
    by (rule pend_arm [OF sinvD(1) [OF w] e that])
  have own: "\<not> owns (h_shared w ! ?s) e"
    using P owner_of(5) [OF w s] unfolding owns_def by auto
  have live: "live_but (insert e Y) ?v" if "live_but Y w" for Y
    using that pv by (simp add: live_but_def)
  have fin: "settles {e} w (put_end e (\<lambda>y. y\<lparr>ce_state := DONE\<rparr>) ?v)"
    using settle_end [OF v, of e DONE] pv [OF e] own e live by (simp add: settles_def)
  then have "sinv (put_end e (\<lambda>y. y\<lparr>ce_state := DONE\<rparr>) ?v)" by (simp add: settles_def)
  then show ?thesis
    using fin v e by (auto simp: idle_drop_event_def wps idle_index_def split: option.split)
qed

text \<open>An instance whose table and subtasks keep their shape.\<close>

definition inst_same :: "cst \<Rightarrow> cst \<Rightarrow> bool" where
  "inst_same c d \<longleftrightarrow> c_handles d = c_handles c \<and> map sb_wait (c_subtasks d) = map sb_wait (c_subtasks c)"

lemma inst_same_order: "reflp inst_same" "transp inst_same"
  by (auto intro!: reflpI transpI simp: inst_same_def)

lemma inst_same_ok: "inst_same c d \<Longrightarrow> inst_ok w c \<Longrightarrow> inst_ok w d"
proof -
  assume s: "inst_same c d" and c: "inst_ok w c"
  have n: "length (c_subtasks d) = length (c_subtasks c)"
    using s unfolding inst_same_def by (metis length_map)
  have "sb_wait ` set (c_subtasks d) = sb_wait ` set (c_subtasks c)"
    using s unfolding inst_same_def by (metis set_map)
  moreover have "\<forall>q \<in> sb_wait ` set (c_subtasks c). q < length (w_waitables w) \<and> (\<forall>e < length (h_ends w). ce_wait (h_ends w ! e) \<noteq> q)"
    using c by (auto simp: inst_ok_def subtask_ok_def)
  ultimately have "\<forall>sb \<in> set (c_subtasks d). subtask_ok w sb"
    unfolding subtask_ok_def by (metis imageI)
  then show ?thesis using s c n by (simp add: inst_ok_def inst_same_def entry_ok_def)
qed

lemma cframe_inst:
  fixes w :: "'y world_scheme"
  assumes "k < length (w_insts w) \<Longrightarrow> inst_ok w (w_insts w ! k) \<Longrightarrow> inst_ok w c"
  shows "cframe w (w\<lparr>w_insts := (w_insts w)[k := c]\<rparr>)"
proof -
  have same: "inst_ok (w\<lparr>w_insts := (w_insts w)[k := c]\<rparr>) = (inst_ok w :: cst \<Rightarrow> bool)"
    by (simp add: fun_eq_iff inst_ok_def entry_ok_def subtask_ok_def)
  have "tables_ok (w\<lparr>w_insts := (w_insts w)[k := c]\<rparr>)" if "tables_ok w"
    unfolding tables_ok_def same
  proof
    fix d assume "d \<in> set (w_insts (w\<lparr>w_insts := (w_insts w)[k := c]\<rparr>))"
    then obtain j where j: "j < length (w_insts w)" "d = (w_insts w)[k := c] ! j" by (auto simp: in_set_conv_nth)
    then show "inst_ok w d"
      using that assms by (cases "j = k") (simp_all add: tables_ok_def)
  qed
  then show ?thesis by (simp add: cframe_def is_guest_def bufs_ok_def)
qed

lemma at_cst_run:
  assumes "at_cst k a w = (r, t)"
  obtains c where "a (w_insts w ! k) = (r, c)" "t = w\<lparr>w_insts := (w_insts w)[k := c]\<rparr>"
  using assms unfolding at_cst_def zoom_def by (cases "a (w_insts w ! k)") simp

lemma keeps_at_cst:
  assumes "keeps inst_same a" shows "keeps cframe (at_cst k a)"
proof (rule keepsI)
  fix w r t assume "at_cst k a w = (r, t)"
  then obtain c where c: "a (w_insts w ! k) = (r, c)" "t = w\<lparr>w_insts := (w_insts w)[k := c]\<rparr>" by (rule at_cst_run)
  show "cframe w t"
    unfolding c(2) using inst_same_ok [OF keepsD [OF assms c(1)]] by (rule cframe_inst)
qed

named_theorems inst_keeping \<open>operations that keep the shape of an instance\<close>

lemmas keeps_inst_same [inst_keeping] =
  keeps_bnd [OF inst_same_order(2)] keeps_seqm [OF inst_same_order(2)] keeps_ret [OF inst_same_order(1)]
  keeps_throw [OF inst_same_order(1)] keeps_gets [OF inst_same_order(1)] keeps_of_res [OF inst_same_order(1)]
  keeps_trapIf [OF inst_same_order(1)] keeps_assertm [OF inst_same_order(1)]

lemma keeps_inst_iterm [inst_keeping]: "(\<And>x. keeps inst_same (f x)) \<Longrightarrow> keeps inst_same (iterm f xs)"
  by (induction xs) (simp_all del: ret_run add: inst_keeping)

lemma map_update_same: "f x = f (xs ! j) \<Longrightarrow> map f (xs[j := x]) = map f xs"
  by (cases "j < length xs") (simp_all add: list_eq_iff_nth_eq nth_list_update list_update_beyond)

lemma keeps_subtask [inst_keeping]:
  "keeps inst_same (subtask_at j)" "keeps inst_same (add_lends h n)" "keeps inst_same (resolveDelivered j)"
  "keeps inst_same (update_subtask j (\<lambda>sb. sb\<lparr>sb_lenders := l sb\<rparr>))"
proof -
  show "keeps inst_same (subtask_at j)" by (simp add: subtask_at_def inst_keeping)
  show "keeps inst_same (resolveDelivered j)" by (simp add: resolveDelivered_def subtask_at_def inst_keeping)
  show "keeps inst_same (add_lends h n)" by (simp add: add_lends_def keeps_def inst_same_def)
  show "keeps inst_same (update_subtask j (\<lambda>sb. sb\<lparr>sb_lenders := l sb\<rparr>))"
    by (simp add: update_subtask_def keeps_def inst_same_def map_update_same)
qed

lemma keeps_deliverResolve [inst_keeping]: "keeps inst_same (deliverResolve j)"
  unfolding deliverResolve_def by (intro inst_keeping)

lemma keeps_subtask_event: "keeps cframe (subtask_event k j i)"
  unfolding subtask_event_def by (auto simp del: run_rules intro!: keeps_moving keeps_at_cst inst_keeping)

text \<open>Taking the event of any waitable.\<close>

definition served :: "'y world_scheme \<Rightarrow> 'y world_scheme \<Rightarrow> bool" where
  "served w t \<longleftrightarrow> sinv t \<and> length (h_ends t) = length (h_ends w) \<and> (\<forall>Y. live_but Y w \<longrightarrow> live_but Y t)"

lemma served_settles: "settles X w t \<Longrightarrow> served w t"
  unfolding settles_def served_def by (metis Diff_subset live_but_mono)

lemma served_cframe: "sinv w \<Longrightarrow> cframe w t \<Longrightarrow> served w t"
  using settles_cframe served_settles by blast

lemma served_trans: "served w u \<Longrightarrow> served u v \<Longrightarrow> served w v"
  by (simp add: served_def)

lemma served_refl [simp]: "served w w = sinv w"
  by (simp add: served_def)

lemma stray_pend:
  assumes "sinv w" "k < length (w_waitables w)" "\<And>e. e < length (h_ends w) \<Longrightarrow> ce_wait (h_ends w ! e) \<noteq> k"
    "wt_pending (w_waitables w ! k) = Some p"
  obtains i j n where "p = SubtaskEvent i j n"
  using sinvD(6) [OF assms(1)] assms(2-4) unfolding stray_ok_def
  by (cases p) (fastforce split: pending_event.splits)+

lemma sinv_take_stray:
  assumes w: "sinv w" and k: "\<And>e. e < length (h_ends w) \<Longrightarrow> ce_wait (h_ends w ! e) \<noteq> k"
    and p: "case p of None \<Rightarrow> True | Some (SubtaskEvent _ _ _) \<Rightarrow> True | _ \<Rightarrow> False"
  shows "sinv (arm k p w)" "\<And>Y. live_but Y w \<Longrightarrow> live_but Y (arm k p w)"
proof -
  have pe: "pend (arm k p w) d = pend w d" if "d < length (h_ends w)" for d
    using k [OF that] by (simp add: pend_def arm_def)
  have "stray_ok (arm k p w)"
    unfolding stray_ok_def
  proof (intro allI impI)
    fix j assume "j < length (w_waitables (arm k p w))"
    then show "(\<exists>e < length (h_ends (arm k p w)). ce_wait (h_ends (arm k p w) ! e) = j) \<or>
        (case wt_pending (w_waitables (arm k p w) ! j) of None \<Rightarrow> True | Some (SubtaskEvent _ _ _) \<Rightarrow> True | _ \<Rightarrow> False)"
      using sinvD(6) [OF w] p by (cases "j = k") (auto simp: stray_ok_def arm_def)
  qed
  moreover have "ends_ok (arm k p w) = ends_ok w" by (simp add: ends_ok_def)
  moreover have "tables_ok (arm k p w) = tables_ok w"
    by (simp add: tables_ok_def inst_ok_def entry_ok_def subtask_ok_def)
  moreover have "bufs_ok (arm k p w) = bufs_ok w" by (simp add: bufs_ok_def)
  moreover have "local_ok (arm k p w) s" if "local_ok w s" for s
    using that pe by (simp add: local_ok_def slot_ok_def)
  ultimately show "sinv (arm k p w)" using w by (simp add: sinv_def)
  show "live_but Y (arm k p w)" if "live_but Y w" for Y
    using that pe by (simp add: live_but_def)
qed

lemma wp_run_taken:
  fixes w :: "'y world_scheme"
  assumes w: "sinv w" and k: "k < length (w_waitables w)" and p: "wt_pending (w_waitables w ! k) = Some p"
  shows "wp (run_event p) (\<lambda>_ t. served w t \<and> (\<forall>e < length (h_ends w). ce_wait (h_ends w ! e) = k \<longrightarrow> settles {e} w t)) sinv (arm k None w)"
proof (cases "\<exists>e < length (h_ends w). ce_wait (h_ends w ! e) = k")
  case True
  then obtain e where e: "e < length (h_ends w)" "ce_wait (h_ends w ! e) = k" by blast
  then have pe: "pend w e = Some p" using p by (simp add: pend_def)
  have only: "d = e" if "d < length (h_ends w)" "ce_wait (h_ends w ! d) = k" for d
    using ends_okD(6) [OF sinvD(1) [OF w]] that e by blast
  have "wp (run_event p) (\<lambda>_. settles {e} w) sinv (arm k None w)"
  proof (cases p)
    case (SubtaskEvent i j n)
    then show ?thesis using sinv_pend [OF w e(1)] pe by (simp add: pend_ok_def)
  next
    case (StreamEvent e' b r rc c)
    then have "e' = e" using sinv_pend [OF w e(1)] pe by (simp add: pend_ok_def)
    then show ?thesis using wp_stream_event [OF w e(1)] pe e(2) StreamEvent by simp
  next
    case (FutureEvent e' b r c)
    then have "e' = e" using sinv_pend [OF w e(1)] pe by (simp add: pend_ok_def)
    then show ?thesis using wp_future_event [OF w e(1)] pe e(2) FutureEvent by simp
  next
    case (AbandonEvent r)
    then show ?thesis using sinv_take [OF w e(1)] e(2) by (simp add: wps)
  next
    case (IdleDrop e' r)
    then have "e' = e" using sinv_pend [OF w e(1)] pe by (simp add: pend_ok_def)
    then show ?thesis using wp_idle_drop_event [OF w e(1)] pe e(2) IdleDrop by simp
  qed
  then show ?thesis by (rule wp_mono) (auto intro: served_settles dest: only)
next
  case False
  then obtain i j n where s: "p = SubtaskEvent i j n" using stray_pend [OF w k _ p] by blast
  have v: "sinv (arm k None w)" "\<And>Y. live_but Y w \<Longrightarrow> live_but Y (arm k None w)"
    using sinv_take_stray [OF w, of k None] False by auto
  then have "served w (arm k None w)" by (simp add: served_def)
  from served_trans [OF this served_cframe [OF v(1)]] show ?thesis
    using False v(1) unfolding s run_event.simps
    by (intro wp_moves [OF moves_keeps [OF keeps_subtask_event]]) auto
qed

lemma wp_get:
  fixes w :: "'y world_scheme"
  assumes w: "sinv w" and k: "k < length (w_waitables w)"
  shows "wp (getPendingEvent run_event k) (\<lambda>_ t. served w t \<and>
    (\<forall>e < length (h_ends w). ce_wait (h_ends w ! e) = k \<longrightarrow> settles {e} w t)) sinv w"
  using wp_run_taken [OF w k] w
  by (auto simp: getPendingEvent_def wps upd_waitable_def arm_def split: option.split)

text \<open>Polling a set: the event of one of its members is taken.\<close>

lemma cframe_rng: "cframe w (w\<lparr>w_rng := r\<rparr>)"
  by (simp add: cframe_def is_guest_def bufs_ok_def tables_ok_def inst_ok_def entry_ok_def subtask_ok_def)

lemma wp_wset_get:
  fixes w :: "'y world_scheme"
  assumes w: "sinv w" and k: "k < length (w_sets w)" and "wset_hasPendingEvent k w"
  shows "wp (wset_getPendingEvent run_event k) (\<lambda>_. served w) sinv w"
proof -
  obtain ws where ws: "winv w ws" using sinvD(5) [OF w] by (auto simp: waits_ok_def)
  obtain v p r where v: "v \<in> set (ws_elems (w_sets w ! k))" "wt_pending (w_waitables w ! v) = Some p"
    and run: "wset_getPendingEvent run_event k w = run_event p (consumed v r w)"
    using poll_delivers [OF ws k assms(3), where run = run_event] by metis
  have v': "v < length (w_waitables w)" by (rule winvD(3) [OF ws k v(1)])
  let ?u = "w\<lparr>w_rng := r\<rparr>"
  have u: "sinv ?u" by (rule sinv_cframe [OF cframe_rng w])
  have "consumed v r w = arm v None ?u" by (simp add: consumed_def arm_def)
  then have "wp (wset_getPendingEvent run_event k) (\<lambda>_ t. served ?u t) sinv w"
    using wp_mono [OF wp_run_taken [OF u, of v p]] v v' by (simp add: wp_def run)
  then show ?thesis by (rule wp_mono) (auto intro: served_trans [OF served_cframe [OF w cframe_rng]])
qed

section \<open>Waitables and sets\<close>

text \<open>What changes is who is in which set, who is claimed and who waits.\<close>

definition regroup :: "'y world_scheme \<Rightarrow> 'y world_scheme \<Rightarrow> bool" where
  "regroup w t \<longleftrightarrow> h_ends t = h_ends w \<and> h_shared t = h_shared w \<and> h_bufs t = h_bufs w \<and> w_insts t = w_insts w \<and>
     map wt_pending (w_waitables t) = map wt_pending (w_waitables w) \<and> length (w_sets w) \<le> length (w_sets t)"

lemma regroup_order: "reflp regroup" "transp regroup"
  by (auto intro!: reflpI transpI simp: regroup_def)

lemma regroup_pending:
  assumes "regroup w t"
  shows "length (w_waitables t) = length (w_waitables w)"
    "k < length (w_waitables w) \<Longrightarrow> wt_pending (w_waitables t ! k) = wt_pending (w_waitables w ! k)"
proof -
  show n: "length (w_waitables t) = length (w_waitables w)" using assms unfolding regroup_def by (metis length_map)
  show "k < length (w_waitables w) \<Longrightarrow> wt_pending (w_waitables t ! k) = wt_pending (w_waitables w ! k)"
    using assms n unfolding regroup_def by (metis nth_map)
qed

lemma served_regroup:
  assumes w: "sinv w" and t: "regroup w t" and wt: "waits_ok t" shows "served w t"
proof -
  have S: "h_ends t = h_ends w" "h_shared t = h_shared w" "h_bufs t = h_bufs w" "w_insts t = w_insts w"
    "length (w_sets w) \<le> length (w_sets t)" using t by (simp_all add: regroup_def)
  note P = regroup_pending [OF t]
  have pe: "pend t e = pend w e" if "e < length (h_ends w)" for e
    using P(2) ends_okD(2) [OF sinvD(1) [OF w] that] by (simp add: pend_def S)
  have "is_guest t b = is_guest w b" for b by (simp add: is_guest_def S)
  then have "local_ok t s" if "local_ok w s" for s
    using that pe by (simp add: local_ok_def slot_ok_def S)
  moreover have "tables_ok t"
  proof -
    have "entry_ok t c x" if "entry_ok w c x" for c x using that S(5) by (auto simp: entry_ok_def S(1))
    moreover have "subtask_ok t sb = subtask_ok w sb" for sb by (simp add: subtask_ok_def S P(1))
    ultimately have "inst_ok t c" if "inst_ok w c" for c using that by (simp add: inst_ok_def)
    then show ?thesis using sinvD(3) [OF w] by (simp add: tables_ok_def S)
  qed
  moreover have "ends_ok t = ends_ok w" by (simp add: ends_ok_def S P(1))
  moreover have "bufs_ok t = bufs_ok w" by (simp add: bufs_ok_def S)
  moreover have "stray_ok t" using sinvD(6) [OF w] P by (simp add: stray_ok_def S)
  ultimately have "sinv t" using w wt by (simp add: sinv_def S)
  then show ?thesis using pe by (simp add: served_def live_but_def S)
qed

lemmas keeps_regroup =
  keeps_bnd [OF regroup_order(2)] keeps_seqm [OF regroup_order(2)] keeps_ret [OF regroup_order(1)]
  keeps_throw [OF regroup_order(1)] keeps_gets [OF regroup_order(1)] keeps_trapIf [OF regroup_order(1)]
  keeps_assertm [OF regroup_order(1)]

lemma regroup_upd:
  "(\<And>x. wt_pending (f x) = wt_pending x) \<Longrightarrow> keeps regroup (upd_waitable k f)" "keeps regroup (upd_wset j g)"
  by (simp_all add: keeps_def upd_waitable_def upd_wset_def regroup_def map_update_same)

lemma keeps_regroup_join: "keeps regroup (waitable_join k q)"
  unfolding waitable_join_def
  by (auto simp del: run_rules intro!: keeps_regroup regroup_upd split: option.split)

text \<open>An operation that regroups, and keeps waitables and sets consistent, serves.\<close>

lemma wp_regroup:
  assumes w: "sinv w" and k: "keeps regroup a" and o: "\<And>ws. winv w ws \<Longrightarrow> \<exists>vs. winv (snd (a w)) vs"
  shows "wp a (\<lambda>_. served w) (served w) w"
proof (rule wpI)
  have "served w t" if run: "a w = (r, t)" for r t
    using served_regroup [OF w keepsD [OF k run]] o sinvD(5) [OF w] run by (auto simp: waits_ok_def)
  then show "a w = (Inr x, t) \<Longrightarrow> served w t" "a w = (Inl e, t) \<Longrightarrow> served w t" for x e t by blast+
qed

lemma wp_join:
  assumes "sinv w" "k < length (w_waitables w)" "case q of None \<Rightarrow> True | Some j \<Rightarrow> j < length (w_sets w)"
  shows "wp (waitable_join k q) (\<lambda>_. served w) (served w) w"
  using winv_waitable_join [OF _ assms(2,3)] by (intro wp_regroup [OF assms(1) keeps_regroup_join]) blast

lemma wp_waitable_drop_end:
  fixes w :: "'y world_scheme"
  assumes w: "sinv w" and e: "e < length (h_ends w)"
  shows "wp (waitable_drop (ce_wait (h_ends w ! e))) (\<lambda>_ t. sinv t \<and> length (h_ends t) = length (h_ends w) \<and>
      (\<not> copying (h_ends w ! e) \<longrightarrow> served w t)) (\<lambda>t. sinv t \<and> length (h_ends t) = length (h_ends w)) w"
proof -
  let ?v = "arm (ce_wait (h_ends w ! e)) None w"
  have v: "sinv ?v" by (rule sinv_take [OF w e])
  have live: "live_but Y ?v" if "\<not> copying (h_ends w ! e)" "live_but Y w" for Y
    using that pend_arm [OF sinvD(1) [OF w] e, of _ None] by (auto simp: live_but_def)
  have "wp (waitable_join (ce_wait (h_ends w ! e)) None) (\<lambda>_. served ?v) (served ?v) ?v"
    using ends_okD(2) [OF sinvD(1) [OF w] e] by (intro wp_join [OF v]) simp_all
  then have "wp (waitable_join (ce_wait (h_ends w ! e)) None)
      (\<lambda>_ t. sinv t \<and> length (h_ends t) = length (h_ends w) \<and> (\<not> copying (h_ends w ! e) \<longrightarrow> served w t))
      (\<lambda>t. sinv t \<and> length (h_ends t) = length (h_ends w)) ?v"
    by (rule wp_mono) (use live in \<open>auto simp: served_def\<close>)
  then show ?thesis
    using w by (simp add: waitable_drop_def wps upd_waitable_def arm_def)
qed

section \<open>Tables\<close>

lemma inst_okD:
  assumes "inst_ok w c"
  shows "table_inv (c_handles c)" "table_entries (c_handles c) i = Some x \<Longrightarrow> entry_ok w c x"
  using assms by (simp_all add: inst_ok_def)

lemma sinv_inst: "sinv w \<Longrightarrow> k < length (w_insts w) \<Longrightarrow> inst_ok w (w_insts w ! k)"
  using sinvD(3) by (fastforce simp: tables_ok_def)

lemma inst_ok_table:
  assumes "inst_ok w c" "table_inv t" "\<And>i x. table_entries t i = Some x \<Longrightarrow> entry_ok w c x"
  shows "inst_ok w (c\<lparr>c_handles := t\<rparr>)"
  using assms by (simp add: inst_ok_def entry_ok_def)

text \<open>The table's laws, at an instance of the world.\<close>

lemma inst_handles_run: "at_cst k (handles a) w = (fst (a (c_handles (w_insts w ! k))),
    w\<lparr>w_insts := (w_insts w)[k := (w_insts w ! k)\<lparr>c_handles := snd (a (c_handles (w_insts w ! k)))\<rparr>]\<rparr>)"
  by (simp add: at_cst_def handles_def zoom_def split: prod.split)

lemma wp_handle_get:
  assumes w: "sinv w" and k: "k < length (w_insts w)"
  shows "wp (handle_get k i) (\<lambda>x t. t = w \<and> entry_ok w (w_insts w ! k) x) (\<lambda>t. t = w) w"
proof -
  let ?t = "c_handles (w_insts w ! k)"
  note I = inst_okD [OF sinv_inst [OF w k]]
  obtain r t where run: "table_get (int i) ?t = (r, t)" by fastforce
  then have t: "t = ?t" using ht.lookup_same [OF I(1), of "int i"] by simp
  show ?thesis
    using run t ht.lookup_ok [OF I(1), of "int i"] I(2) by (cases r) (fastforce simp: handle_get_def wp_def inst_handles_run)+
qed

lemma wp_handle_add:
  assumes w: "sinv w" and k: "k < length (w_insts w)" and x: "entry_ok w (w_insts w ! k) x"
  shows "wp (handle_add k x) (\<lambda>_ t. cframe w t \<and> length (w_insts t) = length (w_insts w)) (cframe w) w"
proof -
  let ?c = "w_insts w ! k"
  let ?r = "table_add x (c_handles ?c)"
  note I = inst_okD [OF sinv_inst [OF w k]]
  have "table_inv (snd ?r)" by (rule ht.insert_inv [OF I(1)])
  moreover have "entry_ok w ?c y" if "table_entries (snd ?r) j = Some y" for j y
    using ht.insert_ok [OF I(1), of x _ "snd ?r"] ht.insert_full [OF I(1), of x _ "snd ?r"] that I(2) x
    by (cases ?r; cases "fst ?r") (auto split: if_splits)
  ultimately have "inst_ok w (?c\<lparr>c_handles := snd ?r\<rparr>)" by (rule inst_ok_table [OF sinv_inst [OF w k]])
  then have "cframe w (w\<lparr>w_insts := (w_insts w)[k := ?c\<lparr>c_handles := snd ?r\<rparr>]\<rparr>)" by (intro cframe_inst)
  then show ?thesis by (cases "fst ?r") (simp_all add: handle_add_def wp_def inst_handles_run)
qed

lemma wp_handle_remove:
  assumes w: "sinv w" and k: "k < length (w_insts w)"
  shows "wp (at_cst k (handles (table_remove i))) (\<lambda>x t. cframe w t \<and> entry_ok w (w_insts w ! k) x \<and>
      map c_subtasks (w_insts t) = map c_subtasks (w_insts w)) (cframe w) w"
proof -
  let ?c = "w_insts w ! k"
  let ?r = "table_remove i (c_handles ?c)"
  note I = inst_okD [OF sinv_inst [OF w k]]
  have "table_inv (snd ?r)" by (rule ht.delete_inv [OF I(1)])
  moreover have "entry_ok w ?c y" if "table_entries (snd ?r) j = Some y" for j y
    using ht.delete_ok [OF I(1), of i _ "snd ?r"] ht.delete_err [OF I(1), of i _ "snd ?r"] that I(2)
    by (cases ?r; cases "fst ?r") (auto split: if_splits)
  ultimately have "inst_ok w (?c\<lparr>c_handles := snd ?r\<rparr>)" by (rule inst_ok_table [OF sinv_inst [OF w k]])
  then have c: "cframe w (w\<lparr>w_insts := (w_insts w)[k := ?c\<lparr>c_handles := snd ?r\<rparr>]\<rparr>)" by (intro cframe_inst)
  have "entry_ok w ?c x" if "fst ?r = Inr x" for x
    using ht.delete_ok [OF I(1), of i x "snd ?r"] that I(2) by (cases ?r) auto
  then show ?thesis using c by (cases "fst ?r") (simp_all add: wp_def inst_handles_run map_update_same)
qed

lemma entry_ok_cframe: "cframe w t \<Longrightarrow> entry_ok w c x = entry_ok t c x"
  by (simp add: entry_ok_def cframe_def)

text \<open>The entry of an end.\<close>

lemma as_end_ok:
  assumes "entry_ok w c entry" "entry_end entry = Some e" "entry = end_entry kind side e"
  shows "e < length (h_ends w)" "ce_kind (h_ends w ! e) = kind" "ce_side (h_ends w ! e) = side"
  using assms by (auto simp: entry_ok_def end_entry_def split: end_kind.splits end_side.splits)

lemma wp_as_end:
  assumes "entry_ok w c entry" "\<And>e. e < length (h_ends w) \<Longrightarrow> ce_kind (h_ends w ! e) = kind \<Longrightarrow>
      ce_side (h_ends w ! e) = side \<Longrightarrow> entry = end_entry kind side e \<Longrightarrow> Q e t" "E t"
  shows "wp (as_end kind side msg entry) Q E t"
  using assms as_end_ok [OF assms(1)] by (auto simp: as_end_def wps split: option.split)

lemma wp_leave_guard [wps]:
  "wp (leave_guard k msg) Q E w = (if c_may_leave (w_insts w ! k) then Q () w else E w)"
  by (simp add: leave_guard_def mayLeave_def wps)

section \<open>Reading and writing\<close>

text \<open>The fields of an end that the protocol does not read.\<close>

lemma served_fields:
  assumes w: "sinv w" and e: "e < length (h_ends w)"
    and f: "\<And>x. ce_wait (f x) = ce_wait x \<and> ce_kind (f x) = ce_kind x \<and> ce_side (f x) = ce_side x \<and> ce_shared (f x) = ce_shared x"
      "ce_state (f (h_ends w ! e)) = ce_state (h_ends w ! e)"
  shows "served w (put_end e f w)"
proof -
  have "copying (f (h_ends w ! e)) = copying (h_ends w ! e)" using f(2) by (simp add: copying_def)
  moreover from this have "pend_ok s sh e (f (h_ends w ! e)) p = pend_ok s sh e (h_ends w ! e) p" for s sh p
    using f by (simp add: pend_ok_def ce_eventCode_def cong: option.case_cong pending_event.case_cong)
  moreover have "copying (h_ends w ! e)" if "owns (h_shared w ! ce_shared (h_ends w ! e)) e"
    using that owner_of(3) [OF w ends_okD(1) [OF sinvD(1) [OF w] e]] by (auto simp: owns_def)
  ultimately have "sinv (put_end e f w)" using sinv_pend [OF w e] by (intro sinv_put_end [OF w e f(1)]) simp_all
  then show ?thesis using e f(1) \<open>copying (f (h_ends w ! e)) = copying (h_ends w ! e)\<close>
    by (auto simp: served_def live_but_def)
qed

lemma served_copying:
  assumes w: "sinv w" and e: "e < length (h_ends w)"
    and x: "x = COPYING \<or> x = CANCELLING_COPY" and st: "ce_state (h_ends w ! e) = IDLE \<or> copying (h_ends w ! e)"
  shows "sinv (put_end e (\<lambda>y. y\<lparr>ce_state := x\<rparr>) w)"
    "live_but Y w \<Longrightarrow> live_but (insert e Y) (put_end e (\<lambda>y. y\<lparr>ce_state := x\<rparr>) w)"
    "copying (h_ends w ! e) \<Longrightarrow> live_but Y w \<Longrightarrow> live_but Y (put_end e (\<lambda>y. y\<lparr>ce_state := x\<rparr>) w)"
proof -
  have "pend_ok s sh e ((h_ends w ! e)\<lparr>ce_state := x\<rparr>) p" if "pend_ok s sh e (h_ends w ! e) p" for s sh p
    using that x by (auto simp: pend_ok_def copying_def ce_eventCode_def split: option.splits pending_event.splits)
  then show "sinv (put_end e (\<lambda>y. y\<lparr>ce_state := x\<rparr>) w)"
    using sinv_pend [OF w e] x by (intro sinv_put_end [OF w e]) (auto simp: copying_def)
  show "live_but (insert e Y) (put_end e (\<lambda>y. y\<lparr>ce_state := x\<rparr>) w)" if "live_but Y w"
    using that e by (auto simp: live_but_def)
  show "live_but Y (put_end e (\<lambda>y. y\<lparr>ce_state := x\<rparr>) w)" if "copying (h_ends w ! e)" "live_but Y w"
    using that e x by (auto simp: live_but_def copying_def)
qed

lemma wp_copy_guards:
  fixes w :: "'y world_scheme"
  assumes w: "sinv w" and k: "k < length (w_insts w)"
  shows "wp (copy_guards kind side elem async k i) (\<lambda>e t. served w t \<and> w_insts t = w_insts w \<and> e < length (h_ends t) \<and>
      ce_kind (h_ends t ! e) = kind \<and> ce_side (h_ends t ! e) = side \<and> ce_state (h_ends t ! e) = IDLE \<and>
      (async \<or> joins t ! ce_wait (h_ends t ! e) = None)) sinv w"
proof -
  have "served w (put_end e (\<lambda>x. x\<lparr>ce_index := Some i\<rparr>) w)" if "e < length (h_ends w)" for e
    by (rule served_fields [OF w that]) simp_all
  moreover from this have "sinv (put_end e (\<lambda>x. x\<lparr>ce_index := Some i\<rparr>) w)" if "e < length (h_ends w)" for e
    using that by (simp add: served_def)
  moreover have "joins w ! ce_wait (h_ends w ! e) = wt_wset (w_waitables w ! ce_wait (h_ends w ! e))" if "e < length (h_ends w)" for e
    using ends_okD(2) [OF sinvD(1) [OF w] that] by (simp add: joins_def)
  ultimately show ?thesis
    unfolding copy_guards_def Let_def
    by (auto simp: wps w inWaitableSet_def intro!: wp_mono [OF wp_handle_get [OF w k]] wp_as_end)
qed

lemma newGuestBuffer_pure:
  assumes "newGuestBuffer env t opts inst ptr len w = (r, u)"
  shows "u = w" "r = Inr g \<Longrightarrow> gb_progress g = 0 \<and> gb_length g \<le> BUFFER_MAX_LENGTH"
proof -
  have "wp (newGuestBuffer env t opts inst ptr len) (\<lambda>g u. u = w \<and> gb_progress g = 0 \<and> gb_length g \<le> BUFFER_MAX_LENGTH) (\<lambda>u. u = w) w"
    by (auto simp: newGuestBuffer_def mem_length_def wps split: option.split sum.split)
  then show "u = w" "r = Inr g \<Longrightarrow> gb_progress g = 0 \<and> gb_length g \<le> BUFFER_MAX_LENGTH"
    using assms by (cases r; auto simp: wp_def)+
qed

lemma cframe_new_buf:
  assumes "gb_progress g \<le> gb_length g \<and> gb_length g \<le> BUFFER_MAX_LENGTH"
  shows "cframe w (w\<lparr>h_bufs := h_bufs w @ [GuestBuf g]\<rparr>)" "is_guest (w\<lparr>h_bufs := h_bufs w @ [GuestBuf g]\<rparr>) (length (h_bufs w))"
  using assms by (auto simp: cframe_def is_guest_def bufs_ok_def tables_ok_def inst_ok_def entry_ok_def subtask_ok_def nth_append)

lemma wp_new_guest:
  fixes w :: "'y world_scheme"
  assumes w: "sinv w" and Q: "\<And>b t. cframe w t \<Longrightarrow> is_guest t b \<Longrightarrow> Q b t" and E: "E w"
  shows "wp (newGuestBuffer env t opts inst ptr len) (\<lambda>g. wp (new_buf (GuestBuf g)) Q E) E w"
proof (rule wpI)
  fix g u assume r: "newGuestBuffer env t opts inst ptr len w = (Inr g, u)"
  have g: "gb_progress g \<le> gb_length g \<and> gb_length g \<le> BUFFER_MAX_LENGTH" "u = w"
    using newGuestBuffer_pure [OF r] by auto
  then show "wp (new_buf (GuestBuf g)) Q E u"
    using Q [OF cframe_new_buf [OF g(1), of w]] by (simp add: new_buf_def wps)
next
  fix e u assume "newGuestBuffer env t opts inst ptr len w = (Inl e, u)"
  then show "E u" using newGuestBuffer_pure(1) E by blast
qed

lemma served_good: "served w t \<Longrightarrow> good w t"
  by (simp add: served_def good_def live_but_none [symmetric])

lemma good_trans: "good w u \<Longrightarrow> good u t \<Longrightarrow> good w t"
  by (simp add: good_def)

lemma good_served: "good w u \<Longrightarrow> served u t \<Longrightarrow> good w t"
  using good_trans served_good by blast

lemma good_sinv: "good w t \<Longrightarrow> sinv t"
  by (simp add: good_def)

lemma settles_good:
  assumes "settles {e} u t" "live w \<Longrightarrow> live_but {e} u" shows "good w t"
  using assms by (auto simp: settles_def good_def live_but_none [symmetric])

lemma wp_set_sync:
  assumes w: "sinv w" and b: "b \<Longrightarrow> wt_wset (w_waitables w ! ce_wait (h_ends w ! e)) = None"
  shows "wp (set_sync e b) (\<lambda>_. served w) (served w) w"
proof -
  let ?k = "ce_wait (h_ends w ! e)"
  have "wp (upd_waitable ?k (\<lambda>x. x\<lparr>wt_sync := b\<rparr>)) (\<lambda>_. served w) (served w) w"
  proof (rule wp_regroup [OF w])
    show "keeps regroup (upd_waitable ?k (\<lambda>x. x\<lparr>wt_sync := b\<rparr>))" by (rule regroup_upd) simp
    fix ws assume "winv w ws"
    then have "winv (w\<lparr>w_waitables := (w_waitables w)[?k := (w_waitables w ! ?k)\<lparr>wt_sync := b\<rparr>]\<rparr>) ws"
      using b by (intro winv_upd_waitable) auto
    then show "\<exists>vs. winv (snd (upd_waitable ?k (\<lambda>x. x\<lparr>wt_sync := b\<rparr>) w)) vs" by (auto simp: upd_waitable_def)
  qed
  then show ?thesis by (simp add: set_sync_def wps)
qed

lemma wp_take_event:
  fixes u w :: "'y world_scheme"
  assumes u: "sinv u" and e: "e < length (h_ends u)" and l: "live w \<Longrightarrow> live_but {e} u"
  shows "wp (take_event e c i what) (\<lambda>_. good w) sinv u"
proof -
  have "good w t" if "settles {e} u t" for t by (rule settles_good [OF that l])
  then show ?thesis
    unfolding take_event_def
    by (auto simp: wps served_def e split: prod.split intro!: wp_mono [OF wp_get [OF u ends_okD(2) [OF sinvD(1) [OF u] e]]])
qed

lemma wp_then_ret: "wp a (\<lambda>_. Q) E w \<Longrightarrow> wp a (\<lambda>x. wp (ret (f x)) (\<lambda>_. Q) E) E w"
  by (rule wp_mono) (auto simp: wps)

text \<open>The end of a copy: the state after the copy, with the end settled or parked.\<close>

lemma wp_finishCopy:
  fixes u w :: "'y world_scheme"
  assumes u: "sinv u" and e: "e < length (h_ends u)" and l: "live w \<Longrightarrow> live u"
    and j: "async \<or> joins u ! ce_wait (h_ends u ! e) = None"
  shows "wp (finishCopy e c i async what mode) (\<lambda>_. good w) sinv u"
proof -
  have wt: "ce_wait (h_ends u ! e) < length (w_waitables u)" by (rule ends_okD(2) [OF sinvD(1) [OF u] e])
  have "good w u" using u l by (simp add: good_def)
  moreover have "wp (set_sync e True) (\<lambda>_. good w) sinv u" if "\<not> async"
    using that j wt by (intro wp_mono [OF wp_set_sync [OF u]])
      (auto simp: joins_def served_def intro: good_served [OF \<open>good w u\<close>])
  moreover have "wp (take_event e c i what) (\<lambda>_. good w) sinv u"
    using live_but_mono [of "{}" u "{e}"] l by (intro wp_take_event [OF u e]) (simp add: live_but_none)
  ultimately show ?thesis
    using u by (auto simp: finishCopy_def wps intro: wp_then_ret)
qed

lemma idle_not_owner: "sinv w \<Longrightarrow> e < length (h_ends w) \<Longrightarrow> \<not> copying (h_ends w ! e) \<Longrightarrow> \<not> owns (h_shared w ! ce_shared (h_ends w ! e)) e"
  using owner_of(3) ends_okD(1) [OF sinvD(1)] unfolding owns_def by blast

lemma wp_start_copy:
  fixes u w :: "'y world_scheme"
  assumes env: "env_ok env" and u: "sinv u" and e: "e < length (h_ends u)" "ce_state (h_ends u ! e) = IDLE" and b: "is_guest u b"
    and cb: "cb = cb_for (h_ends u ! e) e b" and l: "live w \<Longrightarrow> live u"
    and j: "async \<or> joins u ! ce_wait (h_ends u ! e) = None" and x: "x = (h_ends u ! e)\<lparr>ce_state := COPYING\<rparr>"
  shows "wp (end_copy env x (InGuest k) b cb) (\<lambda>_. wp (finishCopy e c i async what mode) (\<lambda>_. good w) sinv) sinv
    (put_end e (\<lambda>x. x\<lparr>ce_state := COPYING\<rparr>) u)"
proof -
  let ?v = "put_end e (\<lambda>x. x\<lparr>ce_state := COPYING\<rparr>) u"
  let ?s = "ce_shared (h_ends u ! e)"
  have v: "sinv ?v" and lv: "live w \<Longrightarrow> live_but {e} ?v"
    using served_copying(1) [OF u e(1), where x = COPYING] served_copying(2) [OF u e(1), where x = COPYING and Y = "{}"] e(2) l
    by (simp_all add: live_but_none)
  have nc: "\<not> copying (h_ends u ! e)" using e(2) by (simp add: copying_def)
  have p: "pend u e = None \<or> sh_dropped (h_shared u ! ?s)"
    using sinv_pend [OF u e(1)] nc by (auto simp: pend_ok_def split: option.splits pending_event.splits)
  have "cb = cb_for x e b" unfolding x cb by (simp add: cb_for_def ce_eventCode_def split: end_kind.split)
  moreover have "x = h_ends ?v ! e" using e(1) x by simp
  ultimately have "caller ?s b cb ?v"
    using e(1) b idle_not_owner [OF u e(1) nc] cb by (intro callerI) (auto simp: copying_def)
  then have a: "arriving (ce_shared x) b cb ?v"
    using p cb e(1) unfolding arriving_def x by (auto simp: cb)
  have s: "ce_shared x < length (h_shared ?v)" using ends_okD(1) [OF sinvD(1) [OF u] e(1)] by (simp add: x)
  have e': "cb_end cb = Some e" by (simp add: cb)
  show ?thesis
  proof (rule wp_mono [OF wp_end_copy [OF env v s a]])
    fix t assume t: "copied cb ?v t"
    then have "live w \<Longrightarrow> live t" using lv e' by (auto simp: copied_def ends_in_def live_but_none [symmetric])
    moreover have "joins t ! ce_wait (h_ends t ! e) = joins u ! ce_wait (h_ends u ! e)"
      using t e(1) by (simp add: copied_def)
    ultimately show "wp (finishCopy e c i async what mode) (\<lambda>_. good w) sinv t"
      using t e(1) j by (intro wp_finishCopy) (auto simp: copied_def)
  qed simp
qed

text \<open>The two built-ins that start a copy.\<close>

lemma good_served_left: "served w u \<Longrightarrow> good u t \<Longrightarrow> good w t"
  using good_trans served_good by blast

lemma wp_copy_started:
  fixes w :: "'y world_scheme"
  assumes env: "env_ok env" and k: "k < length (w_insts w)" and w: "sinv w"
    and cb: "\<And>e b. cbf e b = (case kind of StreamKind \<Rightarrow> StreamCb e b (eventCode kind side)
      | FutureKind \<Rightarrow> FutureCb e b (eventCode kind side) (side = Readable))"
  shows "wp (copy_guards kind side elem async k i) (\<lambda>e. wp (newGuestBuffer env elem opts inst ptr n) (\<lambda>g. wp (new_buf (GuestBuf g)) (\<lambda>b t.
      wp (end_copy env ((h_ends t ! e)\<lparr>ce_state := COPYING\<rparr>) (InGuest j) b (cbf e b))
        (\<lambda>_. wp (finishCopy e (eventCode kind side) i async what mode) (\<lambda>_. good w) sinv) sinv
        (put_end e (\<lambda>x. x\<lparr>ce_state := COPYING\<rparr>) t) \<and> e < length (h_ends t) \<and> sinv t) sinv) sinv) sinv w"
proof (rule wp_mono [OF wp_copy_guards [OF w k]])
  fix e u assume u: "served w u \<and> w_insts u = w_insts w \<and> e < length (h_ends u) \<and> ce_kind (h_ends u ! e) = kind \<and>
    ce_side (h_ends u ! e) = side \<and> ce_state (h_ends u ! e) = IDLE \<and> (async \<or> joins u ! ce_wait (h_ends u ! e) = None)"
  show "wp (newGuestBuffer env elem opts inst ptr n) (\<lambda>g. wp (new_buf (GuestBuf g)) (\<lambda>b t.
      wp (end_copy env ((h_ends t ! e)\<lparr>ce_state := COPYING\<rparr>) (InGuest j) b (cbf e b))
        (\<lambda>_. wp (finishCopy e (eventCode kind side) i async what mode) (\<lambda>_. good w) sinv) sinv
        (put_end e (\<lambda>x. x\<lparr>ce_state := COPYING\<rparr>) t) \<and> e < length (h_ends t) \<and> sinv t) sinv) sinv u"
  proof (rule wp_new_guest)
    fix b t assume t: "cframe u t" and b: "is_guest t b"
    have su: "sinv u" using u by (simp add: served_def)
    have st: "sinv t" by (rule sinv_cframe [OF t su])
    have lt: "live t" if "live w"
      using that u live_but_cframe [OF t, of "{}"] by (simp add: served_def live_but_none [symmetric])
    have "cbf e b = cb_for (h_ends t ! e) e b"
      using u by (simp add: cb cb_for_def ce_eventCode_def cframe_sel [OF t] split: end_kind.split)
    then show "wp (end_copy env ((h_ends t ! e)\<lparr>ce_state := COPYING\<rparr>) (InGuest j) b (cbf e b))
        (\<lambda>_. wp (finishCopy e (eventCode kind side) i async what mode) (\<lambda>_. good w) sinv) sinv
        (put_end e (\<lambda>x. x\<lparr>ce_state := COPYING\<rparr>) t) \<and> e < length (h_ends t) \<and> sinv t"
      using u lt by (intro conjI wp_start_copy [OF env st _ _ b] st) (auto simp: cframe_sel [OF t] joins_cframe [OF t])
  qed (use u in \<open>simp_all add: served_def\<close>)
qed simp

theorem streamCopy_good:
  assumes "env_ok env" "k < length (w_insts w)" "sinv w"
  shows "wp (streamCopy env side elem opts mode k i ptr n) (\<lambda>_. good w) sinv w"
  unfolding streamCopy_def Let_def wp_bnd
  by (rule wp_mono [OF wp_copy_started [OF assms, where cbf = "\<lambda>e b. StreamCb e b (eventCode StreamKind side)" and kind = StreamKind]])
    (auto simp: wps elim!: wp_mono)

theorem futureCopy_good:
  assumes "env_ok env" "k < length (w_insts w)" "sinv w"
  shows "wp (futureCopy env side elem opts mode k i ptr) (\<lambda>_. good w) sinv w"
  unfolding futureCopy_def Let_def wp_bnd
  by (rule wp_mono [OF wp_copy_started [OF assms, where cbf = "\<lambda>e b. FutureCb e b (eventCode FutureKind side) (side = Readable)" and kind = FutureKind]])
    (auto simp: wps elim!: wp_mono)

text \<open>The resumed frame of a synchronous copy.\<close>

theorem finishCopy_resume_good:
  fixes w :: "'y world_scheme"
  assumes w: "sinv w" and e: "e < length (h_ends w)"
  shows "wp (finishCopy_resume e c i what) (\<lambda>_. good w) sinv w"
proof -
  have "wp (take_event e c i what) (\<lambda>_. good w) sinv u" if u: "served w u" for u
    using u e live_but_mono [of "{}" u "{e}"]
    by (intro wp_take_event) (simp_all add: served_def live_but_none [symmetric])
  then show ?thesis
    unfolding finishCopy_resume_def wp_seqm
    by (intro wp_mono [OF wp_set_sync [OF w]]) (auto simp: served_def)
qed

section \<open>Cancellation\<close>

lemma wp_take_cancel:
  fixes u w :: "'y world_scheme"
  assumes u: "sinv u" and e: "e < length (h_ends u)" and l: "live w \<Longrightarrow> live u"
  shows "wp (takeCancelEvent e c i what) (\<lambda>_. good w) sinv u"
proof -
  have "good w u" using u l by (simp add: good_def)
  then have "good w t" if "served u t" for t using that by (rule good_served)
  then show ?thesis
    unfolding takeCancelEvent_def
    by (auto simp: wps served_def split: prod.split intro!: wp_mono [OF wp_get [OF u ends_okD(2) [OF sinvD(1) [OF u] e]]])
qed

lemma wp_shared_cancel:
  fixes u w :: "'y world_scheme"
  assumes env: "env_ok env" and u: "sinv u" and e: "e < length (h_ends u)" and l: "live w \<Longrightarrow> live u"
  shows "wp (shared_cancel env (ce_shared (h_ends u ! e))) (\<lambda>_ t. sinv t \<and> good w t \<and> h_ends t = h_ends u) sinv u"
  unfolding shared_cancel_def
  by (rule wp_mono [OF wp_reset [OF env u ends_okD(1) [OF sinvD(1) [OF u] e]]])
    (use l in \<open>auto simp: reset_post_def good_def live_but_none [symmetric]\<close>)

lemma cancelling:
  fixes w :: "'y world_scheme"
  assumes w: "sinv w" and e: "e < length (h_ends w)" "ce_state (h_ends w ! e) = COPYING"
  shows "sinv (put_end e (\<lambda>x. x\<lparr>ce_state := CANCELLING_COPY\<rparr>) w)"
    "live w \<Longrightarrow> live (put_end e (\<lambda>x. x\<lparr>ce_state := CANCELLING_COPY\<rparr>) w)"
  using e served_copying(1) [OF w e(1), where x = CANCELLING_COPY]
    served_copying(3) [OF w e(1), where x = CANCELLING_COPY and Y = "{}"]
  by (simp_all add: copying_def live_but_none)

theorem cancelCopy_good:
  fixes w :: "'y world_scheme"
  assumes env: "env_ok env" and k: "k < length (w_insts w)" and w: "sinv w"
  shows "wp (cancelCopy env kind side elem async mode what k i) (\<lambda>_. good w) sinv w"
proof -
  let ?u = "\<lambda>e. put_end e (\<lambda>x. x\<lparr>ce_state := CANCELLING_COPY\<rparr>) w"
  have take: "wp (takeCancelEvent e c i what) (\<lambda>x. wp (ret (Returned x)) (\<lambda>_. good w) sinv) sinv t"
    if "good w t" "e < length (h_ends t)" for e c t
    using that by (intro wp_then_ret wp_take_cancel) (simp_all add: good_def)
  have u: "good w (?u e)" if "e < length (h_ends w)" "ce_state (h_ends w ! e) = COPYING" for e
    using cancelling [OF w that] by (simp add: good_def)
  have cancel: "wp (shared_cancel env (ce_shared (h_ends w ! e))) (\<lambda>_ t. sinv t \<and> good w t \<and> h_ends t = h_ends (?u e)) sinv (?u e)"
    if "e < length (h_ends w)" "ce_state (h_ends w ! e) = COPYING" for e
    using wp_shared_cancel [OF env cancelling(1) [OF w that], of e w] that cancelling(2) [OF w that] by simp
  show ?thesis
    unfolding cancelCopy_def
    by (auto simp: wps w good_sinv [OF u] intro!: wp_mono [OF wp_handle_get [OF w k]] wp_as_end take u wp_mono [OF cancel])
qed

section \<open>Retirement and removal\<close>

lemma wp_on_error: "wp a Q (\<lambda>t. \<forall>e. wp (h e) (\<lambda>_. E) E t) s \<Longrightarrow> wp (on_error a h) Q E s"
proof (cases "a s")
  case (Pair r t)
  assume *: "wp a Q (\<lambda>t. \<forall>e. wp (h e) (\<lambda>_. E) E t) s"
  have "E (snd (h e t))" if "r = Inl e" for e
    using * that Pair by (cases "h e t"; cases "fst (h e t)") (auto simp: wp_def split: prod.splits dest: spec [of _ e])
  then show ?thesis using * Pair by (cases r) (auto simp: wp_def on_error_def)
qed

lemma wp_caught: "wp a Q (\<lambda>t. \<forall>e. wp (h e) Q E t) s \<Longrightarrow> wp (catching a h) Q E s"
  by (cases "a s"; cases "fst (a s)") (auto simp: wp_def catching_run)

text \<open>What may be left of an error: the invariant holds and no end is gone.\<close>

definition intact :: "'y world_scheme \<Rightarrow> 'y world_scheme \<Rightarrow> bool" where
  "intact w t \<longleftrightarrow> sinv t \<and> length (h_ends t) = length (h_ends w)"

lemma intact_simps: "sinv w \<Longrightarrow> intact w w" "intact w t \<Longrightarrow> sinv t" "served w t \<Longrightarrow> intact w t" "drop_post s w t \<Longrightarrow> intact w t"
  by (simp_all add: intact_def served_def drop_post_def)

lemma intact_trans: "intact w u \<Longrightarrow> intact u t \<Longrightarrow> intact w t"
  by (simp add: intact_def)

lemma served_drop: "drop_post s w t \<Longrightarrow> served w t"
  by (simp add: served_def drop_post_def)

lemma cframe_failures: "cframe w (w\<lparr>h_failures := f\<rparr>)" "cframe w (w\<lparr>h_retired := r\<rparr>)"
  by (simp_all add: cframe_def is_guest_def bufs_ok_def tables_ok_def inst_ok_def entry_ok_def subtask_ok_def)

lemma served_neutral:
  assumes "sinv w" "s < length (h_shared w)" "neutral f" shows "served w (put_shared s f w)"
proof -
  have "owns (f sh) e = owns sh e" for sh e using assms(3) by (simp add: neutral_def owns_def)
  then have "live_but Y (put_shared s f w)" if "live_but Y w" for Y
    using that assms(2,3) by (auto simp: live_but_def nth_list_update neutral_def)
  then show ?thesis using sinv_neutral [OF assms] by (simp add: served_def)
qed

lemma served_mark:
  assumes w: "sinv w" and e: "e < length (h_ends w)"
  shows "wp (retire_mark inst e) (\<lambda>_. served w) E w"
proof -
  have f: "served w (w\<lparr>h_failures := f\<rparr>)" for f by (rule served_cframe [OF w cframe_failures(1)])
  have "served w (put_shared (ce_shared (h_ends w ! e)) (\<lambda>sh. sh\<lparr>sh_abandon := g sh\<rparr>) (w\<lparr>h_failures := f\<rparr>))" for f g
    using f [of f] ends_okD(1) [OF sinvD(1) [OF w] e] by (intro served_trans [OF f served_neutral]) (simp_all add: served_def)
  with f show ?thesis by (simp add: retire_mark_def wps Let_def)
qed

lemma served_marks:
  assumes "sinv w" "\<forall>e\<in>set es. e < length (h_ends w)"
  shows "wp (iterm (retire_mark inst) es) (\<lambda>_. served w) E w"
  using assms
proof (induction es arbitrary: w)
  case (Cons e es)
  show ?case
    unfolding iterm.simps wp_seqm
    by (rule wp_mono [OF served_mark]) (use Cons.prems in \<open>auto simp: served_def intro!: wp_mono [OF Cons.IH]\<close>)
qed (simp add: wps)

lemma served_drops:
  fixes w :: "'y world_scheme"
  assumes env: "env_ok env"
  shows "sinv w \<Longrightarrow> \<forall>e\<in>set es. e < length (h_ends w) \<Longrightarrow> wp (retire_drops env es first) (\<lambda>_. served w) (served w) w"
proof (induction es arbitrary: w first)
  case Nil
  then show ?case by (simp add: wps split: option.split)
next
  case (Cons e es)
  let ?s = "ce_shared (h_ends w ! e)"
  have s: "?s < length (h_shared w)" by (rule ends_okD(1) [OF sinvD(1)]) (use Cons.prems in simp_all)
  have "wp (retire_drops env es f) (\<lambda>_. served w) (served w) u" if "drop_post ?s w u" for f u
    using that Cons.prems by (intro wp_mono [OF Cons.IH]) (auto simp: drop_post_def intro: served_trans [OF served_drop])
  then show ?case
    unfolding retire_drops.simps wp_bnd
    by (intro wp_caught) (simp add: wps wp_mono [OF wp_dropForTeardown [OF env Cons.prems(1) s]])
qed

lemma wp_retire:
  fixes w :: "'y world_scheme"
  assumes env: "env_ok env" and w: "sinv w" and es: "\<forall>e\<in>set es. e < length (h_ends w)"
  shows "wp (retireAsyncEnds env inst es) (\<lambda>_. served w) (served w) w"
  unfolding retireAsyncEnds_def wp_seqm
  by (rule wp_mono [OF served_marks [OF w es]])
    (use es in \<open>auto simp: served_def intro!: wp_mono [OF served_drops [OF env]]\<close>)

text \<open>A failed removal: what the removed end had parked is taken away, and the end retired.\<close>

lemma wp_drop_cleared:
  fixes w :: "'y world_scheme"
  assumes env: "env_ok env" and w: "sinv w" and s: "s < length (h_shared w)" "\<not> sh_dropped (h_shared w ! s)"
  shows "wp (dropSharedForTeardown env s side) (\<lambda>_. drop_post s w) (drop_post s w) (put_shared s clear_slot w)"
proof -
  have "drop_post s w (put_shared s (\<lambda>sh. sh\<lparr>sh_dropped := True\<rparr>) (put_shared s clear_slot w))"
    unfolding put_put by (rule sinv_drop_post [OF w s(1)]) (rule drop_shared_clear)
  from wp_drop_emptied [OF env s(1) this] show ?thesis
    using s by (simp add: dropSharedForTeardown_def wps clear_slot_def)
qed

lemma mark_clear:
  fixes w :: "'y world_scheme"
  assumes "s = ce_shared (h_ends w ! e)" "s < length (h_shared w)"
  shows "retire_mark inst e (put_shared s clear_slot w) = (Inr (), put_shared s clear_slot (snd (retire_mark inst e w)))"
proof -
  have "(put_shared s clear_slot w)\<lparr>h_failures := f\<rparr> = put_shared s clear_slot (w\<lparr>h_failures := f\<rparr>)" for f
    by (simp add: put_shared_def)
  moreover have "clear_slot sh\<lparr>sh_abandon := a\<rparr> = clear_slot (sh\<lparr>sh_abandon := a\<rparr>)" "sh_abandon (clear_slot sh) = sh_abandon sh" for sh a
    by (simp_all add: clear_slot_def)
  moreover have "h_failures (put_shared s g v) = h_failures v" for g and v :: "'y world_scheme" by (simp add: put_shared_def)
  ultimately show ?thesis
    using assms by (simp add: retire_mark_def Let_def monad_simps heap_runs cong: option.case_cong split: if_split)
qed

lemma wp_retire_cleared:
  fixes w :: "'y world_scheme"
  assumes env: "env_ok env" and w: "sinv w" and e: "e < length (h_ends w)" and nd: "\<not> sh_dropped (h_shared w ! s)"
    and s: "s = ce_shared (h_ends w ! e)"
  shows "wp (retireAsyncEnds env inst [e]) (\<lambda>_. intact w) (intact w) (put_shared s clear_slot w)"
proof -
  let ?v = "snd (retire_mark inst e w)"
  have l: "s < length (h_shared w)" unfolding s by (rule ends_okD(1) [OF sinvD(1) [OF w] e])
  have v: "served w ?v" using served_mark [OF w e, of inst "\<lambda>_. False"] by (auto simp: wp_def split: prod.splits sum.splits)
  have v': "s < length (h_shared ?v)" "\<not> sh_dropped (h_shared ?v ! s)" "h_ends ?v = h_ends w"
    using l nd by (auto simp: retire_mark_def Let_def monad_simps heap_runs s)
  have drop: "wp (dropSharedForTeardown env s side) (\<lambda>_. intact w) (intact w) (put_shared s clear_slot ?v)" for side
    by (rule wp_mono [OF wp_drop_cleared [OF env _ v'(1,2)]])
      (use v in \<open>auto simp: intact_simps(4) served_def intro: intact_trans [OF intact_simps(3) [OF v]]\<close>)
  have "wp (retire_drops env [e] None) (\<lambda>_. intact w) (intact w) (put_shared s clear_slot ?v)"
    unfolding retire_drops.simps wp_bnd
    by (intro wp_caught) (simp add: wps v'(3) s [symmetric] wp_mono [OF drop])
  moreover have "retireAsyncEnds env inst [e] (put_shared s clear_slot w) = retire_drops env [e] None (put_shared s clear_slot ?v)"
    by (simp only: retireAsyncEnds_def iterm.simps seqm_run mark_clear [OF s l] ret_run prod.case sum.case)
  ultimately show ?thesis by (simp only: wp_def)
qed

lemma wp_removal_failed:
  fixes w :: "'y world_scheme"
  assumes env: "env_ok env" and w: "sinv w" and entry: "\<And>e. entry_end entry = Some e \<Longrightarrow> e < length (h_ends w)"
  shows "wp (handleRemovalFailed env inst entry) (\<lambda>_. intact w) (intact w) w"
proof (cases "entry_end entry")
  case None
  then show ?thesis using w by (simp add: handleRemovalFailed_def wps intact_simps)
next
  case (Some e)
  let ?s = "ce_shared (h_ends w ! e)"
  have s: "?s < length (h_shared w)" by (rule ends_okD(1) [OF sinvD(1) [OF w] entry [OF Some]])
  have retire: "wp (retireAsyncEnds env inst [e]) (\<lambda>_. intact w) (intact w) w"
    by (rule wp_mono [OF wp_retire [OF env w]]) (use entry [OF Some] in \<open>auto intro: intact_simps\<close>)
  have "wp (retireAsyncEnds env inst [e]) (\<lambda>_. intact w) (intact w) (put_shared ?s clear_slot w)"
  proof (cases "sh_dropped (h_shared w ! ?s)")
    case True
    then have "put_shared ?s clear_slot w = w"
      using sinv_slot [OF w s] by (simp add: slot_ok_def put_shared_def clear_empty)
    then show ?thesis using retire by simp
  next
    case False
    then show ?thesis by (rule wp_retire_cleared [OF env w entry [OF Some] _ refl])
  qed
  then show ?thesis using retire by (simp add: handleRemovalFailed_def Some wps)
qed

lemma wp_removeHandle:
  fixes w :: "'y world_scheme"
  assumes env: "env_ok env" and w: "sinv w" and k: "k < length (w_insts w)"
    and use: "\<And>x t. cframe w t \<Longrightarrow> sinv t \<Longrightarrow> entry_ok t (w_insts w ! k) x \<Longrightarrow> map c_subtasks (w_insts t) = map c_subtasks (w_insts w) \<Longrightarrow>
      wp (use x) Q (intact w) t"
  shows "wp (removeHandle env k i use) Q sinv w"
  unfolding removeHandle_def wp_bnd
proof (rule wp_mono [OF wp_handle_remove [OF w k]])
  fix x t assume t: "cframe w t \<and> entry_ok w (w_insts w ! k) x \<and> map c_subtasks (w_insts t) = map c_subtasks (w_insts w)"
  have fail: "wp (handleRemovalFailed env k x) (\<lambda>_. sinv) sinv u" if "intact w u" for u
    by (rule wp_mono [OF wp_removal_failed [OF env]]) (use that t in \<open>auto simp: intact_def entry_ok_def\<close>)
  have "wp (use x) Q (intact w) t"
    using t entry_ok_cframe [of w t] sinv_cframe [OF _ w] by (intro use) blast+
  then show "wp (on_error (use x) (\<lambda>cause. handleRemovalFailed env k x)) Q sinv t"
    by (intro wp_on_error) (elim wp_mono, auto intro: fail)
qed (rule sinv_cframe [OF _ w])

end
