(* ===== verification/Async_Steps.thy ===== *)
theory Async_Steps
  imports Async_Invariant
begin

text \<open>
  The built-ins that make, move and drop ends, sets and subtasks keep the invariant; the
  steps of an instance's asynchronous life are one relation, and every world it reaches is
  good.
\<close>

section \<open>New ends\<close>

definition empty_shared :: "end_kind \<Rightarrow> valtype option \<Rightarrow> shared" where
  "empty_shared k t = \<lparr>sh_kind = k, sh_t = t, sh_readable = None, sh_writable = None, sh_store = None, sh_dropped = False,
     sh_abandon = None, sh_inst = None, sh_buffer = None, sh_onCopy = None, sh_onDone = None, sh_observers = Some []\<rparr>"

lemma empty_shared_sel [simp]: "slot_empty (empty_shared k t)" "end_of (empty_shared k t) side = None" "\<not> owns (empty_shared k t) e"
  by (simp_all add: empty_shared_def slot_empty_def end_of_def owns_def slot_is_def split: end_side.split)

definition add_shared :: "shared \<Rightarrow> 'y world_scheme \<Rightarrow> 'y world_scheme" where
  "add_shared sh w = w\<lparr>h_shared := h_shared w @ [sh]\<rparr>"

lemma newShared_run: "newShared k t w = (Inr (length (h_shared w)), add_shared (empty_shared k t) w)"
  by (simp add: newShared_def monad_simps add_shared_def empty_shared_def)

lemma good_add_shared:
  assumes w: "sinv w" shows "good w (add_shared (empty_shared k t) w)"
proof -
  let ?v = "add_shared (empty_shared k t) w"
  note E = sinvD(1) [OF w]
  have S: "h_ends ?v = h_ends w" "w_waitables ?v = w_waitables w" "w_sets ?v = w_sets w" "h_bufs ?v = h_bufs w" "w_insts ?v = w_insts w"
    "length (h_shared ?v) = Suc (length (h_shared w))"
    by (simp_all add: add_shared_def)
  have old: "h_shared ?v ! s = h_shared w ! s" if "s < length (h_shared w)" for s
    using that by (simp add: add_shared_def nth_append)
  have new: "h_shared ?v ! length (h_shared w) = empty_shared k t" by (simp add: add_shared_def)
  have p: "pend ?v e = pend w e" "is_guest ?v b = is_guest w b" for e b by (simp_all add: pend_def is_guest_def S)
  have "ends_ok ?v"
    using E ends_okD(1) [OF E] unfolding ends_ok_def S less_Suc_eq by (auto simp: old new)
  moreover have "local_ok ?v s" if "s < length (h_shared ?v)" for s
  proof (cases "s < length (h_shared w)")
    case True
    then show ?thesis using sinvD(4) [OF w True] by (simp add: local_ok_def slot_ok_def S old p)
  next
    case False
    then have "s = length (h_shared w)" using that by (simp add: S)
    then have "ce_shared (h_ends w ! e) \<noteq> s" if "e < length (h_ends w)" for e using ends_okD(1) [OF E that] by simp
    then show ?thesis using \<open>s = _\<close> by (auto simp: local_ok_def slot_ok_def S new)
  qed
  moreover have "tables_ok ?v" using sinvD(3) [OF w]
    by (simp add: tables_ok_def inst_ok_def entry_ok_def subtask_ok_def S)
  moreover have "stray_ok ?v" "bufs_ok ?v" "waits_ok ?v"
    using sinvD(2,5,6) [OF w] by (auto simp: stray_ok_def bufs_ok_def S elim!: waits_ok_same)
  ultimately have "sinv ?v" by (simp add: sinv_def)
  moreover have "live ?v" if "live w" using that ends_okD(1) [OF E] by (auto simp: live_def S p old)
  ultimately show ?thesis by (simp add: good_def)
qed

text \<open>An end that takes a free side of its shared object, with a waitable of its own.\<close>

definition new_end :: "end_side \<Rightarrow> nat \<Rightarrow> valtype option \<Rightarrow> 'y world_scheme \<Rightarrow> copy_end" where
  "new_end side s elem w = \<lparr>ce_wait = length (w_waitables w), ce_kind = sh_kind (h_shared w ! s), ce_side = side,
     ce_shared = s, ce_elem = elem, ce_state = IDLE, ce_index = None\<rparr>"

definition set_side :: "end_side \<Rightarrow> nat \<Rightarrow> shared \<Rightarrow> shared" where
  "set_side side e sh = (case side of Readable \<Rightarrow> sh\<lparr>sh_readable := Some e\<rparr> | Writable \<Rightarrow> sh\<lparr>sh_writable := Some e\<rparr>)"

lemma set_side_sel [simp]:
  "end_of (set_side side e sh) d = (if d = side then Some e else end_of sh d)" "slot_empty (set_side side e sh) = slot_empty sh"
  "slot_is (set_side side e sh) b cb = slot_is sh b cb" "sh_dropped (set_side side e sh) = sh_dropped sh"
  "sh_kind (set_side side e sh) = sh_kind sh" "owns (set_side side e sh) d' = owns sh d'"
  by (cases side; cases d; simp add: set_side_def end_of_def slot_empty_def slot_is_def owns_def)+

lemma pend_ok_set_side [simp]: "pend_ok r (set_side side e sh) d x p = pend_ok r sh d x p"
  by (simp add: pend_ok_def cong: option.case_cong pending_event.case_cong)

definition add_end :: "end_side \<Rightarrow> nat \<Rightarrow> valtype option \<Rightarrow> 'y world_scheme \<Rightarrow> 'y world_scheme" where
  "add_end side s elem w = w\<lparr>w_waitables := w_waitables w @ [init_waitable], h_ends := h_ends w @ [new_end side s elem w],
     h_shared := (h_shared w)[s := set_side side (length (h_ends w)) (h_shared w ! s)]\<rparr>"

lemma newEnd_run: "newEnd side s elem w = (Inr (length (h_ends w)), add_end side s elem w)"
  by (simp add: newEnd_def shared_at_def upd_shared_def new_waitable_def monad_simps add_end_def new_end_def set_side_def split: end_side.split)

lemma good_add_end:
  assumes w: "sinv w" and s: "s < length (h_shared w)" and free: "end_of (h_shared w ! s) side = None"
  shows "good w (add_end side s elem w)"
proof -
  let ?v = "add_end side s elem w"
  let ?n = "length (h_ends w)"
  note E = sinvD(1) [OF w]
  have S: "w_waitables ?v = w_waitables w @ [init_waitable]" "w_sets ?v = w_sets w" "h_bufs ?v = h_bufs w" "w_insts ?v = w_insts w"
    "length (h_ends ?v) = Suc ?n" "length (h_shared ?v) = length (h_shared w)"
    by (simp_all add: add_end_def)
  have old: "h_ends ?v ! e = h_ends w ! e" if "e < ?n" for e using that by (simp add: add_end_def nth_append)
  have new: "h_ends ?v ! ?n = new_end side s elem w" by (simp add: add_end_def)
  have sh: "h_shared ?v ! r = (if r = s then set_side side ?n (h_shared w ! s) else h_shared w ! r)" for r
    using s by (simp add: add_end_def nth_list_update)
  have p: "pend ?v e = pend w e" if "e < ?n" for e
    using ends_okD(2) [OF E that] that by (simp add: pend_def S old nth_append)
  have pn: "pend ?v ?n = None" by (simp add: pend_def S new new_end_def init_waitable_def)
  have g: "is_guest ?v b = is_guest w b" for b by (simp add: is_guest_def S)
  have ends_old: "ce_shared (h_ends ?v ! e) < length (h_shared ?v) \<and> ce_wait (h_ends ?v ! e) < length (w_waitables ?v) \<and>
      sh_kind (h_shared ?v ! ce_shared (h_ends ?v ! e)) = ce_kind (h_ends ?v ! e) \<and>
      end_of (h_shared ?v ! ce_shared (h_ends ?v ! e)) (ce_side (h_ends ?v ! e)) = Some e" if e: "e < ?n" for e
    using ends_okD(1-4) [OF E e] free by (auto simp: S sh old [OF e])
  have ends_new: "ce_shared (h_ends ?v ! ?n) < length (h_shared ?v) \<and> ce_wait (h_ends ?v ! ?n) < length (w_waitables ?v) \<and>
      sh_kind (h_shared ?v ! ce_shared (h_ends ?v ! ?n)) = ce_kind (h_ends ?v ! ?n) \<and>
      end_of (h_shared ?v ! ce_shared (h_ends ?v ! ?n)) (ce_side (h_ends ?v ! ?n)) = Some ?n"
    using s by (simp add: S sh new new_end_def)
  have known: "e < length (h_ends ?v) \<and> ce_shared (h_ends ?v ! e) = r \<and> ce_side (h_ends ?v ! e) = d"
    if "r < length (h_shared ?v)" "end_of (h_shared ?v ! r) d = Some e" for r d e
    using that ends_okD(5) [OF E, of r d e] by (auto simp: S sh old new new_end_def split: if_splits)
  have fresh: "e = d" if "e < length (h_ends ?v)" "d < length (h_ends ?v)" "ce_wait (h_ends ?v ! e) = ce_wait (h_ends ?v ! d)" for e d
    using that ends_okD(6) [OF E, of e d] ends_okD(2) [OF E, of e] ends_okD(2) [OF E, of d]
    by (auto simp: S old new new_end_def less_Suc_eq)
  have "ends_ok ?v"
    using ends_old ends_new known fresh unfolding ends_ok_def by (simp add: S(5) less_Suc_eq all_conj_distrib)
  moreover have "local_ok ?v r" if r: "r < length (h_shared ?v)" for r
  proof -
    have "pend_ok r (h_shared ?v ! r) e (h_ends ?v ! e) (pend ?v e)" if "e < length (h_ends ?v)" "ce_shared (h_ends ?v ! e) = r" for e
    proof (cases "e < ?n")
      case True
      then have "pend_ok r (h_shared w ! r) e (h_ends w ! e) (pend w e)"
        using local_okD(2) [OF sinvD(4) [OF w, of r]] that r by (simp add: S old)
      then show ?thesis
        by (auto simp: old [OF True] p [OF True] sh)
    next
      case False
      then have "e = ?n" using that by (simp add: S)
      then show ?thesis by (simp add: new pn pend_ok_def new_end_def)
    qed
    moreover from w r [unfolded S] have "slot_ok ?v r"
    proof (cases rule: slot_cases)
      case 1
      then show ?thesis by (auto simp: slot_ok_def sh)
    next
      case (2 b cb)
      have "e < Suc ?n \<and> ce_shared (h_ends ?v ! e) = r \<and> copying (h_ends ?v ! e) \<and> cb = cb_for (h_ends ?v ! e) e b \<and> is_guest ?v b"
        if "cb_end cb = Some e" for e
        using owner_of [OF w _ 2(1) that] r by (simp add: S(6) old g)
      then show ?thesis using 2 unfolding slot_ok_def S by (intro disjI2 exI [of _ b] exI [of _ cb]) (auto simp: sh)
    qed
    ultimately show ?thesis by (simp add: local_ok_def)
  qed
  moreover have "tables_ok ?v"
  proof -
    have "entry_ok ?v c x" if "entry_ok w c x" for c x using that by (auto simp: entry_ok_def S old)
    moreover have "subtask_ok ?v sb" if "subtask_ok w sb" for sb
      using that by (auto simp: subtask_ok_def S old new new_end_def less_Suc_eq)
    ultimately show ?thesis using sinvD(3) [OF w] by (simp add: tables_ok_def inst_ok_def S)
  qed
  moreover have "stray_ok ?v"
    unfolding stray_ok_def S
  proof (intro allI impI)
    fix k assume "k < length (w_waitables w @ [init_waitable])"
    then consider "k < length (w_waitables w)" | "k = length (w_waitables w)" by fastforce
    then show "(\<exists>e<Suc ?n. ce_wait (h_ends ?v ! e) = k) \<or>
        (case wt_pending ((w_waitables w @ [init_waitable]) ! k) of None \<Rightarrow> True | Some (SubtaskEvent _ _ _) \<Rightarrow> True | _ \<Rightarrow> False)"
    proof cases
      case 1
      then show ?thesis using sinvD(6) [OF w] unfolding stray_ok_def by (metis less_SucI nth_append old)
    next
      case 2
      then show ?thesis by (simp add: init_waitable_def)
    qed
  qed
  moreover have "waits_ok ?v"
  proof -
    obtain ws where ws: "winv w ws" using sinvD(5) [OF w] by (auto simp: waits_ok_def)
    have "winv ?v ws = winv (snd (new_waitable w)) ws" by (rule winv_same) (simp_all add: S new_waitable_def monad_simps)
    then show ?thesis using winv_new_waitable [OF ws] by (auto simp: waits_ok_def)
  qed
  moreover have "bufs_ok ?v" using sinvD(2) [OF w] by (simp add: bufs_ok_def S)
  ultimately have "sinv ?v" by (simp add: sinv_def)
  moreover have "live ?v" if "live w"
    using that by (auto simp: live_def S p old new new_end_def copying_def sh less_Suc_eq)
  ultimately show ?thesis by (simp add: good_def)
qed

text \<open>\<open>stream.new\<close> and \<open>future.new\<close>: two ends of one object, each with its handle.\<close>

lemma entry_ok_end: "e < length (h_ends w) \<Longrightarrow> entry_ok w c (end_entry (ce_kind (h_ends w ! e)) (ce_side (h_ends w ! e)) e)"
  by (auto simp: entry_ok_def end_entry_def split: end_kind.split end_side.split)

lemma good_cframe: "sinv w \<Longrightarrow> cframe w t \<Longrightarrow> good w t"
  by (rule served_good [OF served_cframe])

lemma wp_add_ends:
  fixes u :: "'y world_scheme"
  assumes u: "sinv u" and k: "k < length (w_insts u)" and r: "r < length (h_ends u)" and d: "d < length (h_ends u)"
  shows "wp (bnd (handle_add k (end_entry (ce_kind (h_ends u ! r)) (ce_side (h_ends u ! r)) r)) (\<lambda>ri.
      bnd (handle_add k (end_entry (ce_kind (h_ends u ! d)) (ce_side (h_ends u ! d)) d)) (\<lambda>wi.
      seqm (upd_end r (\<lambda>x. x\<lparr>ce_index := Some ri\<rparr>))
      (seqm (upd_end d (\<lambda>x. x\<lparr>ce_index := Some wi\<rparr>)) (ret (packEnds ri wi)))))) (\<lambda>_. good u) sinv u"
proof -
  have idx: "served t (put_end e (\<lambda>x. x\<lparr>ce_index := Some i\<rparr>) t)" if "sinv t" "e < length (h_ends t)" for t :: "'y world_scheme" and e i
    by (rule served_fields [OF that]) simp_all
  have fin: "good u (put_end d (\<lambda>x. x\<lparr>ce_index := Some wi\<rparr>) (put_end r (\<lambda>x. x\<lparr>ce_index := Some ri\<rparr>) t))" if "cframe u t" for t ri wi
  proof -
    have t: "served u t" by (rule served_cframe [OF u that])
    then have "served u (put_end r (\<lambda>x. x\<lparr>ce_index := Some ri\<rparr>) t)"
      using r by (intro served_trans [OF t idx]) (simp_all add: served_def)
    moreover from this have "sinv (put_end r (\<lambda>x. x\<lparr>ce_index := Some ri\<rparr>) t)" by (simp only: served_def)
    moreover from t d have "d < length (h_ends (put_end r (\<lambda>x. x\<lparr>ce_index := Some ri\<rparr>) t))" by (simp add: served_def)
    ultimately show ?thesis by (rule served_good [OF served_trans [OF _ idx]])
  qed
  have add2: "wp (handle_add k (end_entry (ce_kind (h_ends u ! d)) (ce_side (h_ends u ! d)) d))
      (\<lambda>wi t'. good u (put_end d (\<lambda>x. x\<lparr>ce_index := Some wi\<rparr>) (put_end r (\<lambda>x. x\<lparr>ce_index := Some ri\<rparr>) t'))) sinv t"
    if t: "cframe u t" "length (w_insts t) = length (w_insts u)" for t ri
  proof -
    have st: "sinv t" by (rule sinv_cframe [OF t(1) u])
    have e: "entry_ok t (w_insts t ! k) (end_entry (ce_kind (h_ends u ! d)) (ce_side (h_ends u ! d)) d)"
      using entry_ok_end [of d t "w_insts t ! k"] d by (simp add: cframe_sel [OF t(1)])
    show ?thesis
      by (rule wp_mono [OF wp_handle_add [OF st _ e]]) (use t k in \<open>auto intro: fin cframe_trans [OF t(1)] sinv_cframe [OF _ st]\<close>)
  qed
  show ?thesis
    unfolding wp_bnd
  proof (rule wp_mono [OF wp_handle_add [OF u k entry_ok_end [OF r]]])
    fix ri t assume t: "cframe u t \<and> length (w_insts t) = length (w_insts u)"
    show "wp (handle_add k (end_entry (ce_kind (h_ends u ! d)) (ce_side (h_ends u ! d)) d)) (\<lambda>wi.
        wp (seqm (upd_end r (\<lambda>x. x\<lparr>ce_index := Some ri\<rparr>)) (seqm (upd_end d (\<lambda>x. x\<lparr>ce_index := Some wi\<rparr>)) (ret (packEnds ri wi))))
          (\<lambda>_. good u) sinv) sinv t"
      by (rule wp_mono [OF add2 [of t ri]]) (use t in \<open>simp_all only: wp_seqm wp_heap wp_basic\<close>)
  qed (rule sinv_cframe [OF _ u])
qed

theorem endsNew_good:
  fixes w :: "'y world_scheme"
  assumes w: "sinv w" and k: "k < length (w_insts w)"
  shows "wp (endsNew kind what k t) (\<lambda>_. good w) sinv w"
proof -
  let ?s = "length (h_shared w)"
  let ?n = "length (h_ends w)"
  let ?a = "add_shared (empty_shared kind t) w"
  let ?b = "add_end Readable ?s t ?a"
  let ?c = "add_end Writable ?s t ?b"
  have a: "good w ?a" by (rule good_add_shared [OF w])
  have A: "length (h_shared ?a) = Suc ?s" "h_shared ?a ! ?s = empty_shared kind t" "h_ends ?a = h_ends w" "w_insts ?a = w_insts w"
    by (simp_all add: add_shared_def)
  have b: "good w ?b" by (rule good_trans [OF a good_add_end]) (use a in \<open>simp_all add: A good_sinv\<close>)
  have B: "length (h_shared ?b) = Suc ?s" "h_shared ?b ! ?s = set_side Readable ?n (empty_shared kind t)"
    "length (h_ends ?b) = Suc ?n" "w_insts ?b = w_insts w"
    by (simp_all add: add_end_def A)
  have c: "good w ?c" by (rule good_trans [OF b good_add_end]) (use b in \<open>simp_all add: B good_sinv\<close>)
  have C: "h_ends ?c ! ?n = new_end Readable ?s t ?a" "h_ends ?c ! Suc ?n = new_end Writable ?s t ?b"
    "length (h_ends ?c) = Suc (Suc ?n)" "w_insts ?c = w_insts w"
    by (simp_all add: add_end_def A nth_append)
  have kinds: "ce_kind (h_ends ?c ! ?n) = kind" "ce_side (h_ends ?c ! ?n) = Readable"
    "ce_kind (h_ends ?c ! Suc ?n) = kind" "ce_side (h_ends ?c ! Suc ?n) = Writable"
    unfolding C by (simp_all add: new_end_def A(2) B(2)) (simp_all add: empty_shared_def)
  note ends = wp_add_ends [OF good_sinv [OF c], of k ?n "Suc ?n", unfolded kinds]
  show ?thesis
    unfolding endsNew_def wp_seqm wp_leave_guard
    using w k
    by (auto simp: wp_bnd [of "newShared _ _"] wp_bnd [of "newEnd _ _ _"] wp_def [of "newShared _ _"] wp_def [of "newEnd _ _ _"]
        newShared_run newEnd_run A B C intro!: wp_mono [OF ends] good_trans [OF c])
qed

section \<open>Dropping and moving ends\<close>

lemma wp_end_drop:
  fixes w :: "'y world_scheme"
  assumes env: "env_ok env" and w: "sinv w" and e: "e < length (h_ends w)"
  shows "wp (end_drop env e) (\<lambda>_. served w) (intact w) w"
proof -
  let ?s = "ce_shared (h_ends w ! e)"
  have s: "?s < length (h_shared w)" by (rule ends_okD(1) [OF sinvD(1) [OF w] e])
  have "wp (waitable_drop (ce_wait (h_ends w ! e))) (\<lambda>_. served w) (intact w) u"
    if "\<not> copying (h_ends w ! e)" "drop_post ?s w u" for u
  proof -
    have u: "sinv u" "e < length (h_ends u)" "h_ends u = h_ends w" using that(2) e by (auto simp: drop_post_def)
    show ?thesis
      by (rule wp_mono [OF wp_waitable_drop_end [OF u(1,2), unfolded u(3)]])
        (use that in \<open>auto simp: u(3) intact_def intro: served_trans [OF served_drop]\<close>)
  qed
  then show ?thesis
    using w by (auto simp: end_drop_def wps intact_simps intro!: wp_mono [OF wp_shared_drop [OF env w s]] intact_simps(4))
qed

lemma intact_cframe: "sinv w \<Longrightarrow> cframe w t \<Longrightarrow> intact w t"
  by (rule intact_simps(3) [OF served_cframe])

theorem dropEnd_good:
  fixes w :: "'y world_scheme"
  assumes env: "env_ok env" and w: "sinv w" and k: "k < length (w_insts w)"
  shows "wp (dropEnd env kind side elem what k i) (\<lambda>_. good w) sinv w"
proof -
  have drop: "wp (end_drop env e) (\<lambda>_. good w) (intact w) t" if "cframe w t" "e < length (h_ends t)" for e t
    by (rule wp_mono [OF wp_end_drop [OF env sinv_cframe [OF that(1) w] that(2)]])
      (use that(1) in \<open>auto intro: served_good served_trans [OF served_cframe [OF w]] intact_trans [OF intact_cframe [OF w]]\<close>)
  show ?thesis
    unfolding dropEnd_def wp_seqm wp_leave_guard
    using w by (auto simp: wps intact_cframe intro!: wp_removeHandle [OF env w k] wp_as_end drop)
qed

text \<open>A transfer moves the entry; the end is idle.\<close>

theorem transferAsyncEnd_good:
  fixes w :: "'y world_scheme"
  assumes env: "env_ok env" and w: "sinv w" and k: "k < length (w_insts w)" "j < length (w_insts w)"
  shows "wp (transferAsyncEnd env kind k j elem elem' i) (\<lambda>_. good w) sinv w"
proof -
  have idx: "served t (put_end e (\<lambda>x. x\<lparr>ce_index := n\<rparr>) t)" "served t (put_end e (\<lambda>x. x\<lparr>ce_elem := v, ce_index := n\<rparr>) t)"
    if "sinv t" "e < length (h_ends t)" for t :: "'y world_scheme" and e n v
    by (rule served_fields [OF that]; simp)+
  have add: "wp (handle_add j (end_entry kind Readable e)) (\<lambda>n t'. good w (put_end e (\<lambda>x. x\<lparr>ce_index := Some n\<rparr>) t')) (intact w)
      (put_end e (\<lambda>x. x\<lparr>ce_elem := elem', ce_index := None\<rparr>) t)"
    if t: "cframe w t" "sinv t" "map c_subtasks (w_insts t) = map c_subtasks (w_insts w)" and e: "e < length (h_ends t)"
      "ce_kind (h_ends t ! e) = kind" "ce_side (h_ends t ! e) = Readable" for e t
  proof -
    let ?u = "put_end e (\<lambda>x. x\<lparr>ce_elem := elem', ce_index := None\<rparr>) t"
    have u: "served w ?u" by (rule served_trans [OF served_cframe [OF w t(1)] idx(2) [OF t(2) e(1)]])
    then have U: "sinv ?u" "length (h_ends ?u) = length (h_ends w)" by (simp_all add: served_def)
    have "entry_ok ?u (w_insts ?u ! j) (end_entry kind Readable e)"
      using entry_ok_end [of e ?u] e by simp
    moreover have "j < length (w_insts ?u)" using k(2) map_eq_imp_length_eq [OF t(3)] by simp
    ultimately have "wp (handle_add j (end_entry kind Readable e)) (\<lambda>_ t. cframe ?u t \<and> length (w_insts t) = length (w_insts ?u)) (cframe ?u) ?u"
      by (intro wp_handle_add U)
    moreover have "good w (put_end e (\<lambda>x. x\<lparr>ce_index := Some n\<rparr>) v)" if v: "cframe ?u v" for v n
    proof -
      have "sinv v" "e < length (h_ends v)" using sinv_cframe [OF v U(1)] e(1) by (simp_all add: cframe_sel [OF v])
      from served_trans [OF served_trans [OF u served_cframe [OF U(1) v]] idx(1) [OF this]] show ?thesis by (rule served_good)
    qed
    moreover have "intact w v" if "cframe ?u v" for v
      using intact_trans [OF intact_simps(3) [OF u] intact_cframe [OF U(1) that]] .
    ultimately show ?thesis by (elim wp_mono) blast+
  qed
  show ?thesis
    unfolding transferAsyncEnd_def Let_def
    by (auto simp: wps intact_cframe [OF w] intro!: wp_removeHandle [OF env w k(1)] wp_as_end wp_mono [OF add])
qed

section \<open>Sets, subtasks and error contexts\<close>

text \<open>Accesses to an instance's memory leave the protocol state alone.\<close>

definition steady :: "('y, 'a) sm \<Rightarrow> bool" where
  "steady a \<longleftrightarrow> (\<forall>w. sinv w \<longrightarrow> wp a (\<lambda>_. cframe w) (cframe w) w)"

definition memory_ok :: "'y env \<Rightarrow> bool" where
  "memory_ok env \<longleftrightarrow> (\<forall>opts k. (\<forall>v p. steady (at_inst k (store (env_cx env opts k) v (Prim PU32) p) :: ('y, unit) sm)) \<and>
     (\<forall>p n. steady (at_inst k (loadStringFromRange (env_cx env opts k) p n) :: ('y, cval) sm)) \<and>
     (\<forall>v p. steady (at_inst k (storeString (env_cx env opts k) v p) :: ('y, unit) sm)))"

lemma memory_okD:
  fixes env :: "'y env"
  assumes "memory_ok env"
  shows "steady (at_inst k (store (env_cx env opts k) v (Prim PU32) p) :: ('y, unit) sm)"
    "steady (at_inst k (loadStringFromRange (env_cx env opts k) p n) :: ('y, cval) sm)"
    "steady (at_inst k (storeString (env_cx env opts k) v p) :: ('y, unit) sm)"
  using assms by (simp_all add: memory_ok_def)

lemma wp_steady:
  assumes "steady a" "sinv w" "\<And>x t. cframe w t \<Longrightarrow> sinv t \<Longrightarrow> Q x t" "\<And>t. cframe w t \<Longrightarrow> sinv t \<Longrightarrow> E t"
  shows "wp a Q E w"
  using assms(1,2) wp_mono [of a "\<lambda>_. cframe w" "cframe w" w Q E] assms(3,4) sinv_cframe [OF _ assms(2)]
  unfolding steady_def by blast

lemma wp_unpackEvent:
  assumes env: "memory_ok env" and w: "sinv w"
  shows "wp (unpackEvent env opts k p e) (\<lambda>_. cframe w) (cframe w) w"
  using w by (auto simp: unpackEvent_def Let_def wps split: prod.split
      intro!: wp_steady [OF memory_okD(1) [OF env]]) (rule cframe_trans, assumption+)+

lemma at_inst_insts: "length (w_insts (snd (at_inst k a w))) = length (w_insts w)"
  by (simp add: at_inst_def zoom_def inst_put_def split: prod.split)

lemma wp_at_cst: "wp (at_cst k a) Q E w =
    wp a (\<lambda>x c. Q x (w\<lparr>w_insts := (w_insts w)[k := c]\<rparr>)) (\<lambda>c. E (w\<lparr>w_insts := (w_insts w)[k := c]\<rparr>)) (w_insts w ! k)"
  by (simp add: wp_def at_cst_def zoom_def split: prod.split sum.split)

lemma wp_subtask_ops [wps]:
  "wp (at_cst k (subtask_at j)) Q E w = Q (c_subtasks (w_insts w ! k) ! j) w"
  "wp (at_cst k (resolveDelivered j)) P E w = (let sb = c_subtasks (w_insts w ! k) ! j in
     if sb_lenders sb \<noteq> None \<or> subtask_resolved (sb_state sb) then P (sb_lenders sb = None) w else E w)"
  by (simp_all add: wp_at_cst subtask_at_def resolveDelivered_def wps Let_def)

lemma subtask_stray:
  assumes "sinv w" "k < length (w_insts w)" "j < length (c_subtasks (w_insts w ! k))"
  shows "subtask_ok w (c_subtasks (w_insts w ! k) ! j)"
  using sinv_inst [OF assms(1,2)] assms(3) by (simp add: inst_ok_def)

text \<open>Sets.\<close>

lemma served_new_wset:
  assumes w: "sinv w" shows "wp new_wset (\<lambda>k t. served w t \<and> k < length (w_sets t) \<and> w_insts t = w_insts w) E w"
proof -
  let ?t = "w\<lparr>w_sets := w_sets w @ [init_wset]\<rparr>"
  have "served w ?t"
  proof (rule served_regroup [OF w])
    show "regroup w ?t" by (simp add: regroup_def)
    obtain ws where "winv w ws" using sinvD(5) [OF w] by (auto simp: waits_ok_def)
    from winv_new_wset [OF this] show "waits_ok ?t" by (auto simp: waits_ok_def waitable_runs)
  qed
  then show ?thesis by (simp add: wp_def waitable_runs)
qed

theorem waitableSetNew_good:
  assumes w: "sinv w" and k: "k < length (w_insts w)"
  shows "wp (waitableSetNew k) (\<lambda>_. good w) sinv w"
proof -
  have "wp (handle_add k (WaitableSetE q)) (\<lambda>_. good w) sinv t"
    if t: "served w t" "q < length (w_sets t)" "w_insts t = w_insts w" for q t
  proof -
    have st: "sinv t" using t(1) by (simp add: served_def)
    have "entry_ok t (w_insts t ! k) (WaitableSetE q)" using t(2) by (simp add: entry_ok_def)
    from wp_handle_add [OF st _ this] show ?thesis
      by (rule wp_mono) (use t k in \<open>auto intro: sinv_cframe [OF _ st] served_good served_trans [OF t(1) served_cframe [OF st]]\<close>)
  qed
  then show ?thesis
    using w unfolding waitableSetNew_def wp_seqm wp_leave_guard wp_bnd
    by (auto intro!: wp_mono [OF served_new_wset])
qed

lemma wp_requireSet:
  assumes w: "sinv w" and k: "k < length (w_insts w)" and Q: "\<And>q. q < length (w_sets w) \<Longrightarrow> Q q w" and E: "E w"
  shows "wp (requireWaitableSet k i what) Q E w"
  unfolding requireWaitableSet_def wp_bnd
  by (rule wp_mono [OF wp_handle_get [OF w k]]) (auto simp: wps E entry_ok_def intro: Q split: hentry.split)

lemma wp_poll:
  assumes w: "sinv w" and k: "k < length (w_sets w)"
  shows "wp (wset_poll run_event k) (\<lambda>_. served w) sinv w"
  using w wp_wset_get [OF w k] by (simp add: wset_poll_def wps)

lemma wp_delivered:
  assumes env: "memory_ok env" and t: "served w t"
  shows "wp (unpackEvent env opts k p e) (\<lambda>_. good w) sinv t"
proof -
  have st: "sinv t" using t by (simp add: served_def)
  show ?thesis
    by (rule wp_mono [OF wp_unpackEvent [OF env st]])
      (auto intro: sinv_cframe [OF _ st] served_good served_trans [OF t served_cframe [OF st]])
qed

theorem waitableSetPoll_good:
  assumes env: "memory_ok env" and w: "sinv w" and k: "k < length (w_insts w)"
  shows "wp (waitableSetPoll env opts k i p) (\<lambda>_. good w) sinv w"
  using w unfolding waitableSetPoll_def wp_seqm wp_leave_guard wp_bnd
  by (auto intro!: wp_requireSet [OF w k] wp_mono [OF wp_poll [OF w]] wp_delivered [OF env])

lemma wait_enter_good:
  assumes w: "sinv w" and q: "q < length (w_sets w)"
  shows "wp (wait_enter q) (\<lambda>_. good w) sinv w"
proof -
  have "wp (wait_enter q) (\<lambda>_. served w) (served w) w"
  proof (rule wp_regroup [OF w])
    show "keeps regroup (wait_enter q)" unfolding wait_enter_def by (rule regroup_upd(2))
  qed (use winv_enter q in blast)
  then show ?thesis by (rule wp_mono) (auto simp: served_def intro: served_good)
qed

theorem waitableSetWait_good:
  assumes env: "memory_ok env" and w: "sinv w" and k: "k < length (w_insts w)"
  shows "wp (waitableSetWait env opts mode k i p) (\<lambda>_. good w) sinv w"
  using w unfolding waitableSetWait_def
  by (auto simp: wps intro!: wp_requireSet [OF w k] wp_mono [OF wp_wset_get [OF w]] wp_then_ret wp_delivered [OF env] wait_enter_good)

text \<open>The scheduler resumes a wait when its set has an event; the wait is uncounted in any case.\<close>

definition waits_same :: "'y world_scheme \<Rightarrow> 'y world_scheme \<Rightarrow> bool" where
  "waits_same w t \<longleftrightarrow> w_waitables t = w_waitables w \<and> w_sets t = w_sets w"

lemma waits_same_order: "reflp waits_same" "transp waits_same"
  by (auto intro!: reflpI transpI simp: waits_same_def)

lemmas keeps_waits =
  keeps_bnd [OF waits_same_order(2)] keeps_seqm [OF waits_same_order(2)] keeps_ret [OF waits_same_order(1)]
  keeps_throw [OF waits_same_order(1)] keeps_gets [OF waits_same_order(1)] keeps_assertm [OF waits_same_order(1)]

lemma keeps_waits_ops:
  "keeps waits_same (at_cst k a)" "keeps waits_same (upd_end e f)" "keeps waits_same (upd_shared s g)"
  "keeps waits_same (end_at e)" "keeps waits_same (shared_at s)" "keeps waits_same (idle_index x msg)"
  by (auto simp: keeps_def waits_same_def at_cst_def zoom_def upd_end_def upd_shared_def end_at_def shared_at_def idle_index_def
      split: prod.split option.split)

text \<open>The thunks of the events are a source of events in the sense of \<open>Waitables\<close>.\<close>

lemma keeps_run_event: "keeps waits_same (run_event p)"
  by (cases p)
    (auto simp del: run_rules simp: subtask_event_def stream_event_def future_event_def idle_drop_event_def resetPending_def Let_def
      split: option.split reclaim.split intro!: keeps_waits keeps_waits_ops)

interpretation events: event_source run_event
proof
  fix p and s t :: "'y world_scheme" and r
  assume "run_event p s = (r, t)"
  then have "waits_same s t" by (rule keepsD [OF keeps_run_event])
  then show "w_waitables t = w_waitables s \<and> w_sets t = w_sets s" by (simp add: waits_same_def)
qed

lemma wait_leave_served:
  assumes w: "sinv w" and k: "ws_waiting (w_sets w ! k) > 0" "k < length (w_sets w)"
  shows "served w (wait_leave k w)"
proof (rule served_regroup [OF w])
  show "regroup w (wait_leave k w)" by (simp add: regroup_def wait_leave_def)
  obtain ws where ws: "winv w ws" using sinvD(5) [OF w] by (auto simp: waits_ok_def)
  then have "count_list ws k > 0" using winvD(2) [OF ws k(2)] k(1) by simp
  then have "k \<in> set ws" by (metis count_notin less_irrefl)
  from winv_leave [OF ws this] show "waits_ok (wait_leave k w)" by (auto simp: waits_ok_def)
qed

lemma wp_finallym: "wp (finallym a c) Q E s = wp a (\<lambda>x t. Q x (c t)) (\<lambda>t. E (c t)) s"
  by (simp add: wp_def finallym_def split: prod.split sum.split)

lemma wp_with: "wp a Q E s \<Longrightarrow> R (snd (a s)) \<Longrightarrow> wp a (\<lambda>x t. Q x t \<and> R t) (\<lambda>t. E t \<and> R t) s"
  by (auto simp: wp_def split: prod.split sum.split)

lemma wset_get_sets:
  assumes w: "sinv w" and k: "k < length (w_sets w)" "wset_hasPendingEvent k w"
  shows "w_sets (snd (wset_getPendingEvent run_event k w)) = w_sets w"
proof -
  obtain ws where ws: "winv w ws" using sinvD(5) [OF w] by (auto simp: waits_ok_def)
  obtain v p r where "wset_getPendingEvent run_event k w = run_event p (consumed v r w)"
    using poll_delivers [OF ws k, where run = run_event] by metis
  moreover have "w_sets (snd (run_event p (consumed v r w))) = w_sets (consumed v r w)"
    using events.run_frame [OF surjective_pairing] by blast
  ultimately show ?thesis by simp
qed

theorem waitableSetWait_resume_good:
  assumes env: "memory_ok env" and w: "sinv w" and k: "q < length (w_sets w)" "ws_waiting (w_sets w ! q) > 0" "waitForEvent_ready q w"
  shows "wp (waitableSetWait_resume env opts k q p) (\<lambda>_. good w) sinv w"
proof -
  have leave: "good w (wait_leave q t)" if "served w t" "w_sets t = w_sets w" for t
    using that k by (intro served_good served_trans [OF that(1) wait_leave_served]) (simp_all add: served_def)
  have abort: "sinv (wait_leave q t)" if "sinv t" "w_sets t = w_sets w" for t
    using wait_leave_served [OF that(1), of q] that k by (simp add: served_def)
  have unpack: "wp (unpackEvent env opts k p e) (\<lambda>_ u. good w (wait_leave q u)) (\<lambda>u. sinv (wait_leave q u)) t"
    if t: "served w t" "w_sets t = w_sets w" for e t
  proof -
    have st: "sinv t" using t(1) by (simp add: served_def)
    have "served w u" "w_sets u = w_sets w" if "cframe t u" for u
      using that t(2) by (auto simp: cframe_def intro: served_trans [OF t(1) served_cframe [OF st]])
    then show ?thesis
      by (intro wp_mono [OF wp_unpackEvent [OF env st]] leave abort) (simp_all add: sinv_cframe [OF _ st])
  qed
  have pending: "wset_hasPendingEvent q w" using k(3) by (simp add: waitForEvent_ready_def waitForEventAnd_ready_def)
  show ?thesis
    unfolding waitableSetWait_resume_def wp_finallym wp_bnd
    by (rule wp_mono [OF wp_with [OF wp_wset_get [OF w k(1) pending], where R = "\<lambda>t. w_sets t = w_sets w"]])
      (auto simp: wset_get_sets [OF w k(1) pending] intro: unpack abort)
qed

theorem wait_leave_good:
  assumes "sinv w" "q < length (w_sets w)" "ws_waiting (w_sets w ! q) > 0"
  shows "good w (wait_leave q w)"
  by (rule served_good [OF wait_leave_served [OF assms(1,3,2)]])

theorem waitableSetDrop_good:
  assumes env: "env_ok env" and w: "sinv w" and k: "k < length (w_insts w)"
  shows "wp (waitableSetDrop env k i) (\<lambda>_. good w) sinv w"
  using w unfolding waitableSetDrop_def wp_seqm wp_leave_guard
  by (auto simp: wset_drop_def wps intact_cframe good_cframe split: hentry.split intro!: wp_removeHandle [OF env w k])

theorem waitableJoin_good:
  assumes w: "sinv w" and k: "k < length (w_insts w)"
  shows "wp (waitableJoin k i q) (\<lambda>_. good w) sinv w"
proof -
  have found: "v < length (w_waitables w)" if "entry_ok w (w_insts w ! k) x" "waitable_of k x w = Some v" for x v
  proof (cases "entry_end x")
    case None
    then show ?thesis
      using that subtask_stray [OF w k] by (auto simp: waitable_of_def entry_ok_def subtask_ok_def split: hentry.splits)
  next
    case (Some e)
    then have "v = ce_wait (h_ends w ! e)" using that(2) by (auto simp: waitable_of_def split: hentry.splits)
    moreover have "e < length (h_ends w)" using that(1) Some by (simp add: entry_ok_def)
    ultimately show ?thesis using ends_okD(2) [OF sinvD(1) [OF w]] by simp
  qed
  have join: "wp (waitable_join v d) (\<lambda>_. good w) sinv w"
    if "v < length (w_waitables w)" "case d of None \<Rightarrow> True | Some j \<Rightarrow> j < length (w_sets w)" for v d
    by (rule wp_mono [OF wp_join [OF w that]]) (auto simp: served_def intro: served_good)
  show ?thesis
    using w unfolding waitableJoin_def
    by (auto simp: wps split: option.split intro!: wp_mono [OF wp_handle_get [OF w k]] wp_requireSet [OF w k] join found)
qed

text \<open>Subtasks.\<close>

lemma wp_drop_stray:
  fixes w :: "'y world_scheme"
  assumes w: "sinv w" and q: "q < length (w_waitables w)" "\<And>e. e < length (h_ends w) \<Longrightarrow> ce_wait (h_ends w ! e) \<noteq> q"
  shows "wp (waitable_drop q) (\<lambda>_. served w) (served w) w"
proof -
  have "served w (arm q None w)"
    using sinv_take_stray [OF w q(2), of None] by (simp add: served_def)
  moreover have "wp (waitable_join q None) (\<lambda>_. served (arm q None w)) (served (arm q None w)) (arm q None w)"
    using calculation q(1) by (intro wp_join) (simp_all add: served_def)
  ultimately have "wp (waitable_join q None) (\<lambda>_. served w) (served w) (arm q None w)"
    by (elim wp_mono) (blast intro: served_trans)+
  then show ?thesis using w by (simp add: waitable_drop_def wps upd_waitable_def arm_def)
qed

theorem subtaskDrop_good:
  fixes w :: "'y world_scheme"
  assumes env: "env_ok env" and w: "sinv w" and k: "k < length (w_insts w)"
  shows "wp (subtaskDrop env k i) (\<lambda>_. good w) sinv w"
proof -
  have drop: "wp (waitable_drop (sb_wait (c_subtasks (w_insts t ! k) ! j))) (\<lambda>_. good w) (intact w) t"
    if t: "cframe w t" "sinv t" "entry_ok t (w_insts w ! k) (SubtaskE j)" "map c_subtasks (w_insts t) = map c_subtasks (w_insts w)" for j t
  proof -
    have n: "length (w_insts t) = length (w_insts w)" by (rule map_eq_imp_length_eq [OF t(4)])
    have "c_subtasks (w_insts t ! k) = c_subtasks (w_insts w ! k)" using t(4) k n by (metis nth_map)
    then have "subtask_ok t (c_subtasks (w_insts t ! k) ! j)"
      using t(3) k n by (intro subtask_stray [OF t(2)]) (simp_all add: entry_ok_def)
    then show ?thesis
      by (intro wp_mono [OF wp_drop_stray [OF t(2)]])
        (auto simp: subtask_ok_def intro: served_good served_trans [OF served_cframe [OF w t(1)]] intact_trans [OF intact_cframe [OF w t(1)]] intact_simps(3))
  qed
  show ?thesis
    using w unfolding subtaskDrop_def wp_seqm wp_leave_guard
    by (auto simp: subtask_drop_def wps Let_def intact_cframe split: hentry.split intro!: wp_removeHandle [OF env w k] drop)
qed

theorem setSubtaskPendingEvent_good:
  assumes w: "sinv w" and k: "k < length (w_insts w)" "j < length (c_subtasks (w_insts w ! k))"
  shows "wp (setSubtaskPendingEvent k j i) (\<lambda>_. good w) sinv w"
proof -
  let ?q = "sb_wait (c_subtasks (w_insts w ! k) ! j)"
  have "\<And>e. e < length (h_ends w) \<Longrightarrow> ce_wait (h_ends w ! e) \<noteq> ?q"
    using subtask_stray [OF w k] by (simp add: subtask_ok_def)
  from sinv_take_stray [OF w this, of "Some (SubtaskEvent k j i)"]
  have "served w (arm ?q (Some (SubtaskEvent k j i)) w)" by (simp add: served_def)
  then have "good w (arm ?q (Some (SubtaskEvent k j i)) w)" by (rule served_good)
  then show ?thesis by (simp add: setSubtaskPendingEvent_def wps setPendingEvent_def upd_waitable_def arm_def)
qed

text \<open>Retirement, and error contexts.\<close>

lemma table_iter_entry:
  assumes "x \<in> set (table_iter t)" obtains i where "table_entries t i = Some x"
proof -
  obtain i where "i < length (t_array t)" "t_array t ! i = Some x"
    using assms by (auto simp: table_iter_def in_set_conv_nth)
  then have "table_entries t i = Some x" by (simp add: table_entries_def)
  then show thesis by (rule that)
qed

theorem retireInstanceAsyncEnds_good:
  fixes w :: "'y world_scheme"
  assumes env: "env_ok env" and w: "sinv w" and k: "k < length (w_insts w)"
  shows "wp (retireInstanceAsyncEnds env k) (\<lambda>_. good w) sinv w"
proof -
  let ?u = "w\<lparr>h_retired := k # h_retired w\<rparr>"
  let ?es = "List.map_filter entry_end (table_iter (c_handles (w_insts w ! k)))"
  have u: "cframe w ?u" by (rule cframe_failures(2))
  have es: "e < length (h_ends w)" if e: "e \<in> set ?es" for e
  proof -
    obtain x where x: "x \<in> set (table_iter (c_handles (w_insts w ! k)))" "entry_end x = Some e"
      using e by (fastforce simp: List.map_filter_def)
    obtain i where "table_entries (c_handles (w_insts w ! k)) i = Some x" using x(1) by (rule table_iter_entry)
    then have "entry_ok w (w_insts w ! k) x" by (rule inst_okD(2) [OF sinv_inst [OF w k]])
    then show ?thesis using x(2) by (simp add: entry_ok_def)
  qed
  have "wp (retireAsyncEnds env k ?es) (\<lambda>_. served ?u) (served ?u) ?u"
    using es by (intro wp_retire [OF env sinv_cframe [OF u w]]) simp
  then have "wp (retireAsyncEnds env k ?es) (\<lambda>_. good w) sinv ?u"
    by (rule wp_mono) (rule served_good [OF served_trans [OF served_cframe [OF w u]]], assumption, simp add: served_def)
  then show ?thesis using w by (simp add: retireInstanceAsyncEnds_def wps good_cframe)
qed

lemma cframe_message: "cframe w (w\<lparr>h_messages := m\<rparr>)"
  by (simp add: cframe_def is_guest_def bufs_ok_def tables_ok_def inst_ok_def entry_ok_def subtask_ok_def)

lemma wp_add_context:
  assumes w: "sinv w" and t: "cframe w t" and k: "k < length (w_insts t)"
  shows "wp (handle_add k (ErrorContextE m)) (\<lambda>_. good w) sinv t"
proof -
  have st: "sinv t" by (rule sinv_cframe [OF t w])
  have "entry_ok t (w_insts t ! k) (ErrorContextE m)" by (simp add: entry_ok_def)
  from wp_handle_add [OF st k this] show ?thesis
    by (rule wp_mono) (auto intro: good_cframe [OF w cframe_trans [OF t]] sinv_cframe [OF _ st])
qed

theorem errorContextNew_good:
  fixes w :: "'y world_scheme"
  assumes env: "memory_ok env" and w: "sinv w" and k: "k < length (w_insts w)"
  shows "wp (errorContextNew env opts k p n) (\<lambda>_. good w) sinv w"
proof -
  have load: "wp (at_inst k (loadStringFromRange (env_cx env opts k) p n))
      (\<lambda>_ t. (cframe w t \<and> sinv t) \<and> length (w_insts t) = length (w_insts w)) (\<lambda>t. sinv t \<and> length (w_insts t) = length (w_insts w)) w"
    by (rule wp_with [OF wp_steady [OF memory_okD(2) [OF env] w]]) (simp_all add: at_inst_insts)
  have add: "wp (handle_add k (ErrorContextE m)) (\<lambda>_. good w) sinv (t\<lparr>h_messages := ms\<rparr>)"
    if "cframe w t" "length (w_insts t) = length (w_insts w)" for m t ms
    using that k by (intro wp_add_context [OF w cframe_trans [OF that(1) cframe_message]]) simp
  show ?thesis
    using w unfolding errorContextNew_def
    by (auto simp: wps new_message_def split: sum.split intro!: wp_mono [OF load] add)
qed

theorem errorContextDebugMessage_good:
  fixes w :: "'y world_scheme"
  assumes env: "memory_ok env" and w: "sinv w" and k: "k < length (w_insts w)"
  shows "wp (errorContextDebugMessage env opts k i p) (\<lambda>_. good w) sinv w"
  using w unfolding errorContextDebugMessage_def Let_def
  by (auto simp: wps as_error_context_def mem_length_def split: hentry.split option.split
      intro!: wp_mono [OF wp_handle_get [OF w k]] wp_steady [OF memory_okD(3) [OF env] w] good_cframe)

theorem errorContextDrop_good:
  fixes w :: "'y world_scheme"
  assumes env: "env_ok env" and w: "sinv w" and k: "k < length (w_insts w)"
  shows "wp (errorContextDrop env k i) (\<lambda>_. good w) sinv w"
  using w unfolding errorContextDrop_def wp_seqm wp_leave_guard
  by (auto simp: wps as_error_context_def intact_cframe good_cframe split: hentry.split intro!: wp_removeHandle [OF env w k])

theorem errorContextTransfer_good:
  fixes w :: "'y world_scheme"
  assumes w: "sinv w" and k: "k < length (w_insts w)" "j < length (w_insts w)"
  shows "wp (errorContextTransfer k j i) (\<lambda>_. good w) sinv w"
  using w unfolding errorContextTransfer_def
  by (auto simp: wps as_error_context_def split: hentry.split
      intro!: wp_mono [OF wp_handle_get [OF w k(1)]] wp_add_context [OF w cframe_refl k(2)])

end
