(* ===== verification/Async_Env.thy ===== *)
theory Async_Env
  imports Async_Steps
begin

text \<open>
  The environments that the invariant of the built-ins is about: contexts of the canonical
  ABI whose allocator and hooks leave the heap of streams alone. Loads and stores of
  elements of any type are then harmless, by the interpretation of \<open>abi_invariant\<close> on the
  frame \<open>inst_frame\<close>.
\<close>

section \<open>The canonical ABI on one instance\<close>

text \<open>With \<open>b\<close>, the instance is one of the world, so that its table is known to be good.\<close>

definition inst_frame :: "bool \<Rightarrow> heap \<Rightarrow> acst \<Rightarrow> bool" where
  "inst_frame b h s \<longleftrightarrow> a_heap s = h \<and> (b \<longrightarrow> inst_ok h (cst.truncate s))"

lemma truncate_sel [simp]:
  "c_handles (cst.truncate s) = c_handles s" "c_subtasks (cst.truncate s) = c_subtasks s"
  by (simp_all add: cst.defs)

lemma inst_frame_same:
  assumes "inst_frame b h s" "a_heap t = a_heap s" "c_handles t = c_handles s"
    "map sb_wait (c_subtasks t) = map sb_wait (c_subtasks s)"
  shows "inst_frame b h t"
  using assms inst_same_ok [of "cst.truncate s" "cst.truncate t" h] by (simp add: inst_frame_def inst_same_def)

lemma frame_modify:
  assumes "\<And>s. a_heap (f s) = a_heap s \<and> c_handles (f s) = c_handles s \<and> map sb_wait (c_subtasks (f s)) = map sb_wait (c_subtasks s)"
  shows "preserves (inst_frame b h) (modify f)"
  using assms by (auto simp: preserves_def intro: inst_frame_same)

lemma frame_handles:
  assumes "\<And>t r u. table_inv t \<Longrightarrow> a t = (r, u) \<Longrightarrow> table_inv u \<and>
    (\<forall>j y. table_entries u j = Some y \<longrightarrow> table_entries t j = Some y \<or> (\<exists>k. y = ResourceE k))"
  shows "preserves (inst_frame b h) (handles a)"
proof (rule preservesI)
  fix s r t assume s: "inst_frame b h s" and run: "handles a s = (r, t)"
  obtain q u where a: "a (c_handles s) = (q, u)" by fastforce
  have t: "t = s\<lparr>c_handles := u\<rparr>" using run a by (simp add: handles_def zoom_def)
  show "inst_frame b h t"
  proof (cases b)
    case True
    then have I: "inst_ok h (cst.truncate s)" using s by (simp add: inst_frame_def)
    note A = assms [OF _ a] inst_okD [OF I, unfolded truncate_sel]
    have "entry_ok h (cst.truncate s) x" if "table_entries u i = Some x" for i x
      using A(1) [OF A(2)] A(3) that by (fastforce simp: entry_ok_def [of _ _ "ResourceE _"])
    then have "inst_ok h ((cst.truncate s)\<lparr>c_handles := u\<rparr>)"
      using A(1) [OF A(2)] by (intro inst_ok_table [OF I]) simp_all
    moreover have "(cst.truncate s)\<lparr>c_handles := u\<rparr> = cst.truncate t" by (simp add: t cst.defs)
    ultimately show ?thesis using s by (simp add: inst_frame_def t)
  qed (use s in \<open>simp add: inst_frame_def t\<close>)
qed

lemma frame_tables [preserving]:
  "preserves (inst_frame b h) (handles (table_get i))" "preserves (inst_frame b h) (handles (table_remove i))"
  "preserves (inst_frame b h) (handles (table_add (ResourceE k)))"
proof -
  show "preserves (inst_frame b h) (handles (table_get i))"
    by (rule frame_handles) (metis ht.lookup_same snd_conv)
  show "preserves (inst_frame b h) (handles (table_remove i))"
  proof (rule frame_handles)
    fix t u :: "hentry table" and r assume t: "table_inv t" and run: "table_remove i t = (r, u)"
    have "table_inv u" using ht.delete_inv [OF t, of i] run by simp
    then show "table_inv u \<and> (\<forall>j y. table_entries u j = Some y \<longrightarrow> table_entries t j = Some y \<or> (\<exists>k. y = ResourceE k))"
      using ht.delete_ok [OF t, of i _ u] ht.delete_err [OF t, of i _ u] run by (cases r) (auto split: if_splits)
  qed
  show "preserves (inst_frame b h) (handles (table_add (ResourceE k)))"
  proof (rule frame_handles)
    fix t u :: "hentry table" and r assume t: "table_inv t" and run: "table_add (ResourceE k) t = (r, u)"
    have "table_inv u" using ht.insert_inv [OF t, of "ResourceE k"] run by simp
    then show "table_inv u \<and> (\<forall>j y. table_entries u j = Some y \<longrightarrow> table_entries t j = Some y \<or> (\<exists>k. y = ResourceE k))"
      using ht.insert_ok [OF t, of "ResourceE k" _ u] ht.insert_full [OF t, of "ResourceE k" _ u] run by (cases r) (auto split: if_splits)
  qed
qed

lemma frame_updates [preserving]:
  "preserves (inst_frame b h) (new_handle x)" "preserves (inst_frame b h) (add_lends k d)"
  "preserves (inst_frame b h) (modify (\<lambda>s. s\<lparr>c_borrows := n s\<rparr>))"
  "preserves (inst_frame b h) (update_subtask j (\<lambda>sb. sb\<lparr>sb_lenders := l sb\<rparr>))"
  by (auto simp del: run_rules simp: new_handle_def add_lends_def update_subtask_def map_update_same intro!: preserving frame_modify)

text \<open>A calm context: its allocator and its hooks keep the frame.\<close>

definition calm :: "(acst, 'a) m \<Rightarrow> bool" where
  "calm a \<longleftrightarrow> (\<forall>b h. preserves (inst_frame b h) a)"

definition cx_calm :: "acst cx \<Rightarrow> bool" where
  "cx_calm cx \<longleftrightarrow> calm (cx_checkpoint cx) \<and> (\<forall>i e. calm (cx_inserted cx i e)) \<and> (\<forall>e x. calm (cx_removal_failed cx e x)) \<and>
     (\<forall>f p l a n. cx_realloc cx = Some f \<longrightarrow> calm (f p l a n)) \<and>
     (\<forall>i. calm (cx_liftErrorContext cx i)) \<and> (\<forall>i e. calm (cx_liftStream cx i e)) \<and>
     (\<forall>i e. calm (cx_liftFuture cx i e)) \<and> (\<forall>v. calm (cx_lowerErrorContext cx v)) \<and>
     (\<forall>v e. calm (cx_lowerStream cx v e)) \<and> (\<forall>v e. calm (cx_lowerFuture cx v e))"

lemma calmD: "calm a \<Longrightarrow> preserves (inst_frame b h) a"
  by (simp add: calm_def)

lemma frame_owns:
  assumes "cx_calm cx"
  shows "preserves (inst_frame b h) (liftOwn cx i rt)" "preserves (inst_frame b h) (liftBorrow cx i rt)"
    "preserves (inst_frame b h) (lowerOwn cx rep rt)" "preserves (inst_frame b h) (lowerBorrow cx rep rt)"
  using assms
  by (auto simp del: run_rules simp: cx_calm_def calm_def liftOwn_def liftBorrow_def lowerOwn_def lowerBorrow_def
      requireInst_def removeHandleWithUnwind_def as_resource_def rhandle_at_def addLender_def
      subtask_at_def resolveDelivered_def
      intro!: preserving split: option.split borrow_scope.split)

interpretation calm_abi: abi_invariant "\<lambda>s. cx_calm cx \<longrightarrow> inst_frame b h s" "\<lambda>s. cx_calm cx \<longrightarrow> inst_frame b h s" cx
  for cx :: "acst cx" and b h
proof (unfold_locales, unfold guards_same)
  fix s :: acst and m b'
  show "cx_calm cx \<longrightarrow> inst_frame b h (s\<lparr>c_mem := m\<rparr>)" if "cx_calm cx \<longrightarrow> inst_frame b h s"
    using that inst_frame_same [of b h s "s\<lparr>c_mem := m\<rparr>"] by simp
  show "cx_calm cx \<longrightarrow> inst_frame b h (s\<lparr>c_may_leave := b'\<rparr>)" if "cx_calm cx \<longrightarrow> inst_frame b h s"
    using that inst_frame_same [of b h s "s\<lparr>c_may_leave := b'\<rparr>"] by simp
qed (auto simp: cx_calm_def calm_def intro!: preserves_under frame_owns [unfolded cx_calm_def calm_def])

text \<open>Such an operation, run at an instance of the world.\<close>

lemma inst_ok_heap: "inst_ok (heap.truncate w) c = inst_ok w c"
  by (simp add: inst_ok_def entry_ok_def subtask_ok_def heap.defs)

lemma view_sel: "a_heap (inst_view k w) = heap.truncate w" "cst.truncate (inst_view k w) = w_insts w ! k"
  by (simp_all add: inst_view_def cst.defs acst.defs)

lemma put_view: "a_heap c = heap.truncate w \<Longrightarrow> inst_put k c w = w\<lparr>w_insts := (w_insts w)[k := cst.truncate c]\<rparr>"
  by (cases w) (simp add: inst_put_def heap.defs)

lemma at_inst_frame:
  fixes w :: "'y world_scheme"
  assumes a: "\<And>b h. preserves (inst_frame b h) a" and run: "at_inst k a w = (r, t)"
  shows "cframe w t" "h_bufs t = h_bufs w"
proof -
  let ?s = "inst_view k w"
  obtain q u where u: "a ?s = (q, u)" by fastforce
  have t: "t = inst_put k u w" using run u by (simp add: at_inst_def zoom_def)
  have frame: "inst_frame b (heap.truncate w) u" if "b \<longrightarrow> inst_ok w (w_insts w ! k)" for b
    using preservesD [OF a _ u, of b "heap.truncate w"] that by (simp add: inst_frame_def view_sel inst_ok_heap)
  have "a_heap u = heap.truncate w" using frame [of False] by (simp add: inst_frame_def)
  from put_view [OF this] have t: "t = w\<lparr>w_insts := (w_insts w)[k := cst.truncate u]\<rparr>" using t by simp
  have "inst_ok w (cst.truncate u)" if "inst_ok w (w_insts w ! k)"
    using frame [of True] that by (simp add: inst_frame_def inst_ok_heap)
  then show "cframe w t" unfolding t by (rule cframe_inst)
  show "h_bufs t = h_bufs w" by (simp add: t)
qed

lemma wp_at_inst_frame:
  fixes w :: "'y world_scheme"
  assumes "\<And>b h. preserves (inst_frame b h) a" "\<And>x t. cframe w t \<Longrightarrow> h_bufs t = h_bufs w \<Longrightarrow> Q x t" "\<And>t. cframe w t \<Longrightarrow> E t"
  shows "wp (at_inst k a) Q E w"
  using at_inst_frame [OF assms(1)] assms(2,3) by (intro wpI) blast+

text \<open>An environment with calm contexts, whose host code leaves the protocol state alone.\<close>

definition calm_env :: "'y env \<Rightarrow> bool" where
  "calm_env env \<longleftrightarrow> (\<forall>opts k. cx_calm (env_cx env opts k)) \<and>
     (\<forall>h r. keeps cframe (env_host_done env h r)) \<and> (\<forall>h r. keeps cframe (env_host_copy env h r)) \<and>
     (\<forall>f. keeps cframe (env_observe env f)) \<and> (\<forall>i p n. keeps cframe (env_direct env i p n))"

lemma calm_ops:
  assumes "cx_calm cx"
  shows "preserves (inst_frame b h) (loadListFromValidRange (load cx) cx p n u)"
    "preserves (inst_frame b h) (storeListIntoValidRange (store cx) cx v p u)"
    "preserves (inst_frame b h) (store cx v t p)" "preserves (inst_frame b h) (loadStringFromRange cx p n)"
    "preserves (inst_frame b h) (storeString cx v p)"
  using assms calm_abi.P_buffers [of cx b h] calm_abi.P_store [of cx b h] calm_abi.P_loadString [of cx b h] calm_abi.P_storeString [of cx b h]
  by (simp_all add: guards_same)

lemma calm_env_ok:
  fixes env :: "'y env"
  assumes "calm_env env" shows "env_ok env" "memory_ok env"
proof -
  have cx: "cx_calm (env_cx env opts k)" for opts k using assms by (simp add: calm_env_def)
  note A = calm_ops [OF cx]
  have "wp (at_inst k a) (\<lambda>_ t. cframe w t \<and> h_bufs t = h_bufs w) sinv w"
    if "\<And>b h. preserves (inst_frame b h) a" "sinv w" for k and a :: "(acst, 'a) m" and w :: "'y world_scheme"
    by (rule wp_at_inst_frame [OF that(1)]) (simp_all add: sinv_cframe [OF _ that(2)])
  then have "load_moves env" "store_moves env"
    unfolding load_moves_def store_moves_def using A(1,2) by blast+
  moreover have "cframe w (snd (env_host_copy env h (ResetPending s) w))" for w h s
    using assms by (simp add: calm_env_def keeps_def)
  ultimately show "env_ok env" using assms by (simp add: env_ok_def calm_env_def)
  show "memory_ok env"
    unfolding memory_ok_def steady_def by (intro conjI allI impI wp_at_inst_frame A)
qed

text \<open>The environment of a host that watches only.\<close>

definition quiet_env :: "'y env" where
  "quiet_env = \<lparr>env_cx = (\<lambda>_ _. plain_cx None), env_async = (\<lambda>opts. opts = 0), env_host_copy = (\<lambda>_ _. ret ()),
     env_host_done = (\<lambda>_ _. ret ()), env_observe = (\<lambda>_. ret ()), env_direct = (\<lambda>_ _ _. ret ([], Finished))\<rparr>"

lemma quiet_env_calm: "calm_env quiet_env"
  by (simp add: calm_env_def quiet_env_def cx_calm_def calm_def plain_cx_def keeps_ret [OF cframe_order(1)] del: ret_run)

end
