(* ===== verification/Async_Reach.thy ===== *)
theory Async_Reach
  imports Async_Env
begin

text \<open>
  The asynchronous life of a component's instances: one step is one built-in that a guest
  calls, one frame that the scheduler resumes, one operation of the host on a stream, or the
  guest's own computation. Whatever the order of the steps and whichever of them trap, the
  world stays consistent; as long as none traps, no waiting end is forgotten.
\<close>

section \<open>Steps\<close>

definition void :: "('s, 'a) m \<Rightarrow> ('s, unit) m" where
  "void a = bnd a (\<lambda>_. ret ())"

text \<open>\<open>new Subtask()\<close> of a lowered import call: a subtask is a waitable.\<close>

definition newSubtask :: "nat \<Rightarrow> ('y, nat) sm" where
  "newSubtask k =
     bnd new_waitable (\<lambda>q.
     bnd (gets (\<lambda>w. length (c_subtasks (w_insts w ! k)))) (\<lambda>j.
     seqm (at_cst k (modify (\<lambda>c. c\<lparr>c_subtasks := c_subtasks c @ [init_subtask\<lparr>sb_wait := q\<rparr>]\<rparr>)))
     (ret j)))"

text \<open>\<open>can_run env w a\<close>: \<open>a\<close> is an operation that can run next in \<open>w\<close>, called by a guest, resumed
  by the scheduler, or made by the host; what it returns is of no matter here.\<close>

inductive can_run :: "'y env \<Rightarrow> 'y world_scheme \<Rightarrow> ('y, unit) sm \<Rightarrow> bool" for env w where
  "k < length (w_insts w) \<Longrightarrow> can_run env w (void (streamNew k e))"
| "k < length (w_insts w) \<Longrightarrow> can_run env w (void (futureNew k e))"
| "k < length (w_insts w) \<Longrightarrow> can_run env w (void (streamCopy env side e opts mode k i p n))"
| "k < length (w_insts w) \<Longrightarrow> can_run env w (void (futureCopy env side e opts mode k i p))"
| "d < length (h_ends w) \<Longrightarrow> can_run env w (void (finishCopy_resume d c i what))"
| "d < length (h_ends w) \<Longrightarrow> can_run env w (set_sync d False)"
| "k < length (w_insts w) \<Longrightarrow> can_run env w (void (cancelCopy env kind side e async mode what k i))"
| "d < length (h_ends w) \<Longrightarrow> can_run env w (void (takeCancelEvent d c i what))"
| "k < length (w_insts w) \<Longrightarrow> can_run env w (dropEnd env kind side e what k i)"
| "k < length (w_insts w) \<Longrightarrow> j < length (w_insts w) \<Longrightarrow> can_run env w (void (transferAsyncEnd env kind k j e e' i))"
| "k < length (w_insts w) \<Longrightarrow> can_run env w (retireInstanceAsyncEnds env k)"
| "k < length (w_insts w) \<Longrightarrow> can_run env w (void (waitableSetNew k))"
| "k < length (w_insts w) \<Longrightarrow> can_run env w (void (waitableSetPoll env opts k i p))"
| "k < length (w_insts w) \<Longrightarrow> can_run env w (void (waitableSetWait env opts mode k i p))"
| "q < length (w_sets w) \<Longrightarrow> 0 < ws_waiting (w_sets w ! q) \<Longrightarrow> waitForEvent_ready q w \<Longrightarrow>
    can_run env w (void (waitableSetWait_resume env opts k q p))"
| "q < length (w_sets w) \<Longrightarrow> 0 < ws_waiting (w_sets w ! q) \<Longrightarrow> can_run env w (modify (wait_leave q))"
| "k < length (w_insts w) \<Longrightarrow> can_run env w (waitableSetDrop env k i)"
| "k < length (w_insts w) \<Longrightarrow> can_run env w (waitableJoin k i q)"
| "k < length (w_insts w) \<Longrightarrow> can_run env w (void (newSubtask k))"
| "k < length (w_insts w) \<Longrightarrow> j < length (c_subtasks (w_insts w ! k)) \<Longrightarrow> can_run env w (void (handle_add k (SubtaskE j)))"
| "k < length (w_insts w) \<Longrightarrow> can_run env w (subtaskDrop env k i)"
| "k < length (w_insts w) \<Longrightarrow> j < length (c_subtasks (w_insts w ! k)) \<Longrightarrow> can_run env w (setSubtaskPendingEvent k j i)"
| "k < length (w_insts w) \<Longrightarrow> can_run env w (void (errorContextNew env opts k p n))"
| "k < length (w_insts w) \<Longrightarrow> can_run env w (errorContextDebugMessage env opts k i p)"
| "k < length (w_insts w) \<Longrightarrow> can_run env w (errorContextDrop env k i)"
| "k < length (w_insts w) \<Longrightarrow> j < length (w_insts w) \<Longrightarrow> can_run env w (void (errorContextTransfer k j i))"
| "s < length (h_shared w) \<Longrightarrow> can_run env w (stream_read env s (InHost x) b (HostCb y))"
| "s < length (h_shared w) \<Longrightarrow> can_run env w (stream_write env s (InHost x) b (HostCb y))"
| "s < length (h_shared w) \<Longrightarrow> can_run env w (future_read env s (InHost x) b (HostCb y))"
| "s < length (h_shared w) \<Longrightarrow> can_run env w (future_write env s (InHost x) b (HostCb y))"
| "s < length (h_shared w) \<Longrightarrow> can_run env w (shared_cancel env s)"
| "s < length (h_shared w) \<Longrightarrow> can_run env w (shared_drop env s side)"
| "can_run env w (void (newShared kind e))"
| "can_run env w (void (new_buf (HostBuf b)))"
| "can_run env w (modify (\<lambda>w. w\<lparr>w_insts := (w_insts w)[k := (w_insts w ! k)\<lparr>c_mem := m\<rparr>]\<rparr>))"

text \<open>\<open>async_step env (w, g) (t, h)\<close>: the flag says that nothing has trapped so far.\<close>

inductive async_step :: "'y env \<Rightarrow> 'y world_scheme \<times> bool \<Rightarrow> 'y world_scheme \<times> bool \<Rightarrow> bool" for env where
  "can_run env w a \<Longrightarrow> a w = (r, t) \<Longrightarrow> async_step env (w, ok) (t, ok \<and> \<not> isl r)"

inductive_cases async_stepE: "async_step env (w, ok) c"

section \<open>Every step keeps the invariant\<close>

lemma arriving_host: "arriving s b (HostCb y) w"
  by (simp add: arriving_def)

lemma wp_copied_host:
  assumes "wp a (\<lambda>_. copied (HostCb y) w) sinv w" shows "wp a (\<lambda>_. good w) sinv w"
  using assms by (rule wp_mono) (auto simp: copied_def good_def ends_in_def live_but_none [symmetric])

lemma host_good:
  fixes w :: "'y world_scheme"
  assumes env: "env_ok env" and w: "sinv w" and s: "s < length (h_shared w)"
  shows "wp (stream_read env s i b (HostCb y)) (\<lambda>_. good w) sinv w" "wp (stream_write env s i b (HostCb y)) (\<lambda>_. good w) sinv w"
    "wp (future_read env s i b (HostCb y)) (\<lambda>_. good w) sinv w" "wp (future_write env s i b (HostCb y)) (\<lambda>_. good w) sinv w"
    "wp (shared_cancel env s) (\<lambda>_. good w) sinv w" "wp (shared_drop env s side) (\<lambda>_. good w) sinv w"
proof -
  note C = wp_stream_copy [OF env w s arriving_host] wp_future_copy [OF env w s arriving_host]
  show "wp (stream_read env s i b (HostCb y)) (\<lambda>_. good w) sinv w" "wp (stream_write env s i b (HostCb y)) (\<lambda>_. good w) sinv w"
    "wp (future_read env s i b (HostCb y)) (\<lambda>_. good w) sinv w" "wp (future_write env s i b (HostCb y)) (\<lambda>_. good w) sinv w"
    by (rule wp_copied_host, rule C)+
  show "wp (shared_cancel env s) (\<lambda>_. good w) sinv w"
    unfolding shared_cancel_def
    by (rule wp_mono [OF wp_reset [OF env w s]]) (auto simp: reset_post_def good_def live_but_none [symmetric])
  show "wp (shared_drop env s side) (\<lambda>_. good w) sinv w"
    by (rule wp_mono [OF wp_shared_drop [OF env w s]]) (auto simp: drop_post_def good_def live_but_none [symmetric])
qed

lemma wp_void: "wp a (\<lambda>_. Q) E w \<Longrightarrow> wp (void a) (\<lambda>_. Q) E w"
  unfolding void_def wp_bnd by (rule wp_then_ret)

lemma wp_set_sync_off:
  assumes "sinv w" shows "wp (set_sync d False) (\<lambda>_. good w) sinv w"
  by (rule wp_mono [OF wp_set_sync [OF assms]]) (simp, auto simp: served_def intro: served_good)

lemma wp_host_changes:
  fixes w :: "'y world_scheme"
  assumes w: "sinv w"
  shows "wp (newShared kind e) (\<lambda>_. good w) sinv w" "wp (new_buf (HostBuf b)) (\<lambda>_. good w) sinv w"
    "wp (modify (\<lambda>w. w\<lparr>w_insts := (w_insts w)[k := (w_insts w ! k)\<lparr>c_mem := m\<rparr>]\<rparr>)) (\<lambda>_. good w) sinv w"
proof -
  show "wp (newShared kind e) (\<lambda>_. good w) sinv w"
    using good_add_shared [OF w] by (simp add: wp_def newShared_run)
  have "cframe w (w\<lparr>h_bufs := h_bufs w @ [HostBuf b]\<rparr>)"
    by (auto simp: cframe_def is_guest_def bufs_ok_def tables_ok_def inst_ok_def entry_ok_def subtask_ok_def nth_append)
  then show "wp (new_buf (HostBuf b)) (\<lambda>_. good w) sinv w"
    using good_cframe [OF w] by (simp add: new_buf_def wps)
  have "cframe w (w\<lparr>w_insts := (w_insts w)[k := (w_insts w ! k)\<lparr>c_mem := m\<rparr>]\<rparr>)"
    by (rule cframe_inst) (simp add: inst_ok_def entry_ok_def)
  then show "wp (modify (\<lambda>w. w\<lparr>w_insts := (w_insts w)[k := (w_insts w ! k)\<lparr>c_mem := m\<rparr>]\<rparr>)) (\<lambda>_. good w) sinv w"
    using good_cframe [OF w] by (simp add: wps)
qed

lemma newSubtask_good:
  fixes w :: "'y world_scheme"
  assumes w: "sinv w" shows "wp (newSubtask k) (\<lambda>_. good w) sinv w"
proof -
  let ?q = "length (w_waitables w)"
  let ?u = "w\<lparr>w_waitables := w_waitables w @ [init_waitable]\<rparr>"
  let ?c = "(w_insts w ! k)\<lparr>c_subtasks := c_subtasks (w_insts w ! k) @ [init_subtask\<lparr>sb_wait := ?q\<rparr>]\<rparr>"
  note E = sinvD(1) [OF w]
  have p: "pend ?u e = pend w e" if "e < length (h_ends w)" for e
    using ends_okD(2) [OF E that] by (simp add: pend_def nth_append)
  have g: "is_guest ?u b = is_guest w b" for b by (simp add: is_guest_def)
  have "ends_ok ?u"
    using E ends_okD(2) [OF E] unfolding ends_ok_def by (simp add: less_SucI)
  moreover have "local_ok ?u s" if "s < length (h_shared w)" for s
    using sinvD(4) [OF w that] p by (simp add: local_ok_def slot_ok_def g)
  moreover have "stray_ok ?u"
    using sinvD(6) [OF w] by (auto simp: stray_ok_def nth_append less_Suc_eq init_waitable_def)
  moreover have "waits_ok ?u"
  proof -
    obtain ws where ws: "winv w ws" using sinvD(5) [OF w] by (auto simp: waits_ok_def)
    have "winv ?u ws = winv (snd (new_waitable w)) ws" by (rule winv_same) (simp_all add: new_waitable_def monad_simps)
    then show ?thesis using winv_new_waitable [OF ws] by (auto simp: waits_ok_def)
  qed
  moreover have "tables_ok ?u"
  proof -
    have "subtask_ok ?u sb" if "subtask_ok w sb" for sb using that by (simp add: subtask_ok_def)
    then show ?thesis using sinvD(3) [OF w] by (simp add: tables_ok_def inst_ok_def entry_ok_def)
  qed
  moreover have "bufs_ok ?u" using sinvD(2) [OF w] by (simp add: bufs_ok_def)
  ultimately have u: "sinv ?u" by (simp add: sinv_def)
  have "good w ?u" using u p by (auto simp: good_def live_def)
  have "inst_ok ?u ?c" if "inst_ok ?u (w_insts w ! k)"
  proof -
    have "subtask_ok ?u (init_subtask\<lparr>sb_wait := ?q\<rparr>)"
      using ends_okD(2) [OF E] by (fastforce simp: subtask_ok_def)
    moreover have "entry_ok ?u ?c x" if "entry_ok ?u (w_insts w ! k) x" for x
      using that by (auto simp: entry_ok_def)
    ultimately show ?thesis using that by (auto simp: inst_ok_def)
  qed
  then have "cframe ?u (?u\<lparr>w_insts := (w_insts ?u)[k := ?c]\<rparr>)" by (intro cframe_inst) simp
  from good_trans [OF \<open>good w ?u\<close> good_cframe [OF u this]] show ?thesis
    by (simp add: newSubtask_def wps wp_at_cst wp_def [of new_waitable] waitable_runs)
qed

lemma addSubtask_good:
  fixes w :: "'y world_scheme"
  assumes w: "sinv w" and k: "k < length (w_insts w)" "j < length (c_subtasks (w_insts w ! k))"
  shows "wp (handle_add k (SubtaskE j)) (\<lambda>_. good w) sinv w"
proof -
  have "entry_ok w (w_insts w ! k) (SubtaskE j)" using k by (simp add: entry_ok_def)
  from wp_handle_add [OF w k(1) this] show ?thesis
    by (rule wp_mono) (auto intro: good_cframe [OF w] sinv_cframe [OF _ w])
qed

lemma can_run_good:
  fixes w :: "'y world_scheme"
  assumes "env_ok env" "memory_ok env" "can_run env w a" "sinv w"
  shows "wp a (\<lambda>_. good w) sinv w"
proof -
  have leave: "wp (modify (wait_leave q)) (\<lambda>_. good w) sinv w" if "q < length (w_sets w)" "0 < ws_waiting (w_sets w ! q)" for q
    using wait_leave_good [OF assms(4) that] by (simp add: wps)
  have cancel: "wp (takeCancelEvent d c i what) (\<lambda>_. good w) sinv w" if "d < length (h_ends w)" for d c i what
    by (rule wp_take_cancel [OF assms(4) that])
  note ops = endsNew_good [where kind = StreamKind, folded streamNew_def]
  show ?thesis
    using assms(3)
    by cases (auto simp: streamNew_def futureNew_def assms
        intro!: wp_void endsNew_good streamCopy_good futureCopy_good finishCopy_resume_good wp_set_sync_off cancelCopy_good
          cancel leave dropEnd_good transferAsyncEnd_good retireInstanceAsyncEnds_good waitableSetNew_good waitableSetPoll_good
          waitableSetWait_good waitableSetWait_resume_good waitableSetDrop_good waitableJoin_good subtaskDrop_good
          setSubtaskPendingEvent_good errorContextNew_good errorContextDebugMessage_good errorContextDrop_good
          errorContextTransfer_good host_good wp_host_changes newSubtask_good addSubtask_good)
qed

lemma async_step_kept:
  fixes w :: "'y world_scheme"
  assumes env: "env_ok env" "memory_ok env" and step: "async_step env (w, ok) (t, ok')" and w: "sinv w" "ok \<longrightarrow> live w"
  shows "sinv t \<and> (ok' \<longrightarrow> live t)"
proof -
  obtain a r where a: "can_run env w a" "a w = (r, t)" "ok' = (ok \<and> \<not> isl r)"
    by (rule async_stepE [OF step]) auto
  have "wp a (\<lambda>_. good w) sinv w" by (rule can_run_good [OF env a(1) w(1)])
  then show ?thesis using a(2,3) w(2) by (cases r) (auto simp: wp_def good_def)
qed

lemma async_reachable:
  fixes w :: "'y world_scheme"
  assumes env: "env_ok env" "memory_ok env" and run: "(async_step env)\<^sup>*\<^sup>* (w, ok) (t, ok')" and w: "sinv w" "ok \<longrightarrow> live w"
  shows "sinv t \<and> (ok' \<longrightarrow> live t)"
  using run
proof (induction "(t, ok')" arbitrary: t ok' rule: rtranclp_induct)
  case (step c)
  then show ?case using async_step_kept [OF env] by (cases c) blast
qed (use w in simp)

section \<open>The start\<close>

text \<open>A store before any stream, with the instances of a component.\<close>

definition start_world :: "cst list \<Rightarrow> world" where
  "start_world insts = \<lparr>w_waitables = [], w_sets = [], w_seed = None, w_rng = 0, h_ends = [], h_shared = [], h_bufs = [],
     h_messages = [], h_poisoned = [], h_retired = [], h_failures = Map.empty, w_insts = insts\<rparr>"

definition fresh_inst :: "cst \<Rightarrow> bool" where
  "fresh_inst c \<longleftrightarrow> c_handles c = empty_table \<and> c_subtasks c = []"

lemma start_good:
  assumes "list_all fresh_inst insts" shows "sinv (start_world insts)" "live (start_world insts)"
proof -
  have "inst_ok (start_world insts) c" if "c \<in> set insts" for c
    using assms that by (auto simp: list_all_iff fresh_inst_def inst_ok_def ht.empty)
  moreover have "waits_ok (start_world insts)"
    using winv_init [of "start_world insts"] by (auto simp: waits_ok_def start_world_def)
  ultimately show "sinv (start_world insts)"
    by (simp add: sinv_def ends_ok_def bufs_ok_def tables_ok_def stray_ok_def) (simp add: start_world_def)
  show "live (start_world insts)" by (simp add: live_def start_world_def)
qed

definition reaches :: "unit env \<Rightarrow> cst list \<Rightarrow> world \<Rightarrow> bool \<Rightarrow> bool" where
  "reaches env insts t ok \<longleftrightarrow> (async_step env)\<^sup>*\<^sup>* (start_world insts, True) (t, ok)"

lemma reaches_good:
  assumes "calm_env env" "list_all fresh_inst insts" "reaches env insts t ok"
  shows "sinv t" "ok \<Longrightarrow> live t"
  using async_reachable [OF calm_env_ok [OF assms(1)] assms(3) [unfolded reaches_def]] start_good [OF assms(2)] by auto

lemma reaches_step:
  assumes "reaches env insts w True" "can_run env w a" "a w = (Inr x, t)"
  shows "reaches env insts t True"
proof -
  have "async_step env (w, True) (t, True \<and> \<not> isl (Inr x :: err + unit))"
    by (rule async_step.intros [OF assms(2,3)])
  then show ?thesis using assms(1) unfolding reaches_def by (simp add: rtranclp.rtrancl_into_rtrancl)
qed

lemma void_run: "void a w = (case a w of (Inl e, t) \<Rightarrow> (Inl e, t) | (Inr x, t) \<Rightarrow> (Inr (), t))"
  by (simp add: void_def bnd_run split: prod.split sum.split)

text \<open>A guest opens a stream of bytes and reads from it before anything is written.\<close>

definition sample_inst :: cst where
  "sample_inst = init_state (replicate 32 0)"

definition sample_opened :: world where
  "sample_opened = (start_world [sample_inst\<lparr>c_handles := \<lparr>t_array = [None, Some (ReadableStreamE 0), Some (WritableStreamE 1)],
       t_free = [], t_tenure = [0, 1, 1]\<rparr>\<rparr>])
     \<lparr>w_waitables := [init_waitable, init_waitable],
      h_ends := [\<lparr>ce_wait = 0, ce_kind = StreamKind, ce_side = Readable, ce_shared = 0, ce_elem = Some (Prim PU8),
                   ce_state = IDLE, ce_index = Some 1\<rparr>,
                 \<lparr>ce_wait = 1, ce_kind = StreamKind, ce_side = Writable, ce_shared = 0, ce_elem = Some (Prim PU8),
                   ce_state = IDLE, ce_index = Some 2\<rparr>],
      h_shared := [(empty_shared StreamKind (Some (Prim PU8)))\<lparr>sh_readable := Some 0, sh_writable := Some 1\<rparr>]\<rparr>"

lemma sample_opens: "streamNew 0 (Some (Prim PU8)) (start_world [sample_inst]) = (Inr 0x200000001, sample_opened)"
  by (simp add: streamNew_def endsNew_def leave_guard_def mayLeave_def newShared_run newEnd_run handle_add_def inst_handles_run
      table_add_def monad_simps heap_runs start_world_def sample_inst_def init_state_def empty_table_def add_end_def
      add_shared_def new_end_def set_side_def empty_shared_def end_entry_def packEnds_def init_waitable_def put_end_def
      sample_opened_def MAX_LENGTH_def)

definition sample_parked :: world where
  "sample_parked = sample_opened
     \<lparr>h_ends := (h_ends sample_opened)[0 := (h_ends sample_opened ! 0)\<lparr>ce_state := COPYING\<rparr>],
      h_bufs := [GuestBuf \<lparr>gb_t = Some (Prim PU8), gb_opts = 0, gb_inst = 0, gb_ptr = 8, gb_length = 4, gb_progress = 0\<rparr>],
      h_shared := [(h_shared sample_opened ! 0)\<lparr>sh_inst := Some (InGuest 0), sh_buffer := Some 0, 
        sh_onCopy := Some (StreamCb 0 0 STREAM_READ), sh_onDone := Some (StreamCb 0 0 STREAM_READ)\<rparr>]\<rparr>"

lemma sample_parks: "streamCopy quiet_env Readable (Some (Prim PU8)) 0 Plain 0 1 8 4 sample_opened = (Inr (Returned BLOCKED), sample_parked)"
  by (simp add: streamCopy_def copy_guards_def leave_guard_def mayLeave_def handle_get_def inst_handles_run table_get_run
      monad_simps heap_runs start_world_def sample_inst_def init_state_def sample_opened_def sample_parked_def
      empty_shared_def as_end_def end_entry_def inWaitableSet_def init_waitable_def newGuestBuffer_def 
      new_buf_def quiet_env_def mem_length_def plain_cx_def BUFFER_MAX_LENGTH_def end_copy_def stream_read_def put_end_def Let_def is_char_def finishCopy_def
      hasPendingEvent_def alignTo_def setPending_def put_shared_def valTypeEqual_refl alignment_def elemSize_def layoutOf.simps
      mkLayout_def)

text \<open>It makes a waitable set and joins the reader to it.\<close>

definition sample_set :: world where
  "sample_set = sample_parked
     \<lparr>w_sets := [init_wset],
      w_insts := [sample_inst\<lparr>c_handles := \<lparr>t_array = [None, Some (ReadableStreamE 0), Some (WritableStreamE 1), Some (WaitableSetE 0)],
        t_free = [], t_tenure = [0, 1, 1, 1]\<rparr>\<rparr>]\<rparr>"

definition sample_joined :: world where
  "sample_joined = sample_set
     \<lparr>w_sets := [\<lparr>ws_elems = [0], ws_waiting = 0\<rparr>], w_waitables := [init_waitable\<lparr>wt_wset := Some 0\<rparr>, init_waitable]\<rparr>"

lemma sample_sets: "waitableSetNew 0 sample_parked = (Inr 3, sample_set)"
  by (simp add: waitableSetNew_def leave_guard_def mayLeave_def waitable_runs monad_simps heap_runs handle_add_def inst_handles_run table_add_def
      sample_parked_def sample_opened_def start_world_def sample_inst_def init_state_def sample_set_def MAX_LENGTH_def Let_def)

lemma sample_joins: "waitableJoin 0 1 3 sample_set = (Inr (), sample_joined)"
  by (simp add: waitableJoin_def leave_guard_def mayLeave_def waitable_runs monad_simps heap_runs handle_get_def inst_handles_run table_get_run
      waitable_of_def hasSyncWaiter_def requireWaitableSet_def waitable_join_def sample_joined_def
      sample_parked_def sample_opened_def start_world_def sample_inst_def init_state_def sample_set_def init_waitable_def init_wset_def)

lemma sample_reaches:
  "reaches quiet_env [sample_inst] sample_opened True" "reaches quiet_env [sample_inst] sample_parked True"
  "reaches quiet_env [sample_inst] sample_set True" "reaches quiet_env [sample_inst] sample_joined True"
proof -
  have start: "reaches quiet_env [sample_inst] (start_world [sample_inst]) True" by (simp add: reaches_def)
  show opened: "reaches quiet_env [sample_inst] sample_opened True"
  proof (rule reaches_step [OF start])
    show "can_run quiet_env (start_world [sample_inst]) (void (streamNew 0 (Some (Prim PU8))))"
      by (rule can_run.intros) (simp add: start_world_def)
  qed (unfold void_run sample_opens, simp)
  show parked: "reaches quiet_env [sample_inst] sample_parked True"
  proof (rule reaches_step [OF opened])
    show "can_run quiet_env sample_opened (void (streamCopy quiet_env Readable (Some (Prim PU8)) 0 Plain 0 1 8 4))"
      by (rule can_run.intros) (simp add: sample_opened_def start_world_def)
  qed (unfold void_run sample_parks, simp)
  show set: "reaches quiet_env [sample_inst] sample_set True"
  proof (rule reaches_step [OF parked])
    show "can_run quiet_env sample_parked (void (waitableSetNew 0))"
      by (rule can_run.intros) (simp add: sample_parked_def sample_opened_def start_world_def)
  qed (unfold void_run sample_sets, simp)
  show "reaches quiet_env [sample_inst] sample_joined True"
    by (rule reaches_step [OF set can_run.intros(18) sample_joins]) (simp add: sample_set_def)
qed

lemma sample_fresh: "list_all fresh_inst [sample_inst]"
  by (simp add: fresh_inst_def sample_inst_def init_state_def)

section \<open>What holds in every reachable world\<close>











end
