(* ===== verification/Tasks.thy ===== *)
theory Tasks
  imports Async_Values Async_Builtins
begin

text \<open>
  Tasks, threads and the scheduler (\<open>runtime/src/task/mod.ts\<close>, \<open>thread.ts\<close>,
  \<open>scheduler.ts\<close>) and the bodies of lifted exports (\<open>liftBody\<close>, \<open>runCallbackLoop\<close> of
  \<open>runtime/src/exec/boundary.ts\<close>). A thread body is a generator: the code between two of its
  \<open>yield\<close>s is one operation here, and the field \<open>th_pc\<close> names the place where the
  generator stands. A call of a core function is such a place too: the guest's own code runs
  between two operations, so whatever it does is a step of the world.
\<close>

section \<open>State\<close>

datatype task_state = T_initial | T_started | T_pending_cancel | T_cancel_delivered | T_resolved

datatype thread_state = Th_running | Th_suspended | Th_waiting | Th_done

text \<open>The readiness predicates that the runtime parks threads with. \<open>Unblocked j\<close> is that of the
  entry gate of task \<open>j\<close>, \<open>SlotFree k\<close> that of a yield in instance \<open>k\<close>, \<open>CallbackEvent k q j\<close>
  that of task \<open>j\<close> waiting on set \<open>q\<close>.\<close>

datatype ready_func = Always | Unblocked nat | SlotFree nat | CallbackEvent nat nat nat

text \<open>Where a body stands: before its first step, parked at the entry gate, in a core function, in
  the callback, in the post-return function, parked by a \<open>YIELD\<close> or a \<open>WAIT\<close>, or at its end.\<close>

datatype pc =
    NotStarted | Entering | InCore "cval list" | InCallback event_tuple | InPostReturn
  | WaitYield | WaitEvent nat | Finished | Failed

record task =
  tk_inst :: nat
  tk_ft_async :: bool
  tk_params :: "valtype list"
  tk_results :: "valtype list"
  tk_async :: bool
  tk_callback :: bool
  tk_post_return :: bool
  tk_core_results :: "core_type list"
  tk_opts :: nat
  tk_encoding :: string_encoding
  tk_memory :: "nat option"
  tk_fact :: bool
  tk_fact_results :: bool
  tk_state :: task_state
  tk_implicit :: "nat option"
  tk_threads :: "nat list"

record thread =
  th_task :: nat
  th_explicit :: bool
  th_state :: thread_state
  th_ready :: "ready_func option"
  th_index :: "nat option"
  th_storage :: "32 word list"
  th_awaiting :: bool
  th_pc :: pc
  th_closure :: "cval list"

text \<open>The part of \<open>ComponentInstanceState\<close> that tasks use; \<open>mayLeave\<close> and the handles are
  in the instance of the world.\<close>

record comp =
  ci_backpressure :: int
  ci_entering :: int
  ci_exclusive :: "nat option"
  ci_threads :: "nat table"

text \<open>\<open>s_stack\<close> and \<open>s_claims\<close> are \<open>threadStack\<close> and \<open>activationClaims\<close>, the innermost first;
  \<open>s_service\<close> says that the store's coordinator has been asked for service.\<close>

record task_store = world +
  s_tasks :: "task list"
  s_threads :: "thread list"
  s_comps :: "comp list"
  s_waiting :: "nat list"
  s_stack :: "nat list"
  s_claims :: "nat list"
  s_pending :: "nat list"
  s_awaiting :: "nat list"
  s_settled :: "(nat \<times> cval list res) list"
  s_service :: bool

type_synonym 'a tm = "(task_store, 'a) m"

text \<open>The host's and the adapter's side of a call, \<open>onStart\<close> and \<open>onResolve\<close>, and the mode in
  which frames suspend.\<close>

record tenv =
  tv_env :: "unit task_store_ext env"
  tv_mode :: suspension_mode
  tv_onStart :: "nat \<Rightarrow> cval list tm"
  tv_onResolve :: "nat \<Rightarrow> cval list option \<Rightarrow> unit tm"

definition task_at :: "nat \<Rightarrow> task tm" where
  "task_at j = gets (\<lambda>s. s_tasks s ! j)"

definition upd_task :: "nat \<Rightarrow> (task \<Rightarrow> task) \<Rightarrow> unit tm" where
  "upd_task j f = modify (\<lambda>s. s\<lparr>s_tasks := (s_tasks s)[j := f (s_tasks s ! j)]\<rparr>)"

definition thread_at :: "nat \<Rightarrow> thread tm" where
  "thread_at t = gets (\<lambda>s. s_threads s ! t)"

definition upd_thread :: "nat \<Rightarrow> (thread \<Rightarrow> thread) \<Rightarrow> unit tm" where
  "upd_thread t f = modify (\<lambda>s. s\<lparr>s_threads := (s_threads s)[t := f (s_threads s ! t)]\<rparr>)"

definition comp_at :: "nat \<Rightarrow> comp tm" where
  "comp_at k = gets (\<lambda>s. s_comps s ! k)"

definition upd_comp :: "nat \<Rightarrow> (comp \<Rightarrow> comp) \<Rightarrow> unit tm" where
  "upd_comp k f = modify (\<lambda>s. s\<lparr>s_comps := (s_comps s)[k := f (s_comps s ! k)]\<rparr>)"

text \<open>The table of threads of an instance.\<close>

definition threads_of :: "nat \<Rightarrow> (nat table, 'a) m \<Rightarrow> 'a tm" where
  "threads_of k a = zoom (\<lambda>s. ci_threads (s_comps s ! k))
     (\<lambda>t s. s\<lparr>s_comps := (s_comps s)[k := (s_comps s ! k)\<lparr>ci_threads := t\<rparr>]\<rparr>) a"

definition newComponentInstance :: comp where
  "newComponentInstance = \<lparr>ci_backpressure = 0, ci_entering = 0, ci_exclusive = None, ci_threads = empty_table\<rparr>"

text \<open>\<open>closure\<close> is what the start function of an explicit thread is called with.\<close>

definition newThread :: "nat \<Rightarrow> bool \<Rightarrow> cval list \<Rightarrow> nat tm" where
  "newThread j explicit closure =
     bnd (gets (\<lambda>s. length (s_threads s))) (\<lambda>t.
     seqm (modify (\<lambda>s. s\<lparr>s_threads := s_threads s @ [\<lparr>th_task = j, th_explicit = explicit, th_state = Th_suspended,
       th_ready = None, th_index = None, th_storage = [0, 0], th_awaiting = False, th_pc = NotStarted,
       th_closure = closure\<rparr>]\<rparr>))
     (ret t))"

section \<open>The store\<close>

definition requestService :: "unit tm" where
  "requestService = modify (\<lambda>s. s\<lparr>s_service := True\<rparr>)"

definition addPendingResumption :: "nat \<Rightarrow> unit tm" where
  "addPendingResumption t = modify (\<lambda>s. s\<lparr>s_pending := (if t \<in> set (s_pending s) then s_pending s else s_pending s @ [t])\<rparr>)"

definition removePendingResumption :: "nat \<Rightarrow> unit tm" where
  "removePendingResumption t =
     bnd (gets (\<lambda>s. t \<in> set (s_pending s))) (\<lambda>member.
     if member then seqm (modify (\<lambda>s. s\<lparr>s_pending := removeAll t (s_pending s)\<rparr>)) requestService else ret ())"

definition store_startWaiting :: "nat \<Rightarrow> unit tm" where
  "store_startWaiting t =
     bnd (gets (\<lambda>s. t \<notin> set (s_waiting s))) (\<lambda>fresh.
     seqm (assertm fresh ''thread already in the waiting list'')
     (seqm (modify (\<lambda>s. s\<lparr>s_waiting := s_waiting s @ [t]\<rparr>))
     requestService))"

definition store_stopWaiting :: "nat \<Rightarrow> unit tm" where
  "store_stopWaiting t =
     bnd (gets (\<lambda>s. t \<in> set (s_waiting s))) (\<lambda>member.
     seqm (assertm member ''thread not in the waiting list'')
     (modify (\<lambda>s. s\<lparr>s_waiting := remove1 t (s_waiting s)\<rparr>)))"

definition pushCurrentThread :: "nat \<Rightarrow> unit tm" where
  "pushCurrentThread t = modify (\<lambda>s. s\<lparr>s_stack := t # s_stack s\<rparr>)"

definition popCurrentThread :: "nat \<Rightarrow> unit tm" where
  "popCurrentThread t =
     bnd (gets (\<lambda>s. s_stack s \<noteq> [] \<and> hd (s_stack s) = t)) (\<lambda>top.
     seqm (assertm top ''current-thread stack imbalance'')
     (modify (\<lambda>s. s\<lparr>s_stack := tl (s_stack s)\<rparr>)))"

text \<open>A claim moves to the top; a release falls back on the implicit thread of the task.\<close>

definition claimActivationAmbient :: "nat \<Rightarrow> unit tm" where
  "claimActivationAmbient t = modify (\<lambda>s. s\<lparr>s_claims := t # removeAll t (s_claims s)\<rparr>)"

definition releaseActivationAmbient :: "nat \<Rightarrow> unit tm" where
  "releaseActivationAmbient t =
     bnd (thread_at t) (\<lambda>th.
     bnd (task_at (th_task th)) (\<lambda>tk.
     modify (\<lambda>s. s\<lparr>s_claims :=
       (if t \<in> set (s_claims s) then removeAll t (s_claims s)
        else case tk_implicit tk of None \<Rightarrow> s_claims s | Some i \<Rightarrow> removeAll i (s_claims s))\<rparr>)))"

text \<open>\<open>resolveAmbient\<close>: the innermost synchronous bracket, else the newest claim.\<close>

definition currentThread :: "nat tm" where
  "currentThread =
     bnd (gets (\<lambda>s. s_stack s @ s_claims s)) (\<lambda>ambient.
     case ambient of [] \<Rightarrow> throw (PendingCapability ''instantiation-time task context'') | t # _ \<Rightarrow> ret t)"

definition currentTask :: "nat tm" where
  "currentTask = bnd currentThread (\<lambda>t. bnd (thread_at t) (\<lambda>th. ret (th_task th)))"

section \<open>Readiness\<close>

definition needsExclusive :: "task \<Rightarrow> bool" where
  "needsExclusive tk = (\<not> tk_async tk \<or> tk_callback tk)"

definition hasBackpressure :: "nat \<Rightarrow> task_store \<Rightarrow> bool" where
  "hasBackpressure j s =
     (let tk = s_tasks s ! j; c = s_comps s ! tk_inst tk in
      ci_backpressure c > 0 \<or> (needsExclusive tk \<and> ci_exclusive c \<noteq> None))"

definition hasPendingCancel :: "nat \<Rightarrow> task_store \<Rightarrow> bool" where
  "hasPendingCancel j s = (tk_state (s_tasks s ! j) = T_pending_cancel)"

fun run_ready :: "ready_func \<Rightarrow> task_store \<Rightarrow> bool" where
  "run_ready Always s = True"
| "run_ready (Unblocked j) s = (\<not> hasBackpressure j s)"
| "run_ready (SlotFree k) s = (ci_exclusive (s_comps s ! k) = None)"
| "run_ready (CallbackEvent k q j) s =
     waitForCallbackEvent_ready (hasPendingCancel j) (\<lambda>s. ci_exclusive (s_comps s ! k) = None) q s"

definition thread_ready :: "nat \<Rightarrow> task_store \<Rightarrow> bool" where
  "thread_ready t s =
     (let th = s_threads s ! t in
      th_state th = Th_waiting \<and> (case th_ready th of None \<Rightarrow> False | Some f \<Rightarrow> run_ready f s))"

definition thread_inst :: "nat \<Rightarrow> task_store \<Rightarrow> nat" where
  "thread_inst t s = tk_inst (s_tasks s ! th_task (s_threads s ! t))"

definition readyCandidates :: "task_store \<Rightarrow> nat list" where
  "readyCandidates s = filter (\<lambda>t. thread_ready t s \<and> \<not> isInstancePoisoned (thread_inst t s) s) (s_waiting s)"

section \<open>Waiting\<close>

definition startWaiting :: "nat \<Rightarrow> ready_func \<Rightarrow> unit tm" where
  "startWaiting t f =
     bnd (thread_at t) (\<lambda>th.
     seqm (assertm (th_state th \<noteq> Th_waiting \<and> th_ready th = None) [])
     (seqm (upd_thread t (\<lambda>th. th\<lparr>th_ready := Some f, th_state := Th_waiting\<rparr>))
     (store_startWaiting t)))"

definition leaveWaiting :: "nat \<Rightarrow> unit tm" where
  "leaveWaiting t =
     seqm (upd_thread t (\<lambda>th. th\<lparr>th_ready := None, th_state := Th_suspended\<rparr>))
     (store_stopWaiting t)"

definition stopWaiting :: "nat \<Rightarrow> unit tm" where
  "stopWaiting t =
     bnd (thread_at t) (\<lambda>th.
     seqm (assertm (th_state th = Th_waiting \<and> th_ready th \<noteq> None) [])
     (bnd (gets (thread_ready t)) (\<lambda>ready.
     seqm (assertm ready ''stopWaiting on a thread that is not ready'')
     (leaveWaiting t))))"

definition explicitlySuspended :: "thread \<Rightarrow> bool" where
  "explicitlySuspended th = (th_state th = Th_suspended \<and> \<not> th_awaiting th)"

definition resumeLater :: "nat \<Rightarrow> unit tm" where
  "resumeLater t =
     bnd (thread_at t) (\<lambda>th.
     seqm (assertm (explicitlySuspended th) ''resume_later on a non-suspended thread'')
     (seqm (startWaiting t Always) requestService))"

section \<open>The life of a task\<close>

definition newTask :: "task \<Rightarrow> nat tm" where
  "newTask tk =
     bnd (gets (\<lambda>s. length (s_tasks s))) (\<lambda>j.
     seqm (modify (\<lambda>s. s\<lparr>s_tasks := s_tasks s @ [tk\<lparr>tk_state := T_initial, tk_implicit := None, tk_threads := []\<rparr>]\<rparr>))
     (ret j))"

definition numBorrows :: "nat \<Rightarrow> task_store \<Rightarrow> int" where
  "numBorrows j s = c_borrows (w_insts s ! tk_inst (s_tasks s ! j)) j"

definition registerThread :: "nat \<Rightarrow> nat \<Rightarrow> unit tm" where
  "registerThread j t =
     bnd (task_at j) (\<lambda>tk.
     bnd (thread_at t) (\<lambda>th.
     seqm (assertm (t \<notin> set (tk_threads tk) \<and> th_task th = j) ''register_thread of a foreign or duplicate thread'')
     (seqm (upd_task j (\<lambda>tk. tk\<lparr>tk_threads := tk_threads tk @ [t]\<rparr>))
     (seqm (assertm (th_index th = None) ''register_thread of an indexed thread'')
     (bnd (threads_of (tk_inst tk) (table_add t)) (\<lambda>i.
      upd_thread t (\<lambda>th. th\<lparr>th_index := Some i\<rparr>)))))))"

definition unregisterThread :: "nat \<Rightarrow> nat \<Rightarrow> unit tm" where
  "unregisterThread j t =
     bnd (task_at j) (\<lambda>tk.
     bnd (thread_at t) (\<lambda>th.
     seqm (assertm (t \<in> set (tk_threads tk) \<and> th_task th = j) ''unregister of a foreign thread'')
     (seqm (upd_task j (\<lambda>tk. tk\<lparr>tk_threads := remove1 t (tk_threads tk)\<rparr>))
     (bnd (task_at j) (\<lambda>tk.
      seqm (if tk_threads tk = [] then
              seqm (trapIf (tk_state tk \<noteq> T_resolved) ''task finished all threads without resolving'')
              (bnd (gets (numBorrows j)) (\<lambda>n. assertm (n = 0) ''task exited with live borrows''))
            else ret ())
      (seqm (assertm (th_index th \<noteq> None) ''unregister of an unindexed thread'')
      (seqm (threads_of (tk_inst tk) (table_remove (int (the (th_index th)))))
      (upd_thread t (\<lambda>th. th\<lparr>th_index := None\<rparr>)))))))))"

text \<open>The exit of a thread that failed: no check of the task, the trap stays the cause.\<close>

definition abortThread :: "nat \<Rightarrow> nat \<Rightarrow> unit tm" where
  "abortThread j t =
     bnd (thread_at t) (\<lambda>th.
     bnd (task_at j) (\<lambda>tk.
     seqm (upd_task j (\<lambda>tk. tk\<lparr>tk_threads := remove1 t (tk_threads tk)\<rparr>))
     (seqm (case th_index th of
              None \<Rightarrow> ret ()
            | Some i \<Rightarrow>
                seqm (threads_of (tk_inst tk) (table_remove (int i)))
                (upd_thread t (\<lambda>th. th\<lparr>th_index := None\<rparr>)))
     (if th_state th = Th_waiting then store_stopWaiting t else ret ()))))"

definition deliverPendingCancel :: "nat \<Rightarrow> bool tm" where
  "deliverPendingCancel j =
     bnd (gets (hasPendingCancel j)) (\<lambda>pending.
     if pending then seqm (upd_task j (\<lambda>tk. tk\<lparr>tk_state := T_cancel_delivered\<rparr>)) (ret True)
     else ret False)"

definition task_start :: "tenv \<Rightarrow> nat \<Rightarrow> cval list tm" where
  "task_start env j =
     bnd (task_at j) (\<lambda>tk.
     seqm (assertm (tk_state tk = T_initial) ''start on a started task'')
     (seqm (upd_task j (\<lambda>tk. tk\<lparr>tk_state := T_started\<rparr>))
     (tv_onStart env j)))"

definition task_return :: "tenv \<Rightarrow> nat \<Rightarrow> cval list \<Rightarrow> unit tm" where
  "task_return env j result =
     bnd (task_at j) (\<lambda>tk.
     seqm (trapIf (tk_state tk = T_resolved) ''task.return on a resolved task'')
     (bnd (gets (numBorrows j)) (\<lambda>n.
      seqm (trapIf (n > 0) ''borrow handles still remain at the end of the call'')
      (seqm (tv_onResolve env j (Some result))
      (upd_task j (\<lambda>tk. tk\<lparr>tk_state := T_resolved\<rparr>))))))"

definition task_cancel :: "tenv \<Rightarrow> nat \<Rightarrow> unit tm" where
  "task_cancel env j =
     bnd (task_at j) (\<lambda>tk.
     seqm (trapIf (tk_state tk \<noteq> T_cancel_delivered) ''task.cancel without a delivered cancellation request'')
     (bnd (gets (numBorrows j)) (\<lambda>n.
      seqm (trapIf (n > 0) ''borrow handles still remain at the end of the call'')
      (seqm (tv_onResolve env j None)
      (upd_task j (\<lambda>tk. tk\<lparr>tk_state := T_resolved\<rparr>))))))"

section \<open>The entry gate\<close>

text \<open>The tail of \<open>enterImplicitThread\<close>, once the gate is open.\<close>

definition admit :: "nat \<Rightarrow> nat \<Rightarrow> unit tm" where
  "admit j t =
     bnd (task_at j) (\<lambda>tk.
     seqm (if tk_ft_async tk \<and> needsExclusive tk then
             bnd (comp_at (tk_inst tk)) (\<lambda>c.
             seqm (assertm (ci_exclusive c = None) ''entering with the exclusive thread already taken'')
             (upd_comp (tk_inst tk) (\<lambda>c. c\<lparr>ci_exclusive := Some t\<rparr>)))
           else ret ())
     (registerThread j t))"

text \<open>The first step returns whether the task is admitted; otherwise the thread parks.\<close>

definition enterImplicitThread :: "nat \<Rightarrow> nat \<Rightarrow> bool tm" where
  "enterImplicitThread j t =
     bnd (task_at j) (\<lambda>tk.
     seqm (assertm (tk_state tk = T_initial) ''enter_implicit_thread after start'')
     (seqm (upd_task j (\<lambda>tk. tk\<lparr>tk_implicit := Some t\<rparr>))
     (bnd (gets (hasBackpressure j)) (\<lambda>busy.
      bnd (comp_at (tk_inst tk)) (\<lambda>c.
      if tk_ft_async tk \<and> (busy \<or> ci_entering c > 0) then
        seqm (upd_comp (tk_inst tk) (\<lambda>c. c\<lparr>ci_entering := ci_entering c + 1\<rparr>)) (ret False)
      else seqm (admit j t) (ret True))))))"

definition leave_gate :: "nat \<Rightarrow> unit tm" where
  "leave_gate k = upd_comp k (\<lambda>c. c\<lparr>ci_entering := ci_entering c - 1\<rparr>)"

definition enterImplicitThread_resume :: "tenv \<Rightarrow> nat \<Rightarrow> nat \<Rightarrow> bool tm" where
  "enterImplicitThread_resume env j t =
     bnd (task_at j) (\<lambda>tk.
     seqm (leave_gate (tk_inst tk))
     (bnd (deliverPendingCancel j) (\<lambda>cancelled.
      if cancelled then seqm (task_cancel env j) (ret False)
      else seqm (admit j t) (ret True))))"

definition exitImplicitThread :: "nat \<Rightarrow> nat \<Rightarrow> unit tm" where
  "exitImplicitThread j t =
     bnd (task_at j) (\<lambda>tk.
     seqm (assertm (tk_implicit tk = Some t) ''exit of a non-implicit thread'')
     (seqm (unregisterThread j t)
     (if tk_ft_async tk \<and> needsExclusive tk then
        bnd (comp_at (tk_inst tk)) (\<lambda>c.
        seqm (assertm (ci_exclusive c = Some t) ''exit_implicit_thread without holding the exclusive thread'')
        (seqm (upd_comp (tk_inst tk) (\<lambda>c. c\<lparr>ci_exclusive := None\<rparr>))
        requestService))
      else ret ())))"

end
