(* ===== verification/Task_Bodies.thy ===== *)
theory Task_Bodies
  imports Tasks Cabi_Lift_Lower
begin

text \<open>
  The bodies of threads and the operations that run them: the generator of a lifted export
  (\<open>liftBody\<close> and \<open>runCallbackLoop\<close> of \<open>runtime/src/exec/boundary.ts\<close>), that of an explicit
  thread (\<open>runtime/src/intrinsics/thread_builtins.ts\<close>), the resumption of a thread
  (\<open>runtime/src/task/thread.ts\<close>), the scheduler's turns (\<open>scheduler.ts\<close>), and the built-ins
  on tasks and threads (\<open>intrinsics/async_builtins.ts\<close>, \<open>context.ts\<close>).
\<close>

section \<open>Core values at the boundary\<close>

text \<open>\<open>normalizeCoreValues\<close>: signed lanes of the engine become the canonical unsigned ones.\<close>

fun normalize_lane :: "core_type \<Rightarrow> cval \<Rightarrow> cval res" where
  "normalize_lane I32 v = (case num_int v of
      Some i \<Rightarrow> Inr (VNum (i mod 2 ^ 32)) | None \<Rightarrow> Inl (AssertionError ''i32 lane''))"
| "normalize_lane I64 v = (case v of VBig i \<Rightarrow> Inr (VBig (i mod 2 ^ 64)) | _ \<Rightarrow> Inl (AssertionError ''i64 lane''))"
| "normalize_lane F32 v = (case v of VNum i \<Rightarrow> Inr v | VFlt f \<Rightarrow> Inr v | _ \<Rightarrow> Inl (AssertionError ''float lane''))"
| "normalize_lane F64 v = (case v of VNum i \<Rightarrow> Inr v | VFlt f \<Rightarrow> Inr v | _ \<Rightarrow> Inl (AssertionError ''float lane''))"

definition normalizeCoreValues :: "cval list \<Rightarrow> core_type list \<Rightarrow> cval list res" where
  "normalizeCoreValues vs lanes =
     (if length vs \<noteq> length lanes then Inl (AssertionError ''unexpected number of core values'')
      else rmap (\<lambda>(k, v). normalize_lane k v) (zip lanes vs))"

text \<open>The context of a task's call, and flat lifting and lowering of whole lists at an instance.\<close>

definition task_cx :: "tenv \<Rightarrow> nat \<Rightarrow> task \<Rightarrow> acst cx" where
  "task_cx env j tk = (env_cx (tv_env env) (tk_opts tk) (tk_inst tk))\<lparr>cx_scope := Some (TaskScope j)\<rparr>"

definition flat_iter :: "cval list \<Rightarrow> viter" where
  "flat_iter vs = \<lparr>vi_frames = [], vi_values = vs, vi_pos = 0\<rparr>"

definition with_iter :: "cval list \<Rightarrow> (acst \<times> viter, 'a) m \<Rightarrow> (acst, 'a) m" where
  "with_iter vs a = zoom (\<lambda>s. (s, flat_iter vs)) (\<lambda>(s, _) _. s) a"

definition lower_args :: "tenv \<Rightarrow> nat \<Rightarrow> task \<Rightarrow> cval list \<Rightarrow> cval list tm" where
  "lower_args env j tk args =
     (if tk_fact tk then ret args
      else at_inst (tk_inst tk) (with_iter [] (lowerFlatValues (task_cx env j tk) MAX_FLAT_PARAMS args (tk_params tk) False)))"

definition lift_results :: "tenv \<Rightarrow> nat \<Rightarrow> task \<Rightarrow> nat \<Rightarrow> cval list \<Rightarrow> cval list tm" where
  "lift_results env j tk maxFlat flat =
     at_inst (tk_inst tk) (with_iter flat (liftFlatValues (task_cx env j tk) maxFlat (tk_results tk)))"

section \<open>What a step of a body comes to\<close>

text \<open>It parks on a predicate, calls into WebAssembly, or returns.\<close>

datatype seg = Parks ready_func pc | Calls pc | Ends

section \<open>The callback loop\<close>

definition EXIT :: nat where "EXIT = 0"
definition YIELD :: nat where "YIELD = 1"
definition WAIT :: nat where "WAIT = 2"
definition CALLBACK_CODE_MAX :: nat where "CALLBACK_CODE_MAX = 2"

definition unpackCallbackResult :: "int \<Rightarrow> (nat \<times> nat) res" where
  "unpackCallbackResult packed =
     rbind (rassert (0 \<le> packed \<and> packed < 2 ^ 32) ''unpack-callback-result: packed out of range'') (\<lambda>_.
     let p = nat packed; code = p mod 16 in
     if code > CALLBACK_CODE_MAX then Inl (Trap (''invalid callback code '' @ string_of_nat code))
     else Inr (code, p div 16))"

definition retake_slot :: "task \<Rightarrow> unit tm" where
  "retake_slot tk =
     bnd (comp_at (tk_inst tk)) (\<lambda>c.
     seqm (assertm (ci_exclusive c = None) ''exclusive thread taken while this task was waiting'')
     (upd_comp (tk_inst tk) (\<lambda>c. c\<lparr>ci_exclusive := tk_implicit tk\<rparr>)))"

definition callback_loop :: "nat \<Rightarrow> nat \<Rightarrow> int \<Rightarrow> seg tm" where
  "callback_loop j t packed =
     bnd (of_res (unpackCallbackResult packed)) (\<lambda>(code, si).
     if code = EXIT then seqm (exitImplicitThread j t) (ret Ends)
     else
       bnd (task_at j) (\<lambda>tk.
       bnd (comp_at (tk_inst tk)) (\<lambda>c.
       seqm (assertm (tk_ft_async tk) ''needs_exclusive on a sync-typed task'')
       (seqm (assertm (needsExclusive tk \<and> ci_exclusive c = tk_implicit tk) ''callback loop without holding the exclusive thread'')
       (bnd (deliverPendingCancel j) (\<lambda>cancelled.
        if cancelled then ret (Calls (InCallback (TASK_CANCELLED, 0, 0)))
        else
          seqm (upd_comp (tk_inst tk) (\<lambda>c. c\<lparr>ci_exclusive := None\<rparr>))
          (if code = YIELD then ret (Parks (SlotFree (tk_inst tk)) WaitYield)
           else
             bnd (handle_get (tk_inst tk) si) (\<lambda>entry.
             case entry of
               WaitableSetE q \<Rightarrow> seqm (wait_enter q) (ret (Parks (CallbackEvent (tk_inst tk) q j) (WaitEvent q)))
             | _ \<Rightarrow> throw (Trap ''callback returned WAIT with an index that is not a waitable set'')))))))))"

definition yield_resume :: "nat \<Rightarrow> seg tm" where
  "yield_resume j =
     bnd (deliverPendingCancel j) (\<lambda>cancelled.
     bnd (task_at j) (\<lambda>tk.
     seqm (retake_slot tk)
     (ret (Calls (InCallback (if cancelled then (TASK_CANCELLED, 0, 0) else (NONE, 0, 0)))))))"

definition wait_resume :: "nat \<Rightarrow> nat \<Rightarrow> seg tm" where
  "wait_resume j q =
     bnd (waitForCallbackEvent_resume run_event (deliverPendingCancel j) q) (\<lambda>event.
     bnd (task_at j) (\<lambda>tk.
     seqm (retake_slot tk)
     (ret (Calls (InCallback event)))))"

section \<open>The body of a lifted export\<close>

text \<open>A stackful lift needs a mode in which its frame can suspend. The body of a FACT call,
  which an adapter starts, has no such check.\<close>

definition stackful_check :: "tenv \<Rightarrow> task \<Rightarrow> unit tm" where
  "stackful_check env tk =
     (if tk_async tk \<and> \<not> tk_callback tk \<and> \<not> tk_fact tk \<and> tv_mode env \<noteq> Jspi
      then throw (NeedsJspi ''stackful async lift'') else ret ())"

definition call_core :: "tenv \<Rightarrow> nat \<Rightarrow> seg tm" where
  "call_core env j =
     bnd (task_at j) (\<lambda>tk.
     bnd (task_start env j) (\<lambda>args.
     bnd (lower_args env j tk args) (\<lambda>flat.
     seqm (stackful_check env tk)
     (ret (Calls (InCore flat))))))"

definition lift_start :: "tenv \<Rightarrow> nat \<Rightarrow> nat \<Rightarrow> seg tm" where
  "lift_start env j t =
     bnd (enterImplicitThread j t) (\<lambda>admitted.
     if admitted then call_core env j else ret (Parks (Unblocked j) Entering))"

definition lift_admitted :: "tenv \<Rightarrow> nat \<Rightarrow> nat \<Rightarrow> seg tm" where
  "lift_admitted env j t =
     bnd (enterImplicitThread_resume env j t) (\<lambda>admitted.
     if admitted then call_core env j else ret Ends)"

definition packed_of :: "cval list \<Rightarrow> int res" where
  "packed_of vs = rbind (normalizeCoreValues vs [I32]) (\<lambda>ws. case ws of [VNum i] \<Rightarrow> Inr i | _ \<Rightarrow> Inl (AssertionError []))"

text \<open>A synchronous lift lifts its results, resolves, and runs post-return with \<open>mayLeave\<close>
  cleared; a stackful one has resolved by \<open>task.return\<close>; a callback one enters the loop.\<close>

definition set_may_leave :: "nat \<Rightarrow> bool \<Rightarrow> unit tm" where
  "set_may_leave k b = at_cst k (modify (\<lambda>c. c\<lparr>c_may_leave := b\<rparr>))"

definition sync_results :: "tenv \<Rightarrow> nat \<Rightarrow> task \<Rightarrow> cval list \<Rightarrow> cval list tm" where
  "sync_results env j tk vs =
     (if tk_fact tk then ret vs
      else bnd (of_res (normalizeCoreValues vs (tk_core_results tk))) (lift_results env j tk MAX_FLAT_RESULTS))"

definition core_done :: "tenv \<Rightarrow> nat \<Rightarrow> nat \<Rightarrow> cval list \<Rightarrow> seg tm" where
  "core_done env j t vs =
     bnd (task_at j) (\<lambda>tk.
     if \<not> tk_async tk then
       bnd (sync_results env j tk vs) (\<lambda>results.
       seqm (task_return env j results)
       (if tk_post_return tk then
          bnd (mayLeave (tk_inst tk)) (\<lambda>m.
          seqm (assertm m ''post-return with may_leave already false'')
          (seqm (set_may_leave (tk_inst tk) False)
          (ret (Calls InPostReturn))))
        else seqm (exitImplicitThread j t) (ret Ends)))
     else if \<not> tk_callback tk then
       seqm (if tk_fact tk then bnd (of_res (normalizeCoreValues vs [])) (\<lambda>_. ret ()) else ret ())
       (seqm (exitImplicitThread j t) (ret Ends))
     else bnd (of_res (packed_of vs)) (callback_loop j t))"

definition post_return_done :: "nat \<Rightarrow> nat \<Rightarrow> seg tm" where
  "post_return_done j t =
     bnd (task_at j) (\<lambda>tk.
     seqm (set_may_leave (tk_inst tk) True)
     (seqm (exitImplicitThread j t) (ret Ends)))"

section \<open>The body of an explicit thread\<close>

text \<open>The body calls the start function with the closure, then unregisters the thread, or
  aborts it when the function throws.\<close>

definition explicit_done :: "nat \<Rightarrow> nat \<Rightarrow> seg tm" where
  "explicit_done j t =
     bnd (thread_at t) (\<lambda>th.
     seqm (if th_index th \<noteq> None then unregisterThread j t else ret ())
     (ret Ends))"

section \<open>One step of a body\<close>

text \<open>What the generator is resumed with: nothing, the results of a core call, or its exception.\<close>

datatype input = Go | Values "cval list" | Throws err

fun body_next :: "tenv \<Rightarrow> nat \<Rightarrow> thread \<Rightarrow> input \<Rightarrow> seg tm" where
  "body_next env t th (Throws e) =
     (if th_explicit th \<and> th_pc th \<noteq> NotStarted then seqm (abortThread (th_task th) t) (throw e) else throw e)"
| "body_next env t th i =
     (let j = th_task th; vs = (case i of Values vs \<Rightarrow> vs | _ \<Rightarrow> []) in
      case th_pc th of
        NotStarted \<Rightarrow> if th_explicit th then ret (Calls (InCore (th_closure th))) else lift_start env j t
      | Entering \<Rightarrow> lift_admitted env j t
      | InCore args \<Rightarrow> if th_explicit th then explicit_done j t else core_done env j t vs
      | InCallback event \<Rightarrow> bnd (of_res (packed_of vs)) (callback_loop j t)
      | InPostReturn \<Rightarrow> post_return_done j t
      | WaitYield \<Rightarrow> yield_resume j
      | WaitEvent q \<Rightarrow> wait_resume j q
      | _ \<Rightarrow> ret Ends)"

section \<open>Resumption\<close>

text \<open>
  The tail of \<open>#resumeInternal\<close>, with the thread on top of the stack: run the body to its next
  stop. A body that throws is done, whoever drives it gets the exception; a body that calls into
  WebAssembly keeps its place on the stack until the core function returns, throws or suspends.
\<close>

definition finish_thread :: "nat \<Rightarrow> pc \<Rightarrow> unit tm" where
  "finish_thread t p = upd_thread t (\<lambda>th. th\<lparr>th_state := Th_done, th_pc := p\<rparr>)"

definition failed_body :: "nat \<Rightarrow> unit tm" where
  "failed_body t =
     seqm (finish_thread t Failed)
     (seqm (releaseActivationAmbient t)
     (seqm (removePendingResumption t)
     (popCurrentThread t)))"

definition run_body :: "tenv \<Rightarrow> nat \<Rightarrow> input \<Rightarrow> unit tm" where
  "run_body env t i =
     bnd (thread_at t) (\<lambda>th.
     bnd (on_error (body_next env t th i) (\<lambda>_. failed_body t)) (\<lambda>stop.
     case stop of
       Calls p \<Rightarrow> upd_thread t (\<lambda>th. th\<lparr>th_pc := p\<rparr>)
     | Ends \<Rightarrow> seqm (popCurrentThread t) (finish_thread t Finished)
     | Parks f p \<Rightarrow>
         seqm (popCurrentThread t)
         (seqm (upd_thread t (\<lambda>th. th\<lparr>th_state := Th_suspended, th_pc := p\<rparr>))
         (seqm (startWaiting t f)
         (bnd (gets (thread_ready t)) (\<lambda>ready. if ready then requestService else ret ()))))))"

definition resumeInternal :: "tenv \<Rightarrow> nat \<Rightarrow> input \<Rightarrow> unit tm" where
  "resumeInternal env t i =
     seqm (upd_thread t (\<lambda>th. th\<lparr>th_state := Th_running\<rparr>))
     (seqm (pushCurrentThread t)
     (run_body env t i))"

definition thread_resume :: "tenv \<Rightarrow> nat \<Rightarrow> unit tm" where
  "thread_resume env t =
     bnd (thread_at t) (\<lambda>th.
     seqm (assertm (th_state th \<noteq> Th_running \<and> th_state th \<noteq> Th_done) ''resume() on a running or finished thread'')
     (seqm (if th_state th = Th_waiting then stopWaiting t else ret ())
     (resumeInternal env t Go)))"

definition resumeStartupCancellation :: "tenv \<Rightarrow> nat \<Rightarrow> unit tm" where
  "resumeStartupCancellation env t =
     bnd (thread_at t) (\<lambda>th.
     seqm (assertm (th_state th = Th_waiting) ''startup cancellation of a non-waiting thread'')
     (seqm (leaveWaiting t)
     (resumeInternal env t Go)))"

text \<open>\<open>body.return()\<close> at the entry gate runs its \<open>finally\<close>.\<close>

definition abandonWaiting :: "nat \<Rightarrow> unit tm" where
  "abandonWaiting t =
     bnd (thread_at t) (\<lambda>th.
     seqm (assertm (th_state th = Th_waiting) ''abandon of non-waiting thread'')
     (seqm (leaveWaiting t)
     (bnd (gets (thread_inst t)) (\<lambda>k.
      seqm (if th_pc th = Entering then leave_gate k
            else case th_pc th of WaitEvent q \<Rightarrow> modify (wait_leave q) | _ \<Rightarrow> ret ())
      (finish_thread t Failed)))))"

definition requestCancellation :: "tenv \<Rightarrow> nat \<Rightarrow> unit tm" where
  "requestCancellation env j =
     bnd (task_at j) (\<lambda>tk.
     if tk_state tk = T_initial then
       seqm (upd_task j (\<lambda>tk. tk\<lparr>tk_state := T_pending_cancel\<rparr>))
       (case tk_implicit tk of
          None \<Rightarrow> throw (TypeError ''no implicit thread'')
        | Some t \<Rightarrow> resumeStartupCancellation env t)
     else
       seqm (assertm (tk_state tk = T_started) ''request_cancellation in a state that cannot be cancelled'')
       (upd_task j (\<lambda>tk. tk\<lparr>tk_state := T_pending_cancel\<rparr>)))"

section \<open>Poison\<close>

definition is_capability :: "err \<Rightarrow> bool" where
  "is_capability e = (case e of NeedsJspi m \<Rightarrow> True | PendingCapability m \<Rightarrow> True | _ \<Rightarrow> False)"

text \<open>The hook retires the asynchronous ends; its failure never replaces the cause.\<close>

definition notifyInstancePoisoned :: "tenv \<Rightarrow> nat \<Rightarrow> unit tm" where
  "notifyInstancePoisoned env k =
     bnd (gets (isInstancePoisoned k)) (\<lambda>already.
     if already then ret ()
     else
       seqm (modify (\<lambda>s. s\<lparr>h_poisoned := k # h_poisoned s\<rparr>))
       (catching (retireInstanceAsyncEnds (tv_env env) k) (\<lambda>_. ret ())))"

definition poisoning :: "tenv \<Rightarrow> nat \<Rightarrow> unit tm \<Rightarrow> unit tm" where
  "poisoning env k a = on_error a (\<lambda>e. if is_capability e then ret () else notifyInstancePoisoned env k)"

section \<open>Activations that await a promise\<close>

text \<open>The core call of the running thread returned a promise: the thread leaves the stack.\<close>

definition core_suspends :: "nat \<Rightarrow> unit tm" where
  "core_suspends t =
     seqm (popCurrentThread t)
     (seqm (upd_thread t (\<lambda>th. th\<lparr>th_state := Th_suspended, th_awaiting := True\<rparr>))
     (modify (\<lambda>s. s\<lparr>s_awaiting := s_awaiting s @ [t]\<rparr>)))"

definition releasePendingOf :: "nat \<Rightarrow> unit tm" where
  "releasePendingOf t =
     seqm (releaseActivationAmbient t)
     (bnd (thread_at t) (\<lambda>th.
      bnd (task_at (th_task th)) (\<lambda>tk.
      seqm (removePendingResumption t)
      (case tk_implicit tk of None \<Rightarrow> ret () | Some i \<Rightarrow> removePendingResumption i))))"

text \<open>The reactions of \<open>noteAwaiting\<close>: the promise of \<open>t\<close> settled.\<close>

definition settle :: "nat \<Rightarrow> cval list res \<Rightarrow> unit tm" where
  "settle t v =
     seqm (modify (\<lambda>s. s\<lparr>s_settled := s_settled s @ [(t, v)]\<rparr>))
     (seqm (releasePendingOf t) requestService)"

definition resumeWith :: "tenv \<Rightarrow> nat \<Rightarrow> cval list res \<Rightarrow> unit tm" where
  "resumeWith env t v =
     bnd (thread_at t) (\<lambda>th.
     seqm (assertm (th_awaiting th) ''resumeWith on a thread that is not awaiting'')
     (seqm (upd_thread t (\<lambda>th. th\<lparr>th_awaiting := False, th_state := Th_suspended\<rparr>))
     (seqm (modify (\<lambda>s. s\<lparr>s_awaiting := removeAll t (s_awaiting s)\<rparr>))
     (bnd (gets (thread_inst t)) (\<lambda>k.
      bnd (gets (isInstancePoisoned k)) (\<lambda>dead.
      if dead then ret ()
      else poisoning env k (resumeInternal env t (case v of Inl e \<Rightarrow> Throws e | Inr vs \<Rightarrow> Values vs))))))))"

text \<open>\<open>serviceSettledStep\<close>: stale entries are dropped until a live one runs.\<close>

fun service_queue :: "tenv \<Rightarrow> (nat \<times> cval list res) list \<Rightarrow> bool tm" where
  "service_queue env [] = ret False"
| "service_queue env ((t, v) # q) =
     seqm (modify (\<lambda>s. s\<lparr>s_settled := q\<rparr>))
     (bnd (gets (\<lambda>s. t \<in> set (s_awaiting s))) (\<lambda>live.
      if live then seqm (resumeWith env t v) (ret True) else service_queue env q))"

definition serviceSettledStep :: "tenv \<Rightarrow> bool tm" where
  "serviceSettledStep env = bnd (gets s_settled) (service_queue env)"

section \<open>The scheduler's turns\<close>

definition tick :: "tenv \<Rightarrow> bool tm" where
  "tick env =
     bnd (gets readyCandidates) (\<lambda>candidates.
     bnd (gets (\<lambda>s. s_pending s \<noteq> [] \<or> s_settled s \<noteq> [])) (\<lambda>held.
     if held then ret False
     else if candidates = [] then ret False
     else
       bnd (chooseCandidate candidates) (\<lambda>t.
       bnd (gets (thread_inst t)) (\<lambda>k.
       seqm (poisoning env k (thread_resume env t)) (ret True)))))"

definition tickForInstance :: "tenv \<Rightarrow> nat \<Rightarrow> bool tm" where
  "tickForInstance env k =
     bnd (gets (\<lambda>s. filter (\<lambda>t. thread_inst t s = k) (readyCandidates s))) (\<lambda>candidates.
     if candidates = [] then ret False
     else
       bnd (chooseCandidate candidates) (\<lambda>t.
       seqm (poisoning env k (thread_resume env t)) (ret True)))"

text \<open>One turn of \<open>driveSyncLift\<close>'s loop; it returns whether the task is still unresolved.\<close>

definition driveSyncLift_turn :: "tenv \<Rightarrow> nat \<Rightarrow> bool tm" where
  "driveSyncLift_turn env j =
     bnd (task_at j) (\<lambda>tk.
     if tk_state tk = T_resolved then ret False
     else
       bnd (gets (\<lambda>s. filter (\<lambda>t. thread_ready t s) (table_iter (ci_threads (s_comps s ! tk_inst tk))))) (\<lambda>candidates.
       seqm (trapIf (candidates = []) ''deadlock: synchronous task cannot resolve and no thread is ready'')
       (bnd (chooseCandidate candidates) (\<lambda>t.
        seqm (thread_resume env t) (ret True)))))"

definition storeQuiescent :: "bool \<Rightarrow> task_store \<Rightarrow> bool" where
  "storeQuiescent realHostCall s = (s_settled s = [] \<and> s_awaiting s = [] \<and> \<not> realHostCall)"

definition hasRunnableWork :: "nat \<Rightarrow> nat \<Rightarrow> task_store \<Rightarrow> bool" where
  "hasRunnableWork k exclude s =
     (let mine = (\<lambda>t. thread_inst t s = k \<and> th_task (s_threads s ! t) \<noteq> exclude) in
      list_ex (\<lambda>(t, v). mine t) (s_settled s) \<or> list_ex (\<lambda>t. mine t \<and> thread_ready t s) (s_waiting s) \<or>
      list_ex mine (s_awaiting s))"

end
