(* ===== verification/Task_Inert.thy ===== *)
theory Task_Inert
  imports Task_Bodies
begin

text \<open>
  Operations of the world that leave the tasks alone: everything that touches only waitables,
  streams and the instances' memory and handles keeps the record's extension, in which the
  tasks, the threads and the scheduler's lists are.
\<close>

lemma more_upd [simp]:
  "world.more (s\<lparr>w_waitables := a\<rparr>) = world.more s" "world.more (s\<lparr>w_sets := b\<rparr>) = world.more s"
  "world.more (s\<lparr>w_seed := c\<rparr>) = world.more s" "world.more (s\<lparr>w_rng := d\<rparr>) = world.more s"
  "world.more (s\<lparr>h_ends := e\<rparr>) = world.more s" "world.more (s\<lparr>h_shared := f\<rparr>) = world.more s"
  "world.more (s\<lparr>h_bufs := g\<rparr>) = world.more s" "world.more (s\<lparr>h_messages := h\<rparr>) = world.more s"
  "world.more (s\<lparr>h_poisoned := i\<rparr>) = world.more s" "world.more (s\<lparr>h_retired := j\<rparr>) = world.more s"
  "world.more (s\<lparr>h_failures := k\<rparr>) = world.more s" "world.more (s\<lparr>w_insts := l\<rparr>) = world.more s"
  "world.more (heap.extend m (heap.more s)) = world.more s"
  for s :: "'y world_scheme"
  by (cases s; simp add: heap.defs)+

definition more_is :: "'y \<Rightarrow> 'y world_scheme \<Rightarrow> bool" where
  "more_is x s \<longleftrightarrow> world.more s = x"

lemma preserves_ensuring [preserving]: "preserves P a \<Longrightarrow> preserves P c \<Longrightarrow> preserves P (ensuring a c)"
  unfolding preserves_def ensuring_run by (auto split: prod.split sum.split)

lemma preserves_catching [preserving]: "preserves P a \<Longrightarrow> (\<And>e. preserves P (h e)) \<Longrightarrow> preserves P (catching a h)"
  unfolding preserves_def catching_run by (auto split: prod.split sum.split)

lemma preserves_finallym [preserving]: "preserves P a \<Longrightarrow> (\<And>s. P s \<Longrightarrow> P (c s)) \<Longrightarrow> preserves P (finallym a c)"
  unfolding preserves_def finallym_def by (auto simp: Let_def case_prod_beta)

lemma inert_modify [preserving]: "(\<And>s. world.more (f s) = world.more s) \<Longrightarrow> preserves (more_is x) (modify f)"
  by (simp add: preserves_def more_is_def)

lemma inert_prims [preserving]:
  "preserves (more_is x) (upd_waitable w f)" "preserves (more_is x) (upd_wset k g)" "preserves (more_is x) (setPendingEvent w p)"
  "preserves (more_is x) (upd_end e h)" "preserves (more_is x) (upd_shared y i)" "preserves (more_is x) (resetPending y)"
  "preserves (more_is x) (shared_at y)" "preserves (more_is x) (end_at e)" "preserves (more_is x) (at_cst k' a)"
  "preserves (more_is x) (wait_enter k)" "preserves (more_is x) (at_inst k'' a')" "preserves (more_is x) (handle_get k j)"
  by (auto simp: upd_waitable_def upd_wset_def setPendingEvent_def upd_end_def upd_shared_def resetPending_def shared_at_def end_at_def
    at_cst_def preserves_def zoom_run more_is_def wait_enter_def at_inst_def inst_put_def handle_get_def)

lemma inert_choose [preserving]: "preserves (more_is x) (chooseCandidate cs)"
  by (auto simp del: run_rules simp: chooseCandidate_def nextRandom_def Let_def intro!: preserving)

lemma inert_event [preserving]: "preserves (more_is x) (run_event p)"
  by (cases p) (auto simp del: run_rules simp: subtask_event_def stream_event_def future_event_def idle_drop_event_def idle_index_def
      Let_def intro!: preserving split: reclaim.split option.split)

lemma inert_getEvent [preserving]: "preserves (more_is x) (wset_getPendingEvent run_event q)"
  by (auto simp del: run_rules simp: wset_getPendingEvent_def getPendingEvent_def intro!: preserving split: option.split)

text \<open>The host's callbacks of streams and the callbacks of tasks leave the tasks alone.\<close>

definition env_inert :: "'y env \<Rightarrow> bool" where
  "env_inert env \<longleftrightarrow> (\<forall>x h r. preserves (more_is x) (env_host_copy env h r)) \<and>
     (\<forall>x h r. preserves (more_is x) (env_host_done env h r)) \<and> (\<forall>x n. preserves (more_is x) (env_observe env n))"

lemma inert_reset:
  assumes "env_inert env" shows "preserves (more_is x) (resetAndNotifyPending env s r)"
  using assms
  by (auto simp del: run_rules simp: resetAndNotifyPending_def run_onCopyDone_def stream_onCopyDone_def future_onCopyDone_def env_inert_def
      intro!: preserving split: option.split copy_cb.split)

lemma inert_notify [preserving]: "preserves (more_is x) (notifyIdleDrop e)"
  by (auto simp del: run_rules simp: notifyIdleDrop_def armIdleDrop_def intro!: preserving)

lemma inert_drop:
  assumes "env_inert env" shows "preserves (more_is x) (shared_drop env s side)"
  using assms inert_reset [OF assms]
  by (auto simp del: run_rules simp: shared_drop_def notify_peers_def notify_opt_def notifyDropped_def env_inert_def
      intro!: preserving split: option.split end_side.split)

lemma inert_retire_drops:
  assumes "env_inert env" shows "preserves (more_is x) (retire_drops env es f)"
  using inert_drop [OF assms]
  by (induction es arbitrary: f)
    (auto simp del: run_rules simp: dropSharedForTeardown_def intro!: preserving split: option.split)

lemma inert_retire:
  assumes "env_inert env" shows "preserves (more_is x) (retireInstanceAsyncEnds env k)"
  using inert_retire_drops [OF assms]
  by (auto simp del: run_rules simp: retireInstanceAsyncEnds_def retireAsyncEnds_def retire_mark_def Let_def
      intro!: preserving split: option.split)

end
