(* ===== verification/Task_Inv.thy ===== *)
theory Task_Inv
  imports Task_Inert
begin

text \<open>
  The invariant of tasks, threads and the scheduler. \<open>tinv F d s\<close> holds while the threads of
  \<open>F\<close> run the code between two stops of their bodies: what it says of a thread's place does
  not apply to them, and \<open>d k\<close> of them have been counted at the gate of instance \<open>k\<close>.
\<close>

section \<open>The invariant\<close>

abbreviation thr :: "task_store \<Rightarrow> nat \<Rightarrow> thread" where "thr s t \<equiv> s_threads s ! t"

abbreviation task_of :: "task_store \<Rightarrow> nat \<Rightarrow> task" where "task_of s t \<equiv> s_tasks s ! th_task (s_threads s ! t)"

definition in_wasm :: "pc \<Rightarrow> bool" where
  "in_wasm p \<longleftrightarrow> (case p of InCore a \<Rightarrow> True | InCallback e \<Rightarrow> True | InPostReturn \<Rightarrow> True | _ \<Rightarrow> False)"

lemma in_wasm_simps [simp]:
  "in_wasm (InCore a)" "in_wasm (InCallback e)" "in_wasm InPostReturn" "\<not> in_wasm NotStarted" "\<not> in_wasm Entering"
  "\<not> in_wasm WaitYield" "\<not> in_wasm (WaitEvent q)" "\<not> in_wasm Finished" "\<not> in_wasm Failed"
  by (simp_all add: in_wasm_def)

definition claims_slot :: "task \<Rightarrow> bool" where
  "claims_slot tk = (tk_ft_async tk \<and> needsExclusive tk)"

text \<open>Where a thread may stand, with its state, its predicate and its index.\<close>

definition at_place :: "task \<Rightarrow> thread \<Rightarrow> bool" where
  "at_place tk th \<longleftrightarrow>
     (case th_pc th of
        NotStarted \<Rightarrow>
          if th_explicit th then
            th_state th = Th_suspended \<and> th_ready th = None \<or>
            th_index th \<noteq> None \<and> th_state th = Th_waiting \<and> th_ready th = Some Always
          else th_index th = None \<and> th_state th = Th_suspended \<and> th_ready th = None
      | Entering \<Rightarrow> \<not> th_explicit th \<and> th_index th = None \<and> th_state th = Th_waiting \<and>
          th_ready th = Some (Unblocked (th_task th)) \<and> tk_ft_async tk
      | WaitYield \<Rightarrow> \<not> th_explicit th \<and> th_index th \<noteq> None \<and> th_state th = Th_waiting \<and>
          th_ready th = Some (SlotFree (tk_inst tk)) \<and> claims_slot tk
      | WaitEvent q \<Rightarrow> \<not> th_explicit th \<and> th_index th \<noteq> None \<and> th_state th = Th_waiting \<and>
          th_ready th = Some (CallbackEvent (tk_inst tk) q (th_task th)) \<and> claims_slot tk
      | Finished \<Rightarrow> th_index th = None \<and> th_state th = Th_done \<and> th_ready th = None
      | Failed \<Rightarrow> th_state th = Th_done \<and> th_ready th = None
      | p \<Rightarrow> th_index th \<noteq> None \<and> (th_explicit th \<longrightarrow> (\<exists>a. p = InCore a)) \<and>
          (th_ready th = None \<and> (th_state th = Th_running \<or> th_state th = Th_suspended) \<or>
           th_ready th = Some Always \<and> th_state th = Th_waiting))"

text \<open>What its place says of its task: it is initial up to the gate and not afterwards. An explicit
  thread that no table took keeps its place in the task's list.\<close>

definition in_task :: "task \<Rightarrow> nat \<Rightarrow> thread \<Rightarrow> bool" where
  "in_task tk t th \<longleftrightarrow>
     (th_awaiting th \<longrightarrow> in_wasm (th_pc th) \<and> th_state th = Th_suspended) \<and>
     (th_pc th \<noteq> Failed \<and> (th_explicit th \<and> th_pc th = NotStarted \<longrightarrow> th_index th \<noteq> None) \<longrightarrow>
        (t \<in> set (tk_threads tk) \<longleftrightarrow> th_index th \<noteq> None)) \<and>
     (\<not> th_explicit th \<and> th_pc th \<in> {NotStarted, Entering} \<longrightarrow> tk_state tk = T_initial) \<and>
     (th_explicit th \<or> th_pc th \<notin> {NotStarted, Entering, Failed} \<longrightarrow> tk_state tk \<noteq> T_initial) \<and>
     (\<not> th_explicit th \<and> th_pc th \<noteq> NotStarted \<longrightarrow> tk_implicit tk = Some t)"

definition placed :: "task_store \<Rightarrow> nat \<Rightarrow> bool" where
  "placed s t \<longleftrightarrow> at_place (task_of s t) (thr s t) \<and> in_task (task_of s t) t (thr s t) \<and>
     (in_wasm (th_pc (thr s t)) \<and> \<not> th_explicit (thr s t) \<and> claims_slot (task_of s t) \<longrightarrow>
        ci_exclusive (s_comps s ! thread_inst t s) = Some t)"

definition lists_ok :: "task_store \<Rightarrow> bool" where
  "lists_ok s \<longleftrightarrow> distinct (s_waiting s) \<and> distinct (s_stack s) \<and> distinct (s_awaiting s) \<and>
     (\<forall>t \<in> set (s_waiting s) \<union> set (s_stack s) \<union> set (s_awaiting s). t < length (s_threads s)) \<and>
     (\<forall>t < length (s_threads s). (t \<in> set (s_waiting s) \<longleftrightarrow> th_state (thr s t) = Th_waiting) \<and>
        (t \<in> set (s_stack s) \<longleftrightarrow> th_state (thr s t) = Th_running) \<and>
        (t \<in> set (s_awaiting s) \<longleftrightarrow> th_awaiting (thr s t))) \<and>
     (\<forall>t \<in> set (s_claims s). t \<in> set (s_awaiting s) \<and> t \<notin> fst ` set (s_settled s)) \<and>
     (\<forall>t \<in> fst ` set (s_settled s). t \<in> set (s_awaiting s)) \<and> distinct (map fst (s_settled s))"

definition task_good :: "task_store \<Rightarrow> nat \<Rightarrow> bool" where
  "task_good s j \<longleftrightarrow> (let tk = s_tasks s ! j in tk_inst tk < length (s_comps s) \<and> distinct (tk_threads tk) \<and>
     (\<forall>t \<in> set (tk_threads tk). t < length (s_threads s) \<and> th_task (thr s t) = j) \<and>
     (\<forall>t. tk_implicit tk = Some t \<longrightarrow> t < length (s_threads s) \<and> th_task (thr s t) = j \<and> \<not> th_explicit (thr s t)))"

definition gated :: "task_store \<Rightarrow> nat set \<Rightarrow> nat \<Rightarrow> nat set" where
  "gated s F k = {t. t < length (s_threads s) \<and> t \<notin> F \<and> th_pc (thr s t) = Entering \<and> thread_inst t s = k}"

definition comp_good :: "nat set \<Rightarrow> int \<Rightarrow> task_store \<Rightarrow> nat \<Rightarrow> bool" where
  "comp_good F d s k \<longleftrightarrow> (let c = s_comps s ! k in
     ci_entering c = int (card (gated s F k)) + d \<and>
     - 1 \<le> ci_backpressure c \<and> ci_backpressure c \<le> 2 ^ 16 \<and>
     table_inv (ci_threads c) \<and>
     (\<forall>i t. table_entries (ci_threads c) i = Some t \<longleftrightarrow>
        t < length (s_threads s) \<and> th_index (thr s t) = Some i \<and> thread_inst t s = k) \<and>
     (\<forall>t. ci_exclusive c = Some t \<longrightarrow> t < length (s_threads s) \<and> thread_inst t s = k \<and> \<not> th_explicit (thr s t) \<and>
        claims_slot (task_of s t) \<and> (t \<in> F \<or> in_wasm (th_pc (thr s t)) \<or> th_pc (thr s t) = Failed)))"

lemma comp_goodD:
  assumes "comp_good F d s k"
  shows "ci_entering (s_comps s ! k) = int (card (gated s F k)) + d"
    "- 1 \<le> ci_backpressure (s_comps s ! k)" "ci_backpressure (s_comps s ! k) \<le> 2 ^ 16"
    "table_inv (ci_threads (s_comps s ! k))"
    "table_entries (ci_threads (s_comps s ! k)) i = Some t \<longleftrightarrow>
       t < length (s_threads s) \<and> th_index (thr s t) = Some i \<and> thread_inst t s = k"
    "ci_exclusive (s_comps s ! k) = Some t \<Longrightarrow> t < length (s_threads s) \<and> thread_inst t s = k \<and> \<not> th_explicit (thr s t) \<and>
       claims_slot (task_of s t) \<and> (t \<in> F \<or> in_wasm (th_pc (thr s t)) \<or> th_pc (thr s t) = Failed)"
  using assms unfolding comp_good_def Let_def by blast+

lemma task_goodD:
  assumes "task_good s j"
  shows "tk_inst (s_tasks s ! j) < length (s_comps s)" "distinct (tk_threads (s_tasks s ! j))"
    "t \<in> set (tk_threads (s_tasks s ! j)) \<Longrightarrow> t < length (s_threads s) \<and> th_task (thr s t) = j"
    "tk_implicit (s_tasks s ! j) = Some t \<Longrightarrow> t < length (s_threads s) \<and> th_task (thr s t) = j \<and> \<not> th_explicit (thr s t)"
  using assms unfolding task_good_def Let_def by blast+

definition ended_ok :: "nat set \<Rightarrow> task_store \<Rightarrow> nat \<Rightarrow> bool" where
  "ended_ok F s t \<longleftrightarrow> tk_state (task_of s t) = T_resolved \<or> tk_threads (task_of s t) \<noteq> [] \<or>
     (\<exists>t' < length (s_threads s). th_task (thr s t') = th_task (thr s t) \<and> (t' \<in> F \<or> th_pc (thr s t') = Failed))"

definition tinv :: "nat set \<Rightarrow> (nat \<Rightarrow> int) \<Rightarrow> task_store \<Rightarrow> bool" where
  "tinv F d s \<longleftrightarrow> lists_ok s \<and>
     (\<forall>t < length (s_threads s). th_task (thr s t) < length (s_tasks s)) \<and>
     (\<forall>j < length (s_tasks s). task_good s j) \<and>
     (\<forall>k < length (s_comps s). comp_good F (d k) s k) \<and>
     (\<forall>t \<in> F. t < length (s_threads s)) \<and>
     (\<forall>t < length (s_threads s). t \<notin> F \<longrightarrow> placed s t) \<and>
     (\<forall>t < length (s_threads s). t \<notin> F \<and> th_pc (thr s t) = Finished \<longrightarrow> ended_ok F s t) \<and>
     (\<forall>t < length (s_threads s). \<forall>u < length (s_threads s).
        \<not> th_explicit (thr s t) \<and> \<not> th_explicit (thr s u) \<and> th_task (thr s t) = th_task (thr s u) \<longrightarrow> t = u)"

lemma tinvI:
  assumes "lists_ok s" "\<And>t. t < length (s_threads s) \<Longrightarrow> th_task (thr s t) < length (s_tasks s)"
    "\<And>j. j < length (s_tasks s) \<Longrightarrow> task_good s j"
    "\<And>k. k < length (s_comps s) \<Longrightarrow> comp_good F (d k) s k"
    "\<And>t. t \<in> F \<Longrightarrow> t < length (s_threads s)"
    "\<And>t. t < length (s_threads s) \<Longrightarrow> t \<notin> F \<Longrightarrow> placed s t"
    "\<And>t. t < length (s_threads s) \<Longrightarrow> t \<notin> F \<Longrightarrow> th_pc (thr s t) = Finished \<Longrightarrow> ended_ok F s t"
    "\<And>t u. t < length (s_threads s) \<Longrightarrow> u < length (s_threads s) \<Longrightarrow> \<not> th_explicit (thr s t) \<Longrightarrow>
       \<not> th_explicit (thr s u) \<Longrightarrow> th_task (thr s t) = th_task (thr s u) \<Longrightarrow> t = u"
  shows "tinv F d s"
  unfolding tinv_def using assms by blast

lemma tinvD:
  assumes "tinv F d s"
  shows "lists_ok s" "t < length (s_threads s) \<Longrightarrow> th_task (thr s t) < length (s_tasks s)"
    "j < length (s_tasks s) \<Longrightarrow> task_good s j"
    "k < length (s_comps s) \<Longrightarrow> comp_good F (d k) s k"
    "t \<in> F \<Longrightarrow> t < length (s_threads s)"
    "t < length (s_threads s) \<Longrightarrow> t \<notin> F \<Longrightarrow> placed s t"
    "t < length (s_threads s) \<Longrightarrow> t \<notin> F \<Longrightarrow> th_pc (thr s t) = Finished \<Longrightarrow> ended_ok F s t"
    "t < length (s_threads s) \<Longrightarrow> u < length (s_threads s) \<Longrightarrow> \<not> th_explicit (thr s t) \<Longrightarrow>
       \<not> th_explicit (thr s u) \<Longrightarrow> th_task (thr s t) = th_task (thr s u) \<Longrightarrow> t = u"
  using assms unfolding tinv_def by blast+

section \<open>What the world does to tasks: nothing\<close>

definition same_tasks :: "task_store \<Rightarrow> task_store \<Rightarrow> bool" where
  "same_tasks s t \<longleftrightarrow> world.more s = world.more t"

lemma same_tasksD:
  assumes "same_tasks s t"
  shows "s_tasks t = s_tasks s" "s_threads t = s_threads s" "s_comps t = s_comps s" "s_waiting t = s_waiting s"
    "s_stack t = s_stack s" "s_claims t = s_claims s" "s_pending t = s_pending s" "s_awaiting t = s_awaiting s"
    "s_settled t = s_settled s" "s_service t = s_service s"
  using assms by (cases s; cases t; simp add: same_tasks_def)+

lemma same_tasks_refl [simp]: "same_tasks s s" by (simp add: same_tasks_def)

lemma same_tasks_po [simp]: "reflp same_tasks" "transp same_tasks"
  by (auto simp: reflp_def transp_def same_tasks_def)

lemma thread_inst_same: "same_tasks s t \<Longrightarrow> thread_inst x t = thread_inst x s"
  by (simp add: thread_inst_def same_tasksD)

lemma tinv_same: "same_tasks s t \<Longrightarrow> tinv F d t = tinv F d s"
  by (simp add: tinv_def lists_ok_def task_good_def comp_good_def gated_def placed_def ended_ok_def thread_inst_same
      same_tasksD thread_inst_def)

text \<open>An inert operation reaches a world with the same tasks.\<close>

lemma wp_inert:
  assumes "\<And>x. preserves (more_is x) a" "\<And>x t. same_tasks s t \<Longrightarrow> Q x t" "\<And>t. same_tasks s t \<Longrightarrow> E t"
  shows "wp a Q E s"
proof (rule wpI)
  show "Q x t" if "a s = (Inr x, t)" for x t
    using preservesD [OF assms(1), of "world.more s" s "Inr x" t] that assms(2) by (auto simp: more_is_def same_tasks_def)
  show "E t" if "a s = (Inl e, t)" for e t
    using preservesD [OF assms(1), of "world.more s" s "Inl e" t] that assms(3) by (auto simp: more_is_def same_tasks_def)
qed

section \<open>Taking a thread up and putting it down\<close>

text \<open>The store with a thread replaced, and its lists.\<close>

definition put_thread :: "nat \<Rightarrow> thread \<Rightarrow> task_store \<Rightarrow> task_store" where
  "put_thread t th s = s\<lparr>s_threads := (s_threads s)[t := th]\<rparr>"

definition same_role :: "thread \<Rightarrow> thread \<Rightarrow> bool" where
  "same_role th th' \<longleftrightarrow> th_task th' = th_task th \<and> th_explicit th' = th_explicit th \<and> th_index th' = th_index th"

text \<open>\<open>moved t th s s'\<close>: between the two stores only thread \<open>t\<close> and the lists differ.\<close>

definition moved :: "nat \<Rightarrow> thread \<Rightarrow> task_store \<Rightarrow> task_store \<Rightarrow> bool" where
  "moved t th s s' \<longleftrightarrow> s_threads s' = (s_threads s)[t := th] \<and> s_tasks s' = s_tasks s \<and> s_comps s' = s_comps s"

lemma moved_simps:
  assumes "moved t th s s'" "t < length (s_threads s)" "same_role (thr s t) th"
  shows "length (s_threads s') = length (s_threads s)" "s_tasks s' = s_tasks s" "s_comps s' = s_comps s"
    "thr s' u = (if u = t then th else thr s u)" "th_task (thr s' u) = th_task (thr s u)"
    "th_explicit (thr s' u) = th_explicit (thr s u)" "th_index (thr s' u) = th_index (thr s u)"
    "thread_inst u s' = thread_inst u s" "th_pc (thr s' u) = (if u = t then th_pc th else th_pc (thr s u))"
proof -
  have u: "thr s' u = (if u = t then th else thr s u)" for u
    using assms(1,2) by (simp add: moved_def nth_list_update)
  show "length (s_threads s') = length (s_threads s)" "s_tasks s' = s_tasks s" "s_comps s' = s_comps s"
    "thr s' u = (if u = t then th else thr s u)" "th_pc (thr s' u) = (if u = t then th_pc th else th_pc (thr s u))"
    using assms(1) u by (simp_all add: moved_def)
  show "th_task (thr s' u) = th_task (thr s u)" "th_explicit (thr s' u) = th_explicit (thr s u)"
    "th_index (thr s' u) = th_index (thr s u)" "thread_inst u s' = thread_inst u s"
    using assms u [of u] by (cases "u = t"; simp add: moved_def same_role_def thread_inst_def)+
qed

lemma gated_less: "t < length (s_threads s) \<Longrightarrow> gated s {t} k = gated s {} k - {t}"
  by (auto simp: gated_def)

lemma finite_gated [simp]: "finite (gated s F k)"
  by (rule finite_subset [of _ "{..< length (s_threads s)}"]) (auto simp: gated_def)

lemma takeoff_comp:
  assumes c: "comp_good {} 0 s k" and m: "moved t th s s'" "t < length (s_threads s)" "same_role (thr s t) th"
    and p: "th_pc th = th_pc (thr s t)"
  shows "comp_good {t} (if th_pc th = Entering \<and> thread_inst t s = k then 1 else 0) s' k"
proof -
  note M = moved_simps [OF m]
  have pc: "th_pc (thr s' u) = th_pc (thr s u)" for u using p by (simp add: M(4))
  have g: "gated s' {t} k = gated s {} k - {t}"
    using m(2) by (auto simp: gated_def M(1,8) pc)
  have "t \<in> gated s {} k \<longleftrightarrow> th_pc th = Entering \<and> thread_inst t s = k"
    using m(2) p by (simp add: gated_def)
  moreover have "int (card (gated s {} k)) = int (card (gated s {} k - {t})) + (if t \<in> gated s {} k then 1 else 0)"
    using card_Suc_Diff1 [OF finite_gated, of t s "{}" k] by (cases "t \<in> gated s {} k") auto
  ultimately have "int (card (gated s {} k)) = int (card (gated s' {t} k)) + (if th_pc th = Entering \<and> thread_inst t s = k then 1 else 0)"
    unfolding g by simp
  then show ?thesis
    using c unfolding comp_good_def Let_def by (simp add: M(1,2,3,5,6,7,8) pc)
qed

lemma takeoff:
  assumes s: "tinv {} (\<lambda>_. 0) s" and m: "moved t th s s'" "t < length (s_threads s)" "same_role (thr s t) th"
    and p: "th_pc th = th_pc (thr s t)" and l: "lists_ok s'"
  shows "tinv {t} (\<lambda>k. if th_pc th = Entering \<and> thread_inst t s = k then 1 else 0) s'"
proof (rule tinvI)
  note M = moved_simps [OF m]
  show "lists_ok s'" by (rule l)
  show "th_task (thr s' u) < length (s_tasks s')" if "u < length (s_threads s')" for u
    using tinvD(2) [OF s] that by (simp add: M(1,2,5))
  show "task_good s' j" if "j < length (s_tasks s')" for j
    using tinvD(3) [OF s, of j] that by (simp add: task_good_def Let_def M(1,2,3,5,6))
  show "comp_good {t} (if th_pc th = Entering \<and> thread_inst t s = k then 1 else 0) s' k" if "k < length (s_comps s')" for k
    using takeoff_comp [OF tinvD(4) [OF s] m p] that by (simp add: M(3))
  show "u < length (s_threads s')" if "u \<in> {t}" for u
    using that m(2) by (simp add: M(1))
  show "placed s' u" if "u < length (s_threads s')" "u \<notin> {t}" for u
    using tinvD(6) [OF s, of u] that by (simp add: placed_def M(1,2,3,4,8))
  show "ended_ok {t} s' u" if "u < length (s_threads s')" "u \<notin> {t}" "th_pc (thr s' u) = Finished" for u
  proof -
    have "ended_ok {} s u" using tinvD(7) [OF s, of u] that by (simp add: M(1,4))
    then show ?thesis using p unfolding ended_ok_def by (auto simp: M(1,2,5,9))
  qed
  show "u = v" if "u < length (s_threads s')" "v < length (s_threads s')" "\<not> th_explicit (thr s' u)" "\<not> th_explicit (thr s' v)"
    "th_task (thr s' u) = th_task (thr s' v)" for u v
    using tinvD(8) [OF s, of u v] that by (simp add: M(1,5,6))
qed

lemma land_comp:
  assumes c: "comp_good {t} (if th_pc th = Entering \<and> thread_inst t s = k then 1 else 0) s k"
    and m: "moved t th s s'" "t < length (s_threads s)" "same_role (thr s t) th"
    and e: "ci_exclusive (s_comps s ! k) = Some t \<Longrightarrow> in_wasm (th_pc th) \<or> th_pc th = Failed"
  shows "comp_good {} 0 s' k"
proof -
  note M = moved_simps [OF m]
  have g: "gated s' {} k = gated s {t} k \<union> (if th_pc th = Entering \<and> thread_inst t s = k then {t} else {})"
    using m(2) by (auto simp: gated_def M(1,4,8))
  moreover have "t \<notin> gated s {t} k" by (simp add: gated_def)
  ultimately have n: "int (card (gated s' {} k)) = int (card (gated s {t} k)) + (if th_pc th = Entering \<and> thread_inst t s = k then 1 else 0)"
    by simp
  have "in_wasm (th_pc (thr s' u)) \<or> th_pc (thr s' u) = Failed" if "ci_exclusive (s_comps s ! k) = Some u" for u
    using c e that by (cases "u = t") (simp_all add: comp_good_def Let_def M(4))
  then show ?thesis
    using c n unfolding comp_good_def Let_def by (simp add: M(1,2,3,5,6,7,8))
qed

lemma land:
  assumes s: "tinv {t} (\<lambda>k. if th_pc th = Entering \<and> thread_inst t s = k then 1 else 0) s"
    and m: "moved t th s s'" "same_role (thr s t) th" and l: "lists_ok s'"
    and place: "at_place (task_of s t) th" "in_task (task_of s t) t th"
    and holds: "in_wasm (th_pc th) \<and> \<not> th_explicit (thr s t) \<and> claims_slot (task_of s t) \<Longrightarrow>
      ci_exclusive (s_comps s ! thread_inst t s) = Some t"
    and gone: "\<And>k. k < length (s_comps s) \<Longrightarrow> ci_exclusive (s_comps s ! k) = Some t \<Longrightarrow> in_wasm (th_pc th) \<or> th_pc th = Failed"
    and ended: "th_pc th = Failed \<or> tk_state (task_of s t) = T_resolved \<or> tk_threads (task_of s t) \<noteq> [] \<or>
      tk_state (task_of s t) = T_initial \<and> \<not> th_explicit (thr s t) \<and> th_pc th = Entering"
  shows "tinv {} (\<lambda>_. 0) s'"
proof (rule tinvI)
  have t: "t < length (s_threads s)" using tinvD(5) [OF s] by simp
  note M = moved_simps [OF m(1) t m(2)]
  show "lists_ok s'" by (rule l)
  show "th_task (thr s' u) < length (s_tasks s')" if "u < length (s_threads s')" for u
    using tinvD(2) [OF s] that by (simp add: M(1,2,5))
  show "task_good s' j" if "j < length (s_tasks s')" for j
    using tinvD(3) [OF s, of j] that by (simp add: task_good_def Let_def M(1,2,3,5,6))
  show "comp_good {} 0 s' k" if "k < length (s_comps s')" for k
    using land_comp [OF tinvD(4) [OF s] m(1) t m(2)] that gone by (simp add: M(3))
  show "u < length (s_threads s')" if "u \<in> {}" for u using that by simp
  show "placed s' u" if "u < length (s_threads s')" "u \<notin> {}" for u
  proof (cases "u = t")
    case True
    then show ?thesis using place holds m(2) by (simp add: placed_def M(2,3,4,8)) (simp add: same_role_def)
  next
    case False
    then show ?thesis using tinvD(6) [OF s, of u] that by (simp add: placed_def M(1,2,3,4,8))
  qed
  show "ended_ok {} s' u" if u: "u < length (s_threads s')" "u \<notin> {}" "th_pc (thr s' u) = Finished" for u
  proof (cases "th_task (thr s u) = th_task (thr s t)")
    case True
    show ?thesis
    proof (cases "th_pc th = Failed \<or> tk_state (task_of s t) = T_resolved \<or> tk_threads (task_of s t) \<noteq> []")
      case E: True
      then show ?thesis using t True unfolding ended_ok_def by (auto simp: M(1,2,5,9))
    next
      case E: False
      then have "u \<noteq> t" using u(3) ended by (auto simp: M(4))
      then have "placed s u" "th_pc (thr s u) = Finished" using tinvD(6) [OF s, of u] u by (simp_all add: M(1,4))
      then have "tk_state (task_of s u) \<noteq> T_initial" by (simp add: placed_def in_task_def)
      then show ?thesis using True E ended by simp
    qed
  next
    case False
    then have "u \<noteq> t" by auto
    then have "ended_ok {t} s u" using tinvD(7) [OF s, of u] u by (simp add: M(1,4))
    then show ?thesis using False unfolding ended_ok_def by (simp add: M(1,2,5,9)) metis
  qed
  show "u = v" if "u < length (s_threads s')" "v < length (s_threads s')" "\<not> th_explicit (thr s' u)" "\<not> th_explicit (thr s' v)"
    "th_task (thr s' u) = th_task (thr s' v)" for u v
    using tinvD(8) [OF s, of u v] that by (simp add: M(1,5,6))
qed

section \<open>Updates between the stops\<close>

lemma tinv_lists:
  assumes "tinv F d s" "lists_ok s'" "s_tasks s' = s_tasks s" "s_threads s' = s_threads s" "s_comps s' = s_comps s"
  shows "tinv F d s'"
  using assms(1,2) unfolding tinv_def
  by (simp add: assms(3-5) task_good_def comp_good_def gated_def placed_def ended_ok_def thread_inst_def)

text \<open>A task changes its state or its implicit thread.\<close>

definition same_kind :: "task \<Rightarrow> task \<Rightarrow> bool" where
  "same_kind tk tk' \<longleftrightarrow> tk_inst tk' = tk_inst tk \<and> tk_ft_async tk' = tk_ft_async tk \<and> tk_async tk' = tk_async tk \<and>
     tk_callback tk' = tk_callback tk"

lemma same_kindD:
  assumes "same_kind tk tk'"
  shows "tk_inst tk' = tk_inst tk" "claims_slot tk' = claims_slot tk" "at_place tk' th = at_place tk th"
proof -
  show "tk_inst tk' = tk_inst tk" and c: "claims_slot tk' = claims_slot tk"
    using assms by (simp_all add: same_kind_def claims_slot_def needsExclusive_def)
  show "at_place tk' th = at_place tk th"
    using assms c by (cases "th_pc th") (simp_all add: at_place_def same_kind_def)
qed

definition new_task :: "nat \<Rightarrow> task \<Rightarrow> task_store \<Rightarrow> task_store" where
  "new_task j tk s = s\<lparr>s_tasks := (s_tasks s)[j := tk]\<rparr>"

lemma new_task_simps:
  assumes "j < length (s_tasks s)" "same_kind (s_tasks s ! j) tk"
  shows "s_threads (new_task j tk s) = s_threads s" "s_comps (new_task j tk s) = s_comps s"
    "length (s_tasks (new_task j tk s)) = length (s_tasks s)"
    "s_tasks (new_task j tk s) ! i = (if i = j then tk else s_tasks s ! i)"
    "tk_inst (s_tasks (new_task j tk s) ! i) = tk_inst (s_tasks s ! i)"
    "claims_slot (s_tasks (new_task j tk s) ! i) = claims_slot (s_tasks s ! i)"
    "at_place (s_tasks (new_task j tk s) ! i) th = at_place (s_tasks s ! i) th"
    "thread_inst u (new_task j tk s) = thread_inst u s"
proof -
  have i: "s_tasks (new_task j tk s) ! i = (if i = j then tk else s_tasks s ! i)" for i
    using assms(1) by (simp add: new_task_def nth_list_update)
  have threads: "s_threads (new_task j tk s) = s_threads s" by (simp add: new_task_def)
  show "s_threads (new_task j tk s) = s_threads s" "s_comps (new_task j tk s) = s_comps s"
    "length (s_tasks (new_task j tk s)) = length (s_tasks s)"
    "s_tasks (new_task j tk s) ! i = (if i = j then tk else s_tasks s ! i)"
    using i by (simp_all add: new_task_def)
  show inst: "tk_inst (s_tasks (new_task j tk s) ! i) = tk_inst (s_tasks s ! i)"
    and "claims_slot (s_tasks (new_task j tk s) ! i) = claims_slot (s_tasks s ! i)"
    and "at_place (s_tasks (new_task j tk s) ! i) th = at_place (s_tasks s ! i) th" for i
    using same_kindD [OF assms(2)] by (cases "i = j"; simp add: i)+
  show "thread_inst u (new_task j tk s) = thread_inst u s"
    using inst [of "th_task (thr s u)"] by (simp add: thread_inst_def threads)
qed

lemma lists_ok_same:
  assumes "lists_ok s" "s_threads s' = s_threads s" "s_waiting s' = s_waiting s" "s_stack s' = s_stack s"
    "s_awaiting s' = s_awaiting s" "s_claims s' = s_claims s" "s_settled s' = s_settled s"
  shows "lists_ok s'"
  using assms(1) unfolding lists_ok_def assms(2-) .

lemma tinv_new_task:
  assumes s: "tinv F d s" and j: "j < length (s_tasks s)" and k: "same_kind (s_tasks s ! j) tk"
    and threads: "tk_threads tk = tk_threads (s_tasks s ! j)"
    and others: "\<And>u. u < length (s_threads s) \<Longrightarrow> u \<notin> F \<Longrightarrow> th_task (thr s u) = j \<Longrightarrow> in_task tk u (thr s u)"
    and resolved: "tk_state (s_tasks s ! j) = T_resolved \<Longrightarrow> tk_state tk = T_resolved"
    and implicit: "\<And>t. tk_implicit tk = Some t \<Longrightarrow> t < length (s_threads s) \<and> th_task (thr s t) = j \<and> \<not> th_explicit (thr s t)"
  shows "tinv F d (new_task j tk s)"
proof (rule tinvI)
  let ?s = "new_task j tk s"
  note N = new_task_simps [OF j k]
  show "lists_ok ?s" by (rule lists_ok_same [OF tinvD(1) [OF s]]) (simp_all add: new_task_def)
  show "th_task (thr ?s t) < length (s_tasks ?s)" if "t < length (s_threads ?s)" for t
    using tinvD(2) [OF s, of t] that by (simp add: N)
  show "task_good ?s i" if "i < length (s_tasks ?s)" for i
    using tinvD(3) [OF s, of i] that threads implicit k
    by (cases "i = j") (simp_all add: task_good_def Let_def N same_kind_def)
  show "comp_good F (d c) ?s c" if "c < length (s_comps ?s)" for c
    using tinvD(4) [OF s, of c] that by (simp add: comp_good_def gated_def Let_def N(1,2,6,8))
  show "t < length (s_threads ?s)" if "t \<in> F" for t
    using tinvD(5) [OF s] that by (simp add: N)
  show "placed ?s t" if t: "t < length (s_threads ?s)" "t \<notin> F" for t
  proof -
    have "placed s t" using tinvD(6) [OF s, of t] t by (simp add: N)
    moreover have "in_task (task_of ?s t) t (thr ?s t)"
      using others [of t] t calculation by (cases "th_task (thr s t) = j") (simp_all add: placed_def N(1,2,3,4))
    ultimately show ?thesis using t by (simp add: placed_def N(1,2,6,7,8))
  qed
  show "ended_ok F ?s t" if t: "t < length (s_threads ?s)" "t \<notin> F" "th_pc (thr ?s t) = Finished" for t
    using tinvD(7) [OF s, of t] t threads resolved by (auto simp: ended_ok_def N)
  show "t = u" if "t < length (s_threads ?s)" "u < length (s_threads ?s)" "\<not> th_explicit (thr ?s t)"
    "\<not> th_explicit (thr ?s u)" "th_task (thr ?s t) = th_task (thr ?s u)" for t u
    using tinvD(8) [OF s, of t u] that by (simp add: N)
qed

text \<open>The transitions of a task's state: none leaves the initial state while the implicit
  thread still stands at the gate.\<close>

lemma tinv_state:
  assumes s: "tinv F d s" and j: "j < length (s_tasks s)" and st: "st \<noteq> T_initial"
    and old: "tk_state (s_tasks s ! j) = T_initial \<Longrightarrow> \<exists>t\<in>F. \<not> th_explicit (thr s t) \<and> th_task (thr s t) = j"
    and resolved: "tk_state (s_tasks s ! j) = T_resolved \<Longrightarrow> st = T_resolved"
  shows "tinv F d (new_task j ((s_tasks s ! j)\<lparr>tk_state := st\<rparr>) s)"
proof (rule tinv_new_task [OF s j])
  show "in_task ((s_tasks s ! j)\<lparr>tk_state := st\<rparr>) u (thr s u)"
    if u: "u < length (s_threads s)" "u \<notin> F" "th_task (thr s u) = j" for u
  proof -
    have "placed s u" by (rule tinvD(6) [OF s u(1,2)])
    moreover have "\<not> (\<not> th_explicit (thr s u) \<and> th_pc (thr s u) \<in> {NotStarted, Entering})"
    proof
      assume A: "\<not> th_explicit (thr s u) \<and> th_pc (thr s u) \<in> {NotStarted, Entering}"
      with \<open>placed s u\<close> u(3) have "tk_state (s_tasks s ! j) = T_initial" by (auto simp: placed_def in_task_def)
      from old [OF this] obtain t where t: "t \<in> F" "\<not> th_explicit (thr s t)" "th_task (thr s t) = j" by blast
      have "t = u" by (rule tinvD(8) [OF s tinvD(5) [OF s t(1)] u(1)]) (use t u A in simp_all)
      then show False using t(1) u(2) by simp
    qed
    ultimately show ?thesis using u(3) st by (simp add: placed_def in_task_def)
  qed
  show "t < length (s_threads s) \<and> th_task (thr s t) = j \<and> \<not> th_explicit (thr s t)"
    if "tk_implicit ((s_tasks s ! j)\<lparr>tk_state := st\<rparr>) = Some t" for t
    using tinvD(3) [OF s j] that by (simp add: task_good_def Let_def)
qed (use resolved in \<open>simp_all add: same_kind_def\<close>)

lemma tinv_implicit:
  assumes s: "tinv F d s" and t: "t \<in> F" "\<not> th_explicit (thr s t)" "th_task (thr s t) = j"
  shows "tinv F d (new_task j ((s_tasks s ! j)\<lparr>tk_implicit := Some t\<rparr>) s)"
proof (rule tinv_new_task [OF s])
  have n: "t < length (s_threads s)" by (rule tinvD(5) [OF s t(1)])
  show "j < length (s_tasks s)" using tinvD(2) [OF s n] t(3) by simp
  show "in_task ((s_tasks s ! j)\<lparr>tk_implicit := Some t\<rparr>) u (thr s u)"
    if u: "u < length (s_threads s)" "u \<notin> F" "th_task (thr s u) = j" for u
  proof -
    have "t = u" if "\<not> th_explicit (thr s u)" using tinvD(8) [OF s n u(1)] t u(3) that by simp
    then have "th_explicit (thr s u)" using t(1) u(2) by blast
    then show ?thesis using tinvD(6) [OF s u(1,2)] u(3) by (simp add: placed_def in_task_def)
  qed
qed (use t tinvD(5) [OF s t(1)] in \<open>simp_all add: same_kind_def\<close>)

text \<open>An instance changes its slot, its counters.\<close>

definition new_comp :: "nat \<Rightarrow> comp \<Rightarrow> task_store \<Rightarrow> task_store" where
  "new_comp k c s = s\<lparr>s_comps := (s_comps s)[k := c]\<rparr>"

lemma new_comp_simps:
  "s_threads (new_comp k c s) = s_threads s" "s_tasks (new_comp k c s) = s_tasks s"
  "length (s_comps (new_comp k c s)) = length (s_comps s)"
  "k < length (s_comps s) \<Longrightarrow> s_comps (new_comp k c s) ! i = (if i = k then c else s_comps s ! i)"
  "thread_inst u (new_comp k c s) = thread_inst u s"
  by (simp_all add: new_comp_def thread_inst_def nth_list_update)

lemma tinv_new_comp:
  assumes s: "tinv F d s" and k: "k < length (s_comps s)" and c: "comp_good F d' (new_comp k c s) k"
    and d: "\<And>i. i \<noteq> k \<Longrightarrow> e i = d i" "e k = d'"
    and others: "\<And>u. u < length (s_threads s) \<Longrightarrow> u \<notin> F \<Longrightarrow> in_wasm (th_pc (thr s u)) \<Longrightarrow> thread_inst u s = k \<Longrightarrow>
      \<not> th_explicit (thr s u) \<Longrightarrow> claims_slot (task_of s u) \<Longrightarrow> ci_exclusive c = Some u"
  shows "tinv F e (new_comp k c s)"
proof (rule tinvI)
  let ?s = "new_comp k c s"
  note N = new_comp_simps(1,2,3,5) new_comp_simps(4) [OF k]
  show "lists_ok ?s" by (rule lists_ok_same [OF tinvD(1) [OF s]]) (simp_all add: new_comp_def)
  show "th_task (thr ?s t) < length (s_tasks ?s)" if "t < length (s_threads ?s)" for t
    using tinvD(2) [OF s, of t] that by (simp add: N)
  show "task_good ?s i" if "i < length (s_tasks ?s)" for i
    using tinvD(3) [OF s, of i] that by (simp add: task_good_def Let_def N)
  show "comp_good F (e i) ?s i" if "i < length (s_comps ?s)" for i
  proof (cases "i = k")
    case False
    then show ?thesis using tinvD(4) [OF s, of i] that d(1) [of i] by (simp add: comp_good_def gated_def Let_def N)
  qed (use c d(2) in simp)
  show "t < length (s_threads ?s)" if "t \<in> F" for t
    using tinvD(5) [OF s] that by (simp add: N)
  show "placed ?s t" if t: "t < length (s_threads ?s)" "t \<notin> F" for t
  proof -
    have "placed s t" using tinvD(6) [OF s, of t] t by (simp add: N)
    then show ?thesis using others [of t] t unfolding placed_def by (auto simp: N)
  qed
  show "ended_ok F ?s t" if t: "t < length (s_threads ?s)" "t \<notin> F" "th_pc (thr ?s t) = Finished" for t
    using tinvD(7) [OF s, of t] t by (simp add: ended_ok_def N)
  show "t = u" if "t < length (s_threads ?s)" "u < length (s_threads ?s)" "\<not> th_explicit (thr ?s t)"
    "\<not> th_explicit (thr ?s u)" "th_task (thr ?s t) = th_task (thr ?s u)" for t u
    using tinvD(8) [OF s, of t u] that by (simp add: N)
qed

lemma tinv_slot:
  assumes s: "tinv {t} d s" and k: "k < length (s_comps s)" "thread_inst t s = k"
    and own: "\<not> th_explicit (thr s t)" "claims_slot (task_of s t)"
    and old: "ci_exclusive (s_comps s ! k) = None \<or> ci_exclusive (s_comps s ! k) = Some t" and x: "x = None \<or> x = Some t"
  shows "tinv {t} d (new_comp k ((s_comps s ! k)\<lparr>ci_exclusive := x\<rparr>) s)"
proof (rule tinv_new_comp [OF s k(1), where d' = "d k"])
  show "comp_good {t} (d k) (new_comp k ((s_comps s ! k)\<lparr>ci_exclusive := x\<rparr>) s) k"
    using tinvD(4) [OF s k(1)] tinvD(5) [OF s] k own x
    by (auto simp: comp_good_def gated_def Let_def new_comp_simps)
  show "ci_exclusive ((s_comps s ! k)\<lparr>ci_exclusive := x\<rparr>) = Some u"
    if "u < length (s_threads s)" "u \<notin> {t}" "in_wasm (th_pc (thr s u))" "thread_inst u s = k" "\<not> th_explicit (thr s u)"
      "claims_slot (task_of s u)" for u
    using tinvD(6) [OF s that(1,2)] that old by (auto simp: placed_def)
qed auto

lemma tinv_gate:
  assumes s: "tinv F d s" and k: "k < length (s_comps s)" and e: "\<And>i. i \<noteq> k \<Longrightarrow> e i = d i" "e k = d k + n"
  shows "tinv F e (new_comp k ((s_comps s ! k)\<lparr>ci_entering := ci_entering (s_comps s ! k) + n\<rparr>) s)"
proof (rule tinv_new_comp [OF s k, where d' = "d k + n"])
  show "comp_good F (d k + n) (new_comp k ((s_comps s ! k)\<lparr>ci_entering := ci_entering (s_comps s ! k) + n\<rparr>) s) k"
    using tinvD(4) [OF s k] k by (simp add: comp_good_def gated_def Let_def new_comp_simps)
  show "ci_exclusive ((s_comps s ! k)\<lparr>ci_entering := ci_entering (s_comps s ! k) + n\<rparr>) = Some u"
    if "u < length (s_threads s)" "u \<notin> F" "in_wasm (th_pc (thr s u))" "thread_inst u s = k" "\<not> th_explicit (thr s u)"
      "claims_slot (task_of s u)" for u
    using tinvD(6) [OF s that(1,2)] that by (auto simp: placed_def)
qed (use e in auto)

lemma tinv_backpressure:
  assumes s: "tinv F d s" and k: "k < length (s_comps s)" and n: "- 1 \<le> n" "n \<le> 2 ^ 16"
  shows "tinv F d (new_comp k ((s_comps s ! k)\<lparr>ci_backpressure := n\<rparr>) s)"
proof (rule tinv_new_comp [OF s k, where d' = "d k"])
  show "comp_good F (d k) (new_comp k ((s_comps s ! k)\<lparr>ci_backpressure := n\<rparr>) s) k"
    using tinvD(4) [OF s k] k n by (simp add: comp_good_def gated_def Let_def new_comp_simps)
  show "ci_exclusive ((s_comps s ! k)\<lparr>ci_backpressure := n\<rparr>) = Some u"
    if "u < length (s_threads s)" "u \<notin> F" "in_wasm (th_pc (thr s u))" "thread_inst u s = k" "\<not> th_explicit (thr s u)"
      "claims_slot (task_of s u)" for u
    using tinvD(6) [OF s that(1,2)] that by (auto simp: placed_def)
qed auto

text \<open>The books of an instance and of a task: the thread's index, its table, the task's list.\<close>

definition book :: "nat \<Rightarrow> nat option \<Rightarrow> nat list \<Rightarrow> nat table \<Rightarrow> task_store \<Rightarrow> task_store" where
  "book t x L T s =
     (let j = th_task (thr s t); k = thread_inst t s in
      s\<lparr>s_threads := (s_threads s)[t := (thr s t)\<lparr>th_index := x\<rparr>],
        s_tasks := (s_tasks s)[j := (s_tasks s ! j)\<lparr>tk_threads := L\<rparr>],
        s_comps := (s_comps s)[k := (s_comps s ! k)\<lparr>ci_threads := T\<rparr>]\<rparr>)"

lemma book_lists:
  "s_waiting (book t x L T s) = s_waiting s" "s_stack (book t x L T s) = s_stack s" "s_awaiting (book t x L T s) = s_awaiting s"
  "s_claims (book t x L T s) = s_claims s" "s_settled (book t x L T s) = s_settled s"
  by (simp_all add: book_def Let_def)

lemma nth_update_keep: "f y = f (xs ! i) \<Longrightarrow> f (xs[i := y] ! k) = f (xs ! k)"
  by (cases "i < length xs") (auto simp: nth_list_update list_update_beyond)

lemma book_simps:
  assumes "t < length (s_threads s)" "th_task (thr s t) < length (s_tasks s)"
  shows "length (s_threads (book t x L T s)) = length (s_threads s)" "length (s_tasks (book t x L T s)) = length (s_tasks s)"
    "length (s_comps (book t x L T s)) = length (s_comps s)"
    "thr (book t x L T s) u = (if u = t then (thr s t)\<lparr>th_index := x\<rparr> else thr s u)"
    "s_tasks (book t x L T s) ! i = (if i = th_task (thr s t) then (s_tasks s ! i)\<lparr>tk_threads := L\<rparr> else s_tasks s ! i)"
    "thread_inst u (book t x L T s) = thread_inst u s"
    "k < length (s_comps s) \<Longrightarrow> s_comps (book t x L T s) ! k =
       (if k = thread_inst t s then (s_comps s ! k)\<lparr>ci_threads := T\<rparr> else s_comps s ! k)"
    "ci_exclusive (s_comps (book t x L T s) ! k) = ci_exclusive (s_comps s ! k)"
    "ci_entering (s_comps (book t x L T s) ! k) = ci_entering (s_comps s ! k)"
    "th_task (thr (book t x L T s) u) = th_task (thr s u)" "th_pc (thr (book t x L T s) u) = th_pc (thr s u)"
    "th_explicit (thr (book t x L T s) u) = th_explicit (thr s u)"
    "claims_slot (s_tasks (book t x L T s) ! i) = claims_slot (s_tasks s ! i)"
    "tk_inst (s_tasks (book t x L T s) ! i) = tk_inst (s_tasks s ! i)"
  using assms
  by (auto simp: book_def Let_def nth_list_update thread_inst_def claims_slot_def needsExclusive_def intro: nth_update_keep)

lemma book_comp:
  assumes c: "comp_good {t} d s k" and t: "t < length (s_threads s)" "th_task (thr s t) < length (s_tasks s)" "k < length (s_comps s)"
    and T: "k = thread_inst t s \<Longrightarrow> table_inv T"
      "\<And>i u. k = thread_inst t s \<Longrightarrow> table_entries T i = Some u \<longleftrightarrow>
         (if u = t then x = Some i else table_entries (ci_threads (s_comps s ! k)) i = Some u)"
  shows "comp_good {t} d (book t x L T s) k"
proof -
  note B = book_simps [OF t(1,2), where x = x and L = L and T = T]
  have g: "gated (book t x L T s) {t} k = gated s {t} k" by (simp add: gated_def B(1,6,11))
  have i: "th_index (thr (book t x L T s) u) = (if u = t then x else th_index (thr s u))" for u by (simp add: B(4))
  show ?thesis
  proof (cases "k = thread_inst t s")
    case True
    then have "s_comps (book t x L T s) ! k = (s_comps s ! k)\<lparr>ci_threads := T\<rparr>" using B(7) [OF t(3)] by simp
    moreover have "table_entries T i = Some u \<longleftrightarrow>
        u < length (s_threads s) \<and> (if u = t then x else th_index (thr s u)) = Some i \<and> thread_inst u s = k" for i u
      using T(2) [OF True, of i u] c t True by (cases "u = t") (auto simp: comp_good_def Let_def)
    ultimately show ?thesis
      using c T(1) [OF True] by (simp add: comp_good_def Let_def g i B(1,6,10,11,12,13))
  next
    case False
    then have "s_comps (book t x L T s) ! k = s_comps s ! k" using B(7) [OF t(3)] by simp
    moreover have "(if u = t then x else th_index (thr s u)) = Some i \<and> thread_inst u s = k \<longleftrightarrow>
        th_index (thr s u) = Some i \<and> thread_inst u s = k" for i u
      using False by auto
    ultimately show ?thesis
      using c by (simp add: comp_good_def Let_def g i B(1,6,10,11,12,13))
  qed
qed

lemma with_threads:
  "at_place (tk\<lparr>tk_threads := L\<rparr>) th = at_place tk th" "claims_slot (tk\<lparr>tk_threads := L\<rparr>) = claims_slot tk"
  "(u \<in> set L) = (u \<in> set (tk_threads tk)) \<Longrightarrow> in_task (tk\<lparr>tk_threads := L\<rparr>) u th = in_task tk u th"
  using same_kindD [of tk "tk\<lparr>tk_threads := L\<rparr>"] by (simp_all add: same_kind_def in_task_def)

lemma tinv_book:
  assumes s: "tinv {t} d s"
    and T: "table_inv T" "\<And>i u. table_entries T i = Some u \<longleftrightarrow>
         (if u = t then x = Some i else table_entries (ci_threads (s_comps s ! thread_inst t s)) i = Some u)"
    and L: "distinct L" "\<And>u. u \<noteq> t \<Longrightarrow> u \<in> set L \<longleftrightarrow> u \<in> set (tk_threads (task_of s t))"
  shows "tinv {t} d (book t x L T s)"
proof (rule tinvI)
  let ?s = "book t x L T s"
  have t: "t < length (s_threads s)" using tinvD(5) [OF s] by simp
  have j: "th_task (thr s t) < length (s_tasks s)" by (rule tinvD(2) [OF s t])
  note B = book_simps [OF t j, where x = x and L = L and T = T]
  show "lists_ok ?s"
  proof -
    have same: "th_state (thr ?s u) = th_state (thr s u)" "th_awaiting (thr ?s u) = th_awaiting (thr s u)" for u
      by (simp_all add: B(4))
    show ?thesis
      using tinvD(1) [OF s] unfolding lists_ok_def B(1) same book_lists .
  qed
  show "th_task (thr ?s u) < length (s_tasks ?s)" if "u < length (s_threads ?s)" for u
    using tinvD(2) [OF s, of u] that by (simp add: B(1,2,10))
  show "task_good ?s i" if "i < length (s_tasks ?s)" for i
  proof -
    have g: "task_good s i" using tinvD(3) [OF s, of i] that by (simp add: B)
    show ?thesis
    proof (cases "i = th_task (thr s t)")
      case True
      have "u < length (s_threads s) \<and> th_task (thr s u) = i" if "u \<in> set L" for u
      proof (cases "u = t")
        case False
        then have "u \<in> set (tk_threads (s_tasks s ! i))" using L(2) that True by simp
        then show ?thesis using g by (simp add: task_good_def Let_def)
      qed (use t True in simp)
      moreover have "s_tasks ?s ! i = (s_tasks s ! i)\<lparr>tk_threads := L\<rparr>" using True by (simp add: B(5))
      ultimately show ?thesis using g L(1) unfolding task_good_def Let_def B(1,3,10,12) by simp
    next
      case False
      then have "s_tasks ?s ! i = s_tasks s ! i" by (simp add: B(5))
      then show ?thesis using g unfolding task_good_def Let_def B(1,3,10,12) by simp
    qed
  qed
  show "comp_good {t} (d k) ?s k" if "k < length (s_comps ?s)" for k
    using book_comp [OF tinvD(4) [OF s] t j _ T(1)] T(2) that by (simp add: B)
  show "u < length (s_threads ?s)" if "u \<in> {t}" for u using that t by (simp add: B)
  show "placed ?s u" if u: "u < length (s_threads ?s)" "u \<notin> {t}" for u
  proof -
    have "placed s u" using tinvD(6) [OF s, of u] u by (simp add: B)
    then show ?thesis
      using u(2) L(2) [of u] by (cases "th_task (thr s u) = th_task (thr s t)") (simp_all add: placed_def B(4,5,6,8) with_threads)
  qed
  show "ended_ok {t} ?s u" if u: "u < length (s_threads ?s)" "u \<notin> {t}" "th_pc (thr ?s u) = Finished" for u
  proof -
    have "ended_ok {t} s u" using tinvD(7) [OF s, of u] u by (simp add: B(1,11))
    then show ?thesis using t unfolding ended_ok_def by (auto simp: B(1,5,10,11))
  qed
  show "u = v" if "u < length (s_threads ?s)" "v < length (s_threads ?s)" "\<not> th_explicit (thr ?s u)"
    "\<not> th_explicit (thr ?s v)" "th_task (thr ?s u) = th_task (thr ?s v)" for u v
    using tinvD(8) [OF s, of u v] that by (simp add: B(1,10,12))
qed

end
