(* ===== verification/Task_Flight.thy ===== *)
theory Task_Flight
  imports Task_Inv
begin

text \<open>
  What each operation of a task does to the invariant while the task's thread is between two
  stops: the books, the gate, the slot, the transitions of the task's state.
\<close>

section \<open>Elementary operations\<close>

lemma wp_threads_of [wps]:
  "wp (threads_of k a) Q E s =
     wp a (\<lambda>x T. Q x (s\<lparr>s_comps := (s_comps s)[k := (s_comps s ! k)\<lparr>ci_threads := T\<rparr>]\<rparr>))
       (\<lambda>T. E (s\<lparr>s_comps := (s_comps s)[k := (s_comps s ! k)\<lparr>ci_threads := T\<rparr>]\<rparr>)) (ci_threads (s_comps s ! k))"
  by (simp add: threads_of_def wp_def zoom_run split: prod.split sum.split)

lemma wp_state [wps]:
  "wp (task_at j) Q E s = Q (s_tasks s ! j) s" "wp (thread_at t) P E s = P (s_threads s ! t) s" "wp (comp_at k) R E s = R (s_comps s ! k) s"
  "wp (upd_task j f) S E s = S () (new_task j (f (s_tasks s ! j)) s)"
  "wp (upd_comp k g) S E s = S () (new_comp k (g (s_comps s ! k)) s)"
  "wp (upd_thread t h) S E s = S () (put_thread t (h (s_threads s ! t)) s)"
  by (simp_all add: task_at_def thread_at_def comp_at_def upd_task_def upd_comp_def upd_thread_def new_task_def new_comp_def
      put_thread_def wp_basic)

text \<open>\<open>book\<close> with nothing but the task's list changed.\<close>

lemma book_list:
  "book t (th_index (thr s t)) L (ci_threads (s_comps s ! thread_inst t s)) s =
     new_task (th_task (thr s t)) ((task_of s t)\<lparr>tk_threads := L\<rparr>) s"
  by (simp add: book_def Let_def new_task_def)

lemma book_run:
  assumes "th_task (thr s t) = j"
  shows "put_thread t ((thr s t)\<lparr>th_index := x\<rparr>) (new_task j ((s_tasks s ! j)\<lparr>tk_threads := L\<rparr>) s
      \<lparr>s_comps := (s_comps s)[tk_inst (s_tasks s ! j) := (s_comps s ! tk_inst (s_tasks s ! j))\<lparr>ci_threads := T\<rparr>]\<rparr>) = book t x L T s"
    "th_index (thr s t) = x \<Longrightarrow> new_task j ((s_tasks s ! j)\<lparr>tk_threads := L\<rparr>) s
      \<lparr>s_comps := (s_comps s)[tk_inst (s_tasks s ! j) := (s_comps s ! tk_inst (s_tasks s ! j))\<lparr>ci_threads := T\<rparr>]\<rparr> = book t x L T s"
  using assms by (auto simp: put_thread_def new_task_def book_def Let_def thread_inst_def)

lemma book_index:
  "t < length (s_threads s) \<Longrightarrow>
   put_thread t ((thr (book t y L T s) t)\<lparr>th_index := x\<rparr>) (book t y L T s) = book t x L T s"
  by (simp add: put_thread_def book_def Let_def)

lemma put_fields [simp]:
  "s_threads (put_thread t th s) = (s_threads s)[t := th]" "s_tasks (put_thread t th s) = s_tasks s"
  "s_comps (put_thread t th s) = s_comps s" "s_threads (new_task j tk s) = s_threads s" "s_comps (new_task j tk s) = s_comps s"
  "s_tasks (new_task j tk s) = (s_tasks s)[j := tk]" "s_threads (new_comp k c s) = s_threads s"
  "s_tasks (new_comp k c s) = s_tasks s" "s_comps (new_comp k c s) = (s_comps s)[k := c]"
  by (simp_all add: put_thread_def new_task_def new_comp_def)

lemma wp_table_add:
  assumes "table_inv T" "\<And>i U. table_entries T i = None \<Longrightarrow> table_inv U \<Longrightarrow> table_entries U = (table_entries T)(i \<mapsto> e) \<Longrightarrow> Q i U" "E T"
  shows "wp (table_add e) Q E T"
  using ht.insert_ok [OF assms(1), of e] ht.insert_full [OF assms(1), of e] assms(2,3) by (intro wpI) blast+

lemma wp_table_remove:
  assumes "table_inv T" "table_entries T i = Some e" "\<And>U. table_inv U \<Longrightarrow> table_entries U = (table_entries T)(i := None) \<Longrightarrow> Q e U"
  shows "wp (table_remove (int i)) Q E T"
  using ht.delete_hit [OF assms(1,2)] assms(3) by (auto simp: wp_def)

lemma tinv_comp:
  assumes "tinv F d s" "t < length (s_threads s)"
  shows "thread_inst t s < length (s_comps s)" "comp_good F (d (thread_inst t s)) s (thread_inst t s)"
    "th_task (thr s t) < length (s_tasks s)" "task_good s (th_task (thr s t))"
proof -
  show j: "th_task (thr s t) < length (s_tasks s)" and g: "task_good s (th_task (thr s t))"
    using tinvD(2) [OF assms] tinvD(3) [OF assms(1)] by blast+
  show k: "thread_inst t s < length (s_comps s)" unfolding thread_inst_def by (rule task_goodD(1) [OF g])
  show "comp_good F (d (thread_inst t s)) s (thread_inst t s)" by (rule tinvD(4) [OF assms(1) k])
qed

lemma wp_register:
  assumes s: "tinv {t} d s" and t: "th_task (thr s t) = j" "th_index (thr s t) = None" "t \<notin> set (tk_threads (task_of s t))"
  shows "wp (registerThread j t) (\<lambda>_ u. tinv {t} d u \<and> (\<exists>i T. u = book t (Some i) (tk_threads (task_of s t) @ [t]) T s))
     (\<lambda>u. tinv {t} d u \<and> (\<exists>T. u = book t None (tk_threads (task_of s t) @ [t]) T s)) s"
proof -
  let ?L = "tk_threads (task_of s t) @ [t]" and ?k = "thread_inst t s"
  have n: "t < length (s_threads s)" using tinvD(5) [OF s] by simp
  note C = tinv_comp [OF s n]
  have T: "table_inv (ci_threads (s_comps s ! ?k))" "table_entries (ci_threads (s_comps s ! ?k)) i \<noteq> Some t" for i
    using comp_goodD(4,5) [OF C(2)] t(2) by simp_all
  have L: "distinct ?L" "\<And>u. u \<noteq> t \<Longrightarrow> u \<in> set ?L \<longleftrightarrow> u \<in> set (tk_threads (task_of s t))"
    using task_goodD(2) [OF C(4)] t(3) by simp_all
  have add: "wp (table_add t) (\<lambda>i U. tinv {t} d (book t (Some i) ?L U s) \<and> (\<exists>i' T. book t (Some i) ?L U s = book t (Some i') ?L T s))
      (\<lambda>U. tinv {t} d (book t None ?L U s) \<and> (\<exists>T. book t None ?L U s = book t None ?L T s)) (ci_threads (s_comps s ! ?k))"
  proof (rule wp_table_add [OF T(1)])
    show "tinv {t} d (book t None ?L (ci_threads (s_comps s ! ?k)) s) \<and>
        (\<exists>T. book t None ?L (ci_threads (s_comps s ! ?k)) s = book t None ?L T s)"
    proof
      show "tinv {t} d (book t None ?L (ci_threads (s_comps s ! ?k)) s)"
        by (rule tinv_book [OF s T(1) _ L]) (use T(2) in auto)
    qed blast
    show "tinv {t} d (book t (Some i) ?L U s) \<and> (\<exists>i' T. book t (Some i) ?L U s = book t (Some i') ?L T s)"
      if "table_entries (ci_threads (s_comps s ! ?k)) i = None" "table_inv U"
        "table_entries U = (table_entries (ci_threads (s_comps s ! ?k)))(i \<mapsto> t)" for i U
    proof
      show "tinv {t} d (book t (Some i) ?L U s)" by (rule tinv_book [OF s that(2) _ L]) (use that T(2) in auto)
    qed blast
  qed
  show ?thesis
    unfolding registerThread_def wps using t n C(3) add [unfolded thread_inst_def t(1)]
    by (simp add: book_run [OF t(1)] book_index)
qed

text \<open>\<open>unregisterThread\<close> succeeds only if the task keeps another thread or has resolved.\<close>

lemma wp_unregister:
  assumes s: "tinv {t} d s" and t: "th_task (thr s t) = j"
  shows "wp (unregisterThread j t)
     (\<lambda>_ u. tinv {t} d u \<and> (tk_threads (task_of u t) = [] \<longrightarrow> tk_state (task_of s t) = T_resolved) \<and>
        (\<exists>L T. u = book t None L T s \<and> t \<notin> set L)) (tinv {t} d) s"
proof -
  let ?L = "remove1 t (tk_threads (task_of s t))" and ?k = "thread_inst t s"
  let ?T = "ci_threads (s_comps s ! ?k)"
  have n: "t < length (s_threads s)" using tinvD(5) [OF s] by simp
  note C = tinv_comp [OF s n]
  have T: "table_inv ?T" "table_entries ?T i = Some t \<longleftrightarrow> th_index (thr s t) = Some i" for i
    using comp_goodD(4,5) [OF C(2)] n by simp_all
  have L: "distinct ?L" "t \<notin> set ?L" "\<And>u. u \<noteq> t \<Longrightarrow> u \<in> set ?L \<longleftrightarrow> u \<in> set (tk_threads (task_of s t))"
    using task_goodD(2) [OF C(4)] by simp_all
  have list: "tinv {t} d (book t (th_index (thr s t)) ?L ?T s)"
    by (rule tinv_book [OF s T(1) _ L(1,3)]) (use T(2) in \<open>auto simp: eq_commute\<close>)
  have remove: "wp (table_remove (int i)) (\<lambda>_. P) E ?T"
    if i: "th_index (thr s t) = Some i" and P: "\<And>U. tinv {t} d (book t None ?L U s) \<Longrightarrow> P U" for i P E
  proof (rule wp_table_remove [OF T(1)])
    show Ti: "table_entries ?T i = Some t" using T(2) i by simp
    show "P U" if U: "table_inv U" "table_entries U = (table_entries ?T)(i := None)" for U
    proof (rule P, rule tinv_book [OF s U(1) _ L(1,3)])
      show "table_entries U k = Some u \<longleftrightarrow> (if u = t then None = Some k else table_entries ?T k = Some u)" for k u
        using Ti T(2) [of k] i by (cases "k = i") (auto simp: U(2))
    qed
  qed
  have B: "task_of (book t None ?L U s) t = (task_of s t)\<lparr>tk_threads := ?L\<rparr>" for U
    using book_simps(4,5) [OF n C(3)] by simp
  have tasks: "tinv {t} d (new_task j ((s_tasks s ! j)\<lparr>tk_threads := remove1 t (tk_threads (s_tasks s ! j))\<rparr>) s)"
    using list unfolding book_list t .
  show ?thesis
  proof (cases "th_index (thr s t)")
    case None
    then show ?thesis using s tasks C(3) t by (auto simp: unregisterThread_def wps)
  next
    case (Some i)
    have "wp (table_remove (int i)) (\<lambda>_ U. tinv {t} d (book t None ?L U s) \<and> (\<exists>L T. book t None ?L U s = book t None L T s \<and> t \<notin> set L)) E ?T"
      for E by (rule remove [OF Some]) (use L(2) in blast)
    then show ?thesis using s tasks C(3) t n Some L(2) B
      by (auto simp: unregisterThread_def wps book_run [OF t] book_index thread_inst_def)
  qed
qed

lemma wp_abort:
  assumes s: "tinv {t} d s" and t: "th_task (thr s t) = j" "th_state (thr s t) \<noteq> Th_waiting"
  shows "wp (abortThread j t) (\<lambda>_ u. tinv {t} d u \<and> (\<exists>L T. u = book t None L T s)) (\<lambda>_. False) s"
proof -
  let ?L = "remove1 t (tk_threads (task_of s t))" and ?k = "thread_inst t s"
  let ?T = "ci_threads (s_comps s ! ?k)"
  have n: "t < length (s_threads s)" using tinvD(5) [OF s] by simp
  note C = tinv_comp [OF s n]
  have T: "table_inv ?T" "table_entries ?T i = Some t \<longleftrightarrow> th_index (thr s t) = Some i" for i
    using comp_goodD(4,5) [OF C(2)] n by simp_all
  have L: "distinct ?L" "\<And>u. u \<noteq> t \<Longrightarrow> u \<in> set ?L \<longleftrightarrow> u \<in> set (tk_threads (task_of s t))"
    using task_goodD(2) [OF C(4)] by simp_all
  show ?thesis
  proof (cases "th_index (thr s t)")
    case None
    have "tinv {t} d (book t None ?L ?T s)"
      by (rule tinv_book [OF s T(1) _ L]) (use T(2) None in \<open>auto simp: eq_commute\<close>)
    moreover have "book t None ?L ?T s = new_task j ((s_tasks s ! j)\<lparr>tk_threads := remove1 t (tk_threads (s_tasks s ! j))\<rparr>) s"
      using book_list [of t s ?L] None t(1) by simp
    ultimately have "tinv {t} d (new_task j ((s_tasks s ! j)\<lparr>tk_threads := remove1 t (tk_threads (s_tasks s ! j))\<rparr>) s) \<and>
        (\<exists>L T. new_task j ((s_tasks s ! j)\<lparr>tk_threads := remove1 t (tk_threads (s_tasks s ! j))\<rparr>) s = book t None L T s)"
      by metis
    then show ?thesis using None t(2) by (simp add: abortThread_def wps)
  next
    case (Some i)
    have "wp (table_remove (int i)) (\<lambda>_ U. tinv {t} d (book t None ?L U s) \<and> (\<exists>L T. book t None ?L U s = book t None L T s)) (\<lambda>_. False) ?T"
    proof (rule wp_table_remove [OF T(1)])
      show Ti: "table_entries ?T i = Some t" using T(2) Some by simp
      show "tinv {t} d (book t None ?L U s) \<and> (\<exists>L T. book t None ?L U s = book t None L T s)"
        if U: "table_inv U" "table_entries U = (table_entries ?T)(i := None)" for U
      proof
        show "tinv {t} d (book t None ?L U s)"
        proof (rule tinv_book [OF s U(1) _ L])
          show "table_entries U k = Some u \<longleftrightarrow> (if u = t then None = Some k else table_entries ?T k = Some u)" for k u
            using Ti T(2) [of k] Some by (cases "k = i") (auto simp: U(2))
        qed
      qed blast
    qed
    then show ?thesis using t n Some C(3) by (simp add: abortThread_def wps book_run [OF t(1)] book_index thread_inst_def)
  qed
qed

section \<open>A thread between two stops\<close>

definition flight :: "nat \<Rightarrow> (nat \<Rightarrow> int) \<Rightarrow> task_store \<Rightarrow> bool" where
  "flight t d s \<longleftrightarrow> tinv {t} d s \<and> th_state (thr s t) = Th_running \<and> th_ready (thr s t) = None \<and> \<not> th_awaiting (thr s t) \<and>
     s_stack s \<noteq> [] \<and> hd (s_stack s) = t"

lemma flightD:
  assumes "flight t d s"
  shows "tinv {t} d s" "t < length (s_threads s)" "th_state (thr s t) = Th_running" "th_ready (thr s t) = None"
    "\<not> th_awaiting (thr s t)" "s_stack s = t # tl (s_stack s)" "s_stack s \<noteq> []" "hd (s_stack s) = t"
proof -
  show s: "tinv {t} d s" and "th_state (thr s t) = Th_running" "th_ready (thr s t) = None" "\<not> th_awaiting (thr s t)"
    using assms by (simp_all add: flight_def)
  show "t < length (s_threads s)" using tinvD(5) [OF s] by simp
  show "s_stack s \<noteq> []" "hd (s_stack s) = t" using assms by (simp_all add: flight_def)
  show "s_stack s = t # tl (s_stack s)" using assms by (cases "s_stack s") (simp_all add: flight_def)
qed

lemma flight_same: "same_tasks s u \<Longrightarrow> flight t d u = flight t d s"
  by (simp add: flight_def tinv_same same_tasksD)

lemma lists_okD:
  assumes "lists_ok s"
  shows "distinct (s_waiting s)" "distinct (s_stack s)" "distinct (s_awaiting s)"
    "t \<in> set (s_waiting s) \<Longrightarrow> t < length (s_threads s)" "t \<in> set (s_stack s) \<Longrightarrow> t < length (s_threads s)"
    "t \<in> set (s_awaiting s) \<Longrightarrow> t < length (s_threads s)"
    "t < length (s_threads s) \<Longrightarrow> t \<in> set (s_waiting s) \<longleftrightarrow> th_state (thr s t) = Th_waiting"
    "t < length (s_threads s) \<Longrightarrow> t \<in> set (s_stack s) \<longleftrightarrow> th_state (thr s t) = Th_running"
    "t < length (s_threads s) \<Longrightarrow> t \<in> set (s_awaiting s) \<longleftrightarrow> th_awaiting (thr s t)"
    "t \<in> set (s_claims s) \<Longrightarrow> t \<in> set (s_awaiting s)" "t \<in> set (s_claims s) \<Longrightarrow> t \<notin> fst ` set (s_settled s)"
    "t \<in> fst ` set (s_settled s) \<Longrightarrow> t \<in> set (s_awaiting s)" "distinct (map fst (s_settled s))"
  using assms unfolding lists_ok_def by blast+

text \<open>Between two states of a thread its places in the lists change, and no one else's.\<close>

lemma lists_change:
  assumes l: "lists_ok s" and t: "t < length (s_threads s)" and th: "s_threads s' = (s_threads s)[t := th]"
    and d: "distinct (s_waiting s')" "distinct (s_stack s')" "distinct (s_awaiting s')"
    and here: "t \<in> set (s_waiting s') \<longleftrightarrow> th_state th = Th_waiting" "t \<in> set (s_stack s') \<longleftrightarrow> th_state th = Th_running"
      "t \<in> set (s_awaiting s') \<longleftrightarrow> th_awaiting th"
    and there: "set (s_waiting s') - {t} = set (s_waiting s) - {t}" "set (s_stack s') - {t} = set (s_stack s) - {t}"
      "set (s_awaiting s') - {t} = set (s_awaiting s) - {t}"
    and rest: "set (s_claims s') \<subseteq> set (s_claims s)" "s_settled s' = s_settled s"
    and free: "th_awaiting (thr s t) \<Longrightarrow> \<not> th_awaiting th \<Longrightarrow> t \<notin> set (s_claims s) \<and> t \<notin> fst ` set (s_settled s)"
  shows "lists_ok s'"
proof -
  note D = lists_okD [OF l]
  have w: "u \<in> set (s_waiting s') \<longleftrightarrow> (if u = t then th_state th = Th_waiting else u \<in> set (s_waiting s))"
    and k: "u \<in> set (s_stack s') \<longleftrightarrow> (if u = t then th_state th = Th_running else u \<in> set (s_stack s))"
    and a: "u \<in> set (s_awaiting s') \<longleftrightarrow> (if u = t then th_awaiting th else u \<in> set (s_awaiting s))" for u
    using here there by auto
  have n: "length (s_threads s') = length (s_threads s)" "thr s' u = (if u = t then th else thr s u)" for u
    using t th by (simp_all add: nth_list_update)
  have still: "u \<in> set (s_awaiting s')" if "u \<in> set (s_awaiting s)" "u \<in> set (s_claims s) \<or> u \<in> fst ` set (s_settled s)" for u
    using that free D(9) [OF t] by (cases "u = t") (auto simp: a)
  show ?thesis
    unfolding lists_ok_def
  proof (intro conjI ballI allI impI)
    fix u
    show "u < length (s_threads s')" if "u \<in> set (s_waiting s') \<union> set (s_stack s') \<union> set (s_awaiting s')"
      using that t D(4,5,6) [of u] n(1) by (auto simp: w k a split: if_splits)
    assume u: "u < length (s_threads s')"
    show "(u \<in> set (s_waiting s')) = (th_state (thr s' u) = Th_waiting)" using D(7) [of u] u n by (simp add: w)
    show "(u \<in> set (s_stack s')) = (th_state (thr s' u) = Th_running)" using D(8) [of u] u n by (simp add: k)
    show "(u \<in> set (s_awaiting s')) = th_awaiting (thr s' u)" using D(9) [of u] u n by (simp add: a)
  next
    fix u assume "u \<in> set (s_claims s')"
    then show "u \<in> set (s_awaiting s')" "u \<notin> fst ` set (s_settled s')" using D(10,11) [of u] still rest by auto
  next
    fix u assume "u \<in> fst ` set (s_settled s')"
    then show "u \<in> set (s_awaiting s')" using D(12) [of u] still rest by auto
  qed (use d rest D(13) in auto)
qed

section \<open>Landing\<close>

definition tasks_ok :: "task_store \<Rightarrow> bool" where
  "tasks_ok s = tinv {} (\<lambda>_. 0) s"

definition aboard :: "nat \<Rightarrow> task_store \<Rightarrow> bool" where
  "aboard t s \<longleftrightarrow> th_index (thr s t) \<noteq> None \<and> t \<in> set (tk_threads (task_of s t)) \<and> tk_state (task_of s t) \<noteq> T_initial \<and>
     (\<not> th_explicit (thr s t) \<longrightarrow> tk_implicit (task_of s t) = Some t)"

definition slot_of :: "nat \<Rightarrow> task_store \<Rightarrow> nat option" where
  "slot_of t s = ci_exclusive (s_comps s ! thread_inst t s)"

definition holds :: "nat \<Rightarrow> task_store \<Rightarrow> bool" where
  "holds t s \<longleftrightarrow> (\<not> th_explicit (thr s t) \<and> claims_slot (task_of s t) \<longrightarrow> slot_of t s = Some t)"

lemma held_here:
  assumes "tinv F d s" "k < length (s_comps s)" "ci_exclusive (s_comps s ! k) = Some t"
  shows "k = thread_inst t s"
  using comp_goodD(6) [OF tinvD(4) [OF assms(1,2)] assms(3)] by simp

lemma lists_pop:
  assumes s: "flight t d s" and th: "s_threads s' = (s_threads s)[t := th]" "th_state th \<noteq> Th_running" "\<not> th_awaiting th"
    and w: "s_waiting s' = s_waiting s @ (if th_state th = Th_waiting then [t] else [])"
    and r: "s_stack s' = tl (s_stack s)" "s_awaiting s' = s_awaiting s" "set (s_claims s') \<subseteq> set (s_claims s)" "s_settled s' = s_settled s"
  shows "lists_ok s'"
proof -
  note F = flightD [OF s]
  note l = tinvD(1) [OF F(1)]
  note D = lists_okD [OF l]
  have t: "t \<notin> set (s_waiting s)" "t \<notin> set (s_awaiting s)" using D(7,9) [OF F(2)] F(3,5) by simp_all
  have k: "t \<notin> set (tl (s_stack s))" "distinct (tl (s_stack s))" "set (tl (s_stack s)) = set (s_stack s) - {t}"
    using D(2) F(6) by (metis distinct.simps(2), metis distinct_tl, metis Diff_insert_absorb distinct.simps(2) list.simps(15))
  show ?thesis
    by (rule lists_change [OF l F(2) th(1)]) (use D(1,3) t k th(2,3) w r F(5) in auto)
qed

lemma land_calls:
  assumes s: "flight t (\<lambda>_. 0) s" and t: "aboard t s" "holds t s" and p: "in_wasm p" "th_explicit (thr s t) \<Longrightarrow> \<exists>a. p = InCore a"
  shows "tasks_ok (put_thread t ((thr s t)\<lparr>th_pc := p\<rparr>) s)"
proof -
  note F = flightD [OF s]
  let ?th = "(thr s t)\<lparr>th_pc := p\<rparr>"
  have p': "p \<noteq> Entering" "p \<noteq> Failed" "p \<noteq> NotStarted" "p \<noteq> Finished" using p(1) by auto
  show ?thesis
    unfolding tasks_ok_def
  proof (rule land [where t = t and th = ?th and s = s])
    show "tinv {t} (\<lambda>k. if th_pc ?th = Entering \<and> thread_inst t s = k then 1 else 0) s" using F(1) p' by simp
    show "moved t ?th s (put_thread t ?th s)" by (simp add: moved_def)
    show "lists_ok (put_thread t ?th s)"
      by (rule lists_change [OF tinvD(1) [OF F(1)] F(2), where th = ?th])
        (use lists_okD(1,2,3,7,8,9) [OF tinvD(1) [OF F(1)]] F in \<open>simp_all add: put_thread_def\<close>)
    show "at_place (task_of s t) ?th"
      using p F t(1) by (cases p) (auto simp: at_place_def aboard_def)
    show "in_task (task_of s t) t ?th"
      using p p' F t(1) by (auto simp: in_task_def aboard_def)
    show "ci_exclusive (s_comps s ! thread_inst t s) = Some t"
      if "in_wasm (th_pc ?th) \<and> \<not> th_explicit (thr s t) \<and> claims_slot (task_of s t)"
      using that t(2) by (simp add: holds_def slot_of_def)
    show "th_pc ?th = Failed \<or> tk_state (task_of s t) = T_resolved \<or> tk_threads (task_of s t) \<noteq> [] \<or>
      tk_state (task_of s t) = T_initial \<and> \<not> th_explicit (thr s t) \<and> th_pc ?th = Entering"
      using t(1) by (auto simp: aboard_def)
  qed (use p in \<open>simp_all add: same_role_def\<close>)
qed

lemma wp_pop:
  assumes "flight t d s"
  shows "wp (popCurrentThread t) Q E s = Q () (s\<lparr>s_stack := tl (s_stack s)\<rparr>)"
  using flightD(6) [OF assms] by (simp add: popCurrentThread_def wps) (metis list.distinct(1) list.sel(1))

lemma land_done:
  assumes s: "flight t (\<lambda>_. 0) s" and p: "p = Failed \<or> p = Finished \<and> th_index (thr s t) = None \<and> t \<notin> set (tk_threads (task_of s t)) \<and>
      slot_of t s \<noteq> Some t \<and> tk_state (task_of s t) \<noteq> T_initial \<and>
      (tk_threads (task_of s t) = [] \<longrightarrow> tk_state (task_of s t) = T_resolved)"
    and i: "\<not> th_explicit (thr s t) \<Longrightarrow> tk_implicit (task_of s t) = Some t"
      "th_explicit (thr s t) \<Longrightarrow> tk_state (task_of s t) \<noteq> T_initial"
    and m: "moved t ((thr s t)\<lparr>th_state := Th_done, th_pc := p\<rparr>) s s'"
    and l: "s_waiting s' = s_waiting s" "s_stack s' = tl (s_stack s)" "s_awaiting s' = s_awaiting s"
      "set (s_claims s') \<subseteq> set (s_claims s)" "s_settled s' = s_settled s"
  shows "tasks_ok s'"
proof -
  note F = flightD [OF s]
  let ?th = "(thr s t)\<lparr>th_state := Th_done, th_pc := p\<rparr>"
  have p': "p \<noteq> Entering" "p \<noteq> NotStarted" "\<not> in_wasm p" using p by auto
  show ?thesis
    unfolding tasks_ok_def
  proof (rule land [where t = t and th = ?th and s = s, OF _ m])
    show "tinv {t} (\<lambda>k. if th_pc ?th = Entering \<and> thread_inst t s = k then 1 else 0) s" using F(1) p' by simp
    show "lists_ok s'"
      by (rule lists_pop [OF s, where th = ?th]) (use m l F(5) in \<open>simp_all add: moved_def\<close>)
    show "at_place (task_of s t) ?th" using p F by (auto simp: at_place_def)
    show "in_task (task_of s t) t ?th" using p p' F i by (auto simp: in_task_def)
    show "in_wasm (th_pc ?th) \<or> th_pc ?th = Failed" if "k < length (s_comps s)" "ci_exclusive (s_comps s ! k) = Some t" for k
      using that held_here [OF F(1) that] p by (auto simp: slot_of_def)
    show "th_pc ?th = Failed \<or> tk_state (task_of s t) = T_resolved \<or> tk_threads (task_of s t) \<noteq> [] \<or>
      tk_state (task_of s t) = T_initial \<and> \<not> th_explicit (thr s t) \<and> th_pc ?th = Entering"
      using p by auto
  qed (use p' in \<open>simp_all add: same_role_def\<close>)
qed

lemma land_parks:
  assumes s: "flight t (\<lambda>k. if p = Entering \<and> thread_inst t s = k then 1 else 0) s"
    and p: "at_place (task_of s t) ((thr s t)\<lparr>th_state := Th_waiting, th_ready := Some f, th_pc := p\<rparr>)"
      "in_task (task_of s t) t ((thr s t)\<lparr>th_state := Th_waiting, th_ready := Some f, th_pc := p\<rparr>)"
      "p \<in> {Entering, WaitYield} \<union> range WaitEvent"
    and free: "slot_of t s \<noteq> Some t"
    and m: "moved t ((thr s t)\<lparr>th_state := Th_waiting, th_ready := Some f, th_pc := p\<rparr>) s s'"
    and l: "s_waiting s' = s_waiting s @ [t]" "s_stack s' = tl (s_stack s)" "s_awaiting s' = s_awaiting s" "s_claims s' = s_claims s"
      "s_settled s' = s_settled s"
  shows "tasks_ok s'"
proof -
  note F = flightD [OF s]
  let ?th = "(thr s t)\<lparr>th_state := Th_waiting, th_ready := Some f, th_pc := p\<rparr>"
  have p': "\<not> in_wasm p" "p \<noteq> Failed" "p \<noteq> NotStarted" using p(3) by auto
  show ?thesis
    unfolding tasks_ok_def
  proof (rule land [where t = t and th = ?th and s = s, OF _ m])
    show "tinv {t} (\<lambda>k. if th_pc ?th = Entering \<and> thread_inst t s = k then 1 else 0) s" using F(1) by simp
    show "lists_ok s'"
      by (rule lists_pop [OF s, where th = ?th]) (use m l F(5) in \<open>simp_all add: moved_def\<close>)
    show "in_wasm (th_pc ?th) \<or> th_pc ?th = Failed" if "k < length (s_comps s)" "ci_exclusive (s_comps s ! k) = Some t" for k
      using that held_here [OF F(1) that] free by (auto simp: slot_of_def)
    show "th_pc ?th = Failed \<or> tk_state (task_of s t) = T_resolved \<or> tk_threads (task_of s t) \<noteq> [] \<or>
      tk_state (task_of s t) = T_initial \<and> \<not> th_explicit (thr s t) \<and> th_pc ?th = Entering"
      using p by (auto simp: at_place_def in_task_def)
  qed (use p p' in \<open>simp_all add: same_role_def\<close>)
qed

section \<open>The end of a step\<close>

lemma put_thread_fields [simp]:
  "s_waiting (put_thread t th s) = s_waiting s" "s_stack (put_thread t th s) = s_stack s" "s_awaiting (put_thread t th s) = s_awaiting s"
  "s_claims (put_thread t th s) = s_claims s" "s_settled (put_thread t th s) = s_settled s" "s_pending (put_thread t th s) = s_pending s"
  by (simp_all add: put_thread_def)

lemma wp_finish_ends:
  assumes s: "flight t (\<lambda>_. 0) s" and p: "th_index (thr s t) = None" "t \<notin> set (tk_threads (task_of s t))"
      "slot_of t s \<noteq> Some t" "tk_state (task_of s t) \<noteq> T_initial"
      "tk_threads (task_of s t) = [] \<Longrightarrow> tk_state (task_of s t) = T_resolved"
      "\<not> th_explicit (thr s t) \<Longrightarrow> tk_implicit (task_of s t) = Some t"
  shows "wp (seqm (popCurrentThread t) (finish_thread t Finished)) (\<lambda>_. tasks_ok) E s"
proof -
  have "tasks_ok (put_thread t ((thr s t)\<lparr>th_state := Th_done, th_pc := Finished\<rparr>) (s\<lparr>s_stack := tl (s_stack s)\<rparr>))"
    by (rule land_done [OF s, where p = Finished]) (use p in \<open>simp_all add: moved_def\<close>)
  then show ?thesis by (simp add: wp_seqm wp_pop [OF s] finish_thread_def wps)
qed

lemma wp_failed_body:
  assumes s: "flight t (\<lambda>_. 0) s" and i: "\<not> th_explicit (thr s t) \<Longrightarrow> tk_implicit (task_of s t) = Some t"
    "th_explicit (thr s t) \<Longrightarrow> tk_state (task_of s t) \<noteq> T_initial"
  shows "wp (failed_body t) (\<lambda>_. tasks_ok) (\<lambda>_. False) s"
proof -
  note F = flightD [OF s]
  have "tasks_ok s'" if "moved t ((thr s t)\<lparr>th_state := Th_done, th_pc := Failed\<rparr>) s s'" "s_waiting s' = s_waiting s"
    "s_stack s' = tl (s_stack s)" "s_awaiting s' = s_awaiting s" "set (s_claims s') \<subseteq> set (s_claims s)" "s_settled s' = s_settled s" for s'
    by (rule land_done [OF s _ i that]) simp
  then show ?thesis
    using F(2,7,8)
    by (auto simp: failed_body_def finish_thread_def releaseActivationAmbient_def removePendingResumption_def requestService_def
        popCurrentThread_def wps moved_def split: option.split)
qed

lemma reorder:
  "th\<lparr>th_pc := p, th_ready := r, th_state := w\<rparr> = th\<lparr>th_state := w, th_ready := r, th_pc := p\<rparr>" for th :: thread
  by (cases th) simp

lemma wp_finish_parks:
  assumes s: "flight t (\<lambda>k. if p = Entering \<and> thread_inst t s = k then 1 else 0) s"
    and p: "at_place (task_of s t) ((thr s t)\<lparr>th_state := Th_waiting, th_ready := Some f, th_pc := p\<rparr>)"
      "in_task (task_of s t) t ((thr s t)\<lparr>th_state := Th_waiting, th_ready := Some f, th_pc := p\<rparr>)"
      "p \<in> {Entering, WaitYield} \<union> range WaitEvent"
    and free: "slot_of t s \<noteq> Some t"
  shows "wp (seqm (popCurrentThread t) (seqm (upd_thread t (\<lambda>th. th\<lparr>th_state := Th_suspended, th_pc := p\<rparr>)) (seqm (startWaiting t f)
     (bnd (gets (thread_ready t)) (\<lambda>ready. if ready then requestService else ret ()))))) (\<lambda>_. tasks_ok) (\<lambda>_. False) s"
proof -
  note F = flightD [OF s]
  have t: "t \<notin> set (s_waiting s)" using lists_okD(7) [OF tinvD(1) [OF F(1)] F(2)] F(3) by simp
  have L: "tasks_ok s'" if "moved t ((thr s t)\<lparr>th_state := Th_waiting, th_ready := Some f, th_pc := p\<rparr>) s s'"
    "s_waiting s' = s_waiting s @ [t]" "s_stack s' = tl (s_stack s)" "s_awaiting s' = s_awaiting s" "s_claims s' = s_claims s"
    "s_settled s' = s_settled s" for s'
    by (rule land_parks [OF s p free that])
  show ?thesis
    using F(2,3,4,7,8) t
    by (simp add: startWaiting_def store_startWaiting_def requestService_def popCurrentThread_def wps) (rule L; simp add: moved_def reorder)
qed

end
