(* ===== verification/Task_Segments.thy ===== *)
theory Task_Segments
  imports Task_Flight
begin

text \<open>
  Every step of a body, from any of its stops and with any input, comes to a stop at which the
  invariant holds again, or throws with the thread still on top of the stack.
\<close>

section \<open>What is carried through a flight\<close>

definition calls_inert :: "tenv \<Rightarrow> bool" where
  "calls_inert env \<longleftrightarrow> (\<forall>x j. preserves (more_is x) (tv_onStart env j)) \<and>
     (\<forall>x j r. preserves (more_is x) (tv_onResolve env j r)) \<and> env_inert (tv_env env)"

lemma carried_same:
  assumes "same_tasks s u"
  shows "flight t d u = flight t d s" "aboard t u = aboard t s" "holds t u = holds t s" "slot_of t u = slot_of t s"
    "task_of u t = task_of s t" "thr u t = thr s t" "thread_inst t u = thread_inst t s" "s_tasks u = s_tasks s"
    "s_comps u = s_comps s" "length (s_threads u) = length (s_threads s)"
  using assms by (simp_all add: flight_same aboard_def holds_def slot_of_def same_tasksD thread_inst_same)

lemma flight_to:
  assumes "flight t d s" "tinv {t} e u" "th_state (thr u t) = th_state (thr s t)" "th_ready (thr u t) = th_ready (thr s t)"
    "th_awaiting (thr u t) = th_awaiting (thr s t)" "s_stack u = s_stack s"
  shows "flight t e u"
  using assms by (simp add: flight_def)

lemma flight_state:
  assumes s: "flight t d s" and j: "th_task (thr s t) = j" and st: "st \<noteq> T_initial"
    and old: "tk_state (s_tasks s ! j) = T_initial \<Longrightarrow> \<not> th_explicit (thr s t)"
    "tk_state (s_tasks s ! j) = T_resolved \<Longrightarrow> st = T_resolved"
  shows "flight t d (new_task j ((s_tasks s ! j)\<lparr>tk_state := st\<rparr>) s)"
proof -
  note F = flightD [OF s]
  have "j < length (s_tasks s)" using tinv_comp(3) [OF F(1,2)] j by simp
  then have "tinv {t} d (new_task j ((s_tasks s ! j)\<lparr>tk_state := st\<rparr>) s)"
    by (rule tinv_state [OF F(1) _ st]) (use old j in auto)
  then show ?thesis by (rule flight_to [OF s]) (simp_all add: new_task_def)
qed

lemma flight_implicit:
  assumes s: "flight t d s" and t: "\<not> th_explicit (thr s t)" "th_task (thr s t) = j"
  shows "flight t d (new_task j ((s_tasks s ! j)\<lparr>tk_implicit := Some t\<rparr>) s)"
  by (rule flight_to [OF s tinv_implicit [OF flightD(1) [OF s]]]) (use t in \<open>simp_all add: new_task_def\<close>)

lemma flight_slot:
  assumes s: "flight t d s" and own: "thread_inst t s = k" "\<not> th_explicit (thr s t)" "claims_slot (task_of s t)"
    and old: "slot_of t s = None \<or> slot_of t s = Some t" and x: "x = None \<or> x = Some t"
  shows "flight t d (new_comp k ((s_comps s ! k)\<lparr>ci_exclusive := x\<rparr>) s)"
proof -
  note F = flightD [OF s]
  have "k < length (s_comps s)" using tinv_comp(1) [OF F(1,2)] own by simp
  then have "tinv {t} d (new_comp k ((s_comps s ! k)\<lparr>ci_exclusive := x\<rparr>) s)"
    by (rule tinv_slot [OF F(1)]) (use own old x in \<open>auto simp: slot_of_def\<close>)
  then show ?thesis by (rule flight_to [OF s]) (simp_all add: new_comp_def)
qed

lemma flight_gate:
  assumes s: "flight t d s" and k: "thread_inst t s = k" and e: "\<And>i. i \<noteq> k \<Longrightarrow> e i = d i" "e k = d k + n"
  shows "flight t e (new_comp k ((s_comps s ! k)\<lparr>ci_entering := ci_entering (s_comps s ! k) + n\<rparr>) s)"
proof -
  note F = flightD [OF s]
  have "k < length (s_comps s)" using tinv_comp(1) [OF F(1,2)] k by simp
  then have "tinv {t} e (new_comp k ((s_comps s ! k)\<lparr>ci_entering := ci_entering (s_comps s ! k) + n\<rparr>) s)"
    by (rule tinv_gate [OF F(1)]) (use e in auto)
  then show ?thesis by (rule flight_to [OF s]) (simp_all add: new_comp_def)
qed

lemma flight_book:
  assumes s: "flight t d s" and u: "tinv {t} d (book t x L T s)"
  shows "flight t d (book t x L T s)"
  by (rule flight_to [OF s u]) (use flightD(2) [OF s] in \<open>simp_all add: book_def Let_def\<close>)

text \<open>The slot is another thread's, or none's, when this thread does not claim it.\<close>

lemma no_claim:
  assumes s: "flight t d s" and t: "th_explicit (thr s t) \<or> \<not> claims_slot (task_of s t)"
  shows "slot_of t s \<noteq> Some t"
  using comp_goodD(6) [OF tinv_comp(2) [OF flightD(1,2) [OF s]], of t] t by (auto simp: slot_of_def)

section \<open>Stops\<close>

definition throws_ok :: "nat \<Rightarrow> task_store \<Rightarrow> bool" where
  "throws_ok t u \<longleftrightarrow> flight t (\<lambda>_. 0) u \<and> (\<not> th_explicit (thr u t) \<longrightarrow> tk_implicit (task_of u t) = Some t) \<and>
     (th_explicit (thr u t) \<longrightarrow> tk_state (task_of u t) \<noteq> T_initial)"

definition ending_ok :: "nat \<Rightarrow> task_store \<Rightarrow> bool" where
  "ending_ok t u \<longleftrightarrow> throws_ok t u \<and> th_index (thr u t) = None \<and> t \<notin> set (tk_threads (task_of u t)) \<and> slot_of t u \<noteq> Some t \<and>
     tk_state (task_of u t) \<noteq> T_initial \<and> (tk_threads (task_of u t) = [] \<longrightarrow> tk_state (task_of u t) = T_resolved)"

definition calls_ok :: "nat \<Rightarrow> pc \<Rightarrow> task_store \<Rightarrow> bool" where
  "calls_ok t p u \<longleftrightarrow> flight t (\<lambda>_. 0) u \<and> aboard t u \<and> holds t u \<and> in_wasm p \<and> (th_explicit (thr u t) \<longrightarrow> (\<exists>a. p = InCore a))"

definition parks_ok :: "nat \<Rightarrow> ready_func \<Rightarrow> pc \<Rightarrow> task_store \<Rightarrow> bool" where
  "parks_ok t f p u \<longleftrightarrow> flight t (\<lambda>k. if p = Entering \<and> thread_inst t u = k then 1 else 0) u \<and>
     at_place (task_of u t) ((thr u t)\<lparr>th_state := Th_waiting, th_ready := Some f, th_pc := p\<rparr>) \<and>
     in_task (task_of u t) t ((thr u t)\<lparr>th_state := Th_waiting, th_ready := Some f, th_pc := p\<rparr>) \<and>
     p \<in> {Entering, WaitYield} \<union> range WaitEvent \<and> slot_of t u \<noteq> Some t"

definition stops_ok :: "nat \<Rightarrow> seg \<Rightarrow> task_store \<Rightarrow> bool" where
  "stops_ok t stop u = (case stop of Calls p \<Rightarrow> calls_ok t p u | Ends \<Rightarrow> ending_ok t u | Parks f p \<Rightarrow> parks_ok t f p u)"

lemma stops_ok_simps [simp]:
  "stops_ok t (Calls p) u = calls_ok t p u" "stops_ok t Ends u = ending_ok t u" "stops_ok t (Parks f p) u = parks_ok t f p u"
  by (simp_all add: stops_ok_def)

lemma ok_same:
  assumes "same_tasks s u"
  shows "throws_ok t u = throws_ok t s" "calls_ok t p u = calls_ok t p s" "ending_ok t u = ending_ok t s" "parks_ok t f p u = parks_ok t f p s"
  by (simp_all add: throws_ok_def calls_ok_def ending_ok_def parks_ok_def carried_same [OF assms])

lemma aboard_throws: "flight t (\<lambda>_. 0) s \<Longrightarrow> aboard t s \<Longrightarrow> throws_ok t s"
  by (simp add: throws_ok_def aboard_def)

lemma wp_on_fail: "wp (on_error a (\<lambda>_. h)) Q E s = wp a Q (\<lambda>t. E (snd (h t))) s"
  by (simp add: wp_def on_error_def split: prod.split sum.split)

lemma wp_run_body:
  assumes "wp (body_next env t (thr s t) i) (stops_ok t) (throws_ok t) s"
  shows "wp (run_body env t i) (\<lambda>_. tasks_ok) tasks_ok s"
proof -
  have fail: "tasks_ok (snd (failed_body t u))" if "throws_ok t u" for u
    using wp_failed_body [of t u] that by (cases "failed_body t u") (auto simp: throws_ok_def wp_def split: sum.splits)
  have stop: "wp (case stop of Calls p \<Rightarrow> upd_thread t (\<lambda>th. th\<lparr>th_pc := p\<rparr>)
     | Ends \<Rightarrow> seqm (popCurrentThread t) (finish_thread t Finished)
     | Parks f p \<Rightarrow> seqm (popCurrentThread t) (seqm (upd_thread t (\<lambda>th. th\<lparr>th_state := Th_suspended, th_pc := p\<rparr>))
         (seqm (startWaiting t f) (bnd (gets (thread_ready t)) (\<lambda>ready. if ready then requestService else ret ())))))
     (\<lambda>_. tasks_ok) tasks_ok u" if "stops_ok t stop u" for stop u
  proof (cases stop)
    case (Calls p)
    with that show ?thesis using land_calls [of t u p] by (simp add: calls_ok_def wps)
  next
    case Ends
    with that show ?thesis using wp_finish_ends [of t u tasks_ok] by (simp add: ending_ok_def throws_ok_def)
  next
    case (Parks f p)
    with that have "wp (seqm (popCurrentThread t) (seqm (upd_thread t (\<lambda>th. th\<lparr>th_state := Th_suspended, th_pc := p\<rparr>))
         (seqm (startWaiting t f) (bnd (gets (thread_ready t)) (\<lambda>ready. if ready then requestService else ret ()))))) (\<lambda>_. tasks_ok) (\<lambda>_. False) u"
      by (intro wp_finish_parks) (simp_all add: parks_ok_def)
    then show ?thesis unfolding Parks seg.case by (rule wp_mono) simp_all
  qed
  show ?thesis
    unfolding run_body_def wp_bnd wp_state wp_on_fail
    by (rule wp_mono [OF assms]) (use fail stop in auto)
qed

section \<open>The gate\<close>

text \<open>At the gate the implicit thread is not yet in the books.\<close>

definition outside :: "nat \<Rightarrow> task_store \<Rightarrow> bool" where
  "outside t s \<longleftrightarrow> th_index (thr s t) = None \<and> t \<notin> set (tk_threads (task_of s t)) \<and> \<not> th_explicit (thr s t) \<and> slot_of t s \<noteq> Some t"

definition inside :: "nat \<Rightarrow> nat \<Rightarrow> task_store \<Rightarrow> bool" where
  "inside t j s \<longleftrightarrow> th_task (thr s t) = j \<and> th_index (thr s t) \<noteq> None \<and> t \<in> set (tk_threads (task_of s t)) \<and> \<not> th_explicit (thr s t) \<and> holds t s \<and>
     tk_implicit (task_of s t) = Some t"

lemma inside_same: "same_tasks s u \<Longrightarrow> inside t j u = inside t j s"
  by (simp add: inside_def carried_same)

lemma slot_new_comp:
  assumes "thread_inst t s < length (s_comps s)"
  shows "slot_of t (new_comp (thread_inst t s) c s) = ci_exclusive c"
  using assms by (simp add: slot_of_def new_comp_simps)

lemma inst_task: "th_task (thr s t) = j \<Longrightarrow> tk_inst (s_tasks s ! j) = thread_inst t s"
  by (simp add: thread_inst_def)

lemma wp_register_flight:
  assumes s: "flight t (\<lambda>_. 0) s" and t: "th_task (thr s t) = j" "th_index (thr s t) = None" "t \<notin> set (tk_threads (task_of s t))"
    and i: "\<not> th_explicit (thr s t)" "tk_implicit (task_of s t) = Some t" "holds t s"
  shows "wp (registerThread j t) (\<lambda>_ u. flight t (\<lambda>_. 0) u \<and> inside t j u) (throws_ok t) s"
proof -
  note F = flightD [OF s]
  note C = tinv_comp [OF F(1,2)]
  show ?thesis
  proof (rule wpI)
    fix x u assume "registerThread j t s = (Inr x, u)"
    from wpD(1) [OF wp_register [OF F(1) t] this] obtain k T where
      u: "tinv {t} (\<lambda>_. 0) u" "u = book t (Some k) (tk_threads (task_of s t) @ [t]) T s" by blast
    show "flight t (\<lambda>_. 0) u \<and> inside t j u"
      using flight_book [OF s] u i t book_simps(4,5,6,8,12,13) [OF F(2) C(3)]
      by (simp add: inside_def holds_def slot_of_def with_threads)
  next
    fix e u assume run: "registerThread j t s = (Inl e, u)"
    have inv: "tinv {t} (\<lambda>_. 0) u" using wpD(2) [OF wp_register [OF F(1) t] run] by blast
    have "s_stack u = s_stack s \<and> s_threads u = s_threads s \<and> tk_implicit (s_tasks u ! j) = tk_implicit (s_tasks s ! j)"
      using run C(3) t(1) by (auto simp: registerThread_def task_at_def thread_at_def upd_task_def upd_thread_def threads_of_def zoom_run
          bnd_run seqm_run assertm_run nth_list_update split: sum.splits prod.splits if_splits)
    then show "throws_ok t u" using flight_to [OF s inv] i t(1) by (simp add: throws_ok_def)
  qed
qed

lemma wp_admit:
  assumes s: "flight t (\<lambda>_. 0) s" and t: "th_task (thr s t) = j" and o: "outside t s" "tk_implicit (task_of s t) = Some t"
  shows "wp (admit j t) (\<lambda>_ u. flight t (\<lambda>_. 0) u \<and> inside t j u) (throws_ok t) s"
proof -
  note F = flightD [OF s]
  let ?k = "thread_inst t s"
  let ?u = "new_comp ?k ((s_comps s ! ?k)\<lparr>ci_exclusive := Some t\<rparr>) s"
  have k: "?k < length (s_comps s)" by (rule tinv_comp(1) [OF F(1,2)])
  have fail: "throws_ok t s" using s o by (simp add: throws_ok_def outside_def)
  have plain: "wp (registerThread j t) (\<lambda>_ u. flight t (\<lambda>_. 0) u \<and> inside t j u) (throws_ok t) s" if "\<not> claims_slot (task_of s t)"
    by (rule wp_register_flight [OF s t]) (use o that in \<open>simp_all add: outside_def holds_def\<close>)
  have taken: "wp (registerThread j t) (\<lambda>_ u. flight t (\<lambda>_. 0) u \<and> inside t j u) (throws_ok t) ?u"
    if "claims_slot (task_of s t)" "slot_of t s = None"
  proof (rule wp_register_flight)
    show "flight t (\<lambda>_. 0) ?u" by (rule flight_slot [OF s]) (use o that in \<open>simp_all add: outside_def\<close>)
    show "holds t ?u" using slot_new_comp [OF k] by (simp add: holds_def)
  qed (use o t in \<open>simp_all add: outside_def new_comp_def\<close>)
  show ?thesis
    using plain taken fail t
    by (simp add: admit_def wps claims_slot_def [symmetric] inst_task slot_of_def)
qed

definition gate_ok :: "nat \<Rightarrow> nat \<Rightarrow> bool \<Rightarrow> task_store \<Rightarrow> bool" where
  "gate_ok t j b u = (if b then flight t (\<lambda>_. 0) u \<and> inside t j u else parks_ok t (Unblocked j) Entering u)"

text \<open>The first step: admitted and in the books, or counted at the gate.\<close>

lemma wp_enter:
  assumes s: "flight t (\<lambda>_. 0) s" and t: "th_task (thr s t) = j" and o: "outside t s" and st: "tk_state (task_of s t) = T_initial"
  shows "wp (enterImplicitThread j t) (gate_ok t j) (throws_ok t) s"
proof -
  note F = flightD [OF s]
  let ?u = "new_task j ((s_tasks s ! j)\<lparr>tk_implicit := Some t\<rparr>) s"
  have j: "j < length (s_tasks s)" using tinv_comp(3) [OF F(1,2)] t by simp
  have u: "flight t (\<lambda>_. 0) ?u" by (rule flight_implicit [OF s _ t]) (use o in \<open>simp add: outside_def\<close>)
  have tk: "task_of ?u t = (s_tasks s ! j)\<lparr>tk_implicit := Some t\<rparr>" using j t by simp
  have inst: "thread_inst t ?u = thread_inst t s" using tk t by (simp add: thread_inst_def)
  have o': "outside t ?u" "tk_implicit (task_of ?u t) = Some t"
    using o tk t inst by (simp_all add: outside_def slot_of_def claims_slot_def)
  have "wp (admit j t) (\<lambda>_ u. flight t (\<lambda>_. 0) u \<and> inside t j u) (throws_ok t) ?u"
    by (rule wp_admit [OF u _ o']) (use t in simp)
  then have adm: "wp (seqm (admit j t) (ret True)) (gate_ok t j) (throws_ok t) ?u"
    unfolding wp_seqm by (rule wp_mono) (simp_all add: wps gate_ok_def)
  let ?k = "thread_inst t s"
  let ?v = "new_comp ?k ((s_comps ?u ! ?k)\<lparr>ci_entering := ci_entering (s_comps ?u ! ?k) + 1\<rparr>) ?u"
  have k: "?k < length (s_comps s)" by (rule tinv_comp(1) [OF F(1,2)])
  have v: "flight t (\<lambda>i. if ?k = i then 1 else 0) ?v" by (rule flight_gate [OF u inst]) auto
  have gate: "parks_ok t (Unblocked j) Entering ?v" if "tk_ft_async (s_tasks s ! j)"
    using v o' t tk st j k that F(5) unfolding parks_ok_def
    by (simp add: at_place_def in_task_def outside_def slot_of_def inst new_comp_simps thread_inst_def)
  show ?thesis
    using adm gate t st o s unfolding enterImplicitThread_def
    by (simp add: wps inst_task leave_gate_def gate_ok_def [of t j False])
qed

section \<open>Starting, resolving, leaving\<close>

lemma new_state_facts:
  assumes "flight t d s" "th_task (thr s t) = j"
  shows "task_of (new_task j ((s_tasks s ! j)\<lparr>tk_state := st\<rparr>) s) t = (task_of s t)\<lparr>tk_state := st\<rparr>"
    "thread_inst t (new_task j ((s_tasks s ! j)\<lparr>tk_state := st\<rparr>) s) = thread_inst t s"
    "slot_of t (new_task j ((s_tasks s ! j)\<lparr>tk_state := st\<rparr>) s) = slot_of t s"
proof -
  have "j < length (s_tasks s)" using tinv_comp(3) [OF flightD(1,2) [OF assms(1)]] assms(2) by simp
  then show "task_of (new_task j ((s_tasks s ! j)\<lparr>tk_state := st\<rparr>) s) t = (task_of s t)\<lparr>tk_state := st\<rparr>"
    and "thread_inst t (new_task j ((s_tasks s ! j)\<lparr>tk_state := st\<rparr>) s) = thread_inst t s"
    using assms(2) by (simp_all add: thread_inst_def)
  then show "slot_of t (new_task j ((s_tasks s ! j)\<lparr>tk_state := st\<rparr>) s) = slot_of t s"
    by (simp add: slot_of_def)
qed

lemma inert_lower: "preserves (more_is x) (lower_args env j tk args)"
  by (auto simp del: run_rules simp: lower_args_def intro!: preserving)

lemma wp_call_core:
  assumes env: "calls_inert env" and s: "flight t (\<lambda>_. 0) s" and t: "th_task (thr s t) = j" and i: "inside t j s"
  shows "wp (call_core env j) (stops_ok t) (throws_ok t) s"
proof -
  let ?u = "new_task j ((s_tasks s ! j)\<lparr>tk_state := T_started\<rparr>) s"
  note N = new_state_facts [OF s t, of T_started]
  have fail: "throws_ok t s" using s i by (auto simp: throws_ok_def inside_def)
  have "wp (bnd (tv_onStart env j) (\<lambda>args. bnd (lower_args env j (s_tasks s ! j) args) (\<lambda>flat. seqm (stackful_check env (s_tasks s ! j)) (ret (Calls (InCore flat)))))) (stops_ok t) (throws_ok t) ?u"
    if "tk_state (s_tasks s ! j) = T_initial"
  proof -
    have u: "flight t (\<lambda>_. 0) ?u" by (rule flight_state [OF s t]) (use i that in \<open>simp_all add: inside_def\<close>)
    have a: "aboard t ?u" "holds t ?u" using i N t by (simp_all add: aboard_def inside_def holds_def claims_slot_def needsExclusive_def)
    have c: "throws_ok t ?u" "calls_ok t (InCore flat) ?u" for flat
      using aboard_throws [OF u a(1)] u a by (simp_all add: calls_ok_def)
    show ?thesis
      unfolding wp_bnd
    proof (rule wp_inert)
      show "preserves (more_is x) (tv_onStart env j)" for x using env by (simp add: calls_inert_def)
      show "throws_ok t v" if "same_tasks ?u v" for v using c(1) ok_same(1) [OF that] by simp
      fix args v assume v: "same_tasks ?u v"
      show "wp (lower_args env j (s_tasks s ! j) args) (\<lambda>flat. wp (seqm (stackful_check env (s_tasks s ! j)) (ret (Calls (InCore flat)))) (stops_ok t) (throws_ok t)) (throws_ok t) v"
      proof (rule wp_inert [OF inert_lower])
        fix flat w assume w: "same_tasks v w"
        then have "same_tasks ?u w" using v by (simp add: same_tasks_def)
        then show "wp (seqm (stackful_check env (s_tasks s ! j)) (ret (Calls (InCore flat)))) (stops_ok t) (throws_ok t) w"
          using c ok_same by (simp_all add: stackful_check_def wps)
      next
        fix w assume "same_tasks v w"
        then have "same_tasks ?u w" using v by (simp add: same_tasks_def)
        then show "throws_ok t w" using c ok_same by simp
      qed
    qed
  qed
  then show ?thesis
    using fail t by (simp add: call_core_def task_start_def wps)
qed

lemma wp_lift_start:
  assumes env: "calls_inert env" and s: "flight t (\<lambda>_. 0) s" and t: "th_task (thr s t) = j" and o: "outside t s"
    and st: "tk_state (task_of s t) = T_initial"
  shows "wp (lift_start env j t) (stops_ok t) (throws_ok t) s"
  unfolding lift_start_def wp_bnd
proof (rule wp_mono [OF wp_enter [OF s t o st]])
  fix b u assume "gate_ok t j b u"
  then show "wp (if b then call_core env j else ret (Parks (Unblocked j) Entering)) (stops_ok t) (throws_ok t) u"
    using wp_call_core [OF env, of t u j] by (auto simp: gate_ok_def inside_def wps split: if_splits)
qed

text \<open>Resolution: the callback runs, then the state changes; nothing else of the tasks does.\<close>

lemma wp_resolves:
  assumes env: "calls_inert env"
  shows "wp (task_return env j r) (\<lambda>_ u. tk_state (s_tasks s ! j) \<noteq> T_resolved \<and>
      (\<exists>v. same_tasks s v \<and> u = new_task j ((s_tasks v ! j)\<lparr>tk_state := T_resolved\<rparr>) v)) (same_tasks s) s"
    "wp (task_cancel env j) (\<lambda>_ u. tk_state (s_tasks s ! j) = T_cancel_delivered \<and>
      (\<exists>v. same_tasks s v \<and> u = new_task j ((s_tasks v ! j)\<lparr>tk_state := T_resolved\<rparr>) v)) (same_tasks s) s"
proof -
  have c: "preserves (more_is x) (tv_onResolve env j r)" for x r using env by (simp add: calls_inert_def)
  have R: "wp (tv_onResolve env j r) (\<lambda>_. wp (upd_task j (\<lambda>tk. tk\<lparr>tk_state := T_resolved\<rparr>)) (\<lambda>_ u. \<exists>v. same_tasks s v \<and>
      u = new_task j ((s_tasks v ! j)\<lparr>tk_state := T_resolved\<rparr>) v) (same_tasks s)) (same_tasks s) s" for r
    by (rule wp_inert [OF c]) (auto simp: wps)
  show "wp (task_return env j r) (\<lambda>_ u. tk_state (s_tasks s ! j) \<noteq> T_resolved \<and>
      (\<exists>v. same_tasks s v \<and> u = new_task j ((s_tasks v ! j)\<lparr>tk_state := T_resolved\<rparr>) v)) (same_tasks s) s"
    "wp (task_cancel env j) (\<lambda>_ u. tk_state (s_tasks s ! j) = T_cancel_delivered \<and>
      (\<exists>v. same_tasks s v \<and> u = new_task j ((s_tasks v ! j)\<lparr>tk_state := T_resolved\<rparr>) v)) (same_tasks s) s"
    using R by (simp_all add: task_return_def task_cancel_def wps)
qed

lemma flight_resolved:
  assumes s: "flight t d s" and t: "th_task (thr s t) = j" and st: "tk_state (s_tasks s ! j) = T_initial \<Longrightarrow> \<not> th_explicit (thr s t)"
    and v: "same_tasks s v"
  shows "flight t d (new_task j ((s_tasks v ! j)\<lparr>tk_state := T_resolved\<rparr>) v)"
    "task_of (new_task j ((s_tasks v ! j)\<lparr>tk_state := T_resolved\<rparr>) v) t = (task_of s t)\<lparr>tk_state := T_resolved\<rparr>"
    "slot_of t (new_task j ((s_tasks v ! j)\<lparr>tk_state := T_resolved\<rparr>) v) = slot_of t s"
    "thr (new_task j ((s_tasks v ! j)\<lparr>tk_state := T_resolved\<rparr>) v) t = thr s t"
proof -
  note C = carried_same [OF v]
  have f: "flight t d v" and tj: "th_task (thr v t) = j" using s t C by simp_all
  show "flight t d (new_task j ((s_tasks v ! j)\<lparr>tk_state := T_resolved\<rparr>) v)"
    by (rule flight_state [OF f tj]) (use st C in simp_all)
  show "task_of (new_task j ((s_tasks v ! j)\<lparr>tk_state := T_resolved\<rparr>) v) t = (task_of s t)\<lparr>tk_state := T_resolved\<rparr>"
    "slot_of t (new_task j ((s_tasks v ! j)\<lparr>tk_state := T_resolved\<rparr>) v) = slot_of t s"
    using new_state_facts [OF f tj, of T_resolved] C by simp_all
  show "thr (new_task j ((s_tasks v ! j)\<lparr>tk_state := T_resolved\<rparr>) v) t = thr s t" using C by simp
qed

lemma tinv_service [simp]: "tinv F d (s\<lparr>s_service := b\<rparr>) = tinv F d s"
  by (simp add: tinv_def lists_ok_def task_good_def comp_good_def gated_def placed_def ended_ok_def thread_inst_def)

text \<open>The exit: out of the books and out of the slot.\<close>

lemma wp_exit:
  assumes s: "flight t (\<lambda>_. 0) s" and t: "th_task (thr s t) = j" "\<not> th_explicit (thr s t)" "tk_implicit (task_of s t) = Some t"
    and st: "tk_state (task_of s t) \<noteq> T_initial"
  shows "wp (seqm (exitImplicitThread j t) (ret Ends)) (stops_ok t) (throws_ok t) s"
proof -
  note F = flightD [OF s]
  note C = tinv_comp [OF F(1,2)]
  let ?k = "thread_inst t s"
  have fail: "throws_ok t s" using s t by (simp add: throws_ok_def)
  have out: "wp (if tk_ft_async (s_tasks s ! j) \<and> needsExclusive (s_tasks s ! j) then
        bnd (comp_at ?k) (\<lambda>c. seqm (assertm (ci_exclusive c = Some t) ''exit_implicit_thread without holding the exclusive thread'')
        (seqm (upd_comp ?k (\<lambda>c. c\<lparr>ci_exclusive := None\<rparr>)) requestService)) else ret ())
      (\<lambda>_. wp (ret Ends) (stops_ok t) (throws_ok t)) (throws_ok t) u"
    if u: "tinv {t} (\<lambda>_. 0) u" "tk_threads (task_of u t) = [] \<longrightarrow> tk_state (task_of s t) = T_resolved"
      "u = book t None L T s" "t \<notin> set L" for u L T
  proof -
    note B = book_simps(3,4,5,6,8,12,13) [OF F(2) C(3), where x = None and L = L and T = T]
    have fu: "flight t (\<lambda>_. 0) u" using flight_book [OF s] u(1,3) by simp
    have tk: "task_of u t = (task_of s t)\<lparr>tk_threads := L\<rparr>" and th: "thr u t = (thr s t)\<lparr>th_index := None\<rparr>"
      and sl: "slot_of t u = slot_of t s" and inst: "thread_inst t u = ?k"
      using u(3) B by (simp_all add: slot_of_def)
    have tu: "throws_ok t u" using fu t tk th by (simp add: throws_ok_def)
    show ?thesis
    proof (cases "claims_slot (task_of s t)")
      case False
      then have "slot_of t u \<noteq> Some t" using no_claim [OF fu] tk by (simp add: with_threads)
      then have "ending_ok t u" using tu tk th u(2,4) st by (simp add: ending_ok_def)
      then show ?thesis using False t by (auto simp: claims_slot_def wps)
    next
      case True
      have "ending_ok t (new_comp ?k ((s_comps u ! ?k)\<lparr>ci_exclusive := None\<rparr>) u\<lparr>s_service := True\<rparr>)"
        if "ci_exclusive (s_comps u ! ?k) = Some t"
      proof -
        let ?v = "new_comp ?k ((s_comps u ! ?k)\<lparr>ci_exclusive := None\<rparr>) u"
        have "flight t (\<lambda>_. 0) ?v"
          by (rule flight_slot [OF fu inst]) (use True t tk th sl inst that in \<open>simp_all add: slot_of_def with_threads\<close>)
        then have "flight t (\<lambda>_. 0) (?v\<lparr>s_service := True\<rparr>)"
          by (simp add: flight_def)
        moreover have "slot_of t (?v\<lparr>s_service := True\<rparr>) = None"
          using C(1) inst u(3) B(1) by (simp add: slot_of_def thread_inst_def new_comp_def)
        ultimately show ?thesis
          using tk th u(2,4) st t by (simp add: ending_ok_def throws_ok_def)
      qed
      then show ?thesis using True t tu by (simp add: claims_slot_def wps requestService_def)
    qed
  qed
  have "wp (unregisterThread j t) (\<lambda>_. wp (if tk_ft_async (s_tasks s ! j) \<and> needsExclusive (s_tasks s ! j) then
        bnd (comp_at ?k) (\<lambda>c. seqm (assertm (ci_exclusive c = Some t) ''exit_implicit_thread without holding the exclusive thread'')
        (seqm (upd_comp ?k (\<lambda>c. c\<lparr>ci_exclusive := None\<rparr>)) requestService)) else ret ())
      (\<lambda>_. wp (ret Ends) (stops_ok t) (throws_ok t)) (throws_ok t)) (throws_ok t) s"
  proof (rule wpI)
    fix x u assume "unregisterThread j t s = (Inr x, u)"
    from wpD(1) [OF wp_unregister [OF F(1) t(1)] this] obtain L T where "tinv {t} (\<lambda>_. 0) u"
      "tk_threads (task_of u t) = [] \<longrightarrow> tk_state (task_of s t) = T_resolved" "u = book t None L T s" "t \<notin> set L" by blast
    then show "wp (if tk_ft_async (s_tasks s ! j) \<and> needsExclusive (s_tasks s ! j) then
        bnd (comp_at ?k) (\<lambda>c. seqm (assertm (ci_exclusive c = Some t) ''exit_implicit_thread without holding the exclusive thread'')
        (seqm (upd_comp ?k (\<lambda>c. c\<lparr>ci_exclusive := None\<rparr>)) requestService)) else ret ())
      (\<lambda>_. wp (ret Ends) (stops_ok t) (throws_ok t)) (throws_ok t) u" by (rule out)
  next
    fix e u assume run: "unregisterThread j t s = (Inl e, u)"
    have inv: "tinv {t} (\<lambda>_. 0) u" by (rule wpD(2) [OF wp_unregister [OF F(1) t(1)] run])
    have "s_stack u = s_stack s \<and> s_threads u = s_threads s \<and> tk_implicit (s_tasks u ! j) = tk_implicit (s_tasks s ! j)"
      using run C(3) t(1) by (auto simp: unregisterThread_def task_at_def thread_at_def upd_task_def upd_thread_def threads_of_def zoom_run
          bnd_run seqm_run assertm_run trapIf_run nth_list_update split: sum.splits prod.splits if_splits)
    then show "throws_ok t u" using flight_to [OF s inv] t by (simp add: throws_ok_def)
  qed
  then show ?thesis
    unfolding exitImplicitThread_def wp_seqm wp_bnd wp_state wp_basic
    using fail t by (simp only: inst_task if_True refl)
qed

section \<open>The callback loop\<close>

text \<open>Delivering a cancellation: only the state changes, and only from a pending one.\<close>

definition delivered :: "nat \<Rightarrow> task_store \<Rightarrow> task_store" where
  "delivered j s = (if hasPendingCancel j s then new_task j ((s_tasks s ! j)\<lparr>tk_state := T_cancel_delivered\<rparr>) s else s)"

lemma deliver_run: "deliverPendingCancel j s = (Inr (hasPendingCancel j s), delivered j s)"
  by (simp add: deliverPendingCancel_def bnd_run seqm_run upd_task_def delivered_def new_task_def)

lemma wp_deliver [wps]: "wp (deliverPendingCancel j) Q E s = Q (hasPendingCancel j s) (delivered j s)"
  by (simp add: wp_def deliver_run)

lemma flight_delivered:
  assumes s: "flight t d s" and t: "th_task (thr s t) = j"
  shows "flight t d (delivered j s)" "thr (delivered j s) t = thr s t" "slot_of t (delivered j s) = slot_of t s"
    "thread_inst t (delivered j s) = thread_inst t s" "claims_slot (task_of (delivered j s) t) = claims_slot (task_of s t)"
    "aboard t s \<Longrightarrow> aboard t (delivered j s)" "holds t s \<Longrightarrow> holds t (delivered j s)"
    "tk_implicit (task_of (delivered j s) t) = tk_implicit (task_of s t)" "tk_inst (s_tasks (delivered j s) ! j) = tk_inst (s_tasks s ! j)"
    "s_comps (delivered j s) = s_comps s" "tk_ft_async (s_tasks (delivered j s) ! j) = tk_ft_async (s_tasks s ! j)"
proof -
  note N = new_state_facts [OF s t, of T_cancel_delivered]
  show f: "flight t d (delivered j s)"
    using s flight_state [OF s t, of T_cancel_delivered] by (auto simp: delivered_def hasPendingCancel_def)
  show "thr (delivered j s) t = thr s t" "slot_of t (delivered j s) = slot_of t s" "thread_inst t (delivered j s) = thread_inst t s"
    "tk_implicit (task_of (delivered j s) t) = tk_implicit (task_of s t)" "s_comps (delivered j s) = s_comps s"
    using N by (simp_all add: delivered_def)
  show "claims_slot (task_of (delivered j s) t) = claims_slot (task_of s t)"
    "aboard t s \<Longrightarrow> aboard t (delivered j s)" "holds t s \<Longrightarrow> holds t (delivered j s)"
    using N by (simp_all add: delivered_def claims_slot_def needsExclusive_def aboard_def holds_def)
  show "tk_inst (s_tasks (delivered j s) ! j) = tk_inst (s_tasks s ! j)"
    "tk_ft_async (s_tasks (delivered j s) ! j) = tk_ft_async (s_tasks s ! j)"
    using N(1) t by (simp_all add: delivered_def)
qed

lemma put_comp_facts:
  assumes s: "flight t d s"
  shows "thr (new_comp k c s) t = thr s t" "task_of (new_comp k c s) t = task_of s t" "thread_inst t (new_comp k c s) = thread_inst t s"
    "k = thread_inst t s \<Longrightarrow> slot_of t (new_comp k c s) = ci_exclusive c" "aboard t (new_comp k c s) = aboard t s"
  using tinv_comp(1) [OF flightD(1,2) [OF s]]
  by (simp_all add: thread_inst_def slot_of_def aboard_def)

lemma at_park:
  assumes s: "flight t (\<lambda>_. 0) s" and a: "aboard t s" "\<not> th_explicit (thr s t)" "claims_slot (task_of s t)" "slot_of t s \<noteq> Some t"
    and p: "p = WaitYield \<and> f = SlotFree (thread_inst t s) \<or> (\<exists>q. p = WaitEvent q \<and> f = CallbackEvent (thread_inst t s) q (th_task (thr s t)))"
  shows "parks_ok t f p s"
proof -
  have e: "(\<lambda>k. if p = Entering \<and> thread_inst t s = k then 1 else 0) = (\<lambda>_. 0 :: int)" using p by auto
  show ?thesis
    using s a p flightD(5) [OF s] unfolding parks_ok_def e
    by (auto simp: at_place_def in_task_def aboard_def thread_inst_def)
qed

lemma wp_callback_loop:
  assumes s: "flight t (\<lambda>_. 0) s" and t: "th_task (thr s t) = j" and a: "aboard t s" "\<not> th_explicit (thr s t)"
  shows "wp (callback_loop j t packed) (stops_ok t) (throws_ok t) s"
proof -
  let ?k = "thread_inst t s"
  have fail: "throws_ok t s" by (rule aboard_throws [OF s a(1)])
  have exit: "wp (seqm (exitImplicitThread j t) (ret Ends)) (stops_ok t) (throws_ok t) s"
    by (rule wp_exit [OF s t]) (use a in \<open>simp_all add: aboard_def\<close>)
  have park: "wp (if c = YIELD then ret (Parks (SlotFree ?k) WaitYield)
       else bnd (handle_get ?k si) (\<lambda>entry. case entry of
               WaitableSetE q \<Rightarrow> seqm (wait_enter q) (ret (Parks (CallbackEvent ?k q j) (WaitEvent q)))
             | _ \<Rightarrow> throw (Trap ''callback returned WAIT with an index that is not a waitable set'')))
      (stops_ok t) (throws_ok t) (new_comp ?k ((s_comps s ! ?k)\<lparr>ci_exclusive := None\<rparr>) s)"
    if c: "claims_slot (task_of s t)" "slot_of t s = Some t" for c si
  proof -
    let ?u = "new_comp ?k ((s_comps s ! ?k)\<lparr>ci_exclusive := None\<rparr>) s"
    note P = put_comp_facts [OF s]
    have u: "flight t (\<lambda>_. 0) ?u" by (rule flight_slot [OF s]) (use a c in simp_all)
    have au: "aboard t ?u" "\<not> th_explicit (thr ?u t)" "claims_slot (task_of ?u t)" "slot_of t ?u \<noteq> Some t"
      using a c P by simp_all
    have y: "parks_ok t (SlotFree ?k) WaitYield ?u" by (rule at_park [OF u au]) (simp add: P)
    have w: "parks_ok t (CallbackEvent ?k q j) (WaitEvent q) ?u" for q by (rule at_park [OF u au]) (simp add: P t)
    have f: "throws_ok t ?u" by (rule aboard_throws [OF u au(1)])
    have enter: "wp (seqm (wait_enter q) (ret (Parks (CallbackEvent ?k q j) (WaitEvent q)))) (stops_ok t) (throws_ok t) v"
      if v: "same_tasks ?u v" for q v
      unfolding wp_seqm
      by (rule wp_inert) (use w f v in \<open>auto simp: wps ok_same intro: preserving\<close>)
    have "wp (bnd (handle_get ?k si) (\<lambda>entry. case entry of
               WaitableSetE q \<Rightarrow> seqm (wait_enter q) (ret (Parks (CallbackEvent ?k q j) (WaitEvent q)))
             | _ \<Rightarrow> throw (Trap ''callback returned WAIT with an index that is not a waitable set'')))
      (stops_ok t) (throws_ok t) ?u"
      unfolding wp_bnd
    proof (rule wp_inert)
      show "preserves (more_is x) (handle_get ?k si)" for x by (rule preserving)
      show "throws_ok t v" if "same_tasks ?u v" for v using f ok_same [OF that] by simp
      show "wp (case entry of WaitableSetE q \<Rightarrow> seqm (wait_enter q) (ret (Parks (CallbackEvent ?k q j) (WaitEvent q)))
             | _ \<Rightarrow> throw (Trap ''callback returned WAIT with an index that is not a waitable set'')) (stops_ok t) (throws_ok t) v"
        if v: "same_tasks ?u v" for entry v
        using enter [OF v] f ok_same [OF v] by (cases entry) (simp_all add: wp_basic)
    qed
    then show ?thesis using y by (simp add: wp_basic)
  qed
  have calls: "calls_ok t (InCallback (TASK_CANCELLED, 0, 0)) (delivered j s)" if "slot_of t s = Some t"
    using flight_delivered [OF s t] a that by (simp add: calls_ok_def holds_def)
  have imp: "tk_implicit (s_tasks s ! j) = Some t" using a t by (simp add: aboard_def)
  show ?thesis
  proof (cases "unpackCallbackResult packed")
    case (Inl e)
    then show ?thesis using fail by (simp add: callback_loop_def wps)
  next
    case (Inr r)
    obtain code si where r: "r = (code, si)" by (cases r)
    show ?thesis
    proof (cases "code = EXIT")
      case True
      then show ?thesis using exit by (simp add: callback_loop_def wp_bnd wp_basic Inr r)
    next
      case False
      have "wp (seqm (upd_comp ?k (\<lambda>c. c\<lparr>ci_exclusive := None\<rparr>))
          (if code = YIELD then ret (Parks (SlotFree ?k) WaitYield)
           else bnd (handle_get ?k si) (\<lambda>entry. case entry of
               WaitableSetE q \<Rightarrow> seqm (wait_enter q) (ret (Parks (CallbackEvent ?k q j) (WaitEvent q)))
             | _ \<Rightarrow> throw (Trap ''callback returned WAIT with an index that is not a waitable set'')))) (stops_ok t) (throws_ok t) s"
        if "claims_slot (task_of s t)" "slot_of t s = Some t"
        unfolding wp_seqm wp_state by (rule park [OF that])
      then show ?thesis
        using False fail calls imp t inst_task [OF t]
        by (cases "code = YIELD"; cases "hasPendingCancel j s")
          (simp_all add: callback_loop_def wp_bnd wp_basic wp_state wp_deliver Inr r claims_slot_def slot_of_def delivered_def
            wp_seqm [of "assertm _ _"])
    qed
  qed
qed

lemma wp_retake:
  assumes s: "flight t (\<lambda>_. 0) s" and t: "th_task (thr s t) = j" and a: "aboard t s" "\<not> th_explicit (thr s t)" "claims_slot (task_of s t)"
  shows "wp (bnd (task_at j) (\<lambda>tk. seqm (retake_slot tk) (ret (Calls (InCallback event))))) (stops_ok t) (throws_ok t) s"
proof -
  let ?k = "thread_inst t s"
  let ?u = "new_comp ?k ((s_comps s ! ?k)\<lparr>ci_exclusive := Some t\<rparr>) s"
  have fail: "throws_ok t s" by (rule aboard_throws [OF s a(1)])
  have "calls_ok t (InCallback event) ?u" if "slot_of t s = None"
    using flight_slot [OF s refl a(2,3), of "Some t"] put_comp_facts [OF s] that a by (simp add: calls_ok_def holds_def)
  then show ?thesis
    using fail t a inst_task [OF t] by (simp add: wps retake_slot_def slot_of_def aboard_def)
qed

lemma wp_yield_resume:
  assumes s: "flight t (\<lambda>_. 0) s" and t: "th_task (thr s t) = j" and a: "aboard t s" "\<not> th_explicit (thr s t)" "claims_slot (task_of s t)"
  shows "wp (yield_resume j) (stops_ok t) (throws_ok t) s"
  unfolding yield_resume_def wp_bnd [of "deliverPendingCancel j"] wp_deliver
  using wp_retake [OF flight_delivered(1) [OF s t]] flight_delivered [OF s t] t a by simp

lemma wp_wait_resume:
  assumes s: "flight t (\<lambda>_. 0) s" and t: "th_task (thr s t) = j" and a: "aboard t s" "\<not> th_explicit (thr s t)" "claims_slot (task_of s t)"
  shows "wp (wait_resume j q) (stops_ok t) (throws_ok t) s"
proof -
  let ?d = "delivered j s"
  note D = flight_delivered [OF s t]
  have R: "wp (bnd (task_at j) (\<lambda>tk. seqm (retake_slot tk) (ret (Calls (InCallback event))))) (stops_ok t) (throws_ok t) v"
    if v: "same_tasks ?d v" for v event
    using wp_retake [of t v j event] carried_same [OF v] D t a by simp
  have F: "throws_ok t v" if v: "same_tasks ?d v" for v
    using aboard_throws [OF D(1) D(6) [OF a(1)]] ok_same(1) [OF v] by simp
  have leave: "same_tasks w (wait_leave q w)" for w :: task_store by (simp add: same_tasks_def wait_leave_def)
  have run: "finallym (bnd (deliverPendingCancel j) (\<lambda>cancelled. if cancelled then ret (TASK_CANCELLED, 0, 0) else wset_getPendingEvent run_event q))
      (wait_leave q) s = (r, v) \<Longrightarrow> same_tasks ?d v" for r v
  proof -
    assume f: "finallym (bnd (deliverPendingCancel j) (\<lambda>cancelled. if cancelled then ret (TASK_CANCELLED, 0, 0) else wset_getPendingEvent run_event q))
      (wait_leave q) s = (r, v)"
    have "wp (if hasPendingCancel j s then ret (TASK_CANCELLED, 0, 0) else wset_getPendingEvent run_event q)
        (\<lambda>_ u. same_tasks ?d u) (same_tasks ?d) ?d"
      by (rule wp_inert) (auto intro: preserving)
    then have "same_tasks ?d (snd ((if hasPendingCancel j s then ret (TASK_CANCELLED, 0, 0) else wset_getPendingEvent run_event q) ?d))"
      by (auto simp: wp_def split: prod.splits sum.splits)
    then have "same_tasks ?d (snd (bnd (deliverPendingCancel j) (\<lambda>cancelled. if cancelled then ret (TASK_CANCELLED, 0, 0) else wset_getPendingEvent run_event q) s))"
      by (simp add: bnd_run deliver_run)
    then show "same_tasks ?d v"
      using f leave by (auto simp: finallym_def same_tasks_def split: prod.splits)
  qed
  show ?thesis
    unfolding wait_resume_def waitForCallbackEvent_resume_def wp_bnd [of "finallym _ _"]
    by (rule wpI) (use run R F in auto)
qed


section \<open>From the gate, out of the core function, and to the end\<close>

definition outset :: "nat \<Rightarrow> pc \<Rightarrow> task_store \<Rightarrow> nat \<Rightarrow> int" where
  "outset t p s = (\<lambda>k. if p = Entering \<and> thread_inst t s = k then 1 else 0)"

lemma outset_0: "p \<noteq> Entering \<Longrightarrow> outset t p s = (\<lambda>_. 0)"
  by (simp add: outset_def)

lemma wp_ret_fun: "wp (ret x) Q E = Q x"
  by (rule ext) (simp add: wps)

lemma outside_delivered:
  assumes "flight t d s" "th_task (thr s t) = j" "outside t s"
  shows "outside t (delivered j s)"
proof -
  have "tk_threads (task_of (delivered j s) t) = tk_threads (task_of s t)"
    using new_state_facts(1) [OF assms(1,2), of T_cancel_delivered] by (simp add: delivered_def)
  then show ?thesis using flight_delivered(2,3) [OF assms(1,2)] assms(3) by (simp add: outside_def)
qed

lemma wp_lift_admitted:
  assumes env: "calls_inert env" and s: "flight t (outset t Entering s) s" and t: "th_task (thr s t) = j"
    and o: "outside t s" "tk_implicit (task_of s t) = Some t"
  shows "wp (lift_admitted env j t) (stops_ok t) (throws_ok t) s"
proof -
  let ?k = "thread_inst t s"
  let ?u = "new_comp ?k ((s_comps s ! ?k)\<lparr>ci_entering := ci_entering (s_comps s ! ?k) - 1\<rparr>) s"
  let ?d = "delivered j ?u"
  have k: "?k < length (s_comps s)" by (rule tinv_comp(1) [OF flightD(1,2) [OF s]])
  have u: "flight t (\<lambda>_. 0) ?u"
    using flight_gate [OF s refl, where e = "\<lambda>_. 0" and n = "- 1"] by (simp add: outset_def)
  note P = put_comp_facts [OF s]
  have tu: "th_task (thr ?u t) = j" using P t by simp
  note D = flight_delivered [OF u tu]
  have od: "outside t ?d" "tk_implicit (task_of ?d t) = Some t"
    using outside_delivered [OF u tu] o D(8) P slot_new_comp [OF k] by (simp_all add: outside_def slot_of_def)
  have cancelled: "wp (task_cancel env j) (\<lambda>_. wp (ret Ends) (stops_ok t) (throws_ok t)) (throws_ok t) ?d"
    if "hasPendingCancel j ?u"
  proof (rule wp_mono [OF wp_resolves(2) [OF env]])
    have td: "th_task (thr ?d t) = j" using D(2) tu by simp
    have I: "\<not> th_explicit (thr ?d t)" using od by (simp add: outside_def)
    show "throws_ok t v" if "same_tasks ?d v" for v
      using D(1) od I ok_same(1) [OF that] by (simp add: throws_ok_def)
    fix x w assume "tk_state (s_tasks ?d ! j) = T_cancel_delivered \<and>
      (\<exists>v. same_tasks ?d v \<and> w = new_task j ((s_tasks v ! j)\<lparr>tk_state := T_resolved\<rparr>) v)"
    then obtain v where v: "same_tasks ?d v" and w: "w = new_task j ((s_tasks v ! j)\<lparr>tk_state := T_resolved\<rparr>) v" by blast
    note R = flight_resolved [OF D(1) td _ v]
    show "wp (ret Ends) (stops_ok t) (throws_ok t) w"
      using R od I by (simp add: w wps ending_ok_def throws_ok_def outside_def)
  qed
  have admitted: "wp (admit j t) (\<lambda>_. wp (call_core env j) (stops_ok t) (throws_ok t)) (throws_ok t) ?d"
    by (rule wp_mono [OF wp_admit [OF D(1) _ od]]) (use D(2) tu wp_call_core [OF env] in \<open>auto simp: inside_def\<close>)
  show ?thesis
    using cancelled admitted t
    by (simp add: lift_admitted_def enterImplicitThread_resume_def leave_gate_def wps inst_task wp_ret_fun)
qed

lemma aboard_resolved:
  assumes "flight t d s" "th_task (thr s t) = j" "aboard t s" "holds t s" "same_tasks s v"
  shows "aboard t (new_task j ((s_tasks v ! j)\<lparr>tk_state := T_resolved\<rparr>) v)" "holds t (new_task j ((s_tasks v ! j)\<lparr>tk_state := T_resolved\<rparr>) v)"
proof -
  have "tk_state (s_tasks s ! j) \<noteq> T_initial" using assms(2,3) by (auto simp: aboard_def)
  then show "aboard t (new_task j ((s_tasks v ! j)\<lparr>tk_state := T_resolved\<rparr>) v)"
    "holds t (new_task j ((s_tasks v ! j)\<lparr>tk_state := T_resolved\<rparr>) v)"
    using flight_resolved [OF assms(1,2) _ assms(5)] assms(3,4)
    by (simp_all add: aboard_def holds_def claims_slot_def needsExclusive_def)
qed

lemma inert_results: "preserves (more_is x) (sync_results env j tk vs)"
  by (auto simp del: run_rules simp: sync_results_def lift_results_def intro!: preserving)

lemma inert_may_leave: "preserves (more_is x) (set_may_leave k b)" "preserves (more_is x) (mayLeave k)"
  by (auto simp del: run_rules simp: set_may_leave_def mayLeave_def intro!: preserving)

text \<open>A calm stretch, after which the thread is where it was.\<close>

lemma wp_still:
  assumes "\<And>x. preserves (more_is x) a" "throws_ok t s" "\<And>x u. same_tasks s u \<Longrightarrow> wp (f x) Q (throws_ok t) u"
  shows "wp (bnd a f) Q (throws_ok t) s"
  unfolding wp_bnd by (rule wp_inert [OF assms(1)]) (use assms(2,3) ok_same in auto)

lemma wp_still_seq:
  assumes "\<And>x. preserves (more_is x) a" "throws_ok t s" "\<And>u. same_tasks s u \<Longrightarrow> wp b Q (throws_ok t) u"
  shows "wp (seqm a b) Q (throws_ok t) s"
  unfolding wp_seqm by (rule wp_inert [OF assms(1)]) (use assms(2,3) ok_same in auto)

lemma carried:
  assumes "same_tasks s u" "flight t (\<lambda>_. 0) s" "th_task (thr s t) = j" "aboard t s" "holds t s" "\<not> th_explicit (thr s t)"
  shows "flight t (\<lambda>_. 0) u" "th_task (thr u t) = j" "aboard t u" "holds t u" "\<not> th_explicit (thr u t)" "throws_ok t u"
  using assms carried_same [OF assms(1)] aboard_throws [OF assms(2,4)] ok_same(1) [OF assms(1)] by simp_all

lemma wp_leaves:
  assumes "flight t (\<lambda>_. 0) s" "th_task (thr s t) = j" "aboard t s" "\<not> th_explicit (thr s t)"
  shows "wp (seqm (exitImplicitThread j t) (ret Ends)) (stops_ok t) (throws_ok t) s"
  by (rule wp_exit [OF assms(1,2)]) (use assms in \<open>simp_all add: aboard_def\<close>)

lemma wp_post_return:
  assumes s: "flight t (\<lambda>_. 0) s" "th_task (thr s t) = j" "aboard t s" "holds t s" "\<not> th_explicit (thr s t)"
  shows "wp (bnd (mayLeave k) (\<lambda>m. seqm (assertm m msg) (seqm (set_may_leave k False) (ret (Calls InPostReturn))))) (stops_ok t) (throws_ok t) s"
proof (rule wp_still [OF inert_may_leave(2) aboard_throws [OF s(1,3)]])
  fix m u assume u: "same_tasks s u"
  note C = carried [OF u s]
  have "wp (seqm (set_may_leave k False) (ret (Calls InPostReturn))) (stops_ok t) (throws_ok t) u"
  proof (rule wp_still_seq [OF inert_may_leave(1) C(6)])
    fix v assume "same_tasks u v"
    from carried [OF this C(1-5)] show "wp (ret (Calls InPostReturn)) (stops_ok t) (throws_ok t) v"
      by (simp add: wps calls_ok_def)
  qed
  then show "wp (seqm (assertm m msg) (seqm (set_may_leave k False) (ret (Calls InPostReturn)))) (stops_ok t) (throws_ok t) u"
    using C(6) by (simp add: wp_seqm [of "assertm _ _"] wp_basic)
qed

lemma wp_post_return_done:
  assumes s: "flight t (\<lambda>_. 0) s" "th_task (thr s t) = j" "aboard t s" "holds t s" "\<not> th_explicit (thr s t)"
  shows "wp (post_return_done j t) (stops_ok t) (throws_ok t) s"
proof -
  have "wp (seqm (set_may_leave k True) (seqm (exitImplicitThread j t) (ret Ends))) (stops_ok t) (throws_ok t) s" for k
    by (rule wp_still_seq [OF inert_may_leave(1) aboard_throws [OF s(1,3)]]) (use wp_leaves carried [OF _ s] in blast)
  then show ?thesis by (simp add: post_return_done_def wp_bnd wp_state)
qed

lemma wp_core_done:
  assumes env: "calls_inert env"
    and s: "flight t (\<lambda>_. 0) s" "th_task (thr s t) = j" "aboard t s" "holds t s" "\<not> th_explicit (thr s t)"
  shows "wp (core_done env j t vs) (stops_ok t) (throws_ok t) s"
proof -
  let ?tk = "s_tasks s ! j"
  have fail: "throws_ok t s" by (rule aboard_throws [OF s(1,3)])
  have after: "wp (if tk_post_return ?tk then
          bnd (mayLeave (tk_inst ?tk)) (\<lambda>m. seqm (assertm m ''post-return with may_leave already false'')
          (seqm (set_may_leave (tk_inst ?tk) False) (ret (Calls InPostReturn))))
        else seqm (exitImplicitThread j t) (ret Ends)) (stops_ok t) (throws_ok t) u"
    if p: "tk_state (s_tasks v ! j) \<noteq> T_resolved \<and> (\<exists>w. same_tasks v w \<and> u = new_task j ((s_tasks w ! j)\<lparr>tk_state := T_resolved\<rparr>) w)"
      and v: "same_tasks s v" for u v
  proof -
    obtain w where w: "same_tasks v w" "u = new_task j ((s_tasks w ! j)\<lparr>tk_state := T_resolved\<rparr>) w" using p by blast
    note C = carried [OF v s]
    have st: "tk_state (s_tasks v ! j) \<noteq> T_initial" using C(2,3) by (auto simp: aboard_def)
    note R = flight_resolved [OF C(1,2) _ w(1)] aboard_resolved [OF C(1-4) w(1)]
    have u: "flight t (\<lambda>_. 0) u" "th_task (thr u t) = j" "aboard t u" "holds t u" "\<not> th_explicit (thr u t)"
      using R st C by (simp_all add: w(2))
    show ?thesis using wp_post_return [OF u] wp_leaves [OF u(1-3,5)] by (cases "tk_post_return ?tk") simp_all
  qed
  have resolve: "wp (seqm (task_return env j results) (if tk_post_return ?tk then
          bnd (mayLeave (tk_inst ?tk)) (\<lambda>m. seqm (assertm m ''post-return with may_leave already false'')
          (seqm (set_may_leave (tk_inst ?tk) False) (ret (Calls InPostReturn))))
        else seqm (exitImplicitThread j t) (ret Ends))) (stops_ok t) (throws_ok t) v" if v: "same_tasks s v" for results v
    unfolding wp_seqm [of "task_return _ _ _"]
    by (rule wp_mono [OF wp_resolves(1) [OF env]]) (use after v ok_same(1) carried(6) [OF v s] in blast)+
  have sync: "wp (bnd (sync_results env j ?tk vs) (\<lambda>results. seqm (task_return env j results) (if tk_post_return ?tk then
          bnd (mayLeave (tk_inst ?tk)) (\<lambda>m. seqm (assertm m ''post-return with may_leave already false'')
          (seqm (set_may_leave (tk_inst ?tk) False) (ret (Calls InPostReturn))))
        else seqm (exitImplicitThread j t) (ret Ends)))) (stops_ok t) (throws_ok t) s"
    by (rule wp_still [OF inert_results fail resolve])
  have stackful: "wp (seqm (if tk_fact ?tk then bnd (of_res (normalizeCoreValues vs [])) (\<lambda>_. ret ()) else ret ())
       (seqm (exitImplicitThread j t) (ret Ends))) (stops_ok t) (throws_ok t) s"
    by (rule wp_still_seq [OF _ fail]) (auto simp del: run_rules intro!: preserving wp_leaves simp: carried [OF _ s])
  have callback: "wp (bnd (of_res (packed_of vs)) (callback_loop j t)) (stops_ok t) (throws_ok t) s"
    by (rule wp_still [OF _ fail]) (auto simp del: run_rules intro!: preserving wp_callback_loop simp: carried [OF _ s])
  show ?thesis
    unfolding core_done_def wp_bnd [of "task_at j"] wp_state using sync stackful callback by simp
qed

lemma wp_callback_done:
  assumes s: "flight t (\<lambda>_. 0) s" "th_task (thr s t) = j" "aboard t s" "holds t s" "\<not> th_explicit (thr s t)"
  shows "wp (bnd (of_res (packed_of vs)) (callback_loop j t)) (stops_ok t) (throws_ok t) s"
  by (rule wp_still [OF _ aboard_throws [OF s(1,3)]])
    (auto simp del: run_rules intro!: preserving wp_callback_loop simp: carried [OF _ s])

section \<open>The body of an explicit thread\<close>

lemma unregister_fails:
  assumes s: "flight t d s" and t: "th_task (thr s t) = j" and run: "unregisterThread j t s = (Inl e, u)"
  shows "flight t d u" "thr u t = thr s t" "tk_implicit (task_of u t) = tk_implicit (task_of s t)"
    "tk_state (task_of u t) = tk_state (task_of s t)"
proof -
  note F = flightD [OF s]
  have inv: "tinv {t} d u" by (rule wpD(2) [OF wp_unregister [OF F(1) t] run])
  have k: "s_stack u = s_stack s \<and> s_threads u = s_threads s \<and> tk_implicit (s_tasks u ! j) = tk_implicit (s_tasks s ! j) \<and>
      tk_state (s_tasks u ! j) = tk_state (s_tasks s ! j)"
    using run tinv_comp(3) [OF F(1,2)] t
    by (auto simp: unregisterThread_def task_at_def thread_at_def upd_task_def upd_thread_def threads_of_def zoom_run
        bnd_run seqm_run assertm_run trapIf_run nth_list_update split: sum.splits prod.splits if_splits)
  then show "flight t d u" by (intro flight_to [OF s inv]) simp_all
  show "thr u t = thr s t" "tk_implicit (task_of u t) = tk_implicit (task_of s t)"
    "tk_state (task_of u t) = tk_state (task_of s t)"
    using k t by simp_all
qed

lemma wp_explicit_done:
  assumes s: "flight t (\<lambda>_. 0) s" and t: "th_task (thr s t) = j" "th_explicit (thr s t)" and a: "aboard t s"
  shows "wp (explicit_done j t) (stops_ok t) (throws_ok t) s"
proof -
  note F = flightD [OF s]
  note C = tinv_comp [OF F(1,2)]
  have "wp (unregisterThread j t) (\<lambda>_. ending_ok t) (throws_ok t) s"
  proof (rule wpI)
    fix x u assume "unregisterThread j t s = (Inr x, u)"
    from wpD(1) [OF wp_unregister [OF F(1) t(1)] this] obtain L T where u: "tinv {t} (\<lambda>_. 0) u"
      "tk_threads (task_of u t) = [] \<longrightarrow> tk_state (task_of s t) = T_resolved" "u = book t None L T s" "t \<notin> set L" by blast
    note B = book_simps(4,5) [OF F(2) C(3), where x = None and L = L and T = T]
    have fu: "flight t (\<lambda>_. 0) u" using flight_book [OF s] u(1,3) by simp
    have th: "thr u t = (thr s t)\<lparr>th_index := None\<rparr>" "task_of u t = (task_of s t)\<lparr>tk_threads := L\<rparr>" using B u(3) by simp_all
    have "slot_of t u \<noteq> Some t" using no_claim [OF fu] th t(2) by simp
    then show "ending_ok t u"
      using fu th t a u(2,4) by (simp add: ending_ok_def throws_ok_def aboard_def)
  next
    fix e u assume "unregisterThread j t s = (Inl e, u)"
    from unregister_fails [OF s t(1) this] show "throws_ok t u" using t a by (simp add: throws_ok_def aboard_def)
  qed
  then have "wp (unregisterThread j t) (\<lambda>_. wp (ret Ends) (stops_ok t) (throws_ok t)) (throws_ok t) s"
    by (rule wp_mono) (simp_all add: wps)
  then show ?thesis using a by (simp add: explicit_done_def wp_bnd wp_seqm wp_state aboard_def)
qed

lemma wp_explicit_throws:
  assumes s: "flight t (\<lambda>_. 0) s" and t: "th_explicit (thr s t)" and a: "aboard t s"
  shows "wp (seqm (abortThread (th_task (thr s t)) t) (throw e)) Q (throws_ok t) s"
proof -
  note F = flightD [OF s]
  note C = tinv_comp [OF F(1,2)]
  have "throws_ok t u" if "tinv {t} (\<lambda>_. 0) u" "u = book t None L T s" for u L T
    using flight_book [OF s that(1) [unfolded that(2)]] book_simps(4,5) [OF F(2) C(3)] that(2) t a
    by (simp add: throws_ok_def aboard_def)
  moreover have "wp (abortThread (th_task (thr s t)) t) (\<lambda>_ u. tinv {t} (\<lambda>_. 0) u \<and> (\<exists>L T. u = book t None L T s)) (\<lambda>_. False) s"
    by (rule wp_abort [OF F(1)]) (use F(3) in simp_all)
  ultimately show ?thesis
    unfolding wp_seqm by (elim wp_mono) (auto simp: wps)
qed

section \<open>One step of a body\<close>

text \<open>What holds of a thread that takes off from each place.\<close>

definition boards :: "nat \<Rightarrow> task_store \<Rightarrow> bool" where
  "boards t s \<longleftrightarrow> flight t (outset t (th_pc (thr s t)) s) s \<and>
     (case th_pc (thr s t) of
        NotStarted \<Rightarrow> if th_explicit (thr s t) then aboard t s else outside t s \<and> tk_state (task_of s t) = T_initial
      | Entering \<Rightarrow> outside t s \<and> tk_implicit (task_of s t) = Some t
      | WaitYield \<Rightarrow> aboard t s \<and> \<not> th_explicit (thr s t) \<and> claims_slot (task_of s t)
      | WaitEvent q \<Rightarrow> aboard t s \<and> \<not> th_explicit (thr s t) \<and> claims_slot (task_of s t)
      | Finished \<Rightarrow> False
      | Failed \<Rightarrow> False
      | p \<Rightarrow> aboard t s \<and> holds t s \<and> (th_explicit (thr s t) \<longrightarrow> (\<exists>a. p = InCore a)))"

lemma boards_same: "same_tasks s u \<Longrightarrow> boards t u = boards t s"
  by (cases "th_pc (thr s t)") (simp_all add: boards_def outside_def outset_def carried_same)

lemma wp_body_next:
  assumes env: "calls_inert env" and b: "boards t s" and i: "\<And>e. i = Throws e \<Longrightarrow> in_wasm (th_pc (thr s t))"
  shows "wp (body_next env t (thr s t) i) (stops_ok t) (throws_ok t) s"
proof -
  let ?th = "thr s t"
  have s: "flight t (\<lambda>_. 0) s" if "th_pc ?th \<noteq> Entering" using b that by (simp add: boards_def outset_0)
  have wasm: "aboard t s" "holds t s" if "in_wasm (th_pc ?th)" using b that by (cases "th_pc ?th"; simp add: boards_def)+
  have next': "wp (body_next env t ?th i) (stops_ok t) (throws_ok t) s" if i': "case i of Throws e \<Rightarrow> False | _ \<Rightarrow> True"
  proof (cases "th_pc ?th")
    case NotStarted
    have f: "flight t (\<lambda>_. 0) s" using s NotStarted by simp
    show ?thesis
    proof (cases "th_explicit ?th")
      case True
      then show ?thesis using i' b NotStarted f by (cases i) (simp_all add: wps boards_def calls_ok_def holds_def)
    next
      case False
      then have "wp (lift_start env (th_task ?th) t) (stops_ok t) (throws_ok t) s"
        using b NotStarted by (intro wp_lift_start [OF env f]) (simp_all add: boards_def)
      then show ?thesis using i' NotStarted False by (cases i) simp_all
    qed
  next
    case Entering
    have "wp (lift_admitted env (th_task ?th) t) (stops_ok t) (throws_ok t) s"
      using b Entering by (intro wp_lift_admitted [OF env]) (simp_all add: boards_def)
    then show ?thesis using i' Entering by (cases i) simp_all
  next
    case (InCore a)
    note f = s [simplified InCore] wasm [simplified InCore]
    have "wp (explicit_done (th_task ?th) t) (stops_ok t) (throws_ok t) s" if "th_explicit ?th"
      using wp_explicit_done [OF _ refl that] f by simp
    moreover have "wp (core_done env (th_task ?th) t vs) (stops_ok t) (throws_ok t) s" if "\<not> th_explicit ?th" for vs
      using wp_core_done [OF env _ refl _ _ that] f by simp
    ultimately show ?thesis using i' InCore by (cases i; cases "th_explicit ?th") simp_all
  next
    case (InCallback ev)
    have "\<not> th_explicit ?th" using b InCallback by (auto simp: boards_def)
    then have "wp (bnd (of_res (packed_of vs)) (callback_loop (th_task ?th) t)) (stops_ok t) (throws_ok t) s" for vs
      using wp_callback_done [OF s refl wasm] InCallback by simp
    then show ?thesis using i' InCallback by (cases i) simp_all
  next
    case InPostReturn
    have "\<not> th_explicit ?th" using b InPostReturn by (auto simp: boards_def)
    then have "wp (post_return_done (th_task ?th) t) (stops_ok t) (throws_ok t) s"
      using wp_post_return_done [OF s refl wasm] InPostReturn by simp
    then show ?thesis using i' InPostReturn by (cases i) simp_all
  next
    case WaitYield
    then have "wp (yield_resume (th_task ?th)) (stops_ok t) (throws_ok t) s"
      using b s by (intro wp_yield_resume [OF _ refl]) (simp_all add: boards_def)
    then show ?thesis using i' WaitYield by (cases i) simp_all
  next
    case (WaitEvent q)
    then have "wp (wait_resume (th_task ?th) q) (stops_ok t) (throws_ok t) s"
      using b s by (intro wp_wait_resume [OF _ refl]) (simp_all add: boards_def)
    then show ?thesis using i' WaitEvent by (cases i) simp_all
  qed (use b in \<open>simp_all add: boards_def\<close>)
  show ?thesis
  proof (cases "\<exists>e. i = Throws e")
    case True
    then obtain e where e: "i = Throws e" by blast
    from i [OF e] have w: "in_wasm (th_pc ?th)" "th_pc ?th \<noteq> NotStarted" "th_pc ?th \<noteq> Entering" by auto
    have f: "flight t (\<lambda>_. 0) s" by (rule s [OF w(3)])
    show ?thesis
    proof (cases "th_explicit ?th")
      case True
      then show ?thesis using wp_explicit_throws [OF f True wasm(1) [OF w(1)]] w by (simp add: e)
    next
      case False
      then show ?thesis using aboard_throws [OF f wasm(1) [OF w(1)]] by (simp add: e wps)
    qed
  qed (use next' in \<open>cases i; simp\<close>)
qed

text \<open>So a thread that takes off comes to a stop, or fails, and the invariant holds again.\<close>

lemma wp_runs:
  assumes "calls_inert env" "boards t s" "\<And>e. i = Throws e \<Longrightarrow> in_wasm (th_pc (thr s t))"
  shows "wp (run_body env t i) (\<lambda>_. tasks_ok) tasks_ok s"
  by (rule wp_run_body [OF wp_body_next [OF assms]])

end
