(* ===== verification/Task_Builtins.thy ===== *)
theory Task_Builtins
  imports Task_Bodies
begin

text \<open>
  The built-ins on tasks and threads (\<open>runtime/src/intrinsics/async_builtins.ts\<close>,
  \<open>thread_builtins.ts\<close>, \<open>context.ts\<close>), the attribution of a built-in to a thread
  (\<open>runtime/src/task/scheduler.ts\<close>), and the call of a lifted export
  (\<open>runtime/src/exec/boundary.ts\<close>). The built-ins that suspend the calling frame need the
  JSPI bridge, which is not modelled.
\<close>

section \<open>The current thread of an instance\<close>

definition ambientForInstance :: "nat \<Rightarrow> task_store \<Rightarrow> nat option" where
  "ambientForInstance k s =
     (let claim = find (\<lambda>t. thread_inst t s = k) (s_claims s) in
      case s_stack s of [] \<Rightarrow> claim | t # ts \<Rightarrow> if thread_inst t s = k then Some t else claim)"

definition currentThreadExactlyForInstance :: "nat \<Rightarrow> nat tm" where
  "currentThreadExactlyForInstance k =
     bnd (gets (ambientForInstance k)) (\<lambda>t. case t of
       None \<Rightarrow> throw (PendingCapability ''task-scoped canonical built-in has no current thread for its declared instance'')
     | Some t \<Rightarrow> ret t)"

text \<open>\<open>None\<close> stands for a FACT adapter, which the plan declares without an instance.\<close>

definition currentThreadForInstance :: "nat option \<Rightarrow> nat tm" where
  "currentThreadForInstance d =
     (case d of
        None \<Rightarrow> currentThread
      | Some k \<Rightarrow> bnd (gets (ambientForInstance k)) (\<lambda>t. case t of None \<Rightarrow> currentThread | Some t \<Rightarrow> ret t))"

definition guestActivationLive :: "task_store \<Rightarrow> bool" where
  "guestActivationLive s = (s_stack s \<noteq> [])"

section \<open>\<open>context.get\<close> and \<open>context.set\<close>\<close>

definition NUM_CONTEXT_SLOTS :: nat where "NUM_CONTEXT_SLOTS = 2"

definition canonContextGet :: "nat \<Rightarrow> nat option \<Rightarrow> 32 word tm" where
  "canonContextGet i d =
     bnd (currentThreadForInstance d) (\<lambda>t.
     seqm (assertm (i < NUM_CONTEXT_SLOTS) ''context.get slot out of range'')
     (bnd (thread_at t) (\<lambda>th. ret (th_storage th ! i))))"

definition canonContextSet :: "nat \<Rightarrow> 32 word \<Rightarrow> nat option \<Rightarrow> unit tm" where
  "canonContextSet i v d =
     bnd (currentThreadForInstance d) (\<lambda>t.
     seqm (assertm (i < NUM_CONTEXT_SLOTS) ''context.set slot out of range'')
     (upd_thread t (\<lambda>th. th\<lparr>th_storage := (th_storage th)[i := v]\<rparr>)))"

section \<open>\<open>task.return\<close> and \<open>task.cancel\<close>\<close>

definition declared_guard :: "nat option \<Rightarrow> string \<Rightarrow> unit tm" where
  "declared_guard d what =
     (case d of
        None \<Rightarrow> ret ()
      | Some k \<Rightarrow> bnd (mayLeave k) (\<lambda>m.
          trapIf (\<not> m) (what @ '': cannot leave component instance (may_leave violation)'')))"

definition liftOptionsEqual :: "string_encoding \<times> nat option \<Rightarrow> string_encoding \<times> nat option \<Rightarrow> bool" where
  "liftOptionsEqual a b = (fst a = fst b \<and> snd a = snd b)"

text \<open>The options of the call site: their index, encoding, memory and the lanes of the call.\<close>

record return_opts =
  ro_opts :: nat
  ro_encoding :: string_encoding
  ro_memory :: "nat option"
  ro_params :: "core_type list"

definition return_from :: "tenv \<Rightarrow> valtype list \<Rightarrow> return_opts \<Rightarrow> cval list \<Rightarrow> nat \<Rightarrow> unit tm" where
  "return_from env resultTypes opts flatArgs j =
     bnd (task_at j) (\<lambda>tk.
     seqm (declared_guard (Some (tk_inst tk)) ''task.return'')
     (seqm (trapIf (\<not> tk_async tk) ''task.return from a non-async task'')
     (seqm (trapIf ((\<not> tk_fact tk \<or> tk_fact_results tk) \<and> \<not> valTypesEqual resultTypes (tk_results tk))
              ''task.return with a result type that is not the result type of the task'')
     (seqm (trapIf (\<not> liftOptionsEqual (ro_encoding opts, ro_memory opts)
                      (tk_encoding tk, if tk_fact tk then ro_memory opts else tk_memory tk))
              ''task.return with canonical options differing from those of the task'')
     (bnd (of_res (normalizeCoreValues flatArgs (ro_params opts))) (\<lambda>flat.
      if tk_fact tk then task_return env j flat
      else bnd (lift_results env j (tk\<lparr>tk_opts := ro_opts opts\<rparr>) MAX_FLAT_PARAMS flat) (task_return env j)))))))"

definition taskReturn :: "tenv \<Rightarrow> nat option \<Rightarrow> valtype list \<Rightarrow> return_opts \<Rightarrow> cval list \<Rightarrow> unit tm" where
  "taskReturn env d resultTypes opts flatArgs =
     seqm (declared_guard d ''task.return'')
     (bnd (case d of None \<Rightarrow> currentTask
                   | Some k \<Rightarrow> bnd (currentThreadExactlyForInstance k) (\<lambda>t. bnd (thread_at t) (\<lambda>th. ret (th_task th))))
        (return_from env resultTypes opts flatArgs))"

definition taskCancel :: "tenv \<Rightarrow> nat option \<Rightarrow> unit tm" where
  "taskCancel env d =
     seqm (declared_guard d ''task.cancel'')
     (bnd currentTask (\<lambda>j.
      bnd (task_at j) (\<lambda>tk.
      seqm (declared_guard (Some (tk_inst tk)) ''task.cancel'')
      (seqm (trapIf (\<not> tk_async tk) ''task.cancel from a non-async task'')
      (task_cancel env j)))))"

section \<open>Backpressure\<close>

definition backpressureInc :: "nat \<Rightarrow> unit tm" where
  "backpressureInc k =
     bnd (comp_at k) (\<lambda>c.
     seqm (assertm (0 \<le> ci_backpressure c \<and> ci_backpressure c < 2 ^ 16) ''backpressure counter out of range'')
     (seqm (upd_comp k (\<lambda>c. c\<lparr>ci_backpressure := ci_backpressure c + 1\<rparr>))
     (trapIf (ci_backpressure c + 1 = 2 ^ 16) ''backpressure counter overflow'')))"

definition backpressureDec :: "nat \<Rightarrow> unit tm" where
  "backpressureDec k =
     bnd (comp_at k) (\<lambda>c.
     seqm (assertm (0 \<le> ci_backpressure c \<and> ci_backpressure c < 2 ^ 16) ''backpressure counter out of range'')
     (seqm (upd_comp k (\<lambda>c. c\<lparr>ci_backpressure := ci_backpressure c - 1\<rparr>))
     (seqm (trapIf (ci_backpressure c - 1 < 0) ''backpressure counter underflow'')
     requestService)))"

section \<open>Explicit threads\<close>

definition requireTarget :: "nat \<Rightarrow> nat \<Rightarrow> nat tm" where
  "requireTarget k i =
     bnd (threads_of k (table_get (int i))) (\<lambda>t.
     bnd (currentThreadExactlyForInstance k) (\<lambda>c.
     seqm (trapIf (t = c) ''cannot resume the current thread'')
     (ret t)))"

definition threadIndex :: "nat \<Rightarrow> nat tm" where
  "threadIndex k =
     seqm (leave_guard k ''thread.index'')
     (bnd (currentThreadExactlyForInstance k) (\<lambda>t.
      bnd (thread_at t) (\<lambda>th.
      seqm (assertm (th_index th \<noteq> None) ''current thread is not registered'')
      (ret (the (th_index th))))))"

text \<open>\<open>table i\<close> is what the WebAssembly table holds at \<open>i\<close>: nothing when \<open>i\<close> is out of range,
  \<open>Some None\<close> for a null reference, else a function with the type of its parameter.\<close>

definition closure_type :: "cval \<Rightarrow> core_type option" where
  "closure_type v = (case v of VNum i \<Rightarrow> Some I32 | VFlt f \<Rightarrow> Some I32 | VBig i \<Rightarrow> Some I64 | _ \<Rightarrow> None)"

definition threadNewIndirect :: "nat \<Rightarrow> (nat \<Rightarrow> core_type option option) \<Rightarrow> nat \<Rightarrow> cval \<Rightarrow> nat tm" where
  "threadNewIndirect k tbl i closure =
     seqm (leave_guard k ''thread.new-indirect'')
     (bnd (currentThreadExactlyForInstance k) (\<lambda>cur.
      bnd (thread_at cur) (\<lambda>th.
      case tbl i of
        None \<Rightarrow> throw (Trap ''thread.new-indirect table index out of range'')
      | Some target \<Rightarrow>
          seqm (trapIf (target = None) ''thread.new-indirect function is null'')
          (seqm (trapIf (closure_type closure = None) ''thread.new-indirect invalid closure type'')
          (seqm (trapIf (target \<noteq> closure_type closure) ''thread.new-indirect function type mismatch'')
          (bnd (newThread (th_task th) True [closure]) (\<lambda>t.
           seqm (registerThread (th_task th) t)
           (bnd (thread_at t) (\<lambda>th. ret (the (th_index th))))))))))) "

definition threadResumeLater :: "nat \<Rightarrow> nat \<Rightarrow> unit tm" where
  "threadResumeLater k i =
     seqm (leave_guard k ''thread.resume-later'')
     (bnd (requireTarget k i) (\<lambda>t.
      bnd (thread_at t) (\<lambda>th.
      seqm (trapIf (\<not> explicitlySuspended th) ''cannot resume thread'')
      (resumeLater t))))"

section \<open>A call of a lifted export\<close>

definition entryRefusal :: "nat \<Rightarrow> nat option \<Rightarrow> task_store \<Rightarrow> bool" where
  "entryRefusal callee caller s = (caller \<noteq> Some callee \<and> isInstancePoisoned callee s)"

text \<open>\<open>tk\<close> says of which export and with which options the task is; its life starts here.\<close>

definition call_lift :: "tenv \<Rightarrow> nat option \<Rightarrow> task \<Rightarrow> nat tm" where
  "call_lift env caller tk =
     bnd (gets (entryRefusal (tk_inst tk) caller)) (\<lambda>refused.
     seqm (trapIf refused ''cannot enter component instance'')
     (bnd (newTask tk) (\<lambda>j.
      bnd (newThread j False []) (\<lambda>t.
      seqm (poisoning env (tk_inst tk) (thread_resume env t))
      (ret j)))))"

text \<open>A call that fails while its thread is at the gate abandons the wait (\<open>failCall\<close>).\<close>

definition failCall_abandon :: "nat \<Rightarrow> nat \<Rightarrow> unit tm" where
  "failCall_abandon j t =
     bnd (task_at j) (\<lambda>tk.
     bnd (thread_at t) (\<lambda>th.
     if tk_state tk = T_initial \<and> th_state th = Th_waiting then abandonWaiting t else ret ()))"

end
