(* ===== verification/Task_Moves.thy ===== *)
theory Task_Moves
  imports Task_Segments Task_Builtins
begin

text \<open>
  The operations that move threads between their places: the resumption of a thread from the
  waiting list or from a settled promise, the start of a call, the scheduler's turns and the
  built-ins. Each of them, run where the invariant holds, leaves it in place, whether it
  succeeds or throws.
\<close>

section \<open>A thread changes its state at its place\<close>

lemma tasks_okD:
  assumes "tasks_ok s"
  shows "lists_ok s" "t < length (s_threads s) \<Longrightarrow> placed s t"
    "t < length (s_threads s) \<Longrightarrow> th_task (thr s t) < length (s_tasks s)"
    "t < length (s_threads s) \<Longrightarrow> thread_inst t s < length (s_comps s)"
    "k < length (s_comps s) \<Longrightarrow> comp_good {} 0 s k" "j < length (s_tasks s) \<Longrightarrow> task_good s j"
  using assms tinvD [of "{}" "\<lambda>_. 0" s] tinv_comp [of "{}" "\<lambda>_. 0" s t] by (auto simp: tasks_ok_def)

lemma tasks_ok_same: "same_tasks s u \<Longrightarrow> tasks_ok u = tasks_ok s"
  by (simp add: tasks_ok_def tinv_same)

lemma placedD:
  assumes "placed s t"
  shows "at_place (task_of s t) (thr s t)" "in_task (task_of s t) t (thr s t)"
    "in_wasm (th_pc (thr s t)) \<Longrightarrow> holds t s"
  using assms by (simp_all add: placed_def holds_def slot_of_def)

lemma at_wasm:
  assumes "tasks_ok s" "t < length (s_threads s)" "in_wasm (th_pc (thr s t))"
  shows "aboard t s" "holds t s" "th_explicit (thr s t) \<Longrightarrow> \<exists>a. th_pc (thr s t) = InCore a" "th_index (thr s t) \<noteq> None"
    "t \<in> set (tk_threads (task_of s t))" "tk_state (task_of s t) \<noteq> T_initial"
proof -
  note P = placedD [OF tasks_okD(2) [OF assms(1,2)]]
  show "holds t s" using P(3) assms(3) by simp
  show e: "th_explicit (thr s t) \<Longrightarrow> \<exists>a. th_pc (thr s t) = InCore a" and i: "th_index (thr s t) \<noteq> None"
    using P(1) assms(3) by (cases "th_pc (thr s t)"; simp add: at_place_def)+
  then show "t \<in> set (tk_threads (task_of s t))" "tk_state (task_of s t) \<noteq> T_initial" "aboard t s"
    using P(2) assms(3) by (auto simp: in_task_def aboard_def)
qed

lemma shift:
  assumes s: "tasks_ok s" and t: "t < length (s_threads s)" and m: "moved t th s s'" "same_role (thr s t) th"
    and p: "th_pc th = th_pc (thr s t)" "t \<in> set (tk_threads (task_of s t)) \<or> th_pc th = Entering" and l: "lists_ok s'"
    and place: "at_place (task_of s t) th" "in_task (task_of s t) t th"
  shows "tasks_ok s'"
proof -
  note M = moved_simps [OF m(1) t m(2)]
  note P = placedD [OF tasks_okD(2) [OF s t]]
  have m': "moved t th s' s'" using t m(1) by (simp add: moved_def)
  have r': "same_role (thr s' t) th" by (simp add: M(4) same_role_def)
  have tk: "task_of s' t = task_of s t" by (simp add: M(2,5))
  have "tinv {t} (\<lambda>k. if th_pc th = Entering \<and> thread_inst t s = k then 1 else 0) s'"
    by (rule takeoff [OF s [unfolded tasks_ok_def] m(1) t m(2) p(1) l])
  then have "tinv {t} (\<lambda>k. if th_pc th = Entering \<and> thread_inst t s' = k then 1 else 0) s'" by (simp add: M(8))
  then show ?thesis
    unfolding tasks_ok_def
  proof (rule land [OF _ m' r' l])
    show "at_place (task_of s' t) th" "in_task (task_of s' t) t th" using place tk by simp_all
    show "ci_exclusive (s_comps s' ! thread_inst t s') = Some t"
      if "in_wasm (th_pc th) \<and> \<not> th_explicit (thr s' t) \<and> claims_slot (task_of s' t)"
      using that P(3) p tk by (simp add: M(1,2,3,5,6,8) holds_def slot_of_def)
    show "in_wasm (th_pc th) \<or> th_pc th = Failed" if "k < length (s_comps s')" "ci_exclusive (s_comps s' ! k) = Some t" for k
      using comp_goodD(6) [OF tasks_okD(5) [OF s]] that p by (simp add: M(1,2,3,5,6,8))
    have "tk_state (task_of s t) = T_initial \<and> \<not> th_explicit (thr s t)" if "th_pc th = Entering"
      using P p that by (simp add: at_place_def in_task_def)
    then show "th_pc th = Failed \<or> tk_state (task_of s' t) = T_resolved \<or> tk_threads (task_of s' t) \<noteq> [] \<or>
      tk_state (task_of s' t) = T_initial \<and> \<not> th_explicit (thr s' t) \<and> th_pc th = Entering"
      using p(2) tk by (auto simp: M(5,6))
  qed
qed

section \<open>Taking off\<close>

definition under_way :: "thread \<Rightarrow> thread" where
  "under_way th = th\<lparr>th_ready := None, th_state := Th_running, th_awaiting := False\<rparr>"

lemma under_way_simps [simp]:
  "same_role th (under_way th)" "th_pc (under_way th) = th_pc th" "th_ready (under_way th) = None"
  "th_state (under_way th) = Th_running" "\<not> th_awaiting (under_way th)" "th_index (under_way th) = th_index th"
  "th_task (under_way th) = th_task th" "th_explicit (under_way th) = th_explicit th"
  by (simp_all add: under_way_def same_role_def)

text \<open>A thread that is not done, put on top of the stack.\<close>

lemma boards_up:
  assumes s: "tasks_ok s" and t: "t < length (s_threads s)" "th_state (thr s t) \<noteq> Th_done"
    and i: "th_explicit (thr s t) \<Longrightarrow> th_index (thr s t) \<noteq> None"
    and m: "moved t (under_way (thr s t)) s s'" and l: "lists_ok s'" and top: "s_stack s' \<noteq> []" "hd (s_stack s') = t"
  shows "boards t s'"
proof -
  let ?th = "under_way (thr s t)"
  note M = moved_simps [OF m t(1), simplified]
  note P = placedD [OF tasks_okD(2) [OF s t(1)]]
  have tk: "task_of s' t = task_of s t" by (simp add: M(2,5))
  have tinv: "tinv {t} (outset t (th_pc (thr s t)) s') s'"
    using takeoff [OF s [unfolded tasks_ok_def] m t(1) _ _ l] by (simp add: outset_def M(8))
  have fl: "flight t (outset t (th_pc (thr s t)) s') s'"
    using tinv top by (simp add: flight_def M)
  have free: "slot_of t s' \<noteq> Some t" if "\<not> in_wasm (th_pc (thr s t))" "th_pc (thr s t) \<noteq> Failed"
    using comp_goodD(6) [OF tasks_okD(5) [OF s tasks_okD(4) [OF s t(1)]], of t] that by (auto simp: slot_of_def M)
  have W: "aboard t s'" "holds t s'" "th_explicit (thr s t) \<Longrightarrow> \<exists>a. th_pc (thr s t) = InCore a"
    if "in_wasm (th_pc (thr s t))"
    using at_wasm(1-3) [OF s t(1) that] tk by (simp_all add: aboard_def holds_def slot_of_def M)
  show ?thesis
  proof (cases "th_pc (thr s t)")
    case NotStarted
    then show ?thesis using fl P free t i tk
      by (cases "th_explicit (thr s t)") (auto simp: boards_def M aboard_def outside_def at_place_def in_task_def)
  next
    case Entering
    then show ?thesis using fl P free tk by (auto simp: boards_def M outside_def at_place_def in_task_def)
  next
    case WaitYield
    then show ?thesis using fl P free tk by (auto simp: boards_def M aboard_def at_place_def in_task_def)
  next
    case (WaitEvent q)
    then show ?thesis using fl P free tk by (auto simp: boards_def M aboard_def at_place_def in_task_def)
  qed (use fl P W t in \<open>auto simp: boards_def M at_place_def\<close>)
qed

text \<open>A thread of the stack whose core function returned takes off from where it is.\<close>

lemma boards_top:
  assumes s: "tasks_ok s" and top: "s_stack s = t # ts" and p: "in_wasm (th_pc (thr s t))"
  shows "boards t s"
proof -
  note L = lists_okD [OF tasks_okD(1) [OF s]]
  have t: "t < length (s_threads s)" using L(5) [of t] top by simp
  have r: "th_state (thr s t) = Th_running" using L(8) [OF t] top by simp
  note P = placedD [OF tasks_okD(2) [OF s t]]
  have a: "\<not> th_awaiting (thr s t)" using P(2) r by (auto simp: in_task_def)
  have y: "th_ready (thr s t) = None" using P(1) p r by (cases "th_pc (thr s t)") (auto simp: at_place_def)
  have u: "under_way (thr s t) = thr s t" using r a y by (simp add: under_way_def)
  show ?thesis
    by (rule boards_up [OF s t]) (use r top u at_wasm(4) [OF s t p] tasks_okD(1) [OF s] in \<open>simp_all add: moved_def\<close>)
qed

lemma lists_push:
  assumes l: "lists_ok s" and t: "t < length (s_threads s)" "th_state (thr s t) \<noteq> Th_running"
    and m: "s_threads s' = (s_threads s)[t := under_way (thr s t)]"
    and w: "s_waiting s' = remove1 t (s_waiting s)" "s_stack s' = t # s_stack s" "s_awaiting s' = removeAll t (s_awaiting s)"
      "s_claims s' = s_claims s" "s_settled s' = s_settled s"
    and free: "th_awaiting (thr s t) \<Longrightarrow> t \<notin> set (s_claims s) \<and> t \<notin> fst ` set (s_settled s)"
  shows "lists_ok s'"
proof -
  note D = lists_okD [OF l]
  show ?thesis
    by (rule lists_change [OF l t(1) m]) (use D(1,2,3) D(8) [OF t(1)] t w free in \<open>auto simp: distinct_removeAll\<close>)
qed

lemma boards_resumed:
  assumes s: "tasks_ok s" and t: "t < length (s_threads s)" "th_state (thr s t) \<noteq> Th_done" "th_state (thr s t) \<noteq> Th_running"
    and i: "th_explicit (thr s t) \<Longrightarrow> th_index (thr s t) \<noteq> None"
    and free: "th_awaiting (thr s t) \<Longrightarrow> t \<notin> set (s_claims s) \<and> t \<notin> fst ` set (s_settled s)"
    and v: "s_threads v = (s_threads s)[t := under_way (thr s t)]" "s_tasks v = s_tasks s" "s_comps v = s_comps s"
      "s_waiting v = remove1 t (s_waiting s)" "s_stack v = t # s_stack s" "s_awaiting v = removeAll t (s_awaiting s)"
      "s_claims v = s_claims s" "s_settled v = s_settled s"
  shows "boards t v"
proof (rule boards_up [OF s t(1,2) i])
  show "lists_ok v" by (rule lists_push [OF tasks_okD(1) [OF s] t(1,3) v(1,4-8) free])
qed (use v in \<open>simp_all add: moved_def\<close>)

lemma wp_resumeInternal:
  assumes "calls_inert env" "boards t (put_thread t ((thr u t)\<lparr>th_state := Th_running\<rparr>) u\<lparr>s_stack := t # s_stack u\<rparr>)"
    "\<And>e. i = Throws e \<Longrightarrow> in_wasm (th_pc (thr u t))" "t < length (s_threads u)"
  shows "wp (resumeInternal env t i) (\<lambda>_. tasks_ok) tasks_ok u"
  using wp_runs [OF assms(1,2)] assms(3,4)
  by (simp add: resumeInternal_def pushCurrentThread_def wp_seqm wp_state wp_basic)

section \<open>Resumption\<close>

lemma off_the_list:
  "\<not> th_awaiting th \<Longrightarrow> th\<lparr>th_ready := None, th_state := Th_suspended, th_state := Th_running\<rparr> = under_way th"
  "\<not> th_awaiting th \<Longrightarrow> th_ready th = None \<Longrightarrow> th\<lparr>th_state := Th_running\<rparr> = under_way th"
  "th_ready th = None \<Longrightarrow> th\<lparr>th_awaiting := False, th_state := Th_suspended, th_state := Th_running\<rparr> = under_way th"
  by (cases th; simp add: under_way_def)+

lemma waiting_facts:
  assumes "tasks_ok s" "t < length (s_threads s)" "th_state (thr s t) = Th_waiting"
  shows "t \<in> set (s_waiting s)" "\<not> th_awaiting (thr s t)" "th_explicit (thr s t) \<Longrightarrow> th_index (thr s t) \<noteq> None" "t \<notin> set (s_awaiting s)"
proof -
  note P = placedD [OF tasks_okD(2) [OF assms(1,2)]]
  note D = lists_okD [OF tasks_okD(1) [OF assms(1)]]
  show "t \<in> set (s_waiting s)" using D(7) [OF assms(2)] assms(3) by simp
  show a: "\<not> th_awaiting (thr s t)" using P(2) assms(3) by (auto simp: in_task_def)
  then show "t \<notin> set (s_awaiting s)" using D(9) [OF assms(2)] by simp
  show "th_index (thr s t) \<noteq> None" if "th_explicit (thr s t)"
    using P(1) assms(3) that by (cases "th_pc (thr s t)") (auto simp: at_place_def)
qed

lemma suspended_facts:
  assumes "tasks_ok s" "t < length (s_threads s)" "th_state (thr s t) = Th_suspended"
  shows "t \<notin> set (s_waiting s)" "t \<notin> set (s_stack s)" "th_ready (thr s t) = None"
proof -
  note P = placedD [OF tasks_okD(2) [OF assms(1,2)]]
  note D = lists_okD [OF tasks_okD(1) [OF assms(1)]]
  show "t \<notin> set (s_waiting s)" "t \<notin> set (s_stack s)" using D(7,8) [OF assms(2)] assms(3) by simp_all
  show "th_ready (thr s t) = None" using P(1) assms(3) by (cases "th_pc (thr s t)") (auto simp: at_place_def split: if_splits)
qed

lemma wp_leaveWaiting:
  assumes "tasks_ok s" "t < length (s_threads s)" "th_state (thr s t) = Th_waiting"
  shows "wp (leaveWaiting t) Q E s = Q () (put_thread t ((thr s t)\<lparr>th_ready := None, th_state := Th_suspended\<rparr>) s
      \<lparr>s_waiting := remove1 t (s_waiting s)\<rparr>)"
  using waiting_facts(1) [OF assms] by (simp add: leaveWaiting_def store_stopWaiting_def wps)

lemma wp_off_waiting:
  assumes env: "calls_inert env" and s: "tasks_ok s" and t: "t < length (s_threads s)" "th_state (thr s t) = Th_waiting"
  shows "wp (resumeInternal env t Go) (\<lambda>_. tasks_ok) tasks_ok
     (put_thread t ((thr s t)\<lparr>th_ready := None, th_state := Th_suspended\<rparr>) s\<lparr>s_waiting := remove1 t (s_waiting s)\<rparr>)"
proof (rule wp_resumeInternal [OF env])
  note W = waiting_facts [OF s t]
  let ?u = "put_thread t ((thr s t)\<lparr>th_ready := None, th_state := Th_suspended\<rparr>) s\<lparr>s_waiting := remove1 t (s_waiting s)\<rparr>"
  show "boards t (put_thread t ((thr ?u t)\<lparr>th_state := Th_running\<rparr>) ?u\<lparr>s_stack := t # s_stack ?u\<rparr>)"
    by (rule boards_resumed [OF s t(1)]) (use W t off_the_list(1) [OF W(2)] in simp_all)
qed (use t in simp_all)

lemma wp_thread_resume:
  assumes env: "calls_inert env" and s: "tasks_ok s" and t: "t < length (s_threads s)"
    and i: "th_explicit (thr s t) \<Longrightarrow> th_index (thr s t) \<noteq> None" and a: "\<not> th_awaiting (thr s t)"
  shows "wp (thread_resume env t) (\<lambda>_. tasks_ok) tasks_ok s"
proof -
  have waiting: "wp (stopWaiting t) (\<lambda>_. wp (resumeInternal env t Go) (\<lambda>_. tasks_ok) tasks_ok) tasks_ok s"
    if w: "th_state (thr s t) = Th_waiting"
    using wp_off_waiting [OF env s t w] s wp_leaveWaiting [OF s t w]
    by (simp add: stopWaiting_def wp_bnd wp_seqm [of "assertm _ _"] wp_basic wp_state)
  have suspended: "wp (resumeInternal env t Go) (\<lambda>_. tasks_ok) tasks_ok s" if w: "th_state (thr s t) = Th_suspended"
  proof (rule wp_resumeInternal [OF env _ _ t])
    note S = suspended_facts [OF s t w]
    have "t \<notin> set (s_awaiting s)" using lists_okD(9) [OF tasks_okD(1) [OF s] t] a by simp
    then show "boards t (put_thread t ((thr s t)\<lparr>th_state := Th_running\<rparr>) s\<lparr>s_stack := t # s_stack s\<rparr>)"
      by (intro boards_resumed [OF s t]) (use S t w i a off_the_list(2) [OF a S(3)] in \<open>simp_all add: remove1_idem\<close>)
  qed simp
  show ?thesis
    using waiting suspended s
    by (cases "th_state (thr s t)") (simp_all add: thread_resume_def wp_bnd wp_seqm wp_basic wp_state wp_ret_fun)
qed

text \<open>A body that throws may poison its instance; the tasks stay as they are.\<close>

lemma inert_poisoned: "calls_inert env \<Longrightarrow> preserves (more_is x) (notifyInstancePoisoned env k)"
  using inert_retire [of "tv_env env"]
  by (auto simp del: run_rules simp: notifyInstancePoisoned_def calls_inert_def intro!: preserving)

lemma wp_poisoning:
  assumes env: "calls_inert env" and a: "wp a Q tasks_ok s" shows "wp (poisoning env k a) Q tasks_ok s"
proof -
  have "tasks_ok (snd (notifyInstancePoisoned env k u))" if "tasks_ok u" for u
  proof -
    have "wp (notifyInstancePoisoned env k) (\<lambda>_. tasks_ok) tasks_ok u"
      by (rule wp_inert [OF inert_poisoned [OF env]]) (use that tasks_ok_same in blast)+
    then show ?thesis by (auto simp: wp_def split: prod.splits sum.splits)
  qed
  then show ?thesis
    using a by (auto simp: poisoning_def on_error_def wp_def split: prod.splits sum.splits)
qed

text \<open>The cancellation of a task at the gate.\<close>

lemma wp_requestCancellation:
  assumes env: "calls_inert env" and s: "tasks_ok s" and j: "j < length (s_tasks s)"
    and i: "tk_state (s_tasks s ! j) = T_initial \<Longrightarrow> \<exists>t. tk_implicit (s_tasks s ! j) = Some t \<and> th_pc (thr s t) \<noteq> NotStarted"
  shows "wp (requestCancellation env j) (\<lambda>_. tasks_ok) tasks_ok s"
proof (cases "tk_state (s_tasks s ! j) = T_initial")
  case False
  have "tinv {} (\<lambda>_. 0) (new_task j ((s_tasks s ! j)\<lparr>tk_state := T_pending_cancel\<rparr>) s)" if "tk_state (s_tasks s ! j) \<noteq> T_resolved"
    by (rule tinv_state [OF s [unfolded tasks_ok_def] j]) (use False that in auto)
  then show ?thesis using False s by (simp add: requestCancellation_def wps tasks_ok_def)
next
  case True
  from i [OF True] obtain t where t: "tk_implicit (s_tasks s ! j) = Some t" and p: "th_pc (thr s t) \<noteq> NotStarted" by blast
  from task_goodD(4) [OF tasks_okD(6) [OF s j] t] have n: "t < length (s_threads s)" and jt: "th_task (thr s t) = j" and x: "\<not> th_explicit (thr s t)"
    by auto
  note P = placedD [OF tasks_okD(2) [OF s n]]
  let ?c = "(s_tasks s ! j)\<lparr>tk_state := T_pending_cancel\<rparr>"
  let ?s = "new_task j ?c s"
  show ?thesis
  proof (cases "th_state (thr s t) = Th_waiting")
    case W: True
    have pc: "th_pc (thr s t) = Entering" using P W x p True jt by (cases "th_pc (thr s t)") (auto simp: at_place_def in_task_def)
    note F = waiting_facts [OF s n W]
    let ?u = "put_thread t ((thr s t)\<lparr>th_ready := None, th_state := Th_suspended\<rparr>) s\<lparr>s_waiting := remove1 t (s_waiting s)\<rparr>"
    let ?v = "put_thread t ((thr ?u t)\<lparr>th_state := Th_running\<rparr>) ?u\<lparr>s_stack := t # s_stack ?u\<rparr>"
    have b: "boards t ?v"
      by (rule boards_resumed [OF s n]) (use F W n off_the_list(1) [OF F(2)] in simp_all)
    have v: "thr ?v t = under_way (thr s t)" "s_tasks ?v = s_tasks s" using n off_the_list(1) [OF F(2)] by simp_all
    have tv: "th_task (thr ?v t) = j" using v jt by simp
    have fl: "flight t (outset t Entering ?v) ?v" "outside t ?v" "tk_implicit (task_of ?v t) = Some t"
      using b pc v by (simp_all add: boards_def)
    have new: "boards t (new_task j ?c ?v)"
    proof -
      note N = new_state_facts [OF fl(1) tv, of T_pending_cancel, unfolded v(2)]
      have "flight t (outset t Entering ?v) (new_task j ((s_tasks ?v ! j)\<lparr>tk_state := T_pending_cancel\<rparr>) ?v)"
        by (rule flight_state [OF fl(1) tv]) (use x v True in simp_all)
      then have f: "flight t (outset t Entering ?v) (new_task j ?c ?v)" using v(2) by simp
      have pcv: "th_pc (thr (new_task j ?c ?v) t) = Entering" using v(1) pc by simp
      have o: "outset t Entering (new_task j ?c ?v) = outset t Entering ?v" using N(2) by (simp add: outset_def)
      show ?thesis
        unfolding boards_def pcv o using f N fl(2,3) by (simp add: outside_def)
    qed
    have same: "put_thread t ((thr w t)\<lparr>th_state := Th_running\<rparr>) w\<lparr>s_stack := t # s_stack w\<rparr> = new_task j ?c ?v"
      if "w = put_thread t ((thr s t)\<lparr>th_ready := None, th_state := Th_suspended\<rparr>) ?s\<lparr>s_waiting := remove1 t (s_waiting s)\<rparr>" for w
      by (simp add: that put_thread_def new_task_def)
    have "wp (resumeInternal env t Go) (\<lambda>_. tasks_ok) tasks_ok
      (put_thread t ((thr s t)\<lparr>th_ready := None, th_state := Th_suspended\<rparr>) ?s\<lparr>s_waiting := remove1 t (s_waiting s)\<rparr>)"
      by (rule wp_resumeInternal [OF env]) (use new same n in simp_all)
    then show ?thesis
      using True t W F(1)
      by (simp add: requestCancellation_def resumeStartupCancellation_def leaveWaiting_def store_stopWaiting_def wps new_task_def put_thread_def)
  next
    case N: False
    have "th_pc (thr s t) = Failed" using P N x p True jt by (cases "th_pc (thr s t)") (auto simp: at_place_def in_task_def)
    have "tinv {} (\<lambda>_. 0) ?s"
    proof (rule tinv_new_task [OF s [unfolded tasks_ok_def] j])
      show "in_task ?c u (thr s u)" if u: "u < length (s_threads s)" "u \<notin> {}" "th_task (thr s u) = j" for u
      proof (cases "u = t")
        case True
        then show ?thesis using P(2) jt \<open>th_pc (thr s t) = Failed\<close> by (simp add: in_task_def)
      next
        case False
        then have "th_explicit (thr s u)" using tinvD(8) [OF s [unfolded tasks_ok_def] n u(1) x] u(3) jt by auto
        then show ?thesis using tasks_okD(2) [OF s u(1)] u(3) by (simp add: placed_def in_task_def)
      qed
    qed (use True t n jt x in \<open>simp_all add: same_kind_def\<close>)
    then show ?thesis
      using True t N by (simp add: requestCancellation_def resumeStartupCancellation_def wps tasks_ok_def)
  qed
qed

section \<open>Promises\<close>

lemma awaiting_facts:
  assumes "tasks_ok s" "t \<in> set (s_awaiting s)"
  shows "t < length (s_threads s)" "th_awaiting (thr s t)" "in_wasm (th_pc (thr s t))" "th_state (thr s t) = Th_suspended"
    "th_ready (thr s t) = None" "t \<in> set (tk_threads (task_of s t))"
proof -
  note D = lists_okD [OF tasks_okD(1) [OF assms(1)]]
  show t: "t < length (s_threads s)" using D(6) assms(2) by simp
  show a: "th_awaiting (thr s t)" using D(9) [OF t] assms(2) by simp
  then show w: "in_wasm (th_pc (thr s t))" "th_state (thr s t) = Th_suspended"
    using placedD(2) [OF tasks_okD(2) [OF assms(1) t]] by (simp_all add: in_task_def)
  show "th_ready (thr s t) = None" by (rule suspended_facts(3) [OF assms(1) t w(2)])
  show "t \<in> set (tk_threads (task_of s t))" by (rule at_wasm(5) [OF assms(1) t w(1)])
qed

lemma tasks_ok_lists:
  assumes "tasks_ok s" "s_threads s' = s_threads s" "s_tasks s' = s_tasks s" "s_comps s' = s_comps s"
    "s_waiting s' = s_waiting s" "s_stack s' = s_stack s" "s_awaiting s' = s_awaiting s"
    "\<And>t. t \<in> set (s_claims s') \<Longrightarrow> t \<in> set (s_awaiting s) \<and> t \<notin> fst ` set (s_settled s')"
    "\<And>t. t \<in> fst ` set (s_settled s') \<Longrightarrow> t \<in> set (s_awaiting s)" "distinct (map fst (s_settled s'))"
  shows "tasks_ok s'"
proof -
  have c: "\<forall>t \<in> set (s_claims s'). t \<in> set (s_awaiting s) \<and> t \<notin> fst ` set (s_settled s')"
    "\<forall>t \<in> fst ` set (s_settled s'). t \<in> set (s_awaiting s)"
    using assms(8,9) by blast+
  have "lists_ok s'"
    using tasks_okD(1) [OF assms(1)] c assms(10) unfolding lists_ok_def assms(2,5-7) by (elim conjE) (intro conjI; assumption)
  then show ?thesis using tinv_lists [OF assms(1) [unfolded tasks_ok_def]] assms(2-4) by (simp add: tasks_ok_def)
qed

lemma wp_core_suspends:
  assumes s: "tasks_ok s" and top: "s_stack s = t # ts" and p: "in_wasm (th_pc (thr s t))"
  shows "wp (core_suspends t) (\<lambda>_. tasks_ok) (\<lambda>_. False) s"
proof -
  note D = lists_okD [OF tasks_okD(1) [OF s]]
  have t: "t < length (s_threads s)" using D(5) [of t] top by simp
  have r: "th_state (thr s t) = Th_running" using D(8) [OF t] top by simp
  note P = placedD [OF tasks_okD(2) [OF s t]]
  have a: "\<not> th_awaiting (thr s t)" using P(2) r by (auto simp: in_task_def)
  have L: "distinct (s_waiting s)" "distinct ts" "distinct (s_awaiting s)" "t \<notin> set ts" "t \<notin> set (s_waiting s)"
    "t \<notin> set (s_awaiting s)" "set (s_stack s) = insert t (set ts)" "\<not> th_awaiting (thr s t)"
    using D(1,2,3) D(7,9) [OF t] top r a by simp_all
  let ?th = "(thr s t)\<lparr>th_state := Th_suspended, th_awaiting := True\<rparr>"
  have "tasks_ok s'" if "s_threads s' = (s_threads s)[t := ?th]" "s_tasks s' = s_tasks s" "s_comps s' = s_comps s"
    "s_waiting s' = s_waiting s" "s_stack s' = ts" "s_awaiting s' = s_awaiting s @ [t]" "s_claims s' = s_claims s"
    "s_settled s' = s_settled s" for s'
  proof (rule shift [OF s t])
    show "lists_ok s'"
      by (rule lists_change [OF tasks_okD(1) [OF s] t that(1)]) (use L that in auto)
    show "at_place (task_of s t) ?th" using P(1) r p by (cases "th_pc (thr s t)") (auto simp: at_place_def)
    show "in_task (task_of s t) t ?th" using P(2) p by (simp add: in_task_def)
  qed (use that at_wasm(5) [OF s t p] in \<open>simp_all add: moved_def same_role_def\<close>)
  then show ?thesis using top t by (simp add: core_suspends_def popCurrentThread_def wps put_thread_def)
qed

lemma releases:
  assumes "tasks_ok s" "\<And>u. u \<in> set (s_claims s') \<Longrightarrow> u \<in> set (s_claims s)" "s_settled s' = s_settled s"
    "s_threads s' = s_threads s" "s_tasks s' = s_tasks s" "s_comps s' = s_comps s"
    "s_waiting s' = s_waiting s" "s_stack s' = s_stack s" "s_awaiting s' = s_awaiting s"
  shows "tasks_ok s'"
  by (rule tasks_ok_lists [OF assms(1)]) (use assms(2-) lists_okD(10-13) [OF tasks_okD(1) [OF assms(1)]] in auto)

lemma wp_settle:
  assumes s: "tasks_ok s" and t: "t \<in> set (s_awaiting s)" "t \<notin> fst ` set (s_settled s)"
  shows "wp (settle t v) (\<lambda>_. tasks_ok) (\<lambda>_. False) s"
proof -
  note D = lists_okD(10-13) [OF tasks_okD(1) [OF s]]
  have "tasks_ok s'" if "s_claims s' = removeAll t (s_claims s) \<or> t \<notin> set (s_claims s) \<and> set (s_claims s') \<subseteq> set (s_claims s)"
    "s_settled s' = s_settled s @ [(t, v)]" "s_threads s' = s_threads s" "s_tasks s' = s_tasks s" "s_comps s' = s_comps s"
    "s_waiting s' = s_waiting s" "s_stack s' = s_stack s" "s_awaiting s' = s_awaiting s" for s'
  proof (rule tasks_ok_lists [OF s that(3-8)])
    show "u \<in> set (s_awaiting s) \<and> u \<notin> fst ` set (s_settled s')" if "u \<in> set (s_claims s')" for u
      using that D(1,2) [of u] \<open>s_settled s' = _\<close> \<open>_ \<or> _\<close> by (auto simp del: image_iff) (auto simp: image_iff)
    show "u \<in> set (s_awaiting s)" if "u \<in> fst ` set (s_settled s')" for u
      using that D(3) [of u] t(1) \<open>s_settled s' = _\<close> by auto
    show "distinct (map fst (s_settled s'))" using D(4) t(2) \<open>s_settled s' = _\<close> by (simp add: image_iff)
  qed
  then show ?thesis
    by (auto simp: settle_def releasePendingOf_def releaseActivationAmbient_def removePendingResumption_def requestService_def wps
        split: option.split)
qed

lemma wp_claim:
  assumes s: "tasks_ok s" and t: "t \<in> set (s_awaiting s)" "t \<notin> fst ` set (s_settled s)"
  shows "wp (claimActivationAmbient t) (\<lambda>_. tasks_ok) (\<lambda>_. False) s"
proof -
  have "tasks_ok (s\<lparr>s_claims := t # removeAll t (s_claims s)\<rparr>)"
    by (rule tasks_ok_lists [OF s]) (use t lists_okD(10-13) [OF tasks_okD(1) [OF s]] in \<open>auto\<close>)
  then show ?thesis by (simp add: claimActivationAmbient_def wps)
qed

text \<open>A thread whose promise settled goes on where its core function was called, or stays retired
  there when its instance is dead.\<close>

lemma wp_resumeWith:
  assumes env: "calls_inert env" and s: "tasks_ok s" and t: "t \<in> set (s_awaiting s)" "t \<notin> set (s_claims s)" "t \<notin> fst ` set (s_settled s)"
  shows "wp (resumeWith env t v) (\<lambda>_. tasks_ok) tasks_ok s"
proof -
  note A = awaiting_facts [OF s t(1)]
  note D = lists_okD [OF tasks_okD(1) [OF s]]
  note P = placedD [OF tasks_okD(2) [OF s A(1)]]
  let ?th = "(thr s t)\<lparr>th_awaiting := False, th_state := Th_suspended\<rparr>"
  let ?u = "put_thread t ?th s\<lparr>s_awaiting := removeAll t (s_awaiting s)\<rparr>"
  have retired: "tasks_ok ?u"
  proof (rule shift [OF s A(1)])
    show "lists_ok ?u"
      by (rule lists_change [OF tasks_okD(1) [OF s] A(1), where th = ?th])
        (use D(1,2,3) D(7,8,9) [OF A(1)] A t in \<open>auto simp: distinct_removeAll\<close>)
    show "at_place (task_of s t) ?th" using P(1) A(3,4,5) by (cases "th_pc (thr s t)") (auto simp: at_place_def)
    show "in_task (task_of s t) t ?th" using P(2) by (simp add: in_task_def)
  qed (use A in \<open>simp_all add: moved_def same_role_def\<close>)
  have run: "wp (resumeInternal env t i) (\<lambda>_. tasks_ok) tasks_ok ?u" for i
  proof (rule wp_resumeInternal [OF env])
    show "boards t (put_thread t ((thr ?u t)\<lparr>th_state := Th_running\<rparr>) ?u\<lparr>s_stack := t # s_stack ?u\<rparr>)"
    proof (rule boards_resumed [OF s A(1)])
      have "t \<notin> set (s_waiting s)" using D(7) [OF A(1)] A(4) by simp
      then show "s_waiting (put_thread t ((thr ?u t)\<lparr>th_state := Th_running\<rparr>) ?u\<lparr>s_stack := t # s_stack ?u\<rparr>) = remove1 t (s_waiting s)"
        by (simp add: remove1_idem)
    qed (use A t at_wasm(4) [OF s A(1,3)] off_the_list(3) [OF A(5)] in simp_all)
  qed (use A in simp_all)
  show ?thesis
    using retired wp_poisoning [OF env run] A(1,2)
    by (simp add: resumeWith_def wps)
qed

lemma wp_service_queue:
  assumes env: "calls_inert env"
  shows "tasks_ok s \<Longrightarrow> s_settled s = q \<Longrightarrow> wp (service_queue env q) (\<lambda>_. tasks_ok) tasks_ok s"
proof (induction q arbitrary: s)
  case (Cons p q)
  obtain t v where p: "p = (t, v)" by (cases p)
  let ?u = "s\<lparr>s_settled := q\<rparr>"
  note D = lists_okD(10-13) [OF tasks_okD(1) [OF Cons.prems(1)]]
  have u: "tasks_ok ?u"
    by (rule tasks_ok_lists [OF Cons.prems(1)]) (use D Cons.prems(2) in \<open>auto simp: p\<close>)
  have fresh: "t \<notin> set (s_claims s)" "t \<notin> fst ` set q"
    using D(2) [of t] D(4) Cons.prems(2) by (auto simp: p)
  have "wp (resumeWith env t v) (\<lambda>_. tasks_ok) tasks_ok ?u" if "t \<in> set (s_awaiting s)"
    by (rule wp_resumeWith [OF env u]) (use that fresh in simp_all)
  then show ?case using Cons.IH [OF u] by (simp add: p wps wp_ret_fun)
qed (simp add: wps)

section \<open>The scheduler's turns\<close>

lemma chosen:
  assumes "cs \<noteq> []" "\<And>t u. t \<in> set cs \<Longrightarrow> same_tasks s u \<Longrightarrow> Q t u"
  shows "wp (chooseCandidate cs) Q E s"
proof -
  have "wp (chooseCandidate cs) (\<lambda>t u. t \<in> set cs \<and> same_tasks s u) (\<lambda>_. False) s"
  proof (rule wpI)
    fix x u assume run: "chooseCandidate cs s = (Inr x, u)"
    have "same_tasks s u"
      using preservesD [OF inert_choose [of "world.more s" cs], of s "Inr x" u] run by (simp add: more_is_def same_tasks_def)
    moreover have "x \<in> set cs"
      using run assms(1)
      by (cases "w_seed s"; cases "nextRandom s"; cases "fst (nextRandom s)")
        (auto simp: chooseCandidate_def bnd_run seqm_run assertm_run nth_mem)
    ultimately show "x \<in> set cs \<and> same_tasks s u" by simp
  next
    fix e u assume "chooseCandidate cs s = (Inl e, u)"
    then show False
      using assms(1) by (cases "w_seed s") (auto simp: chooseCandidate_def Let_def bnd_run seqm_run assertm_run nextRandom_def)
  qed
  then show ?thesis by (rule wp_mono) (use assms(2) in auto)
qed

lemma candidate:
  assumes "tasks_ok s" "t \<in> set (readyCandidates s)"
  shows "t < length (s_threads s)" "th_state (thr s t) = Th_waiting"
  using assms(2) lists_okD(4,7) [OF tasks_okD(1) [OF assms(1)], of t] by (auto simp: readyCandidates_def)

lemma wp_candidate:
  assumes env: "calls_inert env" and s: "tasks_ok s" and t: "t < length (s_threads s)" "th_state (thr s t) = Th_waiting"
  shows "wp (thread_resume env t) (\<lambda>_. tasks_ok) tasks_ok s" "wp (poisoning env k (thread_resume env t)) (\<lambda>_. tasks_ok) tasks_ok s"
proof -
  note W = waiting_facts [OF s t]
  show "wp (thread_resume env t) (\<lambda>_. tasks_ok) tasks_ok s" by (rule wp_thread_resume [OF env s t(1) W(3,2)])
  then show "wp (poisoning env k (thread_resume env t)) (\<lambda>_. tasks_ok) tasks_ok s" by (rule wp_poisoning [OF env])
qed

lemma wp_tick:
  assumes env: "calls_inert env" and s: "tasks_ok s"
  shows "wp (tick env) (\<lambda>_. tasks_ok) tasks_ok s" "wp (tickForInstance env k) (\<lambda>_. tasks_ok) tasks_ok s"
proof -
  have go: "wp (poisoning env i (thread_resume env t)) (\<lambda>_. tasks_ok) tasks_ok u"
    if "t \<in> set (readyCandidates s)" "same_tasks s u" for t u i
    using wp_candidate(2) [OF env, of u t] candidate [OF s that(1)] that(2) s
    by (simp add: tasks_ok_same same_tasksD)
  have "wp (chooseCandidate (readyCandidates s)) (\<lambda>t. wp (bnd (gets (thread_inst t)) (\<lambda>k. seqm (poisoning env k (thread_resume env t)) (ret True)))
      (\<lambda>_. tasks_ok) tasks_ok) tasks_ok s" if "readyCandidates s \<noteq> []"
    by (rule chosen [OF that]) (use go in \<open>simp add: wp_bnd wp_basic wp_seqm wp_ret_fun\<close>)
  then show "wp (tick env) (\<lambda>_. tasks_ok) tasks_ok s"
    using s by (simp add: tick_def wp_bnd wp_basic)
  have "wp (chooseCandidate (filter (\<lambda>t. thread_inst t s = k) (readyCandidates s)))
      (\<lambda>t. wp (seqm (poisoning env k (thread_resume env t)) (ret True)) (\<lambda>_. tasks_ok) tasks_ok) tasks_ok s"
    if "filter (\<lambda>t. thread_inst t s = k) (readyCandidates s) \<noteq> []"
    by (rule chosen [OF that]) (use go in \<open>simp add: wp_bnd wp_basic wp_seqm wp_ret_fun\<close>)
  then show "wp (tickForInstance env k) (\<lambda>_. tasks_ok) tasks_ok s"
    using s by (simp add: tickForInstance_def wp_bnd wp_basic)
qed

lemma wp_driveSyncLift_turn:
  assumes env: "calls_inert env" and s: "tasks_ok s" and j: "j < length (s_tasks s)"
  shows "wp (driveSyncLift_turn env j) (\<lambda>_. tasks_ok) tasks_ok s"
proof -
  let ?T = "ci_threads (s_comps s ! tk_inst (s_tasks s ! j))"
  let ?cs = "filter (\<lambda>t. thread_ready t s) (table_iter ?T)"
  have k: "tk_inst (s_tasks s ! j) < length (s_comps s)" by (rule task_goodD(1) [OF tasks_okD(6) [OF s j]])
  note C = comp_goodD [OF tasks_okD(5) [OF s k]]
  have "t < length (s_threads s)" if "t \<in> set ?cs" for t
  proof -
    from that have "t \<in> set (table_iter ?T)" by simp
    then obtain i where "table_entries ?T i = Some t"
      by (force simp: table_iter_def table_entries_def in_set_conv_nth)
    then show ?thesis using C(5) by blast
  qed
  moreover have "th_state (thr s t) = Th_waiting" if "t \<in> set ?cs" for t using that by (auto simp: thread_ready_def Let_def)
  ultimately have go: "wp (thread_resume env t) (\<lambda>_. tasks_ok) tasks_ok u" if "t \<in> set ?cs" "same_tasks s u" for t u
    using wp_candidate(1) [OF env, of u t] that s by (simp add: tasks_ok_same same_tasksD)
  have "wp (chooseCandidate ?cs) (\<lambda>t. wp (seqm (thread_resume env t) (ret True)) (\<lambda>_. tasks_ok) tasks_ok) tasks_ok s" if "?cs \<noteq> []"
    by (rule chosen [OF that]) (use go in \<open>simp add: wp_bnd wp_basic wp_seqm wp_ret_fun\<close>)
  then show ?thesis using s by (simp add: driveSyncLift_turn_def wp_bnd wp_basic wp_state wp_seqm [of "trapIf _ _"])
qed

section \<open>A thread abandoned at the gate\<close>

lemma wp_failCall_abandon:
  assumes s: "tasks_ok s" and t: "t < length (s_threads s)" "th_task (thr s t) = j" "\<not> th_explicit (thr s t)"
  shows "wp (failCall_abandon j t) (\<lambda>_. tasks_ok) tasks_ok s"
proof -
  have "wp (abandonWaiting t) (\<lambda>_. tasks_ok) tasks_ok s" if st: "tk_state (s_tasks s ! j) = T_initial" "th_state (thr s t) = Th_waiting"
  proof -
    let ?k = "thread_inst t s"
    note P = placedD [OF tasks_okD(2) [OF s t(1)]]
    note D = lists_okD [OF tasks_okD(1) [OF s]]
    note W = waiting_facts [OF s t(1) st(2)]
    have pc: "th_pc (thr s t) = Entering" using P st t by (cases "th_pc (thr s t)") (auto simp: at_place_def in_task_def)
    let ?th = "(thr s t)\<lparr>th_ready := None, th_state := Th_suspended\<rparr>"
    let ?u = "put_thread t ?th s\<lparr>s_waiting := remove1 t (s_waiting s)\<rparr>"
    have m: "moved t ?th s ?u" "same_role (thr s t) ?th" by (simp_all add: moved_def same_role_def)
    note M = moved_simps [OF m(1) t(1) m(2)]
    have "lists_ok ?u"
      by (rule lists_change [OF tasks_okD(1) [OF s] t(1), where th = ?th]) (use D(1,2,3) D(8,9) [OF t(1)] W st in auto)
    from takeoff [OF s [unfolded tasks_ok_def] m(1) t(1) m(2) _ this]
    have u: "tinv {t} (\<lambda>k. if k = ?k then 1 else 0) ?u" using pc by (simp add: eq_commute)
    let ?v = "new_comp ?k ((s_comps ?u ! ?k)\<lparr>ci_entering := ci_entering (s_comps ?u ! ?k) + - 1\<rparr>) ?u"
    have v: "tinv {t} (\<lambda>_. 0) ?v"
      by (rule tinv_gate [OF u]) (use tasks_okD(4) [OF s t(1)] in simp_all)
    let ?fth = "?th\<lparr>th_state := Th_done, th_pc := Failed\<rparr>"
    have vt: "thr ?v t = ?th" "task_of ?v t = task_of s t" using t(1) by simp_all
    have m': "moved t ?fth ?v (put_thread t ?fth ?v)" "same_role (thr ?v t) ?fth" using vt by (simp_all add: moved_def same_role_def)
    have lv: "lists_ok (put_thread t ?fth ?v)"
    proof (rule lists_change [OF tinvD(1) [OF v] _ _ , where t = t and th = ?fth])
      show "t < length (s_threads ?v)" using t(1) by simp
    qed (use lists_okD(1,2,3) [OF tinvD(1) [OF v]] lists_okD(7,8,9) [OF tinvD(1) [OF v], of t] vt t(1) W(2) in \<open>simp_all add: put_thread_def\<close>)
    have "tinv {} (\<lambda>_. 0) (put_thread t ?fth ?v)"
      by (rule land [OF _ m' lv]) (use v vt P pc t in \<open>simp_all add: at_place_def in_task_def\<close>)
    then show ?thesis
      using st(2) pc t(1) s unfolding abandonWaiting_def wp_bnd wp_state wp_seqm wp_basic
      by (simp add: wp_leaveWaiting [OF s t(1) st(2)] wps leave_gate_def finish_thread_def tasks_ok_def M(8))
  qed
  then show ?thesis using s by (simp add: failCall_abandon_def wps)
qed

section \<open>New tasks and threads\<close>

lemma tinv_add_task:
  assumes s: "tasks_ok s" and k: "tk_inst tk < length (s_comps s)" and tk: "tk_threads tk = []" "tk_implicit tk = None"
  shows "tasks_ok (s\<lparr>s_tasks := s_tasks s @ [tk]\<rparr>)"
  unfolding tasks_ok_def
proof (rule tinvI)
  let ?s = "s\<lparr>s_tasks := s_tasks s @ [tk]\<rparr>"
  note D = tasks_okD [OF s]
  have old: "s_tasks ?s ! th_task (thr s t) = task_of s t" "thread_inst t ?s = thread_inst t s" if "t < length (s_threads s)" for t
    using D(3) [OF that] by (simp_all add: nth_append thread_inst_def)
  show "lists_ok ?s" by (rule lists_ok_same [OF D(1)]) simp_all
  show "th_task (thr ?s t) < length (s_tasks ?s)" if "t < length (s_threads ?s)" for t
    using D(3) [of t] that by simp
  show "task_good ?s j" if "j < length (s_tasks ?s)" for j
    using D(6) [of j] that k tk by (cases "j = length (s_tasks s)") (simp_all add: task_good_def Let_def nth_append)
  show "comp_good {} 0 ?s c" if "c < length (s_comps ?s)" for c
  proof -
    have g: "gated ?s {} c = gated s {} c" using old by (auto simp: gated_def)
    show ?thesis
      using D(5) [of c] that old unfolding comp_good_def Let_def g by (simp cong: conj_cong)
  qed
  show "placed ?s t" if "t < length (s_threads ?s)" "t \<notin> {}" for t
    using D(2) [of t] that old by (simp add: placed_def)
  show "ended_ok {} ?s t" if "t < length (s_threads ?s)" "t \<notin> {}" "th_pc (thr ?s t) = Finished" for t
    using tinvD(7) [OF s [unfolded tasks_ok_def], of t] that old by (simp add: ended_ok_def)
  show "t = u" if "t < length (s_threads ?s)" "u < length (s_threads ?s)" "\<not> th_explicit (thr ?s t)" "\<not> th_explicit (thr ?s u)"
    "th_task (thr ?s t) = th_task (thr ?s u)" for t u
    using tinvD(8) [OF s [unfolded tasks_ok_def], of t u] that by simp
qed simp

lemma tinv_add_thread:
  assumes s: "tasks_ok s" and th: "th_task th < length (s_tasks s)" "th_state th = Th_suspended" "th_ready th = None" "th_index th = None"
      "\<not> th_awaiting th" "th_pc th = NotStarted"
    and st: "if th_explicit th then tk_state (s_tasks s ! th_task th) \<noteq> T_initial
      else tk_state (s_tasks s ! th_task th) = T_initial \<and> (\<forall>u < length (s_threads s). th_task (thr s u) \<noteq> th_task th)"
  shows "tasks_ok (s\<lparr>s_threads := s_threads s @ [th]\<rparr>)"
  unfolding tasks_ok_def
proof (rule tinvI)
  let ?s = "s\<lparr>s_threads := s_threads s @ [th]\<rparr>" and ?n = "length (s_threads s)"
  note D = tasks_okD [OF s]
  note L = lists_okD [OF D(1)]
  have old: "thr ?s t = thr s t" "thread_inst t ?s = thread_inst t s" if "t < ?n" for t
    using that by (simp_all add: nth_append thread_inst_def)
  have new: "thr ?s ?n = th" by simp
  show "lists_ok ?s"
    unfolding lists_ok_def
  proof (intro conjI ballI allI impI)
    fix t assume "t \<in> set (s_waiting ?s) \<union> set (s_stack ?s) \<union> set (s_awaiting ?s)"
    then show "t < length (s_threads ?s)" using L(4-6) [of t] by (auto simp: less_Suc_eq)
  next
    fix t assume "t < length (s_threads ?s)"
    then show "(t \<in> set (s_waiting ?s)) = (th_state (thr ?s t) = Th_waiting)" "(t \<in> set (s_stack ?s)) = (th_state (thr ?s t) = Th_running)"
      "(t \<in> set (s_awaiting ?s)) = th_awaiting (thr ?s t)"
      using L(4-6) [of ?n] L(7-9) [of t] th new old(1) [of t] by (cases "t = ?n"; auto)+
  qed (use L(1-3,10-13) in simp_all)
  show "th_task (thr ?s t) < length (s_tasks ?s)" if "t < length (s_threads ?s)" for t
    using D(3) [of t] that th(1) by (cases "t = ?n") (simp_all add: nth_append)
  show "task_good ?s j" if "j < length (s_tasks ?s)" for j
  proof -
    have g: "task_good s j" using D(6) [of j] that by simp
    have "u < length (s_threads ?s) \<and> th_task (thr ?s u) = j" if "u \<in> set (tk_threads (s_tasks s ! j))" for u
      using task_goodD(3) [OF g that] old(1) [of u] by (simp add: less_Suc_eq)
    moreover have "u < length (s_threads ?s) \<and> th_task (thr ?s u) = j \<and> \<not> th_explicit (thr ?s u)" if "tk_implicit (s_tasks s ! j) = Some u" for u
      using task_goodD(4) [OF g that] old(1) [of u] by (simp add: less_Suc_eq)
    ultimately show ?thesis using g by (simp add: task_good_def Let_def)
  qed
  show "comp_good {} 0 ?s c" if c: "c < length (s_comps ?s)" for c
  proof -
    have C: "comp_good {} 0 s c" using D(5) [of c] c by simp
    note G = comp_goodD [OF C]
    have g: "gated ?s {} c = gated s {} c" using old th(6) by (auto simp: gated_def less_Suc_eq nth_append)
    have e: "table_entries (ci_threads (s_comps s ! c)) i = Some t \<longleftrightarrow>
        t < length (s_threads ?s) \<and> th_index (thr ?s t) = Some i \<and> thread_inst t ?s = c" for i t
      using G(5) [of i t] old th(4) new by (cases "t = ?n") (auto simp: less_Suc_eq)
    have x: "t < length (s_threads ?s) \<and> thread_inst t ?s = c \<and> \<not> th_explicit (thr ?s t) \<and> claims_slot (task_of ?s t) \<and>
        (t \<in> {} \<or> in_wasm (th_pc (thr ?s t)) \<or> th_pc (thr ?s t) = Failed)" if "ci_exclusive (s_comps s ! c) = Some t" for t
      using G(6) [OF that] old [of t] by simp
    show ?thesis using G(1-4) e x unfolding comp_good_def Let_def g by simp
  qed
  show "placed ?s t" if "t < length (s_threads ?s)" "t \<notin> {}" for t
  proof (cases "t = ?n")
    case True
    have "t \<notin> set (tk_threads (s_tasks s ! th_task th))" using task_goodD(3) [OF D(6) [OF th(1)], of t] True by auto
    then show ?thesis using True th st new by (auto simp: placed_def at_place_def in_task_def)
  next
    case False
    then show ?thesis using D(2) [of t] that old by (simp add: placed_def)
  qed
  show "ended_ok {} ?s t" if "t < length (s_threads ?s)" "t \<notin> {}" "th_pc (thr ?s t) = Finished" for t
  proof -
    have t: "t < ?n" using that th(6) new by (cases "t = ?n") auto
    then have "ended_ok {} s t" using tinvD(7) [OF s [unfolded tasks_ok_def], of t] that old by simp
    then show ?thesis using t unfolding ended_ok_def by (auto simp: nth_append)
  qed
  show "t = u" if "t < length (s_threads ?s)" "u < length (s_threads ?s)" "\<not> th_explicit (thr ?s t)" "\<not> th_explicit (thr ?s u)"
    "th_task (thr ?s t) = th_task (thr ?s u)" for t u
    using tinvD(8) [OF s [unfolded tasks_ok_def], of t u] that st new old by (auto simp: less_Suc_eq split: if_splits)
qed simp

lemma wp_call_lift:
  assumes env: "calls_inert env" and s: "tasks_ok s" and k: "tk_inst tk < length (s_comps s)"
  shows "wp (call_lift env caller tk) (\<lambda>_. tasks_ok) tasks_ok s"
proof -
  let ?j = "length (s_tasks s)" and ?t = "length (s_threads s)"
  let ?tk = "tk\<lparr>tk_state := T_initial, tk_implicit := None, tk_threads := []\<rparr>"
  let ?th = "\<lparr>th_task = ?j, th_explicit = False, th_state = Th_suspended, th_ready = None, th_index = None, th_storage = [0, 0],
    th_awaiting = False, th_pc = NotStarted, th_closure = []\<rparr>"
  let ?s = "s\<lparr>s_tasks := s_tasks s @ [?tk]\<rparr>"
  let ?u = "?s\<lparr>s_threads := s_threads s @ [?th]\<rparr>"
  have "tasks_ok ?s" by (rule tinv_add_task [OF s]) (use k in simp_all)
  then have "tasks_ok (?s\<lparr>s_threads := s_threads ?s @ [?th]\<rparr>)"
  proof (rule tinv_add_thread)
    have "th_task (thr s u) \<noteq> ?j" if "u < length (s_threads s)" for u using tasks_okD(3) [OF s that] by simp
    then show "if th_explicit ?th then tk_state (s_tasks ?s ! th_task ?th) \<noteq> T_initial
      else tk_state (s_tasks ?s ! th_task ?th) = T_initial \<and> (\<forall>u < length (s_threads ?s). th_task (thr ?s u) \<noteq> th_task ?th)"
      by simp
  qed simp_all
  then have "wp (thread_resume env ?t) (\<lambda>_. tasks_ok) tasks_ok ?u"
    by (intro wp_thread_resume [OF env]) simp_all
  from wp_poisoning [OF env this] show ?thesis
    using s by (simp add: call_lift_def newTask_def newThread_def wps wp_ret_fun)
qed

section \<open>The built-ins\<close>

text \<open>The thread that a built-in is attributed to runs in WebAssembly.\<close>

lemma ambient_facts:
  assumes s: "tasks_ok s" and t: "t \<in> set (s_stack s) \<union> set (s_claims s)"
  shows "t < length (s_threads s)" "in_wasm (th_pc (thr s t))"
proof -
  note D = lists_okD [OF tasks_okD(1) [OF s]]
  show n: "t < length (s_threads s)" using t D(5,6,10) by blast
  note P = placedD [OF tasks_okD(2) [OF s n]]
  have "th_state (thr s t) = Th_running \<or> th_awaiting (thr s t)" using t D(8,9) [OF n] D(10) [of t] by auto
  then show "in_wasm (th_pc (thr s t))"
    using P(1,2) by (cases "th_pc (thr s t)") (auto simp: at_place_def in_task_def split: if_splits)
qed

lemma wp_current:
  assumes s: "tasks_ok s" and Q: "\<And>t. t < length (s_threads s) \<Longrightarrow> in_wasm (th_pc (thr s t)) \<Longrightarrow> Q t s"
  shows "wp currentThread Q tasks_ok s" "wp (currentThreadExactlyForInstance k) Q tasks_ok s" "wp (currentThreadForInstance d) Q tasks_ok s"
proof -
  have q: "Q t s" if "t \<in> set (s_stack s) \<union> set (s_claims s)" for t using ambient_facts [OF s that] Q by blast
  have found: "t \<in> set (s_stack s) \<union> set (s_claims s)" if "ambientForInstance k s = Some t" for k t
  proof -
    have "t \<in> set (s_claims s)" if "find (\<lambda>t. thread_inst t s = k) (s_claims s) = Some t"
      using that by (auto simp: find_Some_iff)
    then show ?thesis using that by (cases "s_stack s") (auto simp: ambientForInstance_def Let_def split: if_splits)
  qed
  show c: "wp currentThread Q tasks_ok s"
    using s q by (cases "s_stack s"; cases "s_claims s") (auto simp: currentThread_def wps)
  show "wp (currentThreadExactlyForInstance k) Q tasks_ok s"
    using s q found by (auto simp: currentThreadExactlyForInstance_def wps split: option.split)
  show "wp (currentThreadForInstance d) Q tasks_ok s"
    using c q found by (auto simp: currentThreadForInstance_def wps split: option.split)
qed

lemma wp_currentTask:
  assumes s: "tasks_ok s" and Q: "\<And>j. j < length (s_tasks s) \<Longrightarrow> tk_state (s_tasks s ! j) \<noteq> T_initial \<Longrightarrow> Q j s"
  shows "wp currentTask Q tasks_ok s"
    "wp (bnd (currentThreadExactlyForInstance k) (\<lambda>t. bnd (thread_at t) (\<lambda>th. ret (th_task th)))) Q tasks_ok s"
  using Q tasks_okD(3) [OF s] at_wasm(6) [OF s] unfolding currentTask_def wp_bnd wp_state wp_basic
  by (intro wp_current [OF s]; blast)+

lemma wp_ok_inert:
  assumes "tasks_ok s" "\<And>x. preserves (more_is x) a" "\<And>x u. tasks_ok u \<Longrightarrow> same_tasks s u \<Longrightarrow> Q x u"
  shows "wp a Q tasks_ok s"
  by (rule wp_inert [OF assms(2)]) (use assms(1,3) tasks_ok_same in blast)+

lemma inert_guards: "preserves (more_is x) (declared_guard d what)" "preserves (more_is x) (leave_guard k what)"
  by (auto simp del: run_rules simp: declared_guard_def leave_guard_def mayLeave_def intro!: preserving split: option.split)

lemma tasks_ok_resolved:
  assumes s: "tasks_ok s" and j: "j < length (s_tasks s)" "tk_state (s_tasks s ! j) \<noteq> T_initial" and v: "same_tasks s v"
  shows "tasks_ok (new_task j ((s_tasks v ! j)\<lparr>tk_state := T_resolved\<rparr>) v)"
  unfolding tasks_ok_def
  by (rule tinv_state) (use s j v tasks_ok_same [OF v] in \<open>simp_all add: tasks_ok_def same_tasksD\<close>)

lemma wp_resolution:
  assumes env: "calls_inert env" and s: "tasks_ok s" and j: "j < length (s_tasks s)" "tk_state (s_tasks s ! j) \<noteq> T_initial"
  shows "wp (task_return env j r) (\<lambda>_. tasks_ok) tasks_ok s" "wp (task_cancel env j) (\<lambda>_. tasks_ok) tasks_ok s"
  by (rule wp_mono [OF wp_resolves(1) [OF env]]; use tasks_ok_resolved [OF s j] tasks_ok_same s in blast)
    (rule wp_mono [OF wp_resolves(2) [OF env]]; use tasks_ok_resolved [OF s j] tasks_ok_same s in blast)

lemma wp_taskReturn:
  assumes env: "calls_inert env" and s: "tasks_ok s"
  shows "wp (taskReturn env d rts opts vs) (\<lambda>_. tasks_ok) tasks_ok s"
proof -
  have lift: "preserves (more_is x) (lift_results env j tk n flat)" for x j tk n flat
    by (auto simp del: run_rules simp: lift_results_def intro!: preserving)
  have rest: "wp (return_from env rts opts vs j) (\<lambda>_. tasks_ok) tasks_ok u"
    if u: "tasks_ok u" and j: "j < length (s_tasks u)" "tk_state (s_tasks u ! j) \<noteq> T_initial" for j u
  proof -
    have R: "wp (task_return env j r) (\<lambda>_. tasks_ok) tasks_ok w" if "tasks_ok w" "same_tasks u w" for r w
      by (rule wp_resolution(1) [OF env that(1)]) (use j that(2) in \<open>simp_all add: same_tasksD\<close>)
    have L: "wp (bnd (lift_results env j tk n flat) (task_return env j)) (\<lambda>_. tasks_ok) tasks_ok w"
      if w: "tasks_ok w" "same_tasks u w" for tk n flat w
      unfolding wp_bnd
      by (rule wp_ok_inert [OF w(1) lift]) (use R w(2) in \<open>simp add: same_tasks_def\<close>)
    have T: "wp (bnd (of_res r) (task_return env j)) (\<lambda>_. tasks_ok) tasks_ok w"
      "wp (bnd (of_res r) (\<lambda>flat. bnd (lift_results env j tk n flat) (task_return env j))) (\<lambda>_. tasks_ok) tasks_ok w"
      if w: "tasks_ok w" "same_tasks u w" for r tk n w
      using R L [unfolded wp_bnd] w by (cases r; simp add: wps)+
    show ?thesis
      unfolding return_from_def wp_bnd [of "task_at _"] wp_state wp_seqm [of "declared_guard _ _"]
      by (rule wp_ok_inert [OF u inert_guards(1)]) (simp add: wp_seqm [of "trapIf _ _"] wp_basic T)
  qed
  show ?thesis
    unfolding taskReturn_def wp_seqm [of "declared_guard _ _"]
  proof (rule wp_ok_inert [OF s inert_guards(1)])
    fix u assume u: "tasks_ok u"
    show "wp (bnd (case d of None \<Rightarrow> currentTask
                   | Some k \<Rightarrow> bnd (currentThreadExactlyForInstance k) (\<lambda>t. bnd (thread_at t) (\<lambda>th. ret (th_task th))))
        (return_from env rts opts vs)) (\<lambda>_. tasks_ok) tasks_ok u"
      unfolding wp_bnd [of _ "return_from env rts opts vs"]
      using wp_currentTask [OF u, where Q = "\<lambda>j. wp (return_from env rts opts vs j) (\<lambda>_. tasks_ok) tasks_ok"] rest [OF u]
      by (cases d) simp_all
  qed
qed

lemma wp_taskCancel:
  assumes env: "calls_inert env" and s: "tasks_ok s"
  shows "wp (taskCancel env d) (\<lambda>_. tasks_ok) tasks_ok s"
proof -
  have rest: "wp (bnd (task_at j) (\<lambda>tk. seqm (declared_guard (Some (tk_inst tk)) ''task.cancel'')
      (seqm (trapIf (\<not> tk_async tk) ''task.cancel from a non-async task'') (task_cancel env j)))) (\<lambda>_. tasks_ok) tasks_ok u"
    if u: "tasks_ok u" and j: "j < length (s_tasks u)" "tk_state (s_tasks u ! j) \<noteq> T_initial" for j u
    unfolding wp_bnd [of "task_at _"] wp_state wp_seqm [of "declared_guard _ _"]
    by (rule wp_ok_inert [OF u inert_guards(1)])
      (use j in \<open>simp add: wp_seqm [of "trapIf _ _"] wp_basic wp_resolution(2) [OF env] same_tasksD\<close>)
  show ?thesis
    unfolding taskCancel_def wp_seqm [of "declared_guard _ _"]
    by (rule wp_ok_inert [OF s inert_guards(1)]) (unfold wp_bnd [of currentTask], blast intro: wp_currentTask(1) rest)
qed

lemma wp_backpressure:
  assumes s: "tasks_ok s" and k: "k < length (s_comps s)"
  shows "wp (backpressureInc k) (\<lambda>_. tasks_ok) tasks_ok s" "wp (backpressureDec k) (\<lambda>_. tasks_ok) tasks_ok s"
proof -
  let ?n = "ci_backpressure (s_comps s ! k)"
  have "tasks_ok (new_comp k ((s_comps s ! k)\<lparr>ci_backpressure := n\<rparr>) s)" if "- 1 \<le> n" "n \<le> 2 ^ 16" for n
    using tinv_backpressure [OF s [unfolded tasks_ok_def] k that] by (simp add: tasks_ok_def)
  from this [of "?n + 1"] this [of "?n - 1"]
  show "wp (backpressureInc k) (\<lambda>_. tasks_ok) tasks_ok s" "wp (backpressureDec k) (\<lambda>_. tasks_ok) tasks_ok s"
    using s by (simp_all add: backpressureInc_def backpressureDec_def requestService_def wps tasks_ok_def)
qed

lemma wp_context:
  assumes s: "tasks_ok s"
  shows "wp (canonContextGet i d) (\<lambda>_. tasks_ok) tasks_ok s" "wp (canonContextSet i v d) (\<lambda>_. tasks_ok) tasks_ok s"
proof -
  have set: "tasks_ok (put_thread t ((thr s t)\<lparr>th_storage := x\<rparr>) s)" if t: "t < length (s_threads s)" "in_wasm (th_pc (thr s t))" for t x
  proof (rule shift [OF s t(1)])
    let ?th = "(thr s t)\<lparr>th_storage := x\<rparr>"
    note P = placedD [OF tasks_okD(2) [OF s t(1)]]
    note D = lists_okD [OF tasks_okD(1) [OF s]]
    show "lists_ok (put_thread t ?th s)"
      by (rule lists_change [OF tasks_okD(1) [OF s] t(1), where th = ?th]) (use D(1-3) D(7-9) [OF t(1)] in simp_all)
    show "at_place (task_of s t) ?th" using P(1) t(2) by (cases "th_pc (thr s t)") (simp_all add: at_place_def)
    show "in_task (task_of s t) t ?th" using P(2) by (simp add: in_task_def)
  qed (use at_wasm(5) [OF s t] in \<open>simp_all add: moved_def same_role_def\<close>)
  show "wp (canonContextGet i d) (\<lambda>_. tasks_ok) tasks_ok s"
    unfolding canonContextGet_def wp_bnd [of "currentThreadForInstance d"]
    by (rule wp_current(3) [OF s]) (use s in \<open>simp add: wps\<close>)
  show "wp (canonContextSet i v d) (\<lambda>_. tasks_ok) tasks_ok s"
    unfolding canonContextSet_def wp_bnd [of "currentThreadForInstance d"]
    by (rule wp_current(3) [OF s]) (use s set in \<open>simp add: wps\<close>)
qed

lemma wp_threadIndex:
  assumes s: "tasks_ok s" shows "wp (threadIndex k) (\<lambda>_. tasks_ok) tasks_ok s"
  unfolding threadIndex_def wp_seqm [of "leave_guard _ _"]
proof (rule wp_ok_inert [OF s inert_guards(2)])
  fix u assume u: "tasks_ok u"
  show "wp (bnd (currentThreadExactlyForInstance k) (\<lambda>t. bnd (thread_at t) (\<lambda>th.
      seqm (assertm (th_index th \<noteq> None) ''current thread is not registered'') (ret (the (th_index th)))))) (\<lambda>_. tasks_ok) tasks_ok u"
    unfolding wp_bnd [of "currentThreadExactlyForInstance k"]
    by (rule wp_current(2) [OF u]) (use u in \<open>simp add: wps\<close>)
qed

text \<open>A new explicit thread is registered with its task and its instance, or stays outside the
  table that was full.\<close>

lemma wp_newExplicit:
  assumes s: "tasks_ok s" and j: "j < length (s_tasks s)" "tk_state (s_tasks s ! j) \<noteq> T_initial"
  shows "wp (bnd (newThread j True cl) (\<lambda>t. seqm (registerThread j t) (bnd (thread_at t) (\<lambda>th. ret (the (th_index th)))))) (\<lambda>_. tasks_ok) tasks_ok s"
proof -
  let ?t = "length (s_threads s)"
  let ?th = "\<lparr>th_task = j, th_explicit = True, th_state = Th_suspended, th_ready = None, th_index = None, th_storage = [0, 0],
    th_awaiting = False, th_pc = NotStarted, th_closure = cl\<rparr>"
  let ?u = "s\<lparr>s_threads := s_threads s @ [?th]\<rparr>"
  have u: "tasks_ok ?u" by (rule tinv_add_thread [OF s]) (use j in simp_all)
  have n: "?t < length (s_threads ?u)" by simp
  have tu: "thr ?u ?t = ?th" by simp
  have "tinv {?t} (\<lambda>_. 0) ?u"
    using takeoff [OF u [unfolded tasks_ok_def], of ?t ?th ?u] tasks_okD(1) [OF u] by (simp add: moved_def same_role_def)
  moreover have "?t \<notin> set (tk_threads (task_of ?u ?t))"
    using task_goodD(3) [OF tasks_okD(6) [OF s j(1)], of ?t] by auto
  ultimately have r: "wp (registerThread j ?t)
     (\<lambda>_ v. tinv {?t} (\<lambda>_. 0) v \<and> (\<exists>i T. v = book ?t (Some i) (tk_threads (task_of ?u ?t) @ [?t]) T ?u))
     (\<lambda>v. tinv {?t} (\<lambda>_. 0) v \<and> (\<exists>T. v = book ?t None (tk_threads (task_of ?u ?t) @ [?t]) T ?u)) ?u"
    by (intro wp_register) simp_all
  have land': "tasks_ok v" if v: "tinv {?t} (\<lambda>_. 0) v" "v = book ?t x (tk_threads (task_of ?u ?t) @ [?t]) T ?u" for v x T
  proof -
    have "th_task (thr ?u ?t) < length (s_tasks ?u)" using j by simp
    note B = book_simps(4,5) [OF n this, where x = x and L = "tk_threads (task_of ?u ?t) @ [?t]" and T = T]
    have tv: "thr v ?t = ?th\<lparr>th_index := x\<rparr>" "task_of v ?t = (s_tasks s ! j)\<lparr>tk_threads := tk_threads (s_tasks s ! j) @ [?t]\<rparr>"
      using B v(2) by simp_all
    have m: "moved ?t (thr v ?t) v v" "same_role (thr v ?t) (thr v ?t)" by (simp_all add: moved_def same_role_def)
    have l: "lists_ok v" by (rule tinvD(1) [OF v(1)])
    show ?thesis
      unfolding tasks_ok_def
    proof (rule land [OF _ m l])
      show "in_wasm (th_pc (thr v ?t)) \<or> th_pc (thr v ?t) = Failed"
        if "k < length (s_comps v)" "ci_exclusive (s_comps v ! k) = Some ?t" for k
        using comp_goodD(6) [OF tinvD(4) [OF v(1) that(1)] that(2)] tv by simp
    qed (use v tv j in \<open>simp_all add: at_place_def in_task_def\<close>)
  qed
  have "wp (registerThread j ?t) (\<lambda>_. tasks_ok) tasks_ok ?u"
    by (rule wp_mono [OF r]) (use land' in blast)+
  then have "wp (seqm (registerThread j ?t) (bnd (thread_at ?t) (\<lambda>th. ret (the (th_index th))))) (\<lambda>_. tasks_ok) tasks_ok ?u"
    unfolding wp_seqm by (rule wp_mono) (simp_all add: wps)
  then show ?thesis by (simp add: newThread_def wp_bnd wp_seqm [of "modify _"] wp_basic)
qed

lemma wp_threadNewIndirect:
  assumes s: "tasks_ok s"
  shows "wp (threadNewIndirect k tbl i closure) (\<lambda>_. tasks_ok) tasks_ok s"
  unfolding threadNewIndirect_def wp_seqm [of "leave_guard _ _"]
proof (rule wp_ok_inert [OF s inert_guards(2)])
  fix u assume u: "tasks_ok u"
  show "wp (bnd (currentThreadExactlyForInstance k) (\<lambda>cur. bnd (thread_at cur) (\<lambda>th. case tbl i of
        None \<Rightarrow> throw (Trap ''thread.new-indirect table index out of range'')
      | Some target \<Rightarrow>
          seqm (trapIf (target = None) ''thread.new-indirect function is null'')
          (seqm (trapIf (closure_type closure = None) ''thread.new-indirect invalid closure type'')
          (seqm (trapIf (target \<noteq> closure_type closure) ''thread.new-indirect function type mismatch'')
          (bnd (newThread (th_task th) True [closure]) (\<lambda>t.
           seqm (registerThread (th_task th) t)
           (bnd (thread_at t) (\<lambda>th. ret (the (th_index th)))))))))))  (\<lambda>_. tasks_ok) tasks_ok u"
    unfolding wp_bnd [of "currentThreadExactlyForInstance k"]
  proof (rule wp_current(2) [OF u])
    fix t assume t: "t < length (s_threads u)" "in_wasm (th_pc (thr u t))"
    note N = wp_newExplicit [OF u tasks_okD(3) [OF u t(1)] at_wasm(6) [OF u t], of "[closure]"]
    show "wp (bnd (thread_at t) (\<lambda>th. case tbl i of
        None \<Rightarrow> throw (Trap ''thread.new-indirect table index out of range'')
      | Some target \<Rightarrow>
          seqm (trapIf (target = None) ''thread.new-indirect function is null'')
          (seqm (trapIf (closure_type closure = None) ''thread.new-indirect invalid closure type'')
          (seqm (trapIf (target \<noteq> closure_type closure) ''thread.new-indirect function type mismatch'')
          (bnd (newThread (th_task th) True [closure]) (\<lambda>t.
           seqm (registerThread (th_task th) t)
           (bnd (thread_at t) (\<lambda>th. ret (the (th_index th)))))))))) (\<lambda>_. tasks_ok) tasks_ok u"
      unfolding wp_bnd [of "thread_at t"] wp_state
      using u N by (cases "tbl i") (simp_all add: wp_basic wp_seqm [of "trapIf _ _"])
  qed
qed

lemma wp_resumeLater:
  assumes s: "tasks_ok s" and t: "t < length (s_threads s)" "th_index (thr s t) \<noteq> None" and e: "explicitlySuspended (thr s t)"
  shows "wp (resumeLater t) (\<lambda>_. tasks_ok) tasks_ok s"
proof -
  have w: "th_state (thr s t) = Th_suspended" "\<not> th_awaiting (thr s t)" using e by (simp_all add: explicitlySuspended_def)
  note P = placedD [OF tasks_okD(2) [OF s t(1)]]
  note S = suspended_facts [OF s t(1) w(1)]
  note D = lists_okD [OF tasks_okD(1) [OF s]]
  let ?th = "(thr s t)\<lparr>th_ready := Some Always, th_state := Th_waiting\<rparr>"
  have place: "at_place (task_of s t) ?th" "t \<in> set (tk_threads (task_of s t))"
    using P(1,2) t(2) w(1) by (cases "th_pc (thr s t)"; auto simp: at_place_def in_task_def)+
  have "tasks_ok s'" if "s_threads s' = (s_threads s)[t := ?th]" "s_tasks s' = s_tasks s" "s_comps s' = s_comps s"
    "s_waiting s' = s_waiting s @ [t]" "s_stack s' = s_stack s" "s_awaiting s' = s_awaiting s" "s_claims s' = s_claims s"
    "s_settled s' = s_settled s" for s'
  proof (rule shift [OF s t(1) _ _ _ _ _ place(1)])
    show "lists_ok s'"
      by (rule lists_change [OF tasks_okD(1) [OF s] t(1) that(1)]) (use D(1-3) D(9) [OF t(1)] S w that in auto)
    show "in_task (task_of s t) t ?th" using P(2) w by (simp add: in_task_def)
  qed (use that place in \<open>simp_all add: moved_def same_role_def\<close>)
  then show ?thesis
    using e w S by (simp add: resumeLater_def startWaiting_def store_startWaiting_def requestService_def wps put_thread_def)
qed

lemma wp_threadResumeLater:
  assumes s: "tasks_ok s" and k: "k < length (s_comps s)"
  shows "wp (threadResumeLater k i) (\<lambda>_. tasks_ok) tasks_ok s"
  unfolding threadResumeLater_def wp_seqm [of "leave_guard _ _"]
proof (rule wp_ok_inert [OF s inert_guards(2)])
  fix u assume u: "tasks_ok u" and same: "same_tasks s u"
  let ?T = "ci_threads (s_comps u ! k)"
  have k': "k < length (s_comps u)" using k same by (simp add: same_tasksD)
  note C = comp_goodD [OF tasks_okD(5) [OF u k']]
  have id: "u\<lparr>s_comps := (s_comps u)[k := (s_comps u ! k)\<lparr>ci_threads := ?T\<rparr>]\<rparr> = u" by simp
  have get: "wp (table_get (int i)) (\<lambda>t T. T = ?T \<and> t < length (s_threads u) \<and> th_index (thr u t) \<noteq> None) (\<lambda>T. T = ?T) ?T"
    using ht.lookup_hit [OF C(4), of i] ht.lookup_miss [OF C(4), of "int i"] C(5) [of i]
    by (cases "table_entries ?T i") (auto simp: wp_def)
  have target: "wp (requireTarget k i) (\<lambda>t v. v = u \<and> t < length (s_threads u) \<and> th_index (thr u t) \<noteq> None) tasks_ok u"
    unfolding requireTarget_def wp_bnd [of "threads_of _ _"] wp_threads_of
  proof (rule wp_mono [OF get])
    fix t T assume T: "T = ?T \<and> t < length (s_threads u) \<and> th_index (thr u t) \<noteq> None"
    have "wp (bnd (currentThreadExactlyForInstance k) (\<lambda>c. seqm (trapIf (t = c) ''cannot resume the current thread'') (ret t)))
      (\<lambda>t v. v = u \<and> t < length (s_threads u) \<and> th_index (thr u t) \<noteq> None) tasks_ok u"
      unfolding wp_bnd by (rule wp_current(2) [OF u]) (use T u in \<open>simp add: wps\<close>)
    then show "wp (bnd (currentThreadExactlyForInstance k) (\<lambda>c. seqm (trapIf (t = c) ''cannot resume the current thread'') (ret t)))
      (\<lambda>t v. v = u \<and> t < length (s_threads u) \<and> th_index (thr u t) \<noteq> None) tasks_ok
      (u\<lparr>s_comps := (s_comps u)[k := (s_comps u ! k)\<lparr>ci_threads := T\<rparr>]\<rparr>)"
      using T id by simp
  qed (use u in simp)
  show "wp (bnd (requireTarget k i) (\<lambda>t. bnd (thread_at t) (\<lambda>th.
      seqm (trapIf (\<not> explicitlySuspended th) ''cannot resume thread'') (resumeLater t)))) (\<lambda>_. tasks_ok) tasks_ok u"
    unfolding wp_bnd [of "requireTarget k i"]
    by (rule wp_mono [OF target]) (use u wp_resumeLater [OF u] in \<open>auto simp: wps\<close>)
qed

end
