(* ===== verification/Task_Reach.thy ===== *)
theory Task_Reach
  imports Task_Moves Async_Reach
begin

text \<open>
  The life of a store: one step is one call of an export, one return, exception or suspension
  of a core function, one settlement, one turn of the scheduler, one built-in, or anything at
  all that leaves the tasks alone. The invariant holds in every store that such steps reach.
\<close>

section \<open>Steps\<close>

definition outcome_input :: "cval list res \<Rightarrow> input" where
  "outcome_input v = (case v of Inl e \<Rightarrow> Throws e | Inr vs \<Rightarrow> Values vs)"

text \<open>A core function returns to the thread on top of the stack; a failure poisons the instance.\<close>

definition core_returns :: "tenv \<Rightarrow> nat \<Rightarrow> cval list res \<Rightarrow> unit tm" where
  "core_returns env t v =
     bnd (gets (thread_inst t)) (\<lambda>k. poisoning env k (run_body env t (outcome_input v)))"

text \<open>\<open>can_turn env s a\<close>: \<open>a\<close> is an operation that can run next in \<open>s\<close>. A cancellation names a task
  whose call has made its first step, since its caller holds the subtask.\<close>

inductive can_turn :: "tenv \<Rightarrow> task_store \<Rightarrow> unit tm \<Rightarrow> bool" for env s where
  "tk_inst tk < length (s_comps s) \<Longrightarrow> can_turn env s (void (call_lift env from tk))"
| "s_stack s = t # ts \<Longrightarrow> in_wasm (th_pc (s_threads s ! t)) \<Longrightarrow> can_turn env s (core_returns env t v)"
| "s_stack s = t # ts \<Longrightarrow> in_wasm (th_pc (s_threads s ! t)) \<Longrightarrow> can_turn env s (core_suspends t)"
| "t \<in> set (s_awaiting s) \<Longrightarrow> t \<notin> fst ` set (s_settled s) \<Longrightarrow> can_turn env s (settle t v)"
| "t \<in> set (s_awaiting s) \<Longrightarrow> t \<notin> fst ` set (s_settled s) \<Longrightarrow> can_turn env s (claimActivationAmbient t)"
| "can_turn env s (addPendingResumption t)"
| "can_turn env s (void (serviceSettledStep env))"
| "can_turn env s (void (tick env))"
| "can_turn env s (void (tickForInstance env k))"
| "j < length (s_tasks s) \<Longrightarrow> can_turn env s (void (driveSyncLift_turn env j))"
| "j < length (s_tasks s) \<Longrightarrow> tk_implicit (s_tasks s ! j) = Some t \<Longrightarrow> can_turn env s (failCall_abandon j t)"
| "j < length (s_tasks s) \<Longrightarrow>
     tk_state (s_tasks s ! j) = T_initial \<longrightarrow> (\<exists>t. tk_implicit (s_tasks s ! j) = Some t \<and> th_pc (s_threads s ! t) \<noteq> NotStarted) \<Longrightarrow>
     can_turn env s (requestCancellation env j)"
| "can_turn env s (taskReturn env d rts opts vs)"
| "can_turn env s (taskCancel env d)"
| "k < length (s_comps s) \<Longrightarrow> can_turn env s (backpressureInc k)"
| "k < length (s_comps s) \<Longrightarrow> can_turn env s (backpressureDec k)"
| "can_turn env s (void (canonContextGet i d))"
| "can_turn env s (canonContextSet i x d)"
| "can_turn env s (void (threadIndex k))"
| "can_turn env s (void (threadNewIndirect k tbl i c))"
| "k < length (s_comps s) \<Longrightarrow> can_turn env s (threadResumeLater k i)"
| "(\<And>x. preserves (more_is x) a) \<Longrightarrow> can_turn env s a"

inductive task_step :: "tenv \<Rightarrow> task_store \<Rightarrow> task_store \<Rightarrow> bool" for env where
  "can_turn env s a \<Longrightarrow> a s = (r, u) \<Longrightarrow> task_step env s u"

inductive_cases task_stepE: "task_step env s u"

section \<open>Every step keeps the invariant\<close>

lemma wp_void': "wp a (\<lambda>_. P) E s \<Longrightarrow> wp (void a) (\<lambda>_. P) E s"
  unfolding void_def wp_bnd by (simp add: wp_ret_fun)

lemma wp_core_returns:
  assumes env: "calls_inert env" and s: "tasks_ok s" "s_stack s = t # ts" "in_wasm (th_pc (thr s t))"
  shows "wp (core_returns env t v) (\<lambda>_. tasks_ok) tasks_ok s"
proof -
  have "wp (run_body env t (outcome_input v)) (\<lambda>_. tasks_ok) tasks_ok s"
    by (rule wp_runs [OF env boards_top [OF s] s(3)])
  then show ?thesis by (simp add: core_returns_def wps wp_poisoning [OF env])
qed

lemma wp_turn:
  assumes env: "calls_inert env" and s: "tasks_ok s" and a: "can_turn env s a"
  shows "wp a (\<lambda>_. tasks_ok) tasks_ok s"
proof -
  have weak: "wp a (\<lambda>_. tasks_ok) (\<lambda>_. False) s \<Longrightarrow> wp a (\<lambda>_. tasks_ok) tasks_ok s" for a :: "unit tm"
    by (erule wp_mono) simp_all
  have pending: "wp (addPendingResumption t) (\<lambda>_. tasks_ok) tasks_ok s" for t
  proof -
    have "tasks_ok (s\<lparr>s_pending := x\<rparr>)" for x
      by (rule releases [OF s]) simp_all
    then show ?thesis by (simp add: addPendingResumption_def wps)
  qed
  have cancel: "wp (requestCancellation env j) (\<lambda>_. tasks_ok) tasks_ok s"
    if "j < length (s_tasks s)"
      "tk_state (s_tasks s ! j) = T_initial \<longrightarrow> (\<exists>t. tk_implicit (s_tasks s ! j) = Some t \<and> th_pc (thr s t) \<noteq> NotStarted)" for j
    by (rule wp_requestCancellation [OF env s that(1)]) (use that(2) in blast)
  have fail: "wp (failCall_abandon j t) (\<lambda>_. tasks_ok) tasks_ok s"
    if "j < length (s_tasks s)" "tk_implicit (s_tasks s ! j) = Some t" for j t
    using wp_failCall_abandon [OF s] task_goodD(4) [OF tasks_okD(6) [OF s that(1)] that(2)] by blast
  have service: "wp (serviceSettledStep env) (\<lambda>_. tasks_ok) tasks_ok s"
    using wp_service_queue [OF env s refl] by (simp add: serviceSettledStep_def wps)
  have inert: "wp a (\<lambda>_. tasks_ok) tasks_ok s" if "\<And>x. preserves (more_is x) a" for a :: "unit tm"
    by (rule wp_ok_inert [OF s that])
  show ?thesis
    using a
    by (cases rule: can_turn.cases)
      (simp_all add: wp_void' wp_call_lift [OF env s] wp_core_returns [OF env s] weak wp_core_suspends [OF s] wp_settle [OF s] wp_claim [OF s] pending
        service wp_tick [OF env s] wp_driveSyncLift_turn [OF env s] fail cancel wp_taskReturn [OF env s] wp_taskCancel [OF env s]
        wp_backpressure [OF s] wp_context [OF s] wp_threadIndex [OF s] wp_threadNewIndirect [OF s] wp_threadResumeLater [OF s] inert)
qed

lemma task_step_kept:
  assumes "calls_inert env" "tasks_ok s" "task_step env s u" shows "tasks_ok u"
proof -
  obtain a r where a: "can_turn env s a" "a s = (r, u)" by (rule task_stepE [OF assms(3)])
  from wp_turn [OF assms(1,2) a(1)] a(2) show ?thesis by (cases r) (auto simp: wp_def)
qed

section \<open>The start\<close>

definition start_store :: "cst list \<Rightarrow> task_store" where
  "start_store insts = world.extend (start_world insts) \<lparr>s_tasks = [], s_threads = [], s_comps = map (\<lambda>_. newComponentInstance) insts,
     s_waiting = [], s_stack = [], s_claims = [], s_pending = [], s_awaiting = [], s_settled = [], s_service = False\<rparr>"

definition runs :: "tenv \<Rightarrow> cst list \<Rightarrow> task_store \<Rightarrow> bool" where
  "runs env insts s \<longleftrightarrow> (task_step env)\<^sup>*\<^sup>* (start_store insts) s"

lemma start_ok: "tasks_ok (start_store insts)"
  unfolding tasks_ok_def
proof (rule tinvI)
  show "comp_good {} 0 (start_store insts) k" if "k < length (s_comps (start_store insts))" for k
    using that by (simp add: ht.empty comp_good_def gated_def start_store_def world.defs newComponentInstance_def)
qed (simp_all add: start_store_def world.defs lists_ok_def)

lemma runs_ok:
  assumes "calls_inert env" "runs env insts s" shows "tasks_ok s"
  using assms(2) unfolding runs_def
  by (induction rule: rtranclp_induct) (use start_ok task_step_kept [OF assms(1)] in blast)+

lemma runs_step:
  assumes "runs env insts s" "can_turn env s a" "a s = (r, u)" shows "runs env insts u"
  using assms task_step.intros [OF assms(2,3)] unfolding runs_def by (rule_tac rtranclp.rtrancl_into_rtrancl)

end
