(* ===== verification/Task_Life.thy ===== *)
theory Task_Life
  imports Task_Reach
begin

text \<open>
  The contract of a task's life (\<open>TaskState\<close> of \<open>runtime/src/task/mod.ts\<close>) as an abstract
  state machine, and the proof that the store refines it: whatever runs, in whatever order and
  with whatever failures, each task only makes moves of the machine.
\<close>

section \<open>The abstract machine\<close>

inductive life_step :: "task_state \<Rightarrow> task_state \<Rightarrow> bool" where
  start: "life_step T_initial T_started"
| request_early: "life_step T_initial T_pending_cancel"
| request: "life_step T_started T_pending_cancel"
| deliver: "life_step T_pending_cancel T_cancel_delivered"
| cancel: "life_step T_cancel_delivered T_resolved"
| return: "st \<noteq> T_resolved \<Longrightarrow> life_step st T_resolved"

inductive_simps life_step_simps:
  "life_step T_resolved st" "life_step T_initial st" "life_step st T_initial" "life_step st T_started"

text \<open>How far a task has come.\<close>

fun life_rank :: "task_state \<Rightarrow> nat" where
  "life_rank T_initial = 0"
| "life_rank T_started = 1"
| "life_rank T_pending_cancel = 2"
| "life_rank T_cancel_delivered = 3"
| "life_rank T_resolved = 4"

lemma life_step_rank: "life_step a b \<Longrightarrow> life_rank a < life_rank b"
  by (induction rule: life_step.induct) (simp_all, case_tac st, simp_all)

lemma life_steps_rank: "life_step\<^sup>*\<^sup>* a b \<Longrightarrow> life_rank a \<le> life_rank b \<and> (a = b \<or> life_rank a < life_rank b)"
  by (induction rule: rtranclp_induct) (auto dest: life_step_rank)

lemma life_resolved: "life_step\<^sup>*\<^sup>* T_resolved b \<Longrightarrow> b = T_resolved"
  by (erule converse_rtranclpE) (auto simp: life_step_simps)

section \<open>The store refines it\<close>

definition lives_on :: "task_store \<Rightarrow> task_store \<Rightarrow> bool" where
  "lives_on s u \<longleftrightarrow> length (s_tasks s) \<le> length (s_tasks u) \<and>
     (\<forall>j < length (s_tasks s). life_step\<^sup>*\<^sup>* (tk_state (s_tasks s ! j)) (tk_state (s_tasks u ! j)))"

lemma lives_on_refl [simp]: "lives_on s s"
  by (simp add: lives_on_def)

lemma lives_on_trans: "lives_on s u \<Longrightarrow> lives_on u v \<Longrightarrow> lives_on s v"
  by (auto simp: lives_on_def intro: rtranclp_trans)

lemma lives_on_tasks: "s_tasks u = s_tasks v \<Longrightarrow> lives_on s u = lives_on s v"
  by (simp add: lives_on_def)

text \<open>An operation refines the machine if it keeps every task on its course.\<close>

definition refines :: "'a tm \<Rightarrow> bool" where
  "refines a \<longleftrightarrow> (\<forall>s. preserves (lives_on s) a)"

lemma refinesI: "(\<And>s. preserves (lives_on s) a) \<Longrightarrow> refines a" by (simp add: refines_def)

lemma refinesD: "refines a \<Longrightarrow> a s = (r, u) \<Longrightarrow> lives_on s u"
  using preservesD [of "lives_on s" a s r u] by (simp add: refines_def)

lemma refines_keep: "refines a \<Longrightarrow> preserves (lives_on s) a" by (simp add: refines_def)

lemma life_local:
  assumes "\<And>u r v. a u = (r, v) \<Longrightarrow> lives_on u v" shows "refines a"
  using assms by (auto simp: refines_def preserves_def intro: lives_on_trans) (metis lives_on_trans prod.collapse)

lemma refines_inert: "(\<And>x. preserves (more_is x) a) \<Longrightarrow> refines a"
proof (rule life_local)
  fix u v r assume i: "\<And>x. preserves (more_is x) a" and run: "a u = (r, v)"
  have "same_tasks u v"
    using preservesD [OF i [of "world.more u"] _ run] by (simp add: more_is_def same_tasks_def)
  then show "lives_on u v" using lives_on_tasks [of v u u] by (simp add: same_tasksD)
qed

lemma life_modify [preserving]: "(\<And>s. s_tasks (f s) = s_tasks s) \<Longrightarrow> preserves (lives_on u) (modify f)"
  by (simp add: preserves_def lives_on_def)

lemma life_threads [preserving]:
  "preserves (lives_on u) (task_at j)" "preserves (lives_on u) (thread_at t)" "preserves (lives_on u) (comp_at k)"
  "preserves (lives_on u) (upd_thread t f)" "preserves (lives_on u) (upd_comp k g)" "preserves (lives_on u) (threads_of k a)"
  by (auto simp: task_at_def thread_at_def comp_at_def upd_thread_def upd_comp_def threads_of_def preserves_def zoom_run lives_on_def)

text \<open>A task replaced by one that the machine leads to.\<close>

lemma life_put:
  assumes "life_step\<^sup>*\<^sup>* (tk_state (s_tasks s ! j)) (tk_state tk)" "s_tasks u = (s_tasks s)[j := tk]"
  shows "lives_on s u"
proof -
  have "life_step\<^sup>*\<^sup>* (tk_state (s_tasks s ! i)) (tk_state ((s_tasks s)[j := tk] ! i))" if "i < length (s_tasks s)" for i
    using assms(1) that by (cases "i = j") simp_all
  then show ?thesis by (simp add: lives_on_def assms(2))
qed

lemma life_task:
  assumes "\<And>tk. life_step\<^sup>*\<^sup>* (tk_state tk) (tk_state (f tk))"
  shows "refines (upd_task j f)"
proof (rule life_local)
  fix u r v assume "upd_task j f u = (r, v)"
  then have "s_tasks v = (s_tasks u)[j := f (s_tasks u ! j)]" by (auto simp: upd_task_def)
  then show "lives_on u v" by (rule life_put [OF assms])
qed

lemma life_books [preserving]:
  "preserves (lives_on u) (upd_task j (\<lambda>tk. tk\<lparr>tk_threads := f tk\<rparr>))" "preserves (lives_on u) (upd_task j (\<lambda>tk. tk\<lparr>tk_implicit := g tk\<rparr>))"
  by (rule refines_keep, rule life_task, simp)+

lemma life_new [preserving]: "preserves (lives_on u) (newTask tk)"
  by (rule refines_keep, rule life_local) (auto simp: newTask_def bnd_run seqm_run lives_on_def nth_append)

section \<open>The five moves\<close>

text \<open>Setting the state of a task, from one that the machine leaves for the new one.\<close>

lemma life_set:
  assumes "life_step (tk_state (s_tasks s ! j)) st"
  shows "lives_on s (new_task j ((s_tasks s ! j)\<lparr>tk_state := st\<rparr>) s)"
  by (rule life_put [where j = j]) (use assms in \<open>auto simp: new_task_def\<close>)

lemma life_then:
  assumes "lives_on s u" "refines a" "a u = (r, v)" shows "lives_on s v"
  using assms lives_on_trans refinesD by blast

lemma upd_task_run: "upd_task j f s = (Inr (), new_task j (f (s_tasks s ! j)) s)"
  by (simp add: upd_task_def new_task_def)

lemma life_deliver [preserving]: "preserves (lives_on u) (deliverPendingCancel j)"
  by (rule refines_keep, rule life_local)
    (auto simp: deliver_run delivered_def hasPendingCancel_def intro!: life_set life_step.intros)

lemma life_calls:
  assumes "calls_inert env"
  shows "refines (tv_onStart env j)" "refines (tv_onResolve env j r)" "refines (notifyInstancePoisoned env k)"
  using assms by (auto simp: calls_inert_def intro!: refines_inert inert_poisoned)

lemma life_start:
  assumes "calls_inert env" shows "refines (task_start env j)"
proof (rule life_local)
  fix u r v assume "task_start env j u = (r, v)"
  then consider "lives_on u v" | "tk_state (s_tasks u ! j) = T_initial"
      "tv_onStart env j (new_task j ((s_tasks u ! j)\<lparr>tk_state := T_started\<rparr>) u) = (r, v)"
    by (auto simp: task_start_def bnd_run seqm_run assertm_run task_at_def upd_task_run split: if_splits)
  then show "lives_on u v"
  proof cases
    case 2
    then show ?thesis by (intro life_then [OF life_set life_calls(1) [OF assms] 2(2)]) (simp add: life_step.start)
  qed
qed

lemma life_resolves:
  assumes env: "calls_inert env" shows "refines (task_return env j r)" "refines (task_cancel env j)"
proof -
  have still: "lives_on u v" if "same_tasks u v" for u v
    using lives_on_tasks [of v u u] that by (simp add: same_tasksD)
  have over: "lives_on u (new_task j ((s_tasks x ! j)\<lparr>tk_state := T_resolved\<rparr>) x)"
    if "tk_state (s_tasks u ! j) \<noteq> T_resolved" "same_tasks u x" for u x
    by (rule life_put [where j = j and tk = "(s_tasks x ! j)\<lparr>tk_state := T_resolved\<rparr>"])
      (use that in \<open>auto simp: same_tasksD new_task_def intro: life_step.return\<close>)
  show "refines (task_return env j r)" "refines (task_cancel env j)"
  proof (rule_tac [!] life_local)
    fix u q v
    show "lives_on u v" if "task_return env j r u = (q, v)"
      using that wp_resolves(1) [OF env, of j r u] still over by (cases q) (auto simp: wp_def)
    show "lives_on u v" if "task_cancel env j u = (q, v)"
      using that wp_resolves(2) [OF env, of j u] still over by (cases q) (auto simp: wp_def)
  qed
qed

section \<open>Everything else follows\<close>

lemma life_inert [preserving]:
  "preserves (lives_on u) (at_inst k a)" "preserves (lives_on u) (at_cst k b)" "preserves (lives_on u) (handle_get k i)"
  "preserves (lives_on u) (wait_enter q)" "preserves (lives_on u) (wset_getPendingEvent run_event q)"
  "preserves (lives_on u) (chooseCandidate cs)" "preserves (lives_on u) (mayLeave k)" "preserves (lives_on u) (set_may_leave k c)"
  "preserves (lives_on u) (declared_guard d what)" "preserves (lives_on u) (leave_guard k what)"
  by (rule refines_keep, rule refines_inert, fact preserving inert_may_leave inert_guards)+

lemma life_books_ops [preserving]:
  "preserves (lives_on u) (registerThread j t)" "preserves (lives_on u) (unregisterThread j t)" "preserves (lives_on u) (abortThread j t)"
  "preserves (lives_on u) (newThread j x cl)" "preserves (lives_on u) requestService" "preserves (lives_on u) (store_startWaiting t)"
  "preserves (lives_on u) (store_stopWaiting t)" "preserves (lives_on u) (pushCurrentThread t)" "preserves (lives_on u) (popCurrentThread t)"
  "preserves (lives_on u) (claimActivationAmbient t)" "preserves (lives_on u) (releaseActivationAmbient t)"
  "preserves (lives_on u) (addPendingResumption t)" "preserves (lives_on u) (removePendingResumption t)"
  "preserves (lives_on u) (retake_slot tk)" "preserves (lives_on u) (leave_gate k)" "preserves (lives_on u) (finish_thread t p)"
  "preserves (lives_on u) currentThread"
  by (auto simp del: run_rules simp: registerThread_def unregisterThread_def abortThread_def newThread_def requestService_def
      store_startWaiting_def store_stopWaiting_def pushCurrentThread_def popCurrentThread_def claimActivationAmbient_def
      releaseActivationAmbient_def addPendingResumption_def removePendingResumption_def retake_slot_def leave_gate_def
      finish_thread_def currentThread_def intro!: preserving split: option.split list.split)

lemma life_gate [preserving]:
  "preserves (lives_on u) (admit j t)" "preserves (lives_on u) (enterImplicitThread j t)" "preserves (lives_on u) (exitImplicitThread j t)"
  "preserves (lives_on u) (startWaiting t f)" "preserves (lives_on u) (leaveWaiting t)" "preserves (lives_on u) (failed_body t)"
  "preserves (lives_on u) (releasePendingOf t)"
  by (auto simp del: run_rules simp: admit_def enterImplicitThread_def exitImplicitThread_def startWaiting_def leaveWaiting_def
      failed_body_def releasePendingOf_def intro!: preserving split: option.split)

lemma life_callbacks [preserving]:
  "preserves (lives_on u) (callback_loop j t packed)" "preserves (lives_on u) (yield_resume j)" "preserves (lives_on u) (wait_resume j q)"
  "preserves (lives_on u) (stopWaiting t)" "preserves (lives_on u) (resumeLater t)" "preserves (lives_on u) (abandonWaiting t)"
  "preserves (lives_on u) (core_suspends t)" "preserves (lives_on u) (settle t v)"
  "preserves (lives_on u) (post_return_done j t)" "preserves (lives_on u) (explicit_done j t)"
  by (auto simp del: run_rules simp: callback_loop_def yield_resume_def wait_resume_def waitForCallbackEvent_resume_def stopWaiting_def
      resumeLater_def abandonWaiting_def core_suspends_def settle_def post_return_done_def explicit_done_def Let_def wait_leave_def lives_on_def
      intro!: preserving split: option.split pc.split hentry.split)

lemma life_lift [preserving]: "preserves (lives_on u) (lower_args env j tk vs)" "preserves (lives_on u) (sync_results env j tk vs)"
    "preserves (lives_on u) (lift_results env j tk n vs)"
  by (rule refines_keep, rule refines_inert, fact inert_lower inert_results)+
    (auto simp del: run_rules simp: lift_results_def intro!: preserving)

lemma life_env:
  assumes env: "calls_inert env"
  shows "preserves (lives_on u) (task_start env j)" "preserves (lives_on u) (task_return env j r)" "preserves (lives_on u) (task_cancel env j)"
    "preserves (lives_on u) (notifyInstancePoisoned env k)"
  by (rule refines_keep, rule life_start life_resolves life_calls, rule env)+

lemma life_body:
  assumes env: "calls_inert env" shows "preserves (lives_on u) (body_next env t th i)"
proof -
  note E = life_env [OF env]
  have call: "preserves (lives_on u) (call_core env j)" for j
    by (auto simp del: run_rules simp: call_core_def stackful_check_def intro!: preserving E)
  have "preserves (lives_on u) (lift_start env j t)" "preserves (lives_on u) (lift_admitted env j t)" "preserves (lives_on u) (core_done env j t vs)" for j vs
    by (auto simp del: run_rules simp: lift_start_def lift_admitted_def enterImplicitThread_resume_def core_done_def intro!: preserving E call)
  note B = this
  show ?thesis
    by (cases "(env, t, th, i)" rule: body_next.cases)
      (auto simp del: run_rules simp: Let_def intro!: preserving B split: pc.split)
qed

lemma life_runs:
  assumes env: "calls_inert env"
  shows "preserves (lives_on u) (run_body env t i)" "preserves (lives_on u) (thread_resume env t)"
    "preserves (lives_on u) (resumeStartupCancellation env t)" "preserves (lives_on u) (resumeWith env t v)"
    "preserves (lives_on u) (resumeInternal env t i)"
proof -
  have run: "preserves (lives_on u) (run_body env t i)" for i
    by (auto simp del: run_rules simp: run_body_def intro!: preserving life_body [OF env] split: seg.split)
  have resume: "preserves (lives_on u) (resumeInternal env t i)" for i
    by (auto simp del: run_rules simp: resumeInternal_def intro!: preserving run)
  show "preserves (lives_on u) (run_body env t i)" "preserves (lives_on u) (resumeInternal env t i)" by (rule run resume)+
  show "preserves (lives_on u) (thread_resume env t)" "preserves (lives_on u) (resumeStartupCancellation env t)"
    "preserves (lives_on u) (resumeWith env t v)"
    by (auto simp del: run_rules simp: thread_resume_def resumeStartupCancellation_def resumeWith_def poisoning_def
        intro!: preserving resume life_env [OF env])
qed

lemma life_cancellation:
  assumes env: "calls_inert env" shows "refines (requestCancellation env j)"
proof (rule life_local)
  fix s r v assume run: "requestCancellation env j s = (r, v)"
  let ?s = "new_task j ((s_tasks s ! j)\<lparr>tk_state := T_pending_cancel\<rparr>) s"
  have set: "lives_on s ?s" if "tk_state (s_tasks s ! j) = T_initial \<or> tk_state (s_tasks s ! j) = T_started"
    using that by (intro life_set) (auto intro: life_step.intros)
  have "refines (case tk_implicit (s_tasks s ! j) of None \<Rightarrow> throw (TypeError ''no implicit thread'') | Some t \<Rightarrow> resumeStartupCancellation env t)"
    by (auto simp del: run_rules simp: refines_def intro!: preserving life_runs [OF env] split: option.split)
  from refinesD [OF this] set run show "lives_on s v"
    by (auto simp: requestCancellation_def bnd_run seqm_run assertm_run task_at_def upd_task_run split: if_splits
        intro: lives_on_trans)
qed

lemma life_queue:
  assumes env: "calls_inert env" shows "preserves (lives_on u) (service_queue env q)"
  by (induction q) (auto simp del: run_rules intro!: preserving life_runs [OF env])

lemma life_poisoning:
  assumes "calls_inert env" "preserves (lives_on u) a" shows "preserves (lives_on u) (poisoning env k a)"
  using assms by (auto simp del: run_rules simp: poisoning_def intro!: preserving life_env [OF assms(1)])

lemma life_turn:
  assumes env: "calls_inert env" and a: "can_turn env s a" shows "refines a"
proof -
  note R = life_runs [OF env] life_env [OF env] life_poisoning [OF env]
  have void: "refines b \<Longrightarrow> refines (void b)" for b :: "'b tm"
    by (auto simp del: run_rules simp: refines_def void_def intro!: preserving)
  have site: "refines (return_from env rts opts vs j)" for rts opts vs j
    by (auto simp del: run_rules simp: refines_def return_from_def intro!: preserving R)
  have current: "preserves (lives_on u) (currentThreadExactlyForInstance k)" "preserves (lives_on u) (currentThreadForInstance d)"
    "preserves (lives_on u) currentTask" for u k d
    by (auto simp del: run_rules simp: currentThreadExactlyForInstance_def currentThreadForInstance_def currentTask_def
        intro!: preserving split: option.split)
  have target: "preserves (lives_on u) (requireTarget k i)" for u k i
    by (auto simp del: run_rules simp: requireTarget_def intro!: preserving current)
  have ops: "refines (call_lift env caller tk)" "refines (core_returns env t v)" "refines (core_suspends t)" "refines (settle t v)"
    "refines (claimActivationAmbient t)" "refines (addPendingResumption t)" "refines (serviceSettledStep env)" "refines (tick env)"
    "refines (tickForInstance env k)" "refines (driveSyncLift_turn env j)" "refines (failCall_abandon j t)"
    for caller tk t v k j
    by (auto simp del: run_rules simp: refines_def call_lift_def core_returns_def serviceSettledStep_def tick_def tickForInstance_def
        driveSyncLift_turn_def failCall_abandon_def intro!: preserving R life_queue [OF env])
  have builtins: "refines (taskReturn env d rts opts vs)" "refines (taskCancel env d)" "refines (backpressureInc k)" "refines (backpressureDec k)"
    "refines (canonContextGet i d)" "refines (canonContextSet i x d)" "refines (threadIndex k)" "refines (threadNewIndirect k tbl i c)"
    "refines (threadResumeLater k i)" for d rts opts vs k i x tbl c
    by (auto simp del: run_rules simp: refines_def taskReturn_def taskCancel_def backpressureInc_def backpressureDec_def canonContextGet_def
        canonContextSet_def threadIndex_def threadNewIndirect_def threadResumeLater_def
        intro!: preserving R current target site [unfolded refines_def, rule_format] split: option.split)
  show ?thesis
    using a
    by (cases rule: can_turn.cases) (simp_all add: void ops builtins life_cancellation [OF env] refines_inert)
qed

end
