(* ===== verification/Task_Props.thy ===== *)
theory Task_Props
  imports Task_Life
begin

text \<open>
  What the invariant and the refinement say of the runtime: the properties of tasks, threads
  and the scheduler, with a store in which two calls meet at the gate of one instance.
\<close>

section \<open>A store in which a call waits for another\<close>

definition sample_tenv :: tenv where
  "sample_tenv = \<lparr>tv_env = quiet_env, tv_mode = Plain, tv_onStart = (\<lambda>_. ret []), tv_onResolve = (\<lambda>_ _. ret ())\<rparr>"

lemma sample_inert: "calls_inert sample_tenv"
  by (simp add: calls_inert_def sample_tenv_def env_inert_def quiet_env_def preserves_basic)

text \<open>Synchronously lifted calls of an asynchronous function, through an adapter.\<close>

definition sample_task :: task where
  "sample_task = \<lparr>tk_inst = 0, tk_ft_async = True, tk_params = [], tk_results = [], tk_async = False, tk_callback = False,
     tk_post_return = False, tk_core_results = [], tk_opts = 0, tk_encoding = Utf8, tk_memory = None, tk_fact = True,
     tk_fact_results = False, tk_state = T_initial, tk_implicit = None, tk_threads = []\<rparr>"

definition sample_thread :: "nat \<Rightarrow> thread" where
  "sample_thread j = \<lparr>th_task = j, th_explicit = False, th_state = Th_running, th_ready = None, th_index = Some 1, th_storage = [0, 0],
     th_awaiting = False, th_pc = InCore [], th_closure = []\<rparr>"

text \<open>The first call is in its core function, \<dots>\<close>

definition sample_called :: task_store where
  "sample_called = (start_store [sample_inst])
     \<lparr>s_tasks := [sample_task\<lparr>tk_state := T_started, tk_implicit := Some 0, tk_threads := [0]\<rparr>],
      s_threads := [sample_thread 0],
      s_comps := [newComponentInstance\<lparr>ci_exclusive := Some 0, ci_threads := \<lparr>t_array = [None, Some 0], t_free = [], t_tenure = [0, 1]\<rparr>\<rparr>],
      s_stack := [0]\<rparr>"

text \<open>\<dots> the second waits at the gate, \<dots>\<close>

definition sample_gated :: task_store where
  "sample_gated = sample_called
     \<lparr>s_tasks := s_tasks sample_called @ [sample_task\<lparr>tk_implicit := Some 1\<rparr>],
      s_threads := s_threads sample_called @ [(sample_thread 1)\<lparr>th_state := Th_waiting, th_ready := Some (Unblocked 1), th_index := None,
        th_pc := Entering\<rparr>],
      s_comps := [(s_comps sample_called ! 0)\<lparr>ci_entering := 1\<rparr>],
      s_waiting := [1], s_service := True\<rparr>"

text \<open>\<dots> and the first returns.\<close>

definition sample_returned :: task_store where
  "sample_returned = sample_gated
     \<lparr>s_tasks := (s_tasks sample_gated)[0 := sample_task\<lparr>tk_state := T_resolved, tk_implicit := Some 0\<rparr>],
      s_threads := (s_threads sample_gated)[0 := (sample_thread 0)\<lparr>th_state := Th_done, th_index := None, th_pc := Finished\<rparr>],
      s_comps := [newComponentInstance\<lparr>ci_entering := 1, ci_threads := \<lparr>t_array = [None, None], t_free = [1], t_tenure = [0, 1]\<rparr>\<rparr>],
      s_stack := []\<rparr>"

lemma on_error_run: "on_error a h s = (case a s of (Inl e, u) \<Rightarrow> (Inl e, snd (h e u)) | (Inr x, u) \<Rightarrow> (Inr x, u))"
  by (simp add: on_error_def)

lemmas state_runs = task_at_def thread_at_def comp_at_def upd_task_def upd_thread_def upd_comp_def threads_of_def zoom_run on_error_run

lemmas start_simps = start_store_def start_world_def world.defs

lemma sample_call: "call_lift sample_tenv None sample_task (start_store [sample_inst]) = (Inr 0, sample_called)"
  by (simp add: call_lift_def entryRefusal_def isInstancePoisoned_def newTask_def newThread_def poisoning_def thread_resume_def resumeInternal_def
      run_body_def lift_start_def enterImplicitThread_def admit_def registerThread_def table_add_def call_core_def stackful_check_def task_start_def
      lower_args_def pushCurrentThread_def monad_simps state_runs start_simps sample_called_def sample_task_def sample_thread_def
      sample_tenv_def newComponentInstance_def hasBackpressure_def needsExclusive_def empty_table_def MAX_LENGTH_def)

lemma sample_gate: "call_lift sample_tenv None sample_task sample_called = (Inr 1, sample_gated)"
  by (simp add: call_lift_def entryRefusal_def isInstancePoisoned_def newTask_def newThread_def poisoning_def thread_resume_def resumeInternal_def
      run_body_def lift_start_def enterImplicitThread_def pushCurrentThread_def popCurrentThread_def startWaiting_def store_startWaiting_def
      requestService_def thread_ready_def monad_simps state_runs start_simps sample_called_def sample_gated_def sample_task_def sample_thread_def
      sample_tenv_def newComponentInstance_def hasBackpressure_def needsExclusive_def)

lemma sample_return: "core_returns sample_tenv 0 (Inr []) sample_gated = (Inr (), sample_returned)"
  by (simp add: core_returns_def outcome_input_def poisoning_def run_body_def core_done_def sync_results_def task_return_def numBorrows_def
      exitImplicitThread_def unregisterThread_def table_remove_def table_get_def popCurrentThread_def finish_thread_def requestService_def
      monad_simps state_runs start_simps sample_called_def sample_gated_def sample_returned_def sample_task_def sample_thread_def
      sample_tenv_def sample_inst_def init_state_def newComponentInstance_def needsExclusive_def Let_def array_set_def)

lemma sample_runs:
  "runs sample_tenv [sample_inst] sample_called" "runs sample_tenv [sample_inst] sample_gated" "runs sample_tenv [sample_inst] sample_returned"
proof -
  have start: "runs sample_tenv [sample_inst] (start_store [sample_inst])" by (simp add: runs_def)
  have turn: "can_turn sample_tenv s (void (call_lift sample_tenv None sample_task))" if "length (s_comps s) = 1" for s
    by (rule can_turn.intros) (simp add: that sample_task_def)
  have "void (call_lift sample_tenv None sample_task) (start_store [sample_inst]) = (Inr (), sample_called)"
    "void (call_lift sample_tenv None sample_task) sample_called = (Inr (), sample_gated)"
    by (simp_all add: void_run sample_call sample_gate)
  note steps = this
  show c: "runs sample_tenv [sample_inst] sample_called"
    by (rule runs_step [OF start turn steps(1)]) (simp add: start_simps)
  show g: "runs sample_tenv [sample_inst] sample_gated"
    by (rule runs_step [OF c turn steps(2)]) (simp add: sample_called_def)
  show "runs sample_tenv [sample_inst] sample_returned"
    by (rule runs_step [OF g can_turn.intros(2) sample_return]) (simp_all add: sample_gated_def sample_called_def sample_thread_def)
qed

lemmas sample_defs = sample_returned_def sample_gated_def sample_called_def sample_task_def sample_thread_def start_simps newComponentInstance_def
  sample_inst_def

section \<open>Exclusion\<close>

text \<open>C2. Mutual exclusion: of the tasks of an asynchronous function that need their instance
  exclusively (synchronous lifts and callback lifts), at most one at a time is in WebAssembly,
  running or suspended there.
\<close>

theorem one_exclusive_thread:
  assumes "calls_inert env" "runs env insts s"
    and t: "t < length (s_threads s)" "in_wasm (th_pc (s_threads s ! t))" "\<not> th_explicit (s_threads s ! t)"
      "claims_slot (s_tasks s ! th_task (s_threads s ! t))"
    and u: "u < length (s_threads s)" "in_wasm (th_pc (s_threads s ! u))" "\<not> th_explicit (s_threads s ! u)"
      "claims_slot (s_tasks s ! th_task (s_threads s ! u))"
    and same: "thread_inst t s = thread_inst u s"
  shows "t = u"
proof -
  note I = runs_ok [OF assms(1,2)]
  show ?thesis using at_wasm(2) [OF I t(1,2)] at_wasm(2) [OF I u(1,2)] t u same by (simp add: holds_def slot_of_def)
qed

theorem one_exclusive_thread_witness:
  "in_wasm (th_pc (s_threads sample_gated ! 0)) \<and> claims_slot (s_tasks sample_gated ! th_task (s_threads sample_gated ! 0)) \<and> (0::nat) = 0"
  using one_exclusive_thread [OF sample_inert sample_runs(2), of 0 0]
  by (simp add: sample_defs claims_slot_def needsExclusive_def)

text \<open>C9. Whoever holds an instance's exclusive slot is the implicit thread of one of the
  instance's tasks that need it, and is in WebAssembly, unless it failed there: a callback that
  parks has let go of the slot.
\<close>

theorem slot_holder_runs:
  assumes "calls_inert env" "runs env insts s" "k < length (s_comps s)" "ci_exclusive (s_comps s ! k) = Some t"
  shows "t < length (s_threads s) \<and> thread_inst t s = k \<and> tk_implicit (s_tasks s ! th_task (s_threads s ! t)) = Some t \<and>
    claims_slot (s_tasks s ! th_task (s_threads s ! t)) \<and> (in_wasm (th_pc (s_threads s ! t)) \<or> th_pc (s_threads s ! t) = pc.Failed)"
proof -
  note I = runs_ok [OF assms(1,2)]
  note C = comp_goodD(6) [OF tasks_okD(5) [OF I assms(3)] assms(4)]
  have t: "t < length (s_threads s)" and p: "th_pc (thr s t) \<noteq> NotStarted" using C by auto
  have "tk_implicit (task_of s t) = Some t"
    using placedD(2) [OF tasks_okD(2) [OF I t]] C p by (simp add: in_task_def)
  then show ?thesis using C by simp
qed

theorem slot_holder_runs_witness:
  "ci_exclusive (s_comps sample_gated ! 0) = Some 0 \<and> tk_implicit (s_tasks sample_gated ! th_task (s_threads sample_gated ! 0)) = Some 0"
  using slot_holder_runs [OF sample_inert sample_runs(2), of 0 0] by (simp add: sample_defs)

section \<open>The books\<close>

text \<open>C10. The gate counter of an instance (\<open>numWaitingToEnter\<close>) is the number of its threads that
  are parked at the gate, so a later call queues behind them and none is counted twice or
  forgotten when it is admitted, cancelled or abandoned.
\<close>

theorem gate_count:
  assumes "calls_inert env" "runs env insts s" "k < length (s_comps s)"
  shows "ci_entering (s_comps s ! k) =
     int (card {t. t < length (s_threads s) \<and> th_pc (s_threads s ! t) = Entering \<and> thread_inst t s = k})"
  using comp_goodD(1) [OF tasks_okD(5) [OF runs_ok [OF assms(1,2)] assms(3)]] by (simp add: gated_def)

theorem gate_count_witness:
  "ci_entering (s_comps sample_gated ! 0) =
     int (card {t. t < length (s_threads sample_gated) \<and> th_pc (s_threads sample_gated ! t) = Entering \<and> thread_inst t sample_gated = 0})"
  using gate_count [OF sample_inert sample_runs(2), of 0] by (simp add: sample_gated_def)

text \<open>C12. The waiting list of the store has no duplicates and holds exactly the threads that wait;
  the table of an instance has exactly the threads that are registered there, each at its index.
\<close>

theorem lists_agree:
  assumes "calls_inert env" "runs env insts s" "k < length (s_comps s)"
  shows "distinct (s_waiting s) \<and> (\<forall>t. t \<in> set (s_waiting s) \<longleftrightarrow> t < length (s_threads s) \<and> th_state (s_threads s ! t) = Th_waiting) \<and>
    (\<forall>t i. table_entries (ci_threads (s_comps s ! k)) i = Some t \<longleftrightarrow>
       t < length (s_threads s) \<and> th_index (s_threads s ! t) = Some i \<and> thread_inst t s = k)"
proof -
  note I = runs_ok [OF assms(1,2)]
  show ?thesis
    using lists_okD(1,4,7) [OF tasks_okD(1) [OF I]] comp_goodD(5) [OF tasks_okD(5) [OF I assms(3)]] by blast
qed

theorem lists_agree_witness:
  "table_entries (ci_threads (s_comps sample_gated ! 0)) 1 = Some 0 \<and> (1 \<in> set (s_waiting sample_gated)) = True"
  using lists_agree [OF sample_inert sample_runs(2), of 0] by (simp add: sample_defs thread_inst_def)

text \<open>C11. A thread that finished leaves its task resolved, or to another thread of the task, or
  one of the task's threads has failed: no call ends quietly without a result.
\<close>

theorem finished_call_resolved:
  assumes "calls_inert env" "runs env insts s" "t < length (s_threads s)" "th_pc (s_threads s ! t) = pc.Finished"
  shows "tk_state (s_tasks s ! th_task (s_threads s ! t)) = T_resolved \<or> 0 < length (tk_threads (s_tasks s ! th_task (s_threads s ! t))) \<or>
     (\<exists>u < length (s_threads s). th_task (s_threads s ! u) = th_task (s_threads s ! t) \<and> th_pc (s_threads s ! u) = pc.Failed)"
  using tinvD(7) [OF runs_ok [OF assms(1,2), unfolded tasks_ok_def] assms(3) _ assms(4)] by (simp add: ended_ok_def)

theorem finished_call_resolved_witness:
  "th_pc (s_threads sample_returned ! 0) = pc.Finished \<and> tk_state (s_tasks sample_returned ! 0) = T_resolved"
  using finished_call_resolved [OF sample_inert sample_runs(3), of 0] by (simp add: sample_defs)

section \<open>The life of a task\<close>

text \<open>C1. The store refines the life cycle of tasks. Whatever step is made, and whether or not it
  fails, the state of each task afterwards is reached from its state before by moves of the
  abstract machine \<open>life_step\<close>, and no task disappears.\<close>

theorem tasks_refine_life:
  assumes "calls_inert env" "task_step env s u" "j < length (s_tasks s)"
  shows "j < length (s_tasks u) \<and> life_step\<^sup>*\<^sup>* (tk_state (s_tasks s ! j)) (tk_state (s_tasks u ! j))"
proof -
  obtain a r where "can_turn env s a" "a s = (r, u)" by (rule task_stepE [OF assms(2)])
  then have "lives_on s u" using refinesD [OF life_turn [OF assms(1)]] by blast
  then show ?thesis using assms(3) by (simp add: lives_on_def)
qed

theorem tasks_refine_life_witness:
  "life_step\<^sup>*\<^sup>* T_started (tk_state (s_tasks sample_returned ! 0)) \<and> tk_state (s_tasks sample_returned ! 0) = T_resolved"
proof -
  have "can_turn sample_tenv sample_gated (core_returns sample_tenv 0 (Inr []))"
    by (rule can_turn.intros) (simp_all add: sample_defs)
  from task_step.intros [OF this sample_return] have "task_step sample_tenv sample_gated sample_returned" .
  from tasks_refine_life [OF sample_inert this, of 0] show ?thesis by (simp add: sample_defs)
qed

text \<open>C13. A task is resolved once. Whatever happens after its resolution, the task stays resolved, a
  second \<open>return_\<close> traps and delivers nothing, and a \<open>cancel\<close> does too.\<close>

theorem resolved_once:
  assumes "calls_inert env" "(task_step env)\<^sup>*\<^sup>* s u" "j < length (s_tasks s)" "tk_state (s_tasks s ! j) = T_resolved"
  shows "tk_state (s_tasks u ! j) = T_resolved \<and> task_return env j r u = (Inl (Trap ''task.return on a resolved task''), u) \<and>
    task_cancel env j u = (Inl (Trap ''task.cancel without a delivered cancellation request''), u)"
proof -
  from assms(2) have "j < length (s_tasks u) \<and> tk_state (s_tasks u ! j) = T_resolved"
  proof (induction rule: rtranclp_induct)
    case (step v w)
    obtain a r where "can_turn env v a" "a v = (r, w)" by (rule task_stepE [OF step.hyps(2)])
    then have "lives_on v w" using refinesD [OF life_turn [OF assms(1)]] by blast
    then show ?case using step.IH life_resolved by (auto simp: lives_on_def)
  qed (use assms in simp)
  then show ?thesis by (simp add: task_return_def task_cancel_def task_at_def monad_simps)
qed

theorem resolved_once_witness:
  "task_return sample_tenv 0 [] sample_returned = (Inl (Trap ''task.return on a resolved task''), sample_returned)"
  using resolved_once [OF sample_inert rtranclp.rtrancl_refl, of 0 sample_returned "[]"] by (simp add: sample_defs)

section \<open>Progress at the gate\<close>

text \<open>What a thread at the gate that takes off comes to, unless its task was cancelled.\<close>

lemma admitted_calls:
  assumes "body_next env t (thr s t) Go s = (Inr stop, u)" "th_pc (thr s t) = Entering" "tk_state (task_of s t) = T_initial"
    "th_task (thr s t) < length (s_tasks s)"
  shows "\<exists>flat. stop = Calls (InCore flat)"
  using assms
  by (auto simp: Let_def lift_admitted_def enterImplicitThread_resume_def leave_gate_def deliver_run hasPendingCancel_def call_core_def
      bnd_run seqm_run task_at_def upd_comp_def split: sum.splits prod.splits if_splits)

lemma failed_body_pc:
  assumes "t < length (s_threads s)" shows "th_pc (thr (snd (failed_body t s)) t) = pc.Failed"
  using assms
  by (auto simp: failed_body_def finish_thread_def releaseActivationAmbient_def removePendingResumption_def requestService_def popCurrentThread_def
      state_runs monad_simps split: option.split)

definition let_in :: "nat \<Rightarrow> task_store \<Rightarrow> bool" where
  "let_in t u \<longleftrightarrow> in_wasm (th_pc (thr u t)) \<and> aboard t u \<and> holds t u \<and> t \<in> set (s_stack u)"

lemma wp_lets_in:
  assumes env: "calls_inert env" and b: "boards t s" and p: "th_pc (thr s t) = Entering" "tk_state (task_of s t) = T_initial"
  shows "wp (run_body env t Go) (\<lambda>_. let_in t) (\<lambda>u. th_pc (thr u t) = pc.Failed) s"
proof -
  have F: "flight t (outset t Entering s) s" using b p by (simp add: boards_def)
  have "th_task (thr s t) < length (s_tasks s)" by (rule tinv_comp(3) [OF flightD(1,2) [OF F]])
  note B = wp_body_next [OF env b, of Go, simplified] admitted_calls [OF _ p this]
  have "wp (body_next env t (thr s t) Go) (\<lambda>stop u. (\<exists>flat. stop = Calls (InCore flat)) \<and> stops_ok t stop u) (throws_ok t) s"
    using B(1,2) by (auto simp: wp_def split: prod.splits sum.splits)
  moreover have "wp (upd_thread t (\<lambda>th. th\<lparr>th_pc := InCore flat\<rparr>)) (\<lambda>_. let_in t) (\<lambda>u. th_pc (thr u t) = pc.Failed) u"
    if c: "calls_ok t (InCore flat) u" for flat u
  proof -
    have f: "flight t (\<lambda>_. 0) u" using c by (simp add: calls_ok_def)
    note F = flightD [OF f]
    have "t \<in> set (s_stack u)" using F(6) by (metis list.set_intros(1))
    then show ?thesis
      using F(2) c by (simp add: wps let_in_def calls_ok_def aboard_def holds_def slot_of_def thread_inst_def)
  qed
  moreover have "th_pc (thr (snd (failed_body t u)) t) = pc.Failed" if "throws_ok t u" for u
    using failed_body_pc flightD(2) that by (auto simp: throws_ok_def)
  ultimately show ?thesis
    unfolding run_body_def wp_bnd wp_state wp_on_fail
    by (elim wp_mono) (auto simp: wp_state)
qed

lemma tick_picks:
  assumes "w_seed s = None" "s_pending s = []" "s_settled s = []" "readyCandidates s = t # ts"
  shows "tick env s = seqm (poisoning env (thread_inst t s) (thread_resume env t)) (ret True) s"
  using assms by (simp add: tick_def chooseCandidate_def monad_simps)

lemma same_failed:
  assumes env: "calls_inert env" and a: "wp a Q (\<lambda>u. th_pc (thr u t) = pc.Failed) s"
  shows "wp (poisoning env k a) Q (\<lambda>u. th_pc (thr u t) = pc.Failed) s"
proof -
  have "th_pc (thr (snd (notifyInstancePoisoned env k u)) t) = pc.Failed" if "th_pc (thr u t) = pc.Failed" for u
  proof -
    have "wp (notifyInstancePoisoned env k) (\<lambda>_ v. same_tasks u v) (\<lambda>v. same_tasks u v) u"
      by (rule wp_inert [OF inert_poisoned [OF env]])
    then have "same_tasks u (snd (notifyInstancePoisoned env k u))" by (auto simp: wp_def split: prod.splits sum.splits)
    then show ?thesis using that by (simp add: same_tasksD)
  qed
  then show ?thesis using a by (auto simp: poisoning_def on_error_def wp_def split: prod.splits sum.splits)
qed

text \<open>C3. The gate opens, in turn. If the first of the ready threads of a quiet store stands at the
  gate and its task was not cancelled, the next tick lets it in: afterwards it is in its core
  function, on the stack, registered, with its task started, and holding the slot if its task
  needs it. Only a failure of the call itself can prevent that, and then the thread is marked
  as failed; the tick never reports that there is nothing to do.\<close>

theorem gate_opens_in_turn:
  assumes env: "calls_inert env" and run: "runs env insts s" and quiet: "w_seed s = None" "s_pending s = []" "s_settled s = []"
    and t: "readyCandidates s = t # ts" "th_pc (s_threads s ! t) = Entering" "tk_state (s_tasks s ! th_task (s_threads s ! t)) = T_initial"
  shows "case tick env s of (Inr b, u) \<Rightarrow> b = True \<and> let_in t u | (Inl e, u) \<Rightarrow> th_pc (s_threads u ! t) = pc.Failed"
proof -
  note I = runs_ok [OF env run]
  have c: "t \<in> set (readyCandidates s)" using t(1) by simp
  note N = candidate [OF I c]
  have ready: "thread_ready t s" using c by (simp add: readyCandidates_def)
  note W = waiting_facts [OF I N]
  let ?u = "put_thread t ((thr s t)\<lparr>th_ready := None, th_state := Th_suspended\<rparr>) s\<lparr>s_waiting := remove1 t (s_waiting s)\<rparr>"
  let ?v = "put_thread t ((thr ?u t)\<lparr>th_state := Th_running\<rparr>) ?u\<lparr>s_stack := t # s_stack ?u\<rparr>"
  have b: "boards t ?v"
    by (rule boards_resumed [OF I N(1)]) (use W N off_the_list(1) [OF W(2)] in simp_all)
  have "thr ?v t = under_way (thr s t)" using N(1) off_the_list(1) [OF W(2)] by simp
  then have v: "th_pc (thr ?v t) = Entering" "tk_state (task_of ?v t) = T_initial" using t by simp_all
  have "wp (run_body env t Go) (\<lambda>_. let_in t) (\<lambda>u. th_pc (thr u t) = pc.Failed) ?v" by (rule wp_lets_in [OF env b v])
  then have r: "wp (resumeInternal env t Go) (\<lambda>_. let_in t) (\<lambda>u. th_pc (thr u t) = pc.Failed) ?u"
    using N(1) by (simp add: resumeInternal_def pushCurrentThread_def wp_seqm wp_state wp_basic)
  have "wp (thread_resume env t) (\<lambda>_. let_in t) (\<lambda>u. th_pc (thr u t) = pc.Failed) s"
    using N(2) ready placedD(1) [OF tasks_okD(2) [OF I N(1)]] t(2) r
    by (simp add: thread_resume_def stopWaiting_def wp_bnd wp_seqm wp_basic wp_state wp_leaveWaiting [OF I N] at_place_def)
  from same_failed [OF env this]
  have "wp (seqm (poisoning env (thread_inst t s) (thread_resume env t)) (ret True)) (\<lambda>b u. b = True \<and> let_in t u)
      (\<lambda>u. th_pc (thr u t) = pc.Failed) s"
    unfolding wp_seqm by (rule wp_mono) (simp_all add: wps)
  then show ?thesis unfolding tick_picks [OF quiet t(1)] wp_def by (simp split: prod.splits sum.splits)
qed

theorem gate_opens_in_turn_witness:
  "readyCandidates sample_returned = [1] \<and>
   (case tick sample_tenv sample_returned of (Inr b, u) \<Rightarrow> b = True \<and> let_in 1 u | (Inl e, u) \<Rightarrow> th_pc (s_threads u ! 1) = pc.Failed)"
proof -
  have r: "readyCandidates sample_returned = [1]"
    by (simp add: readyCandidates_def thread_ready_def thread_inst_def isInstancePoisoned_def hasBackpressure_def sample_defs)
  show ?thesis
    using gate_opens_in_turn [OF sample_inert sample_runs(3) _ _ _ r] r by (simp add: sample_defs)
qed

section \<open>Callbacks\<close>

text \<open>The result of a callback packs a code and an index. It unpacks to \<open>(c, i)\<close> exactly when it
  is \<open>c + 16 * i\<close> with one of the three codes and an index of 28 bits; any other code traps.\<close>

theorem callback_result_packs:
  "unpackCallbackResult p = Inr (c, i) \<longleftrightarrow> p = int c + 16 * int i \<and> c \<in> {EXIT, YIELD, WAIT} \<and> i < 2 ^ 28"
proof -
  have "p = int c + 16 * int i \<and> c \<in> {EXIT, YIELD, WAIT} \<and> i < 2 ^ 28"
    if u: "unpackCallbackResult p = Inr (c, i)"
  proof -
    from u have b: "0 \<le> p" "p < 2 ^ 32" "c = nat p mod 16" "i = nat p div 16" "c \<le> 2"
      by (auto simp: unpackCallbackResult_def Let_def CALLBACK_CODE_MAX_def split: if_splits)
    have "c + 16 * i = nat p" using b(3,4) by simp
    moreover have "i < 2 ^ 28" using b(1,2,4) by (simp add: div_less_iff_less_mult nat_less_iff)
    ultimately show ?thesis using b(1,5) by (auto simp: EXIT_def YIELD_def WAIT_def)
  qed
  moreover have "unpackCallbackResult p = Inr (c, i)"
    if "p = int c + 16 * int i" "c \<in> {EXIT, YIELD, WAIT}" "i < 2 ^ 28"
  proof -
    have n: "nat p = c + 16 * i" using that(1) by (simp add: nat_add_distrib nat_mult_distrib)
    have c: "c < 16" "c \<le> CALLBACK_CODE_MAX" using that(2) by (auto simp: EXIT_def YIELD_def WAIT_def CALLBACK_CODE_MAX_def)
    have "(c + 16 * i) mod 16 = c" "(c + 16 * i) div 16 = i" using c by simp_all
    moreover have "0 \<le> p" "p < 2 ^ 32" using that(1,3) c(1) by simp_all
    ultimately show ?thesis using c by (simp add: unpackCallbackResult_def Let_def n)
  qed
  ultimately show ?thesis by blast
qed

text \<open>C14. A cancellation reaches a task that has yielded or waits. When the thread goes on with the
  request pending and the slot free, the callback is called with \<open>TASK_CANCELLED\<close>, whatever
  events wait, the slot is the task's again and the request is marked as delivered.\<close>

theorem cancellation_delivered:
  assumes "tk_state (s_tasks s ! j) = T_pending_cancel" "j < length (s_tasks s)"
    and k: "tk_inst (s_tasks s ! j) = k" "k < length (s_comps s)" "ci_exclusive (s_comps s ! k) = None"
    and p: "p = WaitYield \<or> p = WaitEvent q"
  shows "\<exists>u. (if p = WaitYield then yield_resume j s else wait_resume j q s) = (Inr (Calls (InCallback (TASK_CANCELLED, 0, 0))), u) \<and>
    tk_state (s_tasks u ! j) = T_cancel_delivered \<and> ci_exclusive (s_comps u ! k) = tk_implicit (s_tasks s ! j)"
proof -
  have leave: "s_tasks (wait_leave q v) = s_tasks v" "s_comps (wait_leave q v) = s_comps v" for v :: task_store
    by (simp_all add: wait_leave_def)
  have f: "fst (finallym (bnd (deliverPendingCancel j) (\<lambda>cancelled. if cancelled then ret (TASK_CANCELLED, 0, 0) else wset_getPendingEvent run_event q))
      (wait_leave q) s) = Inr (TASK_CANCELLED, 0, 0)"
    "snd (finallym (bnd (deliverPendingCancel j) (\<lambda>cancelled. if cancelled then ret (TASK_CANCELLED, 0, 0) else wset_getPendingEvent run_event q))
      (wait_leave q) s) = wait_leave q (delivered j s)"
    using assms(1) by (simp_all add: finallym_def deliver_run hasPendingCancel_def monad_simps)
  show ?thesis
    using assms(1-5) p f
    by (auto simp: yield_resume_def wait_resume_def waitForCallbackEvent_resume_def deliver_run hasPendingCancel_def delivered_def retake_slot_def
        monad_simps state_runs leave new_task_def case_prod_beta)
qed

theorem cancellation_delivered_witness:
  "\<exists>u. yield_resume 0 (sample_returned\<lparr>s_tasks := [sample_task\<lparr>tk_state := T_pending_cancel\<rparr>]\<rparr>) =
     (Inr (Calls (InCallback (TASK_CANCELLED, 0, 0))), u) \<and> tk_state (s_tasks u ! 0) = T_cancel_delivered"
  using cancellation_delivered [of "sample_returned\<lparr>s_tasks := [sample_task\<lparr>tk_state := T_pending_cancel\<rparr>]\<rparr>" 0 0 WaitYield 0]
  by (auto simp: sample_defs)

section \<open>Core values\<close>

definition canonical_lane :: "core_type \<Rightarrow> cval \<Rightarrow> bool" where
  "canonical_lane k v = (case k of
      I32 \<Rightarrow> (case v of VNum i \<Rightarrow> 0 \<le> i \<and> i < 2 ^ 32 | _ \<Rightarrow> False)
    | I64 \<Rightarrow> (case v of VBig i \<Rightarrow> 0 \<le> i \<and> i < 2 ^ 64 | _ \<Rightarrow> False)
    | _ \<Rightarrow> (case v of VNum i \<Rightarrow> True | VFlt f \<Rightarrow> True | _ \<Rightarrow> False))"

lemma normalize_lane_canonical: "normalize_lane k v = Inr w \<Longrightarrow> canonical_lane k w"
  by (cases k) (auto simp: canonical_lane_def split: option.splits cval.splits)

lemma normalize_lane_id: "canonical_lane k v \<Longrightarrow> normalize_lane k v = Inr v"
  by (cases k; cases v) (simp_all add: canonical_lane_def)

text \<open>What WebAssembly returns is brought into canonical form. Normalisation yields one value per
  lane, an integer lane's within the unsigned range of its width, and leaves such values alone.\<close>

theorem normalised_lanes:
  assumes "normalizeCoreValues vs lanes = Inr ws"
  shows "list_all2 canonical_lane lanes ws \<and> normalizeCoreValues ws lanes = Inr ws"
proof -
  from assms have n: "length vs = length lanes" and r: "rmap (\<lambda>(k, v). normalize_lane k v) (zip lanes vs) = Inr ws"
    by (auto simp: normalizeCoreValues_def split: if_splits)
  have len: "length ws = length lanes" using rmap_Inr_length [OF r] n by simp
  have c: "canonical_lane (lanes ! i) (ws ! i)" if "i < length lanes" for i
    using rmap_Inr_nth [OF r, of i] that n by (auto intro: normalize_lane_canonical)
  then have a: "list_all2 canonical_lane lanes ws" using len by (simp add: list_all2_conv_all_nth)
  have "rmap (\<lambda>(k, v). normalize_lane k v) (zip lanes ws) = Inr ws"
    using len c by (simp add: rmap_Inr_list_all2 list_all2_conv_all_nth normalize_lane_id)
  then show ?thesis using a len by (simp add: normalizeCoreValues_def)
qed

theorem normalised_lanes_witness:
  "normalizeCoreValues [VNum (- 1), VBig (- 1)] [I32, I64] = Inr [VNum 4294967295, VBig 18446744073709551615] \<and>
   normalizeCoreValues [VNum 4294967295, VBig 18446744073709551615] [I32, I64] = Inr [VNum 4294967295, VBig 18446744073709551615]"
proof -
  have "normalizeCoreValues [VNum (- 1), VBig (- 1)] [I32, I64] = Inr [VNum 4294967295, VBig 18446744073709551615]"
    by (simp add: normalizeCoreValues_def)
  with normalised_lanes [OF this] show ?thesis by simp
qed

end
