(* ===== verification/Transcode.thy ===== *)
theory Transcode
  imports Cabi_Strings
begin

text \<open>
  The string transcoders that FACT adapters call between two linear memories
  (\<open>runtime/src/intrinsics/transcode.ts\<close>). Every operation reads its source range before it
  writes, so an operation is a state transformer of the destination memory with the source
  memory as an argument, also when the two are one memory. Reads and writes outside a typed
  array do what JavaScript does: an element is \<open>undefined\<close> or the store is ignored, while a
  \<open>DataView\<close> access and \<open>set\<close> throw. Shifts and masks are written as division and remainder.
\<close>

section \<open>Typed arrays\<close>

type_synonym 'a dm = "(8 word list, 'a) m"

definition js_at :: "8 word list \<Rightarrow> nat \<Rightarrow> nat option" where
  "js_at bs i = (if i < length bs then Some (unat (bs ! i)) else None)"

text \<open>An element as a number that is stored in a byte: \<open>undefined\<close> becomes 0.\<close>

definition js_byte :: "8 word list \<Rightarrow> nat \<Rightarrow> nat" where
  "js_byte bs i = (case js_at bs i of None \<Rightarrow> 0 | Some b \<Rightarrow> b)"

definition put :: "nat \<Rightarrow> nat \<Rightarrow> unit dm" where
  "put p b = modify (\<lambda>d. d[p := of_nat b])"

definition dst_set :: "8 word list \<Rightarrow> nat \<Rightarrow> unit dm" where
  "dst_set bs p = bnd (gets length) (\<lambda>n.
     if p + length bs \<le> n then modify (\<lambda>d. overwrite d p bs) else throw (TypeError ''offset is out of bounds''))"

definition getUint16 :: "8 word list \<Rightarrow> nat \<Rightarrow> nat res" where
  "getUint16 bs p =
     (if p + 2 \<le> length bs then Inr (unat (bs ! p) + 256 * unat (bs ! (p + 1)))
      else Inl (TypeError ''offset is outside the bounds of the DataView''))"

definition setUint16 :: "nat \<Rightarrow> nat \<Rightarrow> unit dm" where
  "setUint16 p u = bnd (gets length) (\<lambda>n.
     if p + 2 \<le> n then modify (\<lambda>d. overwrite d p (le_bytes 2 (u mod 2 ^ 16)))
     else throw (TypeError ''offset is outside the bounds of the DataView''))"

section \<open>Encoding helpers\<close>

definition UTF16_TAG :: nat where "UTF16_TAG = 2 ^ 31"

definition decodeUtf8OrTrap :: "8 word list \<Rightarrow> 16 word list res" where
  "decodeUtf8OrTrap bs = (case utf8Decode bs of Some s \<Rightarrow> Inr s | None \<Rightarrow> Inl (Trap ''invalid utf8 encoding''))"

text \<open>One turn of \<open>decodeUtf16OrTrap\<close>: the code point at unit \<open>i\<close> and the units it takes.\<close>

definition utf16_at :: "8 word list \<Rightarrow> nat \<Rightarrow> nat \<Rightarrow> nat \<Rightarrow> (nat \<times> nat) res" where
  "utf16_at bs ptr units i =
     rbind (getUint16 bs (ptr + 2 * i)) (\<lambda>u.
     if u < 0xD800 \<or> u > 0xDFFF then Inr (u, 1)
     else if u \<ge> 0xDC00 \<or> i + 1 \<ge> units then Inl (Trap ''invalid utf16 encoding'')
     else rbind (getUint16 bs (ptr + 2 * (i + 1))) (\<lambda>lo.
       if lo < 0xDC00 \<or> lo > 0xDFFF then Inl (Trap ''invalid utf16 encoding'')
       else Inr (0x10000 + (u - 0xD800) * 1024 + (lo - 0xDC00), 2)))"

text \<open>The generator: what it yields and the error that ends it, if one does. A consumer that
  breaks off early does not see the error.\<close>

function decodeUtf16OrTrap :: "8 word list \<Rightarrow> nat \<Rightarrow> nat \<Rightarrow> nat \<Rightarrow> (nat \<times> nat) list \<times> err option" where
  "decodeUtf16OrTrap bs ptr units i =
     (if i < units then
        (case utf16_at bs ptr units i of
           Inl e \<Rightarrow> ([], Some e)
         | Inr (cp, k) \<Rightarrow> (case decodeUtf16OrTrap bs ptr units (i + k) of (ys, e) \<Rightarrow> ((cp, k) # ys, e)))
      else ([], None))"
  by pat_completeness auto

termination
  by (relation "measure (\<lambda>(bs, ptr, units, i). units - i)") (auto simp: utf16_at_def rbind_def split: sum.splits if_splits)

declare decodeUtf16OrTrap.simps [simp del]

definition generator_end :: "err option \<Rightarrow> 'a \<Rightarrow> 'a dm" where
  "generator_end e x = (case e of None \<Rightarrow> ret x | Some e \<Rightarrow> throw e)"

definition utf8Len :: "nat \<Rightarrow> nat" where
  "utf8Len cp = (if cp < 0x80 then 1 else if cp < 0x800 then 2 else if cp < 0x10000 then 3 else 4)"

fun put_each :: "nat \<Rightarrow> nat list \<Rightarrow> unit dm" where
  "put_each p [] = ret ()"
| "put_each p (b # bs) = seqm (put p b) (put_each (p + 1) bs)"

definition encodeUtf8At :: "nat \<Rightarrow> nat \<Rightarrow> nat dm" where
  "encodeUtf8At at cp =
     (if cp < 0x80 then seqm (put_each at [cp]) (ret 1)
      else if cp < 0x800 then seqm (put_each at [0xC0 + cp div 64, 0x80 + cp mod 64]) (ret 2)
      else if cp < 0x10000 then
        seqm (put_each at [0xE0 + cp div 4096, 0x80 + cp div 64 mod 64, 0x80 + cp mod 64]) (ret 3)
      else seqm (put_each at [0xF0 + cp div 262144, 0x80 + cp div 4096 mod 64, 0x80 + cp div 64 mod 64, 0x80 + cp mod 64]) (ret 4))"

definition encodeUtf16At :: "nat \<Rightarrow> nat \<Rightarrow> nat \<Rightarrow> nat dm" where
  "encodeUtf16At base at cp =
     (if cp < 0x10000 then seqm (setUint16 (base + 2 * at) cp) (ret 1)
      else
        let c = cp - 0x10000 in
        seqm (setUint16 (base + 2 * at) (0xD800 + c div 1024))
        (seqm (setUint16 (base + 2 * (at + 1)) (0xDC00 + c mod 1024))
        (ret 2)))"

text \<open>A missing next byte is -1 at the end of the range; past the end of the array it is
  \<open>undefined\<close>, which no comparison rejects.\<close>

function utf8Latin1UpTo :: "8 word list \<Rightarrow> nat \<Rightarrow> nat \<Rightarrow> nat \<Rightarrow> nat" where
  "utf8Latin1UpTo bs ptr len i =
     (if i < len then
        (case js_at bs (ptr + i) of
           None \<Rightarrow> i
         | Some b \<Rightarrow>
             if b < 0x80 then utf8Latin1UpTo bs ptr len (i + 1)
             else if b = 0xC2 \<or> b = 0xC3 then
               (if i + 1 < len \<and> (case js_at bs (ptr + i + 1) of None \<Rightarrow> True | Some c \<Rightarrow> 0x80 \<le> c \<and> c \<le> 0xBF)
                then utf8Latin1UpTo bs ptr len (i + 2) else i)
             else i)
      else i)"
  by pat_completeness auto

termination
  by (relation "measure (\<lambda>(bs, ptr, len, i). len - i)") auto

declare utf8Latin1UpTo.simps [simp del]

fun inflateLatin1Bytes :: "nat \<Rightarrow> nat \<Rightarrow> unit dm" where
  "inflateLatin1Bytes dstPtr 0 = ret ()"
| "inflateLatin1Bytes dstPtr (Suc i) =
     seqm (bnd (gets (\<lambda>d. js_byte d (dstPtr + i))) (put (dstPtr + 2 * i)))
     (seqm (put (dstPtr + 2 * i + 1) 0)
     (inflateLatin1Bytes dstPtr i))"

definition trapIfOverlap :: "bool \<Rightarrow> nat \<Rightarrow> nat \<Rightarrow> nat \<Rightarrow> nat \<Rightarrow> unit dm" where
  "trapIfOverlap same srcPtr srcLen dstPtr dstLen =
     trapIf (same \<and> srcPtr < dstPtr + dstLen \<and> dstPtr < srcPtr + srcLen) ''transcode src/dst regions overlap''"

section \<open>The operations\<close>

text \<open>\<open>srcLen\<close> counts the source's code units; \<open>subarray\<close> is the snapshot.\<close>

definition latin1_to_latin1 :: "8 word list \<Rightarrow> nat \<Rightarrow> nat \<Rightarrow> nat \<Rightarrow> unit dm" where
  "latin1_to_latin1 src srcPtr srcLen dstPtr = dst_set (subarray src srcPtr srcLen) dstPtr"

definition utf8_to_utf8 :: "8 word list \<Rightarrow> nat \<Rightarrow> nat \<Rightarrow> nat \<Rightarrow> unit dm" where
  "utf8_to_utf8 src srcPtr srcLen dstPtr =
     (let copy = subarray src srcPtr srcLen in
      bnd (of_res (decodeUtf8OrTrap copy)) (\<lambda>_. dst_set copy dstPtr))"

definition utf16_to_utf16 :: "8 word list \<Rightarrow> nat \<Rightarrow> nat \<Rightarrow> nat \<Rightarrow> unit dm" where
  "utf16_to_utf16 src srcPtr srcLen dstPtr =
     (let copy = subarray src srcPtr (2 * srcLen) in
      seqm (generator_end (snd (decodeUtf16OrTrap copy 0 srcLen 0)) ())
      (dst_set copy dstPtr))"

definition latin1_to_utf16 :: "8 word list \<Rightarrow> nat \<Rightarrow> nat \<Rightarrow> nat \<Rightarrow> unit dm" where
  "latin1_to_utf16 src srcPtr srcLen dstPtr =
     (let bs = subarray src srcPtr srcLen in
      iterm (\<lambda>i. seqm (put (dstPtr + 2 * i) (js_byte bs i)) (put (dstPtr + 2 * i + 1) 0)) [0..<srcLen])"

fun put_units :: "nat \<Rightarrow> 16 word list \<Rightarrow> unit dm" where
  "put_units p [] = ret ()"
| "put_units p (u # us) = seqm (setUint16 p (unat u)) (put_units (p + 2) us)"

definition utf8_to_utf16 :: "8 word list \<Rightarrow> nat \<Rightarrow> nat \<Rightarrow> nat \<Rightarrow> nat dm" where
  "utf8_to_utf16 src srcPtr srcLen dstPtr =
     bnd (of_res (decodeUtf8OrTrap (subarray src srcPtr srcLen))) (\<lambda>s.
     seqm (put_units dstPtr (take srcLen s))
     (ret (min (length s) srcLen)))"

definition utf16_to_compact_probably_utf16 :: "8 word list \<Rightarrow> nat \<Rightarrow> nat \<Rightarrow> nat \<Rightarrow> nat dm" where
  "utf16_to_compact_probably_utf16 src srcPtr srcLen dstPtr =
     (let bs = subarray src srcPtr (2 * srcLen); (yields, e) = decodeUtf16OrTrap bs 0 srcLen 0;
          allLatin1 = (\<forall>(cp, k)\<in>set yields. cp \<le> 0xFF)
      in
      seqm (generator_end e ())
      (seqm (dst_set bs dstPtr)
      (if \<not> allLatin1 then ret (or srcLen UTF16_TAG)
       else
         seqm (iterm (\<lambda>i. bnd (gets (\<lambda>d. js_byte d (dstPtr + 2 * i))) (put (dstPtr + i))) [0..<srcLen])
         (ret srcLen))))"

function utf8_latin1_loop :: "8 word list \<Rightarrow> nat \<Rightarrow> nat \<Rightarrow> nat \<Rightarrow> nat \<Rightarrow> nat dm" where
  "utf8_latin1_loop src dstPtr read written i =
     (if i < read then
        (let b = js_byte src i in
         if b < 0x80 then
           seqm (put (dstPtr + written) b) (utf8_latin1_loop src dstPtr read (written + 1) (i + 1))
         else
           seqm (put (dstPtr + written) (b mod 32 * 64 + js_byte src (i + 1) mod 64))
           (utf8_latin1_loop src dstPtr read (written + 1) (i + 2)))
      else ret written)"
  by pat_completeness auto

termination
  by (relation "measure (\<lambda>(src, dstPtr, read, written, i). read - i)") auto

declare utf8_latin1_loop.simps [simp del]

definition utf8_to_latin1 :: "8 word list \<Rightarrow> nat \<Rightarrow> nat \<Rightarrow> nat \<Rightarrow> (nat \<times> nat) dm" where
  "utf8_to_latin1 src srcPtr srcLen dstPtr =
     (let bs = subarray src srcPtr srcLen; read = utf8Latin1UpTo bs 0 srcLen 0 in
      bnd (utf8_latin1_loop bs dstPtr read 0 0) (\<lambda>written. ret (read, written)))"

text \<open>The Latin-1 prefix of a range of units, read to its end or to the first wide unit.\<close>

function latin1_prefix :: "8 word list \<Rightarrow> nat \<Rightarrow> nat \<Rightarrow> nat \<Rightarrow> nat list res" where
  "latin1_prefix src srcPtr srcLen i =
     (if i < srcLen then
        rbind (getUint16 src (srcPtr + 2 * i)) (\<lambda>u.
        if u > 0xFF then Inr [] else rbind (latin1_prefix src srcPtr srcLen (i + 1)) (\<lambda>us. Inr (u # us)))
      else Inr [])"
  by pat_completeness auto

termination
  by (relation "measure (\<lambda>(src, srcPtr, srcLen, i). srcLen - i)") auto

declare latin1_prefix.simps [simp del]

definition utf16_to_latin1 :: "bool \<Rightarrow> 8 word list \<Rightarrow> nat \<Rightarrow> nat \<Rightarrow> nat \<Rightarrow> (nat \<times> nat) dm" where
  "utf16_to_latin1 same src srcPtr srcLen dstPtr =
     seqm (trapIfOverlap same srcPtr (2 * srcLen) dstPtr srcLen)
     (bnd (of_res (latin1_prefix src srcPtr srcLen 0)) (\<lambda>out.
      seqm (put_each dstPtr out)
      (ret (length out, length out))))"

text \<open>The loop over the generator of \<open>utf16-to-utf8\<close>; it returns early without looking at its end.\<close>

fun utf16_utf8_loop :: "nat \<Rightarrow> nat \<Rightarrow> bool \<Rightarrow> err option \<Rightarrow> nat \<Rightarrow> nat \<Rightarrow> nat \<Rightarrow> (nat \<times> nat) list \<Rightarrow> (nat \<times> nat) dm" where
  "utf16_utf8_loop dstPtr dstLen firstPass e consumed srcRead dstWritten [] = generator_end e (srcRead, dstWritten)"
| "utf16_utf8_loop dstPtr dstLen firstPass e consumed srcRead dstWritten ((cp, units) # yields) =
     (let consumed = consumed + units; remaining = int dstLen - int dstWritten in
      if firstPass \<and> cp \<ge> 0x80 then ret (srcRead, dstWritten)
      else if remaining < 4 \<and> remaining < int (utf8Len cp) then ret (srcRead, dstWritten)
      else
        bnd (encodeUtf8At (dstPtr + dstWritten) cp) (\<lambda>n.
        utf16_utf8_loop dstPtr dstLen firstPass e consumed consumed (dstWritten + n) yields))"

definition utf16_to_utf8 :: "8 word list \<Rightarrow> nat \<Rightarrow> nat \<Rightarrow> nat \<Rightarrow> nat \<Rightarrow> nat \<Rightarrow> (nat \<times> nat) dm" where
  "utf16_to_utf8 src srcPtr srcLen dstPtr dstLen firstPass =
     (case decodeUtf16OrTrap (subarray src srcPtr (2 * srcLen)) 0 srcLen 0 of (yields, e) \<Rightarrow>
      utf16_utf8_loop dstPtr dstLen (firstPass \<noteq> 0) e 0 0 0 yields)"

text \<open>The first byte that is not ASCII ends the first pass; \<open>undefined\<close> is encoded in four bytes.\<close>

definition latin1_stop :: "8 word list \<Rightarrow> nat \<Rightarrow> nat \<Rightarrow> nat" where
  "latin1_stop src srcLen firstPass =
     (if firstPass \<noteq> 0 then case find (\<lambda>i. js_byte src i \<ge> 0x80) [0..<srcLen] of None \<Rightarrow> srcLen | Some i \<Rightarrow> i
      else srcLen)"

function latin1_utf8_loop :: "8 word list \<Rightarrow> nat \<Rightarrow> nat \<Rightarrow> nat \<Rightarrow> nat \<Rightarrow> nat \<Rightarrow> (nat \<times> nat) dm" where
  "latin1_utf8_loop src dstPtr dstLen stop read written =
     (if read < stop then
        (let need = (case js_at src read of Some b \<Rightarrow> if b < 0x80 then 1 else 2 | None \<Rightarrow> 2) in
         if written + need > dstLen then ret (read, written)
         else
           bnd (case js_at src read of
                  Some b \<Rightarrow> encodeUtf8At (dstPtr + written) b
                | None \<Rightarrow> seqm (put_each (dstPtr + written) [0xF0, 0x80, 0x80, 0x80]) (ret 4)) (\<lambda>n.
           latin1_utf8_loop src dstPtr dstLen stop (read + 1) (written + n)))
      else ret (read, written))"
  by pat_completeness auto

termination
  by (relation "measure (\<lambda>(src, dstPtr, dstLen, stop, read, written). stop - read)") auto

declare latin1_utf8_loop.simps [simp del]

definition latin1_to_utf8 :: "8 word list \<Rightarrow> nat \<Rightarrow> nat \<Rightarrow> nat \<Rightarrow> nat \<Rightarrow> nat \<Rightarrow> (nat \<times> nat) dm" where
  "latin1_to_utf8 src srcPtr srcLen dstPtr dstLen firstPass =
     (let bs = subarray src srcPtr srcLen in
      latin1_utf8_loop bs dstPtr dstLen (latin1_stop bs srcLen firstPass) 0 0)"

definition utf8_to_compact_utf16 :: "8 word list \<Rightarrow> nat \<Rightarrow> nat \<Rightarrow> nat \<Rightarrow> nat \<Rightarrow> nat \<Rightarrow> nat dm" where
  "utf8_to_compact_utf16 src srcPtr srcLen dstPtr dstLen latin1Bytes =
     bnd (of_res (decodeUtf8OrTrap (subarray src srcPtr srcLen))) (\<lambda>s.
     seqm (inflateLatin1Bytes dstPtr latin1Bytes)
     (seqm (trapIf (int (length s) > int dstLen - int latin1Bytes) ''utf8-to-compact-utf16: destination capacity exceeded'')
     (seqm (put_units (dstPtr + 2 * latin1Bytes) s)
     (ret (length s + latin1Bytes)))))"

fun utf16_units_loop :: "nat \<Rightarrow> err option \<Rightarrow> nat \<Rightarrow> (nat \<times> nat) list \<Rightarrow> unit dm" where
  "utf16_units_loop dstPtr e at [] = generator_end e ()"
| "utf16_units_loop dstPtr e at ((cp, units) # yields) =
     bnd (encodeUtf16At dstPtr at cp) (\<lambda>n. utf16_units_loop dstPtr e (at + n) yields)"

definition utf16_to_compact_utf16 :: "8 word list \<Rightarrow> nat \<Rightarrow> nat \<Rightarrow> nat \<Rightarrow> nat \<Rightarrow> nat dm" where
  "utf16_to_compact_utf16 src srcPtr srcLen dstPtr latin1Bytes =
     seqm (inflateLatin1Bytes dstPtr latin1Bytes)
     (case decodeUtf16OrTrap (subarray src srcPtr (2 * srcLen)) 0 srcLen 0 of (yields, e) \<Rightarrow>
      seqm (utf16_units_loop dstPtr e latin1Bytes yields)
      (ret (srcLen + latin1Bytes)))"

section \<open>The trampolines\<close>

datatype transcode_op =
    Utf8ToUtf8 | Utf16ToUtf16 | Latin1ToLatin1 | Latin1ToUtf16 | Latin1ToUtf8
  | Utf16ToCompactProbablyUtf16 | Utf16ToCompactUtf16 | Utf16ToLatin1 | Utf16ToUtf8
  | Utf8ToCompactUtf16 | Utf8ToLatin1 | Utf8ToUtf16

text \<open>The results of a core function: none, one, or a pair.\<close>

definition none_of :: "unit dm \<Rightarrow> nat list dm" where "none_of a = seqm a (ret [])"
definition one_of :: "nat dm \<Rightarrow> nat list dm" where "one_of a = bnd a (\<lambda>n. ret [n])"
definition pair_of :: "(nat \<times> nat) dm \<Rightarrow> nat list dm" where "pair_of a = bnd a (\<lambda>(r, w). ret [r, w])"

fun createTranscoderInner :: "transcode_op \<Rightarrow> bool \<Rightarrow> 8 word list \<Rightarrow> (nat \<Rightarrow> nat) \<Rightarrow> nat list dm" where
  "createTranscoderInner Latin1ToLatin1 same src a = none_of (latin1_to_latin1 src (a 0) (a 1) (a 2))"
| "createTranscoderInner Utf8ToUtf8 same src a = none_of (utf8_to_utf8 src (a 0) (a 1) (a 2))"
| "createTranscoderInner Utf16ToUtf16 same src a = none_of (utf16_to_utf16 src (a 0) (a 1) (a 2))"
| "createTranscoderInner Latin1ToUtf16 same src a = none_of (latin1_to_utf16 src (a 0) (a 1) (a 2))"
| "createTranscoderInner Utf8ToUtf16 same src a = one_of (utf8_to_utf16 src (a 0) (a 1) (a 2))"
| "createTranscoderInner Utf16ToCompactProbablyUtf16 same src a =
     one_of (utf16_to_compact_probably_utf16 src (a 0) (a 1) (a 2))"
| "createTranscoderInner Utf8ToLatin1 same src a = pair_of (utf8_to_latin1 src (a 0) (a 1) (a 2))"
| "createTranscoderInner Utf16ToLatin1 same src a = pair_of (utf16_to_latin1 same src (a 0) (a 1) (a 2))"
| "createTranscoderInner Utf16ToUtf8 same src a = pair_of (utf16_to_utf8 src (a 0) (a 1) (a 2) (a 3) (a 4))"
| "createTranscoderInner Latin1ToUtf8 same src a = pair_of (latin1_to_utf8 src (a 0) (a 1) (a 2) (a 3) (a 4))"
| "createTranscoderInner Utf8ToCompactUtf16 same src a =
     one_of (utf8_to_compact_utf16 src (a 0) (a 1) (a 2) (a 3) (a 4))"
| "createTranscoderInner Utf16ToCompactUtf16 same src a =
     one_of (utf16_to_compact_utf16 src (a 0) (a 1) (a 2) (a 4))"

text \<open>The state is the list of the memories. Arguments arrive as signed 32-bit numbers.\<close>

definition createTranscoder :: "transcode_op \<Rightarrow> nat \<Rightarrow> nat \<Rightarrow> int list \<Rightarrow> (8 word list list, nat list) m" where
  "createTranscoder op src dst args =
     bnd (gets (\<lambda>ms. ms ! src)) (\<lambda>bytes.
     zoom (\<lambda>ms. ms ! dst) (\<lambda>d ms. ms[dst := d])
       (createTranscoderInner op (src = dst) bytes (\<lambda>i. nat (args ! i mod 2 ^ 32))))"

end
