(* ===== verification/Transcode_Lemmas.thy ===== *)
theory Transcode_Lemmas
  imports Transcode
begin

text \<open>
  What the transcoders write and how far they read: the byte and unit stores on ranges inside
  the destination, decoding of UTF-16 ranges, the passes into UTF-8 behind one interface, and
  the compact encoding in its two steps.
\<close>

section \<open>Stores inside the destination\<close>

lemma overwrite_single: "p < length d \<Longrightarrow> overwrite d p [b] = d[p := b]"
  by (rule nth_equalityI) (auto simp: nth_overwrite nth_list_update)

lemma put_each_run: "p + length bs \<le> length d \<Longrightarrow> put_each p bs d = (Inr (), overwrite d p (map of_nat bs))"
proof (induction bs arbitrary: p d)
  case (Cons b bs)
  have "overwrite d p (map of_nat (b # bs)) = overwrite (overwrite d p [of_nat b]) (p + 1) (map of_nat bs)"
    using overwrite_append [of p "[of_nat b]" "map of_nat bs" d] Cons.prems by simp
  then show ?case using Cons by (simp add: put_def seqm_run overwrite_single)
qed simp

lemma dst_set_run [simp]: "p + length bs \<le> length d \<Longrightarrow> dst_set bs p d = (Inr (), overwrite d p bs)"
  by (simp add: dst_set_def)

lemma le_bytes_2: "le_bytes 2 v = [of_nat v, of_nat (v div 256)]"
  by (simp add: numeral_2_eq_2)

definition u16_bytes :: "16 word list \<Rightarrow> 8 word list" where
  "u16_bytes us = concat (map (\<lambda>u. le_bytes 2 (unat u)) us)"

lemma length_u16_bytes [simp]: "length (u16_bytes us) = 2 * length us"
  unfolding u16_bytes_def by (rule length_concat_le_bytes)

lemma u16_bytes_simps [simp]: "u16_bytes [] = []" "u16_bytes (u # us) = le_bytes 2 (unat u) @ u16_bytes us"
  "u16_bytes (us @ vs) = u16_bytes us @ u16_bytes vs"
  by (simp_all add: u16_bytes_def)

lemma encodeUtf16Le_units: "well_formed us \<Longrightarrow> encodeUtf16Le us = u16_bytes us"
  by (simp add: encodeUtf16Le_def u16_bytes_def toWellFormed_id)

lemma setUint16_run [simp]:
  "p + 2 \<le> length d \<Longrightarrow> setUint16 p u d = (Inr (), overwrite d p (le_bytes 2 (u mod 2 ^ 16)))"
  by (simp add: setUint16_def)

lemma put_units_run: "p + 2 * length us \<le> length d \<Longrightarrow> put_units p us d = (Inr (), overwrite d p (u16_bytes us))"
proof (induction us arbitrary: p d)
  case (Cons u us)
  have "overwrite d p (u16_bytes (u # us)) = overwrite (overwrite d p (le_bytes 2 (unat u))) (p + 2) (u16_bytes us)"
    using overwrite_append [of p "le_bytes 2 (unat u)" "u16_bytes us" d] Cons.prems by simp
  then show ?case using Cons unat16 [of u] by (simp add: seqm_run)
qed simp

lemma encodeUtf8At_run:
  assumes "at + length (utf8_enc cp) \<le> length d"
  shows "encodeUtf8At at cp d = (Inr (length (utf8_enc cp)), overwrite d at (map of_nat (utf8_enc cp)))"
  using assms by (simp add: encodeUtf8At_def utf8_enc_def put_each_run seqm_run del: put_each.simps list.map split: if_splits)

lemma utf8Len_enc: "utf8Len cp = length (utf8_enc cp)"
  by (simp add: utf8Len_def utf8_enc_def)

section \<open>Reading UTF-16\<close>

lemma getUint16_units: "i < length us \<Longrightarrow> getUint16 (u16_bytes us) (2 * i) = Inr (unat (us ! i))"
proof -
  assume i: "i < length us"
  have nth: "u16_bytes us ! (2 * i) = of_nat (unat (us ! i)) \<and> u16_bytes us ! (2 * i + 1) = of_nat (unat (us ! i) div 256)"
    using i
  proof (induction us arbitrary: i)
    case (Cons u us)
    then show ?case by (cases i) (simp_all add: numeral_2_eq_2)
  qed simp
  have "unat (of_nat (unat u) :: 8 word) + 256 * unat (of_nat (unat u div 256) :: 8 word) = unat u" for u :: "16 word"
    using le_nat_le_bytes [of 2 "unat u"] unat16 [of u] by (simp add: numeral_2_eq_2)
  then show ?thesis using nth i by (simp add: getUint16_def del: of_nat_unat)
qed

text \<open>The generator over a list of units.\<close>

definition lone :: err where "lone = Trap ''invalid utf16 encoding''"

fun unit_steps :: "16 word list \<Rightarrow> (nat \<times> nat) list \<times> err option" where
  "unit_steps [] = ([], None)"
| "unit_steps [u] = (if is_high u \<or> is_low u then ([], Some lone) else ([(unat u, 1)], None))"
| "unit_steps (u # v # us) =
     (if \<not> is_high u \<and> \<not> is_low u then apfst (Cons (unat u, 1)) (unit_steps (v # us))
      else if is_high u \<and> is_low v
      then apfst (Cons (0x10000 + (unat u - 0xD800) * 1024 + (unat v - 0xDC00), 2)) (unit_steps us)
      else ([], Some lone))"

lemma surrogate_range: "unat u < 0xD800 \<or> 0xDFFF < unat u \<longleftrightarrow> \<not> is_high u \<and> \<not> is_low u"
  "unat u \<ge> 0xDC00 \<longleftrightarrow> \<not> is_high u" if "is_high u \<or> is_low u"
  using that by (auto simp: is_high_def is_low_def)

lemma plain_unit: "\<not> is_high u \<and> \<not> is_low u \<longleftrightarrow> unat u < 0xD800 \<or> unat u > 0xDFFF"
  by (auto simp: is_high_def is_low_def)

lemma utf16_at_units:
  assumes "i < length us"
  shows "utf16_at (u16_bytes us) 0 (length us) i =
    (if \<not> is_high (us ! i) \<and> \<not> is_low (us ! i) then Inr (unat (us ! i), 1)
     else if is_high (us ! i) \<and> i + 1 < length us \<and> is_low (us ! (i + 1))
     then Inr (0x10000 + (unat (us ! i) - 0xD800) * 1024 + (unat (us ! (i + 1)) - 0xDC00), 2)
     else Inl lone)"
  using assms getUint16_units [OF assms] getUint16_units [of "i + 1" us]
  by (auto simp: utf16_at_def lone_def is_high_def is_low_def algebra_simps)

lemma decodeUtf16OrTrap_units:
  "i \<le> length us \<Longrightarrow> decodeUtf16OrTrap (u16_bytes us) 0 (length us) i = unit_steps (drop i us)"
proof (induction "length us - i" arbitrary: i rule: less_induct)
  case less
  show ?case
  proof (cases "i < length us")
    case True
    have IH: "decodeUtf16OrTrap (u16_bytes us) 0 (length us) (i + k) = unit_steps (drop (i + k) us)" if "0 < k" "i + k \<le> length us" for k
      by (rule less.hyps) (use that True in simp_all)
    have d: "drop i us = us ! i # drop (i + 1) us" using True by (simp add: Cons_nth_drop_Suc)
    show ?thesis
    proof (cases "i + 1 < length us")
      case more: True
      then have "drop (i + 1) us = us ! (i + 1) # drop (i + 2) us" by (simp add: Cons_nth_drop_Suc)
      then show ?thesis using True more d IH [of 1] IH [of 2]
        by (subst decodeUtf16OrTrap.simps) (simp add: utf16_at_units split: prod.split)
    next
      case False
      then have "drop (i + 1) us = []" "i + 1 = length us" using True by simp_all
      then show ?thesis using True d IH [of 1]
        by (subst decodeUtf16OrTrap.simps) (simp add: utf16_at_units split: prod.split)
    qed
  next
    case False
    then show ?thesis using less.prems by (simp add: decodeUtf16OrTrap.simps)
  qed
qed

lemma decodeUtf16OrTrap_all: "decodeUtf16OrTrap (u16_bytes us) 0 (length us) 0 = unit_steps us"
  using decodeUtf16OrTrap_units [of 0 us] by simp

text \<open>Whole code points, with the units each takes.\<close>

definition steps_of :: "nat list \<Rightarrow> (nat \<times> nat) list" where
  "steps_of cs = map (\<lambda>c. (c, length (units_of c))) cs"

lemma unit_steps_well_formed: "well_formed us \<Longrightarrow> unit_steps us = (steps_of (code_points us), None)"
proof (induction us rule: unit_steps.induct)
  case (3 u v us)
  show ?case
  proof (cases "is_high u")
    case True
    then have v: "is_low v" "well_formed us" using 3(3) by auto
    then have "length (units_of (0x10000 + (unat u - 0xD800) * 1024 + (unat v - 0xDC00))) = 2"
      using units_of_pair [OF True v(1)] by simp
    then show ?thesis using True v 3(2) by (simp add: steps_of_def)
  next
    case False
    then show ?thesis using 3 by (simp add: steps_of_def units_of_single)
  qed
qed (auto simp: steps_of_def units_of_single)

lemma unit_steps_broken: "\<not> well_formed us \<Longrightarrow> snd (unit_steps us) = Some lone"
  by (induction us rule: unit_steps.induct) (auto split: if_splits simp: high_low)

section \<open>Strings as code points\<close>

definition units :: "nat list \<Rightarrow> 16 word list" where
  "units cs = concat (map units_of cs)"

definition utf8 :: "nat list \<Rightarrow> 8 word list" where
  "utf8 cs = map of_nat (concat (map utf8_enc cs))"

lemma units_simps [simp]: "units [] = []" "units (c # cs) = units_of c @ units cs" "units (cs @ ds) = units cs @ units ds"
  by (simp_all add: units_def)

lemma utf8_simps [simp]: "utf8 [] = []" "utf8 (c # cs) = map of_nat (utf8_enc c) @ utf8 cs" "utf8 (cs @ ds) = utf8 cs @ utf8 ds"
  by (simp_all add: utf8_def)

lemma units_of_cases:
  assumes "scalar c"
  obtains (one) u where "units_of c = [u]" "unat u = c" "\<not> is_high u" "\<not> is_low u"
  | (two) u v where "units_of c = [u, v]" "is_high u" "is_low v" "0x10000 + (unat u - 0xD800) * 0x400 + (unat v - 0xDC00) = c"
proof (cases "c < 0x10000")
  case True
  then show ?thesis
    using assms by (intro one [of "of_nat c"]) (auto simp: units_of_def is_high_def is_low_def scalar_def)
next
  case False
  let ?a = "(c - 0x10000) div 0x400" and ?b = "(c - 0x10000) mod 0x400"
  have "c < 0x110000" using assms False by (auto simp: scalar_def)
  then have "c - 0x10000 < 0x400 * 0x400" by simp
  then have a: "?a < 0x400" by (rule less_mult_imp_div_less)
  have u: "unat (of_nat (0xD800 + ?a) :: 16 word) = 0xD800 + ?a" "unat (of_nat (0xDC00 + ?b) :: 16 word) = 0xDC00 + ?b"
    using a by (simp_all del: of_nat_add)
  show ?thesis
  proof (rule two)
    show "units_of c = [of_nat (0xD800 + ?a), of_nat (0xDC00 + ?b)]" using False by (simp add: units_of_def)
    show "is_high (of_nat (0xD800 + ?a))" "is_low (of_nat (0xDC00 + ?b))"
      using a unfolding is_high_def is_low_def u by simp_all
    show "0x10000 + (unat (of_nat (0xD800 + ?a) :: 16 word) - 0xD800) * 0x400 + (unat (of_nat (0xDC00 + ?b) :: 16 word) - 0xDC00) = c"
      unfolding u using False by simp
  qed
qed

lemma units_scalars:
  "\<forall>c\<in>set cs. scalar c \<Longrightarrow> well_formed (units cs) \<and> code_points (units cs) = cs"
proof (induction cs)
  case (Cons c cs)
  then have IH: "well_formed (units cs)" "code_points (units cs) = cs" and c: "scalar c" by simp_all
  from c show ?case
  proof (cases rule: units_of_cases)
    case (one u)
    have "code_points (u # units cs) = unat u # code_points (units cs)"
      by (cases "units cs") (use one in simp_all)
    then show ?thesis using one IH by (simp add: well_formed_Cons)
  next
    case (two u v)
    then show ?thesis using IH by (simp add: high_low)
  qed
qed simp

lemma well_formed_code_points: "well_formed us \<Longrightarrow> \<forall>c\<in>set (code_points us). scalar c"
  by (auto intro: code_points_scalar)

lemma units_code_points [simp]: "units (code_points us) = us"
  by (simp add: units_def units_of_code_points)

lemma utf8Encode_units: "\<forall>c\<in>set cs. scalar c \<Longrightarrow> utf8Encode (units cs) = utf8 cs"
  by (simp add: utf8Encode_def utf8_def toWellFormed_id units_scalars)

lemma utf8Encode_well_formed: "well_formed us \<Longrightarrow> utf8Encode us = utf8 (code_points us)"
  by (simp add: utf8Encode_def utf8_def toWellFormed_id)

lemma utf8Decode_utf8: "\<forall>c\<in>set cs. scalar c \<Longrightarrow> utf8Decode (utf8 cs) = Some (units cs)"
  using utf8Decode_utf8Encode [of "units cs"] by (simp add: utf8Encode_units toWellFormed_id units_scalars)

lemma length_utf8_take: "length (utf8 (take (Suc k) cs)) = length (utf8 (take k cs)) + length (utf8_enc (cs ! k))" if "k < length cs"
  using that by (simp add: take_Suc_conv_app_nth)

lemma length_le_utf8: "length cs \<le> length (utf8 cs)"
  by (induction cs) (simp_all add: utf8_enc_def)

lemma length_units_le_utf8: "length (units cs) \<le> length (utf8 cs)"
proof (induction cs)
  case (Cons c cs)
  then show ?case by (simp add: units_of_def utf8_enc_def)
qed simp

section \<open>One pass into UTF-8\<close>

text \<open>
  What every pass into UTF-8 promises. \<open>holds src p cs\<close> says that the source has the code
  points \<open>cs\<close> at \<open>p\<close>, in \<open>count cs\<close> units of \<open>width\<close> bytes. A pass encodes a whole number of
  code points, as many as fit; a first pass may also stop at one that is not ASCII.
\<close>

definition pass_result :: "(nat list \<Rightarrow> nat) \<Rightarrow> nat list \<Rightarrow> nat \<Rightarrow> 8 word list \<Rightarrow> nat \<Rightarrow> (nat \<times> nat) res \<times> 8 word list" where
  "pass_result count cs q d k =
     (Inr (count (take k cs), length (utf8 (take k cs))), overwrite d q (utf8 (take k cs)))"

definition pass_stops :: "nat list \<Rightarrow> nat \<Rightarrow> nat \<Rightarrow> nat \<Rightarrow> bool" where
  "pass_stops cs cap first k \<longleftrightarrow> k \<le> length cs \<and> length (utf8 (take k cs)) \<le> cap \<and>
     (k < length cs \<longrightarrow> first \<noteq> 0 \<and> 0x80 \<le> cs ! k \<or> cap < length (utf8 (take (Suc k) cs)))"

locale utf8_passes =
  fixes pass :: "8 word list \<Rightarrow> nat \<Rightarrow> nat \<Rightarrow> nat \<Rightarrow> nat \<Rightarrow> nat \<Rightarrow> (nat \<times> nat) dm"
    and holds :: "8 word list \<Rightarrow> nat \<Rightarrow> nat list \<Rightarrow> bool"
    and count :: "nat list \<Rightarrow> nat"
    and width :: nat
  assumes pass: "holds src p cs \<Longrightarrow> q + cap \<le> length d \<Longrightarrow>
      \<exists>k. pass_stops cs cap first k \<and> pass src p (count cs) q cap first d = pass_result count cs q d k"
    and holds_drop: "holds src p cs \<Longrightarrow> holds src (p + width * count (take k cs)) (drop k cs)"
    and count_append: "count (cs @ ds) = count cs + count ds"
begin

lemma pass_completes:
  assumes "holds src p cs" "q + cap \<le> length d" "length (utf8 cs) \<le> cap"
  shows "pass src p (count cs) q cap 0 d = (Inr (count cs, length (utf8 cs)), overwrite d q (utf8 cs))"
proof -
  obtain k where k: "pass_stops cs cap 0 k" "pass src p (count cs) q cap 0 d = pass_result count cs q d k"
    using pass [OF assms(1,2)] by blast
  have "length (utf8 (take (Suc k) cs)) \<le> length (utf8 cs)"
    using utf8_simps(3) [of "take (Suc k) cs" "drop (Suc k) cs"] by (metis append_take_drop_id le_add1 length_append)
  then have "k = length cs" using k(1) assms(3) by (auto simp: pass_stops_def)
  then show ?thesis using k(2) by (simp add: pass_result_def)
qed

text \<open>Two passes: after the first, the caller moves what was written to a block that is large
  enough and goes on where the pass stopped.\<close>

lemma two_passes:
  assumes "holds src p cs" "q + cap \<le> length d"
  shows "\<exists>r w u. pass src p (count cs) q cap 1 d = (Inr (r, w), u) \<and> r \<le> count cs \<and> w \<le> cap \<and> same_outside q cap d u \<and>
    (\<forall>q' cap' d'. q' + cap' \<le> length d' \<and> subarray d' q' w = subarray u q w \<and> length (utf8 cs) \<le> cap' \<longrightarrow>
      (\<exists>v. pass src (p + width * r) (count cs - r) (q' + w) (cap' - w) 0 d' = (Inr (count cs - r, length (utf8 cs) - w), v) \<and>
        subarray v q' (length (utf8 cs)) = utf8 cs \<and> same_outside q' cap' d' v))"
proof -
  obtain k where k: "pass_stops cs cap 1 k" "pass src p (count cs) q cap 1 d = pass_result count cs q d k"
    using pass [OF assms] by blast
  let ?pre = "utf8 (take k cs)" and ?rest = "utf8 (drop k cs)"
  have cs: "utf8 cs = ?pre @ ?rest" "count cs = count (take k cs) + count (drop k cs)"
    using utf8_simps(3) [of "take k cs" "drop k cs"] count_append [of "take k cs" "drop k cs"] by simp_all
  have fits: "length ?pre \<le> cap" using k(1) by (simp add: pass_stops_def)
  have second: "\<exists>v. pass src (p + width * count (take k cs)) (count (drop k cs)) (q' + length ?pre) (cap' - length ?pre) 0 d' =
      (Inr (count (drop k cs), length ?rest), v) \<and> subarray v q' (length (utf8 cs)) = utf8 cs \<and> same_outside q' cap' d' v"
    if n: "q' + cap' \<le> length d'" "subarray d' q' (length ?pre) = ?pre" "length (utf8 cs) \<le> cap'" for q' cap' d'
  proof -
    let ?v = "overwrite d' (q' + length ?pre) ?rest"
    have room: "q' + length ?pre + length ?rest \<le> length d'" using n(1,3) cs(1) by simp
    have "pass src (p + width * count (take k cs)) (count (drop k cs)) (q' + length ?pre) (cap' - length ?pre) 0 d' =
        (Inr (count (drop k cs), length ?rest), ?v)"
      by (rule pass_completes [OF holds_drop [OF assms(1)]]) (use n cs(1) in simp_all)
    moreover have "subarray ?v q' (length ?pre + length ?rest) = subarray ?v q' (length ?pre) @ subarray ?v (q' + length ?pre) (length ?rest)"
      by (rule subarray_split) (use room in simp)
    moreover have "subarray ?v q' (length ?pre) = subarray d' q' (length ?pre)"
      by (rule subarray_overwrite_disjoint) (use room in simp_all)
    moreover have "same_outside q' cap' d' ?v"
      by (rule same_outside_mono [of "q' + length ?pre" "length ?rest"]) (use room n(3) cs(1) in simp_all)
    ultimately show ?thesis using n(2) cs(1) room by simp
  qed
  have room: "q + length ?pre \<le> length d" using fits assms(2) by simp
  have "same_outside q cap d (overwrite d q ?pre)"
    by (rule same_outside_mono [of q "length ?pre"]) (use room fits in simp_all)
  then show ?thesis
    using k(2) cs fits second room by (auto simp: pass_result_def)
qed

end

section \<open>The passes from UTF-16 and from Latin-1\<close>

definition holds16 :: "8 word list \<Rightarrow> nat \<Rightarrow> nat list \<Rightarrow> bool" where
  "holds16 src p cs \<longleftrightarrow> (\<forall>c\<in>set cs. scalar c) \<and> p + 2 * length (units cs) \<le> length src \<and>
     subarray src p (2 * length (units cs)) = u16_bytes (units cs)"

definition holds8 :: "8 word list \<Rightarrow> nat \<Rightarrow> nat list \<Rightarrow> bool" where
  "holds8 src p cs \<longleftrightarrow> (\<forall>c\<in>set cs. c < 256) \<and> p + length cs \<le> length src \<and> subarray src p (length cs) = map of_nat cs"

text \<open>What a loop of a pass has done when \<open>w\<close> bytes were written before it started.\<close>

definition loop_stops :: "nat list \<Rightarrow> nat \<Rightarrow> nat \<Rightarrow> bool \<Rightarrow> nat \<Rightarrow> bool" where
  "loop_stops cs cap w first k \<longleftrightarrow> k \<le> length cs \<and> w + length (utf8 (take k cs)) \<le> cap \<and>
     (k < length cs \<longrightarrow> first \<and> 0x80 \<le> cs ! k \<or> cap < w + length (utf8 (take (Suc k) cs)))"

lemma loop_stops_0: "w \<le> cap \<Longrightarrow> first \<and> 0x80 \<le> c \<or> cap < w + length (utf8_enc c) \<Longrightarrow> loop_stops (c # cs) cap w first 0"
  by (simp add: loop_stops_def)

lemma loop_stops_Suc: "loop_stops cs cap (w + length (utf8_enc c)) first k \<Longrightarrow> loop_stops (c # cs) cap w first (Suc k)"
  by (simp add: loop_stops_def add.assoc)

lemma loop_stops_pass: "loop_stops cs cap 0 (first \<noteq> 0) k \<Longrightarrow> pass_stops cs cap first k"
  by (simp add: loop_stops_def pass_stops_def)

lemma length_utf8_enc: "1 \<le> length (utf8_enc c)" "length (utf8_enc c) \<le> 4"
  by (simp_all add: utf8_enc_def)

lemma utf16_utf8_loop_run:
  "w \<le> cap \<Longrightarrow> q + cap \<le> length d \<Longrightarrow>
   \<exists>k. loop_stops cs cap w first k \<and>
     utf16_utf8_loop q cap first None r r w (steps_of cs) d =
       (Inr (r + length (units (take k cs)), w + length (utf8 (take k cs))), overwrite d (q + w) (utf8 (take k cs)))"
proof (induction cs arbitrary: r w d)
  case Nil
  then show ?case by (intro exI [of _ 0]) (simp add: loop_stops_def steps_of_def generator_end_def)
next
  case (Cons c cs)
  let ?n = "length (utf8_enc c)"
  show ?case
  proof (cases "first \<and> 0x80 \<le> c \<or> cap < w + ?n")
    case True
    have "utf16_utf8_loop q cap first None r r w (steps_of (c # cs)) d = (Inr (r, w), d)"
      using True Cons.prems(1) length_utf8_enc [of c] by (auto simp: steps_of_def Let_def utf8Len_enc)
    then show ?thesis using loop_stops_0 [OF Cons.prems(1) True, of cs] by (intro exI [of _ 0]) simp
  next
    case False
    then have room: "w + ?n \<le> cap" by simp
    let ?d = "overwrite d (q + w) (map of_nat (utf8_enc c))"
    obtain k where k: "loop_stops cs cap (w + ?n) first k"
        "utf16_utf8_loop q cap first None (r + length (units_of c)) (r + length (units_of c)) (w + ?n) (steps_of cs) ?d =
         (Inr (r + length (units_of c) + length (units (take k cs)), w + ?n + length (utf8 (take k cs))),
          overwrite ?d (q + (w + ?n)) (utf8 (take k cs)))"
      using Cons.IH [of "w + ?n" ?d "r + length (units_of c)"] room Cons.prems(2) by auto
    have "q + w + ?n + length (utf8 (take k cs)) \<le> length d" using k(1) Cons.prems(2) by (simp add: loop_stops_def)
    then have "overwrite d (q + w) (utf8 (take (Suc k) (c # cs))) = overwrite ?d (q + (w + ?n)) (utf8 (take k cs))"
      using overwrite_append [of "q + w" "map of_nat (utf8_enc c)" "utf8 (take k cs)" d] by (simp add: add.assoc)
    moreover have "\<not> (first \<and> 128 \<le> c)" "\<not> (int cap - int w < 4 \<and> int cap - int w < int (utf8Len c))"
      using False room by (auto simp: utf8Len_enc)
    then have "utf16_utf8_loop q cap first None r r w (steps_of (c # cs)) d =
        utf16_utf8_loop q cap first None (r + length (units_of c)) (r + length (units_of c)) (w + ?n) (steps_of cs) ?d"
      using room Cons.prems(2) encodeUtf8At_run [of "q + w" c d] by (auto simp: steps_of_def Let_def bnd_run)
    ultimately show ?thesis using k loop_stops_Suc [OF k(1)] by (intro exI [of _ "Suc k"]) (simp add: add.assoc)
  qed
qed

lemma latin1_utf8_loop_run:
  "\<forall>c\<in>set cs. c < 256 \<Longrightarrow> w \<le> cap \<Longrightarrow> q + cap \<le> length d \<Longrightarrow> n \<le> length cs \<Longrightarrow>
   \<exists>k. k \<le> n \<and> w + length (utf8 (take k cs)) \<le> cap \<and> (k < n \<longrightarrow> cap < w + length (utf8 (take (Suc k) cs))) \<and>
     latin1_utf8_loop (map of_nat (pre @ cs)) q cap (length pre + n) (length pre) w d =
       (Inr (length pre + k, w + length (utf8 (take k cs))), overwrite d (q + w) (utf8 (take k cs)))"
proof (induction cs arbitrary: pre w d n)
  case Nil
  then show ?case by (simp add: latin1_utf8_loop.simps)
next
  case (Cons c cs)
  let ?m = "length (utf8_enc c)" and ?bs = "map of_nat (pre @ c # cs) :: 8 word list"
  have c: "c < 256" "js_at ?bs (length pre) = Some c" using Cons.prems(1) by (simp_all add: js_at_def nth_append unat_of_nat8)
  have need: "?m = (if c < 0x80 then 1 else 2)" using c(1) by (simp add: utf8_enc_def)
  show ?case
  proof (cases "n = 0 \<or> cap < w + ?m")
    case True
    have "latin1_utf8_loop ?bs q cap (length pre + n) (length pre) w d = (Inr (length pre, w), d)"
      using True c(2) need by (subst latin1_utf8_loop.simps) (auto simp: Let_def)
    then show ?thesis using True Cons.prems(2) by (intro exI [of _ 0]) auto
  next
    case False
    then obtain n' where n: "n = Suc n'" and room: "w + ?m \<le> cap" by (cases n) auto
    let ?d = "overwrite d (q + w) (map of_nat (utf8_enc c))"
    obtain k where k: "k \<le> n'" "w + ?m + length (utf8 (take k cs)) \<le> cap"
        "k < n' \<longrightarrow> cap < w + ?m + length (utf8 (take (Suc k) cs))"
        "latin1_utf8_loop (map of_nat ((pre @ [c]) @ cs)) q cap (length (pre @ [c]) + n') (length (pre @ [c])) (w + ?m) ?d =
         (Inr (length (pre @ [c]) + k, w + ?m + length (utf8 (take k cs))), overwrite ?d (q + (w + ?m)) (utf8 (take k cs)))"
      using Cons.IH [of "w + ?m" ?d n' "pre @ [c]"] room Cons.prems n by auto
    have "q + w + ?m + length (utf8 (take k cs)) \<le> length d" using k(2) Cons.prems(3) by simp
    then have "overwrite d (q + w) (utf8 (take (Suc k) (c # cs))) = overwrite ?d (q + (w + ?m)) (utf8 (take k cs))"
      using overwrite_append [of "q + w" "map of_nat (utf8_enc c)" "utf8 (take k cs)" d] by (simp add: add.assoc)
    moreover have "latin1_utf8_loop ?bs q cap (length pre + n) (length pre) w d =
        latin1_utf8_loop (map of_nat ((pre @ [c]) @ cs)) q cap (length (pre @ [c]) + n') (length (pre @ [c])) (w + ?m) ?d"
      using room Cons.prems(3) c(2) need n encodeUtf8At_run [of "q + w" c d]
      by (subst latin1_utf8_loop.simps) (auto simp: Let_def bnd_run)
    ultimately show ?thesis using k n by (intro exI [of _ "Suc k"]) (simp add: add.assoc)
  qed
qed

lemma units_latin1: "\<forall>c\<in>set cs. c < 256 \<Longrightarrow> units cs = map of_nat cs"
  by (induction cs) (simp_all add: units_of_def)

lemma utf8_ascii_take:
  "\<forall>c\<in>set (take n cs). c < 0x80 \<Longrightarrow> n \<le> length cs \<Longrightarrow> length (utf8 (take n cs)) = n"
  by (induction cs arbitrary: n) (auto simp: utf8_enc_def take_Cons split: nat.split)

lemma latin1_stop_spec:
  assumes "\<forall>c\<in>set cs. c < 256"
  shows "latin1_stop (map of_nat cs) (length cs) first \<le> length cs \<and>
    (latin1_stop (map of_nat cs) (length cs) first < length cs \<longrightarrow>
       first \<noteq> 0 \<and> 0x80 \<le> cs ! latin1_stop (map of_nat cs) (length cs) first)"
proof -
  have "js_byte (map of_nat cs) i = cs ! i" if "i < length cs" for i
    using that assms by (simp add: js_byte_def js_at_def unat_of_nat8)
  then show ?thesis
    by (auto simp: latin1_stop_def find_Some_iff nth_append split: option.split)
qed

interpretation utf16: utf8_passes utf16_to_utf8 holds16 "\<lambda>cs. length (units cs)" 2
proof unfold_locales
  show "\<exists>k. pass_stops cs cap first k \<and> utf16_to_utf8 src p (length (units cs)) q cap first d = pass_result (\<lambda>cs. length (units cs)) cs q d k"
    if h: "holds16 src p cs" "q + cap \<le> length d" for src p cs q cap and d :: "8 word list" and first
  proof -
    have "decodeUtf16OrTrap (subarray src p (2 * length (units cs))) 0 (length (units cs)) 0 = (steps_of cs, None)"
      using h(1) decodeUtf16OrTrap_all [of "units cs"] unit_steps_well_formed [of "units cs"] units_scalars [of cs]
      by (simp add: holds16_def)
    moreover obtain k where "loop_stops cs cap 0 (first \<noteq> 0) k"
        "utf16_utf8_loop q cap (first \<noteq> 0) None 0 0 0 (steps_of cs) d =
         (Inr (length (units (take k cs)), length (utf8 (take k cs))), overwrite d q (utf8 (take k cs)))"
      using utf16_utf8_loop_run [of 0 cap q d cs "first \<noteq> 0" 0] h(2) by auto
    ultimately show ?thesis
      using loop_stops_pass by (intro exI [of _ k]) (simp add: utf16_to_utf8_def pass_result_def)
  qed
  show "holds16 src (p + 2 * length (units (take k cs))) (drop k cs)" if h: "holds16 src p cs" for src p cs k
  proof -
    let ?a = "units (take k cs)" and ?b = "units (drop k cs)"
    have u: "units cs = ?a @ ?b" using units_simps(3) [of "take k cs" "drop k cs"] by simp
    have "subarray src p (2 * length ?a + 2 * length ?b) = subarray src p (2 * length ?a) @ subarray src (p + 2 * length ?a) (2 * length ?b)"
      by (rule subarray_split) (use h u in \<open>simp add: holds16_def\<close>)
    then show ?thesis using h u by (auto simp: holds16_def append_eq_append_conv dest: in_set_dropD)
  qed
qed simp

interpretation latin1: utf8_passes latin1_to_utf8 holds8 length 1
proof unfold_locales
  show "\<exists>k. pass_stops cs cap first k \<and> latin1_to_utf8 src p (length cs) q cap first d = pass_result length cs q d k"
    if h: "holds8 src p cs" "q + cap \<le> length d" for src p cs q cap and d :: "8 word list" and first
  proof -
    let ?n = "latin1_stop (map of_nat cs :: 8 word list) (length cs) first"
    have cs: "\<forall>c\<in>set cs. c < 256" "subarray src p (length cs) = map of_nat cs" using h(1) by (simp_all add: holds8_def)
    note stop = latin1_stop_spec [OF cs(1), of first]
    obtain k where k: "k \<le> ?n" "length (utf8 (take k cs)) \<le> cap" "k < ?n \<longrightarrow> cap < length (utf8 (take (Suc k) cs))"
        "latin1_utf8_loop (map of_nat cs) q cap ?n 0 0 d = (Inr (k, length (utf8 (take k cs))), overwrite d q (utf8 (take k cs)))"
      using latin1_utf8_loop_run [OF cs(1), of 0 cap q d ?n "[]"] h(2) stop by auto
    have "k < length cs \<longrightarrow> first \<noteq> 0 \<and> 0x80 \<le> cs ! k \<or> cap < length (utf8 (take (Suc k) cs))"
      using k(1,3) stop by (cases "k < ?n") auto
    then show ?thesis
      using k stop cs(2) by (intro exI [of _ k]) (auto simp: latin1_to_utf8_def pass_result_def pass_stops_def Let_def)
  qed
  show "holds8 src (p + 1 * length (take k cs)) (drop k cs)" if h: "holds8 src p cs" for src p cs k
  proof (cases "k \<le> length cs")
    case True
    then have "subarray src p (k + (length cs - k)) = subarray src p k @ subarray src (p + k) (length cs - k)"
      by (intro subarray_split) (use h in \<open>simp add: holds8_def\<close>)
    then have "subarray src p k @ subarray src (p + k) (length cs - k) = map of_nat (take k cs) @ map of_nat (drop k cs)"
      using True h by (simp add: holds8_def flip: map_append)
    moreover have "length (subarray src p k) = k" using True h by (simp add: holds8_def)
    ultimately show ?thesis using True h by (auto simp: holds8_def append_eq_append_conv min_def dest: in_set_dropD)
  qed (use h in \<open>auto simp: holds8_def\<close>)
qed simp

section \<open>The compact encoding\<close>

text \<open>The part of a string that is Latin-1.\<close>

definition narrow :: "nat list \<Rightarrow> nat list" where
  "narrow cs = takeWhile (\<lambda>c. c < 256) cs"

lemma js_at_here:
  "b < 256 \<Longrightarrow> js_at (map of_nat pre @ of_nat b # bs) (length pre) = Some b"
  "c < 256 \<Longrightarrow> js_at (map of_nat pre @ a # of_nat c # bs) (Suc (length pre)) = Some c"
  by (simp_all add: js_at_def nth_append unat_of_nat8)

lemma first_byte:
  assumes "scalar c" "256 \<le> c"
  obtains b bs where "utf8_enc c = b # bs" "0xC4 \<le> b" "b < 256"
proof -
  have "c div 262144 < 16" "c < 0x110000" using assms by (auto simp: scalar_def)
  then show ?thesis using assms that by (cases "c < 0x800"; cases "c < 0x10000") (auto simp: utf8_enc_def)
qed

lemma two_bytes:
  assumes "0x80 \<le> c" "c < 256"
  shows "utf8_enc c = [0xC0 + c div 64, 0x80 + c mod 64] \<and> (c div 64 = 2 \<or> c div 64 = 3)"
proof -
  have "2 \<le> c div 64" "c div 64 < 4" using assms by simp_all
  then have "c div 64 = 2 \<or> c div 64 = 3" by linarith
  then show ?thesis using assms by (simp add: utf8_enc_def)
qed

lemma utf8Latin1UpTo_run:
  assumes "\<forall>c\<in>set cs. scalar c" "n = length pre + length (concat (map utf8_enc cs))"
  shows "utf8Latin1UpTo (map of_nat (pre @ concat (map utf8_enc cs))) 0 n (length pre) =
    length pre + length (utf8 (narrow cs))"
  using assms
proof (induction cs arbitrary: pre)
  case Nil
  then show ?case by (simp add: utf8Latin1UpTo.simps narrow_def)
next
  case (Cons c cs)
  let ?bs = "map of_nat (pre @ concat (map utf8_enc (c # cs))) :: 8 word list"
  have IH: "utf8Latin1UpTo ?bs 0 n (length pre + length (utf8_enc c)) = length pre + length (utf8_enc c) + length (utf8 (narrow cs))"
    using Cons.IH [of "pre @ utf8_enc c"] Cons.prems by (simp add: add.assoc)
  consider "c < 0x80" | "0x80 \<le> c" "c < 256" | "256 \<le> c" by linarith
  then show ?case
  proof cases
    case 1
    then have e: "utf8_enc c = [c]" by (simp add: utf8_enc_def)
    have "js_at ?bs (length pre) = Some c" using 1 e by (simp add: js_at_here)
    then show ?thesis
      using IH e 1 Cons.prems(2) by (subst utf8Latin1UpTo.simps) (simp add: narrow_def)
  next
    case 2
    note e = two_bytes [OF 2]
    have b: "0xC0 + c div 64 < 256" "0x80 + c mod 64 < 256" "c mod 64 < 64" using e by auto
    have "js_at ?bs (length pre) = Some (0xC0 + c div 64)" "js_at ?bs (length pre + 1) = Some (0x80 + c mod 64)"
      using e b js_at_here(1) [of "0xC0 + c div 64"] js_at_here(2) [of "0x80 + c mod 64"] by simp_all
    then show ?thesis
      using IH e b 2 Cons.prems(2) by (subst utf8Latin1UpTo.simps) (auto simp: narrow_def)
  next
    case 3
    obtain b bs where b: "utf8_enc c = b # bs" "0xC4 \<le> b" "b < 256" using first_byte [of c] Cons.prems(1) 3 by auto
    have "js_at ?bs (length pre) = Some b" using b by (simp add: js_at_here)
    then show ?thesis using b 3 Cons.prems(2) by (subst utf8Latin1UpTo.simps) (simp add: narrow_def)
  qed
qed

lemma utf8_latin1_loop_run:
  assumes "\<forall>c\<in>set cs. c < 256" "read = length pre + length (concat (map utf8_enc cs))" "q + w + length cs \<le> length d"
  shows "utf8_latin1_loop (map of_nat (pre @ concat (map utf8_enc cs) @ rest)) q read w (length pre) d =
    (Inr (w + length cs), overwrite d (q + w) (map of_nat cs))"
  using assms
proof (induction cs arbitrary: pre w d)
  case Nil
  then show ?case by (simp add: utf8_latin1_loop.simps)
next
  case (Cons c cs)
  let ?bs = "map of_nat (pre @ concat (map utf8_enc (c # cs)) @ rest) :: 8 word list"
  let ?d = "d[q + w := of_nat c]"
  have "overwrite d (q + w) (map of_nat (c # cs)) = overwrite (overwrite d (q + w) [of_nat c]) (q + w + 1) (map of_nat cs)"
    using overwrite_append [of "q + w" "[of_nat c]" "map of_nat cs" d] Cons.prems(3) by simp
  then have o: "overwrite d (q + w) (map of_nat (c # cs)) = overwrite ?d (q + (w + 1)) (map of_nat cs)"
    using Cons.prems(3) by (simp add: overwrite_single)
  have IH: "utf8_latin1_loop ?bs q read (w + 1) (length pre + length (utf8_enc c)) ?d =
      (Inr (w + 1 + length cs), overwrite ?d (q + (w + 1)) (map of_nat cs))"
    using Cons.IH [of "pre @ utf8_enc c" "w + 1" ?d] Cons.prems by (simp add: add.assoc)
  show ?case
  proof (cases "c < 0x80")
    case True
    then have e: "utf8_enc c = [c]" by (simp add: utf8_enc_def)
    have "js_byte ?bs (length pre) = c" using True e by (simp add: js_byte_def js_at_here)
    then show ?thesis
      using IH e True o Cons.prems(2) by (subst utf8_latin1_loop.simps) (simp add: put_def seqm_run)
  next
    case False
    then have e: "utf8_enc c = [0xC0 + c div 64, 0x80 + c mod 64]" "c div 64 = 2 \<or> c div 64 = 3"
      using two_bytes [of c] Cons.prems(1) by auto
    have b: "0xC0 + c div 64 < 256" "0x80 + c mod 64 < 256" using e(2) by auto
    have "js_byte ?bs (length pre) = 0xC0 + c div 64" "js_byte ?bs (length pre + 1) = 0x80 + c mod 64"
      using e b js_at_here(1) [of "0xC0 + c div 64"] js_at_here(2) [of "0x80 + c mod 64"] by (simp_all add: js_byte_def)
    moreover have "(0xC0 + c div 64) mod 32 * 64 + (0x80 + c mod 64) mod 64 = c"
    proof -
      have "(128 + x) mod 64 = x mod 64" for x :: nat using mod_mult_self2 [of x 64 2] by (simp add: add.commute)
      then have "(0x80 + c mod 64) mod 64 = c mod 64" by simp
      moreover have "(0xC0 + c div 64) mod 32 = c div 64" using e(2) by auto
      ultimately show ?thesis by simp
    qed
    ultimately show ?thesis
      using IH e(1) b(1) o Cons.prems(2) by (subst utf8_latin1_loop.simps) (simp add: put_def seqm_run)
  qed
qed

text \<open>The widening of strings in linear memory is the same loop.\<close>

lemma inflate_widen:
  "widenLoop p d s = (fst (inflateLatin1Bytes p d (c_mem s)), s\<lparr>c_mem := snd (inflateLatin1Bytes p d (c_mem s))\<rparr>)"
proof (induction d arbitrary: s)
  case (Suc d)
  have "(of_nat (js_byte m (p + d)) :: 8 word) = (if p + d < length m then m ! (p + d) else 0)" for m
    by (simp add: js_byte_def js_at_def)
  then show ?case using Suc by (simp add: put_def seqm_run bnd_run)
qed simp

lemma inflate_run:
  assumes "p + 2 * d \<le> length m"
  shows "\<exists>u. inflateLatin1Bytes p d m = (Inr (), u) \<and> same_outside p (2 * d) m u \<and>
    subarray u p (2 * d) = concat (map (\<lambda>b. [b, 0]) (subarray m p d))"
proof -
  define s :: "unit cst_scheme" where "s = undefined\<lparr>c_mem := m\<rparr>"
  have s: "c_mem s = m" by (simp add: s_def)
  obtain u where u: "widenLoop p d s = (Inr (), s\<lparr>c_mem := u\<rparr>)" "same_outside p (2 * d) m u"
      "subarray u p (2 * d) = concat (map (\<lambda>b. [b, 0]) (subarray m p d))"
    using widenLoop_run [of p d s] assms s by auto
  have "fst (inflateLatin1Bytes p d m) = Inr ()" "snd (inflateLatin1Bytes p d m) = u"
    using inflate_widen [of p d s] u(1) s by (auto dest: arg_cong [where f = c_mem])
  then show ?thesis using u(2,3) by (metis prod.collapse)
qed

lemma u16_latin1: "\<forall>c\<in>set cs. c < 256 \<Longrightarrow> u16_bytes (units cs) = concat (map (\<lambda>b. [b, 0]) (map of_nat cs))"
  by (induction cs) (simp_all add: units_of_def numeral_2_eq_2)

lemma narrow_split: "cs = narrow cs @ drop (length (narrow cs)) cs" "\<forall>c\<in>set (narrow cs). c < 256"
  by (auto simp: narrow_def dropWhile_eq_drop [symmetric] dest: set_takeWhileD)

end
