(* ===== verification/Transcode_Props.thy ===== *)
theory Transcode_Props
  imports Transcode_Lemmas
begin

text \<open>
  The protocols in which adapters use the transcoders: into UTF-8 in two passes, into the
  compact encoding by a Latin-1 step and a step that widens what it wrote, and from UTF-8 to
  UTF-16 at once. What adapters do in between (allocation, moving the written prefix) is
  universally quantified.
\<close>

section \<open>Into UTF-8\<close>

text \<open>C22. A UTF-16 string is transcoded to UTF-8 in two passes, wherever the first one stops. The
  first pass into any block writes whole code points inside the block; after its bytes were
  moved to a block with room for the string, the second pass completes the string there and
  touches no byte outside the block.\<close>

theorem utf16_to_utf8_in_two_passes:
  assumes "well_formed us" "p + 2 * length us \<le> length src" "subarray src p (2 * length us) = encodeUtf16Le us" "q + cap \<le> length d"
  shows "\<exists>r w u. utf16_to_utf8 src p (length us) q cap 1 d = (Inr (r, w), u) \<and> r \<le> length us \<and> w \<le> cap \<and> same_outside q cap d u \<and>
    (\<forall>q' cap' d'. q' + cap' \<le> length d' \<and> subarray d' q' w = subarray u q w \<and> length (utf8Encode us) \<le> cap' \<longrightarrow>
      (\<exists>v. utf16_to_utf8 src (p + 2 * r) (length us - r) (q' + w) (cap' - w) 0 d' =
          (Inr (length us - r, length (utf8Encode us) - w), v) \<and>
        subarray v q' (length (utf8Encode us)) = utf8Encode us \<and> same_outside q' cap' d' v))"
  using utf16.two_passes [of src p "code_points us" q cap d] assms
  by (simp add: holds16_def well_formed_code_points encodeUtf16Le_units utf8Encode_well_formed)

theorem utf16_to_utf8_in_two_passes_witness:
  "\<exists>r w u. utf16_to_utf8 [0x61, 0, 0xE9, 0] 0 2 0 2 1 [0, 0] = (Inr (r, w), u) \<and> r \<le> 2 \<and> w \<le> 2"
proof -
  have plain: "\<not> is_high 0x61" "\<not> is_low 0x61" "\<not> is_high 0xE9" "\<not> is_low 0xE9"
    by (simp_all add: is_high_def is_low_def)
  have e: "encodeUtf16Le [0x61, 0xE9] = [0x61, 0, 0xE9, 0]" "well_formed [0x61, 0xE9]"
    by (simp_all add: plain encodeUtf16Le_units le_bytes_2)
  have "0 + 2 * length [0x61, 0xE9 :: 16 word] \<le> length [0x61, 0, 0xE9, 0 :: 8 word]"
    "subarray [0x61, 0, 0xE9, 0] 0 (2 * length [0x61, 0xE9 :: 16 word]) = encodeUtf16Le [0x61, 0xE9]" "0 + 2 \<le> length [0, 0 :: 8 word]"
    unfolding e by (simp_all add: subarray_def)
  note two = utf16_to_utf8_in_two_passes [OF e(2) this]
  have "length [0x61, 0xE9 :: 16 word] = 2" by simp
  from two [unfolded this] obtain r w u where
    "utf16_to_utf8 [0x61, 0, 0xE9, 0] 0 2 0 2 1 [0, 0] = (Inr (r, w), u)" "r \<le> 2" "w \<le> 2"
    by (elim exE conjE) (rule that)
  then show ?thesis by blast
qed

text \<open>The same holds of Latin-1 strings.\<close>

lemma latin1_to_utf8_in_two_passes:
  assumes "\<forall>c\<in>set cs. c < 256" "p + length cs \<le> length src" "subarray src p (length cs) = map of_nat cs" "q + cap \<le> length d"
  shows "\<exists>r w u. latin1_to_utf8 src p (length cs) q cap 1 d = (Inr (r, w), u) \<and> r \<le> length cs \<and> w \<le> cap \<and> same_outside q cap d u \<and>
    (\<forall>q' cap' d'. q' + cap' \<le> length d' \<and> subarray d' q' w = subarray u q w \<and> length (utf8 cs) \<le> cap' \<longrightarrow>
      (\<exists>v. latin1_to_utf8 src (p + 1 * r) (length cs - r) (q' + w) (cap' - w) 0 d' = (Inr (length cs - r, length (utf8 cs) - w), v) \<and>
        subarray v q' (length (utf8 cs)) = utf8 cs \<and> same_outside q' cap' d' v))"
  by (rule latin1.two_passes) (use assms in \<open>simp_all add: holds8_def\<close>)

section \<open>Into the compact encoding\<close>

lemma utf8_to_latin1_run:
  assumes cs: "\<forall>c\<in>set cs. scalar c" and src: "p + length (utf8 cs) \<le> length src" "subarray src p (length (utf8 cs)) = utf8 cs"
    and d: "q + length (utf8 cs) \<le> length d"
  shows "utf8_to_latin1 src p (length (utf8 cs)) q d =
    (Inr (length (utf8 (narrow cs)), length (narrow cs)), overwrite d q (map of_nat (narrow cs)))"
proof -
  let ?pre = "narrow cs" and ?rest = "drop (length (narrow cs)) cs"
  have e: "utf8 cs = map of_nat ([] @ concat (map utf8_enc ?pre) @ concat (map utf8_enc ?rest))"
    using utf8_simps(3) [of ?pre ?rest] narrow_split(1) [of cs] by (simp add: utf8_def flip: map_append concat_append)
  have "length (utf8 ?pre) \<le> length (utf8 cs)"
    using utf8_simps(3) [of ?pre ?rest] narrow_split(1) [of cs] by (metis le_add1 length_append)
  then have room: "q + 0 + length ?pre \<le> length d" using d length_le_utf8 [of ?pre] by simp
  have "utf8Latin1UpTo (utf8 cs) 0 (length (utf8 cs)) 0 = length (utf8 ?pre)"
    using utf8Latin1UpTo_run [OF cs, of "length (utf8 cs)" "[]"] by (simp add: utf8_def)
  moreover have "utf8_latin1_loop (utf8 cs) q (length (utf8 ?pre)) 0 0 d = (Inr (length ?pre), overwrite d q (map of_nat ?pre))"
    unfolding e using utf8_latin1_loop_run [OF narrow_split(2), where pre = "[]" and w = 0] room
    by (simp add: utf8_def)
  ultimately show ?thesis using src(2) by (simp add: utf8_to_latin1_def Let_def bnd_run)
qed

lemma inflated:
  assumes "\<forall>c\<in>set cs. c < 256" "subarray d p (length cs) = map of_nat cs" "p + 2 * length cs \<le> length d"
  obtains u where "inflateLatin1Bytes p (length cs) d = (Inr (), u)" "same_outside p (2 * length cs) d u"
    "subarray u p (2 * length cs) = u16_bytes (units cs)"
  using inflate_run [OF assms(3)] assms(1,2) u16_latin1 by auto

lemma utf8_to_compact_utf16_run:
  assumes pre: "\<forall>c\<in>set pre. c < 256" "subarray d q (length pre) = map of_nat pre"
    and rest: "\<forall>c\<in>set rest. scalar c" "subarray src p (length (utf8 rest)) = utf8 rest"
    and room: "length (units (pre @ rest)) \<le> cap" "q + 2 * cap \<le> length d"
  shows "\<exists>v. utf8_to_compact_utf16 src p (length (utf8 rest)) q cap (length pre) d = (Inr (length (units (pre @ rest))), v) \<and>
    subarray v q (2 * length (units (pre @ rest))) = u16_bytes (units (pre @ rest)) \<and> same_outside q (2 * cap) d v"
proof -
  have n: "length (units pre) = length pre" using pre(1) by (simp add: units_latin1)
  have "q + 2 * length pre \<le> length d" using room n by simp
  from inflated [OF pre this] obtain u where u: "inflateLatin1Bytes q (length pre) d = (Inr (), u)"
      "same_outside q (2 * length pre) d u" "subarray u q (2 * length pre) = u16_bytes (units pre)" .
  have len: "length u = length d" using u(2) by (simp add: same_outside_def)
  let ?v = "overwrite u (q + 2 * length pre) (u16_bytes (units rest))"
  have fits: "q + 2 * length pre + 2 * length (units rest) \<le> length u" using room n len by simp
  have "utf8_to_compact_utf16 src p (length (utf8 rest)) q cap (length pre) d = (Inr (length (units (pre @ rest))), ?v)"
    using rest u(1) room(1) n fits put_units_run [of "q + 2 * length pre" "units rest" u]
    by (simp add: utf8_to_compact_utf16_def decodeUtf8OrTrap_def utf8Decode_utf8 seqm_run)
  moreover have "subarray ?v q (2 * length pre + 2 * length (units rest)) =
      subarray ?v q (2 * length pre) @ subarray ?v (q + 2 * length pre) (2 * length (units rest))"
    by (rule subarray_split) (use fits in simp)
  moreover have "subarray ?v q (2 * length pre) = subarray u q (2 * length pre)"
    by (rule subarray_overwrite_disjoint) (use fits in simp_all)
  moreover have "same_outside q (2 * cap) d ?v"
  proof (rule same_outside_trans)
    show "same_outside q (2 * cap) d u" by (rule same_outside_mono [OF u(2)]) (use room n in simp_all)
    show "same_outside q (2 * cap) u ?v"
      by (rule same_outside_mono [of "q + 2 * length pre" "2 * length (units rest)"]) (use fits room n in simp_all)
  qed
  ultimately show ?thesis using u(3) n fits by simp
qed

text \<open>C23. A UTF-8 string is transcoded to the compact encoding. The first step writes the longest
  prefix that is Latin-1 and is done if that is the whole string, which then reads back from
  Latin-1. Otherwise, after its bytes were moved to a block with room for the UTF-16 form, the
  second step widens them in place and appends the rest, and the block holds the whole string.\<close>

theorem utf8_to_compact_in_two_steps:
  assumes us: "well_formed us" and n: "n = length (utf8Encode us)" and src: "p + n \<le> length src" "subarray src p n = utf8Encode us"
    and d: "q + n \<le> length d"
  shows "\<exists>r w u. utf8_to_latin1 src p n q d = (Inr (r, w), u) \<and> r \<le> n \<and> same_outside q n d u \<and>
    (r = n \<longrightarrow> w = length us \<and> latin1Decode (subarray u q w) = us) \<and>
    (\<forall>q' cap d'. q' + 2 * cap \<le> length d' \<and> subarray d' q' w = subarray u q w \<and> length us \<le> cap \<longrightarrow>
      (\<exists>v. utf8_to_compact_utf16 src (p + r) (n - r) q' cap w d' = (Inr (length us), v) \<and>
        subarray v q' (2 * length us) = encodeUtf16Le us \<and> same_outside q' (2 * cap) d' v))"
proof -
  let ?cs = "code_points us"
  let ?pre = "narrow ?cs" and ?rest = "drop (length (narrow ?cs)) ?cs"
  have cs: "\<forall>c\<in>set ?cs. scalar c" by (rule well_formed_code_points [OF us])
  have e: "utf8Encode us = utf8 ?cs" by (rule utf8Encode_well_formed [OF us])
  have split: "?cs = ?pre @ ?rest" by (rule narrow_split(1))
  have u8: "utf8 ?cs = utf8 ?pre @ utf8 ?rest" using split utf8_simps(3) by metis
  have us_split: "us = units (?pre @ ?rest)" using split by simp
  let ?r = "length (utf8 ?pre)" and ?w = "length ?pre" and ?u = "overwrite d q (map of_nat ?pre)"
  have le: "?r \<le> n" "?w \<le> ?r"
    using u8 n e length_le_utf8 [of ?pre] by simp_all
  have run: "utf8_to_latin1 src p n q d = (Inr (?r, ?w), ?u)"
    using utf8_to_latin1_run [OF cs] src d n e by simp
  have out: "same_outside q n d ?u" by (rule same_outside_mono [of q ?w]) (use le d in simp_all)
  have prefix: "subarray ?u q ?w = map of_nat ?pre" using le d by simp
  have all: "?w = length us \<and> latin1Decode (subarray ?u q ?w) = us" if "?r = n"
  proof -
    have "utf8 ?rest = []" using that u8 n e by simp
    then have "?rest = []" by (cases ?rest) (simp_all add: utf8_enc_def split: if_splits)
    then have "us = units ?pre" using us_split by simp
    moreover have "length (units ?pre) = ?w" "units ?pre = map of_nat ?pre" using units_latin1 [OF narrow_split(2)] by simp_all
    moreover have "latin1Decode (map of_nat ?pre) = map of_nat ?pre"
      using narrow_split(2) [of ?cs] by (simp add: latin1Decode_def unat_of_nat8 del: of_nat_unat)
    ultimately show ?thesis using prefix by simp
  qed
  have rest: "subarray src (p + ?r) (n - ?r) = utf8 ?rest" "n - ?r = length (utf8 ?rest)"
  proof -
    have "subarray src p (?r + length (utf8 ?rest)) = subarray src p ?r @ subarray src (p + ?r) (length (utf8 ?rest))"
      by (rule subarray_split) (use src(1) n e u8 in simp)
    then show "n - ?r = length (utf8 ?rest)" "subarray src (p + ?r) (n - ?r) = utf8 ?rest"
      using src n e u8 by (simp_all add: append_eq_append_conv)
  qed
  have "\<exists>v. utf8_to_compact_utf16 src (p + ?r) (n - ?r) q' cap ?w d' = (Inr (length us), v) \<and>
      subarray v q' (2 * length us) = encodeUtf16Le us \<and> same_outside q' (2 * cap) d' v"
    if "q' + 2 * cap \<le> length d'" "subarray d' q' ?w = subarray ?u q ?w" "length us \<le> cap" for q' cap d'
  proof -
    have sc: "\<forall>c\<in>set ?rest. scalar c" using cs by (meson in_set_dropD)
    have pre: "subarray d' q' ?w = map of_nat ?pre" using that(2) prefix by simp
    have src': "subarray src (p + ?r) (length (utf8 ?rest)) = utf8 ?rest" using rest by simp
    have "length (units (?pre @ ?rest)) \<le> cap" using that(3) us_split by simp
    from utf8_to_compact_utf16_run [OF narrow_split(2) pre sc src' this that(1)] show ?thesis
      unfolding us_split [symmetric] rest(2) encodeUtf16Le_units [OF us] .
  qed
  then show ?thesis using run out all le by blast
qed

theorem utf8_to_compact_in_two_steps_witness:
  "\<exists>r w u. utf8_to_latin1 [0x61, 0x62] 0 2 0 [0, 0] = (Inr (r, w), u) \<and> r \<le> 2"
proof -
  have plain: "\<not> is_high 0x61" "\<not> is_low 0x61" "\<not> is_high 0x62" "\<not> is_low 0x62"
    by (simp_all add: is_high_def is_low_def)
  have wf: "well_formed [0x61, 0x62]" by (simp add: plain)
  have e: "utf8Encode [0x61, 0x62] = [0x61, 0x62]" by (simp add: utf8Encode_well_formed [OF wf] plain utf8_enc_def)
  have "2 = length (utf8Encode [0x61, 0x62])" "0 + 2 \<le> length [0x61, 0x62 :: 8 word]"
    "subarray [0x61, 0x62] 0 2 = utf8Encode [0x61, 0x62]" "0 + 2 \<le> length [0, 0 :: 8 word]"
    unfolding e by (simp_all add: subarray_def)
  from utf8_to_compact_in_two_steps [OF wf this] obtain r w u where
    "utf8_to_latin1 [0x61, 0x62] 0 2 0 [0, 0] = (Inr (r, w), u)" "r \<le> 2"
    by (elim exE conjE) (rule that)
  then show ?thesis by blast
qed

section \<open>From UTF-8 to UTF-16\<close>

lemma utf8_dec_scalars:
  "utf8_dec bs = Some cs \<Longrightarrow> (\<forall>c\<in>set cs. scalar c) \<and> length (units cs) \<le> length bs"
proof (induction bs arbitrary: cs rule: utf8_dec.induct)
  case (2 b bs)
  note dec = 2(5) [unfolded utf8_dec.simps(2)]
  have one: "length (units_of c) \<le> 1" if "c < 0x10000" for c using that by (simp add: units_of_def)
  have two: "length (units_of c) \<le> 2" for c by (simp add: units_of_def)
  consider (ascii) "b < 0x80" | (pair) "0xC2 \<le> b" "b \<le> 0xDF" | (triple) "0xE0 \<le> b" "b \<le> 0xEF" | (quad) "0xF0 \<le> b" "b \<le> 0xF4"
    using dec by (auto split: if_splits)
  then show ?case
  proof cases
    case ascii
    then obtain r where "utf8_dec bs = Some r" "cs = b # r" using dec by auto
    then show ?thesis using 2(1) [OF ascii] one [of b] ascii by (auto simp: scalar_def)
  next
    case pair
    then obtain c r ds where c: "bs = c # r" "cont c" "utf8_dec r = Some ds" "cs = ((b - 0xC0) * 64 + (c - 0x80)) # ds"
      using dec by (auto split: list.splits if_splits)
    let ?c = "(b - 0xC0) * 64 + (c - 0x80)"
    have "?c < 0x800" using pair c(2) by (auto simp: cont_def)
    then show ?thesis using 2(2) [of c r ds] pair c one [of ?c] by (auto simp: scalar_def)
  next
    case triple
    then obtain c d r ds where c: "bs = c # d # r" "second_ok b c" "cont d" "utf8_dec r = Some ds"
        "cs = ((b - 0xE0) * 4096 + (c - 0x80) * 64 + (d - 0x80)) # ds"
      using dec by (auto split: list.splits if_splits)
    let ?c = "(b - 0xE0) * 4096 + (c - 0x80) * 64 + (d - 0x80)"
    have "d - 0x80 < 64" "c \<le> 0xBF" "0x80 \<le> c" using c(2,3) by (auto simp: cont_def second_ok_def split: if_splits)
    moreover have "b = 0xED \<Longrightarrow> c \<le> 0x9F" using c(2) by (simp add: second_ok_def)
    moreover have "b - 0xE0 \<le> 12 \<or> b = 0xED \<or> 14 \<le> b - 0xE0" using triple by arith
    ultimately have "?c < 0x10000" "scalar ?c" using triple by (auto simp: scalar_def)
    then show ?thesis using 2(3) [of c "d # r" d r ds] triple c one [of ?c] by auto
  next
    case quad
    then obtain c d e r ds where c: "bs = c # d # e # r" "second_ok b c" "cont d" "cont e" "utf8_dec r = Some ds"
        "cs = ((b - 0xF0) * 262144 + (c - 0x80) * 4096 + (d - 0x80) * 64 + (e - 0x80)) # ds"
      using dec by (auto split: list.splits if_splits)
    let ?c = "(b - 0xF0) * 262144 + (c - 0x80) * 4096 + (d - 0x80) * 64 + (e - 0x80)"
    have "d - 0x80 < 64" "e - 0x80 < 64" "c \<le> 0xBF" using c(2-4) by (auto simp: cont_def second_ok_def split: if_splits)
    moreover have "b = 0xF0 \<Longrightarrow> 0x90 \<le> c" "b = 0xF4 \<Longrightarrow> c \<le> 0x8F" using c(2) by (simp_all add: second_ok_def)
    moreover have "b = 0xF0 \<or> b - 0xF0 \<in> {1, 2, 3} \<or> b = 0xF4" using quad by auto
    ultimately have "scalar ?c" using quad by (auto simp: scalar_def)
    then show ?thesis using 2(4) [of c "d # e # r" d "e # r" e r ds] quad c two [of ?c] by auto
  qed
qed simp

lemma utf8Decode_Some:
  assumes "utf8Decode bs = Some s"
  shows "well_formed s \<and> length s \<le> length bs"
proof -
  obtain cs where cs: "utf8_dec (map unat bs) = Some cs" "s = units cs"
    using assms by (auto simp: utf8Decode_def units_def)
  then show ?thesis using utf8_dec_scalars [OF cs(1)] units_scalars by simp
qed

text \<open>C35. A UTF-8 range is transcoded to UTF-16 as a whole or not at all. If the bytes are
  not UTF-8 the operation traps and leaves the destination alone; otherwise the destination
  holds the UTF-16 form of the decoded string, in no more units than the range has bytes, and
  the number of units is returned.\<close>

theorem utf8_to_utf16_whole:
  assumes "p + n \<le> length src" "q + 2 * n \<le> length d"
  shows "case utf8Decode (subarray src p n) of
      None \<Rightarrow> utf8_to_utf16 src p n q d = (Inl (Trap ''invalid utf8 encoding''), d)
    | Some s \<Rightarrow> length s \<le> n \<and> (\<exists>u. utf8_to_utf16 src p n q d = (Inr (length s), u) \<and>
        utf16Decode (subarray u q (2 * length s)) = Some s \<and> same_outside q (2 * length s) d u)"
proof (cases "utf8Decode (subarray src p n)")
  case None
  then show ?thesis by (simp add: utf8_to_utf16_def decodeUtf8OrTrap_def)
next
  case (Some s)
  then have s: "well_formed s" "length s \<le> n" using utf8Decode_Some assms(1) by fastforce+
  then have "q + 2 * length s \<le> length d" using assms(2) by simp
  moreover have "utf16Decode (u16_bytes s) = Some s"
    using utf16Decode_encodeUtf16Le [of s] s(1) by (simp add: encodeUtf16Le_units toWellFormed_id)
  ultimately show ?thesis
    using Some s put_units_run [of q s d]
    by (simp add: utf8_to_utf16_def decodeUtf8OrTrap_def seqm_run min_def)
qed

theorem utf8_to_utf16_whole_witness:
  "utf8_to_utf16 [0xC3, 0x28] 0 2 0 [7, 7, 7, 7] = (Inl (Trap ''invalid utf8 encoding''), [7, 7, 7, 7])"
proof -
  have "utf8Decode (subarray [0xC3, 0x28] 0 2) = None"
    by (simp add: subarray_def utf8Decode_def utf8_dec.simps(2) cont_def)
  then show ?thesis using utf8_to_utf16_whole [of 0 2 "[0xC3, 0x28]" 0 "[7, 7, 7, 7]"] by simp
qed

text \<open>The operations between equal encodings copy what is valid.\<close>

lemma utf8_to_utf8_validates:
  assumes "p + n \<le> length src" "q + n \<le> length d"
  shows "utf8_to_utf8 src p n q d =
    (if utf8Decode (subarray src p n) = None then (Inl (Trap ''invalid utf8 encoding''), d)
     else (Inr (), overwrite d q (subarray src p n)))"
  using assms by (auto simp: utf8_to_utf8_def decodeUtf8OrTrap_def seqm_run)

lemma utf16_to_utf16_validates:
  assumes "p + 2 * length us \<le> length src" "subarray src p (2 * length us) = u16_bytes us" "q + 2 * length us \<le> length d"
  shows "utf16_to_utf16 src p (length us) q d =
    (if well_formed us then (Inr (), overwrite d q (u16_bytes us)) else (Inl lone, d))"
  using assms unit_steps_well_formed [of us] unit_steps_broken [of us]
  by (simp add: utf16_to_utf16_def decodeUtf16OrTrap_all generator_end_def)

end
