(* ===== verification/Import_Versions.thy ===== *)
theory Import_Versions
  imports Prelude "HOL-Library.List_Lexorder" "HOL-Library.Char_ord"
begin

text \<open>
  The resolution of a component's imports against the providers that the embedder registered
  (\<open>runtime/src/embedder/version.ts\<close>): interface ids with their versions, compatibility tracks,
  the registration table and the lookup. The two error classes of the file are an error type of
  their own, messages without the values that the code appends. \<open>Number\<close> of a digit string is
  exact here, which it is in JavaScript below \<open>2 ^ 53\<close>.
\<close>

section \<open>Interface ids\<close>

datatype import_error = ImportRegistrationError string | ImportResolutionError string

record semver =
  major :: nat
  minor :: nat
  patch :: nat
  prerelease :: "string list"
  build :: "string option"

record parsed_id =
  base :: string
  version :: "string option"
  parsed_semver :: "semver option"

definition is_digit :: "char \<Rightarrow> bool" where
  "is_digit c \<longleftrightarrow> CHR ''0'' \<le> c \<and> c \<le> CHR ''9''"

text \<open>The class \<open>[0-9A-Za-z.-]\<close>.\<close>

definition is_label_char :: "char \<Rightarrow> bool" where
  "is_label_char c \<longleftrightarrow> is_digit c \<or> CHR ''A'' \<le> c \<and> c \<le> CHR ''Z'' \<or> CHR ''a'' \<le> c \<and> c \<le> CHR ''z'' \<or> c = CHR ''.'' \<or> c = CHR ''-''"

text \<open>\<open>/^\d+$/\<close>.\<close>

definition all_digits :: "string \<Rightarrow> bool" where
  "all_digits s \<longleftrightarrow> s \<noteq> [] \<and> list_all is_digit s"

definition all_label :: "string \<Rightarrow> bool" where
  "all_label s \<longleftrightarrow> s \<noteq> [] \<and> list_all is_label_char s"

definition to_number :: "string \<Rightarrow> nat" where
  "to_number s = nat_of_digits 0 s"

text \<open>\<open>s.split(c)\<close>.\<close>

fun js_split :: "char \<Rightarrow> string \<Rightarrow> string list" where
  "js_split c [] = [[]]"
| "js_split c (x # xs) =
     (if x = c then [] # js_split c xs
      else case js_split c xs of [] \<Rightarrow> [[x]] | y # ys \<Rightarrow> (x # y) # ys)"

text \<open>The expression \<open>SEMVER\<close>. Its parts are delimited by characters that they cannot contain,
  so a match is found without backtracking: a number and what follows it, then the optional
  prerelease, which ends at the first \<open>+\<close>, then the optional build.\<close>

definition digits_then :: "string \<Rightarrow> (string \<times> string) option" where
  "digits_then s = (let d = takeWhile is_digit s in if d = [] then None else Some (d, dropWhile is_digit s))"

definition digits_dot :: "string \<Rightarrow> (string \<times> string) option" where
  "digits_dot s = (case digits_then s of
     Some (d, c # r) \<Rightarrow> if c = CHR ''.'' then Some (d, r) else None
   | _ \<Rightarrow> None)"

definition build_part :: "string \<Rightarrow> string option option" where
  "build_part s = (case s of
     [] \<Rightarrow> Some None
   | c # r \<Rightarrow> if c = CHR ''+'' \<and> all_label r then Some (Some r) else None)"

definition suffix_part :: "string \<Rightarrow> (string option \<times> string option) option" where
  "suffix_part s = (case s of
     c # r \<Rightarrow>
       if c = CHR ''-'' then
         (let p = takeWhile is_label_char r in
          if p = [] then None
          else map_option (\<lambda>b. (Some p, b)) (build_part (dropWhile is_label_char r)))
       else map_option (\<lambda>b. (None, b)) (build_part s)
   | [] \<Rightarrow> Some (None, None))"

definition parseSemver :: "string \<Rightarrow> semver option" where
  "parseSemver v =
     (case digits_dot v of None \<Rightarrow> None | Some (m1, r1) \<Rightarrow>
      case digits_dot r1 of None \<Rightarrow> None | Some (m2, r2) \<Rightarrow>
      case digits_then r2 of None \<Rightarrow> None | Some (m3, r3) \<Rightarrow>
      map_option (\<lambda>(p, b).
        \<lparr>major = to_number m1, minor = to_number m2, patch = to_number m3,
         prerelease = (case p of None \<Rightarrow> [] | Some s \<Rightarrow> js_split (CHR ''.'') s), build = b\<rparr>)
        (suffix_part r3))"

text \<open>The id is split at its last \<open>@\<close>.\<close>

definition after_at :: "string \<Rightarrow> string" where
  "after_at s = rev (takeWhile (\<lambda>c. c \<noteq> CHR ''@'') (rev s))"

definition before_at :: "string \<Rightarrow> string" where
  "before_at s = take (length s - length (after_at s) - 1) s"

definition parseInterfaceId :: "string \<Rightarrow> parsed_id" where
  "parseInterfaceId s =
     (if CHR ''@'' \<notin> set s then \<lparr>base = s, version = None, parsed_semver = None\<rparr>
      else \<lparr>base = before_at s, version = Some (after_at s), parsed_semver = parseSemver (after_at s)\<rparr>)"

section \<open>Compatibility tracks\<close>

definition trackKeyOf :: "string \<Rightarrow> semver \<Rightarrow> string option" where
  "trackKeyOf b v =
     (if prerelease v \<noteq> [] then None
      else if major v > 0 then Some (b @ ''@'' @ string_of_nat (major v))
      else if minor v > 0 then Some (b @ ''@0.'' @ string_of_nat (minor v))
      else None)"

definition trackKey :: "string \<Rightarrow> string option" where
  "trackKey s = (let p = parseInterfaceId s in
     case parsed_semver p of None \<Rightarrow> None | Some v \<Rightarrow> trackKeyOf (base p) v)"

definition asTrackKeySpelling :: "string \<Rightarrow> string option" where
  "asTrackKeySpelling s = (let p = parseInterfaceId s in
     case (version p, parsed_semver p) of
       (Some v, None) \<Rightarrow>
         if all_digits v then (if v = ''0'' then None else Some s)
         else if take 2 v = ''0.'' \<and> all_digits (drop 2 v) then Some s
         else None
     | _ \<Rightarrow> None)"

section \<open>Precedence\<close>

fun compare_prerelease :: "string list \<Rightarrow> string list \<Rightarrow> int" where
  "compare_prerelease [] [] = 0"
| "compare_prerelease [] (y # ys) = - 1"
| "compare_prerelease (x # xs) [] = 1"
| "compare_prerelease (x # xs) (y # ys) =
     (let xn = all_digits x; yn = all_digits y in
      if xn \<and> yn then
        (if to_number x \<noteq> to_number y then int (to_number x) - int (to_number y) else compare_prerelease xs ys)
      else if xn \<noteq> yn then (if xn then - 1 else 1)
      else if x \<noteq> y then (if x < y then - 1 else 1)
      else compare_prerelease xs ys)"

definition compareSemver :: "semver \<Rightarrow> semver \<Rightarrow> int" where
  "compareSemver a b =
     (if major a \<noteq> major b then int (major a) - int (major b)
      else if minor a \<noteq> minor b then int (minor a) - int (minor b)
      else if patch a \<noteq> patch b then int (patch a) - int (patch b)
      else if prerelease a = [] \<and> prerelease b = [] then 0
      else if prerelease a = [] then 1
      else if prerelease b = [] then - 1
      else compare_prerelease (prerelease a) (prerelease b))"

section \<open>The registration table\<close>

record track_claim =
  claim_key :: string
  claim_version :: "semver option"

record 'v resolver =
  exact :: "(string \<times> 'v) list"
  tracks :: "string \<Rightarrow> track_claim option"
  unversioned :: "string \<Rightarrow> string option"

definition claim_track :: "string \<Rightarrow> track_claim \<Rightarrow> 'v resolver \<Rightarrow> import_error + 'v resolver" where
  "claim_track track c R =
     (case tracks R track of
        None \<Rightarrow> Inr (R\<lparr>tracks := (tracks R)(track \<mapsto> c)\<rparr>)
      | Some held \<Rightarrow>
          (case (claim_version held, claim_version c) of
             (None, None) \<Rightarrow> Inl (ImportRegistrationError ''compatibility track is claimed twice'')
           | (Some h, Some v) \<Rightarrow>
               if compareSemver v h > 0 then Inr (R\<lparr>tracks := (tracks R)(track \<mapsto> c)\<rparr>) else Inr R
           | _ \<Rightarrow> Inl (ImportRegistrationError ''import registration is ambiguous on compatibility track'')))"

definition register :: "string \<Rightarrow> 'v resolver \<Rightarrow> import_error + 'v resolver" where
  "register key R =
     (case asTrackKeySpelling key of
        Some track \<Rightarrow> claim_track track \<lparr>claim_key = key, claim_version = None\<rparr> R
      | None \<Rightarrow>
          let p = parseInterfaceId key in
          if version p = Some ''0'' then Inl (ImportRegistrationError ''@0 is not a compatibility track'')
          else case version p of
            None \<Rightarrow>
              Inr (if CHR ''/'' \<in> set (base p) \<or> CHR '':'' \<in> set (base p)
                   then R\<lparr>unversioned := (unversioned R)(base p \<mapsto> key)\<rparr> else R)
          | Some _ \<Rightarrow>
              (case parsed_semver p of
                 None \<Rightarrow> Inr R
               | Some v \<Rightarrow>
                   (case trackKeyOf (base p) v of
                      None \<Rightarrow> Inr R
                    | Some track \<Rightarrow> claim_track track \<lparr>claim_key = key, claim_version = Some v\<rparr> R)))"

fun register_all :: "(string \<times> 'v) list \<Rightarrow> 'v resolver \<Rightarrow> import_error + 'v resolver" where
  "register_all [] R = Inr R"
| "register_all ((key, v) # ps) R =
     (if key \<in> fst ` set (exact R) then Inl (ImportRegistrationError ''duplicate import key'')
      else case register key (R\<lparr>exact := exact R @ [(key, v)]\<rparr>) of
        Inl e \<Rightarrow> Inl e
      | Inr R' \<Rightarrow> register_all ps R')"

definition newImportResolver :: "(string \<times> 'v) list \<Rightarrow> import_error + 'v resolver" where
  "newImportResolver ps = register_all ps \<lparr>exact = [], tracks = (\<lambda>_. None), unversioned = (\<lambda>_. None)\<rparr>"

definition resolver_keys :: "'v resolver \<Rightarrow> string list" where
  "resolver_keys R = map fst (exact R)"

definition resolve :: "'v resolver \<Rightarrow> string \<Rightarrow> import_error + (string \<times> 'v) option" where
  "resolve R s =
     (case map_of (exact R) s of
        Some v \<Rightarrow> Inr (Some (s, v))
      | None \<Rightarrow>
          let p = parseInterfaceId s in
          case parsed_semver p of
            Some v \<Rightarrow>
              (case Option.bind (trackKeyOf (base p) v) (tracks R) of
                 Some c \<Rightarrow> Inr (map_option (Pair (claim_key c)) (map_of (exact R) (claim_key c)))
               | None \<Rightarrow>
                   if unversioned R (base p) \<noteq> None
                   then Inl (ImportResolutionError ''import is versioned but the only registration is unversioned'')
                   else Inr None)
          | None \<Rightarrow>
              if version p = None \<and> filter (\<lambda>k. base (parseInterfaceId k) = base p) (resolver_keys R) \<noteq> []
              then Inl (ImportResolutionError ''import is unversioned but the registrations for it are versioned'')
              else Inr None)"

end
