(* ===== verification/Import_Props.thy ===== *)
theory Import_Props
  imports Import_Versions "HOL-Library.Product_Lexorder"
begin

text \<open>
  What the resolution of imports promises: the precedence of versions is the linear order of
  their keys, a track names one range of compatible versions, registration succeeds or fails
  independently of its order, and an import that is not matched exactly goes to the highest
  version on its own track and nowhere else.
\<close>

section \<open>Precedence\<close>

text \<open>Numeric identifiers rank below the others, a prerelease below its release.\<close>

definition identifier_key :: "string \<Rightarrow> nat \<times> nat \<times> string" where
  "identifier_key x = (if all_digits x then (0, to_number x, []) else (1, 0, x))"

definition precedence :: "semver \<Rightarrow> nat \<times> nat \<times> nat \<times> nat \<times> (nat \<times> nat \<times> string) list" where
  "precedence v = (major v, minor v, patch v, if prerelease v = [] then 1 else 0, map identifier_key (prerelease v))"

lemma identifier_key_order:
  "identifier_key x < identifier_key y \<longleftrightarrow>
     (if all_digits x \<and> all_digits y then to_number x < to_number y
      else if all_digits x \<noteq> all_digits y then all_digits x else x < y)"
  "identifier_key x = identifier_key y \<longleftrightarrow>
     (if all_digits x \<and> all_digits y then to_number x = to_number y
      else if all_digits x \<noteq> all_digits y then False else x = y)"
  by (auto simp: identifier_key_def less_prod_def)

lemma compare_prerelease_order:
  "(compare_prerelease xs ys < 0 \<longleftrightarrow> map identifier_key xs < map identifier_key ys) \<and>
   (compare_prerelease xs ys = 0 \<longleftrightarrow> map identifier_key xs = map identifier_key ys)"
  by (induction xs ys rule: compare_prerelease.induct) (auto simp: Let_def identifier_key_order)

text \<open>C39. The comparison of versions is that of a linear order on their precedence: negative when
  the first is lower, zero when they are equal in precedence, positive when it is higher. In
  particular it is total and transitive, also across numeric and alphanumeric identifiers.\<close>

theorem compareSemver_is_order:
  "sgn (compareSemver a b) = (if precedence a < precedence b then - 1 else if precedence a = precedence b then 0 else 1)"
proof -
  have "(compareSemver a b < 0 \<longleftrightarrow> precedence a < precedence b) \<and> (compareSemver a b = 0 \<longleftrightarrow> precedence a = precedence b)"
    using compare_prerelease_order [of "prerelease a" "prerelease b"]
    by (auto simp: compareSemver_def precedence_def less_prod_def)
  then show ?thesis by (auto simp: sgn_if)
qed

lemma compareSemver_pos: "compareSemver a b > 0 \<longleftrightarrow> precedence b < precedence a"
proof -
  have "(compareSemver a b < 0 \<longleftrightarrow> precedence a < precedence b) \<and> (compareSemver a b = 0 \<longleftrightarrow> precedence a = precedence b)"
    using compare_prerelease_order [of "prerelease a" "prerelease b"]
    by (auto simp: compareSemver_def precedence_def less_prod_def)
  then show ?thesis by force
qed

section \<open>Tracks\<close>

lemma digit_chars: "is_digit c \<Longrightarrow> c \<noteq> CHR ''@'' \<and> c \<noteq> CHR ''.''"
  by (auto simp: is_digit_def less_eq_char_def)

lemma string_of_nat_digits: "list_all is_digit (string_of_nat n)"
proof (induction n rule: string_of_nat.induct)
  case (1 n)
  have d: "is_digit (char_of (48 + k))" if "k < 10" for k :: nat
  proof -
    have "of_char (char_of (48 + k) :: char) = 48 + k" using that by simp
    then show ?thesis using that by (simp add: is_digit_def less_eq_char_def)
  qed
  show ?case
    using 1 d [of "n mod 10"] d [of n] by (subst string_of_nat.simps) auto
qed

lemma string_of_nat_no: "CHR ''@'' \<notin> set (string_of_nat n)" "CHR ''.'' \<notin> set (string_of_nat n)"
  using string_of_nat_digits [of n] digit_chars by (auto simp: list_all_iff)

lemma all_digits_string_of_nat: "all_digits (string_of_nat n)"
  by (simp add: all_digits_def string_of_nat_digits)

lemma split_at:
  assumes "CHR ''@'' \<notin> set d"
  shows "after_at (b @ CHR ''@'' # d) = d" "before_at (b @ CHR ''@'' # d) = b"
proof -
  have "takeWhile (\<lambda>c. c \<noteq> CHR ''@'') (rev d @ CHR ''@'' # rev b) = rev d"
    using assms by (subst takeWhile_append2) auto
  then show "after_at (b @ CHR ''@'' # d) = d" by (simp add: after_at_def)
  then show "before_at (b @ CHR ''@'' # d) = b" by (simp add: before_at_def)
qed

lemma parseInterfaceId_at:
  "CHR ''@'' \<notin> set d \<Longrightarrow>
   parseInterfaceId (b @ CHR ''@'' # d) = \<lparr>base = b, version = Some d, parsed_semver = parseSemver d\<rparr>"
  by (simp add: parseInterfaceId_def split_at)

text \<open>The version text of a track.\<close>

definition track_version :: "semver \<Rightarrow> string" where
  "track_version v = (if major v > 0 then string_of_nat (major v) else ''0.'' @ string_of_nat (minor v))"

definition has_track :: "semver \<Rightarrow> bool" where
  "has_track v \<longleftrightarrow> prerelease v = [] \<and> (major v > 0 \<or> minor v > 0)"

lemma trackKeyOf_Some: "trackKeyOf b v = Some T \<longleftrightarrow> has_track v \<and> T = b @ CHR ''@'' # track_version v"
  by (auto simp: trackKeyOf_def has_track_def track_version_def)

lemma track_version_no_at: "CHR ''@'' \<notin> set (track_version v)"
  by (simp add: track_version_def string_of_nat_no)

lemma track_version_inject:
  "has_track v \<Longrightarrow> has_track w \<Longrightarrow> track_version v = track_version w \<longleftrightarrow>
    major v = major w \<and> (major v = 0 \<longrightarrow> minor v = minor w)"
proof -
  have "string_of_nat m \<noteq> ''0.'' @ string_of_nat n" for m n
    using string_of_nat_no(2) [of m] by (metis append_Cons list.set_intros(1,2))
  then show ?thesis by (auto simp: track_version_def dest: sym)
qed

lemma track_inject:
  assumes "trackKeyOf b v = Some T" "trackKeyOf c w = Some T"
  shows "b = c \<and> major v = major w \<and> (major v = 0 \<longrightarrow> minor v = minor w)"
proof -
  have "b @ CHR ''@'' # track_version v = c @ CHR ''@'' # track_version w" using assms by (simp add: trackKeyOf_Some)
  then have "b = c" "track_version v = track_version w" using split_at [OF track_version_no_at] by metis+
  then show ?thesis using assms track_version_inject by (simp add: trackKeyOf_Some)
qed

lemma digits_span: "takeWhile is_digit (string_of_nat n) = string_of_nat n" "dropWhile is_digit (string_of_nat n) = []"
  using string_of_nat_digits [of n] by (simp_all add: list_all_iff)

lemma track_version_parse: "has_track v \<Longrightarrow> parseSemver (track_version v) = None"
proof -
  have "digits_dot (string_of_nat n) = None" for n
    by (simp add: digits_dot_def digits_then_def digits_span Let_def)
  moreover have "digits_dot (''0.'' @ r) = Some (''0'', r)" for r
    by (simp add: digits_dot_def digits_then_def is_digit_def less_eq_char_def Let_def)
  ultimately show ?thesis by (simp add: parseSemver_def track_version_def)
qed

text \<open>A track's name is read as a track and not as a version.\<close>

lemma track_spelling:
  assumes "trackKeyOf b v = Some T"
  shows "asTrackKeySpelling T = Some T" "trackKey T = None"
proof -
  have T: "T = b @ CHR ''@'' # track_version v" "has_track v" using assms by (simp_all add: trackKeyOf_Some)
  have p: "parseInterfaceId T = \<lparr>base = b, version = Some (track_version v), parsed_semver = None\<rparr>"
    using T parseInterfaceId_at [OF track_version_no_at] track_version_parse by simp
  have "string_of_nat n = ''0'' \<longleftrightarrow> n = 0" for n
  proof -
    have "string_of_nat 0 = ''0''" by code_simp
    then show ?thesis using string_of_nat_inject [of n 0] by simp
  qed
  moreover have "\<not> all_digits (''0.'' @ r)" for r using digit_chars by (auto simp: all_digits_def)
  ultimately show "asTrackKeySpelling T = Some T"
    using T(2) all_digits_string_of_nat by (simp add: asTrackKeySpelling_def p track_version_def has_track_def)
  show "trackKey T = None" by (simp add: trackKey_def p)
qed

section \<open>What a key claims\<close>

definition claim_of :: "string \<Rightarrow> (string \<times> track_claim) option" where
  "claim_of k = (case asTrackKeySpelling k of
     Some T \<Rightarrow> Some (T, \<lparr>claim_key = k, claim_version = None\<rparr>)
   | None \<Rightarrow> map_option (\<lambda>T. (T, \<lparr>claim_key = k, claim_version = parsed_semver (parseInterfaceId k)\<rparr>)) (trackKey k))"

definition dead_track :: "string \<Rightarrow> bool" where
  "dead_track k \<longleftrightarrow> version (parseInterfaceId k) = Some ''0''"

lemma spelling_self: "asTrackKeySpelling k = Some T \<Longrightarrow> T = k"
  by (auto simp: asTrackKeySpelling_def Let_def split: option.splits if_splits)

lemma spelling_not_dead: "asTrackKeySpelling k = Some T \<Longrightarrow> \<not> dead_track k"
proof -
  have "\<not> take 2 ''0'' = ''0.''" "all_digits ''0''" by (simp_all add: all_digits_def is_digit_def less_eq_char_def)
  then show "asTrackKeySpelling k = Some T \<Longrightarrow> \<not> dead_track k"
    by (auto simp: asTrackKeySpelling_def dead_track_def Let_def split: option.splits if_splits)
qed

lemma claim_of_key: "claim_of k = Some (T, c) \<Longrightarrow> claim_key c = k"
  by (auto simp: claim_of_def split: option.splits)

lemma claim_of_cases:
  assumes "claim_of k = Some (T, c)"
  obtains (spelled) "asTrackKeySpelling k = Some T" "T = k" "claim_version c = None"
  | (full) v where "trackKey k = Some T" "parsed_semver (parseInterfaceId k) = Some v" "claim_version c = Some v"
      "trackKeyOf (base (parseInterfaceId k)) v = Some T"
  using assms spelling_self that by (auto simp: claim_of_def trackKey_def Let_def split: option.splits)

text \<open>Registration adds the claim of the key, if it has one.\<close>

lemma register_claim:
  "register k R = (if dead_track k then Inl (ImportRegistrationError ''@0 is not a compatibility track'')
     else case claim_of k of Some (T, c) \<Rightarrow> claim_track T c R
       | None \<Rightarrow> Inr (let b = base (parseInterfaceId k) in
           if version (parseInterfaceId k) = None \<and> (CHR ''/'' \<in> set b \<or> CHR '':'' \<in> set b)
           then R\<lparr>unversioned := (unversioned R)(b \<mapsto> k)\<rparr> else R))"
proof (cases "asTrackKeySpelling k")
  case None
  have "parsed_semver (parseInterfaceId k) = None" if "version (parseInterfaceId k) = None"
    using that by (simp add: parseInterfaceId_def split: if_splits)
  then show ?thesis using None
    by (auto simp: register_def claim_of_def trackKey_def dead_track_def Let_def split: option.splits)
next
  case (Some T)
  then show ?thesis using spelling_not_dead [OF Some] by (simp add: register_def claim_of_def)
qed

section \<open>What the table knows\<close>

text \<open>\<open>table_of ks R\<close>: the table after the registration of the keys \<open>ks\<close>. The holder of a track is a
  key that claims it, and no key with a higher version does.\<close>

definition outranks :: "track_claim \<Rightarrow> track_claim \<Rightarrow> bool" where
  "outranks c d \<longleftrightarrow> (case (claim_version c, claim_version d) of
     (Some v, Some w) \<Rightarrow> precedence w \<le> precedence v | (None, None) \<Rightarrow> True | _ \<Rightarrow> False)"

lemma outranks_trans: "outranks c d \<Longrightarrow> outranks d e \<Longrightarrow> outranks c e"
  by (auto simp: outranks_def split: option.splits)

lemma outranks_refl [simp]: "outranks c c"
  by (simp add: outranks_def split: option.split)

definition knows :: "string set \<Rightarrow> (string \<Rightarrow> track_claim option) \<Rightarrow> (string \<Rightarrow> string option) \<Rightarrow> bool" where
  "knows K tr un \<longleftrightarrow> (\<forall>k\<in>K. \<not> dead_track k) \<and>
     (\<forall>T c. tr T = Some c \<longrightarrow> claim_key c \<in> K \<and> claim_of (claim_key c) = Some (T, c)) \<and>
     (\<forall>k\<in>K. \<forall>T d. claim_of k = Some (T, d) \<longrightarrow> (\<exists>c. tr T = Some c \<and> outranks c d)) \<and>
     (\<forall>b k. un b = Some k \<longrightarrow> k = b \<and> b \<in> K)"

lemma knowsD:
  assumes "knows K tr un"
  shows "tr T = Some c \<Longrightarrow> claim_key c \<in> K \<and> claim_of (claim_key c) = Some (T, c)"
    "k \<in> K \<Longrightarrow> claim_of k = Some (T, d) \<Longrightarrow> \<exists>c. tr T = Some c \<and> outranks c d"
    "k \<in> K \<Longrightarrow> \<not> dead_track k" "un b = Some k \<Longrightarrow> k = b \<and> b \<in> K"
  using assms unfolding knows_def by blast+

lemma knows_plain:
  assumes "knows K tr un" "\<not> dead_track k" "claim_of k = None"
  shows "knows (insert k K) tr un"
  using assms unfolding knows_def by auto

lemma knows_plain_unversioned:
  assumes "knows K tr un" "\<not> dead_track k" "claim_of k = None"
  shows "knows (insert k K) tr (un(k \<mapsto> k))"
  using assms unfolding knows_def by auto

lemma knows_held:
  assumes "knows K tr un" "\<not> dead_track k" "claim_of k = Some (T, c)" "tr T = Some h" "outranks h c"
  shows "knows (insert k K) tr un"
  using assms unfolding knows_def by auto

lemma knows_new:
  assumes n: "knows K tr un" "\<not> dead_track k" and c: "claim_of k = Some (T, c)" "\<And>h. tr T = Some h \<Longrightarrow> outranks c h"
  shows "knows (insert k K) (tr(T \<mapsto> c)) un"
proof -
  have "\<exists>e. (tr(T \<mapsto> c)) S = Some e \<and> outranks e d" if "l \<in> insert k K" "claim_of l = Some (S, d)" for l S d
  proof (cases "S = T")
    case True
    show ?thesis
    proof (cases "l = k")
      case False
      then have "l \<in> K" "claim_of l = Some (T, d)" using that True by auto
      then obtain h where "tr T = Some h" "outranks h d" using knowsD(2) [OF n(1)] by blast
      then show ?thesis using c(2) outranks_trans True by auto
    qed (use that c True in auto)
  next
    case False
    then show ?thesis using knowsD(2) [OF n(1), of l S d] that c(1) by auto
  qed
  then show ?thesis
    using n c(1) claim_of_key [OF c(1)] knowsD(1,4) [OF n(1)] by (auto simp: knows_def)
qed

definition table_of :: "(string \<times> 'v) list \<Rightarrow> 'v resolver \<Rightarrow> bool" where
  "table_of ps R \<longleftrightarrow> exact R = ps \<and> knows (fst ` set ps) (tracks R) (unversioned R)"

text \<open>Two keys are in conflict when one is the name of the other's track.\<close>

definition conflict :: "string \<Rightarrow> string \<Rightarrow> bool" where
  "conflict k l \<longleftrightarrow> (\<exists>T. asTrackKeySpelling k = Some T \<and> trackKey l = Some T)"

lemma claims_conflict:
  assumes "claim_of k = Some (T, c)" "claim_of l = Some (T, d)" "(claim_version c = None) \<noteq> (claim_version d = None)"
  shows "conflict k l \<or> conflict l k"
  using assms by (auto simp: conflict_def elim!: claim_of_cases)

lemma same_spelling: "claim_of k = Some (T, c) \<Longrightarrow> claim_of l = Some (T, d) \<Longrightarrow> claim_version c = None \<Longrightarrow> claim_version d = None \<Longrightarrow> k = l"
  by (auto elim!: claim_of_cases)

lemma conflict_claims:
  assumes "conflict k l"
  obtains T c d where "claim_of k = Some (T, c)" "claim_of l = Some (T, d)" "claim_version c = None" "claim_version d \<noteq> None"
proof -
  from assms obtain T where T: "asTrackKeySpelling k = Some T" "trackKey l = Some T" by (auto simp: conflict_def)
  obtain v where v: "parsed_semver (parseInterfaceId l) = Some v" using T(2) by (auto simp: trackKey_def Let_def split: option.splits)
  then have "asTrackKeySpelling l = None" by (simp add: asTrackKeySpelling_def Let_def split: option.split)
  then show ?thesis using T v by (intro that [of T]) (auto simp: claim_of_def)
qed

lemma unversioned_self: "version (parseInterfaceId k) = None \<Longrightarrow> base (parseInterfaceId k) = k"
  by (simp add: parseInterfaceId_def split: if_splits)

text \<open>One registration: it succeeds unless the key is dead or in conflict with an earlier one.\<close>

lemma register_step:
  assumes t: "table_of ps R" and fresh: "k \<notin> fst ` set ps"
  shows "if dead_track k \<or> (\<exists>l\<in>fst ` set ps. conflict k l \<or> conflict l k)
    then \<exists>e. register k (R\<lparr>exact := exact R @ [(k, v)]\<rparr>) = Inl (ImportRegistrationError e)
    else \<exists>R'. register k (R\<lparr>exact := exact R @ [(k, v)]\<rparr>) = Inr R' \<and> table_of (ps @ [(k, v)]) R'"
proof -
  let ?R = "R\<lparr>exact := exact R @ [(k, v)]\<rparr>"
  have ex: "exact R = ps" and n: "knows (fst ` set ps) (tracks R) (unversioned R)" using t by (simp_all add: table_of_def)
  note D = knowsD [OF n]
  consider (dead) "dead_track k" | (plain) "\<not> dead_track k" "claim_of k = None"
    | (claims) T c where "\<not> dead_track k" "claim_of k = Some (T, c)" by (cases "claim_of k") auto
  then show ?thesis
  proof cases
    case dead
    then show ?thesis by (simp add: register_claim)
  next
    case plain
    have "\<not> conflict k l" "\<not> conflict l k" for l using plain(2) by (auto elim!: conflict_claims)
    moreover have "table_of (ps @ [(k, v)]) R'"
      if "R' = ?R \<or> R' = ?R\<lparr>unversioned := (unversioned R)(k \<mapsto> k)\<rparr>" for R'
      using that ex knows_plain [OF n plain] knows_plain_unversioned [OF n plain] by (auto simp: table_of_def)
    ultimately show ?thesis using plain unversioned_self by (auto simp: register_claim Let_def)
  next
    case (claims T c)
    have key: "claim_key c = k" by (rule claim_of_key [OF claims(2)])
    have new: "table_of (ps @ [(k, v)]) (?R\<lparr>tracks := (tracks R)(T \<mapsto> c)\<rparr>)"
      if "\<And>h. tracks R T = Some h \<Longrightarrow> outranks c h"
      using knows_new [OF n claims that] ex by (simp add: table_of_def)
    show ?thesis
    proof (cases "tracks R T")
      case None
      have "\<not> conflict k l \<and> \<not> conflict l k" if "l \<in> fst ` set ps" for l
        using D(2) [OF that] None claims(2) by (auto elim!: conflict_claims)
      then show ?thesis using None claims new by (auto simp: register_claim claim_track_def)
    next
      case (Some h)
      have hk: "claim_key h \<in> fst ` set ps" "claim_of (claim_key h) = Some (T, h)" using D(1) [OF Some] by simp_all
      show ?thesis
      proof (cases "(claim_version h = None) = (claim_version c = None)")
        case False
        then have "conflict k (claim_key h) \<or> conflict (claim_key h) k" using claims_conflict [OF claims(2) hk(2)] by auto
        then have "\<exists>l\<in>fst ` set ps. conflict k l \<or> conflict l k" using hk(1) by blast
        then show ?thesis using False Some claims by (auto simp: register_claim claim_track_def split: option.splits)
      next
        case same: True
        have "claim_version c \<noteq> None" using same_spelling [OF claims(2) hk(2)] same hk(1) fresh by auto
        then obtain w g where w: "claim_version c = Some w" "claim_version h = Some g" using same by auto
        have "\<not> conflict k l \<and> \<not> conflict l k" if l: "l \<in> fst ` set ps" for l
        proof -
          have "outranks h d" if "claim_of l = Some (T, d)" for d using D(2) [OF l that] Some by simp
          then show ?thesis using claims(2) w by (auto simp: outranks_def elim!: conflict_claims split: option.splits)
        qed
        moreover have "table_of (ps @ [(k, v)]) ?R" if "outranks h c"
          using knows_held [OF n claims Some that] ex by (simp add: table_of_def)
        ultimately show ?thesis
          using Some w claims new by (auto simp: register_claim claim_track_def compareSemver_pos outranks_def)
      qed
    qed
  qed
qed

section \<open>The whole record\<close>

definition clean :: "string set \<Rightarrow> bool" where
  "clean K \<longleftrightarrow> (\<forall>k\<in>K. \<not> dead_track k) \<and> (\<forall>k\<in>K. \<forall>l\<in>K. \<not> conflict k l)"

lemma no_self_conflict: "\<not> conflict k k"
  by (auto elim!: conflict_claims)

lemma clean_mono: "clean K \<Longrightarrow> L \<subseteq> K \<Longrightarrow> clean L"
  by (auto simp: clean_def)

lemma clean_insert: "clean (insert k K) \<longleftrightarrow> clean K \<and> \<not> (dead_track k \<or> (\<exists>l\<in>K. conflict k l \<or> conflict l k))"
  using no_self_conflict by (auto simp: clean_def)

lemma register_all_table:
  assumes "table_of ps R" "clean (fst ` set ps)" "distinct (map fst (ps @ qs))"
  shows "if clean (fst ` set (ps @ qs)) then \<exists>R'. register_all qs R = Inr R' \<and> table_of (ps @ qs) R'
    else \<exists>e. register_all qs R = Inl (ImportRegistrationError e)"
  using assms
proof (induction qs arbitrary: ps R)
  case (Cons q qs)
  obtain k v where q: "q = (k, v)" by (cases q)
  have fresh: "k \<notin> fst ` set ps" "fst ` set (exact R) = fst ` set ps"
    using Cons.prems by (auto simp: q table_of_def)
  let ?K = "fst ` set ps"
  have sub: "insert k ?K \<subseteq> fst ` set (ps @ q # qs)" by (auto simp: q)
  show ?case
  proof (cases "dead_track k \<or> (\<exists>l\<in>?K. conflict k l \<or> conflict l k)")
    case True
    then have "\<not> clean (fst ` set (ps @ q # qs))" using clean_mono [OF _ sub] clean_insert [of k ?K] by blast
    then show ?thesis using register_step [OF Cons.prems(1) fresh(1), of v] True fresh by (auto simp: q)
  next
    case False
    then obtain R' where R': "register k (R\<lparr>exact := exact R @ [(k, v)]\<rparr>) = Inr R'" "table_of (ps @ [(k, v)]) R'"
      using register_step [OF Cons.prems(1) fresh(1), of v] by (auto simp only: if_False)
    have "clean (fst ` set (ps @ [(k, v)]))" using False Cons.prems(2) clean_insert [of k ?K] by simp
    then show ?thesis using Cons.IH [OF R'(2)] Cons.prems(3) R'(1) fresh by (simp add: q split: if_splits)
  qed
qed (auto split: if_splits)

lemma newImportResolver_table:
  fixes ps :: "(string \<times> 'v) list"
  assumes "distinct (map fst ps)"
  shows "if clean (fst ` set ps) then \<exists>R. newImportResolver ps = Inr R \<and> table_of ps R
    else \<exists>e. newImportResolver ps = Inl (ImportRegistrationError e)"
proof -
  have "table_of ([] :: (string \<times> 'v) list) \<lparr>exact = [], tracks = (\<lambda>_. None), unversioned = (\<lambda>_. None)\<rparr>" "clean (fst ` set ([] :: (string \<times> 'v) list))"
    by (simp_all add: table_of_def knows_def clean_def)
  from register_all_table [OF this, of ps] assms show ?thesis by (simp add: newImportResolver_def split: if_splits)
qed

lemma newImportResolver_tableD: "newImportResolver ps = Inr R \<Longrightarrow> distinct (map fst ps) \<Longrightarrow> table_of ps R"
  using newImportResolver_table [of ps] by (auto split: if_splits)

text \<open>C26. The registration of a record of imports, its keys distinct as an object's are: it succeeds
  exactly if no key is spelled with the dead track \<open>@0\<close> and no key is the track of another key's full
  version, and is a registration error otherwise. What it decides does not depend on the order of the
  keys.\<close>

theorem registration_outcome:
  assumes "distinct (map fst ps)"
  shows "case newImportResolver ps of
     Inr R \<Rightarrow> exact R = ps \<and> (\<forall>k\<in>fst ` set ps. \<not> dead_track k \<and> (\<forall>l\<in>fst ` set ps. \<not> conflict k l))
   | Inl e \<Rightarrow> (\<exists>m. e = ImportRegistrationError m) \<and>
       (\<exists>k\<in>fst ` set ps. dead_track k \<or> (\<exists>l\<in>fst ` set ps. conflict k l))"
proof (cases "clean (fst ` set ps)")
  case True
  then show ?thesis using newImportResolver_table [OF assms] by (auto simp: clean_def table_of_def)
next
  case False
  then obtain e where "newImportResolver ps = Inl (ImportRegistrationError e)"
    using newImportResolver_table [OF assms] by auto
  moreover have "\<exists>k\<in>fst ` set ps. dead_track k \<or> (\<exists>l\<in>fst ` set ps. conflict k l)"
    using False unfolding clean_def by blast
  ultimately show ?thesis by (simp only: sum.case) blast
qed

lemma registration_outcome_witness:
  "\<exists>m. newImportResolver [(''a:b/c@0.2'', 1 :: nat), (''a:b/c@0.2.1'', 2)] = Inl (ImportRegistrationError m)"
proof -
  have k: "conflict ''a:b/c@0.2'' ''a:b/c@0.2.1''" unfolding conflict_def
  proof (intro exI conjI)
    show "asTrackKeySpelling ''a:b/c@0.2'' = Some ''a:b/c@0.2''" by code_simp
    show "trackKey ''a:b/c@0.2.1'' = Some ''a:b/c@0.2''" by code_simp
  qed
  then show ?thesis
    using registration_outcome [of "[(''a:b/c@0.2'', 1 :: nat), (''a:b/c@0.2.1'', 2)]"]
    by (auto split: sum.splits)
qed

section \<open>Resolution\<close>

text \<open>A record for the examples: two versions on one track and a track of its own.\<close>

definition example_imports :: "(string \<times> nat) list" where
  "example_imports = [(''a:b/c@0.2.10'', 1), (''a:b/c@0.2.9'', 2), (''a:b/d@1'', 3)]"

lemma example_registered: "newImportResolver example_imports = Inr (projr (newImportResolver example_imports))"
proof -
  have "\<not> isl (newImportResolver example_imports)" by code_simp
  then show ?thesis by simp
qed

lemma example_distinct: "distinct (map fst example_imports)" by code_simp

text \<open>The two ways that a key is on a track.\<close>

lemma on_track: "asTrackKeySpelling k = Some T \<or> trackKey k = Some T \<longleftrightarrow> (\<exists>c. claim_of k = Some (T, c))"
proof -
  have "asTrackKeySpelling k = None" if "trackKey k = Some T"
    using that by (auto simp: trackKey_def asTrackKeySpelling_def Let_def split: option.splits)
  then show ?thesis by (auto simp: claim_of_def split: option.splits)
qed

lemma resolve_tracked:
  assumes "table_of ps R" "s \<notin> fst ` set ps" "trackKey s = Some T" "tracks R T = Some c" "distinct (map fst ps)"
  shows "\<exists>v. resolve R s = Inr (Some (claim_key c, v)) \<and> (claim_key c, v) \<in> set ps"
proof -
  have "claim_key c \<in> fst ` set ps" using assms(1,4) knowsD(1) by (fastforce simp: table_of_def)
  then obtain v where v: "map_of ps (claim_key c) = Some v" by (metis not_None_eq map_of_eq_None_iff)
  have "map_of ps s = None" using assms(2) by (simp add: map_of_eq_None_iff)
  then show ?thesis
    using assms v map_of_SomeD [OF v] by (auto simp: resolve_def table_of_def trackKey_def Let_def split: option.splits)
qed

text \<open>C24. An import that has no exact registration but whose track some key is registered on is
  served, never refused: by the registration of the track itself or by a full version on the track
  that no other registered full version on it outranks.\<close>

theorem resolves_to_highest:
  assumes "distinct (map fst ps)" "newImportResolver ps = Inr R"
    and "s \<notin> fst ` set ps" "trackKey s = Some T"
    and "l \<in> fst ` set ps" "asTrackKeySpelling l = Some T \<or> trackKey l = Some T"
  shows "\<exists>k v. resolve R s = Inr (Some (k, v)) \<and> (k, v) \<in> set ps \<and>
    (asTrackKeySpelling k = Some T \<or>
     trackKey k = Some T \<and>
     (\<forall>l\<in>fst ` set ps. trackKey l = Some T \<longrightarrow>
       compareSemver (the (parsed_semver (parseInterfaceId l))) (the (parsed_semver (parseInterfaceId k))) \<le> 0))"
proof -
  have t: "table_of ps R" by (rule newImportResolver_tableD [OF assms(2,1)])
  then have n: "knows (fst ` set ps) (tracks R) (unversioned R)" by (simp add: table_of_def)
  obtain d where "claim_of l = Some (T, d)" using assms(6) on_track by blast
  then obtain c where c: "tracks R T = Some c" using knowsD(2) [OF n assms(5)] by blast
  then have ck: "claim_of (claim_key c) = Some (T, c)" using knowsD(1) [OF n] by blast
  obtain v where v: "resolve R s = Inr (Some (claim_key c, v))" "(claim_key c, v) \<in> set ps"
    using resolve_tracked [OF t assms(3,4) c assms(1)] by blast
  have "compareSemver (the (parsed_semver (parseInterfaceId m))) (the (parsed_semver (parseInterfaceId (claim_key c)))) \<le> 0"
    if m: "m \<in> fst ` set ps" "trackKey m = Some T" and full: "trackKey (claim_key c) = Some T" for m
  proof -
    obtain e where e: "claim_of m = Some (T, e)" using m(2) on_track by blast
    have "outranks c e" using knowsD(2) [OF n m(1) e] c by simp
    moreover have "claim_version k = parsed_semver (parseInterfaceId j) \<and> claim_version k \<noteq> None"
      if "claim_of j = Some (T, k)" "trackKey j = Some T" for j k
      using that by (auto simp: claim_of_def trackKey_def asTrackKeySpelling_def Let_def split: option.splits)
    ultimately show ?thesis
      using e ck m(2) full compareSemver_pos by (fastforce simp: outranks_def not_less [symmetric] split: option.splits)
  qed
  moreover have "asTrackKeySpelling (claim_key c) = Some T \<or> trackKey (claim_key c) = Some T"
    using ck on_track by blast
  ultimately show ?thesis using v by blast
qed

lemma resolves_to_highest_witness:
  "\<exists>k v. resolve (projr (newImportResolver example_imports)) ''a:b/c@0.2.6'' = Inr (Some (k, v)) \<and>
    (k, v) \<in> set example_imports \<and>
    (asTrackKeySpelling k = Some ''a:b/c@0.2'' \<or>
     trackKey k = Some ''a:b/c@0.2'' \<and>
     (\<forall>l\<in>fst ` set example_imports. trackKey l = Some ''a:b/c@0.2'' \<longrightarrow>
       compareSemver (the (parsed_semver (parseInterfaceId l))) (the (parsed_semver (parseInterfaceId k))) \<le> 0))"
proof (rule resolves_to_highest [OF example_distinct example_registered])
  show "''a:b/c@0.2.6'' \<notin> fst ` set example_imports" by code_simp
  show "trackKey ''a:b/c@0.2.6'' = Some ''a:b/c@0.2''" by code_simp
  show "''a:b/c@0.2.9'' \<in> fst ` set example_imports" by code_simp
  show "asTrackKeySpelling ''a:b/c@0.2.9'' = Some ''a:b/c@0.2'' \<or> trackKey ''a:b/c@0.2.9'' = Some ''a:b/c@0.2''"
    by code_simp
qed

text \<open>C25. An import is served by its own key, or by the name of its track, or by a full version that is
  compatible with it: of the same interface, both releases, with the same major version, and the same
  minor version where the major is zero. A prerelease and a \<open>0.0.z\<close> version are only served exactly.\<close>

theorem resolution_is_compatible:
  assumes "distinct (map fst ps)" "newImportResolver ps = Inr R" "resolve R s = Inr (Some (k, v))"
  shows "(k, v) \<in> set ps \<and>
    (k = s \<or> trackKey s = Some k \<or>
     (\<exists>a b. parsed_semver (parseInterfaceId s) = Some a \<and> parsed_semver (parseInterfaceId k) = Some b \<and>
        base (parseInterfaceId k) = base (parseInterfaceId s) \<and>
        prerelease a = [] \<and> prerelease b = [] \<and> major a = major b \<and>
        (if major a = 0 then minor a = minor b \<and> minor a > 0 else True)))"
proof -
  have t: "table_of ps R" by (rule newImportResolver_tableD [OF assms(2,1)])
  then have n: "knows (fst ` set ps) (tracks R) (unversioned R)" by (simp add: table_of_def)
  show ?thesis
  proof (cases "map_of ps s")
    case None
    obtain T c where T: "trackKey s = Some T" "tracks R T = Some c" "k = claim_key c" "map_of ps k = Some v"
      using assms(3) t None
      by (auto simp: resolve_def table_of_def trackKey_def Let_def split: option.splits if_splits bind_splits)
    have "claim_of k = Some (T, c)" using knowsD(1) [OF n T(2)] T(3) by simp
    then show ?thesis
    proof (cases rule: claim_of_cases)
      case (full w)
      obtain a where a: "parsed_semver (parseInterfaceId s) = Some a" "trackKeyOf (base (parseInterfaceId s)) a = Some T"
        using T(1) by (auto simp: trackKey_def Let_def split: option.splits)
      then show ?thesis
        using full track_inject [OF a(2) full(4)] map_of_SomeD [OF T(4)] by (auto simp: trackKeyOf_Some has_track_def)
    qed (use T map_of_SomeD in fastforce)
  qed (use assms(3) t map_of_SomeD in \<open>fastforce simp: resolve_def table_of_def\<close>)
qed

lemma resolution_is_compatible_witness: "(''a:b/c@0.2.10'', 1) \<in> set example_imports"
proof -
  have "resolve (projr (newImportResolver example_imports)) ''a:b/c@0.2.6'' = Inr (Some (''a:b/c@0.2.10'', 1))"
    by code_simp
  from resolution_is_compatible [OF example_distinct example_registered this] show ?thesis by (rule conjunct1)
qed

end
