(* ===== verification/Plan_Loader.thy ===== *)
theory Plan_Loader
  imports Complex_Main Cabi_Types
begin

text \<open>
  The loader of translated plans (\<open>runtime/src/plan/loader.ts\<close>, wire types in
  \<open>format.ts\<close>): the shape checks on the parts of a plan that the executor interprets, the
  conversion of wire types to descriptors, the identities of resource tables and the dictionary
  of result tuples. A part that the code takes as \<open>unknown\<close> is a JSON value; a part that it
  reads at its wire type without a check is a value of a datatype. A JSON number is rational.
  Messages are those of the code up to the description of the offending value.
\<close>

section \<open>JSON values\<close>

text \<open>\<open>JUndefined\<close> is the value of an absent field.\<close>

datatype json =
    JUndefined
  | JNull
  | JBool bool
  | JNumber rat
  | JString string
  | JArray "json list"
  | JObject "(string \<times> json) list"

definition members :: "json \<Rightarrow> (string \<times> json) list" where
  "members j = (case j of JObject o' \<Rightarrow> o' | _ \<Rightarrow> [])"

definition field :: "string \<Rightarrow> json \<Rightarrow> json" where
  "field f j = (case map_of (members j) f of None \<Rightarrow> JUndefined | Some v \<Rightarrow> v)"

definition elements :: "json \<Rightarrow> json list" where
  "elements j = (case j of JArray xs \<Rightarrow> xs | _ \<Rightarrow> [])"

definition isArray :: "json \<Rightarrow> bool" where
  "isArray j = (case j of JArray _ \<Rightarrow> True | _ \<Rightarrow> False)"

definition isRecord :: "json \<Rightarrow> bool" where
  "isRecord j = (case j of JObject _ \<Rightarrow> True | _ \<Rightarrow> False)"

definition is_number :: "json \<Rightarrow> bool" where
  "is_number j = (case j of JNumber _ \<Rightarrow> True | _ \<Rightarrow> False)"

definition is_string :: "json \<Rightarrow> bool" where
  "is_string j = (case j of JString _ \<Rightarrow> True | _ \<Rightarrow> False)"

definition is_boolean :: "json \<Rightarrow> bool" where
  "is_boolean j = (case j of JBool _ \<Rightarrow> True | _ \<Rightarrow> False)"

section \<open>Errors\<close>

datatype plan_error = PlanError string

definition pbind :: "plan_error + 'a \<Rightarrow> ('a \<Rightarrow> plan_error + 'b) \<Rightarrow> plan_error + 'b" where
  "pbind r f = (case r of Inl e \<Rightarrow> Inl e | Inr x \<Rightarrow> f x)"

lemma pbind_simps [simp]: "pbind (Inl e) f = Inl e" "pbind (Inr x) f = f x"
  by (simp_all add: pbind_def)

lemma pbind_Inr [simp]: "pbind r f = Inr y \<longleftrightarrow> (\<exists>x. r = Inr x \<and> f x = Inr y)"
  by (cases r) simp_all

lemma pbind_cong [fundef_cong]:
  "r = r' \<Longrightarrow> (\<And>x. r' = Inr x \<Longrightarrow> f x = g x) \<Longrightarrow> pbind r f = pbind r' g"
  by (cases r') simp_all

fun pmap :: "('a \<Rightarrow> plan_error + 'b) \<Rightarrow> 'a list \<Rightarrow> plan_error + 'b list" where
  "pmap f [] = Inr []"
| "pmap f (x # xs) = pbind (f x) (\<lambda>y. pbind (pmap f xs) (\<lambda>ys. Inr (y # ys)))"

lemma pmap_cong [fundef_cong]:
  "xs = ys \<Longrightarrow> (\<And>x. x \<in> set ys \<Longrightarrow> f x = g x) \<Longrightarrow> pmap f xs = pmap g ys"
  by (induction ys arbitrary: xs) auto

lemma pmap_Inr: "pmap f xs = Inr ys \<longleftrightarrow> list_all2 (\<lambda>x y. f x = Inr y) xs ys"
  by (induction xs arbitrary: ys) (auto simp: list_all2_Cons1)

text \<open>A sequence of checks: the first one that fails throws. What a check reads is defined
  whatever the others say, so the later ones may be written as if the earlier had passed.\<close>

type_synonym check = "plan_error + unit"

fun checks :: "check list \<Rightarrow> check" where
  "checks [] = Inr ()"
| "checks (c # cs) = (case c of Inl e \<Rightarrow> Inl e | Inr _ \<Rightarrow> checks cs)"

lemma checks_ok [simp]: "checks cs = Inr () \<longleftrightarrow> (\<forall>c\<in>set cs. c = Inr ())"
  by (induction cs) (auto split: sum.split)

declare checks.simps [simp del]

definition expect :: "bool \<Rightarrow> string \<Rightarrow> string \<Rightarrow> check" where
  "expect cond w what = (if cond then Inr () else Inl (PlanError (w @ '': '' @ what)))"

lemma expect_ok [simp]: "expect c w what = Inr () \<longleftrightarrow> c"
  by (simp add: expect_def)

definition at_index :: "string \<Rightarrow> nat \<Rightarrow> string" where
  "at_index w i = w @ ''['' @ string_of_nat i @ '']''"

text \<open>\<open>forEach\<close> with the place of each element.\<close>

definition check_each :: "(json \<Rightarrow> string \<Rightarrow> check) \<Rightarrow> json list \<Rightarrow> string \<Rightarrow> check" where
  "check_each f xs w = checks (map (\<lambda>i. f (xs ! i) (at_index w i)) [0..<length xs])"

lemma check_each_ok:
  assumes "\<And>x w. x \<in> set xs \<Longrightarrow> f x w = Inr () \<longleftrightarrow> P x" shows "check_each f xs w = Inr () \<longleftrightarrow> list_all P xs"
proof -
  have "f (xs ! i) (at_index w i) = Inr () \<longleftrightarrow> P (xs ! i)" if "i < length xs" for i by (rule assms) (use that in simp)
  then show ?thesis by (auto simp: check_each_def list_all_iff all_set_conv_all_nth)
qed

lemma check_each_cong [fundef_cong]:
  "xs = ys \<Longrightarrow> w = v \<Longrightarrow> (\<And>x u. x \<in> set ys \<Longrightarrow> f x u = g x u) \<Longrightarrow> check_each f xs w = check_each g ys v"
  by (auto simp: check_each_def intro!: arg_cong [where f = checks])

section \<open>Fields of a primitive type\<close>

definition expectNumber :: "json \<Rightarrow> string \<Rightarrow> string \<Rightarrow> check" where
  "expectNumber j f w = expect (is_number (field f j)) w (''.'' @ f @ '' must be a number'')"

definition expectNumberOrNull :: "json \<Rightarrow> string \<Rightarrow> string \<Rightarrow> check" where
  "expectNumberOrNull j f w =
     expect (field f j = JNull \<or> is_number (field f j)) w (''.'' @ f @ '' must be a number or null'')"

definition expectString :: "json \<Rightarrow> string \<Rightarrow> string \<Rightarrow> check" where
  "expectString j f w = expect (is_string (field f j)) w (''.'' @ f @ '' must be a string'')"

definition isSafeInteger :: "rat \<Rightarrow> bool" where
  "isSafeInteger r \<longleftrightarrow> snd (quotient_of r) = 1 \<and> \<bar>r\<bar> \<le> 2 ^ 53 - 1"

definition expectNonNegativeInt :: "json \<Rightarrow> string \<Rightarrow> string \<Rightarrow> check" where
  "expectNonNegativeInt j f w =
     expect (case field f j of JNumber v \<Rightarrow> isSafeInteger v \<and> v \<ge> 0 | _ \<Rightarrow> False) w
       (''.'' @ f @ '' must be a non-negative safe integer'')"

definition expectBoolean :: "json \<Rightarrow> string \<Rightarrow> string \<Rightarrow> check" where
  "expectBoolean j f w = expect (is_boolean (field f j)) w (''.'' @ f @ '' must be a boolean'')"

definition expectArray :: "json \<Rightarrow> string \<Rightarrow> string \<Rightarrow> check" where
  "expectArray j f w = expect (isArray (field f j)) w (''.'' @ f @ '' must be an array'')"

definition expect_record :: "json \<Rightarrow> string \<Rightarrow> check" where
  "expect_record j w = expect (isRecord j) w ''must be an object''"

definition CORE_TYPE_LANES :: "string list" where
  "CORE_TYPE_LANES = [''i32'', ''i64'', ''f32'', ''f64'']"

definition one_of_strings :: "string list \<Rightarrow> json \<Rightarrow> bool" where
  "one_of_strings ss j = (case j of JString s \<Rightarrow> s \<in> set ss | _ \<Rightarrow> False)"

text \<open>The tag of a \<open>switch\<close>, which a check has found to be a string.\<close>

definition tag_of :: "string \<Rightarrow> json \<Rightarrow> string" where
  "tag_of f j = (case field f j of JString s \<Rightarrow> s | _ \<Rightarrow> [])"

section \<open>Shape checks\<close>

definition validateExportItem :: "json \<Rightarrow> string \<Rightarrow> check" where
  "validateExportItem item w = checks
     [expect_record item w, expectString item ''name'' w,
      expect (one_of_strings [''func'', ''table'', ''memory'', ''global'', ''tag'', ''unknown''] (field ''space'' item)) w
        ''.space must be one of func/table/memory/global/tag/unknown'']"

definition validateCoreDef :: "json \<Rightarrow> string \<Rightarrow> check" where
  "validateCoreDef def w = checks
     [expect_record def w, expectString def ''kind'' w,
      let kind = tag_of ''kind'' def in
      if kind = ''export'' then checks
        [expectNumber def ''instance'' w, expect (isRecord (field ''item'' def)) w ''.item must be an object'',
         validateExportItem (field ''item'' def) (w @ ''.item'')]
      else if kind = ''instance-flags'' then expectNumber def ''instance'' w
      else if kind = ''trampoline'' then expectNumber def ''index'' w
      else if kind = ''unsafe-intrinsic'' then expectString def ''intrinsic'' w
      else Inl (PlanError (w @ '': unknown CoreDef kind''))]"

definition validateCoreExport :: "json \<Rightarrow> string \<Rightarrow> check" where
  "validateCoreExport e w = checks
     [expect_record e w, expectNumber e ''instance'' w, expect (isRecord (field ''item'' e)) w ''.item must be an object'',
      validateExportItem (field ''item'' e) (w @ ''.item'')]"

definition validateInitializer :: "json \<Rightarrow> string \<Rightarrow> check" where
  "validateInitializer i w = checks
     [expect_record i w, expectString i ''op'' w,
      let op = tag_of ''op'' i in
      if op = ''instantiate-module'' then checks
        [expectNumber i ''module'' w, expectNumberOrNull i ''instance'' w, expectArray i ''args'' w,
         check_each validateCoreDef (elements (field ''args'' i)) (w @ ''.args'')]
      else if op = ''lower-import'' then checks [expectNumber i ''index'' w, expectNumber i ''import'' w]
      else if op = ''extract-memory'' then checks
        [expectNumber i ''index'' w, validateCoreExport (field ''export'' i) (w @ ''.export'')]
      else if op \<in> {''extract-realloc'', ''extract-callback'', ''extract-post-return''} then checks
        [expectNumber i ''index'' w, validateCoreDef (field ''def'' i) (w @ ''.def'')]
      else if op = ''extract-table'' then checks
        [expectNumber i ''index'' w, validateCoreExport (field ''export'' i) (w @ ''.export'')]
      else if op = ''resource'' then checks
        [expectNumber i ''index'' w,
         expect (one_of_strings CORE_TYPE_LANES (field ''rep'' i)) w ''.rep must be one of i32/i64/f32/f64'',
         expect (field ''dtor'' i = JNull \<or> isRecord (field ''dtor'' i)) w ''.dtor must be a CoreDef object or null'',
         if field ''dtor'' i \<noteq> JNull then validateCoreDef (field ''dtor'' i) (w @ ''.dtor'') else Inr (),
         expectNumber i ''instance'' w]
      else Inl (PlanError (w @ '': unknown initializer op''))]"

definition suspending_kinds :: "string list" where
  "suspending_kinds = [''thread-suspend'', ''thread-yield'', ''thread-suspend-then-resume'',
     ''thread-yield-then-resume'', ''thread-suspend-then-promote'', ''thread-yield-then-promote'']"

definition not_cancellable :: "json \<Rightarrow> string \<Rightarrow> check" where
  "not_cancellable j w =
     expect (field ''cancellable'' j = JBool False) w ''.cancellable=true is unsupported by this runtime''"

definition validateTrampoline :: "json \<Rightarrow> string \<Rightarrow> check" where
  "validateTrampoline t w = checks
     [expect_record t w, expectString t ''kind'' w, expectNumber t ''index'' w,
      let kind = tag_of ''kind'' t in
      if kind \<in> set suspending_kinds then checks
        [expectNumber t ''instance'' w, expectBoolean t ''cancellable'' w, not_cancellable t w]
      else if kind = ''lower-import'' then checks
        [expectNumber t ''lowered'' w, expectNumber t ''options'' w, expectNumber t ''type'' w]
      else if kind = ''trap'' then expectNonNegativeInt t ''code'' w
      else if kind \<in> {''enter-sync-call'', ''exit-sync-call''} then Inr ()
      else if kind = ''task-return'' then checks
        [expectNumber t ''instance'' w, expectNumber t ''results'' w, expectNumberOrNull t ''resultType'' w,
         expectNumber t ''options'' w]
      else if kind \<in> {''resource-drop'', ''resource-new'', ''resource-rep''} then checks
        [expectNumber t ''instance'' w, expectNumber t ''resource'' w]
      else Inr ()]"

definition validate_lane :: "json \<Rightarrow> string \<Rightarrow> check" where
  "validate_lane lane w = expect (one_of_strings CORE_TYPE_LANES lane) w ''must be one of i32/i64/f32/f64''"

definition validateCanonicalOptions :: "json \<Rightarrow> string \<Rightarrow> check" where
  "validateCanonicalOptions co w =
     (let ct = field ''coreType'' co; wc = w @ ''.coreType'' in checks
     [expect_record co w, expectNumber co ''instance'' w,
      expect (one_of_strings [''utf8'', ''utf16'', ''latin1+utf16''] (field ''stringEncoding'' co)) w
        ''.stringEncoding must be one of utf8/utf16/latin1+utf16'',
      expectNumberOrNull co ''memory'' w, expectNumberOrNull co ''realloc'' w,
      expectNumberOrNull co ''postReturn'' w, expectNumberOrNull co ''callback'' w,
      expectBoolean co ''async'' w, expectBoolean co ''cancellable'' w, not_cancellable co w,
      expect (isRecord ct) w ''.coreType must be an object'',
      expectArray ct ''params'' wc, expectArray ct ''results'' wc,
      check_each validate_lane (elements (field ''params'' ct)) (wc @ ''.params''),
      check_each validate_lane (elements (field ''results'' ct)) (wc @ ''.results'')])"

definition validateIntrinsicEntry :: "json \<Rightarrow> string \<Rightarrow> check" where
  "validateIntrinsicEntry e w = checks
     [expect_record e w, expectString e ''module'' w, expectString e ''name'' w, expectString e ''category'' w,
      expect (isRecord (field ''def'' e)) w ''.def must be an object'', validateCoreDef (field ''def'' e) (w @ ''.def'')]"

definition validateModule :: "json \<Rightarrow> string \<Rightarrow> check" where
  "validateModule m w = checks
     [expect_record m w, expectString m ''kind'' w,
      let kind = tag_of ''kind'' m in
      if kind = ''embedded'' then checks [expectNonNegativeInt m ''offset'' w, expectNonNegativeInt m ''len'' w]
      else if kind = ''adapter'' then checks
        [expectString m ''file'' w, expectNonNegativeInt m ''len'' w, expectArray m ''intrinsics'' w,
         check_each validateIntrinsicEntry (elements (field ''intrinsics'' m)) (w @ ''.intrinsics'')]
      else Inl (PlanError (w @ '': unknown module kind''))]"

definition validateImport :: "json \<Rightarrow> string \<Rightarrow> check" where
  "validateImport i w = checks
     [expect_record i w, expectString i ''name'' w, expectArray i ''path'' w,
      check_each (\<lambda>p v. expect (is_string p) v ''must be a string'') (elements (field ''path'' i)) (w @ ''.path''),
      expectString i ''kind'' w,
      if field ''type'' i \<noteq> JUndefined then expectNumber i ''type'' w else Inr ()]"

definition validateTypeExport :: "json \<Rightarrow> string \<Rightarrow> check" where
  "validateTypeExport t w = checks
     [expect_record t w, expectString t ''kind'' w,
      let kind = tag_of ''kind'' t in
      if kind = ''resource'' then expectNumber t ''resource'' w
      else if kind = ''value'' then expectNumber t ''type'' w
      else Inl (PlanError (w @ '': unknown type-export kind''))]"

lemma size_field: "x \<in> set (elements (field f j)) \<Longrightarrow> size x < size j"
proof -
  have "size v < size (JObject o')" if "map_of o' f = Some v" for v o'
    using map_of_SomeD [OF that] by (induction o') auto
  moreover have "size x < size (JArray xs)" if "x \<in> set xs" for xs
    using that by (induction xs) auto
  moreover assume "x \<in> set (elements (field f j))"
  ultimately show ?thesis
    by (fastforce simp: elements_def field_def members_def split: json.splits option.splits)
qed

function validateExport :: "json \<Rightarrow> string \<Rightarrow> check" where
  "validateExport e w = checks
     [expect_record e w, expectString e ''kind'' w,
      let kind = tag_of ''kind'' e in
      if kind = ''lifted-func'' then checks
        [expectString e ''name'' w, expect (isRecord (field ''coreDef'' e)) w ''.coreDef must be an object'',
         validateCoreDef (field ''coreDef'' e) (w @ ''.coreDef''), expectNumber e ''options'' w, expectNumber e ''type'' w]
      else if kind = ''instance'' then checks
        [expectString e ''name'' w, expectArray e ''exports'' w,
         check_each validateExport (elements (field ''exports'' e)) (w @ ''.exports'')]
      else if kind = ''type'' then checks
        [expectString e ''name'' w, expect (isRecord (field ''type'' e)) w ''.type must be an object'',
         validateTypeExport (field ''type'' e) (w @ ''.type'')]
      else if kind = ''module'' then checks [expectString e ''name'' w, expectNumber e ''module'' w]
      else Inl (PlanError (w @ '': unknown export kind''))]"
  by pat_completeness auto

termination
  by (relation "measure (\<lambda>(e, w). size e)") (simp_all add: size_field)

declare validateExport.simps [simp del]

section \<open>Types\<close>

text \<open>\<open>WUnknown\<close> is a value type of a kind that the code does not know.\<close>

datatype wire_valtype =
    WPrim prim
  | WErrorContext
  | WList wire_valtype "nat option"
  | WRecord "(string \<times> wire_valtype) list"
  | WTuple "wire_valtype list"
  | WVariant "(string \<times> wire_valtype option) list"
  | WEnum "string list"
  | WOption wire_valtype
  | WResult "wire_valtype option" "wire_valtype option"
  | WMap wire_valtype wire_valtype
  | WFlags "string list"
  | WOwn rat
  | WBorrow rat
  | WStream "wire_valtype option"
  | WFuture "wire_valtype option"
  | WUnknown string

datatype wire_type_decl =
    WFunc "(string \<times> wire_valtype) list" "wire_valtype list" bool
  | WValue wire_valtype

datatype loaded_type =
    LoadedFunc func_type "string list"
  | LoadedValue valtype

text \<open>\<open>xs[r]\<close> for a number \<open>r\<close>.\<close>

definition js_index :: "'a list \<Rightarrow> rat \<Rightarrow> 'a option" where
  "js_index xs r = (case quotient_of r of (n, d) \<Rightarrow>
     if d = 1 \<and> 0 \<le> n \<and> nat n < length xs then Some (xs ! nat n) else None)"

definition resource_at :: "rtable list \<Rightarrow> rat \<Rightarrow> string \<Rightarrow> plan_error + rtable" where
  "resource_at tokens r w = (case js_index tokens r of
     None \<Rightarrow> Inl (PlanError (w @ '': reference to a resource table that the plan does not have''))
   | Some rt \<Rightarrow> Inr rt)"

fun pmap_option :: "('a \<Rightarrow> plan_error + 'b) \<Rightarrow> 'a option \<Rightarrow> plan_error + 'b option" where
  "pmap_option f None = Inr None"
| "pmap_option f (Some x) = pbind (f x) (\<lambda>y. Inr (Some y))"

lemma pmap_option_cong [fundef_cong]:
  "x = y \<Longrightarrow> (\<And>a. y = Some a \<Longrightarrow> f a = g a) \<Longrightarrow> pmap_option f x = pmap_option g y"
  by (cases y) auto

lemma pmap_option_Inr: "pmap_option f x = Inr y \<longleftrightarrow> rel_option (\<lambda>a b. f a = Inr b) x y"
  by (cases x; cases y) auto

lemma wire_size [termination_simp]:
  "(l, t) \<in> set fs \<Longrightarrow> size t < Suc (size_list (size_prod (\<lambda>_. 0) size) fs)"
  "(l, Some t) \<in> set cs \<Longrightarrow> size t < Suc (size_list (size_prod (\<lambda>_. 0) (size_option size)) cs)"
  "i < length es \<Longrightarrow> size (es ! i) < Suc (size_list size es)"
proof -
  show "(l, t) \<in> set fs \<Longrightarrow> size t < Suc (size_list (size_prod (\<lambda>_. 0) size) fs)"
    by (induction fs) auto
  show "(l, Some t) \<in> set cs \<Longrightarrow> size t < Suc (size_list (size_prod (\<lambda>_. 0) (size_option size)) cs)"
    by (induction cs) auto
  show "i < length es \<Longrightarrow> size (es ! i) < Suc (size_list size es)"
    by (simp add: less_Suc_eq_le size_list_estimation' [OF nth_mem order_refl])
qed

fun loadValType :: "wire_valtype \<Rightarrow> rtable list \<Rightarrow> string \<Rightarrow> plan_error + valtype" where
  "loadValType (WPrim p) tokens w = Inr (Prim p)"
| "loadValType WErrorContext tokens w = Inr ErrorContextT"
| "loadValType (WList e n) tokens w = pbind (loadValType e tokens (w @ ''.element'')) (\<lambda>t. Inr (ListT t n))"
| "loadValType (WRecord fs) tokens w =
     pbind (pmap (\<lambda>(l, f). pbind (loadValType f tokens (w @ ''.'' @ l)) (\<lambda>t. Inr (l, t))) fs) (\<lambda>ts. Inr (RecordT ts))"
| "loadValType (WTuple es) tokens w =
     pbind (pmap (\<lambda>i. loadValType (es ! i) tokens (at_index w i)) [0..<length es]) (\<lambda>ts. Inr (TupleT ts))"
| "loadValType (WVariant cs) tokens w =
     pbind (pmap (\<lambda>(l, c). pbind (pmap_option (\<lambda>t. loadValType t tokens (w @ ''.'' @ l)) c) (\<lambda>t. Inr (l, t))) cs)
       (\<lambda>ts. Inr (VariantT ts))"
| "loadValType (WEnum ls) tokens w = Inr (EnumT ls)"
| "loadValType (WOption e) tokens w = pbind (loadValType e tokens (w @ ''.some'')) (\<lambda>t. Inr (OptionT t))"
| "loadValType (WResult ok er) tokens w =
     pbind (pmap_option (\<lambda>t. loadValType t tokens (w @ ''.ok'')) ok) (\<lambda>a.
     pbind (pmap_option (\<lambda>t. loadValType t tokens (w @ ''.err'')) er) (\<lambda>b. Inr (ResultT a b)))"
| "loadValType (WMap k v) tokens w =
     pbind (loadValType k tokens (w @ ''.key'')) (\<lambda>a.
     pbind (loadValType v tokens (w @ ''.value'')) (\<lambda>b. Inr (MapT a b)))"
| "loadValType (WFlags ls) tokens w = Inr (FlagsT ls)"
| "loadValType (WOwn r) tokens w = pbind (resource_at tokens r w) (\<lambda>rt. Inr (OwnT rt))"
| "loadValType (WBorrow r) tokens w = pbind (resource_at tokens r w) (\<lambda>rt. Inr (BorrowT rt))"
| "loadValType (WStream e) tokens w =
     pbind (pmap_option (\<lambda>t. loadValType t tokens (w @ ''.element'')) e) (\<lambda>a. Inr (StreamT a))"
| "loadValType (WFuture e) tokens w =
     pbind (pmap_option (\<lambda>t. loadValType t tokens (w @ ''.element'')) e) (\<lambda>a. Inr (FutureT a))"
| "loadValType (WUnknown k) tokens w = Inl (PlanError (w @ '': unknown ValType kind''))"

fun loadTypeDecl :: "wire_type_decl \<Rightarrow> rtable list \<Rightarrow> string \<Rightarrow> plan_error + loaded_type" where
  "loadTypeDecl (WFunc ps rs a) tokens w =
     pbind (pmap (\<lambda>(l, t). loadValType t tokens (w @ ''.params.'' @ l)) ps) (\<lambda>params.
     pbind (pmap (\<lambda>i. loadValType (rs ! i) tokens (at_index (w @ ''.results'') i)) [0..<length rs]) (\<lambda>results.
     Inr (LoadedFunc \<lparr>ft_params = params, ft_results = results, ft_async = a\<rparr> (map fst ps))))"
| "loadTypeDecl (WValue t) tokens w = pbind (loadValType t tokens w) (\<lambda>t. Inr (LoadedValue t))"

section \<open>Plans\<close>

datatype resource_table =
    Concrete (rt_index: rat) rat
  | Abstract rat

text \<open>A field that the code requires to be an array is \<open>None\<close> when it is not one.\<close>

record wire_plan =
  wp_formatVersion :: json
  wp_modules :: json
  wp_initializers :: json
  wp_trampolines :: json
  wp_canonicalOptions :: json
  wp_types :: "wire_type_decl list option"
  wp_resourceTables :: "resource_table list option"
  wp_streamTables :: "(wire_valtype option \<times> rat) list option"
  wp_futureTables :: "(wire_valtype option \<times> rat) list option"
  wp_errorContextTables :: json
  wp_importedResources :: "json list option"
  wp_imports :: json
  wp_exports :: json

record loaded_plan =
  lp_types :: "loaded_type list"
  lp_resourceTokens :: "rtable list"
  lp_numImportedResources :: nat
  lp_streamElems :: "valtype option list"
  lp_futureElems :: "valtype option list"
  lp_streamTableInstances :: "rat list"
  lp_futureTableInstances :: "rat list"
  lp_errorContextTableInstances :: "json list"
  lp_resultTupleTypes :: "rat \<Rightarrow> rat option"

definition required_arrays :: "wire_plan \<Rightarrow> check" where
  "required_arrays p = checks (map (\<lambda>(f, ok). if ok then Inr () else Inl (PlanError (''plan.'' @ f @ '' missing or not an array'')))
     [(''modules'', isArray (wp_modules p)), (''initializers'', isArray (wp_initializers p)),
      (''trampolines'', isArray (wp_trampolines p)), (''canonicalOptions'', isArray (wp_canonicalOptions p)),
      (''types'', wp_types p \<noteq> None), (''resourceTables'', wp_resourceTables p \<noteq> None),
      (''streamTables'', wp_streamTables p \<noteq> None), (''futureTables'', wp_futureTables p \<noteq> None),
      (''errorContextTables'', isArray (wp_errorContextTables p)), (''imports'', isArray (wp_imports p)),
      (''exports'', isArray (wp_exports p))])"

definition validate_error_context_table :: "json \<Rightarrow> string \<Rightarrow> check" where
  "validate_error_context_table t w = checks [expect_record t w, expectNumber t ''instance'' w]"

definition validate_sections :: "wire_plan \<Rightarrow> check" where
  "validate_sections p = checks
     [check_each validateInitializer (elements (wp_initializers p)) ''initializers'',
      check_each validateTrampoline (elements (wp_trampolines p)) ''trampolines'',
      check_each validateCanonicalOptions (elements (wp_canonicalOptions p)) ''canonicalOptions'',
      check_each validate_error_context_table (elements (wp_errorContextTables p)) ''errorContextTables'',
      check_each validateModule (elements (wp_modules p)) ''modules'',
      check_each validateImport (elements (wp_imports p)) ''imports'',
      check_each validateExport (elements (wp_exports p)) ''exports'']"

definition validate_imported_resource :: "nat \<Rightarrow> json \<Rightarrow> string \<Rightarrow> check" where
  "validate_imported_resource n ir w =
     (case field ''import'' ir of
        JNumber r \<Rightarrow>
          if r < 0 \<or> r \<ge> of_nat n then Inl (PlanError (w @ ''.import is not a valid index into plan.imports'')) else Inr ()
      | _ \<Rightarrow> Inl (PlanError (w @ ''.import is not a valid index into plan.imports'')))"

text \<open>The tokens of the tables, with the next free identity and \<open>tokenByResource\<close>. The identity of a
  \<open>ResourceTypeInfo\<close> is that of the table that was the first to name it.\<close>

fun resource_tokens :: "nat \<Rightarrow> (rat \<Rightarrow> nat option) \<Rightarrow> resource_table list \<Rightarrow> rtable list" where
  "resource_tokens n m [] = []"
| "resource_tokens n m (Abstract i # ts) = RTable n n # resource_tokens (n + 1) m ts"
| "resource_tokens n m (Concrete r i # ts) =
     (case m r of
        Some k \<Rightarrow> RTable n k # resource_tokens (n + 1) m ts
      | None \<Rightarrow> RTable n n # resource_tokens (n + 1) (m(r \<mapsto> n)) ts)"

fun result_tuples :: "nat \<Rightarrow> nat \<Rightarrow> (rat \<Rightarrow> rat option) \<Rightarrow> json list \<Rightarrow> plan_error + (rat \<Rightarrow> rat option)" where
  "result_tuples i n m [] = Inr m"
| "result_tuples i n m (t # ts) =
     (if tag_of ''kind'' t \<noteq> ''task-return'' then result_tuples (i + 1) n m ts
      else case (field ''resultType'' t, field ''results'' t) of
        (JNumber r, JNumber k) \<Rightarrow>
          if r < 0 \<or> r \<ge> of_nat n
          then Inl (PlanError (at_index ''trampolines'' i @ ''.resultType is not a valid index into plan.types''))
          else if m k \<noteq> None \<and> m k \<noteq> Some r
          then Inl (PlanError (at_index ''trampolines'' i @ '': task-return tuple maps to two types''))
          else result_tuples (i + 1) n (m(k \<mapsto> r)) ts
      | _ \<Rightarrow> result_tuples (i + 1) n m ts)"

definition table_elems :: "(wire_valtype option \<times> rat) list \<Rightarrow> rtable list \<Rightarrow> string \<Rightarrow> plan_error + valtype option list" where
  "table_elems ts tokens what =
     pmap (\<lambda>i. pmap_option (\<lambda>t. loadValType t tokens (at_index what i @ ''.element'')) (fst (ts ! i))) [0..<length ts]"

definition loadPlan :: "nat \<Rightarrow> wire_plan \<Rightarrow> plan_error + loaded_plan" where
  "loadPlan next p =
     (if wp_formatVersion p \<noteq> JNumber 6 then Inl (PlanError ''unsupported plan formatVersion'')
      else
        pbind (required_arrays p) (\<lambda>_.
        pbind (validate_sections p) (\<lambda>_.
        let importedResources = (case wp_importedResources p of None \<Rightarrow> [] | Some rs \<Rightarrow> rs);
            tokens = resource_tokens next (\<lambda>_. None) (the (wp_resourceTables p));
            decls = the (wp_types p) in
        pbind (check_each (validate_imported_resource (length (elements (wp_imports p)))) importedResources ''importedResources'') (\<lambda>_.
        pbind (pmap (\<lambda>i. loadTypeDecl (decls ! i) tokens (at_index ''types'' i)) [0..<length decls]) (\<lambda>types.
        pbind (result_tuples 0 (length decls) (\<lambda>_. None) (elements (wp_trampolines p))) (\<lambda>tuples.
        pbind (table_elems (the (wp_streamTables p)) tokens ''streamTables'') (\<lambda>streams.
        pbind (table_elems (the (wp_futureTables p)) tokens ''futureTables'') (\<lambda>futures.
        Inr \<lparr>lp_types = types, lp_resourceTokens = tokens, lp_numImportedResources = length importedResources,
          lp_streamElems = streams, lp_futureElems = futures,
          lp_streamTableInstances = map snd (the (wp_streamTables p)),
          lp_futureTableInstances = map snd (the (wp_futureTables p)),
          lp_errorContextTableInstances = map (field ''instance'') (elements (wp_errorContextTables p)),
          lp_resultTupleTypes = tuples\<rparr>))))))))"

definition resourceIndexOfDefined :: "loaded_plan \<Rightarrow> nat \<Rightarrow> nat" where
  "resourceIndexOfDefined plan definedIndex = lp_numImportedResources plan + definedIndex"

end
