(* ===== verification/Plan_Props.thy ===== *)
theory Plan_Props
  imports Plan_Loader
begin

text \<open>
  What a loaded plan satisfies. The wire types of \<open>runtime/src/plan/format.ts\<close> are schemas
  here, values of a small language with an interpretation as predicates on JSON; the shape
  checks of the loader accept exactly the values of those types, up to the few places where the
  loader is narrower or wider by intent. The tokens of resource tables
  are fresh and share an origin exactly when the tables name one resource; the dictionary of
  result tuples has the type that every \<open>task-return\<close> trampoline declares.
\<close>

section \<open>Schemas\<close>

datatype schema =
    SNumber | SString | SBoolean | SIndex | SArrayAny
  | SNull | SAbsent | SFalse
  | SWord "string list"
  | SOther "string list"
  | SUnion "schema list"
  | SArray schema
  | SObject "(string \<times> schema) list"

fun conforms :: "schema \<Rightarrow> json \<Rightarrow> bool" where
  "conforms SNumber j \<longleftrightarrow> is_number j"
| "conforms SString j \<longleftrightarrow> is_string j"
| "conforms SBoolean j \<longleftrightarrow> is_boolean j"
| "conforms SIndex j \<longleftrightarrow> (case j of JNumber v \<Rightarrow> isSafeInteger v \<and> v \<ge> 0 | _ \<Rightarrow> False)"
| "conforms SArrayAny j \<longleftrightarrow> isArray j"
| "conforms SNull j \<longleftrightarrow> j = JNull"
| "conforms SAbsent j \<longleftrightarrow> j = JUndefined"
| "conforms SFalse j \<longleftrightarrow> j = JBool False"
| "conforms (SWord ss) j \<longleftrightarrow> one_of_strings ss j"
| "conforms (SOther ss) j \<longleftrightarrow> is_string j \<and> \<not> one_of_strings ss j"
| "conforms (SUnion ss) j \<longleftrightarrow> (\<exists>s\<in>set ss. conforms s j)"
| "conforms (SArray s) j \<longleftrightarrow> isArray j \<and> list_all (conforms s) (elements j)"
| "conforms (SObject fs) j \<longleftrightarrow> isRecord j \<and> (\<forall>f\<in>set fs. conforms (snd f) (field (fst f) j))"

definition nullable :: "schema \<Rightarrow> schema" where
  "nullable s = SUnion [SNull, s]"

text \<open>An arm of a tagged union.\<close>

definition arm :: "string \<Rightarrow> string list \<Rightarrow> (string \<times> schema) list \<Rightarrow> schema" where
  "arm tag ks fs = SObject ((tag, SWord ks) # fs)"

definition wire_export_item :: schema where
  "wire_export_item = SObject [(''name'', SString), (''space'', SWord [''func'', ''table'', ''memory'', ''global'', ''tag'', ''unknown''])]"

definition wire_core_def :: schema where
  "wire_core_def = SUnion
     [arm ''kind'' [''export''] [(''instance'', SNumber), (''item'', wire_export_item)],
      arm ''kind'' [''instance-flags''] [(''instance'', SNumber)],
      arm ''kind'' [''trampoline''] [(''index'', SNumber)],
      arm ''kind'' [''unsafe-intrinsic''] [(''intrinsic'', SString)]]"

definition wire_core_export :: schema where
  "wire_core_export = SObject [(''instance'', SNumber), (''item'', wire_export_item)]"

definition wire_initializer :: schema where
  "wire_initializer = SUnion
     [arm ''op'' [''instantiate-module'']
        [(''module'', SNumber), (''instance'', nullable SNumber), (''args'', SArray wire_core_def)],
      arm ''op'' [''lower-import''] [(''index'', SNumber), (''import'', SNumber)],
      arm ''op'' [''extract-memory''] [(''index'', SNumber), (''export'', wire_core_export)],
      arm ''op'' [''extract-realloc'', ''extract-callback'', ''extract-post-return'']
        [(''index'', SNumber), (''def'', wire_core_def)],
      arm ''op'' [''extract-table''] [(''index'', SNumber), (''export'', wire_core_export)],
      arm ''op'' [''resource'']
        [(''index'', SNumber), (''rep'', SWord [''i32'', ''i64'', ''f32'', ''f64'']), (''dtor'', nullable wire_core_def),
         (''instance'', SNumber)]]"

text \<open>The last arm is that of the kinds which only the factory of intrinsics interprets.\<close>

definition precise_kinds :: "string list" where
  "precise_kinds = [''lower-import'', ''trap'', ''enter-sync-call'', ''exit-sync-call'', ''task-return'',
     ''resource-drop'', ''resource-new'', ''resource-rep''] @ suspending_kinds"

definition wire_trampoline :: schema where
  "wire_trampoline = SUnion
     [arm ''kind'' [''lower-import'']
        [(''index'', SNumber), (''lowered'', SNumber), (''options'', SNumber), (''type'', SNumber)],
      arm ''kind'' [''trap''] [(''index'', SNumber), (''code'', SIndex)],
      arm ''kind'' suspending_kinds [(''index'', SNumber), (''instance'', SNumber), (''cancellable'', SFalse)],
      arm ''kind'' [''enter-sync-call'', ''exit-sync-call''] [(''index'', SNumber)],
      arm ''kind'' [''task-return'']
        [(''index'', SNumber), (''instance'', SNumber), (''results'', SNumber), (''resultType'', nullable SNumber),
         (''options'', SNumber)],
      arm ''kind'' [''resource-drop'', ''resource-new'', ''resource-rep'']
        [(''index'', SNumber), (''instance'', SNumber), (''resource'', SNumber)],
      SObject [(''kind'', SOther precise_kinds), (''index'', SNumber)]]"

definition wire_canonical_options :: schema where
  "wire_canonical_options =
     (let lanes = SArray (SWord [''i32'', ''i64'', ''f32'', ''f64'']) in SObject
     [(''instance'', SNumber), (''stringEncoding'', SWord [''utf8'', ''utf16'', ''latin1+utf16'']),
      (''memory'', nullable SNumber), (''realloc'', nullable SNumber), (''postReturn'', nullable SNumber),
      (''callback'', nullable SNumber), (''async'', SBoolean), (''cancellable'', SFalse),
      (''coreType'', SObject [(''params'', lanes), (''results'', lanes)])])"

definition wire_intrinsic_entry :: schema where
  "wire_intrinsic_entry =
     SObject [(''module'', SString), (''name'', SString), (''category'', SString), (''def'', wire_core_def)]"

definition wire_module :: schema where
  "wire_module = SUnion
     [arm ''kind'' [''embedded''] [(''offset'', SIndex), (''len'', SIndex)],
      arm ''kind'' [''adapter''] [(''file'', SString), (''len'', SIndex), (''intrinsics'', SArray wire_intrinsic_entry)]]"

definition wire_import :: schema where
  "wire_import = SObject
     [(''name'', SString), (''path'', SArray SString), (''kind'', SString), (''type'', SUnion [SAbsent, SNumber])]"

definition wire_error_context_table :: schema where
  "wire_error_context_table = SObject [(''instance'', SNumber)]"

definition wire_type_export :: schema where
  "wire_type_export = SUnion
     [arm ''kind'' [''resource''] [(''resource'', SNumber)], arm ''kind'' [''value''] [(''type'', SNumber)]]"

text \<open>An export that is no instance, and the recursive type of exports.\<close>

definition wire_leaf_export :: schema where
  "wire_leaf_export = SUnion
     [arm ''kind'' [''lifted-func'']
        [(''name'', SString), (''coreDef'', wire_core_def), (''options'', SNumber), (''type'', SNumber)],
      arm ''kind'' [''type''] [(''name'', SString), (''type'', wire_type_export)],
      arm ''kind'' [''module''] [(''name'', SString), (''module'', SNumber)]]"

inductive wire_export :: "json \<Rightarrow> bool" where
  leaf: "conforms wire_leaf_export e \<Longrightarrow> wire_export e"
| "instance": "conforms (arm ''kind'' [''instance''] [(''name'', SString), (''exports'', SArrayAny)]) e \<Longrightarrow>
    \<forall>x\<in>set (elements (field ''exports'' e)). wire_export x \<Longrightarrow> wire_export e"

inductive_simps wire_export_unfold: "wire_export e"

section \<open>The checks accept the wire types\<close>

text \<open>A tag that a check has found to be a string.\<close>

lemma is_string_tag: "is_string (field f j) \<Longrightarrow> field f j = JString (tag_of f j)"
  by (auto simp: is_string_def tag_of_def split: json.splits)

lemma word_tag: "one_of_strings ss (field f j) \<longleftrightarrow> is_string (field f j) \<and> tag_of f j \<in> set ss"
  by (auto simp: one_of_strings_def is_string_def tag_of_def split: json.splits)

lemma sub_record: "conforms wire_core_def j \<Longrightarrow> isRecord j" "conforms wire_export_item j \<Longrightarrow> isRecord j"
  "conforms wire_core_export j \<Longrightarrow> isRecord j" "conforms wire_type_export j \<Longrightarrow> isRecord j"
  by (auto simp: wire_core_def_def wire_export_item_def wire_core_export_def wire_type_export_def arm_def)

lemmas reading = expect_record_def expectNumber_def expectNumberOrNull_def expectString_def expectNonNegativeInt_def
  expectBoolean_def expectArray_def not_cancellable_def

lemma validateExportItem_ok [simp]: "validateExportItem j w = Inr () \<longleftrightarrow> conforms wire_export_item j"
  by (auto simp: validateExportItem_def wire_export_item_def reading)

lemma validateCoreDef_ok [simp]: "validateCoreDef j w = Inr () \<longleftrightarrow> conforms wire_core_def j"
  using sub_record(2) by (auto simp: validateCoreDef_def wire_core_def_def arm_def word_tag reading Let_def)

lemma validateCoreExport_ok [simp]: "validateCoreExport j w = Inr () \<longleftrightarrow> conforms wire_core_export j"
  using sub_record(2) by (auto simp: validateCoreExport_def wire_core_export_def reading)

lemma check_each_conforms [simp]:
  assumes "\<And>x w. f x w = Inr () \<longleftrightarrow> P x" shows "check_each f xs w = Inr () \<longleftrightarrow> list_all P xs"
  by (rule check_each_ok) (rule assms)

lemma validateInitializer_ok [simp]: "validateInitializer j w = Inr () \<longleftrightarrow> conforms wire_initializer j"
proof -
  have dtor: "(v = JNull \<or> isRecord v) \<and> (v \<noteq> JNull \<longrightarrow> conforms wire_core_def v) \<longleftrightarrow> v = JNull \<or> conforms wire_core_def v" for v
    using sub_record(1) by auto
  show ?thesis
    using dtor [of "field ''dtor'' j"]
    by (auto simp: validateInitializer_def wire_initializer_def arm_def word_tag nullable_def reading CORE_TYPE_LANES_def Let_def
        check_each_conforms [OF validateCoreDef_ok])
qed

lemma validateTrampoline_ok [simp]: "validateTrampoline j w = Inr () \<longleftrightarrow> conforms wire_trampoline j"
  by (auto simp: validateTrampoline_def wire_trampoline_def arm_def word_tag nullable_def reading precise_kinds_def
      suspending_kinds_def is_boolean_def Let_def)

lemma validateCanonicalOptions_ok [simp]: "validateCanonicalOptions j w = Inr () \<longleftrightarrow> conforms wire_canonical_options j"
proof -
  have "check_each validate_lane xs v = Inr () \<longleftrightarrow> list_all (conforms (SWord [''i32'', ''i64'', ''f32'', ''f64''])) xs" for xs v
    by (rule check_each_conforms) (simp add: validate_lane_def CORE_TYPE_LANES_def)
  then show ?thesis
    by (auto simp: validateCanonicalOptions_def wire_canonical_options_def nullable_def reading is_boolean_def Let_def)
qed

lemma validateIntrinsicEntry_ok [simp]: "validateIntrinsicEntry j w = Inr () \<longleftrightarrow> conforms wire_intrinsic_entry j"
  using sub_record(1) by (auto simp: validateIntrinsicEntry_def wire_intrinsic_entry_def reading)

lemma validateModule_ok [simp]: "validateModule j w = Inr () \<longleftrightarrow> conforms wire_module j"
  by (auto simp: validateModule_def wire_module_def arm_def word_tag reading Let_def check_each_conforms [OF validateIntrinsicEntry_ok])

lemma validateImport_ok [simp]: "validateImport j w = Inr () \<longleftrightarrow> conforms wire_import j"
proof -
  have "check_each (\<lambda>p v. expect (is_string p) v ''must be a string'') xs v = Inr () \<longleftrightarrow> list_all (conforms SString) xs" for xs v
    by (rule check_each_conforms) simp
  then show ?thesis by (auto simp: validateImport_def wire_import_def reading is_number_def)
qed

lemma validate_error_context_table_ok [simp]:
  "validate_error_context_table j w = Inr () \<longleftrightarrow> conforms wire_error_context_table j"
  by (auto simp: validate_error_context_table_def wire_error_context_table_def reading)

lemma validateTypeExport_ok [simp]: "validateTypeExport j w = Inr () \<longleftrightarrow> conforms wire_type_export j"
  by (auto simp: validateTypeExport_def wire_type_export_def arm_def word_tag reading Let_def)

lemma validateExport_ok [simp]: "validateExport j w = Inr () \<longleftrightarrow> wire_export j"
proof (induction j arbitrary: w rule: measure_induct_rule [where f = size])
  case (less j)
  have "check_each validateExport (elements (field ''exports'' j)) v = Inr () \<longleftrightarrow> list_all wire_export (elements (field ''exports'' j))" for v
    by (rule check_each_ok) (rule less.IH, rule size_field)
  then show ?case
    using sub_record(1,4)
    by (subst validateExport.simps, subst wire_export_unfold)
      (auto simp: wire_leaf_export_def arm_def word_tag reading Let_def list_all_iff)
qed


section \<open>Resource tables\<close>

fun names_resource :: "resource_table \<Rightarrow> rat option" where
  "names_resource (Concrete r i) = Some r"
| "names_resource (Abstract i) = None"

lemma length_resource_tokens [simp]: "length (resource_tokens n m ts) = length ts"
proof (induction ts arbitrary: n m)
  case (Cons t ts)
  then show ?case by (cases t) (simp_all split: option.split)
qed simp

lemma resource_tokens_id: "i < length ts \<Longrightarrow> rt_id (resource_tokens n m ts ! i) = n + i"
proof (induction ts arbitrary: n m i)
  case (Cons t ts)
  then show ?case by (cases t; cases i) (simp_all split: option.split)
qed simp

text \<open>The origins handed out so far are below the next identity, one for each resource.\<close>

definition origins_ok :: "nat \<Rightarrow> (rat \<Rightarrow> nat option) \<Rightarrow> bool" where
  "origins_ok n m \<longleftrightarrow> (\<forall>r k. m r = Some k \<longrightarrow> k < n \<and> (\<forall>s. m s = Some k \<longrightarrow> s = r))"

lemma origins_ok_next:
  assumes "origins_ok n m" shows "origins_ok (Suc n) m" "origins_ok (Suc n) (m(r \<mapsto> n))"
proof -
  have lt: "k < n" if "m s = Some k" for s k using assms that by (simp add: origins_ok_def)
  have inj: "s = t" if "m s = Some k" "m t = Some k" for s t k using assms that by (simp add: origins_ok_def)
  show "origins_ok (Suc n) m" unfolding origins_ok_def using lt inj by (simp add: less_SucI)
  have "m s \<noteq> Some n" "m s = Some k \<Longrightarrow> n \<noteq> k" for s k using lt by auto
  then show "origins_ok (Suc n) (m(r \<mapsto> n))" unfolding origins_ok_def using lt inj by (simp add: less_SucI)
qed

lemma resource_tokens_known:
  "origins_ok n m \<Longrightarrow> i < length ts \<Longrightarrow> m r = Some k \<Longrightarrow>
   rt_resource (resource_tokens n m ts ! i) = k \<longleftrightarrow> names_resource (ts ! i) = Some r"
proof (induction ts arbitrary: n m i)
  case (Cons t ts)
  note old = Cons.IH [OF origins_ok_next(1) [OF Cons.prems(1)], of "i - 1"]
  show ?case
  proof (cases "\<exists>s x. t = Concrete s x \<and> m s = None")
    case True
    then obtain s x where s: "t = Concrete s x" "m s = None" by blast
    then have r: "r \<noteq> s" "k < n" using Cons.prems by (auto simp: origins_ok_def)
    define m' where "m' = m(s \<mapsto> n)"
    have m': "origins_ok (Suc n) m'" "m' r = Some k"
      unfolding m'_def using origins_ok_next(2) [OF Cons.prems(1)] r Cons.prems(3) by simp_all
    have "resource_tokens n m (t # ts) = RTable n n # resource_tokens (Suc n) m' ts" by (simp add: s m'_def)
    then show ?thesis using s r Cons.prems Cons.IH [OF m'(1) _ m'(2), of "i - 1"] by (cases i) auto
  next
    case False
    then show ?thesis using old Cons.prems by (cases t; cases i) (auto simp: origins_ok_def)
  qed
qed simp

text \<open>The origin at the head of the list is named in the rest by the same resource only.\<close>

lemma resource_tokens_head:
  assumes "origins_ok n m" "l < length ts" "m s = None"
  shows "rt_resource (resource_tokens (Suc n) (m(s \<mapsto> n)) ts ! l) = n \<longleftrightarrow> names_resource (ts ! l) = Some s"
  using resource_tokens_known [OF origins_ok_next(2) [OF assms(1)] assms(2), of s s n] by simp

lemma resource_tokens_old:
  "origins_ok n m \<Longrightarrow> i < length ts \<Longrightarrow> rt_resource (resource_tokens n m ts ! i) < n \<Longrightarrow>
   \<exists>r. names_resource (ts ! i) = Some r \<and> m r \<noteq> None"
proof (induction ts arbitrary: n m i)
  case (Cons t ts)
  note old = Cons.IH [OF origins_ok_next(1) [OF Cons.prems(1)], of "i - 1"]
  show ?case
  proof (cases "\<exists>s x. t = Concrete s x \<and> m s = None")
    case True
    then obtain s x where s: "t = Concrete s x" "m s = None" by blast
    show ?thesis
    proof (cases i)
      case (Suc j)
      then have j: "j < length ts" "rt_resource (resource_tokens (Suc n) (m(s \<mapsto> n)) ts ! j) < n" using Cons.prems s by auto
      from Cons.IH [OF origins_ok_next(2) [OF Cons.prems(1)] j(1)] j(2)
      obtain r where r: "names_resource (ts ! j) = Some r" "(m(s \<mapsto> n)) r \<noteq> None" by (meson less_SucI)
      have "r \<noteq> s" using resource_tokens_head [OF Cons.prems(1) j(1) s(2)] j(2) r(1) by auto
      then show ?thesis using Suc r by simp
    qed (use s Cons.prems in simp)
  next
    case False
    then show ?thesis using old Cons.prems by (cases t; cases i) auto
  qed
qed simp

lemma resource_tokens_fresh:
  assumes "origins_ok n m" "l < length ts"
  shows "rt_resource (resource_tokens (Suc n) m ts ! l) \<noteq> n"
proof
  note o' = origins_ok_next(1) [OF assms(1)]
  assume n: "rt_resource (resource_tokens (Suc n) m ts ! l) = n"
  then obtain r k where r: "names_resource (ts ! l) = Some r" "m r = Some k"
    using resource_tokens_old [OF o' assms(2)] by auto
  then have "n = k" using resource_tokens_known [OF o' assms(2) r(2)] n by simp
  then show False using assms(1) r(2) by (auto simp: origins_ok_def)
qed

lemma share_Cons:
  assumes "\<And>l. l < length ts \<Longrightarrow> rt_resource (us ! l) = k \<longleftrightarrow> q \<noteq> None \<and> names_resource (ts ! l) = q"
    and "\<And>i j. i < length ts \<Longrightarrow> j < length ts \<Longrightarrow> rt_resource (us ! i) = rt_resource (us ! j) \<longleftrightarrow>
       i = j \<or> (\<exists>r. names_resource (ts ! i) = Some r \<and> names_resource (ts ! j) = Some r)"
    and "names_resource t = q" "i < length (t # ts)" "j < length (t # ts)"
  shows "rt_resource ((RTable n k # us) ! i) = rt_resource ((RTable n k # us) ! j) \<longleftrightarrow>
     i = j \<or> (\<exists>r. names_resource ((t # ts) ! i) = Some r \<and> names_resource ((t # ts) ! j) = Some r)"
proof -
  have head: "k = rt_resource (us ! l) \<longleftrightarrow> (\<exists>r. q = Some r \<and> names_resource (ts ! l) = Some r)"
    "rt_resource (us ! l) = k \<longleftrightarrow> (\<exists>r. names_resource (ts ! l) = Some r \<and> q = Some r)" if "l < length ts" for l
    using assms(1) [OF that] by auto
  show ?thesis using assms(2-5) head by (cases i; cases j) simp_all
qed

lemma resource_tokens_share:
  "origins_ok n m \<Longrightarrow> i < length ts \<Longrightarrow> j < length ts \<Longrightarrow>
   rt_resource (resource_tokens n m ts ! i) = rt_resource (resource_tokens n m ts ! j) \<longleftrightarrow>
     i = j \<or> (\<exists>r. names_resource (ts ! i) = Some r \<and> names_resource (ts ! j) = Some r)"
proof (induction ts arbitrary: n m i j)
  case (Cons t ts)
  note next1 = origins_ok_next(1) [OF Cons.prems(1)] and next2 = origins_ok_next(2) [OF Cons.prems(1)]
  note step = share_Cons [OF _ _ _ Cons.prems(2,3)]
  show ?case
  proof (cases t)
    case (Abstract x)
    show ?thesis
      unfolding Abstract resource_tokens.simps
      by (rule step [unfolded Abstract, where q = None])
        (simp_all add: Cons.IH [OF next1] resource_tokens_fresh [OF Cons.prems(1)])
  next
    case (Concrete s x)
    show ?thesis
    proof (cases "m s")
      case None
      have "resource_tokens n m (t # ts) = RTable n n # resource_tokens (Suc n) (m(s \<mapsto> n)) ts" by (simp add: Concrete None)
      then show ?thesis
        by (simp only:) (rule step [where q = "Some s"], simp_all only: resource_tokens_head [OF Cons.prems(1) _ None]
            Cons.IH [OF next2] Concrete names_resource.simps, simp)
    next
      case (Some k)
      have "resource_tokens n m (t # ts) = RTable n k # resource_tokens (Suc n) m ts" by (simp add: Concrete Some)
      then show ?thesis
        by (simp only:) (rule step [where q = "Some s"], simp_all add: resource_tokens_known [OF next1 _ Some]
            Cons.IH [OF next1] Concrete)
    qed
  qed
qed simp

lemma loadPlan_parts:
  assumes "loadPlan next p = Inr l"
  shows "validate_sections p = Inr ()" "lp_resourceTokens l = resource_tokens next (\<lambda>_. None) (the (wp_resourceTables p))"
    "result_tuples 0 (length (the (wp_types p))) (\<lambda>_. None) (elements (wp_trampolines p)) = Inr (lp_resultTupleTypes l)"
  using assms by (auto simp: loadPlan_def Let_def split: if_splits)

text \<open>A plan for the examples: two tables of one resource and an abstract one, a type that refers to
  the second table, a trampoline with its declared result.\<close>

definition sample_plan :: wire_plan where
  "sample_plan = \<lparr>wp_formatVersion = JNumber 6, wp_modules = JArray [], wp_initializers = JArray [],
     wp_trampolines = JArray [JObject [(''kind'', JString ''task-return''), (''index'', JNumber 0), (''instance'', JNumber 0),
       (''results'', JNumber 7), (''resultType'', JNumber 1), (''options'', JNumber 0)]],
     wp_canonicalOptions = JArray [], wp_types = Some [WValue (WPrim PU32), WValue (WTuple [WOwn 1])],
     wp_resourceTables = Some [Concrete 5 0, Concrete 5 0, Abstract 0], wp_streamTables = Some [], wp_futureTables = Some [],
     wp_errorContextTables = JArray [], wp_importedResources = None, wp_imports = JArray [], wp_exports = JArray []\<rparr>"

lemma sample_plan_loads: "loadPlan 0 sample_plan = Inr (projr (loadPlan 0 sample_plan))"
proof -
  have "\<not> isl (loadPlan 0 sample_plan)" by code_simp
  then show ?thesis by simp
qed

text \<open>C37. The tokens of a loaded plan: each table has a fresh identity of its own, also when two
  tables of one instance name the same resource, and two tables share the origin of their resource
  exactly when both are concrete and name the same one.\<close>

theorem resource_identities:
  assumes "loadPlan next p = Inr l" "wp_resourceTables p = Some ts"
  shows "length (lp_resourceTokens l) = length ts \<and>
    (\<forall>i<length ts. rt_id (lp_resourceTokens l ! i) = next + i) \<and>
    (\<forall>i<length ts. \<forall>j<length ts. rt_resource (lp_resourceTokens l ! i) = rt_resource (lp_resourceTokens l ! j) \<longleftrightarrow>
       i = j \<or> (\<exists>r a b. ts ! i = Concrete r a \<and> ts ! j = Concrete r b))"
proof -
  have "names_resource t = Some r \<longleftrightarrow> (\<exists>a. t = Concrete r a)" for t r by (cases t) auto
  moreover have "origins_ok next (\<lambda>_. None)" by (simp add: origins_ok_def)
  ultimately show ?thesis
    using loadPlan_parts(2) [OF assms(1)] assms(2) by (simp add: resource_tokens_id resource_tokens_share)
qed

lemma resource_identities_witness:
  "rt_resource (lp_resourceTokens (projr (loadPlan 0 sample_plan)) ! 0) = rt_resource (lp_resourceTokens (projr (loadPlan 0 sample_plan)) ! 1) \<and>
   rt_id (lp_resourceTokens (projr (loadPlan 0 sample_plan)) ! 1) = 1"
proof -
  have "wp_resourceTables sample_plan = Some [Concrete 5 0, Concrete 5 0, Abstract 0]" by (simp add: sample_plan_def)
  note ids = resource_identities [OF sample_plan_loads this]
  have "0 < length [Concrete 5 0, Concrete 5 0, Abstract 0]" "1 < length [Concrete 5 0, Concrete 5 0, Abstract 0]" by simp_all
  with ids show ?thesis by auto
qed

section \<open>Result tuples\<close>

text \<open>A \<open>task-return\<close> trampoline declares that the tuple \<open>k\<close> is the type \<open>r\<close> of the plan.\<close>

definition declares_tuple :: "json \<Rightarrow> rat \<Rightarrow> rat \<Rightarrow> bool" where
  "declares_tuple t k r \<longleftrightarrow>
     tag_of ''kind'' t = ''task-return'' \<and> field ''results'' t = JNumber k \<and> field ''resultType'' t = JNumber r"

lemma result_tuples_skip:
  "\<not> declares_tuple t a b \<Longrightarrow> (\<And>a b. \<not> declares_tuple t a b) \<Longrightarrow> result_tuples i n m (t # ts) = result_tuples (i + 1) n m ts"
  by (auto simp: declares_tuple_def split: json.split)

lemma result_tuples_declared:
  "declares_tuple t a b \<Longrightarrow> result_tuples i n m (t # ts) = Inr m' \<longleftrightarrow>
     0 \<le> b \<and> b < of_nat n \<and> (m a = None \<or> m a = Some b) \<and> result_tuples (i + 1) n (m(a \<mapsto> b)) ts = Inr m'"
  by (auto simp: declares_tuple_def simp del: fun_upd_apply)

declare result_tuples.simps(2) [simp del]

lemma result_tuples_Inr:
  "result_tuples i n m ts = Inr m' \<Longrightarrow>
   (m' k = Some r \<longleftrightarrow> m k = Some r \<or> (\<exists>t\<in>set ts. declares_tuple t k r)) \<and>
   (\<forall>t\<in>set ts. declares_tuple t k r \<longrightarrow> 0 \<le> r \<and> r < of_nat n)"
proof (induction ts arbitrary: i m)
  case (Cons t ts)
  show ?case
  proof (cases "\<exists>a b. declares_tuple t a b")
    case True
    then obtain a b where d: "declares_tuple t a b" by blast
    then have iff: "declares_tuple t k r \<longleftrightarrow> k = a \<and> r = b" by (auto simp: declares_tuple_def)
    have run: "0 \<le> b" "b < of_nat n" "m a = None \<or> m a = Some b" "result_tuples (i + 1) n (m(a \<mapsto> b)) ts = Inr m'"
      using Cons.prems result_tuples_declared [OF d] by blast+
    show ?thesis using Cons.IH [OF run(4)] run(1,2,3) iff by (cases "k = a") auto
  next
    case False
    then have "result_tuples (i + 1) n m ts = Inr m'" using Cons.prems result_tuples_skip by fastforce
    then show ?thesis using Cons.IH False by fastforce
  qed
qed simp

text \<open>C38. The dictionary of a loaded plan is exactly what its \<open>task-return\<close> trampolines declare, so no
  two of them disagree on a tuple, and every type it names is in the table of types.\<close>

theorem result_tuples_agree:
  assumes "loadPlan next p = Inr l"
  shows "(lp_resultTupleTypes l k = Some r \<longleftrightarrow> (\<exists>t\<in>set (elements (wp_trampolines p)). declares_tuple t k r)) \<and>
    (lp_resultTupleTypes l k = Some r \<longrightarrow> 0 \<le> r \<and> r < of_nat (length (the (wp_types p))))"
  using result_tuples_Inr [OF loadPlan_parts(3) [OF assms], of k r] by auto

lemma result_tuples_agree_witness: "lp_resultTupleTypes (projr (loadPlan 0 sample_plan)) 7 = Some 1"
proof -
  have "\<exists>t\<in>set (elements (wp_trampolines sample_plan)). declares_tuple t 7 1"
    by (simp add: sample_plan_def declares_tuple_def elements_def tag_of_def field_def members_def)
  then show ?thesis using result_tuples_agree [OF sample_plan_loads, of 7 1] by blast
qed

end
