(* ===== verification/Spec2Isabelle.thy ===== *)
theory Spec2Isabelle
  imports Cabi_Flat_Roundtrip Cabi_Frame Async_Values Async_Reach Task_Props Transcode_Props Import_Props Plan_Props
begin

text \<open>
  A model of the runtime of polyengine, a host of WebAssembly components written in TypeScript
  (\<open>runtime/src\<close>), and what makes it correct.

  \<^bold>\<open>The program.\<close> A component is a set of instances, each with a linear memory, a table of
  handles and tables of threads. Calls cross the borders of instances through the canonical ABI
  (\<open>cabi/\<close>): values of the interface types are loaded from and stored to the memory of an
  instance, or passed in flat lanes of core types. Resource handles move between tables, a
  borrowed one is lent for the time of a call. Calls may be asynchronous (\<open>task/\<close>): a lifted
  export is a task with a thread; tasks wait at the gate of their instance, take its exclusive
  slot, run core functions, yield, wait for events and are cancelled. Streams and futures carry
  values between instances and the host: two ends share an object that pairs a read with a
  write. The built-ins that guests call are in \<open>intrinsics/\<close>, the entry of a call in
  \<open>exec/boundary.ts\<close>. Adapters between two components call transcoders for strings. The
  embedder provides imports under versioned names, which \<open>embedder/version.ts\<close> resolves.

  \<^bold>\<open>Vocabulary.\<close> \<open>Prelude\<close> has the errors that the code throws (\<open>err\<close>: \<open>trap\<close>, a failed
  \<open>assert\<close>, a \<open>TypeError\<close> of the language, what needs an absent capability, \<dots>), the result \<open>err + 'a\<close> of pure
  code, and the monad \<open>('s, 'a) m\<close> of stateful code: a throw keeps the state of the moment, as
  in JavaScript. \<open>wp\<close> is its predicate transformer with one postcondition for the normal and
  one for the exceptional end, and \<open>preserves\<close> and \<open>keeps\<close> say that an operation leaves a
  predicate alone whatever its outcome; the rule collections built on them carry the proofs.
  An object with an identity is its place in a list of the state; a closure that the code
  stores is a constructor that names it. The text of a message is that of the code without the
  values it appends.

  \<^bold>\<open>Values and memory\<close> (\<open>runtime/src/cabi\<close>).
  \<^item> \<open>Cabi_Types\<close> (\<open>types.ts\<close>), \<open>Cabi_Layout\<close> (\<open>layout.ts\<close>), \<open>Cabi_Flatten\<close> (\<open>flatten.ts\<close>):
    descriptors, byte layout and flat form. Every valid type has an aligned layout, fields are
    placed in order and disjoint, each case of a variant fits its joined lanes, signatures
    respect the flat limits.
  \<^item> \<open>Js_Float\<close> (\<open>float.ts\<close>): a JavaScript number as the 64 bits of a double, narrowing and
    widening, canonical NaN.
  \<^item> \<open>Handle_Table\<close> (\<open>class Table\<close> of \<open>handles.ts\<close>): the locale \<open>index_table\<close> is what its
    clients rely on, interpreted on the code's array with free list and tenure stamps; a stamp
    identifies one insertion.
  \<^item> \<open>Cabi_Memory\<close> (\<open>memory.ts\<close>, \<open>context.ts\<close>): the state \<open>cst\<close> of an instance (memory, handles,
    \<open>may_leave\<close>), the context \<open>cx\<close> with the guest's \<open>realloc\<close> and the hooks as functions,
    integer accesses, ranges, allocation.
  \<^item> \<open>Cabi_Handles\<close> (\<open>handles.ts\<close>, \<open>task/subtask.ts\<close>): own and borrow values, \<open>resource.new\<close>,
    \<open>drop\<close>, \<open>rep\<close>, lenders of subtasks. The lending invariant ties the lends of a handle to the
    subtasks that hold it, so a lent handle cannot leave its table.
  \<^item> \<open>Cabi_Strings\<close> (\<open>strings.ts\<close>): the three encodings with their reallocating store loops,
    chars, UTF-8 diagnostics. \<open>Cabi_Load_Store\<close> (\<open>load.ts\<close>, \<open>store.ts\<close>, \<open>bulk_lists.ts\<close>) and
    \<open>Cabi_Roundtrip\<close>: what is stored is loaded, and the typed-array path is the element loop.
  \<^item> \<open>Cabi_Lift_Lower\<close> (\<open>lift.ts\<close>, \<open>lower.ts\<close>, \<open>values.ts\<close>) and \<open>Cabi_Flat_Roundtrip\<close>: flat
    lanes, the coercion of variant lanes, the spill of wide lists, and their round trips.
  \<^item> \<open>Cabi_Frame\<close>: the locale \<open>abi_invariant\<close>. An invariant that the allocator, the handle
    operations and the hooks keep is kept by every load and store; interpreted on the lending
    invariant here, and on the streams' heap in \<open>Async_Env\<close>.

  \<^bold>\<open>Streams and events\<close> (\<open>runtime/src/task\<close>, \<open>runtime/src/intrinsics\<close>).
  \<^item> \<open>Waitables\<close> (\<open>waitable.ts\<close>): waitables, sets, waits as operations \<open>enter\<close>, \<open>resume\<close>,
    \<open>leave\<close>; the locale \<open>event_source\<close> is what delivery needs of the thunk of an event, and is
    interpreted on the events of streams and subtasks in \<open>Async_Steps\<close>.
  \<^item> \<open>Stream_Buffers\<close>, \<open>Streams\<close> (\<open>streams.ts\<close>, \<open>exec/host_streams.ts\<close>): buffers, shared objects
    with their pending slot, ends, rendezvous, drops. \<open>Async_Builtins\<close> (\<open>stream_builtins.ts\<close>,
    \<open>async_builtins.ts\<close>), \<open>Async_Values\<close> (\<open>cabi/async_values.ts\<close>): the operations of guests.
    A built-in that blocks its frame returns \<open>Parked\<close>, its continuation is \<open>\<dots>_resume\<close>.
  \<^item> \<open>Stream_Inv\<close>, \<open>Stream_Steps\<close>, \<open>Stream_Protocol\<close>, \<open>Async_Invariant\<close>, \<open>Async_Steps\<close>,
    \<open>Async_Env\<close>: the invariant \<open>sinv\<close> (tables are typed, the slot is owned, sets and waitables
    agree, buffers are bounded) and \<open>live\<close> (no end that waits is forgotten).
  \<^item> \<open>Async_Reach\<close>: one relation \<open>async_step\<close> of all operations of guests, frames and host, in
    any order; every world it reaches satisfies \<open>sinv\<close>, and \<open>live\<close> while nothing has trapped.

  \<^bold>\<open>Tasks and the scheduler\<close> (\<open>task/mod.ts\<close>, \<open>thread.ts\<close>, \<open>scheduler.ts\<close>, \<open>exec/boundary.ts\<close>).
  \<^item> \<open>Tasks\<close>: tasks, threads, instances and the store \<open>task_store\<close>, which extends the world of
    streams. \<open>Task_Bodies\<close>: \<open>liftBody\<close> and \<open>runCallbackLoop\<close> as generators, \<open>Thread.resume\<close>,
    \<open>Store.tick\<close> and the other turns, cancellation, poisoning. \<open>Task_Builtins\<close>: the built-ins on
    tasks and threads, and the entry of a call.
  \<^item> The body of a thread is a place \<open>th_pc\<close> and one operation from each stop to the next. A core
    function is a place too: the guest's code is then a step of the world, which may be any
    built-in or anything that leaves the tasks alone. The push of \<open>withActivation\<close> on the stack
    of threads that repeats the one of \<open>resume\<close> is merged with it.
  \<^item> \<open>Task_Inv\<close>, \<open>Task_Inert\<close>, \<open>Task_Flight\<close>, \<open>Task_Segments\<close>, \<open>Task_Moves\<close>: the invariant \<open>tinv F d\<close>,
    which exempts the threads \<open>F\<close> under way and counts those inside the gate, and the proof that
    each operation keeps it, whether it succeeds or throws.
  \<^item> \<open>Task_Reach\<close>: the relation \<open>task_step\<close> of all of these, and \<open>runs\<close>. \<open>Task_Life\<close>: the abstract
    life cycle of a task and the refinement. \<open>Task_Props\<close>: mutual exclusion, the books of gate
    and slot, resolution once, delivery of cancellation, progress at the gate.

  \<^bold>\<open>Strings between memories.\<close> \<open>Transcode\<close> (\<open>intrinsics/transcode.ts\<close>): the twelve transcoders as
  transformers of the destination memory, which take the source memory as it is when they are
  called; all of them read their source before they write. \<open>Transcode_Lemmas\<close> proves the two
  passes into UTF-8 once, in the locale \<open>utf8_passes\<close>, for both source encodings.
  \<open>Transcode_Props\<close>: the protocols of one or two calls write the whole string and nothing else.

  \<^bold>\<open>Imports.\<close> \<open>Import_Versions\<close> (\<open>embedder/version.ts\<close>): interface ids, semantic versions, tracks,
  registration and resolution. \<open>Import_Props\<close>: versions are linearly ordered, registration fails
  exactly on an ambiguity or a dead key, an import goes to the highest compatible version.

  \<^bold>\<open>Plans.\<close> A component reaches the runtime as a translated plan. \<open>Plan_Loader\<close> (\<open>plan/loader.ts\<close>)
  checks the shape of what the executor interprets, a JSON value, and converts the types, which
  it takes at their wire type. \<open>Plan_Props\<close> has the wire types of \<open>plan/format.ts\<close> as schemas and shows
  that the checks accept exactly these; then the identities of resource tables and the dictionary
  of result tuples.

  \<^bold>\<open>Bounds and termination.\<close> Every definition is total. Recursion over types is on their size;
  loops over ranges have a measure; no definition takes fuel. A loop of the code that may wait
  for ever (the callback loop, the drive of a synchronous lift) is broken at its stops, so each
  turn is one operation and the relation of steps has the runs of any length. Machine integers
  are words or carry their \<open>mod\<close>; sizes and addresses are natural numbers, exact in JavaScript
  below \<open>2 ^ 53\<close>, as is the number of a digit string in a version; the numbers of a plan are
  rationals.

  \<^bold>\<open>What the properties assume.\<close> Of the environment: \<open>calm_env\<close> and \<open>env_ok\<close> (a guest's allocator
  and the host's callbacks do not change the state of streams themselves, only buffers and
  memories) and \<open>calls_inert\<close> (\<open>onStart\<close>, \<open>onResolve\<close> and the host's stream callbacks leave the
  tasks alone while they run; what they schedule runs as steps of its own). Each is witnessed by
  a concrete environment.

  \<^bold>\<open>Not modelled.\<close> The suspension of frames through JavaScript Promise Integration: suspension
  points, required synchronous parks, the activations of synchronous adapter calls, and the
  thread built-ins that suspend; they wrap an API of the engine. Publication of results to the
  host, promise-shaped drivers, the executor and the instantiation of modules: promises and
  WebAssembly of the engine. The envelope around a plan, the trampoline table and the calls of
  adapters. The rest of the embedder, which converts host values. Module cache, digests,
  translator, command-line tools and the WASI host: input and output. Traces on the console and
  caches of pure functions have no effect and are left out.
\<close>

end
